(* ===== verification/Prelude.thy ===== *)
theory Prelude
  imports Main "HOL-Library.Word" "HOL-Library.AList" "HOL-Library.Code_Target_Nat"
begin

text \<open>
  Shared vocabulary of the development: Go's machine integers as words read by \<^const>\<open>sint\<close>,
  Go's maps as association lists with distinct keys (their order stands for one possible
  iteration order), times and durations, and the collections of rewrite rules the component
  theories extend.
\<close>

named_theorems go_simps \<open>equations of the modelled Go operations, for symbolic execution\<close>
named_theorems go_bounds \<open>range facts about machine integers and lengths\<close>

section \<open>Machine integers\<close>

text \<open>
  Go's \<open>int64\<close> and \<open>int8\<close> are words; \<open>+\<close>, \<open>-\<close> and \<open>*\<close> wrap as they do in Go, and comparison
  goes through \<^const>\<open>sint\<close>.
\<close>

type_synonym i64 = "64 word"
type_synonym i8 = "8 word"

abbreviation max_i64 :: int where "max_i64 \<equiv> 9223372036854775807"
abbreviation min_i64 :: int where "min_i64 \<equiv> - 9223372036854775808"

definition in_i64 :: "int \<Rightarrow> bool" where
  "in_i64 x \<longleftrightarrow> min_i64 \<le> x \<and> x \<le> max_i64"

lemma sint_i64_bounds [go_bounds]:
  "min_i64 \<le> sint (a :: i64)" "sint (a :: i64) \<le> max_i64"
  using sint_greater_eq [of a] sint_less [of a] by simp_all

lemma sint_i8_bounds [go_bounds]:
  "- 128 \<le> sint (a :: i8)" "sint (a :: i8) \<le> 127"
  using sint_greater_eq [of a] sint_less [of a] by simp_all

lemma in_i64_sint [simp, intro]: "in_i64 (sint (a :: i64))"
  by (simp add: in_i64_def sint_i64_bounds)

lemma sint_of_int_i64: "in_i64 x \<Longrightarrow> sint (word_of_int x :: i64) = x"
  unfolding in_i64_def by (simp add: sint_sbintrunc' signed_take_bit_int_eq_self)

lemma sint_of_int_i8: "- 128 \<le> x \<Longrightarrow> x \<le> 127 \<Longrightarrow> sint (word_of_int x :: i8) = x"
  by (simp add: sint_sbintrunc' signed_take_bit_int_eq_self)

lemma sint_add_i64: "in_i64 (sint a + sint b) \<Longrightarrow> sint (a + b :: i64) = sint a + sint b"
  using sint_of_int_i64 [of "sint a + sint b"] by simp

lemma sint_diff_i64: "in_i64 (sint a - sint b) \<Longrightarrow> sint (a - b :: i64) = sint a - sint b"
  using sint_of_int_i64 [of "sint a - sint b"] by simp

lemma sint_mult_i64: "in_i64 (sint a * sint b) \<Longrightarrow> sint (a * b :: i64) = sint a * sint b"
  using sint_of_int_i64 [of "sint a * sint b"] by simp

text \<open>Go's \<open>/\<close> and \<open>%\<close> on \<open>int64\<close> truncate towards zero.\<close>

definition quot_to_zero :: "int \<Rightarrow> int \<Rightarrow> int" where
  "quot_to_zero n d = (let q = \<bar>n\<bar> div \<bar>d\<bar> in if (n < 0) = (d < 0) then q else - q)"

lemma le_div_iff_int: "0 < (p::int) \<Longrightarrow> a \<le> b div p \<longleftrightarrow> a * p \<le> b"
proof
  assume p: "0 < p"
  show "a * p \<le> b" if "a \<le> b div p"
    using mult_right_mono [OF that, of p] p minus_mod_eq_div_mult [of b p] pos_mod_sign [OF p, of b]
    by linarith
  show "a \<le> b div p" if "a * p \<le> b"
    using zdiv_mono1 [OF that p] p by simp
qed

definition div_i64 :: "i64 \<Rightarrow> i64 \<Rightarrow> i64" where
  "div_i64 a b = word_of_int (quot_to_zero (sint a) (sint b))"

definition mod_i64 :: "i64 \<Rightarrow> i64 \<Rightarrow> i64" where
  "mod_i64 a b = a - div_i64 a b * b"

lemma quot_to_zero_nonneg: "0 \<le> a \<Longrightarrow> 0 < b \<Longrightarrow> quot_to_zero a b = a div b"
  by (simp add: quot_to_zero_def)

lemma sint_div_i64:
  assumes "0 \<le> sint a" "0 < sint b"
  shows "sint (div_i64 a b) = sint a div sint b"
proof -
  have "sint a div sint b \<le> sint a div 1" using assms by (intro zdiv_mono2) simp_all
  then have "sint a div sint b \<le> max_i64" using sint_i64_bounds(2) [of a] by simp
  moreover have "0 \<le> sint a div sint b" using assms by (simp add: pos_imp_zdiv_nonneg_iff)
  ultimately have "in_i64 (sint a div sint b)" unfolding in_i64_def by linarith
  then show ?thesis using assms by (simp add: div_i64_def quot_to_zero_nonneg sint_of_int_i64)
qed

lemma sint_mod_i64:
  assumes "0 \<le> sint a" "0 < sint b"
  shows "sint (mod_i64 a b) = sint a mod sint b"
proof -
  have q: "sint (div_i64 a b) = sint a div sint b" using sint_div_i64 [OF assms] .
  have prod: "sint a div sint b * sint b = sint a - sint a mod sint b"
    by (metis minus_mod_eq_div_mult)
  have m: "0 \<le> sint a mod sint b" "sint a mod sint b \<le> sint a"
    using assms by (simp_all add: zmod_le_nonneg_dividend)
  have "sint (div_i64 a b * b) = sint a - sint a mod sint b"
    using m sint_i64_bounds [of a] by (subst sint_mult_i64) (simp_all add: q prod in_i64_def)
  then show ?thesis
    using m sint_i64_bounds [of a] unfolding mod_i64_def
    by (subst sint_diff_i64) (simp_all add: in_i64_def)
qed

lemma sint_eq_iff_i64: "sint (a :: i64) = sint b \<longleftrightarrow> a = b"
  by (auto intro: signed_word_eqI)

lemma word_of_int_sint_i64 [simp]: "word_of_int (sint (a :: i64)) = a"
  by simp

text \<open>A running sum over a list, as a Go loop \<open>total += x\<close> computes it.\<close>

fun sum_i64 :: "i64 list \<Rightarrow> i64" where
  "sum_i64 [] = 0"
| "sum_i64 (x # xs) = x + sum_i64 xs"

lemma sum_i64_append [simp]: "sum_i64 (xs @ ys) = sum_i64 xs + sum_i64 ys"
  by (induction xs) (simp_all add: add.assoc)

lemma sum_i64_foldl: "foldl (+) a xs = a + sum_i64 xs"
  by (induction xs arbitrary: a) (simp_all add: add.assoc)

lemma sum_i64_eq_sum_list: "sum_i64 xs = sum_list xs"
  by (induction xs) simp_all

lemma sum_i64_word_of_int: "sum_i64 xs = word_of_int (\<Sum>x\<leftarrow>xs. sint x)"
  by (induction xs) (simp_all flip: wi_hom_add)

text \<open>As long as the true sum of non-negative amounts fits, the wrapped sum is the true sum.\<close>

lemma sint_sum_i64:
  assumes "\<forall>x \<in> set xs. 0 \<le> sint x" and "(\<Sum>x\<leftarrow>xs. sint x) \<le> max_i64"
  shows "sint (sum_i64 xs) = (\<Sum>x\<leftarrow>xs. sint x)"
  using assms
proof (induction xs)
  case Nil
  then show ?case by simp
next
  case (Cons x xs)
  have pos: "0 \<le> sint x" "0 \<le> (\<Sum>y\<leftarrow>xs. sint y)"
    using Cons.prems(1) by (auto intro!: sum_list_nonneg)
  then have "sint (sum_i64 xs) = (\<Sum>y\<leftarrow>xs. sint y)"
    using Cons by simp
  moreover have "in_i64 (sint x + (\<Sum>y\<leftarrow>xs. sint y))"
    using pos Cons.prems(2) by (simp add: in_i64_def)
  ultimately show ?case by (simp add: sint_add_i64)
qed

section \<open>Times and durations\<close>

text \<open>
  A \<open>time.Time\<close> is its instant, in nanoseconds since the Unix epoch; the zero \<open>Time\<close> is
  midnight of the first of January of year 1. A \<open>time.Duration\<close> is an \<open>int64\<close> of nanoseconds,
  held as its value. \<open>Time.Sub\<close> saturates at the ends of the \<open>int64\<close> range.
\<close>

type_synonym time = int
type_synonym duration = int

definition second :: duration where "second = 1000000000"
definition minute :: duration where "minute = 60 * second"
definition hour :: duration where "hour = 60 * minute"

lemmas duration_units = second_def minute_def hour_def

definition zero_time :: time where "zero_time = - 62135596800 * second"

definition is_zero_time :: "time \<Rightarrow> bool" where
  "is_zero_time t \<longleftrightarrow> t = zero_time"

definition unix_time :: "int \<Rightarrow> time" where
  "unix_time s = s * second"

definition time_unix :: "time \<Rightarrow> int" where
  "time_unix t = t div second"

definition time_sub :: "time \<Rightarrow> time \<Rightarrow> duration" where
  "time_sub t u = (let d = t - u in if d < min_i64 then min_i64 else if d > max_i64 then max_i64 else d)"

lemma time_unix_unix_time [simp]: "time_unix (unix_time s) = s"
  by (simp add: time_unix_def unix_time_def second_def)

lemma unix_time_zero_iff: "is_zero_time (unix_time s) \<longleftrightarrow> s = - 62135596800"
  by (simp add: is_zero_time_def zero_time_def unix_time_def second_def)

lemma unix_time_eq_zero [simp]: "unix_time s = zero_time \<longleftrightarrow> s = - 62135596800"
  using unix_time_zero_iff [of s] by (simp add: is_zero_time_def)

lemma time_sub_exact: "in_i64 (t - u) \<Longrightarrow> time_sub t u = t - u"
  by (simp add: time_sub_def in_i64_def)

section \<open>Go maps\<close>

text \<open>
  A non-nil Go map is an association list with distinct keys. Reading a missing key gives the
  zero value of the value type (\<open>map_get\<close>), writing replaces or adds (\<open>AList.update\<close>).
\<close>

type_synonym ('k, 'v) gomap = "('k \<times> 'v) list"

definition map_ok :: "('k, 'v) gomap \<Rightarrow> bool" where
  "map_ok m \<longleftrightarrow> distinct (map fst m)"

definition map_get :: "'v \<Rightarrow> ('k, 'v) gomap \<Rightarrow> 'k \<Rightarrow> 'v" where
  "map_get zero m k = (case map_of m k of None \<Rightarrow> zero | Some v \<Rightarrow> v)"

definition map_has :: "('k, 'v) gomap \<Rightarrow> 'k \<Rightarrow> bool" where
  "map_has m k \<longleftrightarrow> map_of m k \<noteq> None"

abbreviation map_put :: "'k \<Rightarrow> 'v \<Rightarrow> ('k, 'v) gomap \<Rightarrow> ('k, 'v) gomap" where
  "map_put \<equiv> AList.update"

abbreviation map_del :: "'k \<Rightarrow> ('k, 'v) gomap \<Rightarrow> ('k, 'v) gomap" where
  "map_del \<equiv> AList.delete"

lemma map_ok_Nil [simp]: "map_ok []"
  by (simp add: map_ok_def)

lemma map_ok_put [simp]: "map_ok m \<Longrightarrow> map_ok (map_put k v m)"
  by (simp add: map_ok_def distinct_update)

lemma map_ok_del [simp]: "map_ok m \<Longrightarrow> map_ok (map_del k m)"
  by (simp add: map_ok_def distinct_delete)

lemma map_of_put [simp]: "map_of (map_put k v m) = (map_of m)(k \<mapsto> v)"
  by (simp add: update_conv')

lemma map_of_del [simp]: "map_of (map_del k m) = (map_of m)(k := None)"
  by (rule ext) (simp add: delete_conv')

lemma map_get_put [simp]: "map_get z (map_put k v m) k' = (if k' = k then v else map_get z m k')"
  by (simp add: map_get_def)

lemma map_get_Nil [simp]: "map_get z [] k = z"
  by (simp add: map_get_def)

lemma map_has_put [simp]: "map_has (map_put k v m) k' \<longleftrightarrow> k' = k \<or> map_has m k'"
  by (simp add: map_has_def)

lemma map_has_Nil [simp]: "\<not> map_has [] k"
  by (simp add: map_has_def)

lemma map_has_iff: "map_has m k \<longleftrightarrow> k \<in> fst ` set m"
  by (simp add: map_has_def map_of_eq_None_iff)

lemma map_ok_map_of: "map_ok m \<Longrightarrow> map_of m k = Some v \<longleftrightarrow> (k, v) \<in> set m"
  by (simp add: map_ok_def map_of_eq_Some_iff)

lemma map_get_in: "map_ok m \<Longrightarrow> (k, v) \<in> set m \<Longrightarrow> map_get z m k = v"
  by (simp add: map_get_def flip: map_ok_map_of)

lemma set_map_putD: "x \<in> set (map_put k v m) \<Longrightarrow> x = (k, v) \<or> x \<in> set m"
  by (induction m) (auto split: if_splits)

lemma map_sum_Inr: "map_sum f g x = Inr y \<longleftrightarrow> (\<exists>z. x = Inr z \<and> y = g z)"
  by (cases x) auto

text \<open>\<open>m[k] += v\<close> on a map of \<open>int64\<close>.\<close>

definition map_add :: "'k \<Rightarrow> i64 \<Rightarrow> ('k, i64) gomap \<Rightarrow> ('k, i64) gomap" where
  "map_add k v m = map_put k (map_get 0 m k + v) m"

lemma map_get_add [simp]:
  "map_get 0 (map_add k v m) k' = (if k' = k then map_get 0 m k + v else map_get 0 m k')"
  by (simp add: map_add_def)

lemma map_ok_add [simp]: "map_ok m \<Longrightarrow> map_ok (map_add k v m)"
  by (simp add: map_add_def)

lemma map_has_add [simp]: "map_has (map_add k v m) k' \<longleftrightarrow> k' = k \<or> map_has m k'"
  by (simp add: map_add_def)

text \<open>Accumulating a list of (key, amount) pairs: each key ends with the sum of its amounts.\<close>

lemma map_get_fold_add:
  "map_get 0 (fold (\<lambda>x m. map_add (f x) (g x) m) xs m) k
     = map_get 0 m k + sum_i64 [g x. x \<leftarrow> xs, f x = k]"
  by (induction xs arbitrary: m) (simp_all add: add.assoc)

lemma map_ok_fold_add: "map_ok m \<Longrightarrow> map_ok (fold (\<lambda>x m. map_add (f x) (g x) m) xs m)"
  by (induction xs arbitrary: m) simp_all

lemma map_has_fold_add:
  "map_has (fold (\<lambda>x m. map_add (f x) (g x) m) xs m) k \<longleftrightarrow> map_has m k \<or> k \<in> f ` set xs"
  by (induction xs arbitrary: m) auto

section \<open>Arithmetic, lists and options\<close>

lemma mod_add_cancel_nat: "(a + b) mod m = (a + c) mod m \<Longrightarrow> b mod m = c mod (m::nat)"
proof -
  assume "(a + b) mod m = (a + c) mod m"
  then have "int ((a + b) mod m) = int ((a + c) mod m)" by simp
  then have "(int a + int b) mod int m = (int a + int c) mod int m" by (simp add: zmod_int)
  then have "int b mod int m = int c mod int m" by (simp add: mod_eq_dvd_iff)
  then have "int (b mod m) = int (c mod m)" by (simp add: zmod_int)
  then show ?thesis by simp
qed

lemma mod_step: "((a mod m) * k + r) mod m = (a * k + r) mod (m::nat)"
  by (metis mod_add_left_eq mod_mult_left_eq)

lemma list_all_filter_iff: "list_all P xs \<longleftrightarrow> filter (\<lambda>x. \<not> P x) xs = []"
  by (induction xs) auto

lemma case_option_None_iff:
  "(case x of None \<Rightarrow> None | Some e \<Rightarrow> Some (f e)) = None \<longleftrightarrow> x = None"
  by (cases x) simp_all

text \<open>
  A check that returns its first error: \<open>None\<close> is Go's \<open>nil\<close>. \<open>first_error\<close> runs the checks of a
  function in order, as its sequence of \<open>if err != nil\<close> returns does.
\<close>

fun first_error :: "'e option list \<Rightarrow> 'e option" where
  "first_error [] = None"
| "first_error (None # es) = first_error es"
| "first_error (Some e # es) = Some e"

lemma first_error_None_iff [simp]: "first_error es = None \<longleftrightarrow> list_all (\<lambda>e. e = None) es"
  by (induction es rule: first_error.induct) simp_all

definition fail_if :: "bool \<Rightarrow> 'e \<Rightarrow> 'e option" where
  "fail_if b e = (if b then Some e else None)"

lemma fail_if_None_iff [simp]: "fail_if b e = None \<longleftrightarrow> \<not> b"
  by (simp add: fail_if_def)

lemma fail_if_simps [simp]: "fail_if True e = Some e" "fail_if False e = None"
  by (simp_all add: fail_if_def)

end
