(* ===== verification/Go_Strings.thy ===== *)
theory Go_Strings
  imports Prelude
begin

text \<open>
  The parts of Go's \<open>strings\<close>, \<open>strconv\<close>, \<open>unicode\<close> and \<open>utf8\<close> packages the modelled code uses.
  A Go string is its sequence of bytes; ranging over it decodes UTF-8 runes as
  \<open>utf8.DecodeRuneInString\<close> does, an invalid byte giving the replacement rune with width 1.
\<close>

section \<open>Bytes and runes\<close>

abbreviation byte :: "char \<Rightarrow> nat" where "byte \<equiv> of_char"

definition in_class :: "char \<Rightarrow> char \<Rightarrow> nat \<Rightarrow> bool" where
  "in_class lo hi r \<longleftrightarrow> byte lo \<le> r \<and> r \<le> byte hi"

definition is_digit :: "nat \<Rightarrow> bool" where "is_digit r \<longleftrightarrow> in_class CHR ''0'' CHR ''9'' r"
definition is_lower :: "nat \<Rightarrow> bool" where "is_lower r \<longleftrightarrow> in_class CHR ''a'' CHR ''z'' r"
definition is_upper :: "nat \<Rightarrow> bool" where "is_upper r \<longleftrightarrow> in_class CHR ''A'' CHR ''Z'' r"

lemma is_digit_iff: "is_digit r \<longleftrightarrow> 48 \<le> r \<and> r \<le> 57"
  by (simp add: is_digit_def in_class_def)
lemma is_lower_iff: "is_lower r \<longleftrightarrow> 97 \<le> r \<and> r \<le> 122"
  by (simp add: is_lower_def in_class_def)
lemma is_upper_iff: "is_upper r \<longleftrightarrow> 65 \<le> r \<and> r \<le> 90"
  by (simp add: is_upper_def in_class_def)

lemmas char_class_iff = is_digit_iff is_lower_iff is_upper_iff

lemma byte_less_256 [simp, go_bounds]: "byte c < 256"
  using of_char_mod_256 [of c, where ?'a = nat] by (metis mod_less_divisor zero_less_numeral)

lemma char_of_byte_inj: "byte c = n \<Longrightarrow> c = char_of n"
  by auto

text \<open>\<open>utf8.DecodeRuneInString\<close>: the rune and its width, \<open>(RuneError, 1)\<close> on a malformed sequence.\<close>

definition rune_error :: nat where "rune_error = 65533"

definition cont_byte :: "nat \<Rightarrow> bool" where
  "cont_byte b \<longleftrightarrow> 128 \<le> b \<and> b \<le> 191"

definition second_ok :: "nat \<Rightarrow> nat \<Rightarrow> bool" where
  "second_ok b0 b1 \<longleftrightarrow>
     (if b0 = 224 then 160 \<le> b1 \<and> b1 \<le> 191
      else if b0 = 237 then 128 \<le> b1 \<and> b1 \<le> 159
      else if b0 = 240 then 144 \<le> b1 \<and> b1 \<le> 191
      else if b0 = 244 then 128 \<le> b1 \<and> b1 \<le> 143
      else cont_byte b1)"

fun decode_rune :: "string \<Rightarrow> nat \<times> nat" where
  "decode_rune [] = (rune_error, 0)"
| "decode_rune (c # cs) =
     (let b0 = byte c in
      if b0 < 128 then (b0, 1)
      else if 194 \<le> b0 \<and> b0 \<le> 223 then
        (case cs of
           c1 # _ \<Rightarrow> if second_ok b0 (byte c1)
                     then ((b0 mod 32) * 64 + byte c1 mod 64, 2) else (rune_error, 1)
         | _ \<Rightarrow> (rune_error, 1))
      else if 224 \<le> b0 \<and> b0 \<le> 239 then
        (case cs of
           c1 # c2 # _ \<Rightarrow> if second_ok b0 (byte c1) \<and> cont_byte (byte c2)
                     then ((b0 mod 16) * 4096 + (byte c1 mod 64) * 64 + byte c2 mod 64, 3)
                     else (rune_error, 1)
         | _ \<Rightarrow> (rune_error, 1))
      else if 240 \<le> b0 \<and> b0 \<le> 244 then
        (case cs of
           c1 # c2 # c3 # _ \<Rightarrow>
             if second_ok b0 (byte c1) \<and> cont_byte (byte c2) \<and> cont_byte (byte c3)
             then ((b0 mod 8) * 262144 + (byte c1 mod 64) * 4096 + (byte c2 mod 64) * 64
                     + byte c3 mod 64, 4)
             else (rune_error, 1)
         | _ \<Rightarrow> (rune_error, 1))
      else (rune_error, 1))"

lemma decode_rune_width: "s \<noteq> [] \<Longrightarrow> 0 < snd (decode_rune s) \<and> snd (decode_rune s) \<le> length s"
  by (cases s) (auto simp: Let_def split: list.splits)

lemma decode_rune_ascii [simp]: "byte c < 128 \<Longrightarrow> decode_rune (c # cs) = (byte c, 1)"
  by (simp add: Let_def)

declare decode_rune.simps [simp del]

text \<open>The runes of a string, each with the bytes it was decoded from: Go's \<open>for _, r := range s\<close>.\<close>

function runes :: "string \<Rightarrow> (nat \<times> string) list" where
  "runes [] = []"
| "runes (c # cs) =
     (let n = snd (decode_rune (c # cs))
      in (fst (decode_rune (c # cs)), take n (c # cs)) # runes (drop n (c # cs)))"
  by pat_completeness auto
termination
proof (relation "measure length")
  fix c :: char and cs :: string and n :: nat
  assume "n = snd (decode_rune (c # cs))"
  then have "0 < n" using decode_rune_width [of "c # cs"] by simp
  then show "(drop n (c # cs), c # cs) \<in> measure length" by simp
qed simp

definition rune_values :: "string \<Rightarrow> nat list" where
  "rune_values s = map fst (runes s)"

lemma concat_runes: "concat (map snd (runes s)) = s"
  by (induction s rule: runes.induct) (simp_all add: Let_def)

lemma runes_ascii [simp]: "byte c < 128 \<Longrightarrow> runes (c # cs) = (byte c, [c]) # runes cs"
  by (simp add: Let_def)

lemma rune_values_Nil [simp]: "rune_values [] = []"
  by (simp add: rune_values_def)

lemma rune_values_ascii [simp]: "byte c < 128 \<Longrightarrow> rune_values (c # cs) = byte c # rune_values cs"
  by (simp add: rune_values_def)

lemma decode_rune_high: "128 \<le> byte c \<Longrightarrow> 128 \<le> fst (decode_rune (c # cs))"
proof -
  assume c: "128 \<le> byte c"
  have w2: "128 \<le> (b mod 32) * 64 + x mod 64" if "194 \<le> b" "b \<le> 223" for b x :: nat
  proof -
    have "b div 32 \<le> 6" using div_le_mono [OF that(2), of 32] by simp
    moreover have "32 * (b div 32) + b mod 32 = b" by simp
    ultimately have "2 \<le> b mod 32" using that by linarith
    then show ?thesis by simp
  qed
  have w3: "128 \<le> (b mod 16) * 4096 + (x mod 64) * 64 + y mod 64"
    if "224 \<le> b" "b \<le> 239" "second_ok b x" for b x y :: nat
  proof (cases "b = 224")
    case True
    then have x: "160 \<le> x" "x \<le> 191" using that by (simp_all add: second_ok_def)
    have "x div 64 \<le> 2" using div_le_mono [OF x(2), of 64] by simp
    moreover have "64 * (x div 64) + x mod 64 = x" by simp
    ultimately have "32 \<le> x mod 64" using x by linarith
    then show ?thesis by simp
  next
    case False
    then have b: "225 \<le> b" using that by simp
    have "b div 16 \<le> 14" using div_le_mono [OF that(2), of 16] by simp
    moreover have "16 * (b div 16) + b mod 16 = b" by simp
    ultimately have "1 \<le> b mod 16" using b by linarith
    then show ?thesis by simp
  qed
  have w4: "128 \<le> (b mod 8) * 262144 + (x mod 64) * 4096 + (y mod 64) * 64 + z mod 64"
    if "240 \<le> b" "b \<le> 244" "second_ok b x" for b x y z :: nat
  proof (cases "b = 240")
    case True
    then have x: "144 \<le> x" "x \<le> 191" using that by (simp_all add: second_ok_def)
    have "x div 64 \<le> 2" using div_le_mono [OF x(2), of 64] by simp
    moreover have "64 * (x div 64) + x mod 64 = x" by simp
    ultimately have "16 \<le> x mod 64" using x by linarith
    then show ?thesis by simp
  next
    case False
    then have b: "241 \<le> b" using that by simp
    have "b div 8 \<le> 30" using div_le_mono [OF that(2), of 8] by simp
    moreover have "8 * (b div 8) + b mod 8 = b" by simp
    ultimately have "1 \<le> b mod 8" using b by linarith
    then show ?thesis by simp
  qed
  show ?thesis
    using c w2 w3 w4 by (auto simp: decode_rune.simps Let_def rune_error_def split: list.splits)
qed

text \<open>
  A predicate that only accepts ASCII runes holds of every rune of a string iff it holds of
  every byte: a multi-byte or malformed sequence gives a rune above 127, and so does each of
  its bytes.
\<close>

definition ascii_only :: "(nat \<Rightarrow> bool) \<Rightarrow> bool" where
  "ascii_only P \<longleftrightarrow> (\<forall>r \<ge> 128. \<not> P r)"

lemma list_all_runes_ascii:
  assumes "ascii_only P"
  shows "list_all P (rune_values s) \<longleftrightarrow> list_all (\<lambda>c. P (byte c)) s"
proof (induction s)
  case Nil
  then show ?case by simp
next
  case (Cons c cs)
  show ?case
  proof (cases "byte c < 128")
    case True
    then show ?thesis using Cons by simp
  next
    case False
    then have "\<not> P (byte c)" "\<not> P (fst (decode_rune (c # cs)))"
      using assms decode_rune_high by (auto simp: ascii_only_def not_less)
    then show ?thesis by (simp add: rune_values_def Let_def)
  qed
qed

text \<open>An ASCII byte is a rune of its own wherever it stands: no multi-byte sequence swallows it.\<close>

lemma second_ok_high: "second_ok b y \<Longrightarrow> 128 \<le> y"
  by (auto simp: second_ok_def cont_byte_def split: if_splits)

lemma decode_rune_high_bytes:
  assumes c: "128 \<le> byte c" and x: "x \<in> set (take (snd (decode_rune (c # cs))) (c # cs))"
  shows "128 \<le> byte x"
proof -
  let ?n = "snd (decode_rune (c # cs))"
  have "?n = 1
      \<or> (\<exists>c1 r. cs = c1 # r \<and> ?n = 2 \<and> second_ok (byte c) (byte c1))
      \<or> (\<exists>c1 c2 r. cs = c1 # c2 # r \<and> ?n = 3 \<and> second_ok (byte c) (byte c1) \<and> cont_byte (byte c2))
      \<or> (\<exists>c1 c2 c3 r. cs = c1 # c2 # c3 # r \<and> ?n = 4 \<and> second_ok (byte c) (byte c1)
           \<and> cont_byte (byte c2) \<and> cont_byte (byte c3))"
    using c by (cases cs; cases "tl cs"; cases "tl (tl cs)") (auto simp: decode_rune.simps Let_def)
  then consider "?n = 1"
    | c1 r where "cs = c1 # r" "?n = 2" "second_ok (byte c) (byte c1)"
    | c1 c2 r where "cs = c1 # c2 # r" "?n = 3" "second_ok (byte c) (byte c1)" "cont_byte (byte c2)"
    | c1 c2 c3 r where "cs = c1 # c2 # c3 # r" "?n = 4" "second_ok (byte c) (byte c1)"
        "cont_byte (byte c2)" "cont_byte (byte c3)"
    by blast
  then show ?thesis
    using c x by cases (auto simp: cont_byte_def numeral_eq_Suc dest: second_ok_high)
qed

lemma rune_values_ascii_byte: "x \<in> set s \<Longrightarrow> byte x < 128 \<Longrightarrow> byte x \<in> set (rune_values s)"
proof (induction s rule: runes.induct)
  case (2 c cs)
  let ?n = "snd (decode_rune (c # cs))"
  show ?case
  proof (cases "byte c < 128")
    case True
    then show ?thesis using 2 by (cases "x = c") (auto simp: rune_values_def)
  next
    case False
    have "x \<in> set (take ?n (c # cs)) \<union> set (drop ?n (c # cs))"
      using "2.prems"(1) by (metis append_take_drop_id set_append)
    then have "x \<in> set (drop ?n (c # cs))"
      using decode_rune_high_bytes [of c x cs] False "2.prems"(2) by auto
    from "2.IH" [OF refl this "2.prems"(2)] show ?thesis by (simp add: rune_values_def Let_def)
  qed
qed simp

definition is_ascii :: "string \<Rightarrow> bool" where
  "is_ascii s \<longleftrightarrow> list_all (\<lambda>c. byte c < 128) s"

lemma runes_of_ascii: "is_ascii s \<Longrightarrow> rune_values s = map byte s"
  by (induction s) (simp_all add: is_ascii_def)

text \<open>\<open>utf8.ValidString\<close>: no byte decodes to the replacement rune with width 1.\<close>

definition valid_utf8 :: "string \<Rightarrow> bool" where
  "valid_utf8 s \<longleftrightarrow> list_all (\<lambda>(r, bs). \<not> (r = rune_error \<and> length bs = 1)) (runes s)"

text \<open>\<open>unicode.IsControl\<close> and \<open>unicode.IsSpace\<close>.\<close>

definition is_control :: "nat \<Rightarrow> bool" where
  "is_control r \<longleftrightarrow> r < 32 \<or> (127 \<le> r \<and> r < 160)"

definition is_space :: "nat \<Rightarrow> bool" where
  "is_space r \<longleftrightarrow> r \<in> {9, 10, 11, 12, 13, 32, 133, 160, 5760, 8232, 8233, 8239, 8287, 12288}
     \<or> (8192 \<le> r \<and> r \<le> 8202)"

definition trim_space :: "string \<Rightarrow> string" where
  "trim_space s =
     (let rs = dropWhile (\<lambda>p. is_space (fst p)) (runes s)
      in concat (map snd (rev (dropWhile (\<lambda>p. is_space (fst p)) (rev rs)))))"

section \<open>The strings package\<close>

fun cut :: "char \<Rightarrow> string \<Rightarrow> string \<times> string \<times> bool" where
  "cut sep [] = ([], [], False)"
| "cut sep (c # cs) =
     (if c = sep then ([], cs, True)
      else (let (before, after, found) = cut sep cs in (c # before, after, found)))"

fun split_on :: "char \<Rightarrow> string \<Rightarrow> string list" where
  "split_on sep [] = [[]]"
| "split_on sep (c # cs) =
     (if c = sep then [] # split_on sep cs
      else (case split_on sep cs of [] \<Rightarrow> [[c]] | f # fs \<Rightarrow> (c # f) # fs))"

definition has_prefix :: "string \<Rightarrow> string \<Rightarrow> bool" where
  "has_prefix s p \<longleftrightarrow> take (length p) s = p"

definition has_suffix :: "string \<Rightarrow> string \<Rightarrow> bool" where
  "has_suffix s p \<longleftrightarrow> length p \<le> length s \<and> drop (length s - length p) s = p"

definition cut_prefix :: "string \<Rightarrow> string \<Rightarrow> string \<times> bool" where
  "cut_prefix s p = (if has_prefix s p then (drop (length p) s, True) else (s, False))"

lemma cut_not_found: "sep \<notin> set s \<Longrightarrow> cut sep s = (s, [], False)"
  by (induction s) auto

lemma cut_found: "sep \<notin> set a \<Longrightarrow> cut sep (a @ sep # b) = (a, b, True)"
  by (induction a) auto

lemma cut_sound:
  "cut sep s = (a, b, f) \<Longrightarrow> sep \<notin> set a \<and> (if f then s = a @ sep # b else s = a \<and> b = [])"
  by (induction s arbitrary: a b f) (auto split: prod.splits if_splits)

lemma split_on_nonempty [simp]: "split_on sep s \<noteq> []"
  by (induction s) (auto split: list.splits)

lemma split_on_no_sep: "sep \<notin> set s \<Longrightarrow> split_on sep s = [s]"
  by (induction s) auto

lemma split_on_append:
  "sep \<notin> set a \<Longrightarrow> split_on sep (a @ sep # b) = a # split_on sep b"
  by (induction a) auto

lemma split_on_fields: "f \<in> set (split_on sep s) \<Longrightarrow> sep \<notin> set f \<and> set f \<subseteq> set s"
proof (induction s arbitrary: f)
  case Nil
  then show ?case by simp
next
  case (Cons c cs)
  obtain a fs where "split_on sep cs = a # fs"
    by (cases "split_on sep cs") auto
  then show ?case using Cons.prems Cons.IH [of a] Cons.IH [of f] by (auto split: if_splits)
qed

text \<open>Joining with a separator, and that splitting undoes it.\<close>

fun join_with :: "char \<Rightarrow> string list \<Rightarrow> string" where
  "join_with sep [] = []"
| "join_with sep [f] = f"
| "join_with sep (f # fs) = f @ sep # join_with sep fs"

lemma join_with_Cons: "fs \<noteq> [] \<Longrightarrow> join_with sep (f # fs) = f @ sep # join_with sep fs"
  by (cases fs) simp_all

lemma split_on_join:
  assumes "fs \<noteq> []" and "\<forall>f \<in> set fs. sep \<notin> set f"
  shows "split_on sep (join_with sep fs) = fs"
  using assms
  by (induction sep fs rule: join_with.induct) (simp_all add: split_on_no_sep split_on_append)

lemma join_split_on: "join_with sep (split_on sep s) = s"
proof (induction s)
  case Nil
  then show ?case by simp
next
  case (Cons c cs)
  obtain f fs where "split_on sep cs = f # fs"
    by (cases "split_on sep cs") auto
  with Cons show ?case by (cases fs) (auto simp: join_with_Cons)
qed

lemma length_join_with:
  "fs \<noteq> [] \<Longrightarrow> length (join_with sep fs) = sum_list (map length fs) + (length fs - 1)"
  by (induction sep fs rule: join_with.induct) simp_all

text \<open>
  \<open>strings.ToUpper\<close> and \<open>strings.ToLower\<close> on ASCII strings; each use says what a non-ASCII
  string does there.
\<close>

definition upper_char :: "char \<Rightarrow> char" where
  "upper_char c = (if is_lower (byte c) then char_of (byte c - 32) else c)"

definition lower_char :: "char \<Rightarrow> char" where
  "lower_char c = (if is_upper (byte c) then char_of (byte c + 32) else c)"

definition to_upper :: "string \<Rightarrow> string" where "to_upper s = map upper_char s"
definition to_lower :: "string \<Rightarrow> string" where "to_lower s = map lower_char s"

lemma to_upper_id: "list_all (\<lambda>c. is_upper (byte c)) s \<Longrightarrow> to_upper s = s"
  by (induction s) (auto simp: to_upper_def upper_char_def char_class_iff)

section \<open>The strconv package\<close>

fun digits_of :: "nat \<Rightarrow> string" where
  "digits_of n = (if n < 10 then [char_of (48 + n)] else digits_of (n div 10) @ [char_of (48 + n mod 10)])"

declare digits_of.simps [simp del]

definition format_int :: "int \<Rightarrow> string" where
  "format_int n = (if n < 0 then CHR ''-'' # digits_of (nat (- n)) else digits_of (nat n))"

text \<open>\<open>fmt\<close>'s \<open>%0*d\<close> of a non-negative number.\<close>

definition pad_zero :: "nat \<Rightarrow> string \<Rightarrow> string" where
  "pad_zero w s = replicate (w - length s) CHR ''0'' @ s"

fun parse_digits :: "nat \<Rightarrow> string \<Rightarrow> nat option" where
  "parse_digits acc [] = Some acc"
| "parse_digits acc (c # cs) =
     (if is_digit (byte c) then parse_digits (acc * 10 + (byte c - 48)) cs else None)"

definition parse_uint :: "string \<Rightarrow> nat option" where
  "parse_uint s = (if s = [] then None else parse_digits 0 s)"

text \<open>
  \<open>strconv.ParseInt(s, 10, bits)\<close>; its callers test the error only for being nil, so the syntax
  and the range error are both \<open>None\<close>.
\<close>

definition parse_int :: "nat \<Rightarrow> string \<Rightarrow> int option" where
  "parse_int bits s =
     (case s of
        [] \<Rightarrow> None
      | c # cs \<Rightarrow>
          (let neg = (c = CHR ''-'');
               ds = (if c = CHR ''+'' \<or> c = CHR ''-'' then cs else s)
           in case parse_uint ds of
                None \<Rightarrow> None
              | Some un \<Rightarrow>
                  if \<not> neg \<and> un \<ge> 2 ^ (bits - 1) then None
                  else if neg \<and> un > 2 ^ (bits - 1) then None
                  else Some (if neg then - int un else int un)))"

lemma byte_digit [simp]: "n < 10 \<Longrightarrow> byte (char_of (48 + n)) = 48 + n"
  by simp

lemma digits_of_digits: "list_all (\<lambda>c. is_digit (byte c)) (digits_of n)"
proof (induction n rule: digits_of.induct)
  case (1 n)
  then show ?case
    using mod_less_divisor [of 10 n] by (subst digits_of.simps) (auto simp: is_digit_iff)
qed

lemma digits_of_nonempty [simp]: "digits_of n \<noteq> []"
  by (subst digits_of.simps) simp

lemma parse_digits_append:
  "parse_digits a (xs @ ys) = (case parse_digits a xs of None \<Rightarrow> None | Some b \<Rightarrow> parse_digits b ys)"
  by (induction xs arbitrary: a) auto

lemma parse_digits_digits_of: "parse_digits 0 (digits_of n) = Some n"
proof (induction n rule: digits_of.induct)
  case (1 n)
  show ?case
  proof (cases "n < 10")
    case True
    then show ?thesis by (subst digits_of.simps) (simp add: is_digit_iff)
  next
    case False
    with 1 show ?thesis
      by (subst digits_of.simps) (simp add: parse_digits_append is_digit_iff)
  qed
qed

lemma parse_uint_digits_of [simp]: "parse_uint (digits_of n) = Some n"
  by (simp add: parse_uint_def parse_digits_digits_of)

lemma hd_digits_of: "is_digit (byte (hd (digits_of n)))"
  using digits_of_digits [of n] by (cases "digits_of n") auto

lemma parse_int_format_int:
  assumes "0 < bits" and "- (2 ^ (bits - 1)) \<le> n" and "n < 2 ^ (bits - 1)"
  shows "parse_int bits (format_int n) = Some n"
proof (cases "n < 0")
  case True
  then have "nat (- n) \<le> 2 ^ (bits - 1)" using assms by (simp add: nat_le_iff)
  with True show ?thesis by (simp add: parse_int_def format_int_def Let_def)
next
  case False
  then have lt: "nat n < 2 ^ (bits - 1)" using assms by (simp add: nat_less_iff)
  obtain c cs where ds: "digits_of (nat n) = c # cs"
    by (cases "digits_of (nat n)") auto
  then have "is_digit (byte c)" using hd_digits_of [of "nat n"] by simp
  then have "c \<noteq> CHR ''-''" "c \<noteq> CHR ''+''" by (auto simp: is_digit_iff)
  then have "parse_int bits (c # cs) = (case parse_uint (c # cs) of None \<Rightarrow> None
      | Some un \<Rightarrow> if un \<ge> 2 ^ (bits - 1) then None else Some (int un))"
    by (simp add: parse_int_def Let_def split: option.splits)
  also have "parse_uint (c # cs) = Some (nat n)"
    by (simp flip: ds)
  finally show ?thesis using False lt ds by (simp add: format_int_def)
qed

lemma parse_int_cases:
  assumes "parse_int bits s = Some n"
  obtains (plus) un where "n = int un" "un < 2 ^ (bits - 1)"
    | (minus) un where "n = - int un" "un \<le> 2 ^ (bits - 1)"
proof -
  obtain c cs where s: "s = c # cs" using assms by (auto simp: parse_int_def split: list.splits)
  define ds where "ds = (if c = CHR ''+'' \<or> c = CHR ''-'' then cs else s)"
  obtain un where "parse_uint ds = Some un"
    using assms s by (auto simp: parse_int_def ds_def Let_def split: option.splits)
  then show ?thesis
    using assms s that by (cases "c = CHR ''-''") (auto simp: parse_int_def ds_def split: if_splits)
qed

lemma parse_int_range:
  assumes "parse_int bits s = Some n"
  shows "- (2 ^ (bits - 1)) \<le> n \<and> n < 2 ^ (bits - 1)"
  using assms
proof (cases rule: parse_int_cases)
  case (plus un)
  then have "int un < int (2 ^ (bits - 1))" by (simp only: of_nat_less_iff)
  moreover have "0 \<le> int un" by simp
  ultimately show ?thesis using plus by (simp add: order_trans [of _ 0])
next
  case (minus un)
  then have "int un \<le> int (2 ^ (bits - 1))" by (simp only: of_nat_le_iff)
  then have "int un \<le> (2::int) ^ (bits - 1)" by simp
  moreover have "0 \<le> int un" "0 < (2::int) ^ (bits - 1)" by simp_all
  ultimately have "- (2 ^ (bits - 1)) \<le> - int un" "- int un < (2::int) ^ (bits - 1)" by linarith+
  then show ?thesis using minus by blast
qed

text \<open>Decimal text never gets longer when a parsed number is printed again.\<close>

lemma parse_digits_bound: "parse_digits a s = Some n \<Longrightarrow> n < (a + 1) * 10 ^ length s"
proof (induction s arbitrary: a)
  case Nil
  then show ?case by simp
next
  case (Cons c cs)
  let ?d = "byte c - 48"
  have d: "?d < 10" and rec: "parse_digits (a * 10 + ?d) cs = Some n"
    using Cons.prems by (auto simp: is_digit_iff split: if_splits)
  have "n < (a * 10 + ?d + 1) * 10 ^ length cs" using Cons.IH [OF rec] .
  also have "\<dots> \<le> ((a + 1) * 10) * 10 ^ length cs"
    using d by (intro mult_right_mono) simp_all
  finally show ?case by (simp add: algebra_simps)
qed

lemma length_digits_of: "n < 10 ^ k \<Longrightarrow> 0 < k \<Longrightarrow> length (digits_of n) \<le> k"
proof (induction n arbitrary: k rule: digits_of.induct)
  case (1 n)
  show ?case
  proof (cases "n < 10")
    case True
    then show ?thesis using "1.prems" by (subst digits_of.simps) simp
  next
    case False
    then obtain j where k: "k = Suc j" "0 < j"
      using "1.prems" by (cases k; cases "k - 1 = 0") auto
    then have "n div 10 < 10 ^ j" using "1.prems" by (simp add: less_mult_imp_div_less mult.commute)
    with "1.IH" [OF False this k(2)] False k show ?thesis
      by (subst digits_of.simps) simp
  qed
qed

lemma length_digits_of_parse: "parse_uint s = Some n \<Longrightarrow> length (digits_of n) \<le> length s"
  using parse_digits_bound [of 0 s n]
  by (auto simp: parse_uint_def intro!: length_digits_of split: if_splits)

lemma length_format_parse: "parse_int bits s = Some n \<Longrightarrow> length (format_int n) \<le> length s"
proof -
  assume a: "parse_int bits s = Some n"
  then obtain c cs where s: "s = c # cs" by (auto simp: parse_int_def split: list.splits)
  show ?thesis
  proof (cases "c = CHR ''+'' \<or> c = CHR ''-''")
    case True
    then obtain un where un: "parse_uint cs = Some un" "n = (if c = CHR ''-'' then - int un else int un)"
      using a s by (auto simp: parse_int_def Let_def split: option.splits if_splits)
    have "length (digits_of un) \<le> length cs" using length_digits_of_parse [OF un(1)] .
    then show ?thesis using un(2) s by (cases "un = 0") (auto simp: format_int_def)
  next
    case False
    then obtain un where "parse_uint s = Some un" "n = int un"
      using a s by (auto simp: parse_int_def Let_def split: option.splits if_splits)
    then show ?thesis using length_digits_of_parse [of s un] by (simp add: format_int_def)
  qed
qed

lemma format_int_chars: "c \<in> set (format_int n) \<Longrightarrow> c = CHR ''-'' \<or> is_digit (byte c)"
  using digits_of_digits by (auto simp: format_int_def list_all_iff split: if_splits)

section \<open>Text in messages\<close>

text \<open>UTF-8 of the dash the messages use, and \<open>strconv.Quote\<close>: ASCII exactly, printable runes as they
  are.\<close>

definition dash :: string where "dash = [CHR 0xE2, CHR 0x80, CHR 0x94]"

definition hex_digit :: "nat \<Rightarrow> char" where
  "hex_digit n = char_of (if n < 10 then 48 + n else 87 + n)"

definition quote_char :: "char \<Rightarrow> string" where
  "quote_char c =
     (case map_of [(7, CHR ''a''), (8, CHR ''b''), (9, CHR ''t''), (10, CHR ''n''), (11, CHR ''v''),
         (12, CHR ''f''), (13, CHR ''r''), (34, CHR 0x22), (92, CHR 0x5C)] (byte c) of
        Some e \<Rightarrow> [CHR 0x5C, e]
      | None \<Rightarrow>
          if byte c < 32 \<or> byte c = 127
          then [CHR 0x5C, CHR ''x'', hex_digit (byte c div 16), hex_digit (byte c mod 16)] else [c])"

definition quoted :: "string \<Rightarrow> string" where
  "quoted s = CHR 0x22 # concat (map quote_char s) @ [CHR 0x22]"

end
