(* ===== verification/Biz_Money.thy ===== *)
theory Biz_Money
  imports Go_Strings
begin

text \<open>
  \<open>biz/money.go\<close>: money as an \<open>int64\<close> of minor units with its currency and exponent, its
  validation, its rendering in major units and the parser of decimal amounts. The parser is
  compared with \<open>decimal_minor\<close>, the same conversion on unbounded numbers.
\<close>

section \<open>Money\<close>

record money =
  Amount :: i64
  Currency :: string
  Exponent :: i8

datatype money_error =
    NegativeAmount i64
  | BadCurrency string
  | BadExponent i8

definition currency_bad :: "string \<Rightarrow> bool" where
  "currency_bad c \<longleftrightarrow>
     length c \<noteq> 3 \<or> c \<noteq> to_upper c \<or> \<not> list_all is_upper (rune_values c)"

definition money_validate :: "money \<Rightarrow> money_error option" where
  "money_validate m =
     (if sint (Amount m) < 0 then Some (NegativeAmount (Amount m))
      else if currency_bad (Currency m) then Some (BadCurrency (Currency m))
      else if sint (Exponent m) < 0 \<or> sint (Exponent m) > 4 then Some (BadExponent (Exponent m))
      else None)"

text \<open>The loop \<open>pow *= 10\<close>, run \<open>n\<close> times.\<close>

fun scale10 :: "nat \<Rightarrow> i64 \<Rightarrow> i64" where
  "scale10 0 v = v"
| "scale10 (Suc n) v = scale10 n (v * 10)"

definition money_string :: "money \<Rightarrow> string" where
  "money_string m =
     (if money_validate m \<noteq> None then
        Currency m @ '' INVALID('' @ format_int (sint (Amount m)) @ '' e''
          @ format_int (sint (Exponent m)) @ '')''
      else if Exponent m = 0 then Currency m @ '' '' @ format_int (sint (Amount m))
      else
        (let pow = scale10 (nat (sint (Exponent m))) 1
         in Currency m @ '' '' @ format_int (sint (div_i64 (Amount m) pow)) @ ''.''
              @ pad_zero (nat (sint (Exponent m))) (format_int (sint (mod_i64 (Amount m) pow)))))"

section \<open>Parsing a decimal amount\<close>

datatype parse_error = ExponentRange | NotDecimal | HasDecimals | TooPrecise | Overflow

fun scan_digits :: "i64 \<Rightarrow> nat list \<Rightarrow> parse_error + i64" where
  "scan_digits v [] = Inr v"
| "scan_digits v (r # rs) =
     (if \<not> is_digit r then Inl NotDecimal
      else
        (let d = int r - 48
         in if sint v > (max_i64 - d) div 10 then Inl Overflow
            else scan_digits (v * 10 + word_of_int d) rs))"

definition parse_minor :: "string \<Rightarrow> i8 \<Rightarrow> parse_error + i64" where
  "parse_minor s exponent =
     (if sint exponent < 0 \<or> sint exponent > 4 then Inl ExponentRange
      else
        (let (whole, frac, has_dot) = cut CHR ''.'' s in
         if whole = [] \<or> (has_dot \<and> frac = []) then Inl NotDecimal
         else if has_dot \<and> sint exponent = 0 then Inl HasDecimals
         else if has_dot \<and> int (length frac) > sint exponent then Inl TooPrecise
         else
           (case scan_digits 0 (rune_values whole) of
              Inl e \<Rightarrow> Inl e
            | Inr w \<Rightarrow>
                (case (if has_dot then scan_digits 0 (rune_values frac) else Inr 0) of
                   Inl e \<Rightarrow> Inl e
                 | Inr f0 \<Rightarrow>
                     (let f = scale10 (nat (sint exponent - int (length frac))) f0;
                          pow = scale10 (nat (sint exponent)) 1
                      in if sint w > (max_i64 - sint f) div sint pow then Inl Overflow
                         else Inr (w * pow + f))))))"

text \<open>
  The conversion the parser is meant to compute, on unbounded numbers: digits, optionally a
  point and at most \<open>e\<close> further digits.
\<close>

definition decimal_minor :: "string \<Rightarrow> int \<Rightarrow> int option" where
  "decimal_minor s e =
     (if e < 0 \<or> e > 4 then None
      else
        (let (whole, frac, has_dot) = cut CHR ''.'' s in
         if has_dot \<and> int (length frac) > e then None
         else
           (case (parse_uint whole, if has_dot then parse_uint frac else Some 0) of
              (Some w, Some f) \<Rightarrow>
                Some (int w * 10 ^ nat e + int f * 10 ^ (nat e - (if has_dot then length frac else 0)))
            | _ \<Rightarrow> None)))"

section \<open>Lemmas\<close>

lemma sint_eq_0_i8 [simp]: "sint (e :: i8) = 0 \<longleftrightarrow> e = 0"
  using signed_word_eqI [of e 0] by auto

lemma currency_bad_iff:
  "\<not> currency_bad c \<longleftrightarrow> length c = 3 \<and> list_all (\<lambda>b. is_upper (byte b)) c"
proof -
  have "ascii_only is_upper" by (simp add: ascii_only_def is_upper_iff)
  then show ?thesis
    using to_upper_id [of c] by (auto simp: currency_bad_def list_all_runes_ascii)
qed

text \<open>
  The test \<open>m.Currency != strings.ToUpper(m.Currency)\<close> is redundant next to the rune test, so how
  \<open>ToUpper\<close> treats a non-ASCII string cannot change the verdict.
\<close>

lemma currency_bad_any_upper:
  assumes "\<And>s. is_ascii s \<Longrightarrow> up s = to_upper s"
  shows "(length c \<noteq> 3 \<or> c \<noteq> up c \<or> \<not> list_all is_upper (rune_values c)) = currency_bad c"
proof (cases "list_all is_upper (rune_values c)")
  case True
  have "ascii_only is_upper" by (simp add: ascii_only_def is_upper_iff)
  then have "list_all (\<lambda>b. is_upper (byte b)) c" using True by (simp add: list_all_runes_ascii)
  then have "is_ascii c" by (auto simp: is_ascii_def list_all_iff is_upper_iff)
  then show ?thesis using assms by (simp add: currency_bad_def)
qed (simp add: currency_bad_def)

lemma money_validate_None:
  "money_validate m = None \<longleftrightarrow>
     0 \<le> sint (Amount m) \<and> \<not> currency_bad (Currency m)
     \<and> 0 \<le> sint (Exponent m) \<and> sint (Exponent m) \<le> 4"
  by (auto simp: money_validate_def)

lemma sint_scale10:
  "0 \<le> sint v \<Longrightarrow> sint v * 10 ^ n \<le> max_i64 \<Longrightarrow> sint (scale10 n v) = sint v * 10 ^ n"
proof (induction n arbitrary: v)
  case 0
  then show ?case by simp
next
  case (Suc n)
  have "sint v * 10 * 1 \<le> sint v * 10 * 10 ^ n"
    using Suc.prems by (intro mult_left_mono) simp_all
  then have "sint v * 10 \<le> max_i64" using Suc.prems(2) by (simp add: mult.assoc)
  then have v10: "sint (v * 10) = sint v * 10"
    using Suc.prems sint_mult_i64 [of v 10] by (simp add: in_i64_def)
  then show ?case using Suc by (simp add: mult.assoc)
qed

lemma sint_pow10:
  assumes "n \<le> 4"
  shows "sint (scale10 n 1) = 10 ^ n"
proof -
  have "(10::int) ^ n \<le> 10 ^ 4" using assms by (intro power_increasing) simp_all
  then show ?thesis using sint_scale10 [of 1 n] by simp
qed

lemma parse_digits_ge: "parse_digits a s = Some n \<Longrightarrow> a \<le> n"
proof (induction s arbitrary: a)
  case (Cons c cs)
  then have "a * 10 + (byte c - 48) \<le> n" by (auto split: if_splits)
  then show ?case by simp
qed simp

lemma scan_digits_iff:
  "0 \<le> sint v \<Longrightarrow>
   scan_digits v (rune_values s) = Inr u \<longleftrightarrow>
     (\<exists>n. parse_digits (nat (sint v)) s = Some n \<and> int n \<le> max_i64 \<and> sint u = int n)"
proof (induction s arbitrary: v)
  case Nil
  then show ?case
    using sint_i64_bounds [of v] by (auto simp: sint_eq_iff_i64 [symmetric])
next
  case (Cons c cs)
  show ?case
  proof (cases "is_digit (byte c)")
    case False
    then have "scan_digits v (rune_values (c # cs)) = Inl NotDecimal"
      using decode_rune_high [of c cs]
      by (cases "byte c < 128") (auto simp: rune_values_def Let_def is_digit_iff)
    then show ?thesis using False by simp
  next
    case True
    let ?d = "int (byte c) - 48"
    have d: "0 \<le> ?d" "?d \<le> 9" and ascii: "byte c < 128"
      using True by (auto simp: is_digit_iff)
    have dn: "int (byte c - 48) = ?d" using True by (simp add: is_digit_iff)
    show ?thesis
    proof (cases "sint v > (max_i64 - ?d) div 10")
      case big: True
      then have "max_i64 < sint v * 10 + ?d" by linarith
      then have "max_i64 < int (nat (sint v) * 10 + (byte c - 48))"
        using Cons.prems dn by simp
      then have "\<not> int n \<le> max_i64" if "parse_digits (nat (sint v) * 10 + (byte c - 48)) cs = Some n" for n
        using parse_digits_ge [OF that] by linarith
      then show ?thesis using big ascii True by auto
    next
      case small: False
      then have le: "sint v * 10 + ?d \<le> max_i64" by linarith
      have w: "sint (word_of_int ?d :: i64) = ?d" using d by (intro sint_of_int_i64) (simp add: in_i64_def)
      have "sint (v * 10) = sint v * 10"
        using Cons.prems le d sint_mult_i64 [of v 10] by (simp add: in_i64_def)
      then have v': "sint (v * 10 + word_of_int ?d) = sint v * 10 + ?d"
        using Cons.prems le d sint_add_i64 [of "v * 10" "word_of_int ?d"] unfolding w
        by (simp add: in_i64_def)
      have "nat (sint (v * 10 + word_of_int ?d)) = nat (sint v) * 10 + (byte c - 48)"
        unfolding v' using Cons.prems dn by (simp add: nat_eq_iff)
      then show ?thesis
        using Cons.IH [of "v * 10 + word_of_int ?d"] Cons.prems d small ascii True v'
        by (simp add: Let_def)
    qed
  qed
qed

lemma scan_digits_0:
  "scan_digits 0 (rune_values s) = Inr u \<longleftrightarrow>
     (\<exists>n. parse_digits 0 s = Some n \<and> int n \<le> max_i64 \<and> sint u = int n)"
  using scan_digits_iff [of 0 s u] by simp

lemma scan_digits_0_None:
  "(\<forall>u. scan_digits 0 (rune_values s) \<noteq> Inr u) \<longleftrightarrow>
     (\<forall>n. parse_digits 0 s = Some n \<longrightarrow> \<not> int n \<le> max_i64)"
proof -
  have "\<exists>u :: i64. sint u = int n" if "int n \<le> max_i64" for n
    using that by (intro exI [of _ "word_of_int (int n)"] sint_of_int_i64) (simp add: in_i64_def)
  then show ?thesis by (fastforce simp: scan_digits_0)
qed

text \<open>The parser agrees with the unbounded conversion wherever its result fits an \<open>int64\<close>.\<close>

lemma combine_minor:
  fixes w f :: i64
  assumes "0 \<le> sint w" "0 \<le> sint f" "e \<le> 4"
  defines "pow \<equiv> scale10 e 1"
  shows "sint w > (max_i64 - sint f) div sint pow \<longleftrightarrow> sint w * 10 ^ e + sint f > max_i64"
    and "sint w * 10 ^ e + sint f \<le> max_i64 \<Longrightarrow> sint (w * pow + f) = sint w * 10 ^ e + sint f"
proof -
  have pow: "sint pow = 10 ^ e" using assms(3) by (simp add: pow_def sint_pow10)
  have "sint w \<le> (max_i64 - sint f) div 10 ^ e \<longleftrightarrow> sint w * 10 ^ e \<le> max_i64 - sint f"
    by (simp add: le_div_iff_int)
  then show "sint w > (max_i64 - sint f) div sint pow \<longleftrightarrow> sint w * 10 ^ e + sint f > max_i64"
    unfolding pow by linarith
  assume le: "sint w * 10 ^ e + sint f \<le> max_i64"
  have pos: "0 \<le> sint w * 10 ^ e" using assms(1) by simp
  then have "in_i64 (sint w * 10 ^ e)" unfolding in_i64_def using le assms(2) by linarith
  then have "sint (w * pow) = sint w * 10 ^ e" by (subst sint_mult_i64) (simp_all add: pow)
  moreover have "in_i64 (sint w * 10 ^ e + sint f)"
    unfolding in_i64_def using pos le assms(2) by linarith
  ultimately show "sint (w * pow + f) = sint w * 10 ^ e + sint f"
    by (subst sint_add_i64) simp_all
qed

lemma whole_overflow:
  assumes "decimal_minor s e = Some x" "cut CHR ''.'' s = (w, f, b)"
  obtains n where "parse_digits 0 w = Some n" "int n \<le> x"
proof -
  obtain n m where n: "parse_digits 0 w = Some n"
    and x: "x = int n * 10 ^ nat e + int m * 10 ^ (nat e - (if b then length f else 0))"
    using assms by (atomize_elim)
      (auto simp: decimal_minor_def parse_uint_def split: option.splits if_splits)
  have "int n * 1 \<le> int n * 10 ^ nat e" by (intro mult_left_mono) simp_all
  moreover have "0 \<le> int m * 10 ^ (nat e - (if b then length f else 0))" by simp
  ultimately have "int n \<le> x" unfolding x by linarith
  then show ?thesis using that n by blast
qed

lemma scaled_fraction:
  assumes "parse_digits 0 f = Some n" "length f + k \<le> 4"
  obtains x where "scan_digits 0 (rune_values f) = Inr x" "sint (scale10 k x) = int n * 10 ^ k"
proof -
  have "n < 10 ^ length f" using parse_digits_bound [OF assms(1)] by simp
  then have "int n < int (10 ^ length f)" by (simp only: of_nat_less_iff)
  then have "int n < 10 ^ length f" by simp
  then have "int n * 10 ^ k \<le> 10 ^ length f * 10 ^ k" by (intro mult_right_mono) simp_all
  also have "\<dots> \<le> (10::int) ^ 4"
    unfolding power_add [symmetric] using assms(2) by (intro power_increasing) simp_all
  finally have small: "int n * 10 ^ k \<le> 10000" by simp
  have "int n * 1 \<le> int n * 10 ^ k" by (intro mult_left_mono) simp_all
  then have "int n \<le> 10000" using small by simp
  then obtain x where x: "scan_digits 0 (rune_values f) = Inr x" "sint x = int n"
    using assms(1) scan_digits_0_None [of f] by (auto simp: scan_digits_0)
  then show ?thesis using that small sint_scale10 [of x k] by simp
qed

lemma parse_minor_iff:
  assumes "0 \<le> sint e" "sint e \<le> 4"
  shows "parse_minor s e = Inr v \<longleftrightarrow> decimal_minor s (sint e) = Some (sint v)"
proof -
  obtain w f b where c: "cut CHR ''.'' s = (w, f, b)" by (cases "cut CHR ''.'' s") auto
  define k where "k = nat (sint e - int (length f))"
  have le4: "nat (sint e) \<le> 4" using assms by simp
  consider (shape) "w = [] \<or> (b \<and> f = []) \<or> (b \<and> int (length f) > sint e)"
    | (big) "w \<noteq> []" "\<forall>u. scan_digits 0 (rune_values w) \<noteq> Inr u"
    | (ok) u n where "w \<noteq> []" "b \<longrightarrow> f \<noteq> [] \<and> int (length f) \<le> sint e"
        "scan_digits 0 (rune_values w) = Inr u" "parse_digits 0 w = Some n" "sint u = int n"
    using scan_digits_0 [of w] by (metis not_le)
  then show ?thesis
  proof cases
    case shape
    then have "decimal_minor s (sint e) = None" and "\<And>v. parse_minor s e \<noteq> Inr v"
      using assms c by (auto simp: decimal_minor_def parse_minor_def parse_uint_def split: option.splits)
    then show ?thesis by simp
  next
    case big
    have "decimal_minor s (sint e) \<noteq> Some (sint v)"
    proof
      assume "decimal_minor s (sint e) = Some (sint v)"
      then obtain n where "parse_digits 0 w = Some n" "int n \<le> sint v" using whole_overflow c by blast
      then show False using big scan_digits_0_None [of w] sint_i64_bounds(2) [of v] by auto
    qed
    then show ?thesis
      using big assms c by (auto simp: parse_minor_def split: sum.splits)
  next
    case ok
    then have u0: "0 \<le> sint u" by simp
    show ?thesis
    proof (cases b)
      case False
      have f: "f = []" using c False cut_sound [OF c] by simp
      have "sint (scale10 k (0::i64)) = 0" by (subst sint_scale10) simp_all
      with combine_minor [OF u0, of "scale10 k 0" "nat (sint e)"] show ?thesis
        using assms c ok False k_def f sint_i64_bounds [of v]
        by (auto simp: parse_minor_def decimal_minor_def parse_uint_def Let_def
            sint_eq_iff_i64 [symmetric])
    next
      case True
      have lf: "length f + k = nat (sint e)" using ok True by (auto simp: k_def)
      show ?thesis
      proof (cases "parse_digits 0 f")
        case None
        then have "\<And>x. scan_digits 0 (rune_values f) \<noteq> Inr x" by (simp add: scan_digits_0)
        then show ?thesis
          using assms c ok True None
          by (auto simp: parse_minor_def decimal_minor_def parse_uint_def split: sum.splits option.splits)
      next
        case (Some nf)
        obtain x where x: "scan_digits 0 (rune_values f) = Inr x"
          "sint (scale10 k x) = int nf * 10 ^ k"
          using scaled_fraction [OF Some, of k] lf le4 by auto
        have "nat (sint e) - length f = k" using lf by simp
        with combine_minor [OF u0, of "scale10 k x" "nat (sint e)"] show ?thesis
          using assms c ok True Some x le4 sint_i64_bounds [of v]
          by (auto simp: parse_minor_def decimal_minor_def parse_uint_def Let_def
              k_def [symmetric] sint_eq_iff_i64 [symmetric])
      qed
    qed
  qed
qed

text \<open>Rendering, part by part: the quotient, the point, the padded remainder.\<close>

lemma parse_digits_zeros: "parse_digits 0 (replicate k CHR ''0'' @ s) = parse_digits 0 s"
  by (induction k) (simp_all add: is_digit_iff)

lemma parse_uint_pad_zero: "parse_uint (pad_zero w (digits_of n)) = Some n"
  by (simp add: parse_uint_def pad_zero_def parse_digits_zeros parse_digits_digits_of)

lemma length_pad_zero: "n < 10 ^ w \<Longrightarrow> 0 < w \<Longrightarrow> length (pad_zero w (digits_of n)) = w"
  using length_digits_of [of n w] by (simp add: pad_zero_def)

lemma digits_of_no_dot [simp]: "CHR ''.'' \<notin> set (digits_of n)"
  using digits_of_digits [of n] by (auto simp: list_all_iff is_digit_iff)

lemma format_int_nonneg: "0 \<le> n \<Longrightarrow> format_int n = digits_of (nat n)"
  by (simp add: format_int_def)

lemma drop_currency:
  assumes "money_validate m = None"
  shows "drop 4 (Currency m @ '' '' @ s) = s"
  using assms by (simp add: money_validate_None currency_bad_iff)

lemma decimal_minor_whole:
  "0 \<le> e \<Longrightarrow> e \<le> 4 \<Longrightarrow> decimal_minor (digits_of n) e = Some (int n * 10 ^ nat e)"
  by (simp add: decimal_minor_def cut_not_found)

lemma decimal_minor_point:
  assumes "0 < e" "e \<le> 4" "r < 10 ^ nat e"
  shows "decimal_minor (digits_of q @ ''.'' @ pad_zero (nat e) (digits_of r)) e
     = Some (int q * 10 ^ nat e + int r)"
  using assms cut_found [of "CHR ''.''" "digits_of q" "pad_zero (nat e) (digits_of r)"]
  by (simp add: decimal_minor_def length_pad_zero parse_uint_pad_zero)

lemma money_string_body:
  assumes v: "money_validate m = None" and e: "Exponent m \<noteq> 0"
  defines "a \<equiv> nat (sint (Amount m))" and "p \<equiv> (10::nat) ^ nat (sint (Exponent m))"
  shows "money_string m = Currency m @ '' '' @ digits_of (a div p) @ ''.''
     @ pad_zero (nat (sint (Exponent m))) (digits_of (a mod p))"
proof -
  have m: "0 \<le> sint (Amount m)" "0 \<le> sint (Exponent m)" "sint (Exponent m) \<le> 4"
    using v by (simp_all add: money_validate_None)
  let ?w = "scale10 (nat (sint (Exponent m))) 1"
  have w: "sint ?w = int p" using m by (simp add: sint_pow10 p_def)
  then have pos: "0 < sint ?w" by (simp add: p_def)
  have "sint (div_i64 (Amount m) ?w) = int (a div p)"
    using sint_div_i64 [OF m(1) pos] m(1) w by (simp add: a_def zdiv_int)
  moreover have "sint (mod_i64 (Amount m) ?w) = int (a mod p)"
    using sint_mod_i64 [OF m(1) pos] m(1) w by (simp add: a_def zmod_int)
  ultimately show ?thesis
    using v e by (simp add: money_string_def Let_def format_int_def)
qed

section \<open>Properties\<close>

text \<open>C34: the parser of decimal amounts computes exactly the unbounded decimal conversion: it
  accepts a string with value \<open>v\<close> if and only if the string is a decimal with at most
  \<open>exponent\<close> fraction digits whose minor-unit value is \<open>v\<close> and fits an \<open>int64\<close>; it never rounds
  and never wraps.\<close>

theorem parse_minor_exact:
  "parse_minor s e = Inr v \<longleftrightarrow> decimal_minor s (sint e) = Some (sint v)"
  using parse_minor_iff [of e s v]
  by (cases "0 \<le> sint e \<and> sint e \<le> 4") (auto simp: parse_minor_def decimal_minor_def)

text \<open>what \<open>String\<close> prints after the currency, \<open>ParseMinor\<close> reads back to the same amount,
  for every valid money value up to the largest \<open>int64\<close>.\<close>

theorem money_roundtrip:
  assumes "money_validate m = None"
  shows "parse_minor (drop 4 (money_string m)) (Exponent m) = Inr (Amount m)"
proof -
  have m: "0 \<le> sint (Amount m)" "0 \<le> sint (Exponent m)" "sint (Exponent m) \<le> 4"
    using assms by (simp_all add: money_validate_None)
  have "decimal_minor (drop 4 (money_string m)) (sint (Exponent m)) = Some (sint (Amount m))"
  proof (cases "Exponent m = 0")
    case True
    then show ?thesis
      using m assms drop_currency [OF assms] decimal_minor_whole [of 0 "nat (sint (Amount m))"]
      by (simp add: money_string_def format_int_nonneg)
  next
    case False
    define a where "a = nat (sint (Amount m))"
    define p where "p = (10::nat) ^ nat (sint (Exponent m))"
    have "0 < sint (Exponent m)" using m(2) False by (simp add: order_less_le neq_commute [of 0])
    moreover have "a mod p < p" by (simp add: p_def)
    moreover have "int (a div p) * int p + int (a mod p) = int a"
      by (simp only: of_nat_add [symmetric] of_nat_mult [symmetric] div_mult_mod_eq)
    ultimately show ?thesis
      using m decimal_minor_point [of "sint (Exponent m)" "a mod p" "a div p"]
      unfolding money_string_body [OF assms False] drop_currency [OF assms]
      by (simp add: a_def p_def)
  qed
  then show ?thesis using m by (simp add: parse_minor_iff)
qed

theorem money_roundtrip_witness:
  "parse_minor (drop 4 (money_string \<lparr>Amount = 14905, Currency = ''USD'', Exponent = 2\<rparr>)) 2
     = Inr 14905"
  using money_roundtrip [of "\<lparr>Amount = 14905, Currency = ''USD'', Exponent = 2\<rparr>"]
  by (simp add: money_validate_None currency_bad_iff is_upper_iff)

end
