(* ===== verification/Biz_PII.thy ===== *)
theory Biz_PII
  imports Go_Strings
begin

text \<open>
  \<open>biz/pii.go\<close>: the guard that keeps card numbers, e-mail addresses and IBANs out of every
  \<open>biz.*\<close> field. The two regular expressions are translated to the scans they denote; the card
  scan is the code's own, over the segments of a run of digits.
\<close>

section \<open>Card numbers\<close>

text \<open>
  One run of digits, starting at a digit: the digits seen, the bounds of the segments between
  separators, and the rest of the input where the run stops.
\<close>

definition is_sep :: "char \<Rightarrow> bool" where
  "is_sep c \<longleftrightarrow> c = CHR '' '' \<or> c = CHR ''-''"

definition is_digit_char :: "char \<Rightarrow> bool" where
  "is_digit_char c \<longleftrightarrow> is_digit (byte c)"

definition starts_digit :: "string \<Rightarrow> bool" where
  "starts_digit s \<longleftrightarrow> (case s of [] \<Rightarrow> False | c # _ \<Rightarrow> is_digit_char c)"

fun pan_run ::
  "string \<Rightarrow> string \<Rightarrow> (nat \<times> nat) list \<Rightarrow> nat \<Rightarrow> string \<times> (nat \<times> nat) list \<times> string" where
  "pan_run [] digits bounds start = (digits, bounds @ [(start, length digits)], [])"
| "pan_run (c # cs) digits bounds start =
     (if is_digit_char c then pan_run cs (digits @ [c]) bounds start
      else if is_sep c \<and> starts_digit cs
        then pan_run cs digits (bounds @ [(start, length digits)]) (length digits)
      else (digits, bounds @ [(start, length digits)], c # cs))"

text \<open>The Luhn sum, from the last digit; \<open>dbl\<close> says whether the current digit is doubled.\<close>

definition luhn_double :: "nat \<Rightarrow> nat" where
  "luhn_double d = (if d * 2 > 9 then d * 2 - 9 else d * 2)"

fun luhn_sum :: "bool \<Rightarrow> string \<Rightarrow> nat" where
  "luhn_sum dbl [] = 0"
| "luhn_sum dbl (c # cs) =
     (if dbl then luhn_double (byte c - 48) else byte c - 48) + luhn_sum (\<not> dbl) cs"

definition luhn_valid :: "string \<Rightarrow> bool" where
  "luhn_valid digits \<longleftrightarrow> luhn_sum False (rev digits) mod 10 = 0"

definition span_pan :: "string \<Rightarrow> (nat \<times> nat) list \<Rightarrow> bool" where
  "span_pan digits bounds \<longleftrightarrow>
     list_ex (\<lambda>a. list_ex (\<lambda>b.
        let span = take (snd (bounds ! b) - fst (bounds ! a)) (drop (fst (bounds ! a)) digits)
        in length span \<ge> 13 \<and> length span \<le> 19 \<and> luhn_valid span) [a..<length bounds])
      [0..<length bounds]"

lemma pan_run_rest: "length (snd (snd (pan_run s ds bs st))) \<le> length s"
  by (induction s ds bs st rule: pan_run.induct) auto

function has_pan :: "string \<Rightarrow> bool" where
  "has_pan [] = False"
| "has_pan (c # cs) =
     (if \<not> is_digit_char c then has_pan cs
      else
        (let run = pan_run (c # cs) [] [] 0
         in span_pan (fst run) (fst (snd run)) \<or> has_pan (snd (snd run))))"
  by pat_completeness auto
termination
proof (relation "measure length")
  fix c cs and x :: "string \<times> (nat \<times> nat) list \<times> string"
  assume "\<not> \<not> is_digit_char c" "x = pan_run (c # cs) [] [] 0"
  then have "length (snd (snd x)) \<le> length cs" using pan_run_rest [of cs "[c]" "[]" 0] by simp
  then show "(snd (snd x), c # cs) \<in> measure length" by simp
qed auto

section \<open>E-mail addresses\<close>

text \<open>
  An unanchored match of the pattern for e-mail addresses: some \<open>@\<close> preceded by a local-part
  character and followed by domain characters, a dot and at least two letters.
\<close>

definition is_letter :: "nat \<Rightarrow> bool" where
  "is_letter r \<longleftrightarrow> is_lower r \<or> is_upper r"

definition email_local :: "char \<Rightarrow> bool" where
  "email_local c \<longleftrightarrow> is_letter (byte c) \<or> is_digit (byte c) \<or> c \<in> set ''._%+-''"

definition email_domain :: "char \<Rightarrow> bool" where
  "email_domain c \<longleftrightarrow> is_letter (byte c) \<or> is_digit (byte c) \<or> c \<in> set ''.-''"

definition email_tail :: "string \<Rightarrow> bool" where
  "email_tail s \<longleftrightarrow>
     list_ex (\<lambda>k. list_all email_domain (take k s) \<and> take 1 (drop k s) = ''.''
        \<and> k + 2 < length s \<and> list_all (\<lambda>c. is_letter (byte c)) (take 2 (drop (k + 1) s)))
      [1..<length s]"

fun email_from :: "bool \<Rightarrow> string \<Rightarrow> bool" where
  "email_from prev_local [] = False"
| "email_from prev_local (c # cs) =
     ((prev_local \<and> c = CHR ''@'' \<and> email_tail cs) \<or> email_from (email_local c) cs)"

definition email_match :: "string \<Rightarrow> bool" where
  "email_match s = email_from False s"

section \<open>IBANs\<close>

text \<open>
  The case-insensitive classes of the shape pattern. Go folds case by Unicode, so the long s
  (U+017F) and the Kelvin sign (U+212A) belong to the letters.
\<close>

definition iban_letter :: "nat \<Rightarrow> bool" where
  "iban_letter r \<longleftrightarrow> is_letter r \<or> r = 383 \<or> r = 8490"

definition iban_alnum :: "nat \<Rightarrow> bool" where
  "iban_alnum r \<longleftrightarrow> iban_letter r \<or> is_digit r"

text \<open>The length of the match at the head of a rune sequence: greedy, at most 30 after the four.\<close>

definition iban_at :: "nat list \<Rightarrow> nat option" where
  "iban_at rs =
     (if 4 \<le> length rs \<and> list_all iban_letter (take 2 rs) \<and> list_all is_digit (take 2 (drop 2 rs))
      then
        (let n = length (takeWhile iban_alnum (drop 4 rs))
         in if n \<ge> 11 then Some (4 + min n 30) else None)
      else None)"

lemma iban_at_pos: "iban_at rs = Some k \<Longrightarrow> 0 < k \<and> k \<le> length rs"
  using length_takeWhile_le [of iban_alnum "drop 4 rs"]
  by (auto simp: iban_at_def Let_def split: if_splits)

text \<open>\<open>FindAllString\<close>: leftmost matches that do not overlap.\<close>

function iban_candidates :: "(nat \<times> string) list \<Rightarrow> string list" where
  "iban_candidates [] = []"
| "iban_candidates (x # xs) =
     (case iban_at (map fst (x # xs)) of
        Some k \<Rightarrow> concat (map snd (take k (x # xs))) # iban_candidates (drop k (x # xs))
      | None \<Rightarrow> iban_candidates xs)"
  by pat_completeness auto
termination
proof (relation "measure length")
  fix x :: "nat \<times> string" and xs k
  assume "iban_at (map fst (x # xs)) = Some k"
  from iban_at_pos [OF this] show "(drop k (x # xs), x # xs) \<in> measure length" by auto
qed auto

text \<open>One character of the mod-97 checksum; \<open>None\<close> is the closure returning false.\<close>

definition iban_feed :: "nat \<Rightarrow> char \<Rightarrow> nat option" where
  "iban_feed rem c =
     (if is_digit (byte c) then Some ((rem * 10 + (byte c - 48)) mod 97)
      else if is_upper (byte c) then Some ((rem * 100 + (byte c - 65 + 10)) mod 97)
      else if is_lower (byte c) then Some ((rem * 100 + (byte c - 97 + 10)) mod 97)
      else None)"

fun iban_feed_all :: "nat \<Rightarrow> string \<Rightarrow> nat option" where
  "iban_feed_all rem [] = Some rem"
| "iban_feed_all rem (c # cs) =
     (case iban_feed rem c of None \<Rightarrow> None | Some r \<Rightarrow> iban_feed_all r cs)"

definition iban_mod97 :: "string \<Rightarrow> int" where
  "iban_mod97 iban =
     (case iban_feed_all 0 (drop 4 iban) of
        None \<Rightarrow> -1
      | Some rem \<Rightarrow> (case iban_feed_all rem (take 4 iban) of None \<Rightarrow> -1 | Some r \<Rightarrow> int r))"

definition has_iban :: "string \<Rightarrow> bool" where
  "has_iban s \<longleftrightarrow> list_ex (\<lambda>cand. iban_mod97 cand = 1) (iban_candidates (runes s))"

section \<open>The guard\<close>

datatype pii_error = PAN string | Email string | IBAN string

definition check_pii :: "string \<Rightarrow> string \<Rightarrow> pii_error option" where
  "check_pii field s =
     (if has_pan s then Some (PAN field)
      else if email_match s then Some (Email field)
      else if has_iban s then Some (IBAN field)
      else None)"

section \<open>Lemmas\<close>

text \<open>The Luhn sum: each position permutes the digits, so changing one digit changes the sum.\<close>

lemma luhn_double_cases:
  "d < 10 \<Longrightarrow> d \<in> {0, 1, 2, 3, 4, 5, 6, 7, 8, 9 :: nat}"
  by auto

lemma luhn_double_inj:
  "a < 10 \<Longrightarrow> b < 10 \<Longrightarrow> luhn_double a mod 10 = luhn_double b mod 10 \<Longrightarrow> a = b"
  by (drule luhn_double_cases, drule luhn_double_cases) (auto simp: luhn_double_def)

lemma luhn_sum_append:
  "luhn_sum dbl (xs @ ys) = luhn_sum dbl xs + luhn_sum (if even (length xs) then dbl else \<not> dbl) ys"
  by (induction xs arbitrary: dbl) auto

lemma luhn_sum_change:
  assumes "is_digit_char c" "is_digit_char c'" "c \<noteq> c'"
  shows "luhn_sum dbl (xs @ c # ys) mod 10 \<noteq> luhn_sum dbl (xs @ c' # ys) mod 10"
proof
  let ?d = "if even (length xs) then dbl else \<not> dbl"
  let ?v = "\<lambda>c. if ?d then luhn_double (byte c - 48) else byte c - 48"
  assume "luhn_sum dbl (xs @ c # ys) mod 10 = luhn_sum dbl (xs @ c' # ys) mod 10"
  then have "(luhn_sum dbl xs + luhn_sum (\<not> ?d) ys + ?v c) mod 10
      = (luhn_sum dbl xs + luhn_sum (\<not> ?d) ys + ?v c') mod 10"
    by (simp only: luhn_sum_append luhn_sum.simps ac_simps)
  then have v: "?v c mod 10 = ?v c' mod 10" by (rule mod_add_cancel_nat)
  have r: "48 \<le> byte c" "byte c \<le> 57" "48 \<le> byte c'" "byte c' \<le> 57"
    using assms by (auto simp: is_digit_char_def is_digit_iff)
  have "byte c - 48 = byte c' - 48"
    using v r luhn_double_inj [of "byte c - 48" "byte c' - 48"] by (auto split: if_splits)
  then have "byte c = byte c'" using r by linarith
  then show False using assms(3) by simp
qed

text \<open>The incremental checksum is the remainder of the whole number.\<close>

definition iban_value :: "char \<Rightarrow> string" where
  "iban_value c =
     (if is_digit (byte c) then [c]
      else if is_upper (byte c) then digits_of (byte c - 65 + 10)
      else digits_of (byte c - 97 + 10))"

definition iban_number :: "string \<Rightarrow> nat option" where
  "iban_number s =
     (if list_all (\<lambda>c. is_letter (byte c) \<or> is_digit (byte c)) s
      then parse_digits 0 (concat (map iban_value (drop 4 s @ take 4 s))) else None)"

lemma digits_of_two: "10 \<le> n \<Longrightarrow> n < 100 \<Longrightarrow>
    digits_of n = [char_of (48 + n div 10), char_of (48 + n mod 10)]"
  by (simp add: digits_of.simps [of n] digits_of.simps [of "n div 10"] less_mult_imp_div_less)

lemma parse_digits_two:
  assumes "10 \<le> n" "n < 100"
  shows "parse_digits a (digits_of n @ s) = parse_digits (a * 100 + n) s"
proof -
  have "n div 10 < 10" using assms by (simp add: less_mult_imp_div_less)
  moreover have "(a * 10 + n div 10) * 10 + n mod 10 = a * 100 + n"
    by (simp add: algebra_simps)
  moreover have "n mod 10 < 10" by simp
  then have "n mod 10 \<le> 9" by linarith
  ultimately show ?thesis
    using assms by (simp add: digits_of_two is_digit_iff) (simp add: add.commute mult.commute)
qed

lemma iban_feed_value:
  assumes "is_letter (byte c) \<or> is_digit (byte c)"
  obtains k where "parse_digits a (iban_value c @ s) = parse_digits k s"
    and "iban_feed (a mod 97) c = Some (k mod 97)"
proof -
  consider (d) "is_digit (byte c)" | (u) "\<not> is_digit (byte c)" "is_upper (byte c)"
    | (l) "\<not> is_digit (byte c)" "\<not> is_upper (byte c)" "is_lower (byte c)"
    using assms by (auto simp: is_letter_def)
  then show ?thesis
  proof cases
    case d
    show ?thesis
      by (rule that [of "a * 10 + (byte c - 48)"])
        (use d in \<open>simp_all add: iban_value_def iban_feed_def mod_step\<close>)
  next
    case u
    have r: "10 \<le> byte c - 65 + 10" "byte c - 65 + 10 < 100" using u by (auto simp: is_upper_iff)
    show ?thesis
      by (rule that [of "a * 100 + (byte c - 65 + 10)"])
        (use u parse_digits_two [OF r] in \<open>simp_all add: iban_value_def iban_feed_def mod_step\<close>)
  next
    case l
    have r: "10 \<le> byte c - 97 + 10" "byte c - 97 + 10 < 100" using l by (auto simp: is_lower_iff)
    show ?thesis
      by (rule that [of "a * 100 + (byte c - 97 + 10)"])
        (use l parse_digits_two [OF r] in \<open>simp_all add: iban_value_def iban_feed_def mod_step\<close>)
  qed
qed

lemma iban_feed_all_value:
  "list_all (\<lambda>c. is_letter (byte c) \<or> is_digit (byte c)) s \<Longrightarrow>
   \<exists>n. parse_digits a (concat (map iban_value s)) = Some n
     \<and> iban_feed_all (a mod 97) s = Some (n mod 97)"
proof (induction s arbitrary: a)
  case (Cons c cs)
  have c: "is_letter (byte c) \<or> is_digit (byte c)" using Cons.prems by simp
  obtain k where "parse_digits a (iban_value c @ concat (map iban_value cs))
      = parse_digits k (concat (map iban_value cs))"
    and "iban_feed (a mod 97) c = Some (k mod 97)"
    by (rule iban_feed_value [OF c])
  with Cons show ?case by simp
qed simp

lemma iban_feed_all_append:
  "iban_feed_all r (xs @ ys) = (case iban_feed_all r xs of None \<Rightarrow> None | Some q \<Rightarrow> iban_feed_all q ys)"
  by (induction xs arbitrary: r) (auto split: option.splits)

lemma iban_mod97_eq:
  assumes "list_all (\<lambda>c. is_letter (byte c) \<or> is_digit (byte c)) s"
  shows "\<exists>n. iban_number s = Some n \<and> iban_mod97 s = int (n mod 97)"
proof -
  have "list_all (\<lambda>c. is_letter (byte c) \<or> is_digit (byte c)) (drop 4 s @ take 4 s)"
    using assms by (auto simp: list_all_iff dest: in_set_takeD in_set_dropD)
  from iban_feed_all_value [OF this, of 0] assms show ?thesis
    by (auto simp: iban_number_def iban_mod97_def iban_feed_all_append split: option.splits)
qed

lemma iban_feed_all_None:
  "\<not> list_all (\<lambda>c. is_letter (byte c) \<or> is_digit (byte c)) s \<Longrightarrow> iban_feed_all r s = None"
  by (induction s arbitrary: r) (auto simp: iban_feed_def is_letter_def split: option.splits)

section \<open>What the card scan finds\<close>

text \<open>
  A card as it is written: digits in groups, single separators between groups, and no further
  digit on either side. \<open>carries_pan\<close> says that a text holds one whose digits number 13 to 19 and
  pass Luhn.
\<close>

definition pan_digits :: "string \<Rightarrow> bool" where
  "pan_digits ds \<longleftrightarrow> 13 \<le> length ds \<and> length ds \<le> 19 \<and> luhn_valid ds"

fun grouped :: "string \<Rightarrow> bool" where
  "grouped [] = True"
| "grouped [c] = is_digit_char c"
| "grouped (c # d # cs) = ((is_digit_char c \<or> is_sep c \<and> is_digit_char d) \<and> grouped (d # cs))"

definition ends_digit :: "string \<Rightarrow> bool" where
  "ends_digit s \<longleftrightarrow> s \<noteq> [] \<and> is_digit_char (last s)"

definition carries_pan :: "string \<Rightarrow> bool" where
  "carries_pan s \<longleftrightarrow>
     (\<exists>pre body post. s = pre @ body @ post \<and> \<not> ends_digit pre \<and> \<not> starts_digit post
        \<and> starts_digit body \<and> grouped body \<and> pan_digits (filter is_digit_char body))"

lemma starts_digit_simps [simp]:
  "\<not> starts_digit []" "starts_digit (c # cs) = is_digit_char c"
  by (simp_all add: starts_digit_def)

text \<open>The groups of the run at the head of a text, and the text after the run.\<close>

fun run_segs :: "string \<Rightarrow> string list \<times> string" where
  "run_segs [] = ([[]], [])"
| "run_segs (c # cs) =
     (if is_digit_char c
      then ((c # hd (fst (run_segs cs))) # tl (fst (run_segs cs)), snd (run_segs cs))
      else if is_sep c \<and> starts_digit cs then ([] # fst (run_segs cs), snd (run_segs cs))
      else ([[]], c # cs))"

lemma run_segs_nonempty [simp]: "fst (run_segs s) \<noteq> []"
  by (cases s) auto

lemma run_segs_Cons:
  obtains g gs r where "run_segs s = (g # gs, r)"
  using run_segs_nonempty [of s] by (cases "run_segs s"; cases "fst (run_segs s)") auto

fun bounds_from :: "nat \<Rightarrow> string list \<Rightarrow> (nat \<times> nat) list" where
  "bounds_from n [] = []"
| "bounds_from n (g # gs) = (n, n + length g) # bounds_from (n + length g) gs"

lemma pan_run_segs:
  assumes "run_segs s = (g # gs, r)" "st \<le> length ds"
  shows "pan_run s ds bs st =
     (ds @ g @ concat gs, bs @ bounds_from st ((drop st ds @ g) # gs), r)"
  using assms
proof (induction s arbitrary: ds bs st g gs r)
  case (Cons c cs)
  obtain g' gs' r' where cs: "run_segs cs = (g' # gs', r')" by (rule run_segs_Cons)
  show ?case
    using Cons.prems Cons.IH [OF cs, of st "ds @ [c]" bs]
      Cons.IH [OF cs, of "length ds" ds "bs @ [(st, length ds)]"] cs
    by (auto split: if_splits)
qed auto

lemma length_bounds_from [simp]: "length (bounds_from n gs) = length gs"
  by (induction gs arbitrary: n) auto

lemma bounds_from_nth:
  "i < length gs \<Longrightarrow> bounds_from n gs ! i =
     (n + length (concat (take i gs)), n + length (concat (take (Suc i) gs)))"
  by (induction gs arbitrary: n i) (auto simp: nth_Cons split: nat.splits)

lemma span_of_groups:
  assumes "a \<le> b" "b < length gs"
  shows "take (snd (bounds_from 0 gs ! b) - fst (bounds_from 0 gs ! a))
           (drop (fst (bounds_from 0 gs ! a)) (concat gs)) = concat (take (Suc b - a) (drop a gs))"
proof -
  have "gs = take a gs @ take (Suc b - a) (drop a gs) @ drop (Suc b) gs"
    using assms by (metis append_take_drop_id drop_drop le_SucI le_add_diff_inverse2)
  then have c: "concat gs = concat (take a gs) @ concat (take (Suc b - a) (drop a gs))
      @ concat (drop (Suc b) gs)"
    by (metis concat_append)
  have "take (Suc b) gs = take a gs @ take (Suc b - a) (drop a gs)"
    using assms by (metis le_SucI le_add_diff_inverse take_add)
  then show ?thesis
    using assms c by (simp add: bounds_from_nth)
qed

lemma span_pan_groups:
  "span_pan (concat gs) (bounds_from 0 gs) \<longleftrightarrow>
     (\<exists>a < length gs. \<exists>n. 0 < n \<and> n \<le> length gs - a \<and> pan_digits (concat (take n (drop a gs))))"
proof -
  have "span_pan (concat gs) (bounds_from 0 gs) \<longleftrightarrow>
     (\<exists>a b. a \<le> b \<and> b < length gs \<and> pan_digits (concat (take (Suc b - a) (drop a gs))))"
    by (simp only: span_pan_def list_ex_iff Let_def pan_digits_def [symmetric] length_bounds_from
        set_upt Bex_def atLeastLessThan_iff span_of_groups [symmetric] cong: conj_cong)
      (use le_less_trans in blast)
  also have "\<dots> \<longleftrightarrow>
     (\<exists>a < length gs. \<exists>n. 0 < n \<and> n \<le> length gs - a \<and> pan_digits (concat (take n (drop a gs))))"
    (is "?l = ?r")
  proof
    assume ?l
    then obtain a b where "a \<le> b" "b < length gs" "pan_digits (concat (take (Suc b - a) (drop a gs)))"
      by blast
    then show ?r by (intro exI [of _ a] conjI exI [of _ "Suc b - a"]) auto
  next
    assume ?r
    then obtain a n where "a < length gs" "0 < n" "n \<le> length gs - a"
      "pan_digits (concat (take n (drop a gs)))" by blast
    then show ?l by (intro exI [of _ a] exI [of _ "a + n - 1"]) auto
  qed
  finally show ?thesis .
qed

text \<open>The places where a group may start: a digit whose predecessor is not one.\<close>

fun group_starts :: "bool \<Rightarrow> string \<Rightarrow> string list" where
  "group_starts prev [] = []"
| "group_starts prev (c # cs) =
     (if is_digit_char c \<and> \<not> prev then [c # cs] else []) @ group_starts (is_digit_char c) cs"

fun tails :: "'a list \<Rightarrow> 'a list list" where
  "tails [] = []"
| "tails (x # xs) = (x # xs) # tails xs"

lemma set_tails: "set (tails xs) = {drop n xs | n. n < length xs}"
proof (induction xs)
  case (Cons x xs)
  have "(\<exists>n. y = drop n (x # xs) \<and> n < length (x # xs)) \<longleftrightarrow>
      y = x # xs \<or> (\<exists>n. y = drop n xs \<and> n < length xs)" for y
    by (metis drop0 drop_Suc_Cons length_Cons not0_implies_Suc Suc_less_eq zero_less_Suc)
  then have "{drop n (x # xs) | n. n < length (x # xs)} = insert (x # xs) {drop n xs | n. n < length xs}"
    by blast
  then show ?case using Cons by simp
qed simp

lemma group_starts_run:
  "map (fst \<circ> run_segs) (group_starts prev s) =
     (if prev \<or> \<not> starts_digit s then tails (tl (fst (run_segs s))) else tails (fst (run_segs s)))
     @ map (fst \<circ> run_segs) (group_starts False (snd (run_segs s)))"
proof (induction s arbitrary: prev)
  case (Cons c cs)
  obtain g gs r where cs: "run_segs cs = (g # gs, r)" by (rule run_segs_Cons)
  show ?case
    using Cons.IH [of True] Cons.IH [of False] cs by auto
qed simp

definition pan_prefix :: "string \<Rightarrow> bool" where
  "pan_prefix t \<longleftrightarrow>
     (\<exists>n. 0 < n \<and> n \<le> length (fst (run_segs t)) \<and> pan_digits (concat (take n (fst (run_segs t)))))"

lemma has_pan_starts: "has_pan s \<longleftrightarrow> (\<exists>t \<in> set (group_starts False s). pan_prefix t)"
proof (induction s rule: has_pan.induct)
  case (2 c cs)
  show ?case
  proof (cases "is_digit_char c")
    case True
    obtain g gs r where run: "run_segs (c # cs) = (g # gs, r)" by (rule run_segs_Cons)
    have pr: "pan_run (c # cs) [] [] 0 = (concat (g # gs), bounds_from 0 (g # gs), r)"
      using pan_run_segs [OF run, of 0 "[]" "[]"] by simp
    have ih: "has_pan r \<longleftrightarrow> (\<exists>t \<in> set (group_starts False r). pan_prefix t)"
      using "2.IH"(2) [OF _ refl] True pr by simp
    let ?P = "\<lambda>hs. \<exists>n. 0 < n \<and> n \<le> length hs \<and> pan_digits (concat (take n hs))"
    have "map (fst \<circ> run_segs) (group_starts False (c # cs))
        = tails (g # gs) @ map (fst \<circ> run_segs) (group_starts False r)"
      using group_starts_run [of False "c # cs"] run True by simp
    then have "list_ex ?P (map (fst \<circ> run_segs) (group_starts False (c # cs)))
        = list_ex ?P (tails (g # gs) @ map (fst \<circ> run_segs) (group_starts False r))"
      by (rule arg_cong)
    then have "(\<exists>t \<in> set (group_starts False (c # cs)). ?P (fst (run_segs t))) \<longleftrightarrow>
        (\<exists>hs \<in> set (tails (g # gs)). ?P hs)
        \<or> (\<exists>t \<in> set (group_starts False r). ?P (fst (run_segs t)))"
      by (simp only: list_ex_iff set_append bex_Un list.set_map bex_simps(7) comp_apply)
    moreover have "(\<exists>hs \<in> set (tails (g # gs)). ?P hs)
        \<longleftrightarrow> span_pan (concat (g # gs)) (bounds_from 0 (g # gs))"
      unfolding span_pan_groups set_tails by fastforce
    ultimately show ?thesis
      using True ih pr by (simp only: has_pan.simps Let_def pan_prefix_def) simp
  qed (use 2 in simp)
qed simp

lemma group_starts_iff:
  "t \<in> set (group_starts prev s) \<longleftrightarrow>
     (\<exists>pre. s = pre @ t \<and> starts_digit t \<and> (if pre = [] then \<not> prev else \<not> ends_digit pre))"
proof (induction s arbitrary: prev)
  case (Cons c cs)
  have split: "(\<exists>pre. c # cs = pre @ t \<and> Q pre) \<longleftrightarrow> (t = c # cs \<and> Q []) \<or> (\<exists>pre. cs = pre @ t \<and> Q (c # pre))"
    for Q by (auto simp: Cons_eq_append_conv)
  have "ends_digit (c # pre) \<longleftrightarrow> (if pre = [] then is_digit_char c else ends_digit pre)" for pre
    by (simp add: ends_digit_def)
  then show ?case using Cons.IH [of "is_digit_char c"] unfolding split by auto
qed auto

lemma grouped_Cons_digit: "is_digit_char c \<Longrightarrow> grouped (c # b) \<longleftrightarrow> grouped b"
  by (cases b) auto

lemma grouped_Cons_other:
  "\<not> is_digit_char c \<Longrightarrow> grouped (c # b) \<longleftrightarrow> is_sep c \<and> starts_digit b \<and> grouped b"
  by (cases b) auto

lemma take1:
  "(\<exists>n. 0 < n \<and> n \<le> length (h # hs) \<and> concat (take n (h # hs)) = ds) \<longleftrightarrow>
     (\<exists>n \<le> length hs. h @ concat (take n hs) = ds)" (is "?l \<longleftrightarrow> ?r")
proof
  assume ?l
  then obtain n where n: "0 < n" "n \<le> length (h # hs)" "concat (take n (h # hs)) = ds" by blast
  then obtain m where "n = Suc m" by (cases n) auto
  then show ?r using n by auto
next
  assume ?r
  then obtain n where "n \<le> length hs" "h @ concat (take n hs) = ds" by blast
  then show ?l by (intro exI [of _ "Suc n"]) simp
qed

lemma run_prefixes:
  "(\<exists>n. 0 < n \<and> n \<le> length (fst (run_segs t)) \<and> concat (take n (fst (run_segs t))) = ds) \<longleftrightarrow>
     (\<exists>body post. t = body @ post \<and> grouped body \<and> \<not> starts_digit post
        \<and> filter is_digit_char body = ds)"
proof (induction t arbitrary: ds)
  case Nil
  show ?case using take1 [of "[]" "[]" ds] by simp
next
  case (Cons c cs)
  obtain g gs r where cs: "run_segs cs = (g # gs, r)" by (rule run_segs_Cons)
  have split: "(\<exists>body post. c # cs = body @ post \<and> Q body post) \<longleftrightarrow>
      Q [] (c # cs) \<or> (\<exists>body post. cs = body @ post \<and> Q (c # body) post)" for Q
    by (auto simp: Cons_eq_append_conv)
  have IH: "(\<exists>n \<le> length gs. g @ concat (take n gs) = ds) \<longleftrightarrow>
      (\<exists>body post. cs = body @ post \<and> grouped body \<and> \<not> starts_digit post
        \<and> filter is_digit_char body = ds)" for ds
    using Cons.IH [of ds] unfolding cs fst_conv take1 .
  consider (d) "is_digit_char c" | (s) "\<not> is_digit_char c" "is_sep c" "starts_digit cs"
    | (o) "\<not> is_digit_char c" "\<not> (is_sep c \<and> starts_digit cs)" by blast
  then show ?case
  proof cases
    case d
    have "(\<exists>n \<le> length gs. (c # g) @ concat (take n gs) = ds) \<longleftrightarrow>
        (\<exists>body post. cs = body @ post \<and> grouped body \<and> \<not> starts_digit post
          \<and> c # filter is_digit_char body = ds)"
      using IH [of "tl ds"] by (cases ds) auto
    moreover have "fst (run_segs (c # cs)) = (c # g) # gs" using d cs by simp
    ultimately show ?thesis
      using d unfolding split by (simp only: take1) (simp add: grouped_Cons_digit)
  next
    case s
    have f: "fst (run_segs (c # cs)) = [] # g # gs" using s cs by simp
    have e: "(\<exists>n \<le> length (g # gs). [] @ concat (take n (g # gs)) = ds) \<longleftrightarrow>
        ds = [] \<or> (\<exists>n \<le> length gs. g @ concat (take n gs) = ds)"
      by (metis append_Nil concat.simps bot_nat_0.extremum length_Cons not0_implies_Suc
          not_less_eq_eq take0 take_Suc_Cons)
    have "cs = body @ post \<Longrightarrow> \<not> starts_digit post \<Longrightarrow> starts_digit body" for body post
      using s by (cases body) auto
    then show ?thesis
      using s unfolding split f take1 e IH by (auto simp: grouped_Cons_other)
  next
    case o
    have "fst (run_segs (c # cs)) = [[]]" using o by auto
    then have "(\<exists>n. 0 < n \<and> n \<le> length (fst (run_segs (c # cs)))
        \<and> concat (take n (fst (run_segs (c # cs)))) = ds) \<longleftrightarrow> ds = []"
      using take1 [of "[]" "[]" ds] by auto
    moreover have "\<not> (cs = body @ post \<and> grouped (c # body))" for body post
      using o by (cases body) (auto simp: grouped_Cons_other)
    ultimately show ?thesis
      using o unfolding split by auto
  qed
qed

lemma pan_prefix_iff:
  "pan_prefix t \<longleftrightarrow> (\<exists>body post. t = body @ post \<and> grouped body \<and> \<not> starts_digit post
     \<and> pan_digits (filter is_digit_char body))"
proof -
  have "pan_prefix t \<longleftrightarrow> (\<exists>ds. pan_digits ds \<and> (\<exists>n. 0 < n \<and> n \<le> length (fst (run_segs t))
      \<and> concat (take n (fst (run_segs t))) = ds))"
    unfolding pan_prefix_def by blast
  then show ?thesis unfolding run_prefixes by blast
qed

section \<open>What the e-mail scan finds\<close>

text \<open>The language of the pattern, matched anywhere in the text.\<close>

definition carries_email :: "string \<Rightarrow> bool" where
  "carries_email s \<longleftrightarrow>
     (\<exists>pre loc dom tld post. s = pre @ loc @ ''@'' @ dom @ ''.'' @ tld @ post
        \<and> loc \<noteq> [] \<and> list_all email_local loc \<and> dom \<noteq> [] \<and> list_all email_domain dom
        \<and> 2 \<le> length tld \<and> list_all (\<lambda>c. is_letter (byte c)) tld)"

lemma email_tail_iff:
  "email_tail s \<longleftrightarrow>
     (\<exists>dom tld post. s = dom @ ''.'' @ tld @ post \<and> dom \<noteq> [] \<and> list_all email_domain dom
        \<and> 2 \<le> length tld \<and> list_all (\<lambda>c. is_letter (byte c)) tld)"
proof
  assume "email_tail s"
  then obtain k where k: "1 \<le> k" "k + 2 < length s" "list_all email_domain (take k s)"
    "take 1 (drop k s) = ''.''" "list_all (\<lambda>c. is_letter (byte c)) (take 2 (drop (k + 1) s))"
    by (auto simp: email_tail_def list_ex_iff)
  have "drop k s = take 1 (drop k s) @ drop 1 (drop k s)" by (simp only: append_take_drop_id)
  then have "drop k s = ''.'' @ drop (k + 1) s" unfolding k(4) by simp
  then have "s = take k s @ ''.'' @ take 2 (drop (k + 1) s) @ drop 2 (drop (k + 1) s)"
    by (metis append_take_drop_id)
  then show "\<exists>dom tld post. s = dom @ ''.'' @ tld @ post \<and> dom \<noteq> [] \<and> list_all email_domain dom
        \<and> 2 \<le> length tld \<and> list_all (\<lambda>c. is_letter (byte c)) tld"
    using k by (intro exI conjI) (assumption | auto)+
next
  assume "\<exists>dom tld post. s = dom @ ''.'' @ tld @ post \<and> dom \<noteq> [] \<and> list_all email_domain dom
        \<and> 2 \<le> length tld \<and> list_all (\<lambda>c. is_letter (byte c)) tld"
  then obtain dom tld post where s: "s = dom @ ''.'' @ tld @ post" and p: "dom \<noteq> []"
    "list_all email_domain dom" "2 \<le> length tld" "list_all (\<lambda>c. is_letter (byte c)) tld" by blast
  obtain a b t where tld: "tld = a # b # t" using p(3) by (auto simp: numeral_eq_Suc Suc_le_length_iff)
  show "email_tail s"
    unfolding email_tail_def list_ex_iff
    by (rule bexI [of _ "length dom"]) (use p tld in \<open>auto simp: s Suc_le_eq\<close>)
qed

lemma email_from_iff:
  "email_from prev s \<longleftrightarrow>
     (\<exists>pre t. s = pre @ ''@'' @ t \<and> email_tail t
        \<and> (if pre = [] then prev else email_local (last pre)))"
proof (induction s arbitrary: prev)
  case (Cons c cs)
  have split: "(\<exists>pre t. c # cs = pre @ ''@'' @ t \<and> Q pre t) \<longleftrightarrow>
      (c = CHR ''@'' \<and> Q [] cs) \<or> (\<exists>pre t. cs = pre @ ''@'' @ t \<and> Q (c # pre) t)" for Q
    by (auto simp: Cons_eq_append_conv)
  show ?case
    using Cons.IH [of "email_local c"] unfolding split by auto
qed simp

lemma email_match_iff: "email_match s \<longleftrightarrow> carries_email s"
proof -
  have "email_match s \<longleftrightarrow> (\<exists>pre t. s = pre @ ''@'' @ t \<and> email_tail t \<and> pre \<noteq> [] \<and> email_local (last pre))"
    unfolding email_match_def email_from_iff by (intro ex_cong1) auto
  also have "\<dots> \<longleftrightarrow> (\<exists>pre loc t. s = pre @ loc @ ''@'' @ t \<and> email_tail t \<and> loc \<noteq> []
      \<and> list_all email_local loc)" (is "?l \<longleftrightarrow> ?r")
  proof
    assume ?l
    then obtain pre t where "s = butlast pre @ [last pre] @ ''@'' @ t" "email_tail t"
      "email_local (last pre)" by (metis append.assoc append_butlast_last_id)
    then show ?r by (intro exI [of _ "butlast pre"] exI [of _ "[last pre]"] exI [of _ t]) simp
  next
    assume ?r
    then obtain pre loc t where "s = (pre @ loc) @ ''@'' @ t" "email_tail t" "loc \<noteq> []"
      "email_local (last loc)" by (auto simp: list_all_iff)
    then show ?l by (intro exI [of _ "pre @ loc"] exI [of _ t]) simp
  qed
  also have "\<dots> \<longleftrightarrow> carries_email s"
    unfolding carries_email_def email_tail_iff by blast
  finally show ?thesis .
qed

lemma carries_pan_detected: "has_pan s \<longleftrightarrow> carries_pan s"
proof -
  have f: "grouped body \<Longrightarrow> \<not> starts_digit post \<Longrightarrow> starts_digit (body @ post) \<longleftrightarrow> starts_digit body"
    for body post by (cases body) auto
  have "has_pan s \<longleftrightarrow> (\<exists>pre t. s = pre @ t \<and> starts_digit t \<and> \<not> ends_digit pre \<and> pan_prefix t)"
    unfolding has_pan_starts Bex_def group_starts_iff by (auto simp: ends_digit_def)
  then show ?thesis
    unfolding pan_prefix_iff carries_pan_def using f by blast
qed

section \<open>Properties\<close>

text \<open>C33: the card scan is exact: it fires if and only if the text holds a number written in
  groups of digits with single spaces or dashes between them, not touching another digit, whose
  13 to 19 digits pass Luhn. No leading or trailing group hides such a number, and no part of an unbroken longer run
  fires; what stands around it does not matter, so a prefixed numeric id fires too when its digits pass.\<close>

theorem has_pan_exact: "has_pan s \<longleftrightarrow> carries_pan s"
  by (rule carries_pan_detected)

text \<open>The comment on \<open>CheckPII\<close> says that prefixed numeric ids never fire; this one does.\<close>

lemma prefixed_id_fires: "has_pan ''inv_4111111111111111''" "\<not> has_pan ''inv_4111111111111112''"
  by code_simp+

text \<open>the Luhn check catches every single-digit error: two numbers of any length that differ
  in exactly one digit are never both Luhn-valid.\<close>

theorem luhn_single_digit:
  assumes "is_digit_char c" "is_digit_char c'" "c \<noteq> c'"
  shows "\<not> (luhn_valid (xs @ c # ys) \<and> luhn_valid (xs @ c' # ys))"
  using luhn_sum_change [OF assms, of False "rev ys" "rev xs"]
  by (auto simp: luhn_valid_def)

theorem luhn_single_digit_witness:
  "\<not> luhn_valid ''4111111111111112''"
proof -
  have "luhn_valid (''411111111111111'' @ CHR ''1'' # '''')" by code_simp
  then show ?thesis
    using luhn_single_digit [of "CHR ''1''" "CHR ''2''" "''411111111111111''" "''''"]
    by (simp add: is_digit_char_def is_digit_iff)
qed

text \<open>the incremental IBAN checksum equals the checksum of the whole number: for every
  candidate, \<open>ibanMod97\<close> is the remainder by 97 of the unbounded decimal number obtained by moving
  the first four characters to the end and writing each letter as 10 to 35, and it is \<open>-1\<close>
  exactly when some character is neither a letter nor a digit.\<close>

theorem iban_mod97_exact:
  "iban_mod97 s = (case iban_number s of None \<Rightarrow> -1 | Some n \<Rightarrow> int (n mod 97))"
proof (cases "list_all (\<lambda>c. is_letter (byte c) \<or> is_digit (byte c)) s")
  case True
  then show ?thesis using iban_mod97_eq [OF True] by auto
next
  case False
  then have "\<not> list_all (\<lambda>c. is_letter (byte c) \<or> is_digit (byte c)) (drop 4 s @ take 4 s)"
    by (metis append_take_drop_id list_all_append)
  then have "iban_feed_all 0 (drop 4 s @ take 4 s) = None" by (rule iban_feed_all_None)
  then show ?thesis
    using False by (auto simp: iban_number_def iban_mod97_def iban_feed_all_append split: option.splits)
qed

end
