(* ===== verification/Biz_Context.thy ===== *)
theory Biz_Context
  imports Biz_Money Biz_PII
begin

text \<open>
  \<open>biz/context.go\<close> and \<open>biz/ledger.go\<close>: the value context that travels with a request, the
  outcome of one stage transition, a row of a provider's ledger, and the validation that every
  one of them passes before it reaches a sink.
\<close>

section \<open>Kinds and results\<close>

text \<open>Kinds and results are Go strings; the declared ones are these constants.\<close>

definition kind_gmv :: string where "kind_gmv = ''gmv''"
definition kind_net_revenue :: string where "kind_net_revenue = ''net_revenue''"
definition kind_fee :: string where "kind_fee = ''fee''"
definition kind_take_rate :: string where "kind_take_rate = ''take_rate''"

definition kind_valid :: "string \<Rightarrow> bool" where
  "kind_valid k \<longleftrightarrow> k \<in> {kind_gmv, kind_net_revenue, kind_fee, kind_take_rate}"

definition res_success :: string where "res_success = ''success''"
definition res_failed :: string where "res_failed = ''failed''"
definition res_deferred :: string where "res_deferred = ''deferred''"
definition res_abandoned :: string where "res_abandoned = ''abandoned''"
definition res_unknown :: string where "res_unknown = ''unknown''"

definition result_valid :: "string \<Rightarrow> bool" where
  "result_valid r \<longleftrightarrow> r \<in> {res_success, res_failed, res_deferred, res_abandoned, res_unknown}"

lemmas kind_defs = kind_gmv_def kind_net_revenue_def kind_fee_def kind_take_rate_def
lemmas res_defs = res_success_def res_failed_def res_deferred_def res_abandoned_def res_unknown_def

section \<open>Tokens\<close>

datatype token_error = BadLength nat nat | BadChar nat

text \<open>The first rune of a string that a predicate rejects.\<close>

fun first_bad :: "(nat \<Rightarrow> bool) \<Rightarrow> nat list \<Rightarrow> nat option" where
  "first_bad ok [] = None"
| "first_bad ok (r # rs) = (if ok r then first_bad ok rs else Some r)"

definition token_rune :: "nat \<Rightarrow> bool" where
  "token_rune r \<longleftrightarrow> is_lower r \<or> is_digit r \<or> r \<in> {byte CHR ''.'', byte CHR ''_'', byte CHR ''-''}"

definition id_rune :: "nat \<Rightarrow> bool" where
  "id_rune r \<longleftrightarrow> \<not> (r \<le> byte CHR '' '' \<or> r > byte CHR ''~'')"

definition lower_token :: "string \<Rightarrow> nat \<Rightarrow> token_error option" where
  "lower_token s max_len =
     (if s = [] \<or> length s > max_len then Some (BadLength (length s) max_len)
      else (case first_bad token_rune (rune_values s) of Some r \<Rightarrow> Some (BadChar r) | None \<Rightarrow> None))"

definition id_token :: "string \<Rightarrow> nat \<Rightarrow> token_error option" where
  "id_token s max_len =
     (if length s > max_len then Some (BadLength (length s) max_len)
      else (case first_bad id_rune (rune_values s) of Some r \<Rightarrow> Some (BadChar r) | None \<Rightarrow> None))"

section \<open>Value contexts and outcomes\<close>

record value_context =
  Flow :: string
  EntityID :: string
  CustomerID :: string
  Segment :: string
  Money :: money
  Kind :: string
  Estimated :: bool
  Deadline :: time

definition max_flow_len :: nat where "max_flow_len = 64"
definition max_stage_len :: nat where "max_stage_len = 32"
definition max_id_len :: nat where "max_id_len = 128"
definition max_segment_len :: nat where "max_segment_len = 32"
definition max_err_len :: nat where "max_err_len = 512"

lemmas max_len_defs = max_flow_len_def max_stage_len_def max_id_len_def max_segment_len_def
  max_err_len_def

datatype biz_error =
    FlowError token_error
  | EntityMissing
  | EntityError token_error
  | CustomerError token_error
  | SegmentError token_error
  | KindError string
  | MoneyError money_error
  | PIIError pii_error
  | TimeZero
  | StageError token_error
  | ResultError string
  | SourceError token_error
  | TraceIDError
  | ErrTooLong nat

definition vc_validate :: "value_context \<Rightarrow> biz_error option" where
  "vc_validate vc = first_error
     [map_option FlowError (lower_token (Flow vc) max_flow_len),
      fail_if (EntityID vc = []) EntityMissing,
      map_option EntityError (id_token (EntityID vc) max_id_len),
      map_option CustomerError (id_token (CustomerID vc) max_id_len),
      (if Segment vc \<noteq> [] then map_option SegmentError (lower_token (Segment vc) max_segment_len)
       else None),
      fail_if (\<not> kind_valid (Kind vc)) (KindError (Kind vc)),
      map_option MoneyError (money_validate (Money vc)),
      map_option PIIError (check_pii ''entity id'' (EntityID vc)),
      map_option PIIError (check_pii ''customer id'' (CustomerID vc))]"

record outcome =
  At :: time
  VC :: value_context
  Stage :: string
  Result :: string
  Source :: string
  TraceID :: string
  Err :: string

definition hex_rune :: "nat \<Rightarrow> bool" where
  "hex_rune r \<longleftrightarrow> is_digit r \<or> in_class CHR ''a'' CHR ''f'' r"

definition trace_id_error :: "string \<Rightarrow> biz_error option" where
  "trace_id_error t =
     (if t = [] then None
      else fail_if (length t \<noteq> 32 \<or> \<not> list_all hex_rune (rune_values t)) TraceIDError)"

definition outcome_validate :: "outcome \<Rightarrow> biz_error option" where
  "outcome_validate o' = first_error
     [fail_if (is_zero_time (At o')) TimeZero,
      map_option StageError (lower_token (Stage o') max_stage_len),
      fail_if (\<not> result_valid (Result o')) (ResultError (Result o')),
      (if Source o' \<noteq> [] then map_option SourceError (id_token (Source o') max_id_len) else None),
      (if Source o' \<noteq> [] then map_option PIIError (check_pii ''source'' (Source o')) else None),
      trace_id_error (TraceID o'),
      fail_if (length (Err o') > max_err_len) (ErrTooLong (length (Err o'))),
      (if Err o' \<noteq> [] then map_option PIIError (check_pii ''err'' (Err o')) else None),
      vc_validate (VC o')]"

section \<open>Ledger rows\<close>

record ledger_row =
  LFlow :: string
  LOutcome :: string
  LMoney :: money
  LCount :: i64

datatype ledger_error =
    LedgerOutcome string
  | LedgerMoney money_error
  | NegativeCount i64
  | AmountOverNone i64

definition ledger_validate :: "ledger_row \<Rightarrow> ledger_error option" where
  "ledger_validate r = first_error
     [fail_if (LOutcome r \<notin> {res_success, res_failed, res_deferred}) (LedgerOutcome (LOutcome r)),
      map_option LedgerMoney (money_validate (LMoney r)),
      fail_if (sint (LCount r) < 0) (NegativeCount (LCount r)),
      fail_if (LCount r = 0 \<and> Amount (LMoney r) \<noteq> 0) (AmountOverNone (Amount (LMoney r)))]"

section \<open>Lemmas\<close>

lemma first_bad_None [simp]: "first_bad ok rs = None \<longleftrightarrow> list_all ok rs"
  by (induction rs) auto

lemma ascii_only_token [simp]: "ascii_only token_rune"
  by (auto simp: ascii_only_def token_rune_def char_class_iff)

lemma ascii_only_id [simp]: "ascii_only id_rune"
  by (auto simp: ascii_only_def id_rune_def)

lemma ascii_only_hex [simp]: "ascii_only hex_rune"
  by (auto simp: ascii_only_def hex_rune_def is_digit_iff in_class_def)

lemma lower_token_None [simp]:
  "lower_token s n = None \<longleftrightarrow>
     s \<noteq> [] \<and> length s \<le> n \<and> list_all (\<lambda>c. token_rune (byte c)) s"
  by (auto simp: lower_token_def list_all_runes_ascii split: option.splits)
    (metis first_bad_None list_all_runes_ascii ascii_only_token option.distinct(1))+

lemma id_token_None [simp]:
  "id_token s n = None \<longleftrightarrow> length s \<le> n \<and> list_all (\<lambda>c. id_rune (byte c)) s"
  by (auto simp: id_token_def list_all_runes_ascii split: option.splits)
    (metis first_bad_None list_all_runes_ascii ascii_only_id option.distinct(1))+

lemma token_rune_id_rune: "token_rune r \<Longrightarrow> id_rune r"
  by (auto simp: token_rune_def id_rune_def char_class_iff)

lemma vc_validate_None:
  "vc_validate vc = None \<longleftrightarrow>
     lower_token (Flow vc) max_flow_len = None
     \<and> EntityID vc \<noteq> [] \<and> id_token (EntityID vc) max_id_len = None
     \<and> id_token (CustomerID vc) max_id_len = None
     \<and> (Segment vc = [] \<or> lower_token (Segment vc) max_segment_len = None)
     \<and> kind_valid (Kind vc) \<and> money_validate (Money vc) = None
     \<and> check_pii ''entity id'' (EntityID vc) = None
     \<and> check_pii ''customer id'' (CustomerID vc) = None"
  by (auto simp: vc_validate_def split: if_splits)

lemma outcome_validate_vc: "outcome_validate out = None \<Longrightarrow> vc_validate (VC out) = None"
  by (simp add: outcome_validate_def)

lemma check_pii_field: "check_pii f s = None \<longleftrightarrow> check_pii g s = None"
  by (simp add: check_pii_def)

definition pii_free :: "string \<Rightarrow> bool" where
  "pii_free s \<longleftrightarrow> check_pii [] s = None"

lemma check_pii_None [simp]: "check_pii f s = None \<longleftrightarrow> pii_free s"
  unfolding pii_free_def by (rule check_pii_field)

lemma pii_free_Nil [simp]: "pii_free []"
  by (simp add: pii_free_def check_pii_def email_match_def has_iban_def)

lemma outcome_validate_None:
  "outcome_validate out = None \<longleftrightarrow>
     \<not> is_zero_time (At out) \<and> lower_token (Stage out) max_stage_len = None
     \<and> result_valid (Result out) \<and> id_token (Source out) max_id_len = None
     \<and> pii_free (Source out) \<and> trace_id_error (TraceID out) = None
     \<and> length (Err out) \<le> max_err_len \<and> pii_free (Err out) \<and> vc_validate (VC out) = None"
  by (auto simp: outcome_validate_def)

section \<open>Properties\<close>

text \<open>an accepted outcome carries no card number, no e-mail address and no text whose IBAN
  candidates pass the checksum in its entity id, customer id, source or error text; its money is
  valid and its required tokens are non-empty and within their length bounds.\<close>

theorem outcome_validate_safe:
  assumes "outcome_validate out = None"
  shows "(\<forall>s \<in> {EntityID (VC out), CustomerID (VC out), Source out, Err out}.
            \<not> carries_pan s \<and> \<not> carries_email s \<and> \<not> has_iban s)
     \<and> money_validate (Money (VC out)) = None
     \<and> EntityID (VC out) \<noteq> [] \<and> length (EntityID (VC out)) \<le> 128
     \<and> Flow (VC out) \<noteq> [] \<and> length (Flow (VC out)) \<le> 64
     \<and> Stage out \<noteq> [] \<and> length (Stage out) \<le> 32 \<and> length (Err out) \<le> 512"
proof -
  have pii: "pii_free s \<Longrightarrow> \<not> carries_pan s \<and> \<not> carries_email s \<and> \<not> has_iban s" for s
    using email_match_iff [of s] carries_pan_detected [of s]
    by (auto simp: pii_free_def check_pii_def split: if_splits)
  have "vc_validate (VC out) = None" and "pii_free (Source out)" "pii_free (Err out)"
    "lower_token (Stage out) max_stage_len = None" "length (Err out) \<le> max_err_len"
    using assms by (simp_all add: outcome_validate_None)
  then show ?thesis
    using pii by (simp add: vc_validate_None max_len_defs)
qed

definition example_outcome :: "string \<Rightarrow> outcome" where
  "example_outcome trace =
     \<lparr>At = 1000, VC = \<lparr>Flow = ''checkout'', EntityID = ''ord_1'', CustomerID = ''cust_7'',
        Segment = '''', Money = \<lparr>Amount = 4200, Currency = ''USD'', Exponent = 2\<rparr>,
        Kind = ''gmv'', Estimated = False, Deadline = zero_time\<rparr>,
      Stage = ''auth'', Result = ''failed'', Source = ''api'', TraceID = trace, Err = ''timeout''\<rparr>"

lemma example_outcome_ok: "outcome_validate (example_outcome []) = None"
  by code_simp

theorem outcome_validate_safe_witness:
  "\<not> carries_pan (EntityID (VC (example_outcome []))) \<and> \<not> carries_email (Err (example_outcome []))"
  using outcome_validate_safe [OF example_outcome_ok] by simp

text \<open>a trace id is not such a field: there is a 32-digit lower-case hexadecimal trace id that
  holds a Luhn-valid card number and passes \<open>Outcome.Validate\<close>.\<close>

theorem trace_id_admits_pan:
  "\<exists>out. outcome_validate out = None \<and> carries_pan (TraceID out)"
proof -
  let ?t = "''aaaaaaaaaaaaaaaa4111111111111111''"
  have "outcome_validate (example_outcome ?t) = None" "has_pan (TraceID (example_outcome ?t))"
    by code_simp+
  then show ?thesis by (auto simp: carries_pan_detected)
qed

end
