(* ===== verification/Biz_Baggage.thy ===== *)
theory Biz_Baggage
  imports Biz_Context
begin

text \<open>
  \<open>biz/baggage.go\<close>: the wire codec of the value context, one versioned baggage member of at most
  512 bytes, and its placement in a context. The OpenTelemetry baggage of a context is not part
  of the repository: its operations are parameters of \<open>with_value_context\<close> and \<open>from_context\<close>.
\<close>

section \<open>Escaping\<close>

definition hex_digits :: string where "hex_digits = ''0123456789ABCDEF''"

definition needs_escape :: "char \<Rightarrow> bool" where
  "needs_escape c \<longleftrightarrow>
     c \<in> {CHR ''|'', CHR ''%'', CHR 0x22, CHR '','', CHR '';'', CHR 0x5C, CHR '' ''}
     \<or> byte c < 0x21 \<or> byte c > 0x7E"

fun escape :: "string \<Rightarrow> string" where
  "escape [] = []"
| "escape (c # cs) =
     (if needs_escape c
      then CHR ''%'' # hex_digits ! (byte c div 16) # hex_digits ! (byte c mod 16) # escape cs
      else c # escape cs)"

definition hex_val :: "char \<Rightarrow> int" where
  "hex_val c =
     (if is_digit (byte c) then int (byte c) - 48
      else if in_class CHR ''A'' CHR ''F'' (byte c) then int (byte c) - 65 + 10
      else -1)"

datatype unescape_error = RawByte char | Truncated | BadEscape char char

fun unescape_loop :: "string \<Rightarrow> unescape_error + string" where
  "unescape_loop [] = Inr []"
| "unescape_loop (c # cs) =
     (if c \<noteq> CHR ''%'' then
        (if needs_escape c then Inl (RawByte c)
         else (case unescape_loop cs of Inl e \<Rightarrow> Inl e | Inr t \<Rightarrow> Inr (c # t)))
      else
        (case cs of
           h # l # rest \<Rightarrow>
             (if hex_val h < 0 \<or> hex_val l < 0 then Inl (BadEscape h l)
              else (case unescape_loop rest of
                      Inl e \<Rightarrow> Inl e
                    | Inr t \<Rightarrow> Inr (char_of (nat (hex_val h * 16 + hex_val l)) # t)))
         | _ \<Rightarrow> Inl Truncated))"

definition unescape :: "string \<Rightarrow> unescape_error + string" where
  "unescape s =
     (if list_all (\<lambda>c. \<not> (c = CHR ''%'' \<or> needs_escape c)) s then Inr s else unescape_loop s)"

section \<open>The codec\<close>

definition member_key :: string where "member_key = ''biz.vc''"
definition max_encoded_bytes :: nat where "max_encoded_bytes = 512"
definition codec_version :: string where "codec_version = ''1''"
definition max_deadline_unix :: int where "max_deadline_unix = 32503680000"

datatype codec_error =
    DeadlineDomain time
  | Oversize nat
  | FieldCount nat
  | UnknownVersion string
  | FieldEscape nat unescape_error
  | BadNumber nat string
  | BadFlags string

text \<open>\<open>wire_form\<close> is the string the builder holds before the size check.\<close>

definition wire_deadline :: "value_context \<Rightarrow> int" where
  "wire_deadline vc = (if is_zero_time (Deadline vc) then 0 else time_unix (Deadline vc))"

definition wire_form :: "value_context \<Rightarrow> int \<Rightarrow> string" where
  "wire_form vc deadline =
     codec_version
     @ concat (map (\<lambda>f. ''|'' @ escape f) [Flow vc, EntityID vc, CustomerID vc, Segment vc])
     @ ''|'' @ format_int (sint (Amount (Money vc)))
     @ ''|'' @ escape (Currency (Money vc))
     @ ''|'' @ format_int (sint (Exponent (Money vc)))
     @ ''|'' @ escape (Kind vc)
     @ ''|'' @ format_int (if Estimated vc then 1 else 0)
     @ ''|'' @ format_int deadline"

definition encode_vc :: "value_context \<Rightarrow> codec_error + string" where
  "encode_vc vc =
     (let deadline = wire_deadline vc in
      if \<not> is_zero_time (Deadline vc) \<and> (deadline \<le> 0 \<or> deadline > max_deadline_unix)
      then Inl (DeadlineDomain (Deadline vc))
      else
        (let s = wire_form vc deadline in
         if length s > max_encoded_bytes then Inl (Oversize (length s)) else Inr s))"

definition decode_fields :: "string list \<Rightarrow> codec_error + value_context" where
  "decode_fields fs =
     (if fs ! 0 \<noteq> codec_version then Inl (UnknownVersion (fs ! 0))
      else
      (case unescape (fs ! 1) of Inl e \<Rightarrow> Inl (FieldEscape 1 e) | Inr flow \<Rightarrow>
      (case unescape (fs ! 2) of Inl e \<Rightarrow> Inl (FieldEscape 2 e) | Inr entity \<Rightarrow>
      (case unescape (fs ! 3) of Inl e \<Rightarrow> Inl (FieldEscape 3 e) | Inr customer \<Rightarrow>
      (case unescape (fs ! 4) of Inl e \<Rightarrow> Inl (FieldEscape 4 e) | Inr segment \<Rightarrow>
      (case parse_int 64 (fs ! 5) of None \<Rightarrow> Inl (BadNumber 5 (fs ! 5)) | Some amt \<Rightarrow>
      (case unescape (fs ! 6) of Inl e \<Rightarrow> Inl (FieldEscape 6 e) | Inr cur \<Rightarrow>
      (case parse_int 8 (fs ! 7) of None \<Rightarrow> Inl (BadNumber 7 (fs ! 7)) | Some exp \<Rightarrow>
      (case unescape (fs ! 8) of Inl e \<Rightarrow> Inl (FieldEscape 8 e) | Inr kind \<Rightarrow>
      (if fs ! 9 \<noteq> ''0'' \<and> fs ! 9 \<noteq> ''1'' then Inl (BadFlags (fs ! 9)) else
      (case parse_int 64 (fs ! 10) of None \<Rightarrow> Inl (BadNumber 10 (fs ! 10)) | Some deadline \<Rightarrow>
      (if deadline < 0 \<or> deadline > max_deadline_unix then Inl (BadNumber 10 (fs ! 10)) else
       Inr \<lparr>Flow = flow, EntityID = entity, CustomerID = customer, Segment = segment,
            Money = \<lparr>Amount = word_of_int amt, Currency = cur, Exponent = word_of_int exp\<rparr>,
            Kind = kind, Estimated = (fs ! 9 = ''1''),
            Deadline = (if deadline > 0 then unix_time deadline else zero_time)\<rparr>))))))))))))"

definition decode_vc :: "string \<Rightarrow> codec_error + value_context" where
  "decode_vc s =
     (if length s > max_encoded_bytes then Inl (Oversize (length s))
      else
        (let fields = split_on CHR ''|'' s in
         if length fields \<noteq> 11 then Inl (FieldCount (length fields))
         else decode_fields fields))"

section \<open>The context\<close>

text \<open>
  \<open>baggage.NewMemberRaw\<close>, \<open>SetMember\<close> followed by \<open>ContextWithBaggage\<close>, and
  \<open>FromContext(ctx).Member(key)\<close> (key and value of the member, an empty key when absent) are
  the parameters.
\<close>

datatype context_error = CodecError codec_error | MemberError | SetError

definition with_value_context ::
  "(string \<Rightarrow> string \<Rightarrow> 'm option) \<Rightarrow> ('ctx \<Rightarrow> 'm \<Rightarrow> 'ctx option) \<Rightarrow> 'ctx \<Rightarrow> value_context
     \<Rightarrow> 'ctx \<times> context_error option" where
  "with_value_context new_member set_member ctx vc =
     (case encode_vc vc of
        Inl e \<Rightarrow> (ctx, Some (CodecError e))
      | Inr enc \<Rightarrow>
          (case new_member member_key enc of
             None \<Rightarrow> (ctx, Some MemberError)
           | Some member \<Rightarrow>
               (case set_member ctx member of
                  None \<Rightarrow> (ctx, Some SetError)
                | Some ctx' \<Rightarrow> (ctx', None))))"

text \<open>Present, absent and corrupt are three different results.\<close>

datatype found = Present value_context | Absent | Corrupt codec_error

definition from_context :: "('ctx \<Rightarrow> string \<Rightarrow> string \<times> string) \<Rightarrow> 'ctx \<Rightarrow> found" where
  "from_context member_of ctx =
     (let (key, value) = member_of ctx member_key in
      if key = [] then Absent
      else (case decode_vc value of Inl e \<Rightarrow> Corrupt e | Inr vc \<Rightarrow> Present vc))"

section \<open>Lemmas: escaping\<close>

lemma hex_table:
  "list_all (\<lambda>n. hex_val (hex_digits ! n) = int n \<and> \<not> needs_escape (hex_digits ! n)) [0..<16]"
  by code_simp

lemma hex_nth: "n < 16 \<Longrightarrow> hex_val (hex_digits ! n) = int n \<and> \<not> needs_escape (hex_digits ! n)"
  using hex_table by (auto simp: list_all_iff)

lemma unescape_loop_escape: "unescape_loop (escape s) = Inr s"
proof (induction s)
  case (Cons c cs)
  have b: "byte c div 16 < 16" "byte c mod 16 < 16"
    using byte_less_256 [of c] by (simp_all add: less_mult_imp_div_less)
  have "int (byte c div 16) * 16 + int (byte c mod 16) = int (byte c div 16 * 16 + byte c mod 16)"
    by (simp only: of_nat_add of_nat_mult of_nat_numeral)
  then have "nat (int (byte c div 16) * 16 + int (byte c mod 16)) = byte c"
    by (simp only: nat_int div_mult_mod_eq)
  then show ?case
    using Cons hex_nth [OF b(1)] hex_nth [OF b(2)] by (auto simp: needs_escape_def)
qed simp

lemma escape_id: "list_all (\<lambda>c. \<not> needs_escape c) s \<Longrightarrow> escape s = s"
  by (induction s) auto

lemma needs_escape_percent [simp]: "needs_escape CHR ''%''"
  by (simp add: needs_escape_def)

lemma unescape_escape: "unescape (escape s) = Inr s"
proof (cases "list_all (\<lambda>c. \<not> (c = CHR ''%'' \<or> needs_escape c)) (escape s)")
  case True
  then have "list_all (\<lambda>c. \<not> needs_escape c) s"
    by (induction s) (auto split: if_splits)
  then show ?thesis using True by (simp add: unescape_def escape_id)
next
  case False
  then show ?thesis by (simp add: unescape_def unescape_loop_escape)
qed

lemma unescape_loop_clean: "list_all (\<lambda>c. \<not> needs_escape c) s \<Longrightarrow> unescape_loop s = Inr s"
  by (induction s) auto

lemma unescape_is_loop: "unescape s = unescape_loop s"
  using unescape_loop_clean [of s]
  by (auto simp: unescape_def list_all_iff)

text \<open>A byte the wire may carry: printable, and none of the delimiters of the baggage grammar.\<close>

definition wire_safe :: "char \<Rightarrow> bool" where
  "wire_safe c \<longleftrightarrow> 0x21 \<le> byte c \<and> byte c \<le> 0x7E
     \<and> c \<notin> {CHR 0x22, CHR '','', CHR '';'', CHR 0x5C}"

lemma escape_chars: "c \<in> set (escape s) \<Longrightarrow> c = CHR ''%'' \<or> \<not> needs_escape c"
proof (induction s)
  case (Cons d ds)
  have "byte d div 16 < 16" "byte d mod 16 < 16"
    using byte_less_256 [of d] by (simp_all add: less_mult_imp_div_less)
  then show ?case using Cons hex_nth by (auto split: if_splits)
qed simp

lemma escape_no_bar [simp]: "CHR ''|'' \<notin> set (escape s)"
  using escape_chars [of "CHR ''|''" s] by (auto simp: needs_escape_def)

lemma escape_wire_safe: "c \<in> set (escape s) \<Longrightarrow> wire_safe c"
  using escape_chars [of c s] by (auto simp: needs_escape_def wire_safe_def)

lemma format_int_wire_safe: "c \<in> set (format_int n) \<Longrightarrow> wire_safe c"
  using format_int_chars [of c n] by (auto simp: wire_safe_def is_digit_iff)

lemma format_int_no_bar [simp]: "CHR ''|'' \<notin> set (format_int n)"
  using format_int_chars [of "CHR ''|''" n] by (auto simp: is_digit_iff)

lemma unescape_loop_length: "unescape_loop s = Inr t \<Longrightarrow> length (escape t) \<le> length s"
proof (induction s arbitrary: t rule: unescape_loop.induct)
  case (2 c cs)
  show ?case
  proof (cases "c = CHR ''%''")
    case True
    then obtain h l rest u where "cs = h # l # rest" "\<not> (hex_val h < 0 \<or> hex_val l < 0)"
      "unescape_loop rest = Inr u" "t = char_of (nat (hex_val h * 16 + hex_val l)) # u"
      using "2.prems" by (auto split: list.splits if_splits sum.splits)
    with "2.IH"(2) [of h "l # rest" l rest u] True show ?thesis by auto
  next
    case False
    then show ?thesis using "2.IH"(1) "2.prems" by (auto split: if_splits sum.splits)
  qed
qed simp

lemma unescape_length: "unescape s = Inr t \<Longrightarrow> length (escape t) \<le> length s"
  by (simp add: unescape_is_loop unescape_loop_length)

section \<open>Lemmas: the codec\<close>

definition wire_fields :: "value_context \<Rightarrow> int \<Rightarrow> string list" where
  "wire_fields vc d =
     [codec_version, escape (Flow vc), escape (EntityID vc), escape (CustomerID vc),
      escape (Segment vc), format_int (sint (Amount (Money vc))), escape (Currency (Money vc)),
      format_int (sint (Exponent (Money vc))), escape (Kind vc),
      (if Estimated vc then ''1'' else ''0''), format_int d]"

lemma format_01: "format_int 0 = ''0''" "format_int 1 = ''1''"
  by code_simp+

lemma format_flag: "format_int (if b then 1 else 0) = (if b then ''1'' else ''0'')"
  using format_01 by simp

lemma wire_form_join: "wire_form vc d = join_with CHR ''|'' (wire_fields vc d)"
  by (simp add: wire_form_def wire_fields_def format_flag)

lemma split_wire_form: "split_on CHR ''|'' (wire_form vc d) = wire_fields vc d"
  unfolding wire_form_join by (rule split_on_join) (simp_all add: wire_fields_def codec_version_def)

text \<open>Only the deadline loses information on the wire: it is cut to a whole second.\<close>

definition wire_view :: "value_context \<Rightarrow> value_context" where
  "wire_view vc = vc\<lparr>Deadline := if is_zero_time (Deadline vc) then zero_time
                               else unix_time (time_unix (Deadline vc))\<rparr>"

lemma encode_vc_Inr:
  "encode_vc vc = Inr s \<longleftrightarrow>
     (is_zero_time (Deadline vc) \<or> (0 < wire_deadline vc \<and> wire_deadline vc \<le> max_deadline_unix))
     \<and> s = wire_form vc (wire_deadline vc) \<and> length s \<le> max_encoded_bytes"
  by (auto simp: encode_vc_def Let_def)

lemma wire_deadline_range:
  "encode_vc vc = Inr s \<Longrightarrow> 0 \<le> wire_deadline vc \<and> wire_deadline vc \<le> max_deadline_unix"
  by (auto simp: encode_vc_Inr wire_deadline_def max_deadline_unix_def)

lemma parse_sint64 [simp]: "parse_int 64 (format_int (sint (a :: i64))) = Some (sint a)"
  using sint_i64_bounds [of a] by (intro parse_int_format_int) simp_all

lemma parse_sint8 [simp]: "parse_int 8 (format_int (sint (a :: i8))) = Some (sint a)"
  using sint_i8_bounds [of a] by (intro parse_int_format_int) simp_all

lemma decode_wire_fields:
  assumes "0 \<le> d" "d \<le> max_deadline_unix"
  shows "decode_fields (wire_fields vc d) =
     Inr (vc\<lparr>Deadline := if d > 0 then unix_time d else zero_time\<rparr>)"
proof -
  have "parse_int 64 (format_int d) = Some d"
    using assms by (intro parse_int_format_int) (simp_all add: max_deadline_unix_def)
  then show ?thesis
    using assms by (simp add: decode_fields_def wire_fields_def unescape_escape)
qed

lemma decode_encode:
  assumes "encode_vc vc = Inr s"
  shows "decode_vc s = Inr (wire_view vc)"
proof -
  let ?d = "wire_deadline vc"
  have s: "s = wire_form vc ?d" "length s \<le> max_encoded_bytes"
    and d: "0 \<le> ?d" "?d \<le> max_deadline_unix"
    using assms wire_deadline_range [OF assms] by (auto simp: encode_vc_Inr)
  have "vc\<lparr>Deadline := if ?d > 0 then unix_time ?d else zero_time\<rparr> = wire_view vc"
    using assms by (auto simp: encode_vc_Inr wire_view_def wire_deadline_def)
  moreover have "length (wire_fields vc ?d) = 11" by (simp add: wire_fields_def)
  ultimately show ?thesis
    using s decode_wire_fields [OF d, of vc] by (simp add: decode_vc_def split_wire_form)
qed

text \<open>What a successful decode says about its eleven fields.\<close>

lemma decode_fields_Inr:
  assumes "decode_fields fs = Inr vc"
  obtains d where "fs ! 0 = codec_version"
    "unescape (fs ! 1) = Inr (Flow vc)" "unescape (fs ! 2) = Inr (EntityID vc)"
    "unescape (fs ! 3) = Inr (CustomerID vc)" "unescape (fs ! 4) = Inr (Segment vc)"
    "parse_int 64 (fs ! 5) = Some (sint (Amount (Money vc)))"
    "unescape (fs ! 6) = Inr (Currency (Money vc))"
    "parse_int 8 (fs ! 7) = Some (sint (Exponent (Money vc)))"
    "unescape (fs ! 8) = Inr (Kind vc)"
    "fs ! 9 = (if Estimated vc then ''1'' else ''0'')"
    "parse_int 64 (fs ! 10) = Some d" "0 \<le> d" "d \<le> max_deadline_unix"
    "Deadline vc = (if d > 0 then unix_time d else zero_time)"
proof -
  have r64: "sint (word_of_int n :: i64) = n" if "parse_int 64 t = Some n" for n t
    using parse_int_range [OF that] by (intro sint_of_int_i64) (simp add: in_i64_def)
  have r8: "sint (word_of_int n :: i8) = n" if "parse_int 8 t = Some n" for n t
    using parse_int_range [OF that] by (intro sint_of_int_i8) simp_all
  show ?thesis
    using assms that r64 r8
    by (auto simp: decode_fields_def split: if_splits sum.splits option.splits)
qed

lemma sum_lengths_11: "length fs = 11 \<Longrightarrow>
    sum_list (map length fs) = length (fs!0) + length (fs!1) + length (fs!2) + length (fs!3)
      + length (fs!4) + length (fs!5) + length (fs!6) + length (fs!7) + length (fs!8)
      + length (fs!9) + length (fs!10)"
  by (auto simp: numeral_eq_Suc length_Suc_conv)

text \<open>Encoding what was decoded succeeds and never makes it longer.\<close>

lemma encode_decode:
  assumes "decode_vc s = Inr vc"
  obtains t where "encode_vc vc = Inr t" "length t \<le> length s" "wire_view vc = vc"
proof -
  let ?fs = "split_on CHR ''|'' s"
  have len: "length s \<le> max_encoded_bytes" "length ?fs = 11" and dec: "decode_fields ?fs = Inr vc"
    using assms by (auto simp: decode_vc_def Let_def split: if_splits)
  obtain d where f: "?fs ! 0 = codec_version"
    "unescape (?fs ! 1) = Inr (Flow vc)" "unescape (?fs ! 2) = Inr (EntityID vc)"
    "unescape (?fs ! 3) = Inr (CustomerID vc)" "unescape (?fs ! 4) = Inr (Segment vc)"
    "parse_int 64 (?fs ! 5) = Some (sint (Amount (Money vc)))"
    "unescape (?fs ! 6) = Inr (Currency (Money vc))"
    "parse_int 8 (?fs ! 7) = Some (sint (Exponent (Money vc)))"
    "unescape (?fs ! 8) = Inr (Kind vc)"
    "?fs ! 9 = (if Estimated vc then ''1'' else ''0'')"
    and d: "parse_int 64 (?fs ! 10) = Some d" "0 \<le> d" "d \<le> max_deadline_unix"
    "Deadline vc = (if d > 0 then unix_time d else zero_time)"
    by (rule decode_fields_Inr [OF dec]) blast
  have wd: "wire_deadline vc = d" and dl: "is_zero_time (Deadline vc) \<or> 0 < d" and
    view: "wire_view vc = vc"
    using d by (auto simp: wire_deadline_def wire_view_def unix_time_zero_iff is_zero_time_def
        max_deadline_unix_def split: if_splits)
  have total: "sum_list (map length ?fs) = length (?fs!0) + length (?fs!1) + length (?fs!2)
      + length (?fs!3) + length (?fs!4) + length (?fs!5) + length (?fs!6) + length (?fs!7)
      + length (?fs!8) + length (?fs!9) + length (?fs!10)"
    by (rule sum_lengths_11 [OF len(2)])
  have "sum_list (map length (wire_fields vc d)) \<le> sum_list (map length ?fs)"
    unfolding total wire_fields_def
    using f(1,10) unescape_length [OF f(2)] unescape_length [OF f(3)] unescape_length [OF f(4)]
      unescape_length [OF f(5)] length_format_parse [OF f(6)] unescape_length [OF f(7)]
      length_format_parse [OF f(8)] unescape_length [OF f(9)] length_format_parse [OF d(1)]
    by simp
  then have "length (wire_form vc d) \<le> length s"
    using length_join_with [of ?fs "CHR ''|''"] length_join_with [of "wire_fields vc d" "CHR ''|''"] len
    by (simp add: wire_form_join join_split_on wire_fields_def)
  then show ?thesis
    using that [of "wire_form vc d"] len wd dl d view by (auto simp: encode_vc_Inr)
qed

lemma encode_wire_safe: "encode_vc vc = Inr s \<Longrightarrow> c \<in> set s \<Longrightarrow> wire_safe c"
  by (auto simp: encode_vc_Inr wire_form_def codec_version_def wire_safe_def
      dest!: escape_wire_safe format_int_wire_safe)

section \<open>Properties\<close>

text \<open>C9: decoding an encoded value context gives it back, up to the fraction of a second of its
  deadline; the encoding is at most 512 bytes long and every byte of it is one that the baggage
  grammar carries unescaped.\<close>

theorem encode_then_decode:
  assumes "encode_vc vc = Inr s"
  shows "decode_vc s = Inr (wire_view vc) \<and> length s \<le> 512 \<and> list_all wire_safe s"
  using decode_encode [OF assms] encode_wire_safe [OF assms] assms
  by (auto simp: encode_vc_Inr max_encoded_bytes_def list_all_iff)

theorem encode_then_decode_witness:
  "decode_vc ''1|checkout|ord%201||vip|1250|USD|2|gmv|0|0''
     = Inr \<lparr>Flow = ''checkout'', EntityID = ''ord 1'', CustomerID = [], Segment = ''vip'',
         Money = \<lparr>Amount = 1250, Currency = ''USD'', Exponent = 2\<rparr>, Kind = ''gmv'',
         Estimated = False, Deadline = zero_time\<rparr>"
proof -
  let ?vc = "\<lparr>Flow = ''checkout'', EntityID = ''ord 1'', CustomerID = [], Segment = ''vip'',
      Money = \<lparr>Amount = 1250, Currency = ''USD'', Exponent = 2\<rparr>, Kind = ''gmv'',
      Estimated = False, Deadline = zero_time\<rparr>"
  have "encode_vc ?vc = Inr ''1|checkout|ord%201||vip|1250|USD|2|gmv|0|0''" by code_simp
  then show ?thesis
    using encode_then_decode [of ?vc] by (simp add: wire_view_def is_zero_time_def)
qed

text \<open>whatever the wire holds, a successful decode yields a context that can be sent on: it
  encodes without error, to a string no longer than the one received, and decoding that string
  gives the same context.\<close>

theorem decode_then_encode:
  assumes "decode_vc s = Inr vc"
  shows "\<exists>t. encode_vc vc = Inr t \<and> length t \<le> length s \<and> decode_vc t = Inr vc"
proof -
  obtain t where "encode_vc vc = Inr t" "length t \<le> length s" "wire_view vc = vc"
    using encode_decode [OF assms] .
  then show ?thesis using decode_encode [of vc t] by auto
qed

theorem decode_then_encode_witness:
  "\<exists>vc t. decode_vc ''1|a|%4F|||+07|USD|2|fee|1|5'' = Inr vc \<and> encode_vc vc = Inr t \<and> length t \<le> 27"
proof -
  have "(case decode_vc ''1|a|%4F|||+07|USD|2|fee|1|5'' of Inl _ \<Rightarrow> False | Inr _ \<Rightarrow> True)" by code_simp
  then obtain vc where "decode_vc ''1|a|%4F|||+07|USD|2|fee|1|5'' = Inr vc"
    by (auto split: sum.splits)
  from decode_then_encode [OF this] this show ?thesis by fastforce
qed

text \<open>a context that \<open>WithValueContext\<close> accepted hands the same value context back through
  \<open>FromContext\<close>, for any baggage implementation whose member lookup returns what was set.\<close>

theorem context_roundtrip:
  assumes set_get: "\<And>ctx v m ctx'. new_member member_key v = Some m \<Longrightarrow> set_member ctx m = Some ctx'
      \<Longrightarrow> member_of ctx' member_key = (member_key, v)"
    and ok: "with_value_context new_member set_member ctx vc = (ctx', None)"
  shows "from_context member_of ctx' = Present (wire_view vc)"
proof -
  obtain enc where enc: "encode_vc vc = Inr enc" using ok
    by (auto simp: with_value_context_def split: sum.splits)
  then have "member_of ctx' member_key = (member_key, enc)"
    using ok set_get by (auto simp: with_value_context_def split: option.splits)
  then show ?thesis
    using decode_encode [OF enc] by (simp add: from_context_def member_key_def)
qed

theorem context_roundtrip_witness:
  "from_context (\<lambda>b k. if map_has b k then (k, map_get [] b k) else ([], []))
     [(''biz.vc'', ''1|checkout|ord%201||vip|1250|USD|2|gmv|0|0'')]
   = Present \<lparr>Flow = ''checkout'', EntityID = ''ord 1'', CustomerID = [], Segment = ''vip'',
         Money = \<lparr>Amount = 1250, Currency = ''USD'', Exponent = 2\<rparr>, Kind = ''gmv'',
         Estimated = False, Deadline = zero_time\<rparr>"
proof -
  let ?vc = "\<lparr>Flow = ''checkout'', EntityID = ''ord 1'', CustomerID = [], Segment = ''vip'',
      Money = \<lparr>Amount = 1250, Currency = ''USD'', Exponent = 2\<rparr>, Kind = ''gmv'',
      Estimated = False, Deadline = zero_time\<rparr>"
  let ?new = "\<lambda>k v. Some (k, v)" and ?set = "\<lambda>b m. Some (map_put (fst m) (snd m) b)"
  let ?get = "\<lambda>b k. if map_has b k then (k, map_get [] b k) else ([], [])"
  have "with_value_context ?new ?set [] ?vc
      = ([(''biz.vc'', ''1|checkout|ord%201||vip|1250|USD|2|gmv|0|0'')], None)"
    by code_simp
  then have "from_context ?get [(''biz.vc'', ''1|checkout|ord%201||vip|1250|USD|2|gmv|0|0'')]
      = Present (wire_view ?vc)"
    by (rule context_roundtrip [of ?new ?set ?get, rotated]) auto
  then show ?thesis by (simp add: wire_view_def is_zero_time_def)
qed

end
