(* ===== verification/Registry_Duration.thy ===== *)
theory Registry_Duration
  imports Go_Strings
begin

text \<open>
  \<open>registry/duration.go\<close>: the parser of the ISO 8601 durations of the registry, with its
  arithmetic in \<open>int64\<close> seconds, and the grammar on unbounded numbers it is proved equal to.
\<close>

definition max_duration_seconds :: i64 where "max_duration_seconds = 315360000"

text \<open>\<open>strings.IndexByte\<close>.\<close>

fun index_byte :: "string \<Rightarrow> char \<Rightarrow> int" where
  "index_byte [] c = -1"
| "index_byte (d # ds) c =
     (if d = c then 0 else (let i = index_byte ds c in if i < 0 then -1 else i + 1))"

fun read_number :: "i64 \<Rightarrow> string \<Rightarrow> i64 option" where
  "read_number n [] = Some n"
| "read_number n (c # cs) =
     (let m = n * 10 + word_of_int (int (byte c) - 48)
      in if sint m > sint max_duration_seconds then None else read_number m cs)"

definition digit_prefix :: "string \<Rightarrow> string" where
  "digit_prefix s = takeWhile (\<lambda>c. is_digit (byte c)) s"

function parse_units ::
  "(char \<Rightarrow> i64 option) \<Rightarrow> string \<Rightarrow> int \<Rightarrow> i64 \<Rightarrow> string \<Rightarrow> i64 option" where
  "parse_units units order last_idx tot part =
     (if part = [] then Some tot
      else
        (let i = length (digit_prefix part) in
         if i = 0 \<or> i \<ge> length part then None
         else
           (case units (part ! i) of
              None \<Rightarrow> None
            | Some per_unit \<Rightarrow>
                (let idx = index_byte order (part ! i) in
                 if idx \<le> last_idx then None
                 else
                   (case read_number 0 (take i part) of
                      None \<Rightarrow> None
                    | Some n \<Rightarrow>
                        if sint n > sint (div_i64 max_duration_seconds per_unit) then None
                        else if sint (tot + n * per_unit) > sint max_duration_seconds then None
                        else parse_units units order idx (tot + n * per_unit)
                               (drop (i + 1) part))))))"
  by pat_completeness auto
termination by (relation "measure (\<lambda>(_, _, _, _, part). length part)") auto

declare parse_units.simps [simp del]

definition date_units :: "char \<Rightarrow> i64 option" where
  "date_units = [CHR ''D'' \<mapsto> 86400]"

definition time_units :: "char \<Rightarrow> i64 option" where
  "time_units = [CHR ''H'' \<mapsto> 3600, CHR ''M'' \<mapsto> 60, CHR ''S'' \<mapsto> 1]"

definition parse_iso_duration :: "string \<Rightarrow> duration option" where
  "parse_iso_duration s =
     (let (rest, ok) = cut_prefix s ''P'' in
      if \<not> ok \<or> rest = [] then None
      else
        (let (date_part, time_part, has_t) = cut CHR ''T'' rest in
         if has_t \<and> time_part = [] then None
         else
           (case (if date_part \<noteq> [] then parse_units date_units ''D'' (-1) 0 date_part else Some 0) of
              None \<Rightarrow> None
            | Some days \<Rightarrow>
                (case (if has_t then parse_units time_units ''HMS'' (-1) days time_part else Some days) of
                   None \<Rightarrow> None
                 | Some tot \<Rightarrow>
                     if sint tot \<le> 0 then None else Some (sint tot * second)))))"

section \<open>The grammar\<close>

text \<open>
  A sequence of numbers, each followed by its unit, in the order given, every unit optional; the
  value is in seconds.
\<close>

definition number :: "string \<Rightarrow> bool" where
  "number ds \<longleftrightarrow> ds \<noteq> [] \<and> list_all (\<lambda>c. is_digit (byte c)) ds"

fun decimal :: "nat \<Rightarrow> string \<Rightarrow> nat" where
  "decimal a [] = a"
| "decimal a (c # cs) = decimal (a * 10 + (byte c - 48)) cs"

fun unit_seq :: "(char \<Rightarrow> i64 option) \<Rightarrow> string \<Rightarrow> string \<Rightarrow> int \<Rightarrow> bool" where
  "unit_seq units [] t v \<longleftrightarrow> t = [] \<and> v = 0"
| "unit_seq units (u # us) t v \<longleftrightarrow>
     unit_seq units us t v
     \<or> (\<exists>ds rest w. t = ds @ u # rest \<and> number ds \<and> unit_seq units us rest w
          \<and> v = int (decimal 0 ds) * sint (the (units u)) + w)"

definition iso_duration :: "string \<Rightarrow> int \<Rightarrow> bool" where
  "iso_duration s secs \<longleftrightarrow>
     (\<exists>date a. unit_seq date_units ''D'' date a
        \<and> (s = ''P'' @ date \<and> secs = a
           \<or> (\<exists>time b. time \<noteq> [] \<and> unit_seq time_units ''HMS'' time b
                \<and> s = ''P'' @ date @ ''T'' @ time \<and> secs = a + b)))"

section \<open>Lemmas\<close>

lemma sint_max_duration [simp]: "sint max_duration_seconds = 315360000"
  by (simp add: max_duration_seconds_def)

lemma decimal_ge: "a \<le> decimal a s"
proof (induction s arbitrary: a)
  case (Cons c cs)
  have "a \<le> a * 10 + (byte c - 48)" by simp
  also have "\<dots> \<le> decimal (a * 10 + (byte c - 48)) cs" by (rule Cons.IH)
  finally show ?case by simp
qed simp

lemma read_number_iff:
  assumes "list_all (\<lambda>c. is_digit (byte c)) s" "0 \<le> sint n" "sint n \<le> 315360000"
  shows "read_number n s = Some m \<longleftrightarrow>
     sint m = int (decimal (nat (sint n)) s) \<and> int (decimal (nat (sint n)) s) \<le> 315360000"
  using assms
proof (induction s arbitrary: n)
  case Nil
  then show ?case by (auto simp: sint_eq_iff_i64 [symmetric])
next
  case (Cons c cs)
  let ?d = "int (byte c) - 48"
  have d: "0 \<le> ?d" "?d \<le> 9" "int (byte c - 48) = ?d" using Cons.prems by (auto simp: is_digit_iff)
  have w: "sint (word_of_int ?d :: i64) = ?d" using d by (intro sint_of_int_i64) (simp add: in_i64_def)
  have "sint (n * 10) = sint n * 10" using Cons.prems sint_mult_i64 [of n 10] by (simp add: in_i64_def)
  then have step: "sint (n * 10 + word_of_int ?d) = sint n * 10 + ?d"
    using Cons.prems d sint_add_i64 [of "n * 10" "word_of_int ?d"] unfolding w by (simp add: in_i64_def)
  then have nat_step: "nat (sint (n * 10 + word_of_int ?d)) = nat (sint n) * 10 + (byte c - 48)"
    using Cons.prems d by (simp add: nat_eq_iff)
  show ?case
  proof (cases "sint n * 10 + ?d > 315360000")
    case True
    have "int (nat (sint n) * 10 + (byte c - 48)) \<le> int (decimal (nat (sint n) * 10 + (byte c - 48)) cs)"
      using decimal_ge by (simp only: of_nat_le_iff)
    then have "\<not> int (decimal (nat (sint n)) (c # cs)) \<le> 315360000"
      using True Cons.prems d by simp
    then show ?thesis using True step by (simp add: Let_def)
  next
    case False
    then show ?thesis
      using Cons.IH [of "n * 10 + word_of_int ?d"] Cons.prems d step nat_step by (simp add: Let_def)
  qed
qed

lemma digit_prefix_app:
  "number ds \<Longrightarrow> \<not> is_digit (byte u) \<Longrightarrow> digit_prefix (ds @ u # rest) = ds"
  by (auto simp: digit_prefix_def number_def list_all_iff takeWhile_append2)

lemma digit_prefix_split:
  assumes "i = length (digit_prefix part)" "i \<noteq> 0" "i < length part"
  shows "number (take i part)" "part = take i part @ part ! i # drop (i + 1) part"
    "\<not> is_digit (byte (part ! i))"
proof -
  have t: "take i part = digit_prefix part"
    using assms(1) by (simp add: digit_prefix_def) (metis takeWhile_eq_take)
  then show "number (take i part)"
    using assms by (auto simp: number_def digit_prefix_def list_all_iff dest: set_takeWhileD)
  show "part = take i part @ part ! i # drop (i + 1) part"
    using assms(3) by (simp add: id_take_nth_drop)
  show "\<not> is_digit (byte (part ! i))"
    using assms nth_length_takeWhile [of "\<lambda>c. is_digit (byte c)" part] by (simp add: digit_prefix_def)
qed

lemma unit_seq_nth:
  "unit_seq units os t v \<longleftrightarrow>
     (t = [] \<and> v = 0)
     \<or> (\<exists>k < length os. \<exists>ds rest w. t = ds @ os ! k # rest \<and> number ds
          \<and> unit_seq units (drop (Suc k) os) rest w
          \<and> v = int (decimal 0 ds) * sint (the (units (os ! k))) + w)"
proof (induction os)
  case (Cons u us)
  have split: "(\<exists>k < length (u # us). Q k) \<longleftrightarrow> Q 0 \<or> (\<exists>k < length us. Q (Suc k))" for Q
    by (auto simp: less_Suc_eq_0_disj)
  show ?case unfolding split using Cons by auto
qed simp

lemma unit_seq_nonneg:
  assumes "\<forall>u \<in> set os. 0 < sint (the (units u))"
  shows "unit_seq units os t v \<Longrightarrow> 0 \<le> v"
  using assms by (induction os arbitrary: t v) fastforce+

lemma index_byte_nth: "distinct os \<Longrightarrow> j < length os \<Longrightarrow> index_byte os (os ! j) = int j"
proof (induction os arbitrary: j)
  case (Cons u us)
  then show ?case by (cases j) (auto simp: Let_def)
qed simp

definition unit_table :: "(char \<Rightarrow> i64 option) \<Rightarrow> string \<Rightarrow> bool" where
  "unit_table units order \<longleftrightarrow> distinct order \<and> dom units = set order
     \<and> (\<forall>u \<in> set order. \<not> is_digit (byte u) \<and> 0 < sint (the (units u))
          \<and> sint (the (units u)) \<le> 86400)"

lemma unit_tables: "unit_table date_units ''D''" "unit_table time_units ''HMS''"
  by (auto simp: unit_table_def date_units_def time_units_def is_digit_iff)

lemma unit_seq_step:
  assumes tab: "unit_table units order" and part: "part \<noteq> []"
  defines "i \<equiv> length (digit_prefix part)"
  shows "unit_seq units (drop k order) part v \<longleftrightarrow>
     i \<noteq> 0 \<and> i < length part
     \<and> (\<exists>j w. k \<le> j \<and> j < length order \<and> part ! i = order ! j
          \<and> unit_seq units (drop (Suc j) order) (drop (i + 1) part) w
          \<and> v = int (decimal 0 (take i part)) * sint (the (units (part ! i))) + w)"
    (is "?l \<longleftrightarrow> ?r")
proof
  assume ?l
  then obtain n ds rest w where n: "n < length order - k" and t: "part = ds @ drop k order ! n # rest"
    and w: "number ds" "unit_seq units (drop (Suc n) (drop k order)) rest w"
      "v = int (decimal 0 ds) * sint (the (units (drop k order ! n))) + w"
    using part that \<open>?l\<close> unfolding unit_seq_nth [of units "drop k order"] length_drop by blast
  have u: "drop k order ! n = order ! (k + n)" using n by simp
  then have "order ! (k + n) \<in> set order" using n by simp
  then have "\<not> is_digit (byte (order ! (k + n)))" using tab by (simp add: unit_table_def)
  then have "digit_prefix part = ds" using w(1) unfolding t u by (rule digit_prefix_app [rotated])
  then have i: "i = length ds" by (simp add: i_def)
  show ?r
    using w n i u t
    by (auto simp: number_def add.commute intro!: exI [of _ "k + n"])
next
  assume r: ?r
  then obtain j w where j: "k \<le> j" "j < length order" "part ! i = order ! j"
    "unit_seq units (drop (Suc j) order) (drop (i + 1) part) w"
    "v = int (decimal 0 (take i part)) * sint (the (units (part ! i))) + w" by blast
  have s: "number (take i part)" "part = take i part @ part ! i # drop (i + 1) part"
    using digit_prefix_split [of i part] r i_def by simp_all
  show ?l
    unfolding unit_seq_nth [of units "drop k order"]
  proof (intro disjI2 exI conjI)
    show "j - k < length (drop k order)" using j by simp
    show "part = take i part @ drop k order ! (j - k) # drop (i + 1) part" using s(2) j by simp
  qed (use s j in simp_all)
qed

lemma read_number_0:
  "number ds \<Longrightarrow> read_number 0 ds = Some m \<longleftrightarrow>
     sint m = int (decimal 0 ds) \<and> int (decimal 0 ds) \<le> 315360000"
  using read_number_iff [of ds 0 m] by (simp add: number_def)

lemma scaled_sum:
  fixes n p tot :: i64
  assumes "0 \<le> sint n" "0 < sint p" "0 \<le> sint tot" "sint tot \<le> 315360000"
  shows "sint n > sint (div_i64 max_duration_seconds p) \<longleftrightarrow> sint n * sint p > 315360000"
    and "sint n * sint p \<le> 315360000 \<Longrightarrow> sint (tot + n * p) = sint tot + sint n * sint p"
proof -
  have "sint (div_i64 max_duration_seconds p) = 315360000 div sint p"
    using assms by (subst sint_div_i64) simp_all
  then show "sint n > sint (div_i64 max_duration_seconds p) \<longleftrightarrow> sint n * sint p > 315360000"
    using le_div_iff_int [OF assms(2), of "sint n" 315360000] by linarith
  assume le: "sint n * sint p \<le> 315360000"
  have pos: "0 \<le> sint n * sint p" using assms by simp
  then have "sint (n * p) = sint n * sint p" using le by (intro sint_mult_i64) (simp add: in_i64_def)
  then show "sint (tot + n * p) = sint tot + sint n * sint p"
    using sint_add_i64 [of tot "n * p"] le pos assms by (simp add: in_i64_def)
qed

text \<open>One number and its unit, when the rest is parsed as specified.\<close>

lemma parse_step:
  fixes p tot :: i64
  assumes num: "\<And>m. rd = Some m \<longleftrightarrow> sint m = n \<and> n \<le> 315360000"
    and n: "0 \<le> n" and p: "0 < sint p" and tot: "0 \<le> sint tot" "sint tot \<le> 315360000"
    and wpos: "\<And>w. W w \<Longrightarrow> 0 \<le> w"
    and IH: "\<And>tot' t. 0 \<le> sint tot' \<Longrightarrow> sint tot' \<le> 315360000 \<Longrightarrow>
      go tot' = Some t \<longleftrightarrow> (\<exists>w. W w \<and> sint t = sint tot' + w \<and> sint t \<le> 315360000)"
  shows "(case rd of None \<Rightarrow> None
     | Some m \<Rightarrow> if sint m > sint (div_i64 max_duration_seconds p) then None
         else if sint (tot + m * p) > 315360000 then None else go (tot + m * p)) = Some t \<longleftrightarrow>
     (\<exists>v. (\<exists>w. W w \<and> v = n * sint p + w) \<and> sint t = sint tot + v \<and> sint t \<le> 315360000)"
    (is "?l = Some t \<longleftrightarrow> ?r")
proof (cases "n * sint p \<le> 315360000")
  case big: False
  have "\<not> ?r" using wpos big tot by fastforce
  moreover have "?l \<noteq> Some t"
  proof (cases rd)
    case (Some m)
    then have "sint m = n" using num by blast
    then show ?thesis using Some scaled_sum(1) [of m p tot] n p tot big by simp
  qed simp
  ultimately show ?thesis by blast
next
  case small: True
  have "n * 1 \<le> n * sint p" using n p by (intro mult_left_mono) simp_all
  then have le: "n \<le> 315360000" using small by simp
  have "sint (word_of_int n :: i64) = n" using n le by (intro sint_of_int_i64) (simp add: in_i64_def)
  then obtain m where m: "rd = Some m" "sint m = n" using num le by blast
  have sum: "sint (tot + m * p) = sint tot + n * sint p"
    and ok: "\<not> sint m > sint (div_i64 max_duration_seconds p)"
    using scaled_sum [of m p tot] m n p tot small by simp_all
  have "0 \<le> n * sint p" using n p by simp
  then show ?thesis
    using m ok sum IH [of "tot + m * p" t] tot wpos
    by (cases "sint tot + n * sint p \<le> 315360000") fastforce+
qed

lemma parse_units_iff:
  assumes "unit_table units order" "0 \<le> sint tot" "sint tot \<le> 315360000"
  shows "parse_units units order (int k - 1) tot part = Some t \<longleftrightarrow>
     (\<exists>v. unit_seq units (drop k order) part v \<and> sint t = sint tot + v \<and> sint t \<le> 315360000)"
  using assms(2,3)
proof (induction "length part" arbitrary: k tot part t rule: less_induct)
  case less
  note tab = assms(1)
  show ?case
  proof (cases "part = []")
    case True
    have "unit_seq units os [] v \<longleftrightarrow> v = 0" for os v by (subst unit_seq_nth) auto
    then show ?thesis
      using True less.prems by (auto simp: parse_units.simps [of _ _ _ _ "[]"] sint_eq_iff_i64)
  next
    case False
    define i where "i = length (digit_prefix part)"
    note step = unit_seq_step [OF tab False, of k, folded i_def]
    show ?thesis
    proof (cases "i \<noteq> 0 \<and> i < length part \<and> (\<exists>j. k \<le> j \<and> j < length order \<and> part ! i = order ! j)")
      case no: False
      have "parse_units units order (int k - 1) tot part = None"
      proof (cases "i \<noteq> 0 \<and> i < length part \<and> part ! i \<in> set order")
        case True
        then obtain j where j: "j < length order" "part ! i = order ! j" by (auto simp: in_set_conv_nth)
        then have "j < k" using no True by auto
        then show ?thesis
          using j False tab True index_byte_nth [of order j]
          by (subst parse_units.simps) (auto simp: i_def [symmetric] Let_def unit_table_def split: option.splits)
      next
        case out: False
        then show ?thesis
          using False tab
          by (subst parse_units.simps)
            (auto simp: i_def [symmetric] Let_def unit_table_def dom_def split: option.splits)
      qed
      then show ?thesis using no unfolding step by auto
    next
      case True
      then obtain j where i: "i \<noteq> 0" "i < length part" and j: "k \<le> j" "j < length order"
        "part ! i = order ! j" by blast
      have uniq: "j' = j" if "j' < length order" "part ! i = order ! j'" for j'
        using that j tab by (simp add: unit_table_def nth_eq_iff_index_eq)
      have u: "part ! i \<in> set order" using j by simp
      then have "part ! i \<in> dom units" and pos: "0 < sint (the (units (part ! i)))"
        using tab by (simp_all add: unit_table_def)
      then obtain p where p': "units (part ! i) = Some p" by blast
      then have p: "units (part ! i) = Some p" "0 < sint p" using pos by simp_all
      have num: "number (take i part)" using digit_prefix_split [of i part] i i_def by simp
      define n where "n = int (decimal 0 (take i part))"
      have idx: "index_byte order (part ! i) = int (Suc j) - 1"
        using index_byte_nth [of order j] j tab by (simp add: unit_table_def)
      have unfold: "parse_units units order (int k - 1) tot part =
         (case read_number 0 (take i part) of
            None \<Rightarrow> None
          | Some m \<Rightarrow> if sint m > sint (div_i64 max_duration_seconds p) then None
              else if sint (tot + m * p) > 315360000 then None
              else parse_units units order (int (Suc j) - 1) (tot + m * p) (drop (i + 1) part))"
        using i j False p idx by (subst parse_units.simps) (simp add: i_def [symmetric] split: option.split)
      have spec: "unit_seq units (drop k order) part v \<longleftrightarrow>
          (\<exists>w. unit_seq units (drop (Suc j) order) (drop (i + 1) part) w \<and> v = n * sint p + w)" for v
        unfolding step n_def p(1) option.sel using i j uniq by blast
      have wpos: "0 \<le> w" if "unit_seq units (drop (Suc j) order) (drop (i + 1) part) w" for w
        using unit_seq_nonneg [OF _ that] tab by (auto simp: unit_table_def dest: in_set_dropD)
      have IH: "parse_units units order (int (Suc j) - 1) tot' (drop (i + 1) part) = Some t \<longleftrightarrow>
          (\<exists>w. unit_seq units (drop (Suc j) order) (drop (i + 1) part) w
             \<and> sint t = sint tot' + w \<and> sint t \<le> 315360000)"
        if "0 \<le> sint tot'" "sint tot' \<le> 315360000" for tot' t
        by (rule less.hyps) (use i that in simp_all)
      have "0 \<le> n" by (simp add: n_def)
      then show ?thesis
        unfolding unfold spec
        by (rule parse_step [where W = "unit_seq units (drop (Suc j) order) (drop (i + 1) part)",
              OF read_number_0 [OF num, folded n_def] _ p(2) less.prems wpos IH])
    qed
  qed
qed

section \<open>Properties\<close>

lemma unit_seq_no_T:
  assumes "CHR ''T'' \<notin> set os"
  shows "unit_seq units os t v \<Longrightarrow> CHR ''T'' \<notin> set t"
  using assms
  by (induction os arbitrary: t v) (fastforce simp: number_def list_all_iff is_digit_iff)+

lemma unit_seq_Nil: "unit_seq units os [] v \<longleftrightarrow> v = 0"
  by (subst unit_seq_nth) auto

declare unit_seq.simps [simp del]

lemma date_part_iff:
  "(if d \<noteq> [] then parse_units date_units ''D'' (-1) 0 d else Some 0) = Some t \<longleftrightarrow>
     (\<exists>a. unit_seq date_units ''D'' d a \<and> sint t = a \<and> a \<le> 315360000)"
  using parse_units_iff [OF unit_tables(1), of 0 0 d t]
  by (cases "d = []") (auto simp: unit_seq_Nil sint_eq_iff_i64 [symmetric, of _ 0])

lemma unit_value_nonneg:
  "unit_seq date_units ''D'' t v \<Longrightarrow> 0 \<le> v" "unit_seq time_units ''HMS'' t v \<Longrightarrow> 0 \<le> v"
  using unit_seq_nonneg [of "''D''" date_units t v] unit_seq_nonneg [of "''HMS''" time_units t v]
    unit_tables unfolding unit_table_def by blast+

lemma word_of_seconds: "0 \<le> a \<Longrightarrow> a \<le> 315360000 \<Longrightarrow> \<exists>x :: i64. sint x = a"
  by (intro exI [of _ "word_of_int a"] sint_of_int_i64) (simp add: in_i64_def)

lemma parse_iso_combine:
  "(\<not> (f \<and> t = []) \<and>
      (\<exists>days. (if d \<noteq> [] then parse_units date_units ''D'' (-1) 0 d else Some 0) = Some days
        \<and> (\<exists>tot. (if f then parse_units time_units ''HMS'' (-1) days t else Some days) = Some tot
             \<and> 0 < sint tot \<and> ns = sint tot * second))) \<longleftrightarrow>
     (\<exists>secs. (if f then t \<noteq> [] \<and> (\<exists>a b. unit_seq date_units ''D'' d a
                  \<and> unit_seq time_units ''HMS'' t b \<and> secs = a + b)
            else unit_seq date_units ''D'' d secs)
        \<and> 0 < secs \<and> secs \<le> 10 * 365 * 24 * 3600 \<and> ns = secs * second)"
proof (cases f)
  case False
  have "(\<exists>days :: i64. W (sint days) \<and> sint days \<le> 315360000 \<and> 0 < sint days \<and> ns = sint days * second)
      \<longleftrightarrow> (\<exists>secs. W secs \<and> 0 < secs \<and> secs \<le> 315360000 \<and> ns = secs * second)" for W
    using word_of_seconds less_imp_le by metis
  from this [of "unit_seq date_units ''D'' d"] False show ?thesis
    unfolding date_part_iff by simp
next
  case True
  have time: "parse_units time_units ''HMS'' (-1) days t = Some tot \<longleftrightarrow>
      (\<exists>b. unit_seq time_units ''HMS'' t b \<and> sint tot = sint days + b \<and> sint tot \<le> 315360000)"
    if "0 \<le> sint days" "sint days \<le> 315360000" for days tot
    using parse_units_iff [OF unit_tables(2) that, of 0 t tot] by simp
  have "(\<exists>days. (\<exists>a. unit_seq date_units ''D'' d a \<and> sint days = a \<and> a \<le> 315360000)
        \<and> (\<exists>tot. parse_units time_units ''HMS'' (-1) days t = Some tot
             \<and> 0 < sint tot \<and> ns = sint tot * second)) \<longleftrightarrow>
      (\<exists>secs a b. unit_seq date_units ''D'' d a \<and> unit_seq time_units ''HMS'' t b \<and> secs = a + b
        \<and> 0 < secs \<and> secs \<le> 315360000 \<and> ns = secs * second)" (is "?l \<longleftrightarrow> ?r")
  proof
    assume ?l
    then obtain days tot where "unit_seq date_units ''D'' d (sint days)" "sint days \<le> 315360000"
      "parse_units time_units ''HMS'' (-1) days t = Some tot" "0 < sint tot" "ns = sint tot * second"
      by blast
    then show ?r using time unit_value_nonneg(1) by metis
  next
    assume ?r
    then obtain a b where ab: "unit_seq date_units ''D'' d a" "unit_seq time_units ''HMS'' t b"
      "0 < a + b" "a + b \<le> 315360000" "ns = (a + b) * second" by blast
    then have r: "0 \<le> a" "0 \<le> b" using unit_value_nonneg by blast+
    have "a \<le> 315360000" "0 \<le> a + b" using ab r by linarith+
    then obtain days tot :: i64 where w: "sint days = a" "sint tot = a + b"
      using word_of_seconds r(1) ab(4) by blast
    then have "parse_units time_units ''HMS'' (-1) days t = Some tot"
      using time [of days tot] ab r by auto
    then show ?l using ab r w by (intro exI [of _ days]) auto
  qed
  then show ?thesis using True unfolding date_part_iff by auto
qed

lemma parse_iso_duration_iff:
  "parse_iso_duration s = Some ns \<longleftrightarrow>
     (\<exists>secs. iso_duration s secs \<and> 0 < secs \<and> secs \<le> 10 * 365 * 24 * 3600 \<and> ns = secs * second)"
proof (cases "\<exists>rest. s = CHR ''P'' # rest \<and> rest \<noteq> []")
  case False
  then have "\<not> (iso_duration s secs \<and> 0 < secs)" for secs
    using unit_seq_Nil [of date_units "''D''"] by (cases s) (auto simp: iso_duration_def)
  moreover have "parse_iso_duration s = None"
    using False by (cases s) (auto simp: parse_iso_duration_def cut_prefix_def has_prefix_def)
  ultimately show ?thesis by auto
next
  case True
  then obtain rest where s: "s = CHR ''P'' # rest" "rest \<noteq> []" by blast
  obtain d t f where c: "cut CHR ''T'' rest = (d, t, f)" by (cases "cut CHR ''T'' rest") auto
  note cs = cut_sound [OF c]
  have date: "rest = date \<Longrightarrow> unit_seq date_units ''D'' date a \<Longrightarrow> \<not> f" for date a
    using unit_seq_no_T [of "''D''" date_units date a] cs by (auto split: if_splits)
  have time: "rest = date @ CHR ''T'' # time \<Longrightarrow> unit_seq date_units ''D'' date a \<Longrightarrow>
      f \<and> d = date \<and> t = time" for date time a
    using unit_seq_no_T [of "''D''" date_units date a] cut_found [of "CHR ''T''" date time] c by auto
  have iso: "iso_duration s secs \<longleftrightarrow>
      (if f then t \<noteq> [] \<and> (\<exists>a b. unit_seq date_units ''D'' d a \<and> unit_seq time_units ''HMS'' t b
                         \<and> secs = a + b)
       else unit_seq date_units ''D'' d secs)" for secs
  proof -
    have sP: "s = ''P'' @ x \<longleftrightarrow> rest = x" for x using s by simp
    have sT: "date @ ''T'' @ time = date @ CHR ''T'' # time" for date time by simp
    show ?thesis
    proof (cases f)
      case False
      then have "rest = d" using cs by simp
      then show ?thesis using False time unfolding iso_duration_def sP sT if_False by (metis (full_types))
    next
      case True
      then have "rest = d @ CHR ''T'' # t" using cs by simp
      then show ?thesis using True date time unfolding iso_duration_def sP sT by (metis (full_types))
    qed
  qed
  have parse: "parse_iso_duration s = Some ns \<longleftrightarrow>
      \<not> (f \<and> t = []) \<and>
      (\<exists>days. (if d \<noteq> [] then parse_units date_units ''D'' (-1) 0 d else Some 0) = Some days
        \<and> (\<exists>tot. (if f then parse_units time_units ''HMS'' (-1) days t else Some days) = Some tot
             \<and> 0 < sint tot \<and> ns = sint tot * second))"
    using s c
    by (auto simp: parse_iso_duration_def cut_prefix_def has_prefix_def split: option.splits if_splits)
  show ?thesis
    unfolding parse iso by (rule parse_iso_combine)
qed

text \<open>C39: the duration parser accepts exactly the texts of the grammar \<open>P[nD][T[nH][nM][nS]]\<close> whose
  total is positive and at most ten years, and returns that total; no intermediate value of its
  \<open>int64\<close> arithmetic wraps, however long the digit strings are.\<close>

theorem parse_iso_duration_exact:
  "parse_iso_duration s = Some ns \<longleftrightarrow>
     (\<exists>secs. iso_duration s secs \<and> 0 < secs \<and> secs \<le> 10 * 365 * 24 * 3600 \<and> ns = secs * second)"
  by (rule parse_iso_duration_iff)

end
