(* ===== verification/Float64.thy ===== *)
theory Float64
  imports Prelude Complex_Main
begin

text \<open>
  Go's \<open>float64\<close>: IEEE 754 binary64 with round to nearest, ties to even. A finite value is the
  rational it denotes; the two zeros are one value, which the modelled code cannot tell apart
  (it never divides by a zero and never inspects a sign bit). The conversion of an out-of-range
  value to \<open>int64\<close> is left to the implementation by the language, so it is a parameter.
\<close>

datatype f64 = Fin rat | PInf | NInf | NaN

section \<open>Rounding\<close>

definition pow2 :: "int \<Rightarrow> rat" where
  "pow2 k = (if 0 \<le> k then 2 ^ nat k else 1 / 2 ^ nat (- k))"

fun log2_nat :: "nat \<Rightarrow> nat" where
  "log2_nat n = (if n < 2 then 0 else Suc (log2_nat (n div 2)))"

declare log2_nat.simps [simp del]

text \<open>The exponent \<open>k\<close> with \<open>2^k \<le> x < 2^(k+1)\<close>, for a positive \<open>x\<close>.\<close>

definition ilog2 :: "rat \<Rightarrow> int" where
  "ilog2 x =
     (let (p, q) = quotient_of x; k = int (log2_nat (nat p)) - int (log2_nat (nat q))
      in if pow2 k \<le> x then k else k - 1)"

definition near_even :: "rat \<Rightarrow> int" where
  "near_even z =
     (let f = \<lfloor>z\<rfloor>; d = z - of_int f
      in if d < 1 / 2 then f else if d > 1 / 2 then f + 1 else if even f then f else f + 1)"

definition grid_exp :: "rat \<Rightarrow> int" where
  "grid_exp x = max (- 1074) (ilog2 x - 52)"

definition rnd_pos :: "rat \<Rightarrow> rat" where
  "rnd_pos x = of_int (near_even (x / pow2 (grid_exp x))) * pow2 (grid_exp x)"

definition rnd :: "rat \<Rightarrow> rat" where
  "rnd x = (if x = 0 then 0 else if x > 0 then rnd_pos x else - rnd_pos (- x))"

definition to_f64 :: "rat \<Rightarrow> f64" where
  "to_f64 x = (let r = rnd x in if r \<ge> 2 ^ 1024 then PInf else if r \<le> - (2 ^ 1024) then NInf else Fin r)"

section \<open>Operations\<close>

fun fneg :: "f64 \<Rightarrow> f64" where
  "fneg (Fin x) = Fin (- x)" | "fneg PInf = NInf" | "fneg NInf = PInf" | "fneg NaN = NaN"

fun fadd :: "f64 \<Rightarrow> f64 \<Rightarrow> f64" where
  "fadd (Fin x) (Fin y) = to_f64 (x + y)"
| "fadd NaN _ = NaN" | "fadd _ NaN = NaN"
| "fadd PInf NInf = NaN" | "fadd NInf PInf = NaN"
| "fadd PInf _ = PInf" | "fadd _ PInf = PInf"
| "fadd NInf _ = NInf" | "fadd _ NInf = NInf"

definition fsub :: "f64 \<Rightarrow> f64 \<Rightarrow> f64" where
  "fsub a b = fadd a (fneg b)"

definition inf_sign :: "rat \<Rightarrow> f64" where
  "inf_sign s = (if s > 0 then PInf else if s < 0 then NInf else NaN)"

fun fsgn :: "f64 \<Rightarrow> rat" where
  "fsgn (Fin x) = sgn x" | "fsgn PInf = 1" | "fsgn NInf = - 1" | "fsgn NaN = 0"

fun fmul :: "f64 \<Rightarrow> f64 \<Rightarrow> f64" where
  "fmul (Fin x) (Fin y) = to_f64 (x * y)"
| "fmul NaN _ = NaN" | "fmul _ NaN = NaN"
| "fmul a b = inf_sign (fsgn a * fsgn b)"

text \<open>A zero divisor is taken to be positive.\<close>

fun fdiv :: "f64 \<Rightarrow> f64 \<Rightarrow> f64" where
  "fdiv (Fin x) (Fin y) = (if y = 0 then inf_sign (sgn x) else to_f64 (x / y))"
| "fdiv NaN _ = NaN" | "fdiv _ NaN = NaN"
| "fdiv (Fin x) _ = Fin 0"
| "fdiv a (Fin y) = inf_sign (fsgn a * (if y < 0 then - 1 else 1))"
| "fdiv _ _ = NaN"

fun fless :: "f64 \<Rightarrow> f64 \<Rightarrow> bool" where
  "fless (Fin x) (Fin y) = (x < y)"
| "fless NaN _ = False" | "fless _ NaN = False"
| "fless NInf b = (b \<noteq> NInf)"
| "fless a PInf = (a \<noteq> PInf)"
| "fless _ _ = False"

fun fle :: "f64 \<Rightarrow> f64 \<Rightarrow> bool" where
  "fle (Fin x) (Fin y) = (x \<le> y)"
| "fle NaN _ = False" | "fle _ NaN = False"
| "fle NInf b = True"
| "fle a PInf = True"
| "fle _ _ = False"

definition of_i64 :: "i64 \<Rightarrow> f64" where
  "of_i64 n = to_f64 (of_int (sint n))"

text \<open>\<open>math.Round\<close>: half away from zero.\<close>

definition round_away :: "rat \<Rightarrow> int" where
  "round_away x = (if x \<ge> 0 then \<lfloor>x + 1 / 2\<rfloor> else - \<lfloor>- x + 1 / 2\<rfloor>)"

text \<open>\<open>int64(f)\<close> of an integral value; \<open>oob\<close> is what the target does out of range.\<close>

definition to_i64 :: "(f64 \<Rightarrow> i64) \<Rightarrow> f64 \<Rightarrow> i64" where
  "to_i64 oob f =
     (case f of
        Fin x \<Rightarrow> (let n = (if x \<ge> 0 then \<lfloor>x\<rfloor> else \<lceil>x\<rceil>) in if in_i64 n then word_of_int n else oob f)
      | _ \<Rightarrow> oob f)"

fun fround :: "f64 \<Rightarrow> f64" where
  "fround (Fin x) = Fin (of_int (round_away x))"
| "fround f = f"

section \<open>Powers of two\<close>

lemma pow2_pos [simp]: "0 < pow2 k"
  by (simp add: pow2_def)

lemma pow2_nonneg [simp]: "0 \<le> pow2 k"
  using pow2_pos [of k] by linarith

lemma pow2_nonzero [simp]: "pow2 k \<noteq> 0"
  using pow2_pos [of k] by linarith

lemma pow2_powi: "pow2 k = 2 powi k"
  by (simp add: pow2_def power_int_def field_simps)

lemma pow2_add: "pow2 (a + b) = pow2 a * pow2 b"
  by (simp add: pow2_powi power_int_add)

lemma pow2_mono: "a \<le> b \<Longrightarrow> pow2 a \<le> pow2 b"
  by (simp add: pow2_powi power_int_increasing)

lemma pow2_less: "a < b \<Longrightarrow> pow2 a < pow2 b"
  by (simp add: pow2_powi power_int_strict_increasing)

lemma pow2_le_imp: "pow2 a \<le> x \<Longrightarrow> x < pow2 (b + 1) \<Longrightarrow> a \<le> b"
  using pow2_mono [of "b + 1" a] by linarith

lemma pow2_int: "0 \<le> k \<Longrightarrow> pow2 k = of_int (2 ^ nat k)"
  by (simp add: pow2_def)

section \<open>Rounding is monotone\<close>

lemma log2_nat_bounds: "0 < n \<Longrightarrow> 2 ^ log2_nat n \<le> n \<and> n < 2 ^ Suc (log2_nat n)"
proof (induction n rule: log2_nat.induct)
  case (1 n)
  show ?case
  proof (cases "n < 2")
    case True
    then show ?thesis using "1.prems" by (simp add: log2_nat.simps [of n])
  next
    case False
    then have "2 ^ log2_nat (n div 2) \<le> n div 2" "n div 2 < 2 ^ Suc (log2_nat (n div 2))"
      using "1.IH" by simp_all
    then have "2 * 2 ^ log2_nat (n div 2) \<le> n" "n < 2 * 2 ^ Suc (log2_nat (n div 2))"
      by linarith+
    then show ?thesis using False by (simp add: log2_nat.simps [of n])
  qed
qed

lemma log2_nat_rat:
  assumes "0 < p"
  shows "pow2 (int (log2_nat (nat p))) \<le> of_int p" "of_int p < pow2 (int (log2_nat (nat p)) + 1)"
proof -
  have b: "2 ^ log2_nat (nat p) \<le> nat p" "nat p < 2 ^ Suc (log2_nat (nat p))"
    using log2_nat_bounds [of "nat p"] assms by simp_all
  have "(of_nat (2 ^ log2_nat (nat p)) :: rat) \<le> of_nat (nat p)"
    using b(1) by (simp only: of_nat_le_iff)
  then show "pow2 (int (log2_nat (nat p))) \<le> of_int p" using assms by (simp add: pow2_def)
  have "(of_nat (nat p) :: rat) < of_nat (2 ^ Suc (log2_nat (nat p)))"
    using b(2) by (simp only: of_nat_less_iff)
  then show "of_int p < pow2 (int (log2_nat (nat p)) + 1)"
    using assms by (simp add: pow2_def nat_add_distrib)
qed

lemma ilog2_bounds:
  assumes "0 < x"
  shows "pow2 (ilog2 x) \<le> x \<and> x < pow2 (ilog2 x + 1)"
proof -
  obtain p q where pq: "quotient_of x = (p, q)" by (cases "quotient_of x")
  have q: "0 < q" and x: "x = of_int p / of_int q"
    using quotient_of_denom_pos [OF pq] quotient_of_div [OF pq] by simp_all
  have p: "0 < p" using assms q unfolding x by (simp add: zero_less_divide_iff)
  define a where "a = int (log2_nat (nat p))"
  define b where "b = int (log2_nat (nat q))"
  have P: "pow2 a \<le> of_int p" "of_int p < pow2 (a + 1)"
    and Q: "pow2 b \<le> of_int q" "of_int q < pow2 (b + 1)"
    using log2_nat_rat [OF p] log2_nat_rat [OF q] by (simp_all add: a_def b_def)
  have "x * of_int q = of_int p" using q x by simp
  have up: "x < pow2 (a - b + 1)"
  proof -
    have "of_int p < pow2 (a - b + 1) * pow2 b" using P(2) by (simp add: pow2_add [symmetric])
    also have "\<dots> \<le> pow2 (a - b + 1) * of_int q" using Q(1) by (intro mult_left_mono) simp_all
    finally show ?thesis using q x by (simp add: divide_less_eq)
  qed
  have low: "pow2 (a - b - 1) \<le> x"
  proof -
    have "pow2 (a - b - 1) * of_int q \<le> pow2 (a - b - 1) * pow2 (b + 1)"
      using Q(2) by (intro mult_left_mono) (simp_all add: less_imp_le)
    also have "\<dots> \<le> of_int p" using P(1) by (simp add: pow2_add [symmetric])
    finally show ?thesis using q x by (simp add: le_divide_eq)
  qed
  show ?thesis
    using up low pq by (auto simp: ilog2_def Let_def a_def [symmetric] b_def [symmetric])
qed

lemma ilog2_mono: "0 < x \<Longrightarrow> x \<le> y \<Longrightarrow> ilog2 x \<le> ilog2 y"
  using ilog2_bounds [of x] ilog2_bounds [of y] by (intro pow2_le_imp [of _ x]) auto

lemma grid_exp_mono: "0 < x \<Longrightarrow> x \<le> y \<Longrightarrow> grid_exp x \<le> grid_exp y"
  using ilog2_mono [of x y] by (auto simp: grid_exp_def)

lemma near_even_of_int [simp]: "near_even (of_int n) = n"
  by (simp add: near_even_def)

lemma near_even_bounds: "\<lfloor>z\<rfloor> \<le> near_even z" "near_even z \<le> \<lfloor>z\<rfloor> + 1"
  by (simp_all add: near_even_def Let_def)

lemma near_even_mono:
  assumes "y \<le> z"
  shows "near_even y \<le> near_even z"
proof (cases "\<lfloor>y\<rfloor> = \<lfloor>z\<rfloor>")
  case True
  then show ?thesis using assms by (auto simp: near_even_def Let_def)
next
  case False
  then have "\<lfloor>y\<rfloor> + 1 \<le> \<lfloor>z\<rfloor>" using floor_mono [OF assms] by linarith
  then show ?thesis using near_even_bounds [of y] near_even_bounds [of z] by linarith
qed

text \<open>A multiple of the grid bounds the rounding from both sides.\<close>

lemma rnd_pos_ge: "of_int k * pow2 (grid_exp x) \<le> x \<Longrightarrow> of_int k * pow2 (grid_exp x) \<le> rnd_pos x"
proof -
  assume "of_int k * pow2 (grid_exp x) \<le> x"
  then have "of_int k \<le> x / pow2 (grid_exp x)" by (simp add: le_divide_eq)
  from near_even_mono [OF this] have "k \<le> near_even (x / pow2 (grid_exp x))" by simp
  then show ?thesis by (simp add: rnd_pos_def)
qed

lemma rnd_pos_le: "x \<le> of_int k * pow2 (grid_exp x) \<Longrightarrow> rnd_pos x \<le> of_int k * pow2 (grid_exp x)"
proof -
  assume "x \<le> of_int k * pow2 (grid_exp x)"
  then have "x / pow2 (grid_exp x) \<le> of_int k" by (simp add: divide_le_eq)
  from near_even_mono [OF this] have "near_even (x / pow2 (grid_exp x)) \<le> k" by simp
  then show ?thesis by (simp add: rnd_pos_def)
qed

lemma rnd_pos_nonneg: "0 \<le> x \<Longrightarrow> 0 \<le> rnd_pos x"
  using rnd_pos_ge [of 0 x] by simp

lemma rnd_pos_mono:
  assumes "0 < x" "x \<le> y"
  shows "rnd_pos x \<le> rnd_pos y"
proof (cases "grid_exp x = grid_exp y")
  case True
  have "x / pow2 (grid_exp y) \<le> y / pow2 (grid_exp y)"
    using assms by (intro divide_right_mono) (simp_all add: less_imp_le)
  then show ?thesis
    using near_even_mono True by (simp add: rnd_pos_def)
next
  case False
  then have lt: "grid_exp x < grid_exp y" using grid_exp_mono [OF assms] by simp
  define l where "l = ilog2 y"
  have ey: "grid_exp y = l - 52" using lt by (auto simp: grid_exp_def l_def split: if_splits)
  have "pow2 l = pow2 (52 + grid_exp y)" by (simp add: ey)
  also have "\<dots> = of_int (2 ^ 52) * pow2 (grid_exp y)" by (simp only: pow2_add) (simp add: pow2_int)
  finally have ly: "pow2 l \<le> rnd_pos y"
    using rnd_pos_ge [of "2 ^ 52" y] ilog2_bounds [of y] assms by (simp add: l_def)
  have "ilog2 x + 1 \<le> l" using lt ey by (auto simp: grid_exp_def)
  then have xl: "x \<le> pow2 l"
    using ilog2_bounds [of x] assms pow2_mono [of "ilog2 x + 1" l] by linarith
  have "pow2 ((l - grid_exp x) + grid_exp x) = of_int (2 ^ nat (l - grid_exp x)) * pow2 (grid_exp x)"
    unfolding pow2_add using lt ey by (simp add: pow2_int)
  then have "pow2 l = of_int (2 ^ nat (l - grid_exp x)) * pow2 (grid_exp x)" by simp
  with xl have "rnd_pos x \<le> pow2 l"
    using rnd_pos_le [of x "2 ^ nat (l - grid_exp x)"] by metis
  then show ?thesis using ly by linarith
qed

lemma rnd_nonneg: "0 \<le> x \<Longrightarrow> 0 \<le> rnd x"
  by (simp add: rnd_def rnd_pos_nonneg)

lemma rnd_uminus: "rnd (- x) = - rnd x"
  by (simp add: rnd_def)

lemma rnd_mono:
  assumes "x \<le> y"
  shows "rnd x \<le> rnd y"
proof -
  consider "0 < x" | "x \<le> 0" "0 \<le> y" | "y < 0" by linarith
  then show ?thesis
  proof cases
    case 1
    then show ?thesis using rnd_pos_mono assms by (simp add: rnd_def)
  next
    case 2
    have "rnd x \<le> 0" using rnd_nonneg [of "- x"] 2 by (simp add: rnd_uminus)
    then show ?thesis using rnd_nonneg [OF 2(2)] by linarith
  next
    case 3
    then show ?thesis using rnd_pos_mono [of "- y" "- x"] assms by (simp add: rnd_def)
  qed
qed

lemma rnd_0 [simp]: "rnd 0 = 0"
  by (simp add: rnd_def)

section \<open>Exact and ordered results\<close>

lemma rnd_pos_exact: "x = of_int k * pow2 (grid_exp x) \<Longrightarrow> rnd_pos x = x"
  using rnd_pos_ge [of k x] rnd_pos_le [of x k] by simp

lemma ilog2_eq: "pow2 k \<le> x \<Longrightarrow> x < pow2 (k + 1) \<Longrightarrow> ilog2 x = k"
proof -
  assume a: "pow2 k \<le> x" "x < pow2 (k + 1)"
  then have "0 < x" using pow2_pos [of k] by linarith
  then have "pow2 (ilog2 x) \<le> x" "x < pow2 (ilog2 x + 1)" using ilog2_bounds by simp_all
  then show ?thesis using a pow2_le_imp [of k x "ilog2 x"] pow2_le_imp [of "ilog2 x" x k] by simp
qed

text \<open>Integers of at most 53 bits are exact, and so are the powers of two.\<close>

lemma rnd_int:
  assumes "\<bar>n\<bar> < 2 ^ 53"
  shows "rnd (of_int n) = of_int n"
proof -
  have pos: "rnd_pos (of_int k) = of_int k" if "0 < k" "k < 2 ^ 53" for k :: int
  proof -
    have x: "(0 :: rat) < of_int k" using that by simp
    have "pow2 (ilog2 (of_int k)) \<le> of_int k" using ilog2_bounds [OF x] by simp
    moreover have "(of_int k :: rat) < of_int (2 ^ 53)" using that(2) by (simp only: of_int_less_iff)
    then have "(of_int k :: rat) < pow2 (52 + 1)" by (simp add: pow2_int)
    ultimately have "ilog2 (of_int k) \<le> 52" by (rule pow2_le_imp)
    then have g: "grid_exp (of_int k) \<le> 0" by (simp add: grid_exp_def)
    let ?g = "grid_exp (of_int k)"
    have "of_int k = of_int (k * 2 ^ nat (- ?g)) * pow2 ?g"
      using g by (simp add: pow2_def)
    then show ?thesis by (rule rnd_pos_exact)
  qed
  consider "n = 0" | "0 < n" | "n < 0" by linarith
  then show ?thesis
  proof cases
    case 3
    have "rnd_pos (of_int (- n)) = of_int (- n)" using pos [of "- n"] assms 3 by simp
    then show ?thesis using 3 by (simp add: rnd_def)
  qed (use assms pos in \<open>simp_all add: rnd_def\<close>)
qed

lemma rnd_pow2:
  assumes "- 1022 \<le> k"
  shows "rnd (pow2 k) = pow2 k"
proof -
  have "ilog2 (pow2 k) = k" using pow2_less [of k "k + 1"] by (intro ilog2_eq) simp_all
  then have g: "grid_exp (pow2 k) = k - 52" using assms by (simp add: grid_exp_def)
  have "pow2 (52 + (k - 52)) = of_int (2 ^ 52) * pow2 (k - 52)" unfolding pow2_add by (simp add: pow2_int)
  moreover have "52 + (k - 52) = k" by simp
  ultimately have "pow2 k = of_int (2 ^ 52) * pow2 (grid_exp (pow2 k))" unfolding g by (simp only:)
  from rnd_pos_exact [OF this] show ?thesis by (simp add: rnd_def)
qed

lemma to_f64_mono: "x \<le> y \<Longrightarrow> fle (to_f64 x) (to_f64 y)"
  using rnd_mono [of x y] by (simp add: to_f64_def Let_def)

lemma to_f64_small:
  assumes "\<bar>x\<bar> \<le> 2 ^ 1023"
  shows "to_f64 x = Fin (rnd x)"
proof -
  have p: "rnd (2 ^ 1023) = 2 ^ 1023" using rnd_pow2 [of 1023] by (simp add: pow2_def)
  have "rnd x \<le> 2 ^ 1023" using rnd_mono [of x "2 ^ 1023"] assms p by simp
  moreover have "- (2 ^ 1023) \<le> rnd x" using rnd_mono [of "- (2 ^ 1023)" x] assms p by (simp add: rnd_uminus)
  moreover have "(2 ^ 1023 :: rat) < 2 ^ 1024" by (simp only: power_strict_increasing_iff)
  ultimately show ?thesis by (simp add: to_f64_def Let_def)
qed

lemma of_i64_Fin: "of_i64 n = Fin (rnd (of_int (sint n)))"
proof -
  have "\<bar>sint n\<bar> \<le> 2 ^ 63" using sint_i64_bounds [of n] by auto
  then have "(of_int \<bar>sint n\<bar> :: rat) \<le> of_int (2 ^ 63)" by (simp only: of_int_le_iff)
  also have "\<dots> \<le> 2 ^ 1023" by simp
  finally show ?thesis by (simp add: of_i64_def to_f64_small)
qed

lemma of_i64_exact: "\<bar>sint n\<bar> < 2 ^ 53 \<Longrightarrow> of_i64 n = Fin (of_int (sint n))"
  by (simp add: of_i64_Fin rnd_int del: of_int_sint)

lemma of_i64_mono: "sint a \<le> sint b \<Longrightarrow> fle (of_i64 a) (of_i64 b)"
  by (simp add: of_i64_Fin rnd_mono del: of_int_sint)

lemma fle_trans: "fle a b \<Longrightarrow> fle b c \<Longrightarrow> fle a c"
  by (cases a; cases b; cases c) auto

lemma fdiv_mono: "fle (Fin a) (Fin b) \<Longrightarrow> 0 < m \<Longrightarrow> fle (fdiv (Fin a) (Fin m)) (fdiv (Fin b) (Fin m))"
  by (simp add: to_f64_mono divide_right_mono)

lemma to_f64_int:
  assumes "\<bar>n\<bar> < 2 ^ 53"
  shows "to_f64 (of_int n) = Fin (of_int n)"
proof -
  have "(of_int \<bar>n\<bar> :: rat) \<le> of_int (2 ^ 53)" using assms by (simp only: of_int_le_iff)
  also have "\<dots> \<le> 2 ^ 1023" by simp
  finally show ?thesis using rnd_int [OF assms] by (simp add: to_f64_small)
qed

lemma to_f64_numeral [simp]: "(numeral k :: int) < 2 ^ 53 \<Longrightarrow> to_f64 (numeral k) = Fin (numeral k)"
  using to_f64_int [of "numeral k"] by simp

lemma to_f64_0 [simp]: "to_f64 0 = Fin 0" and to_f64_1 [simp]: "to_f64 1 = Fin 1"
  using to_f64_int [of 0] to_f64_int [of 1] by simp_all

lemma rnd_abs_le: "\<bar>x\<bar> \<le> pow2 k \<Longrightarrow> - 1022 \<le> k \<Longrightarrow> \<bar>rnd x\<bar> \<le> pow2 k"
  using rnd_mono [of x "pow2 k"] rnd_mono [of "- pow2 k" x] rnd_pow2 [of k] by (auto simp: rnd_uminus abs_le_iff)

lemma to_f64_Fin: "\<bar>x\<bar> \<le> pow2 k \<Longrightarrow> - 1022 \<le> k \<Longrightarrow> k \<le> 1023 \<Longrightarrow> \<exists>y. to_f64 x = Fin y \<and> \<bar>y\<bar> \<le> pow2 k"
  using rnd_abs_le [of x k] to_f64_small [of x] pow2_mono [of k 1023] by (auto simp: pow2_def)

lemma of_i64_bound: "\<exists>x. of_i64 n = Fin x \<and> \<bar>x\<bar> \<le> pow2 63 \<and> (0 < sint n \<longrightarrow> 1 \<le> x)"
proof -
  have "\<bar>sint n\<bar> \<le> 2 ^ 63" using sint_i64_bounds [of n] by auto
  then have "(of_int \<bar>sint n\<bar> :: rat) \<le> of_int (2 ^ 63)" by (simp only: of_int_le_iff)
  then have "\<bar>of_int (sint n)\<bar> \<le> pow2 63" by (simp add: pow2_def del: of_int_sint)
  then have "\<bar>rnd (of_int (sint n))\<bar> \<le> pow2 63" by (rule rnd_abs_le) simp
  moreover have "1 \<le> rnd (of_int (sint n))" if "0 < sint n"
  proof -
    have "(1 :: rat) \<le> of_int (sint n)" using that by (simp only: of_int_1_le_iff)
    then show ?thesis using rnd_mono [of 1 "of_int (sint n)"] rnd_int [of 1] by simp
  qed
  ultimately show ?thesis by (simp only: of_i64_Fin) blast
qed

text \<open>A quotient of integers by a positive one is a finite number.\<close>

lemma quotient_Fin:
  assumes "0 < sint d"
  obtains x y where "of_i64 n = Fin x" "of_i64 d = Fin y" "1 \<le> y" "fdiv (of_i64 n) (of_i64 d) = Fin (rnd (x / y))"
proof -
  obtain x y where x: "of_i64 n = Fin x" "\<bar>x\<bar> \<le> pow2 63" and y: "of_i64 d = Fin y" "1 \<le> y"
    using of_i64_bound [of n] of_i64_bound [of d] assms by blast
  have "\<bar>x / y\<bar> \<le> \<bar>x\<bar>" using y(2) by (simp add: abs_divide divide_le_eq mult_left_le_one_le mult_le_cancel_left1)
  also have "\<dots> \<le> pow2 63" by (rule x(2))
  also have "\<dots> \<le> 2 ^ 1023" by (simp add: pow2_def)
  finally have "to_f64 (x / y) = Fin (rnd (x / y))" by (rule to_f64_small)
  then show thesis using that x(1) y by simp
qed

end
