(* ===== verification/Registry.thy ===== *)
theory Registry
  imports Biz_Context Registry_Duration Float64 "HOL-Library.Multiset"
begin

text \<open>
  \<open>registry/registry.go\<close>: the flow registry. A decoded YAML document (decoding itself is the
  yaml package's, a parameter of \<open>parse\<close>) is checked block by block and turned into the value
  the other components read; the lookups, the estimator and the two fences follow.
\<close>

section \<open>The registry\<close>

record severity_threshold =
  Sev :: string
  MinPerMinuteMinor :: i64

record stage =
  StageName :: string
  Signals :: "string list"

definition breach_lost :: string where "breach_lost = ''lost''"
definition breach_at_risk :: string where "breach_at_risk = ''at_risk''"

record sla =
  SLADeadline :: duration
  OnBreach :: string

record estimator =
  DefaultMinor :: i64
  EstExponent :: i8
  BySegment :: "(string, i64) gomap"

record baseline_block =
  Seasonality :: string
  LookbackWeeks :: int
  Holidays :: string

record recovery_block =
  Model :: string
  RecoveredFraction :: f64
  Within :: duration

record reconcile_block =
  LedgerSource :: string
  LedgerStage :: string

record flow =
  FlowName :: string
  MoneyKind :: string
  Currencies :: "string list"
  Stages :: "stage list"
  SLAs :: "(string, sla) gomap"
  EstimatorOf :: "estimator option"
  BaselineOf :: baseline_block
  RecoveryOf :: recovery_block
  ReconcileOf :: reconcile_block
  stage_set :: "string list"

record registry =
  Version :: int
  Segments :: "string list"
  AllowHosts :: "string list"
  Severity :: "severity_threshold list"
  flows :: "(string, flow) gomap"
  segment_set :: "string list"

definition no_baseline :: baseline_block where
  "no_baseline = \<lparr>Seasonality = [], LookbackWeeks = 0, Holidays = []\<rparr>"
definition no_recovery :: recovery_block where
  "no_recovery = \<lparr>Model = [], RecoveredFraction = Fin 0, Within = 0\<rparr>"
definition no_reconcile :: reconcile_block where
  "no_reconcile = \<lparr>LedgerSource = [], LedgerStage = []\<rparr>"

definition zero_flow :: flow where
  "zero_flow = \<lparr>FlowName = [], MoneyKind = [], Currencies = [], Stages = [], SLAs = [],
     EstimatorOf = None, BaselineOf = no_baseline, RecoveryOf = no_recovery,
     ReconcileOf = no_reconcile, stage_set = []\<rparr>"

section \<open>Lookups\<close>

text \<open>Copying a map, key by key.\<close>

definition copy_map :: "('k, 'v) gomap \<Rightarrow> ('k, 'v) gomap" where
  "copy_map m = fold (\<lambda>(k, v) acc. map_put k v acc) m []"

definition registry_flow :: "registry \<Rightarrow> string \<Rightarrow> flow \<times> bool" where
  "registry_flow r name =
     (case map_of (flows r) name of
        None \<Rightarrow> (zero_flow, False)
      | Some f \<Rightarrow>
          (f\<lparr>Stages := map (\<lambda>st. \<lparr>StageName = StageName st, Signals = Signals st\<rparr>) (Stages f),
             SLAs := copy_map (SLAs f),
             EstimatorOf := map_option (\<lambda>e. \<lparr>DefaultMinor = DefaultMinor e, EstExponent = EstExponent e,
                 BySegment = copy_map (BySegment e)\<rparr>) (EstimatorOf f)\<rparr>,
           True))"

definition flow_names :: "registry \<Rightarrow> string list" where
  "flow_names r = map fst (flows r)"

definition segment_valid :: "registry \<Rightarrow> string \<Rightarrow> bool" where
  "segment_valid r s \<longleftrightarrow> s \<in> set (segment_set r)"

definition stage_valid :: "flow \<Rightarrow> string \<Rightarrow> bool" where
  "stage_valid f name \<longleftrightarrow> name \<in> set (stage_set f)"

definition value_stage :: "flow \<Rightarrow> string" where
  "value_stage f =
     (if LedgerStage (ReconcileOf f) \<noteq> [] then LedgerStage (ReconcileOf f)
      else if length (Stages f) > 0 then StageName (Stages f ! (length (Stages f) - 1))
      else [])"

definition estimate_minor :: "flow \<Rightarrow> string \<Rightarrow> i64 \<times> bool" where
  "estimate_minor f segment =
     (case EstimatorOf f of
        None \<Rightarrow> (0, False)
      | Some e \<Rightarrow>
          (case map_of (BySegment e) segment of
             Some v \<Rightarrow> (v, True)
           | None \<Rightarrow> (DefaultMinor e, True)))"

definition zero_money :: money where
  "zero_money = \<lparr>Amount = 0, Currency = [], Exponent = 0\<rparr>"

definition estimate_money :: "flow \<Rightarrow> string \<Rightarrow> string \<Rightarrow> money \<times> bool" where
  "estimate_money f segment currency =
     (let (amt, ok) = estimate_minor f segment in
      if \<not> ok then (zero_money, False)
      else (\<lparr>Amount = amt, Currency = currency, Exponent = EstExponent (the (EstimatorOf f))\<rparr>, True))"

section \<open>The host fence\<close>

definition label_byte :: "nat \<Rightarrow> bool" where
  "label_byte c \<longleftrightarrow> is_lower c \<or> is_digit c \<or> c = byte CHR ''-''"

definition label_ok :: "string \<Rightarrow> bool" where
  "label_ok l \<longleftrightarrow> l \<noteq> [] \<and> length l \<le> 63
     \<and> list_all (\<lambda>i. label_byte (byte (l ! i))
          \<and> \<not> (l ! i = CHR ''-'' \<and> (i = 0 \<or> i = length l - 1))) [0..<length l]"

definition valid_host_shape :: "string \<Rightarrow> bool" where
  "valid_host_shape host \<longleftrightarrow>
     host \<noteq> [] \<and> length host \<le> 253 \<and> list_all label_ok (split_on CHR ''.'' host)"

text \<open>
  \<open>strings.ToLower\<close>: on an ASCII string byte by byte; what it makes of other strings is the
  parameter \<open>unicode_lower\<close>.
\<close>

definition go_lower :: "(string \<Rightarrow> string) \<Rightarrow> string \<Rightarrow> string" where
  "go_lower unicode_lower s = (if is_ascii s then to_lower s else unicode_lower s)"

definition pattern_matches :: "string \<Rightarrow> string \<Rightarrow> bool" where
  "pattern_matches host pat =
     (let (wild, ok) = cut_prefix pat ''*.'' in
      if ok then has_suffix host (''.'' @ wild) \<and> length host > length wild + 1
      else host = pat)"

definition host_allowed :: "(string \<Rightarrow> string) \<Rightarrow> string list \<Rightarrow> string \<Rightarrow> bool" where
  "host_allowed unicode_lower allow_hosts host0 =
     (let host = go_lower unicode_lower host0 in
      if \<not> valid_host_shape host then False
      else list_ex (pattern_matches host) allow_hosts)"

section \<open>The document\<close>

record severity_doc =
  DSev :: string
  DMinPerMinute :: i64

record stage_doc =
  DName :: string
  DSignals :: "string list"

record sla_doc =
  DDeadline :: string
  DOnBreach :: string

record estimator_doc =
  DDefaultMinor :: i64
  DExponent :: "i8 option"
  DBySegment :: "(string, i64) gomap"

record baseline_doc =
  DSeasonality :: string
  DLookbackWeeks :: int
  DHolidays :: string

record recovery_doc =
  DModel :: string
  DRecoveredFraction :: f64
  DWithin :: string

record reconcile_doc =
  DSource :: string
  DStage :: string

record flow_doc =
  DKind :: string
  DCurrencies :: "string list"
  DStages :: "stage_doc list"
  DSLA :: "(string, sla_doc) gomap"
  DEstimator :: "estimator_doc option"
  DBaseline :: "baseline_doc option"
  DRecovery :: "recovery_doc option"
  DReconcile :: "reconcile_doc option"

record registry_doc =
  DVersion :: int
  DSegments :: "string list"
  DAllowHosts :: "string list"
  DSeverity :: "severity_doc list"
  DFlows :: "(string, flow_doc) gomap"

section \<open>Validation\<close>

datatype flow_error =
    FlowNameBad token_error
  | MoneyKindBad string
  | NoStages
  | CurrencyBad string
  | CurrencyTwice string
  | StageNameBad nat string token_error
  | StageTwice string
  | StageNoSignals string
  | SignalEmpty string nat
  | SLAStageUnknown string
  | SLADeadlineBad string
  | SLABreachBad string string
  | DefaultNotPositive i64
  | SegmentOutside string
  | SegmentNotPositive string i64
  | EstimatorExponent i8
  | SeasonalityBad string
  | LookbackBad int
  | RecoveryModelBad string
  | FractionNotFinite f64
  | FractionRange f64
  | WithinMissing
  | WithinBad
  | WithinWithoutFraction string
  | NoLedgerSource
  | LedgerSchemeBad string
  | LedgerStageUnknown string

definition validate_recovery :: "recovery_doc \<Rightarrow> flow_error + recovery_block" where
  "validate_recovery rd =
     (if DModel rd \<noteq> ''usage_loss_curve'' then Inl (RecoveryModelBad (DModel rd))
      else if DRecoveredFraction rd = NaN \<or> DRecoveredFraction rd = PInf \<or> DRecoveredFraction rd = NInf
        then Inl (FractionNotFinite (DRecoveredFraction rd))
      else if fless (DRecoveredFraction rd) (Fin 0) \<or> fless (Fin 1) (DRecoveredFraction rd)
        then Inl (FractionRange (DRecoveredFraction rd))
      else
        (let rec = \<lparr>Model = DModel rd, RecoveredFraction = DRecoveredFraction rd, Within = 0\<rparr> in
         if fless (Fin 0) (DRecoveredFraction rd) then
           (if DWithin rd = [] then Inl WithinMissing
            else (case parse_iso_duration (DWithin rd) of
                    None \<Rightarrow> Inl WithinBad
                  | Some d \<Rightarrow> Inr (rec\<lparr>Within := d\<rparr>)))
         else if DWithin rd \<noteq> [] then Inl (WithinWithoutFraction (DWithin rd))
         else Inr rec))"

definition validate_reconcile :: "reconcile_doc \<Rightarrow> string list \<Rightarrow> flow_error + reconcile_block" where
  "validate_reconcile rd stages =
     (let src = trim_space (DSource rd) in
      if src = [] then Inl NoLedgerSource
      else
        (let (scheme, _, ok) = cut CHR '':'' src in
         if \<not> ok \<or> (scheme \<noteq> ''sql'' \<and> scheme \<noteq> ''stripe'') then Inl (LedgerSchemeBad src)
         else if DStage rd \<noteq> [] \<and> DStage rd \<notin> set stages then Inl (LedgerStageUnknown (DStage rd))
         else Inr \<lparr>LedgerSource = src, LedgerStage = DStage rd\<rparr>))"

fun check_currencies :: "string list \<Rightarrow> string list \<Rightarrow> flow_error option" where
  "check_currencies seen [] = None"
| "check_currencies seen (c # cs) =
     (if currency_bad c then Some (CurrencyBad c)
      else if c \<in> set seen then Some (CurrencyTwice c)
      else check_currencies (c # seen) cs)"

fun check_signals :: "string \<Rightarrow> nat \<Rightarrow> string list \<Rightarrow> flow_error option" where
  "check_signals st j [] = None"
| "check_signals st j (sig # sigs) =
     (if trim_space sig = [] then Some (SignalEmpty st j) else check_signals st (j + 1) sigs)"

fun check_stages :: "nat \<Rightarrow> string list \<Rightarrow> stage_doc list \<Rightarrow> flow_error + string list \<times> stage list" where
  "check_stages i seen [] = Inr (seen, [])"
| "check_stages i seen (sd # sds) =
     (case lower_token (DName sd) 32 of
        Some e \<Rightarrow> Inl (StageNameBad i (DName sd) e)
      | None \<Rightarrow>
          if DName sd \<in> set seen then Inl (StageTwice (DName sd))
          else if DSignals sd = [] then Inl (StageNoSignals (DName sd))
          else
            (case check_signals (DName sd) 0 (DSignals sd) of
               Some e \<Rightarrow> Inl e
             | None \<Rightarrow>
                 (case check_stages (i + 1) (DName sd # seen) sds of
                    Inl e \<Rightarrow> Inl e
                  | Inr (set', sts) \<Rightarrow>
                      Inr (set', \<lparr>StageName = DName sd, Signals = DSignals sd\<rparr> # sts))))"

fun build_slas ::
  "string list \<Rightarrow> (string, sla_doc) gomap \<Rightarrow> (string, sla) gomap \<Rightarrow> flow_error + (string, sla) gomap" where
  "build_slas stages [] acc = Inr acc"
| "build_slas stages ((st, sd) # rest) acc =
     (if st \<notin> set stages then Inl (SLAStageUnknown st)
      else
        (case parse_iso_duration (DDeadline sd) of
           None \<Rightarrow> Inl (SLADeadlineBad st)
         | Some d \<Rightarrow>
             if DOnBreach sd \<noteq> breach_lost \<and> DOnBreach sd \<noteq> breach_at_risk
             then Inl (SLABreachBad st (DOnBreach sd))
             else build_slas stages rest
                    (map_put st \<lparr>SLADeadline = d, OnBreach = DOnBreach sd\<rparr> acc)))"

fun check_by_segment :: "string list \<Rightarrow> (string, i64) gomap \<Rightarrow> flow_error option" where
  "check_by_segment segments [] = None"
| "check_by_segment segments ((seg, v) # rest) =
     (if seg \<notin> set segments then Some (SegmentOutside seg)
      else if sint v \<le> 0 then Some (SegmentNotPositive seg v)
      else check_by_segment segments rest)"

definition build_estimator :: "string list \<Rightarrow> estimator_doc \<Rightarrow> flow_error + estimator" where
  "build_estimator segments ed =
     (if sint (DDefaultMinor ed) \<le> 0 then Inl (DefaultNotPositive (DDefaultMinor ed))
      else
        (case check_by_segment segments (DBySegment ed) of
           Some e \<Rightarrow> Inl e
         | None \<Rightarrow>
             (let exponent = (case DExponent ed of None \<Rightarrow> 2 | Some x \<Rightarrow> x) in
              if DExponent ed \<noteq> None \<and> (sint exponent < 0 \<or> sint exponent > 4)
              then Inl (EstimatorExponent exponent)
              else Inr \<lparr>DefaultMinor = DDefaultMinor ed, EstExponent = exponent,
                        BySegment = DBySegment ed\<rparr>)))"

definition build_baseline :: "baseline_doc \<Rightarrow> flow_error + baseline_block" where
  "build_baseline bd =
     (if DSeasonality bd \<noteq> ''hour_of_week'' then Inl (SeasonalityBad (DSeasonality bd))
      else if DLookbackWeeks bd < 1 then Inl (LookbackBad (DLookbackWeeks bd))
      else Inr \<lparr>Seasonality = DSeasonality bd, LookbackWeeks = DLookbackWeeks bd,
                Holidays = DHolidays bd\<rparr>)"

text \<open>An optional block: absent leaves the zero value, present is validated.\<close>

definition optional :: "'b \<Rightarrow> ('a \<Rightarrow> 'e + 'b) \<Rightarrow> 'a option \<Rightarrow> 'e + 'b" where
  "optional zero check x = (case x of None \<Rightarrow> Inr zero | Some a \<Rightarrow> check a)"

definition build_flow :: "string \<Rightarrow> flow_doc \<Rightarrow> string list \<Rightarrow> flow_error + flow" where
  "build_flow name fd segments =
     (case lower_token name 64 of Some e \<Rightarrow> Inl (FlowNameBad e) | None \<Rightarrow>
      if \<not> kind_valid (DKind fd) then Inl (MoneyKindBad (DKind fd))
      else if DStages fd = [] then Inl NoStages
      else
      (case check_currencies [] (DCurrencies fd) of Some e \<Rightarrow> Inl e | None \<Rightarrow>
      (case check_stages 0 [] (DStages fd) of Inl e \<Rightarrow> Inl e | Inr (stages, sts) \<Rightarrow>
      (case build_slas stages (DSLA fd) [] of Inl e \<Rightarrow> Inl e | Inr slas \<Rightarrow>
      (case optional None (\<lambda>ed. map_sum id Some (build_estimator segments ed)) (DEstimator fd) of
         Inl e \<Rightarrow> Inl e | Inr est \<Rightarrow>
      (case optional no_baseline build_baseline (DBaseline fd) of Inl e \<Rightarrow> Inl e | Inr bl \<Rightarrow>
      (case optional no_recovery validate_recovery (DRecovery fd) of Inl e \<Rightarrow> Inl e | Inr rec \<Rightarrow>
      (case optional no_reconcile (\<lambda>rd. validate_reconcile rd stages) (DReconcile fd) of
         Inl e \<Rightarrow> Inl e | Inr rc \<Rightarrow>
       Inr \<lparr>FlowName = name, MoneyKind = DKind fd, Currencies = DCurrencies fd, Stages = sts,
            SLAs = slas, EstimatorOf = est, BaselineOf = bl, RecoveryOf = rec,
            ReconcileOf = rc, stage_set = stages\<rparr>))))))))"

datatype registry_error =
    DecodeError
  | ExtraDocument
  | VersionUnsupported int
  | NoSegments
  | SegmentBad string token_error
  | SegmentTwice string
  | HostPatternBad nat string
  | SevBad nat string
  | SevTwice nat string
  | SevNotPositive nat i64
  | SevOrder nat i64 i64
  | NoFlows
  | InFlow string flow_error

fun check_segments :: "string list \<Rightarrow> string list \<Rightarrow> registry_error + string list" where
  "check_segments seen [] = Inr seen"
| "check_segments seen (s # ss) =
     (case lower_token s 32 of
        Some e \<Rightarrow> Inl (SegmentBad s e)
      | None \<Rightarrow> if s \<in> set seen then Inl (SegmentTwice s) else check_segments (s # seen) ss)"

definition host_pattern_bad :: "string \<Rightarrow> bool" where
  "host_pattern_bad h =
     (let bare = fst (cut_prefix h ''*.'')
      in h = ''*'' \<or> h = ''*.'' \<or> bare = [] \<or> \<not> valid_host_shape bare)"

fun check_hosts :: "nat \<Rightarrow> string list \<Rightarrow> registry_error option" where
  "check_hosts i [] = None"
| "check_hosts i (h # hs) = (if host_pattern_bad h then Some (HostPatternBad i h) else check_hosts (i + 1) hs)"

definition sev_bad :: "string \<Rightarrow> bool" where
  "sev_bad s \<longleftrightarrow> s = [] \<or> length s > 32 \<or> list_ex (\<lambda>r. r \<le> 32 \<or> r = 127) (rune_values s)"

text \<open>\<open>prev\<close> is the floor of the threshold before, if there is one.\<close>

fun check_severity ::
  "nat \<Rightarrow> string list \<Rightarrow> i64 option \<Rightarrow> severity_doc list \<Rightarrow> registry_error + severity_threshold list" where
  "check_severity i seen prev [] = Inr []"
| "check_severity i seen prev (sd # sds) =
     (if sev_bad (DSev sd) then Inl (SevBad i (DSev sd))
      else if DSev sd \<in> set seen then Inl (SevTwice i (DSev sd))
      else if sint (DMinPerMinute sd) \<le> 0 then Inl (SevNotPositive i (DMinPerMinute sd))
      else if prev \<noteq> None \<and> sint (DMinPerMinute sd) \<ge> sint (the prev)
        then Inl (SevOrder i (DMinPerMinute sd) (the prev))
      else
        (case check_severity (i + 1) (DSev sd # seen) (Some (DMinPerMinute sd)) sds of
           Inl e \<Rightarrow> Inl e
         | Inr ths \<Rightarrow> Inr (\<lparr>Sev = DSev sd, MinPerMinuteMinor = DMinPerMinute sd\<rparr> # ths)))"

fun build_flows ::
  "string list \<Rightarrow> (string, flow_doc) gomap \<Rightarrow> (string, flow) gomap \<Rightarrow> registry_error + (string, flow) gomap" where
  "build_flows segments [] acc = Inr acc"
| "build_flows segments ((name, fd) # rest) acc =
     (case build_flow name fd segments of
        Inl e \<Rightarrow> Inl (InFlow name e)
      | Inr f \<Rightarrow> build_flows segments rest (map_put name f acc))"

definition build_registry :: "registry_doc \<Rightarrow> registry_error + registry" where
  "build_registry doc =
     (if DVersion doc \<noteq> 1 then Inl (VersionUnsupported (DVersion doc))
      else if DSegments doc = [] then Inl NoSegments
      else
      (case check_segments [] (DSegments doc) of Inl e \<Rightarrow> Inl e | Inr segs \<Rightarrow>
      (case check_hosts 0 (DAllowHosts doc) of Some e \<Rightarrow> Inl e | None \<Rightarrow>
      (case check_severity 0 [] None (DSeverity doc) of Inl e \<Rightarrow> Inl e | Inr sev \<Rightarrow>
       if DFlows doc = [] then Inl NoFlows
       else
      (case build_flows segs (DFlows doc) [] of Inl e \<Rightarrow> Inl e | Inr fs \<Rightarrow>
       Inr \<lparr>Version = DVersion doc, Segments = DSegments doc, AllowHosts = DAllowHosts doc,
            Severity = sev, flows = fs, segment_set = segs\<rparr>)))))"

text \<open>
  \<open>Parse\<close>: \<open>decode\<close> is the first document of the stream, \<open>at_end\<close> says that no second one follows.
\<close>

definition parse :: "(string \<Rightarrow> registry_doc option) \<Rightarrow> (string \<Rightarrow> bool) \<Rightarrow> string \<Rightarrow> registry_error + registry" where
  "parse decode at_end raw =
     (case decode raw of
        None \<Rightarrow> Inl DecodeError
      | Some doc \<Rightarrow> if \<not> at_end raw then Inl ExtraDocument else build_registry doc)"

section \<open>What an accepted registry satisfies\<close>

definition stage_ok :: "stage \<Rightarrow> bool" where
  "stage_ok st \<longleftrightarrow> lower_token (StageName st) 32 = None \<and> Signals st \<noteq> []
     \<and> (\<forall>sig \<in> set (Signals st). trim_space sig \<noteq> [])"

definition sla_ok :: "string list \<Rightarrow> string \<times> sla \<Rightarrow> bool" where
  "sla_ok names = (\<lambda>(st, s). st \<in> set names \<and> 0 < SLADeadline s
     \<and> SLADeadline s \<le> 315360000 * second \<and> OnBreach s \<in> {breach_lost, breach_at_risk})"

definition estimator_ok :: "string list \<Rightarrow> estimator \<Rightarrow> bool" where
  "estimator_ok segs e \<longleftrightarrow> 0 < sint (DefaultMinor e) \<and> 0 \<le> sint (EstExponent e)
     \<and> sint (EstExponent e) \<le> 4
     \<and> (\<forall>(seg, v) \<in> set (BySegment e). seg \<in> set segs \<and> 0 < sint v)"

definition baseline_ok :: "baseline_block \<Rightarrow> bool" where
  "baseline_ok b \<longleftrightarrow> b = no_baseline \<or> Seasonality b = ''hour_of_week'' \<and> 1 \<le> LookbackWeeks b"

definition recovery_ok :: "recovery_block \<Rightarrow> bool" where
  "recovery_ok rc \<longleftrightarrow> rc = no_recovery \<or> Model rc = ''usage_loss_curve''
     \<and> (\<exists>x. RecoveredFraction rc = Fin x \<and> 0 \<le> x \<and> x \<le> 1 \<and> (0 < Within rc \<longleftrightarrow> 0 < x))"

definition reconcile_ok :: "string list \<Rightarrow> reconcile_block \<Rightarrow> bool" where
  "reconcile_ok names rc \<longleftrightarrow> rc = no_reconcile \<or> LedgerSource rc \<noteq> []
     \<and> fst (cut CHR '':'' (LedgerSource rc)) \<in> {''sql'', ''stripe''}
     \<and> (LedgerStage rc = [] \<or> LedgerStage rc \<in> set names)"

definition flow_ok :: "string list \<Rightarrow> flow \<Rightarrow> bool" where
  "flow_ok segs f \<longleftrightarrow>
     lower_token (FlowName f) 64 = None \<and> kind_valid (MoneyKind f)
     \<and> distinct (Currencies f) \<and> (\<forall>c \<in> set (Currencies f). \<not> currency_bad c)
     \<and> Stages f \<noteq> [] \<and> distinct (map StageName (Stages f)) \<and> list_all stage_ok (Stages f)
     \<and> set (stage_set f) = set (map StageName (Stages f))
     \<and> map_ok (SLAs f) \<and> list_all (sla_ok (map StageName (Stages f))) (SLAs f)
     \<and> (case EstimatorOf f of None \<Rightarrow> True | Some e \<Rightarrow> estimator_ok segs e)
     \<and> baseline_ok (BaselineOf f) \<and> recovery_ok (RecoveryOf f)
     \<and> reconcile_ok (map StageName (Stages f)) (ReconcileOf f)"

definition registry_ok :: "registry \<Rightarrow> bool" where
  "registry_ok r \<longleftrightarrow>
     Version r = 1 \<and> Segments r \<noteq> [] \<and> distinct (Segments r)
     \<and> (\<forall>s \<in> set (Segments r). lower_token s 32 = None) \<and> set (segment_set r) = set (Segments r)
     \<and> (\<forall>h \<in> set (AllowHosts r). \<not> host_pattern_bad h)
     \<and> distinct (map Sev (Severity r)) \<and> (\<forall>t \<in> set (Severity r). 0 < sint (MinPerMinuteMinor t))
     \<and> sorted_wrt (\<lambda>a b. sint (MinPerMinuteMinor b) < sint (MinPerMinuteMinor a)) (Severity r)
     \<and> flows r \<noteq> [] \<and> map_ok (flows r)
     \<and> (\<forall>(name, f) \<in> set (flows r). FlowName f = name \<and> flow_ok (Segments r) f)"

section \<open>Lemmas\<close>

lemma check_currencies_None:
  "check_currencies seen cs = None \<longleftrightarrow>
     distinct cs \<and> set cs \<inter> set seen = {} \<and> (\<forall>c \<in> set cs. \<not> currency_bad c)"
  by (induction seen cs rule: check_currencies.induct) auto

lemma check_signals_None: "check_signals st j sigs = None \<longleftrightarrow> (\<forall>sig \<in> set sigs. trim_space sig \<noteq> [])"
  by (induction st j sigs rule: check_signals.induct) auto

lemma check_stages_Inr:
  "check_stages i seen sds = Inr (names, sts) \<Longrightarrow>
     set names = set seen \<union> set (map StageName sts) \<and> distinct (map StageName sts)
     \<and> set seen \<inter> set (map StageName sts) = {} \<and> list_all stage_ok sts
     \<and> length sts = length sds"
proof (induction i seen sds arbitrary: names sts rule: check_stages.induct)
  case (2 i seen sd sds)
  obtain sts' where rec: "check_stages (i + 1) (DName sd # seen) sds = Inr (names, sts')"
    and sts: "sts = \<lparr>StageName = DName sd, Signals = DSignals sd\<rparr> # sts'"
    and tok: "lower_token (DName sd) 32 = None" and new: "DName sd \<notin> set seen"
    and sig: "DSignals sd \<noteq> []" "check_signals (DName sd) 0 (DSignals sd) = None"
    using "2.prems" by (auto split: option.splits if_splits sum.splits prod.splits)
  have "stage_ok \<lparr>StageName = DName sd, Signals = DSignals sd\<rparr>"
    using tok sig by (simp add: stage_ok_def check_signals_None)
  then show ?case using "2.IH" [OF tok new sig rec] sts new by auto
qed simp

lemma parse_iso_duration_range:
  "parse_iso_duration s = Some d \<Longrightarrow> 0 < d \<and> d \<le> 315360000 * second"
  by (auto simp: parse_iso_duration_iff second_def)

lemma build_slas_Inr:
  assumes "build_slas names sds acc = Inr slas" "map_ok acc" "list_all (sla_ok ns) acc" "set names = set ns"
  shows "map_ok slas \<and> list_all (sla_ok ns) slas"
  using assms
proof (induction names sds acc rule: build_slas.induct)
  case (2 names st sd rest acc)
  obtain d where d: "st \<in> set names" "parse_iso_duration (DDeadline sd) = Some d"
    "DOnBreach sd = breach_lost \<or> DOnBreach sd = breach_at_risk"
    "build_slas names rest (map_put st \<lparr>SLADeadline = d, OnBreach = DOnBreach sd\<rparr> acc) = Inr slas"
    using "2.prems"(1) by (auto split: option.splits if_splits)
  have ok: "sla_ok ns (st, \<lparr>SLADeadline = d, OnBreach = DOnBreach sd\<rparr>)"
    using d parse_iso_duration_range [OF d(2)] "2.prems"(4) by (auto simp: sla_ok_def)
  have "list_all (sla_ok ns) (map_put st \<lparr>SLADeadline = d, OnBreach = DOnBreach sd\<rparr> acc)"
    using ok "2.prems"(3) by (auto simp: list_all_iff dest!: set_map_putD)
  then show ?case using "2.IH" [OF _ d(2) _ d(4)] d "2.prems" by auto
qed simp

lemma check_by_segment_None:
  "check_by_segment segs m = None \<longleftrightarrow> (\<forall>(seg, v) \<in> set m. seg \<in> set segs \<and> 0 < sint v)"
  by (induction segs m rule: check_by_segment.induct) auto

lemma build_estimator_Inr: "build_estimator segs ed = Inr e \<Longrightarrow> estimator_ok segs e"
  by (auto simp: build_estimator_def estimator_ok_def check_by_segment_None Let_def
      split: option.splits if_splits)

lemma estimator_ok_cong: "set ss = set ss' \<Longrightarrow> estimator_ok ss e = estimator_ok ss' e"
  by (simp add: estimator_ok_def)

lemma build_baseline_Inr: "build_baseline bd = Inr b \<Longrightarrow> baseline_ok b"
  by (auto simp: build_baseline_def baseline_ok_def split: if_splits)

lemma validate_recovery_Inr: "validate_recovery rd = Inr rc \<Longrightarrow> recovery_ok rc"
proof -
  assume r: "validate_recovery rd = Inr rc"
  then obtain x where x: "DRecoveredFraction rd = Fin x"
    by (cases "DRecoveredFraction rd") (auto simp: validate_recovery_def split: if_splits)
  then show ?thesis
    using r parse_iso_duration_range
    by (auto simp: validate_recovery_def recovery_ok_def Let_def split: if_splits option.splits)
qed

lemma validate_reconcile_Inr:
  "validate_reconcile rd names = Inr rc \<Longrightarrow> set names = set ns \<Longrightarrow> reconcile_ok ns rc"
  by (auto simp: validate_reconcile_def reconcile_ok_def Let_def split: if_splits prod.splits)

lemma optional_Inr: "optional z check x = Inr y \<longleftrightarrow> (x = None \<and> y = z) \<or> (\<exists>a. x = Some a \<and> check a = Inr y)"
  by (auto simp: optional_def split: option.splits)

lemma build_flow_Inr:
  assumes "build_flow name fd segs = Inr f" "set segs = set ss"
  shows "FlowName f = name \<and> flow_ok ss f"
proof -
  obtain names sts slas est bl rec rc where
    tok: "lower_token name 64 = None" "kind_valid (DKind fd)" "DStages fd \<noteq> []"
    and cur: "check_currencies [] (DCurrencies fd) = None"
    and sts: "check_stages 0 [] (DStages fd) = Inr (names, sts)"
    and slas: "build_slas names (DSLA fd) [] = Inr slas"
    and est: "optional None (\<lambda>ed. map_sum id Some (build_estimator segs ed)) (DEstimator fd) = Inr est"
    and bl: "optional no_baseline build_baseline (DBaseline fd) = Inr bl"
    and rec: "optional no_recovery validate_recovery (DRecovery fd) = Inr rec"
    and rc: "optional no_reconcile (\<lambda>rd. validate_reconcile rd names) (DReconcile fd) = Inr rc"
    and f: "f = \<lparr>FlowName = name, MoneyKind = DKind fd, Currencies = DCurrencies fd, Stages = sts,
            SLAs = slas, EstimatorOf = est, BaselineOf = bl, RecoveryOf = rec,
            ReconcileOf = rc, stage_set = names\<rparr>"
    using assms(1) by (auto simp: build_flow_def split: option.splits if_splits sum.splits prod.splits)
  have st: "set names = set (map StageName sts)" "distinct (map StageName sts)"
    "list_all stage_ok sts" "sts \<noteq> []"
    using check_stages_Inr [OF sts] tok(3) by auto
  have "case est of None \<Rightarrow> True | Some e \<Rightarrow> estimator_ok ss e"
    using est build_estimator_Inr [of segs] estimator_ok_cong [OF assms(2)]
    by (auto simp: optional_Inr map_sum_Inr split: option.splits)
  moreover have "baseline_ok bl" using bl build_baseline_Inr by (auto simp: optional_Inr baseline_ok_def)
  moreover have "recovery_ok rec" using rec validate_recovery_Inr by (auto simp: optional_Inr recovery_ok_def)
  moreover have "reconcile_ok (map StageName sts) rc"
    using rc validate_reconcile_Inr [OF _ st(1)] by (auto simp: optional_Inr reconcile_ok_def)
  ultimately show ?thesis
    using tok cur st build_slas_Inr [OF slas _ _ st(1)]
    by (simp add: f flow_ok_def check_currencies_None)
qed

lemma check_segments_Inr:
  "check_segments seen ss = Inr segs \<Longrightarrow>
     set segs = set seen \<union> set ss \<and> distinct ss \<and> set seen \<inter> set ss = {}
     \<and> (\<forall>s \<in> set ss. lower_token s 32 = None)"
proof (induction seen ss rule: check_segments.induct)
  case (2 seen s ss)
  have c: "lower_token s 32 = None" "s \<notin> set seen" "check_segments (s # seen) ss = Inr segs"
    using "2.prems" by (auto simp del: lower_token_None split: option.splits if_splits)
  show ?case using "2.IH" [OF c] c(1,2) by (auto simp del: lower_token_None)
qed simp

lemma check_hosts_None: "check_hosts i hs = None \<longleftrightarrow> (\<forall>h \<in> set hs. \<not> host_pattern_bad h)"
  by (induction i hs rule: check_hosts.induct) auto

lemma check_severity_Inr:
  "check_severity i seen prev sds = Inr ths \<Longrightarrow>
     distinct (map Sev ths) \<and> set seen \<inter> set (map Sev ths) = {}
     \<and> (\<forall>t \<in> set ths. 0 < sint (MinPerMinuteMinor t))
     \<and> sorted_wrt (\<lambda>a b. sint (MinPerMinuteMinor b) < sint (MinPerMinuteMinor a)) ths
     \<and> (\<forall>t \<in> set ths. case prev of None \<Rightarrow> True | Some p \<Rightarrow> sint (MinPerMinuteMinor t) < sint p)"
proof (induction i seen prev sds arbitrary: ths rule: check_severity.induct)
  case (2 i seen prev sd sds)
  obtain ths' where rec: "check_severity (i + 1) (DSev sd # seen) (Some (DMinPerMinute sd)) sds = Inr ths'"
    and ths: "ths = \<lparr>Sev = DSev sd, MinPerMinuteMinor = DMinPerMinute sd\<rparr> # ths'"
    and c: "\<not> sev_bad (DSev sd)" "DSev sd \<notin> set seen" "\<not> sint (DMinPerMinute sd) \<le> 0"
      "\<not> (prev \<noteq> None \<and> sint (DMinPerMinute sd) \<ge> sint (the prev))"
    using "2.prems" by (auto split: if_splits sum.splits)
  from "2.IH" [OF c rec] show ?case using c by (auto simp: ths split: option.splits)
qed simp

lemma build_flows_Inr:
  assumes "build_flows segs docs acc = Inr fs" "map_ok acc" "set segs = set ss"
    "\<forall>(name, f) \<in> set acc. FlowName f = name \<and> flow_ok ss f"
  shows "map_ok fs \<and> (\<forall>(name, f) \<in> set fs. FlowName f = name \<and> flow_ok ss f)
     \<and> (docs \<noteq> [] \<or> acc \<noteq> [] \<longrightarrow> fs \<noteq> [])"
  using assms
proof (induction segs docs acc rule: build_flows.induct)
  case (2 segs name fd rest acc)
  obtain f where f: "build_flow name fd segs = Inr f" and rec: "build_flows segs rest (map_put name f acc) = Inr fs"
    using "2.prems"(1) by (auto split: sum.splits)
  have "\<forall>(n, g) \<in> set (map_put name f acc). FlowName g = n \<and> flow_ok ss g"
    using build_flow_Inr [OF f "2.prems"(3)] "2.prems"(4) by (auto dest!: set_map_putD)
  moreover have "map_put name f acc \<noteq> []" by (cases acc) auto
  ultimately show ?case using "2.IH" [OF f rec] "2.prems" by auto
qed simp

lemma build_registry_ok: "build_registry doc = Inr r \<Longrightarrow> registry_ok r"
proof -
  assume "build_registry doc = Inr r"
  then obtain segs sev fs where
    v: "DVersion doc = 1" "DSegments doc \<noteq> []" "DFlows doc \<noteq> []"
    and segs: "check_segments [] (DSegments doc) = Inr segs"
    and hosts: "check_hosts 0 (DAllowHosts doc) = None"
    and sev: "check_severity 0 [] None (DSeverity doc) = Inr sev"
    and fs: "build_flows segs (DFlows doc) [] = Inr fs"
    and r: "r = \<lparr>Version = DVersion doc, Segments = DSegments doc, AllowHosts = DAllowHosts doc,
            Severity = sev, flows = fs, segment_set = segs\<rparr>"
    by (auto simp: build_registry_def split: if_splits sum.splits option.splits)
  have s: "set segs = set (DSegments doc)" using check_segments_Inr [OF segs] by simp
  show ?thesis
    using v check_segments_Inr [OF segs] hosts check_severity_Inr [OF sev]
      build_flows_Inr [OF fs map_ok_Nil s] s
    by (simp add: r registry_ok_def check_hosts_None)
qed

section \<open>The host fence in terms of labels\<close>

abbreviation host_labels :: "string \<Rightarrow> string list" where
  "host_labels \<equiv> split_on CHR ''.''"

text \<open>A pattern covers the host it names, or every host with at least one more label before its domain.\<close>

definition covers :: "string \<Rightarrow> string \<Rightarrow> bool" where
  "covers pat host \<longleftrightarrow>
     (let (domain, wildcard) = cut_prefix pat ''*.'' in
      if wildcard then (\<exists>front. front \<noteq> [] \<and> host_labels host = front @ host_labels domain)
      else host = pat)"

lemma split_on_dot: "split_on sep (a @ sep # b) = split_on sep a @ split_on sep b"
proof (induction a)
  case (Cons c cs)
  then show ?case by (cases "split_on sep cs") auto
qed simp

lemma join_with_append: "xs \<noteq> [] \<Longrightarrow> ys \<noteq> [] \<Longrightarrow> join_with sep (xs @ ys) = join_with sep xs @ sep # join_with sep ys"
proof (induction xs)
  case (Cons x xs)
  then show ?case by (cases "xs = []") (simp_all add: join_with_Cons)
qed simp

lemma has_suffix_iff: "has_suffix s p \<longleftrightarrow> (\<exists>a. s = a @ p)"
  by (auto simp: has_suffix_def) (metis append_take_drop_id)

lemma valid_host_labels: "valid_host_shape h \<Longrightarrow> l \<in> set (host_labels h) \<Longrightarrow> l \<noteq> []"
  by (auto simp: valid_host_shape_def list_all_iff label_ok_def)

lemma pattern_matches_covers:
  assumes "valid_host_shape host"
  shows "pattern_matches host pat \<longleftrightarrow> covers pat host"
proof -
  obtain d w where cp: "cut_prefix pat ''*.'' = (d, w)" by (cases "cut_prefix pat ''*.''") auto
  have "has_suffix host (''.'' @ d) \<and> length host > length d + 1 \<longleftrightarrow> (\<exists>a. host = a @ CHR ''.'' # d \<and> a \<noteq> [])"
    (is "?l \<longleftrightarrow> ?r")
  proof
    assume l: ?l
    then obtain a where a: "host = a @ CHR ''.'' # d" unfolding has_suffix_iff by auto
    then have "a \<noteq> []" using l by auto
    then show ?r using a by blast
  next
    assume ?r
    then obtain a where "host = a @ CHR ''.'' # d" "a \<noteq> []" by blast
    then show ?l by (simp add: has_suffix_def)
  qed
  also have "\<dots> \<longleftrightarrow> (\<exists>front. front \<noteq> [] \<and> host_labels host = front @ host_labels d)"
  proof
    assume "\<exists>a. host = a @ CHR ''.'' # d \<and> a \<noteq> []"
    then show "\<exists>front. front \<noteq> [] \<and> host_labels host = front @ host_labels d"
      using split_on_dot split_on_nonempty by metis
  next
    assume "\<exists>front. front \<noteq> [] \<and> host_labels host = front @ host_labels d"
    then obtain front where f: "front \<noteq> []" "host_labels host = front @ host_labels d" by blast
    then have "host = join_with CHR ''.'' (front @ host_labels d)" by (metis join_split_on)
    then have h: "host = join_with CHR ''.'' front @ CHR ''.'' # d"
      using f by (simp add: join_with_append join_split_on)
    have "hd front \<noteq> []" using valid_host_labels [OF assms, of "hd front"] f by simp
    then have "join_with CHR ''.'' front \<noteq> []"
      using f(1) by (cases front; cases "tl front") (auto simp: join_with_Cons)
    then show "\<exists>a. host = a @ CHR ''.'' # d \<and> a \<noteq> []" using h by blast
  qed
  finally show ?thesis by (simp add: covers_def pattern_matches_def cp)
qed

section \<open>Iteration order\<close>

lemma build_flows_accepts:
  "(\<exists>fs. build_flows segs docs acc = Inr fs) \<longleftrightarrow> (\<forall>d \<in> set docs. \<exists>f. build_flow (fst d) (snd d) segs = Inr f)"
proof (induction segs docs acc rule: build_flows.induct)
  case (2 segs name fd rest acc)
  then show ?case by (cases "build_flow name fd segs") auto
qed simp

lemma build_flows_lookup:
  assumes "build_flows segs docs acc = Inr fs" "map_ok docs"
  shows "map_of fs n = (case map_of docs n of
     None \<Rightarrow> map_of acc n
   | Some fd \<Rightarrow> (case build_flow n fd segs of Inl _ \<Rightarrow> None | Inr f \<Rightarrow> Some f))"
  using assms
proof (induction segs docs acc rule: build_flows.induct)
  case (2 segs name fd rest acc)
  obtain f where f: "build_flow name fd segs = Inr f"
    and rec: "build_flows segs rest (map_put name f acc) = Inr fs"
    using "2.prems"(1) by (auto split: sum.splits)
  have "map_ok rest" "map_of rest name = None"
    using "2.prems"(2) by (auto simp: map_ok_def map_of_eq_None_iff)
  then show ?case using "2.IH" [OF f rec] f by (auto split: option.splits)
qed simp

lemma build_registry_accepts:
  "(\<exists>r. build_registry doc = Inr r) \<longleftrightarrow>
     DVersion doc = 1 \<and> DSegments doc \<noteq> [] \<and> DFlows doc \<noteq> []
     \<and> check_hosts 0 (DAllowHosts doc) = None
     \<and> (\<exists>sev. check_severity 0 [] None (DSeverity doc) = Inr sev)
     \<and> (\<exists>segs. check_segments [] (DSegments doc) = Inr segs
          \<and> (\<exists>fs. build_flows segs (DFlows doc) [] = Inr fs))"
  unfolding build_registry_def by (simp split: sum.split option.split)

lemma map_of_permuted: "map_ok m \<Longrightarrow> mset m' = mset m \<Longrightarrow> map_of m' = map_of m"
proof (rule ext)
  fix k
  assume m: "map_ok m" "mset m' = mset m"
  then have "map_ok m'" "set m' = set m"
    by (metis map_ok_def mset_eq_imp_distinct_iff mset_map) (use m(2) mset_eq_setD in blast)
  then have "map_of m' k = Some v \<longleftrightarrow> map_of m k = Some v" for v
    using m(1) by (simp add: map_ok_map_of)
  then show "map_of m' k = map_of m k" by (metis not_Some_eq)
qed

section \<open>Properties\<close>

text \<open>C10: whatever the document, a registry that \<open>Parse\<close> accepts satisfies every rule the readers
  rely on: segments, stages and flow names are distinct bounded tokens, every host pattern is a
  bare lower-case name or a \<open>*.\<close> of one, severity floors are positive and strictly decreasing, every
  deadline is positive and at most ten years, every estimate is positive with an exponent in
  0 to 4, a declared recovery fraction is a finite number in the unit interval, and a declared
  reconcile stage is a stage of its flow.\<close>

theorem parse_registry_ok:
  assumes "parse decode at_end raw = Inr r"
  shows "registry_ok r"
  using assms build_registry_ok by (auto simp: parse_def split: option.splits if_splits)

definition example_flow_doc :: flow_doc where
  "example_flow_doc = \<lparr>DKind = ''gmv'', DCurrencies = [''USD'', ''EUR''],
     DStages = [\<lparr>DName = ''auth'', DSignals = [''http'']\<rparr>, \<lparr>DName = ''capture'', DSignals = [''http'']\<rparr>],
     DSLA = [(''auth'', \<lparr>DDeadline = ''PT15M'', DOnBreach = ''lost''\<rparr>)],
     DEstimator = Some \<lparr>DDefaultMinor = 4200, DExponent = None, DBySegment = [(''vip'', 9900)]\<rparr>,
     DBaseline = Some \<lparr>DSeasonality = ''hour_of_week'', DLookbackWeeks = 8, DHolidays = []\<rparr>,
     DRecovery = Some \<lparr>DModel = ''usage_loss_curve'', DRecoveredFraction = Fin (1 / 4), DWithin = ''P1DT2H''\<rparr>,
     DReconcile = Some \<lparr>DSource = '' stripe:live '', DStage = ''capture''\<rparr>\<rparr>"

definition example_doc :: registry_doc where
  "example_doc = \<lparr>DVersion = 1, DSegments = [''vip'', ''std''], DAllowHosts = [''api.example.com'', ''*.pay.example''],
     DSeverity = [\<lparr>DSev = ''SEV1'', DMinPerMinute = 100000\<rparr>, \<lparr>DSev = ''SEV2'', DMinPerMinute = 10000\<rparr>],
     DFlows = [(''checkout'', example_flow_doc)]\<rparr>"

lemma example_accepted: "\<not> (case build_registry example_doc of Inl _ \<Rightarrow> True | Inr _ \<Rightarrow> False)"
  by code_simp

theorem parse_registry_ok_witness:
  "\<exists>r. parse (\<lambda>_. Some example_doc) (\<lambda>_. True) ''version: 1'' = Inr r \<and> registry_ok r"
proof -
  obtain r where "build_registry example_doc = Inr r"
    using example_accepted by (cases "build_registry example_doc") auto
  then have "parse (\<lambda>_. Some example_doc) (\<lambda>_. True) ''version: 1'' = Inr r" by (simp add: parse_def)
  from this parse_registry_ok [OF this] show ?thesis by blast
qed

text \<open>C26: the egress fence allows a host exactly when its lower-case form is a well-formed DNS name
  that some pattern covers label by label: an exact pattern covers only its own host, and
  \<open>*.domain\<close> covers the hosts with at least one label before all of the labels of the domain, so
  neither the domain itself nor a host that merely ends in its characters passes, and an empty
  list allows nothing.\<close>

theorem host_allowed_exact:
  "host_allowed unicode_lower allow_hosts h \<longleftrightarrow>
     valid_host_shape (go_lower unicode_lower h)
     \<and> (\<exists>pat. pat \<in> set allow_hosts \<and> covers pat (go_lower unicode_lower h))"
  using pattern_matches_covers
  by (auto simp: host_allowed_def Let_def list_ex_iff)

text \<open>in an accepted registry, the stage at which a flow's value is read is one of its declared
  stages, and an estimate in a well-formed currency is valid, positive money.\<close>

theorem accepted_flow_reads:
  assumes "registry_ok r" and "(name, f) \<in> set (flows r)"
  shows "stage_valid f (value_stage f)
     \<and> (\<forall>m. estimate_money f segment currency = (m, True) \<and> \<not> currency_bad currency \<longrightarrow>
          money_validate m = None \<and> 0 < sint (Amount m))"
proof -
  have f: "flow_ok (Segments r) f" using assms by (auto simp: registry_ok_def)
  then have s: "Stages f \<noteq> []" "set (stage_set f) = set (map StageName (Stages f))"
    and rc: "reconcile_ok (map StageName (Stages f)) (ReconcileOf f)"
    by (simp_all add: flow_ok_def)
  have "stage_valid f (value_stage f)"
    using s rc by (auto simp: stage_valid_def value_stage_def reconcile_ok_def no_reconcile_def)
  moreover have "money_validate m = None \<and> 0 < sint (Amount m)"
    if m: "estimate_money f segment currency = (m, True)" "\<not> currency_bad currency" for m
  proof -
    obtain e where e: "EstimatorOf f = Some e" using m
      by (auto simp: estimate_money_def estimate_minor_def split: option.splits)
    then have ok: "estimator_ok (Segments r) e" using f by (simp add: flow_ok_def)
    then have "map_of (BySegment e) segment = Some v \<Longrightarrow> 0 < sint v" for v
      using map_of_SomeD [of "BySegment e" segment v] by (auto simp: estimator_ok_def)
    then show ?thesis
      using m e ok
      by (auto simp: estimate_money_def estimate_minor_def money_validate_None estimator_ok_def
          split: option.splits)
  qed
  ultimately show ?thesis by blast
qed

theorem accepted_flow_reads_witness:
  "\<exists>r f. build_registry example_doc = Inr r \<and> (''checkout'', f) \<in> set (flows r)
     \<and> stage_valid f (value_stage f)"
proof -
  obtain r where r: "build_registry example_doc = Inr r"
    using example_accepted by (cases "build_registry example_doc") auto
  then have ok: "registry_ok r" by (rule build_registry_ok)
  have "case build_registry example_doc of Inl _ \<Rightarrow> False | Inr r \<Rightarrow> map fst (flows r) = [''checkout'']"
    by code_simp
  then obtain f where "(''checkout'', f) \<in> set (flows r)"
    using r by (auto simp: map_eq_Cons_conv)
  from accepted_flow_reads [OF ok this] this r show ?thesis by blast
qed

text \<open>the random order in which Go iterates over the flows of the document decides neither
  whether it is accepted nor what any flow lookup returns.\<close>

theorem parse_order_independent:
  assumes "map_ok (DFlows doc)" and "mset fds = mset (DFlows doc)"
  shows "((\<exists>r. build_registry doc = Inr r) \<longleftrightarrow> (\<exists>r. build_registry (doc\<lparr>DFlows := fds\<rparr>) = Inr r))
     \<and> (\<forall>r r' name. build_registry doc = Inr r \<and> build_registry (doc\<lparr>DFlows := fds\<rparr>) = Inr r' \<longrightarrow>
          registry_flow r name = registry_flow r' name)"
proof -
  have set: "set fds = set (DFlows doc)" and empty: "fds = [] \<longleftrightarrow> DFlows doc = []"
    using mset_eq_setD [OF assms(2)] mset_eq_length [OF assms(2)] by auto
  have ok: "map_ok fds"
    using assms by (metis map_ok_def mset_eq_imp_distinct_iff mset_map)
  have "(\<exists>fs. build_flows segs fds [] = Inr fs) \<longleftrightarrow> (\<exists>fs. build_flows segs (DFlows doc) [] = Inr fs)" for segs
    unfolding build_flows_accepts set ..
  then have acc: "(\<exists>r. build_registry doc = Inr r) \<longleftrightarrow> (\<exists>r. build_registry (doc\<lparr>DFlows := fds\<rparr>) = Inr r)"
    using empty by (simp add: build_registry_accepts)
  have "map_of (flows r) = map_of (flows r')"
    if acc: "build_registry doc = Inr r" "build_registry (doc\<lparr>DFlows := fds\<rparr>) = Inr r'" for r r'
  proof -
    obtain segs fs fs' where "build_flows segs (DFlows doc) [] = Inr fs" "flows r = fs"
      "build_flows segs fds [] = Inr fs'" "flows r' = fs'"
      using acc unfolding build_registry_def by (auto split: sum.splits option.splits if_splits)
    then show ?thesis
      using build_flows_lookup [of segs] assms ok map_of_permuted [OF assms] by (intro ext) simp
  qed
  then show ?thesis using acc by (simp add: registry_flow_def)
qed

theorem parse_order_independent_witness:
  "\<exists>r. build_registry (example_doc\<lparr>DFlows := [(''checkout'', example_flow_doc)]\<rparr>) = Inr r"
proof -
  have "\<exists>r. build_registry example_doc = Inr r"
    using example_accepted by (cases "build_registry example_doc") auto
  moreover have "map_ok (DFlows example_doc)" by (simp add: map_ok_def example_doc_def)
  ultimately show ?thesis
    using parse_order_independent [of example_doc "[(''checkout'', example_flow_doc)]"]
    by (simp add: example_doc_def)
qed

end
