(* ===== verification/Dedup.thy ===== *)
theory Dedup
  imports Prelude
begin

text \<open>
  The de-duplication set of the emitter (\<open>twoGenSet\<close> in \<open>emit/emitter.go\<close>), the contract the
  emitter relies on, stated as a locale, and the interpretation of that contract on the code's
  set. The contract has two halves: a key reported as seen was recorded before, and a key stays
  recorded for as many further new keys as the set's capacity.
\<close>

section \<open>The set\<close>

text \<open>Two generations of keys; a nil previous generation is \<open>None\<close>.\<close>

record two_gen_set =
  gen_cap :: nat
  gen_cur :: "string list"
  gen_prev :: "string list option"

definition new_two_gen_set :: "nat \<Rightarrow> two_gen_set" where
  "new_two_gen_set capacity = \<lparr>gen_cap = capacity, gen_cur = [], gen_prev = None\<rparr>"

definition seen :: "string \<Rightarrow> two_gen_set \<Rightarrow> bool \<times> two_gen_set" where
  "seen key t =
     (if key \<in> set (gen_cur t) then (True, t)
      else if (case gen_prev t of None \<Rightarrow> False | Some p \<Rightarrow> key \<in> set p) then (True, t)
      else
        (let t' = (if length (gen_cur t) \<ge> gen_cap t then t\<lparr>gen_prev := Some (gen_cur t), gen_cur := []\<rparr> else t)
         in (False, t'\<lparr>gen_cur := key # gen_cur t'\<rparr>)))"

section \<open>The contract\<close>

text \<open>
  \<open>recent s\<close> is what the set remembers and \<open>life k s\<close> how many further new keys it is sure to
  remember \<open>k\<close> for.
\<close>

locale dedup_set =
  fixes look :: "'k \<Rightarrow> 's \<Rightarrow> bool \<times> 's"
    and recent :: "'s \<Rightarrow> 'k set"
    and life :: "'k \<Rightarrow> 's \<Rightarrow> nat"
    and capacity :: "'s \<Rightarrow> nat"
    and ok :: "'s \<Rightarrow> bool"
  assumes hit: "fst (look k s) \<longleftrightarrow> k \<in> recent s"
    and hit_state: "k \<in> recent s \<Longrightarrow> snd (look k s) = s"
    and miss_sound: "recent (snd (look k s)) \<subseteq> insert k (recent s)"
    and ok_look: "ok s \<Longrightarrow> ok (snd (look k s))"
    and capacity_look: "capacity (snd (look k s)) = capacity s"
    and miss_life: "ok s \<Longrightarrow> k \<notin> recent s \<Longrightarrow> capacity s \<le> life k (snd (look k s))"
    and life_recent: "ok s \<Longrightarrow> 0 < life k s \<Longrightarrow> k \<in> recent s"
    and life_step: "ok s \<Longrightarrow> k \<in> recent s \<Longrightarrow> j \<notin> recent s \<Longrightarrow> life k s - 1 \<le> life k (snd (look j s))"
begin

text \<open>Presenting a list of keys one after the other.\<close>

abbreviation after :: "'k list \<Rightarrow> 's \<Rightarrow> 's" where
  "after ks s \<equiv> fold (\<lambda>k s. snd (look k s)) ks s"

lemma after_recent: "recent (after ks s) \<subseteq> set ks \<union> recent s"
proof (induction ks arbitrary: s)
  case (Cons k ks)
  have "recent (after ks (snd (look k s))) \<subseteq> set ks \<union> recent (snd (look k s))" by (rule Cons.IH)
  also have "\<dots> \<subseteq> set (k # ks) \<union> recent s" using miss_sound [of k s] by auto
  finally show ?case by simp
qed simp

lemma suppressed_seen_before:
  assumes "recent s = {}" "fst (look k (after ks s))"
  shows "k \<in> set ks"
  using assms after_recent [of ks s] hit [of k "after ks s"] by auto

lemma ok_after: "ok s \<Longrightarrow> ok (after ks s)"
  by (induction ks arbitrary: s) (simp_all add: ok_look)

lemma capacity_after: "capacity (after ks s) = capacity s"
  by (induction ks arbitrary: s) (simp_all add: capacity_look)

lemma life_after: "ok s \<Longrightarrow> length ks < life k s \<Longrightarrow> life k s - length ks \<le> life k (after ks s)"
proof (induction ks arbitrary: s)
  case (Cons j js)
  have k: "k \<in> recent s" using Cons.prems life_recent by simp
  have l: "life k s - 1 \<le> life k (snd (look j s))"
    using life_step [OF Cons.prems(1) k] hit_state [of j s] by (cases "j \<in> recent s") simp_all
  then have "length js < life k (snd (look j s))" using Cons.prems by simp
  from Cons.IH [OF ok_look [OF Cons.prems(1)] this] show ?case using l by simp
qed simp

text \<open>A repeat within the capacity is always recognised.\<close>

lemma repeat_recognised:
  assumes "ok s" "length ks < capacity s"
  shows "fst (look k (after ks (snd (look k s)))) \<or> k \<in> recent s"
proof (cases "k \<in> recent s")
  case False
  let ?s = "snd (look k s)"
  have c: "capacity s \<le> life k ?s" using miss_life assms(1) False by simp
  have "0 < life k (after ks ?s)"
    using life_after [OF ok_look [OF assms(1)], of ks k k] c assms(2) by simp
  then show ?thesis
    using life_recent ok_after ok_look assms(1) hit by simp
qed simp

end

section \<open>The code's set keeps the contract\<close>

definition remembered :: "two_gen_set \<Rightarrow> string set" where
  "remembered t = set (gen_cur t) \<union> (case gen_prev t of None \<Rightarrow> {} | Some p \<Rightarrow> set p)"

definition gen_ok :: "two_gen_set \<Rightarrow> bool" where
  "gen_ok t \<longleftrightarrow> 0 < gen_cap t \<and> length (gen_cur t) \<le> gen_cap t"

text \<open>A key of the younger generation outlives a whole generation; one of the older, the rest of it.\<close>

definition key_life :: "string \<Rightarrow> two_gen_set \<Rightarrow> nat" where
  "key_life k t =
     (if k \<in> set (gen_cur t) then (gen_cap t - length (gen_cur t)) + gen_cap t + 1
      else if k \<in> remembered t then gen_cap t - length (gen_cur t) + 1
      else 0)"

lemma seen_iff: "fst (seen k t) \<longleftrightarrow> k \<in> remembered t"
  by (auto simp: seen_def remembered_def Let_def split: option.splits)

lemma seen_hit_state: "k \<in> remembered t \<Longrightarrow> snd (seen k t) = t"
  by (auto simp: seen_def remembered_def Let_def split: option.splits)

lemma remembered_fold: "(case gen_prev t of None \<Rightarrow> False | Some p \<Rightarrow> k \<in> set p) \<or> k \<in> set (gen_cur t) \<longleftrightarrow> k \<in> remembered t"
  by (auto simp: remembered_def split: option.splits)

lemma seen_miss_state:
  assumes "k \<notin> remembered t"
  shows "snd (seen k t) =
     (if length (gen_cur t) \<ge> gen_cap t then t\<lparr>gen_prev := Some (gen_cur t), gen_cur := [k]\<rparr> else t\<lparr>gen_cur := k # gen_cur t\<rparr>)"
  using assms by (auto simp: seen_def remembered_def Let_def split: option.splits)

interpretation two_gen: dedup_set seen remembered key_life gen_cap gen_ok
proof unfold_locales
  fix k j :: string and s :: two_gen_set
  show "fst (seen k s) \<longleftrightarrow> k \<in> remembered s" by (rule seen_iff)
  show "k \<in> remembered s \<Longrightarrow> snd (seen k s) = s" by (rule seen_hit_state)
  show "remembered (snd (seen k s)) \<subseteq> insert k (remembered s)"
    by (cases "k \<in> remembered s") (auto simp: seen_hit_state seen_miss_state remembered_def split: option.splits)
  show "gen_ok s \<Longrightarrow> gen_ok (snd (seen k s))"
    by (cases "k \<in> remembered s") (auto simp: seen_hit_state seen_miss_state gen_ok_def)
  show "gen_cap (snd (seen k s)) = gen_cap s"
    by (cases "k \<in> remembered s") (auto simp: seen_hit_state seen_miss_state)
  show "gen_ok s \<Longrightarrow> k \<notin> remembered s \<Longrightarrow> gen_cap s \<le> key_life k (snd (seen k s))"
    by (auto simp: seen_miss_state key_life_def gen_ok_def)
  show "gen_ok s \<Longrightarrow> 0 < key_life k s \<Longrightarrow> k \<in> remembered s"
    by (auto simp: key_life_def remembered_def split: if_splits)
  show "gen_ok s \<Longrightarrow> k \<in> remembered s \<Longrightarrow> j \<notin> remembered s \<Longrightarrow>
      key_life k s - 1 \<le> key_life k (snd (seen j s))"
    by (auto simp: seen_miss_state key_life_def gen_ok_def remembered_def split: option.splits)
qed

section \<open>Properties\<close>

text \<open>the emitter's de-duplication never suppresses a key it has not been given before, and a
  key it let through is recognised again within the next \<open>n\<close> presentations, whatever the keys in
  between; \<open>n\<close> is the capacity of one generation.\<close>

theorem two_gen_dedup:
  assumes "0 < n"
  shows "(fst (seen k (fold (\<lambda>k t. snd (seen k t)) ks (new_two_gen_set n))) \<longrightarrow> k \<in> set ks)
     \<and> (\<not> fst (seen k (fold (\<lambda>k t. snd (seen k t)) ks (new_two_gen_set n))) \<and> length between < n \<longrightarrow>
          fst (seen k (fold (\<lambda>k t. snd (seen k t)) (ks @ k # between) (new_two_gen_set n))))"
proof -
  have fresh: "remembered (new_two_gen_set n) = {}" "gen_ok (new_two_gen_set n)"
    using assms by (simp_all add: new_two_gen_set_def remembered_def gen_ok_def)
  let ?s = "fold (\<lambda>k t. snd (seen k t)) ks (new_two_gen_set n)"
  have "gen_ok ?s" "gen_cap ?s = n"
    using two_gen.ok_after [OF fresh(2)] two_gen.capacity_after [of ks "new_two_gen_set n"]
    by (simp_all add: new_two_gen_set_def)
  then show ?thesis
    using two_gen.suppressed_seen_before [OF fresh(1)] two_gen.repeat_recognised [of ?s between k]
    by (auto simp: seen_iff)
qed

theorem two_gen_dedup_witness:
  "fst (seen ''a'' (fold (\<lambda>k t. snd (seen k t)) [''a'', ''b''] (new_two_gen_set 2)))"
proof -
  have "\<not> fst (seen ''a'' (new_two_gen_set 2))" by code_simp
  then show ?thesis using two_gen_dedup [of 2 "''a''" "[]" "[''b'']"] by simp
qed

end
