(* ===== verification/Emit.thy ===== *)
theory Emit
  imports Biz_Baggage Registry Dedup
begin

text \<open>
  \<open>emit/emit.go\<close> and \<open>emit/emitter.go\<close>: the standard emitter. Each critical section of the code
  is one function on the emitter's state; the handlers compose them in the order the code runs
  them. Logging has no effect on the state and is left out; the exporter, the clock and the
  trace id of a context are parameters.
\<close>

section \<open>Points and buckets\<close>

definition age_lt1m :: string where "age_lt1m = ''lt1m''"
definition age_1m_5m :: string where "age_1m_5m = ''1m-5m''"
definition age_5m_30m :: string where "age_5m_30m = ''5m-30m''"
definition age_30m_2h :: string where "age_30m_2h = ''30m-2h''"
definition age_gt2h :: string where "age_gt2h = ''gt2h''"

definition age_buckets :: "string list" where
  "age_buckets = [age_lt1m, age_1m_5m, age_5m_30m, age_30m_2h, age_gt2h]"

lemmas age_defs = age_lt1m_def age_1m_5m_def age_5m_30m_def age_30m_2h_def age_gt2h_def

definition provider_call_outcomes :: "string list" where
  "provider_call_outcomes = [''success'', ''failed'']"

definition provider_other :: string where "provider_other = ''other''"

record metric_point =
  PName :: string
  PLabels :: "(string, string) gomap"
  PValue :: i64
  PAt :: time

definition txn_total :: string where "txn_total = ''biz_txn_total''"
definition value_total :: string where "value_total = ''biz_value_total''"
definition inflight_value :: string where "inflight_value = ''biz_inflight_value''"
definition inflight_count :: string where "inflight_count = ''biz_inflight_count''"
definition provider_calls_total :: string where "provider_calls_total = ''biz_provider_calls_total''"
definition dropped_total :: string where "dropped_total = ''biz_dropped_events_total''"

lemmas family_defs = txn_total_def value_total_def inflight_value_def inflight_count_def
  provider_calls_total_def dropped_total_def

section \<open>The emitter\<close>

record emitter =
  em_reg :: registry
  buf_size :: nat
  metrics_cap :: nat
  pair_cap :: nat
  events :: "outcome list"
  metrics :: "metric_point list"
  drop_counts :: "(string, i64) gomap"
  metric_overflow :: i64
  dedup :: two_gen_set
  provider_pairs :: "string list"

datatype new_error = BufferSize int | PairCap int

definition new_emitter :: "registry \<Rightarrow> int \<Rightarrow> int \<Rightarrow> new_error + emitter" where
  "new_emitter reg bufs pairs =
     (if bufs < 1 then Inl (BufferSize bufs)
      else if pairs < 1 then Inl (PairCap pairs)
      else Inr \<lparr>em_reg = reg, buf_size = nat bufs, metrics_cap = 8 * nat bufs, pair_cap = nat pairs,
             events = [], metrics = [], drop_counts = [], metric_overflow = 0,
             dedup = new_two_gen_set 65536, provider_pairs = []\<rparr>)"

definition drop_invalid :: "emitter \<Rightarrow> emitter" where
  "drop_invalid s = s\<lparr>drop_counts := map_add ''invalid'' 1 (drop_counts s)\<rparr>"

fun append_metrics :: "metric_point list \<Rightarrow> emitter \<Rightarrow> emitter" where
  "append_metrics [] s = s"
| "append_metrics (p # ps) s =
     (if length (metrics s) \<ge> metrics_cap s
      then append_metrics ps (s\<lparr>metric_overflow := metric_overflow s + 1\<rparr>)
      else append_metrics ps (s\<lparr>metrics := metrics s @ [p]\<rparr>))"

text \<open>The label fences.\<close>

definition unregistered :: string where "unregistered = ''unregistered''"

definition flow_stage_labels :: "registry \<Rightarrow> string \<Rightarrow> string \<Rightarrow> string \<times> string" where
  "flow_stage_labels reg flow stage =
     (let (f, ok) = registry_flow reg flow in
      if ok then (flow, if stage_valid f stage then stage else unregistered)
      else (unregistered, unregistered))"

definition segment_label :: "registry \<Rightarrow> string \<Rightarrow> string" where
  "segment_label reg segment =
     (if segment = [] then [] else if segment_valid reg segment then segment else [])"

text \<open>Options of one call, applied in order.\<close>

record record_config =
  CSource :: string
  CErr :: string
  CAt :: time

definition with_source :: "string \<Rightarrow> record_config \<Rightarrow> record_config" where
  "with_source src c = c\<lparr>CSource := src\<rparr>"
definition with_err :: "string \<Rightarrow> record_config \<Rightarrow> record_config" where
  "with_err e c = c\<lparr>CErr := e\<rparr>"
definition with_at :: "time \<Rightarrow> record_config \<Rightarrow> record_config" where
  "with_at t c = c\<lparr>CAt := t\<rparr>"

definition zero_config :: record_config where
  "zero_config = \<lparr>CSource = [], CErr = [], CAt = zero_time\<rparr>"

definition build_outcome ::
  "time \<Rightarrow> string option \<Rightarrow> value_context \<Rightarrow> string \<Rightarrow> string \<Rightarrow> (record_config \<Rightarrow> record_config) list \<Rightarrow> outcome" where
  "build_outcome now trace vc stage result opts =
     (let cfg = fold (\<lambda>opt c. opt c) opts zero_config
      in \<lparr>At = (if is_zero_time (CAt cfg) then now else CAt cfg), VC = vc, Stage = stage,
          Result = result, Source = CSource cfg,
          TraceID = (case trace of None \<Rightarrow> [] | Some t \<Rightarrow> t), Err = CErr cfg\<rparr>)"

definition nul :: string where "nul = [CHR 0x00]"

definition dedup_key :: "outcome \<Rightarrow> string" where
  "dedup_key out = Flow (VC out) @ nul @ EntityID (VC out) @ nul @ Stage out @ nul @ Result out"

text \<open>The admission of a validated outcome, under the lock.\<close>

datatype admission = Overflowed | Suppressed | Admitted

definition admit :: "outcome \<Rightarrow> emitter \<Rightarrow> admission \<times> emitter" where
  "admit out s =
     (if length (events s) \<ge> buf_size s
      then (Overflowed, s\<lparr>drop_counts := map_add ''overflow'' 1 (drop_counts s)\<rparr>)
      else
        (let (dup, d) = seen (dedup_key out) (dedup s) in
         if dup then (Suppressed, s\<lparr>dedup := d\<rparr>)
         else (Admitted, s\<lparr>dedup := d, events := events s @ [out]\<rparr>)))"

definition outcome_points :: "registry \<Rightarrow> outcome \<Rightarrow> metric_point list" where
  "outcome_points reg out =
     (let vc = VC out;
          (flow_l, stage_l) = flow_stage_labels reg (Flow vc) (Stage out);
          seg_l = segment_label reg (Segment vc);
          txn = \<lparr>PName = txn_total,
                 PLabels = [(''flow'', flow_l), (''stage'', stage_l), (''outcome'', Result out),
                            (''currency'', Currency (Money vc)), (''segment'', seg_l)],
                 PValue = 1, PAt = At out\<rparr>
      in if Estimated vc then [txn]
         else [\<lparr>PName = value_total,
                 PLabels = [(''flow'', flow_l), (''stage'', stage_l), (''outcome'', Result out),
                            (''currency'', Currency (Money vc)), (''kind'', Kind vc),
                            (''segment'', seg_l)],
                 PValue = Amount (Money vc), PAt = At out\<rparr>, txn])"

definition record_outcome :: "outcome \<Rightarrow> emitter \<Rightarrow> emitter" where
  "record_outcome out s =
     (if outcome_validate out \<noteq> None then drop_invalid s
      else
        (let (res, s') = admit out s in
         case res of
           Admitted \<Rightarrow> append_metrics (outcome_points (em_reg s') out) s'
         | _ \<Rightarrow> s'))"

definition record_call ::
  "('ctx \<Rightarrow> string \<Rightarrow> string \<times> string) \<Rightarrow> ('ctx \<Rightarrow> string option) \<Rightarrow> time \<Rightarrow> 'ctx \<Rightarrow> string \<Rightarrow> string
     \<Rightarrow> (record_config \<Rightarrow> record_config) list \<Rightarrow> emitter \<Rightarrow> emitter" where
  "record_call member_of trace_of now ctx stage result opts s =
     (case from_context member_of ctx of
        Present vc \<Rightarrow> record_outcome (build_outcome now (trace_of ctx) vc stage result opts) s
      | _ \<Rightarrow> drop_invalid s)"

definition inflight_points ::
  "registry \<Rightarrow> time \<Rightarrow> string \<Rightarrow> string \<Rightarrow> string \<Rightarrow> money \<Rightarrow> i64 \<Rightarrow> metric_point list" where
  "inflight_points reg now flow stage bucket m n =
     (let (flow_l, stage_l) = flow_stage_labels reg flow stage;
          labels = [(''flow'', flow_l), (''stage'', stage_l), (''age_bucket'', bucket),
                    (''currency'', Currency m)]
      in [\<lparr>PName = inflight_value, PLabels = labels, PValue = Amount m, PAt = now\<rparr>,
          \<lparr>PName = inflight_count, PLabels = labels, PValue = n, PAt = now\<rparr>])"

definition set_in_flight ::
  "time \<Rightarrow> string \<Rightarrow> string \<Rightarrow> string \<Rightarrow> money \<Rightarrow> i64 \<Rightarrow> emitter \<Rightarrow> emitter" where
  "set_in_flight now flow stage bucket m n s =
     (if bucket \<notin> set age_buckets \<or> money_validate m \<noteq> None \<or> sint n < 0 then drop_invalid s
      else append_metrics (inflight_points (em_reg s) now flow stage bucket m n) s)"

text \<open>Provider calls.\<close>

definition valid_provider_outcome :: "string \<Rightarrow> bool" where
  "valid_provider_outcome out \<longleftrightarrow> out \<in> set provider_call_outcomes"

definition bounded_provider_label :: "string \<Rightarrow> bool" where
  "bounded_provider_label v \<longleftrightarrow>
     \<not> (trim_space v = [] \<or> length v > 64 \<or> \<not> valid_utf8 v)
     \<and> list_all (\<lambda>r. \<not> is_control r) (rune_values v)"

definition provider_pair_labels :: "string \<Rightarrow> string \<Rightarrow> emitter \<Rightarrow> (string \<times> string) \<times> emitter" where
  "provider_pair_labels provider op s =
     (let key = provider @ nul @ op in
      if key \<in> set (provider_pairs s) then ((provider, op), s)
      else if length (provider_pairs s) \<ge> pair_cap s then ((provider_other, provider_other), s)
      else ((provider, op), s\<lparr>provider_pairs := key # provider_pairs s\<rparr>))"

definition provider_point :: "time \<Rightarrow> string \<times> string \<Rightarrow> string \<Rightarrow> metric_point" where
  "provider_point now labels out =
     \<lparr>PName = provider_calls_total,
      PLabels = [(''provider'', fst labels), (''op'', snd labels), (''outcome'', out)],
      PValue = 1, PAt = now\<rparr>"

definition record_provider_call :: "time \<Rightarrow> string \<Rightarrow> string \<Rightarrow> string \<Rightarrow> emitter \<Rightarrow> emitter" where
  "record_provider_call now provider op out s =
     (if \<not> valid_provider_outcome out \<or> \<not> bounded_provider_label provider \<or> \<not> bounded_provider_label op
      then drop_invalid s
      else
        (let (labels, s') = provider_pair_labels provider op s
         in append_metrics [provider_point now labels out] s'))"

section \<open>Flushing\<close>

definition drop_points :: "(string \<Rightarrow> time) \<Rightarrow> (string, i64) gomap \<Rightarrow> metric_point list" where
  "drop_points clock counts =
     map (\<lambda>(reason, n). \<lparr>PName = dropped_total, PLabels = [(''reason'', reason)], PValue = n,
                         PAt = clock reason\<rparr>) counts"

text \<open>The first critical section takes everything that is pending.\<close>

definition flush_take ::
  "(string \<Rightarrow> time) \<Rightarrow> emitter \<Rightarrow> (outcome list \<times> metric_point list) \<times> emitter" where
  "flush_take clock s =
     ((events s, metrics s @ drop_points clock (drop_counts s)),
      s\<lparr>events := [], metrics := [], metric_overflow := 0, drop_counts := []\<rparr>)"

definition count_export_drop :: "outcome list \<Rightarrow> emitter \<Rightarrow> emitter" where
  "count_export_drop evs s =
     s\<lparr>drop_counts := map_add ''export'' (word_of_int (int (length evs))) (drop_counts s)\<rparr>"

definition recredit :: "metric_point list \<Rightarrow> emitter \<Rightarrow> emitter" where
  "recredit ms s =
     s\<lparr>drop_counts := fold (\<lambda>p m. map_add (map_get [] (PLabels p) ''reason'') (PValue p) m)
          [p \<leftarrow> ms. PName p = dropped_total] (drop_counts s)\<rparr>"

text \<open>
  The exporter's answers are the parameters: \<open>None\<close> is a nil error. Nothing is exported when there
  is nothing to export.
\<close>

definition flush ::
  "(outcome list \<Rightarrow> 'e option) \<Rightarrow> (metric_point list \<Rightarrow> 'e option) \<Rightarrow> (string \<Rightarrow> time) \<Rightarrow> emitter
     \<Rightarrow> 'e option \<times> emitter" where
  "flush export_events export_metrics clock s =
     (let ((evs, ms), s1) = flush_take clock s;
          err1 = (if evs = [] then None else export_events evs);
          s2 = (if err1 = None then s1 else count_export_drop evs s1);
          err2 = (if ms = [] then None else export_metrics ms);
          s3 = (if err2 = None then s2 else recredit ms s2)
      in (if err1 \<noteq> None then err1 else err2, s3))"

text \<open>
  \<open>Close\<close>: the first call flushes twice (the second flush ships what the first one counted) and
  shuts the exporter down, and its joined errors are what every later call returns. Each flush
  meets its own exporter behaviour.
\<close>

definition close_emitter ::
  "(nat \<Rightarrow> outcome list \<Rightarrow> 'e option) \<Rightarrow> (nat \<Rightarrow> metric_point list \<Rightarrow> 'e option) \<Rightarrow> 'e option
     \<Rightarrow> (string \<Rightarrow> time) \<Rightarrow> emitter \<times> 'e list option \<Rightarrow> 'e list \<times> emitter \<times> 'e list option" where
  "close_emitter export_events export_metrics shutdown clock st =
     (case snd st of
        Some errs \<Rightarrow> (errs, st)
      | None \<Rightarrow>
          (let (e1, s1) = flush (export_events 0) (export_metrics 0) clock (fst st);
               (e2, s2) = flush (export_events 1) (export_metrics 1) clock s1;
               errs = List.map_filter id [e1, e2, shutdown]
           in (errs, s2, Some errs)))"

end
