(* ===== verification/Emit_Steps.thy ===== *)
theory Emit_Steps
  imports Emit "HOL-Library.Multiset"
begin

text \<open>
  The emitter under concurrency. A goroutine holds the lock of \<open>emit/emitter.go\<close> only inside one
  critical section at a time, so a run is a sequence of critical sections of many calls: the
  admission of an outcome, the append of its points later, the three sections of a flush. A state
  of the system is the emitter with the work that is between two sections, and counters of what
  has happened, which the code does not keep.
\<close>

section \<open>The system\<close>

datatype flush_task = TakenBoth "outcome list" "metric_point list" | TakenMetrics "metric_point list"

record system =
  em :: emitter
  appending :: "metric_point list multiset"
  flushing :: "flush_task multiset"
  n_invalid :: nat
  n_overflow :: nat
  admitted :: "outcome multiset"
  delivered :: "outcome multiset"
  lost :: "outcome multiset"
  shipped :: "metric_point list"

definition initial :: "emitter \<Rightarrow> system" where
  "initial e = \<lparr>em = e, appending = {#}, flushing = {#}, n_invalid = 0, n_overflow = 0,
     admitted = {#}, delivered = {#}, lost = {#}, shipped = []\<rparr>"

inductive step :: "system \<Rightarrow> system \<Rightarrow> bool" where
  invalid:
    "step \<sigma> (\<sigma>\<lparr>em := drop_invalid (em \<sigma>), n_invalid := n_invalid \<sigma> + 1\<rparr>)"
| overflow:
    "admit out (em \<sigma>) = (Overflowed, s) \<Longrightarrow>
     step \<sigma> (\<sigma>\<lparr>em := s, n_overflow := n_overflow \<sigma> + 1\<rparr>)"
| suppress:
    "admit out (em \<sigma>) = (Suppressed, s) \<Longrightarrow> step \<sigma> (\<sigma>\<lparr>em := s\<rparr>)"
| admit:
    "outcome_validate out = None \<Longrightarrow> admit out (em \<sigma>) = (Admitted, s) \<Longrightarrow>
     step \<sigma> (\<sigma>\<lparr>em := s, admitted := add_mset out (admitted \<sigma>),
               appending := add_mset (outcome_points (em_reg s) out) (appending \<sigma>)\<rparr>)"
| in_flight:
    "bucket \<in> set age_buckets \<Longrightarrow> money_validate m = None \<Longrightarrow> 0 \<le> sint n \<Longrightarrow>
     step \<sigma> (\<sigma>\<lparr>appending := add_mset (inflight_points (em_reg (em \<sigma>)) now flow stage bucket m n)
                             (appending \<sigma>)\<rparr>)"
| provider:
    "valid_provider_outcome res \<Longrightarrow> bounded_provider_label provider \<Longrightarrow> bounded_provider_label op \<Longrightarrow>
     provider_pair_labels provider op (em \<sigma>) = (ls, s) \<Longrightarrow>
     step \<sigma> (\<sigma>\<lparr>em := s, appending := add_mset [provider_point now ls res] (appending \<sigma>)\<rparr>)"
| append:
    "ps \<in># appending \<sigma> \<Longrightarrow>
     step \<sigma> (\<sigma>\<lparr>em := append_metrics ps (em \<sigma>), appending := appending \<sigma> - {#ps#}\<rparr>)"
| take:
    "flush_take clock (em \<sigma>) = ((evs, ms), s) \<Longrightarrow>
     step \<sigma> (\<sigma>\<lparr>em := s, flushing := add_mset (TakenBoth evs ms) (flushing \<sigma>)\<rparr>)"
| events_ok:
    "TakenBoth evs ms \<in># flushing \<sigma> \<Longrightarrow>
     step \<sigma> (\<sigma>\<lparr>flushing := add_mset (TakenMetrics ms) (flushing \<sigma> - {#TakenBoth evs ms#}),
               delivered := mset evs + delivered \<sigma>\<rparr>)"
| events_failed:
    "TakenBoth evs ms \<in># flushing \<sigma> \<Longrightarrow> evs \<noteq> [] \<Longrightarrow>
     step \<sigma> (\<sigma>\<lparr>em := count_export_drop evs (em \<sigma>),
               flushing := add_mset (TakenMetrics ms) (flushing \<sigma> - {#TakenBoth evs ms#}),
               lost := mset evs + lost \<sigma>\<rparr>)"
| metrics_ok:
    "TakenMetrics ms \<in># flushing \<sigma> \<Longrightarrow>
     step \<sigma> (\<sigma>\<lparr>flushing := flushing \<sigma> - {#TakenMetrics ms#}, shipped := shipped \<sigma> @ ms\<rparr>)"
| metrics_failed:
    "TakenMetrics ms \<in># flushing \<sigma> \<Longrightarrow> ms \<noteq> [] \<Longrightarrow>
     step \<sigma> (\<sigma>\<lparr>em := recredit ms (em \<sigma>), flushing := flushing \<sigma> - {#TakenMetrics ms#}\<rparr>)"

definition reachable :: "registry \<Rightarrow> int \<Rightarrow> int \<Rightarrow> system \<Rightarrow> bool" where
  "reachable reg bufs pairs \<sigma> \<longleftrightarrow>
     (\<exists>e. new_emitter reg bufs pairs = Inr e \<and> step\<^sup>*\<^sup>* (initial e) \<sigma>)"

lemma reachable_induct [consumes 1, case_names start step]:
  assumes "reachable reg bufs pairs \<sigma>"
    and "\<And>e. new_emitter reg bufs pairs = Inr e \<Longrightarrow> P (initial e)"
    and "\<And>\<sigma> \<sigma>'. reachable reg bufs pairs \<sigma> \<Longrightarrow> P \<sigma> \<Longrightarrow> step \<sigma> \<sigma>' \<Longrightarrow> P \<sigma>'"
  shows "P \<sigma>"
proof -
  obtain e where e: "new_emitter reg bufs pairs = Inr e" and run: "step\<^sup>*\<^sup>* (initial e) \<sigma>"
    using assms(1) by (auto simp: reachable_def)
  from run show ?thesis
  proof (induction rule: rtranclp_induct)
    case base
    then show ?case using assms(2) e by blast
  next
    case (step \<sigma> \<sigma>')
    then show ?case using assms(3) e by (auto simp: reachable_def)
  qed
qed

section \<open>What the critical sections do\<close>

lemma append_metrics_fields [simp]:
  "events (append_metrics ps s) = events s" "drop_counts (append_metrics ps s) = drop_counts s"
  "em_reg (append_metrics ps s) = em_reg s" "buf_size (append_metrics ps s) = buf_size s"
  "metrics_cap (append_metrics ps s) = metrics_cap s" "pair_cap (append_metrics ps s) = pair_cap s"
  "provider_pairs (append_metrics ps s) = provider_pairs s" "dedup (append_metrics ps s) = dedup s"
  by (induction ps s rule: append_metrics.induct) simp_all

lemma append_metrics_metrics: "set (metrics (append_metrics ps s)) \<subseteq> set (metrics s) \<union> set ps"
  by (induction ps s rule: append_metrics.induct) auto

lemma append_metrics_bound: "length (metrics s) \<le> metrics_cap s \<Longrightarrow>
    length (metrics (append_metrics ps s)) \<le> metrics_cap s"
  by (induction ps s rule: append_metrics.induct) auto

lemma drop_invalid_fields [simp]:
  "events (drop_invalid s) = events s" "metrics (drop_invalid s) = metrics s"
  "em_reg (drop_invalid s) = em_reg s" "buf_size (drop_invalid s) = buf_size s"
  "metrics_cap (drop_invalid s) = metrics_cap s" "pair_cap (drop_invalid s) = pair_cap s"
  "provider_pairs (drop_invalid s) = provider_pairs s"
  "drop_counts (drop_invalid s) = map_add ''invalid'' 1 (drop_counts s)"
  by (simp_all add: drop_invalid_def)

lemma count_export_drop_fields [simp]:
  "events (count_export_drop evs s) = events s" "metrics (count_export_drop evs s) = metrics s"
  "em_reg (count_export_drop evs s) = em_reg s" "buf_size (count_export_drop evs s) = buf_size s"
  "metrics_cap (count_export_drop evs s) = metrics_cap s"
  "pair_cap (count_export_drop evs s) = pair_cap s"
  "provider_pairs (count_export_drop evs s) = provider_pairs s"
  "drop_counts (count_export_drop evs s) = map_add ''export'' (of_nat (length evs)) (drop_counts s)"
  by (simp_all add: count_export_drop_def)

lemma recredit_fields [simp]:
  "events (recredit ms s) = events s" "metrics (recredit ms s) = metrics s"
  "em_reg (recredit ms s) = em_reg s" "buf_size (recredit ms s) = buf_size s"
  "metrics_cap (recredit ms s) = metrics_cap s" "pair_cap (recredit ms s) = pair_cap s"
  "provider_pairs (recredit ms s) = provider_pairs s"
  by (simp_all add: recredit_def)

text \<open>An admission, case by case.\<close>

lemma admit_Overflowed:
  "admit out s = (Overflowed, s') \<longleftrightarrow> buf_size s \<le> length (events s)
     \<and> s' = s\<lparr>drop_counts := map_add ''overflow'' 1 (drop_counts s)\<rparr>"
  by (auto simp: admit_def Let_def split: prod.splits)

lemma admit_Suppressed:
  "admit out s = (Suppressed, s') \<Longrightarrow> \<exists>d. s' = s\<lparr>dedup := d\<rparr>"
  by (auto simp: admit_def Let_def split: prod.splits if_splits)

lemma admit_Admitted:
  "admit out s = (Admitted, s') \<Longrightarrow> length (events s) < buf_size s
     \<and> (\<exists>d. s' = s\<lparr>dedup := d, events := events s @ [out]\<rparr>)"
  by (auto simp: admit_def Let_def split: prod.splits if_splits)

lemma provider_pair_labels_cases:
  assumes "provider_pair_labels provider op s = (ls, s')"
  obtains "s' = s" "ls = (provider, op)" "provider @ nul @ op \<in> set (provider_pairs s)"
  | "s' = s" "ls = (provider_other, provider_other)"
  | "s' = s\<lparr>provider_pairs := (provider @ nul @ op) # provider_pairs s\<rparr>" "ls = (provider, op)"
      "provider @ nul @ op \<notin> set (provider_pairs s)" "length (provider_pairs s) < pair_cap s"
proof (cases "provider @ nul @ op \<in> set (provider_pairs s)")
  case True
  then show ?thesis using assms that(1) by (simp add: provider_pair_labels_def Let_def)
next
  case new: False
  show ?thesis
  proof (cases "pair_cap s \<le> length (provider_pairs s)")
    case True
    then show ?thesis using assms that(2) new by (simp add: provider_pair_labels_def Let_def)
  next
    case False
    then show ?thesis using assms that(3) new by (simp add: provider_pair_labels_def Let_def)
  qed
qed

section \<open>Outcomes are conserved\<close>

fun task_events :: "flush_task \<Rightarrow> outcome multiset" where
  "task_events (TakenBoth evs ms) = mset evs"
| "task_events (TakenMetrics ms) = {#}"

fun task_points :: "flush_task \<Rightarrow> metric_point list" where
  "task_points (TakenBoth evs ms) = ms"
| "task_points (TakenMetrics ms) = ms"

definition outcomes_conserved :: "system \<Rightarrow> bool" where
  "outcomes_conserved \<sigma> \<longleftrightarrow>
     admitted \<sigma> = mset (events (em \<sigma>)) + (\<Sum>t\<in>#flushing \<sigma>. task_events t) + delivered \<sigma> + lost \<sigma>"

lemma sum_task_remove:
  "t \<in># M \<Longrightarrow> (\<Sum>t\<in>#M. f t) = f t + (\<Sum>t\<in>#M - {#t#}. f t)" for f :: "flush_task \<Rightarrow> 'a :: comm_monoid_add"
  by (metis image_mset_add_mset insert_DiffM sum_mset.add_mset)

lemma step_outcomes_conserved: "step \<sigma> \<sigma>' \<Longrightarrow> outcomes_conserved \<sigma> \<Longrightarrow> outcomes_conserved \<sigma>'"
proof (induction rule: step.induct)
  case (overflow out \<sigma> s)
  then show ?case by (auto simp: outcomes_conserved_def admit_Overflowed)
next
  case (suppress out \<sigma> s)
  then show ?case by (auto simp: outcomes_conserved_def dest!: admit_Suppressed)
next
  case (admit out \<sigma> s)
  then show ?case by (auto simp: outcomes_conserved_def dest!: admit_Admitted)
next
  case (provider res p op \<sigma> ls s now)
  from provider(4) show ?case
    by (cases rule: provider_pair_labels_cases) (use provider.prems in \<open>simp_all add: outcomes_conserved_def\<close>)
next
  case (take clock \<sigma> evs ms s)
  then show ?case by (auto simp: outcomes_conserved_def flush_take_def)
next
  case (events_ok evs ms \<sigma>)
  then show ?case by (simp add: outcomes_conserved_def sum_task_remove [OF events_ok.hyps])
next
  case (events_failed evs ms \<sigma>)
  then show ?case by (simp add: outcomes_conserved_def sum_task_remove [OF events_failed.hyps(1)])
next
  case (metrics_ok ms \<sigma>)
  then show ?case by (simp add: outcomes_conserved_def sum_task_remove [OF metrics_ok.hyps])
next
  case (metrics_failed ms \<sigma>)
  then show ?case by (simp add: outcomes_conserved_def sum_task_remove [OF metrics_failed.hyps(1)])
qed (simp_all add: outcomes_conserved_def)

section \<open>Drops are conserved\<close>

definition drop_reason :: "metric_point \<Rightarrow> string" where
  "drop_reason p = map_get [] (PLabels p) ''reason''"

definition drop_sum :: "string \<Rightarrow> metric_point list \<Rightarrow> i64" where
  "drop_sum r ms = sum_i64 [PValue p. p \<leftarrow> ms, PName p = dropped_total \<and> drop_reason p = r]"

text \<open>What has really been dropped for a reason, as the 64-bit counter would read it.\<close>

definition true_drops :: "system \<Rightarrow> string \<Rightarrow> i64" where
  "true_drops \<sigma> r =
     (if r = ''invalid'' then of_nat (n_invalid \<sigma>)
      else if r = ''overflow'' then of_nat (n_overflow \<sigma>)
      else if r = ''export'' then of_nat (size (lost \<sigma>))
      else 0)"

definition drops_conserved :: "system \<Rightarrow> bool" where
  "drops_conserved \<sigma> \<longleftrightarrow>
     map_ok (drop_counts (em \<sigma>))
     \<and> (\<forall>p \<in> set (metrics (em \<sigma>)). PName p \<noteq> dropped_total)
     \<and> (\<forall>ps \<in># appending \<sigma>. \<forall>p \<in> set ps. PName p \<noteq> dropped_total)
     \<and> (\<forall>r. true_drops \<sigma> r = map_get 0 (drop_counts (em \<sigma>)) r
          + (\<Sum>t\<in>#flushing \<sigma>. drop_sum r (task_points t)) + drop_sum r (shipped \<sigma>))"

lemma drop_sum_append [simp]: "drop_sum r (xs @ ys) = drop_sum r xs + drop_sum r ys"
  by (simp add: drop_sum_def)

lemma drop_sum_none: "\<forall>p \<in> set ms. PName p \<noteq> dropped_total \<Longrightarrow> drop_sum r ms = 0"
  by (induction ms) (simp_all add: drop_sum_def)

lemma drop_sum_points:
  "map_ok counts \<Longrightarrow> drop_sum r (drop_points clock counts) = map_get 0 counts r"
proof (induction counts)
  case Nil
  then show ?case by (simp add: drop_points_def drop_sum_def)
next
  case (Cons c cs)
  obtain q n where c: "c = (q, n)" by (cases c)
  have ok: "map_ok cs" "q \<notin> fst ` set cs" using Cons.prems by (simp_all add: map_ok_def c)
  have "map_of cs q = None" using ok(2) by (simp add: map_of_eq_None_iff)
  then show ?case
    using Cons.IH [OF ok(1)]
    by (auto simp: drop_points_def drop_sum_def drop_reason_def c map_get_def)
qed

lemma map_get_recredit:
  "map_get 0 (drop_counts (recredit ms s)) r = map_get 0 (drop_counts s) r + drop_sum r ms"
proof -
  have "[PValue p. p \<leftarrow> [p \<leftarrow> ms. PName p = dropped_total], map_get [] (PLabels p) ''reason'' = r]
      = [PValue p. p \<leftarrow> ms, PName p = dropped_total \<and> drop_reason p = r]"
    by (induction ms) (auto simp: drop_reason_def)
  then show ?thesis by (simp add: recredit_def map_get_fold_add drop_sum_def)
qed

lemma map_ok_recredit: "map_ok (drop_counts s) \<Longrightarrow> map_ok (drop_counts (recredit ms s))"
  by (simp add: recredit_def map_ok_fold_add)

lemma outcome_points_names:
  "p \<in> set (outcome_points reg out) \<Longrightarrow> PName p \<noteq> dropped_total"
  by (auto simp: outcome_points_def Let_def family_defs split: prod.splits if_splits)

lemma inflight_points_names:
  "p \<in> set (inflight_points reg now flow stage bucket m n) \<Longrightarrow> PName p \<noteq> dropped_total"
  by (auto simp: inflight_points_def Let_def family_defs split: prod.splits)

text \<open>Only three updates move the true counts.\<close>

lemma true_drops_same [simp]:
  "true_drops (\<sigma>\<lparr>em := s\<rparr>) r = true_drops \<sigma> r"
  "true_drops (\<sigma>\<lparr>appending := a\<rparr>) r = true_drops \<sigma> r"
  "true_drops (\<sigma>\<lparr>flushing := f\<rparr>) r = true_drops \<sigma> r"
  "true_drops (\<sigma>\<lparr>admitted := x\<rparr>) r = true_drops \<sigma> r"
  "true_drops (\<sigma>\<lparr>delivered := x\<rparr>) r = true_drops \<sigma> r"
  "true_drops (\<sigma>\<lparr>shipped := ms\<rparr>) r = true_drops \<sigma> r"
  by (simp_all add: true_drops_def)

lemma true_drops_moves [simp]:
  "n_invalid \<sigma> = k \<Longrightarrow> true_drops (\<sigma>\<lparr>n_invalid := Suc k\<rparr>) r =
     (if r = ''invalid'' then 1 else 0) + true_drops \<sigma> r"
  "n_overflow \<sigma> = k \<Longrightarrow> true_drops (\<sigma>\<lparr>n_overflow := Suc k\<rparr>) r =
     (if r = ''overflow'' then 1 else 0) + true_drops \<sigma> r"
  "lost \<sigma> = l \<Longrightarrow> true_drops (\<sigma>\<lparr>lost := mset evs + l\<rparr>) r =
     (if r = ''export'' then of_nat (length evs) else 0) + true_drops \<sigma> r"
  "lost \<sigma> = l \<Longrightarrow> true_drops (\<sigma>\<lparr>lost := l + mset evs\<rparr>) r =
     (if r = ''export'' then of_nat (length evs) else 0) + true_drops \<sigma> r"
  by (simp_all add: true_drops_def)

lemma step_drops_conserved: "step \<sigma> \<sigma>' \<Longrightarrow> drops_conserved \<sigma> \<Longrightarrow> drops_conserved \<sigma>'"
proof (induction rule: step.induct)
  case (invalid \<sigma>)
  then show ?case by (auto simp: drops_conserved_def)
next
  case (overflow out \<sigma> s)
  then show ?case by (auto simp: drops_conserved_def admit_Overflowed)
next
  case (suppress out \<sigma> s)
  then show ?case by (auto simp: drops_conserved_def dest!: admit_Suppressed)
next
  case (admit out \<sigma> s)
  then show ?case
    using outcome_points_names
    by (auto simp: drops_conserved_def dest!: admit_Admitted)
next
  case (in_flight bucket m n \<sigma> now flow stage)
  then show ?case
    using inflight_points_names [of _ _ now flow stage bucket m n]
    by (auto simp: drops_conserved_def)
next
  case (provider res p op \<sigma> ls s now)
  have name: "PName (provider_point now ls res) \<noteq> dropped_total"
    by (simp add: provider_point_def family_defs)
  from provider(4) show ?case
    by (cases rule: provider_pair_labels_cases)
      (use provider.prems name in \<open>simp_all add: drops_conserved_def\<close>)
next
  case (append ps \<sigma>)
  then show ?case
    using append_metrics_metrics [of ps "em \<sigma>"]
    by (fastforce simp: drops_conserved_def dest: in_diffD)
next
  case (take clock \<sigma> evs ms s)
  then have "drop_sum r ms = map_get 0 (drop_counts (em \<sigma>)) r" for r
    by (auto simp: drops_conserved_def flush_take_def drop_sum_none drop_sum_points)
  then show ?case
    using take by (auto simp: drops_conserved_def flush_take_def)
next
  case (events_ok evs ms \<sigma>)
  then show ?case
    by (simp add: drops_conserved_def sum_task_remove [OF events_ok.hyps])
next
  case (events_failed evs ms \<sigma>)
  have f: "(\<Sum>t\<in>#flushing \<sigma>. drop_sum r (task_points t))
      = drop_sum r ms + (\<Sum>t\<in>#flushing \<sigma> - {#TakenBoth evs ms#}. drop_sum r (task_points t))" for r
    using sum_task_remove [OF events_failed.hyps(1), of "\<lambda>t. drop_sum r (task_points t)"] by simp
  show ?case
    using events_failed.prems
    by (auto simp: drops_conserved_def f algebra_simps)
next
  case (metrics_ok ms \<sigma>)
  have f: "(\<Sum>t\<in>#flushing \<sigma>. drop_sum r (task_points t))
      = drop_sum r ms + (\<Sum>t\<in>#flushing \<sigma> - {#TakenMetrics ms#}. drop_sum r (task_points t))" for r
    using sum_task_remove [OF metrics_ok.hyps, of "\<lambda>t. drop_sum r (task_points t)"] by simp
  show ?case
    using metrics_ok.prems by (simp add: drops_conserved_def f algebra_simps)
next
  case (metrics_failed ms \<sigma>)
  have f: "(\<Sum>t\<in>#flushing \<sigma>. drop_sum r (task_points t))
      = drop_sum r ms + (\<Sum>t\<in>#flushing \<sigma> - {#TakenMetrics ms#}. drop_sum r (task_points t))" for r
    using sum_task_remove [OF metrics_failed.hyps(1), of "\<lambda>t. drop_sum r (task_points t)"] by simp
  show ?case
    using metrics_failed.prems
    by (simp add: drops_conserved_def f map_get_recredit map_ok_recredit algebra_simps)
qed

section \<open>Bounds and label fences\<close>

definition drop_reasons :: "string list" where
  "drop_reasons = [''invalid'', ''overflow'', ''export'']"

definition flow_label_ok :: "registry \<Rightarrow> string \<Rightarrow> string \<Rightarrow> bool" where
  "flow_label_ok reg fl st \<longleftrightarrow>
     fl = unregistered \<and> st = unregistered
     \<or> (\<exists>f. map_of (flows reg) fl = Some f \<and> (st = unregistered \<or> stage_valid f st))"

definition provider_labels_ok :: "string list \<Rightarrow> string \<times> string \<Rightarrow> bool" where
  "provider_labels_ok pairs = (\<lambda>(pr, op).
     (pr, op) = (provider_other, provider_other)
     \<or> bounded_provider_label pr \<and> bounded_provider_label op \<and> pr @ nul @ op \<in> set pairs)"

text \<open>One predicate per family: exactly its labels, each of them from a closed set.\<close>

definition fenced_outcome :: "registry \<Rightarrow> metric_point \<Rightarrow> bool" where
  "fenced_outcome reg p \<longleftrightarrow>
     (\<exists>fl st seg out cur. flow_label_ok reg fl st \<and> (seg = [] \<or> segment_valid reg seg)
        \<and> result_valid out \<and> \<not> currency_bad cur
        \<and> (PName p = txn_total
             \<and> PLabels p = [(''flow'', fl), (''stage'', st), (''outcome'', out), (''currency'', cur),
                            (''segment'', seg)]
           \<or> (\<exists>k. kind_valid k \<and> PName p = value_total
             \<and> PLabels p = [(''flow'', fl), (''stage'', st), (''outcome'', out), (''currency'', cur),
                            (''kind'', k), (''segment'', seg)])))"

definition fenced_inflight :: "registry \<Rightarrow> metric_point \<Rightarrow> bool" where
  "fenced_inflight reg p \<longleftrightarrow>
     PName p \<in> {inflight_value, inflight_count}
     \<and> (\<exists>fl st b cur. flow_label_ok reg fl st \<and> b \<in> set age_buckets \<and> \<not> currency_bad cur
          \<and> PLabels p = [(''flow'', fl), (''stage'', st), (''age_bucket'', b), (''currency'', cur)])"

definition fenced_provider :: "string list \<Rightarrow> metric_point \<Rightarrow> bool" where
  "fenced_provider pairs p \<longleftrightarrow>
     PName p = provider_calls_total
     \<and> (\<exists>pr op out. provider_labels_ok pairs (pr, op) \<and> valid_provider_outcome out
          \<and> PLabels p = [(''provider'', pr), (''op'', op), (''outcome'', out)])"

definition fenced_drop :: "metric_point \<Rightarrow> bool" where
  "fenced_drop p \<longleftrightarrow> PName p = dropped_total \<and> (\<exists>r \<in> set drop_reasons. PLabels p = [(''reason'', r)])"

definition fenced :: "registry \<Rightarrow> string list \<Rightarrow> metric_point \<Rightarrow> bool" where
  "fenced reg pairs p \<longleftrightarrow>
     fenced_outcome reg p \<or> fenced_inflight reg p \<or> fenced_provider pairs p \<or> fenced_drop p"

lemma provider_labels_mono:
  "provider_labels_ok pairs x \<Longrightarrow> set pairs \<subseteq> set pairs' \<Longrightarrow> provider_labels_ok pairs' x"
  by (auto simp: provider_labels_ok_def)

lemma fenced_mono: "fenced reg pairs p \<Longrightarrow> set pairs \<subseteq> set pairs' \<Longrightarrow> fenced reg pairs' p"
  using provider_labels_mono [of pairs _ pairs'] by (auto simp: fenced_def fenced_provider_def)

lemma flow_stage_labels_ok: "flow_stage_labels reg flow stage = (fl, st) \<Longrightarrow> flow_label_ok reg fl st"
  by (auto simp: flow_stage_labels_def registry_flow_def flow_label_ok_def stage_valid_def
      split: option.splits if_splits)

lemma segment_label_ok: "segment_label reg seg = [] \<or> segment_valid reg (segment_label reg seg)"
  by (simp add: segment_label_def)

lemma outcome_points_fenced:
  assumes "outcome_validate out = None" "p \<in> set (outcome_points reg out)"
  shows "fenced reg pairs p"
proof -
  obtain fl st where l: "flow_stage_labels reg (Flow (VC out)) (Stage out) = (fl, st)"
    by (cases "flow_stage_labels reg (Flow (VC out)) (Stage out)")
  have "result_valid (Result out)" "\<not> currency_bad (Currency (Money (VC out)))" "kind_valid (Kind (VC out))"
    using assms(1) by (simp_all add: outcome_validate_None vc_validate_None money_validate_None)
  then show ?thesis
    using assms(2) flow_stage_labels_ok [OF l] segment_label_ok [of reg "Segment (VC out)"]
    unfolding fenced_def fenced_outcome_def outcome_points_def Let_def l prod.case
    by (intro disjI1) (auto split: if_splits)
qed

lemma inflight_points_fenced:
  assumes "bucket \<in> set age_buckets" "money_validate m = None"
    "p \<in> set (inflight_points reg now flow stage bucket m n)"
  shows "fenced reg pairs p"
proof -
  obtain fl st where l: "flow_stage_labels reg flow stage = (fl, st)"
    by (cases "flow_stage_labels reg flow stage")
  have "\<not> currency_bad (Currency m)" using assms(2) by (simp add: money_validate_None)
  then show ?thesis
    using assms(1,3) flow_stage_labels_ok [OF l]
    unfolding fenced_def fenced_inflight_def inflight_points_def Let_def l prod.case
    by (intro disjI2 disjI1) auto
qed

lemma drop_points_fenced:
  "fst ` set counts \<subseteq> set drop_reasons \<Longrightarrow> p \<in> set (drop_points clock counts) \<Longrightarrow> fenced reg pairs p"
  unfolding fenced_def fenced_drop_def drop_points_def by (intro disjI2) auto

lemma fenced_drop_reason:
  "fenced reg pairs p \<Longrightarrow> PName p = dropped_total \<Longrightarrow> drop_reason p \<in> set drop_reasons"
  by (auto simp: fenced_def fenced_outcome_def fenced_inflight_def fenced_provider_def
      fenced_drop_def family_defs drop_reason_def map_get_def)

definition bounded :: "registry \<Rightarrow> int \<Rightarrow> int \<Rightarrow> emitter \<Rightarrow> bool" where
  "bounded reg bufs pairs s \<longleftrightarrow>
     em_reg s = reg \<and> buf_size s = nat bufs \<and> metrics_cap s = 8 * nat bufs \<and> pair_cap s = nat pairs
     \<and> length (events s) \<le> buf_size s \<and> length (metrics s) \<le> metrics_cap s
     \<and> length (provider_pairs s) \<le> pair_cap s \<and> distinct (provider_pairs s)"

definition all_points :: "system \<Rightarrow> metric_point set" where
  "all_points \<sigma> = set (metrics (em \<sigma>)) \<union> (\<Union>ps \<in> set_mset (appending \<sigma>). set ps)
     \<union> (\<Union>t \<in> set_mset (flushing \<sigma>). set (task_points t)) \<union> set (shipped \<sigma>)"

definition keys_ok :: "(string, i64) gomap \<Rightarrow> bool" where
  "keys_ok counts \<longleftrightarrow> fst ` set counts \<subseteq> set drop_reasons"

definition all_fenced :: "system \<Rightarrow> bool" where
  "all_fenced \<sigma> \<longleftrightarrow>
     (\<forall>p \<in> all_points \<sigma>. fenced (em_reg (em \<sigma>)) (provider_pairs (em \<sigma>)) p)
     \<and> keys_ok (drop_counts (em \<sigma>))"

lemma step_bounded: "step \<sigma> \<sigma>' \<Longrightarrow> bounded reg b p (em \<sigma>) \<Longrightarrow> bounded reg b p (em \<sigma>')"
proof (induction rule: step.induct)
  case (overflow out \<sigma> s)
  then show ?case by (auto simp: bounded_def admit_Overflowed)
next
  case (suppress out \<sigma> s)
  then show ?case by (auto simp: bounded_def dest!: admit_Suppressed)
next
  case (admit out \<sigma> s)
  then show ?case by (auto simp: bounded_def dest!: admit_Admitted)
next
  case (provider res p op \<sigma> ls s now)
  from provider(4) show ?case
    by (cases rule: provider_pair_labels_cases) (use provider.prems in \<open>simp_all add: bounded_def\<close>)
next
  case (append ps \<sigma>)
  then show ?case using append_metrics_bound [of "em \<sigma>" ps] by (simp add: bounded_def)
next
  case (take clock \<sigma> evs ms s)
  then show ?case by (auto simp: bounded_def flush_take_def)
qed (simp_all add: bounded_def)

text \<open>A step adds only fenced points, and never forgets an admitted provider pair.\<close>

lemma step_frame:
  "step \<sigma> \<sigma>' \<Longrightarrow> em_reg (em \<sigma>') = em_reg (em \<sigma>) \<and> set (provider_pairs (em \<sigma>)) \<subseteq> set (provider_pairs (em \<sigma>'))"
proof (induction rule: step.induct)
  case (overflow out \<sigma> s)
  then show ?case by (auto simp: admit_Overflowed)
next
  case (suppress out \<sigma> s)
  then show ?case by (auto dest!: admit_Suppressed)
next
  case (admit out \<sigma> s)
  then show ?case by (auto dest!: admit_Admitted)
next
  case (provider res p op \<sigma> ls s now)
  from provider(4) show ?case by (cases rule: provider_pair_labels_cases) auto
next
  case (take clock \<sigma> evs ms s)
  then show ?case by (auto simp: flush_take_def)
qed simp_all

lemma keys_map_add: "fst ` set (map_add k v m) = insert k (fst ` set m)"
  using map_has_add [of k v m] by (auto simp: map_has_iff)

lemma keys_ok_simps [simp]:
  "keys_ok []" "keys_ok (map_add k v m) \<longleftrightarrow> k \<in> set drop_reasons \<and> keys_ok m"
  by (simp_all add: keys_ok_def keys_map_add)

lemma keys_recredit:
  "fst ` set (drop_counts (recredit ms s)) =
     fst ` set (drop_counts s) \<union> drop_reason ` {p \<in> set ms. PName p = dropped_total}"
  using map_has_fold_add [of "\<lambda>p. map_get [] (PLabels p) ''reason''" PValue "[p \<leftarrow> ms. PName p = dropped_total]"
      "drop_counts s"]
  by (auto simp: recredit_def map_has_iff drop_reason_def image_iff set_eq_iff)

lemma keys_ok_recredit:
  "keys_ok (drop_counts s) \<Longrightarrow> (\<And>p. p \<in> set ms \<Longrightarrow> PName p = dropped_total \<Longrightarrow> drop_reason p \<in> set drop_reasons)
     \<Longrightarrow> keys_ok (drop_counts (recredit ms s))"
  unfolding keys_ok_def keys_recredit by blast

lemma provider_point_fenced:
  assumes "provider_pair_labels provider op s = (ls, s')" "valid_provider_outcome res"
    "bounded_provider_label provider" "bounded_provider_label op"
  shows "fenced reg (provider_pairs s') (provider_point now ls res)"
proof -
  have "provider_labels_ok (provider_pairs s') ls"
    using assms(1) by (cases rule: provider_pair_labels_cases) (use assms in \<open>auto simp: provider_labels_ok_def\<close>)
  then show ?thesis
    using assms(2) by (cases ls) (auto simp: fenced_def fenced_provider_def provider_point_def)
qed

lemma all_points_add [simp]:
  "all_points (\<sigma>\<lparr>appending := add_mset ps a\<rparr>) = set ps \<union> all_points (\<sigma>\<lparr>appending := a\<rparr>)"
  "all_points (\<sigma>\<lparr>n_invalid := n\<rparr>) = all_points \<sigma>" "all_points (\<sigma>\<lparr>n_overflow := n\<rparr>) = all_points \<sigma>"
  "all_points (\<sigma>\<lparr>admitted := x\<rparr>) = all_points \<sigma>" "all_points (\<sigma>\<lparr>delivered := x\<rparr>) = all_points \<sigma>"
  "all_points (\<sigma>\<lparr>lost := x\<rparr>) = all_points \<sigma>"
  by (auto simp: all_points_def)

lemma all_points_mem:
  "metrics s = metrics (em \<sigma>) \<Longrightarrow> all_points (\<sigma>\<lparr>em := s\<rparr>) = all_points \<sigma>"
  by (simp add: all_points_def)

lemma step_all_fenced: "step \<sigma> \<sigma>' \<Longrightarrow> all_fenced \<sigma> \<Longrightarrow> all_fenced \<sigma>'"
proof -
  assume st: "step \<sigma> \<sigma>'" and inv: "all_fenced \<sigma>"
  let ?reg = "em_reg (em \<sigma>)" and ?pairs = "provider_pairs (em \<sigma>')"
  have fr: "em_reg (em \<sigma>') = ?reg" "set (provider_pairs (em \<sigma>)) \<subseteq> set ?pairs"
    using step_frame [OF st] by simp_all
  have old: "p \<in> all_points \<sigma> \<Longrightarrow> fenced ?reg ?pairs p" for p
    using inv fenced_mono [OF _ fr(2)] by (simp add: all_fenced_def)
  have keys: "keys_ok (drop_counts (em \<sigma>))" using inv by (simp add: all_fenced_def)
  have r: "''invalid'' \<in> set drop_reasons" "''overflow'' \<in> set drop_reasons" "''export'' \<in> set drop_reasons"
    by (simp_all add: drop_reasons_def)
  from st have "(\<forall>p \<in> all_points \<sigma>'. p \<in> all_points \<sigma> \<or> fenced ?reg ?pairs p)
      \<and> keys_ok (drop_counts (em \<sigma>'))"
  proof cases
    case invalid
    then show ?thesis using keys r by (auto simp: all_points_def)
  next
    case (overflow out s)
    then show ?thesis using keys r by (auto simp: all_points_def admit_Overflowed)
  next
    case (suppress out s)
    then show ?thesis using keys by (auto simp: all_points_def dest!: admit_Suppressed)
  next
    case (admit out s)
    then show ?thesis
      using keys outcome_points_fenced [OF admit(2)] by (auto simp: all_points_def dest!: admit_Admitted)
  next
    case (in_flight bucket m n now flow stage)
    then show ?thesis
      using keys inflight_points_fenced [OF in_flight(2,3)] by (auto simp: all_points_def)
  next
    case (provider res pr op ls s now)
    have "metrics s = metrics (em \<sigma>) \<and> drop_counts s = drop_counts (em \<sigma>)"
      using provider(5) by (cases rule: provider_pair_labels_cases) auto
    then show ?thesis
      using keys provider_point_fenced [OF provider(5,2,3,4)] provider(1) by (auto simp: all_points_def)
  next
    case (append ps)
    then show ?thesis
      using keys append_metrics_metrics [of ps "em \<sigma>"] by (auto simp: all_points_def dest: in_diffD)
  next
    case (take clock evs ms s)
    then show ?thesis
      using drop_points_fenced [OF keys [unfolded keys_ok_def]] by (auto simp: all_points_def flush_take_def)
  next
    case (events_ok evs ms)
    then show ?thesis using keys by (force simp: all_points_def dest: in_diffD)
  next
    case (events_failed evs ms)
    then show ?thesis using keys r by (force simp: all_points_def dest: in_diffD)
  next
    case (metrics_ok ms)
    then show ?thesis using keys by (force simp: all_points_def dest: in_diffD)
  next
    case (metrics_failed ms)
    have "drop_reason p \<in> set drop_reasons" if "p \<in> set ms" "PName p = dropped_total" for p
    proof -
      have "p \<in> all_points \<sigma>" using that metrics_failed(2) by (force simp: all_points_def)
      then show ?thesis using inv that(2) fenced_drop_reason by (auto simp: all_fenced_def)
    qed
    then have "keys_ok (drop_counts (recredit ms (em \<sigma>)))" using keys keys_ok_recredit by blast
    then show ?thesis
      using metrics_failed by (auto simp: all_points_def dest: in_diffD)
  qed
  then show ?thesis using old fr by (auto simp: all_fenced_def)
qed

section \<open>The handlers are runs of the system\<close>

text \<open>
  The sequential handlers of the previous theory, run without interruption, are sequences of
  steps that leave no work behind.
\<close>

definition runs_to :: "system \<Rightarrow> emitter \<Rightarrow> bool" where
  "runs_to \<sigma> s \<longleftrightarrow>
     (\<exists>\<sigma>'. step\<^sup>*\<^sup>* \<sigma> \<sigma>' \<and> em \<sigma>' = s \<and> appending \<sigma>' = appending \<sigma> \<and> flushing \<sigma>' = flushing \<sigma>)"

lemma runs_to_refl: "em \<sigma> = s \<Longrightarrow> runs_to \<sigma> s"
  unfolding runs_to_def by (intro exI [of _ \<sigma>]) simp

lemma runs_to_step:
  "step \<sigma> \<sigma>' \<Longrightarrow> appending \<sigma>' = appending \<sigma> \<Longrightarrow> flushing \<sigma>' = flushing \<sigma> \<Longrightarrow> em \<sigma>' = s \<Longrightarrow> runs_to \<sigma> s"
  unfolding runs_to_def by (intro exI [of _ \<sigma>']) auto

lemma runs_to_invalid: "runs_to \<sigma> (drop_invalid (em \<sigma>))"
  by (rule runs_to_step [OF step.invalid]) simp_all

lemma runs_to_append:
  assumes "step \<sigma> \<sigma>'" "appending \<sigma>' = add_mset ps (appending \<sigma>)" "flushing \<sigma>' = flushing \<sigma>"
  shows "runs_to \<sigma> (append_metrics ps (em \<sigma>'))"
proof -
  have "ps \<in># appending \<sigma>'" using assms(2) by simp
  from step.append [OF this] assms(1)
  have "step\<^sup>*\<^sup>* \<sigma> (\<sigma>'\<lparr>em := append_metrics ps (em \<sigma>'), appending := appending \<sigma>' - {#ps#}\<rparr>)"
    by (meson converse_rtranclp_into_rtranclp r_into_rtranclp)
  then show ?thesis
    unfolding runs_to_def using assms by (intro exI conjI) (assumption | simp)+
qed

lemma record_outcome_runs: "runs_to \<sigma> (record_outcome out (em \<sigma>))"
proof (cases "outcome_validate out = None")
  case False
  then show ?thesis by (simp add: record_outcome_def runs_to_invalid)
next
  case True
  obtain res s where a: "admit out (em \<sigma>) = (res, s)" by (cases "admit out (em \<sigma>)")
  show ?thesis
  proof (cases res)
    case Overflowed
    then show ?thesis
      using True a runs_to_step [OF step.overflow [of out \<sigma> s]] by (simp add: record_outcome_def)
  next
    case Suppressed
    then show ?thesis
      using True a runs_to_step [OF step.suppress [of out \<sigma> s]] by (simp add: record_outcome_def)
  next
    case Admitted
    then show ?thesis
      using True a runs_to_append [OF step.admit [OF True, of \<sigma> s]] by (simp add: record_outcome_def)
  qed
qed

lemma set_in_flight_runs: "runs_to \<sigma> (set_in_flight now flow stage bucket m n (em \<sigma>))"
proof (cases "bucket \<notin> set age_buckets \<or> money_validate m \<noteq> None \<or> sint n < 0")
  case True
  then show ?thesis by (simp add: set_in_flight_def runs_to_invalid)
next
  case False
  then have "bucket \<in> set age_buckets" "money_validate m = None" "0 \<le> sint n" by simp_all
  from runs_to_append [OF step.in_flight [OF this, of \<sigma> now flow stage]] False show ?thesis
    by (simp add: set_in_flight_def)
qed

lemma record_provider_call_runs: "runs_to \<sigma> (record_provider_call now pr op res (em \<sigma>))"
proof (cases "valid_provider_outcome res \<and> bounded_provider_label pr \<and> bounded_provider_label op")
  case False
  then show ?thesis by (auto simp: record_provider_call_def runs_to_invalid)
next
  case True
  obtain ls s where l: "provider_pair_labels pr op (em \<sigma>) = (ls, s)"
    by (cases "provider_pair_labels pr op (em \<sigma>)")
  have "runs_to \<sigma> (append_metrics [provider_point now ls res] s)"
    using runs_to_append [OF step.provider [OF _ _ _ l, of res now]] True by simp
  then show ?thesis using True l by (simp add: record_provider_call_def)
qed

text \<open>One step, with the state it leads to described field by field.\<close>

lemma one_step:
  "step \<sigma> \<sigma>' \<Longrightarrow> em \<sigma>' = s \<Longrightarrow> appending \<sigma>' = a \<Longrightarrow> flushing \<sigma>' = f \<Longrightarrow>
     \<exists>\<sigma>'. step \<sigma> \<sigma>' \<and> em \<sigma>' = s \<and> appending \<sigma>' = a \<and> flushing \<sigma>' = f"
  by blast

lemma flush_metrics_runs:
  assumes "flushing \<sigma> = add_mset (TakenMetrics ms) F"
  shows "\<exists>\<sigma>'. step\<^sup>*\<^sup>* \<sigma> \<sigma>' \<and> em \<sigma>' = (if ok \<or> ms = [] then em \<sigma> else recredit ms (em \<sigma>))
     \<and> appending \<sigma>' = appending \<sigma> \<and> flushing \<sigma>' = F"
proof -
  have m: "TakenMetrics ms \<in># flushing \<sigma>" using assms by simp
  have "\<exists>\<sigma>'. step \<sigma> \<sigma>' \<and> em \<sigma>' = (if ok \<or> ms = [] then em \<sigma> else recredit ms (em \<sigma>))
     \<and> appending \<sigma>' = appending \<sigma> \<and> flushing \<sigma>' = F"
  proof (cases "ok \<or> ms = []")
    case True
    show ?thesis by (rule one_step [OF step.metrics_ok [OF m]]) (use True assms in auto)
  next
    case False
    then have "ms \<noteq> []" by simp
    show ?thesis by (rule one_step [OF step.metrics_failed [OF m \<open>ms \<noteq> []\<close>]]) (use False assms in auto)
  qed
  then show ?thesis by (blast intro: r_into_rtranclp)
qed

lemma flush_runs: "runs_to \<sigma> (snd (flush ee me clock (em \<sigma>)))"
proof -
  obtain evs ms s1 where t: "flush_take clock (em \<sigma>) = ((evs, ms), s1)"
    by (metis prod.exhaust)
  let ?\<sigma>1 = "\<sigma>\<lparr>em := s1, flushing := add_mset (TakenBoth evs ms) (flushing \<sigma>)\<rparr>"
  have st1: "step \<sigma> ?\<sigma>1" by (rule step.take [OF t])
  define fine where "fine \<longleftrightarrow> evs = [] \<or> ee evs = None"
  define s2 where "s2 = (if fine then s1 else count_export_drop evs s1)"
  have "\<exists>\<sigma>2. step ?\<sigma>1 \<sigma>2 \<and> em \<sigma>2 = s2 \<and> appending \<sigma>2 = appending \<sigma>
      \<and> flushing \<sigma>2 = add_mset (TakenMetrics ms) (flushing \<sigma>)"
  proof (cases fine)
    case True
    show ?thesis
      by (rule one_step [OF step.events_ok [of evs ms ?\<sigma>1]]) (use True in \<open>simp_all add: s2_def\<close>)
  next
    case False
    show ?thesis
      by (rule one_step [OF step.events_failed [of evs ms ?\<sigma>1]]) (use False in \<open>auto simp: s2_def fine_def\<close>)
  qed
  then obtain \<sigma>2 where st2: "step ?\<sigma>1 \<sigma>2" and \<sigma>2: "em \<sigma>2 = s2" "appending \<sigma>2 = appending \<sigma>"
    "flushing \<sigma>2 = add_mset (TakenMetrics ms) (flushing \<sigma>)" by blast
  obtain \<sigma>3 where st3: "step\<^sup>*\<^sup>* \<sigma>2 \<sigma>3"
    and \<sigma>3: "em \<sigma>3 = (if me ms = None \<or> ms = [] then s2 else recredit ms s2)"
      "appending \<sigma>3 = appending \<sigma>" "flushing \<sigma>3 = flushing \<sigma>"
    using flush_metrics_runs [OF \<sigma>2(3), of "me ms = None"] \<sigma>2 by auto
  have "step\<^sup>*\<^sup>* \<sigma> \<sigma>3" using st1 st2 st3 by (meson converse_rtranclp_into_rtranclp)
  moreover have "em \<sigma>3 = snd (flush ee me clock (em \<sigma>))"
    using \<sigma>3(1) by (auto simp: flush_def t Let_def s2_def fine_def)
  ultimately show ?thesis unfolding runs_to_def using \<sigma>3 by blast
qed

section \<open>Properties\<close>

lemma new_emitter_Inr:
  "new_emitter reg bufs pairs = Inr e \<Longrightarrow> events e = [] \<and> metrics e = [] \<and> drop_counts e = []
     \<and> provider_pairs e = [] \<and> bounded reg bufs pairs e"
  by (auto simp: new_emitter_def bounded_def split: if_splits)

lemma reachable_invariants:
  assumes "reachable reg bufs pairs \<sigma>"
  shows "outcomes_conserved \<sigma> \<and> drops_conserved \<sigma> \<and> bounded reg bufs pairs (em \<sigma>) \<and> all_fenced \<sigma>"
  using assms
proof (induction rule: reachable_induct)
  case (start e)
  then show ?case
    using new_emitter_Inr [OF start]
    by (simp add: initial_def outcomes_conserved_def drops_conserved_def true_drops_def drop_sum_def
        all_fenced_def all_points_def)
next
  case (step \<sigma> \<sigma>')
  then show ?case
    using step_outcomes_conserved step_drops_conserved step_bounded step_all_fenced by blast
qed

text \<open>A small emitter, and the state after it recorded one outcome.\<close>

definition demo_registry :: registry where
  "demo_registry = \<lparr>Version = 1, Segments = [''vip''], AllowHosts = [], Severity = [], flows = [],
     segment_set = [''vip'']\<rparr>"

definition demo_emitter :: emitter where
  "demo_emitter = \<lparr>em_reg = demo_registry, buf_size = 2, metrics_cap = 16, pair_cap = 1,
     events = [], metrics = [], drop_counts = [], metric_overflow = 0,
     dedup = new_two_gen_set 65536, provider_pairs = []\<rparr>"

lemma reachable_demo: "reachable demo_registry 2 1 (initial demo_emitter)"
  by (auto simp: reachable_def new_emitter_def demo_emitter_def)

lemma reachable_steps: "reachable reg bufs pairs \<sigma> \<Longrightarrow> step\<^sup>*\<^sup>* \<sigma> \<sigma>' \<Longrightarrow> reachable reg bufs pairs \<sigma>'"
  unfolding reachable_def by (auto intro: rtranclp_trans)

lemma reachable_runs:
  assumes "reachable reg bufs pairs \<sigma>" "runs_to \<sigma> s"
  obtains \<sigma>' where "reachable reg bufs pairs \<sigma>'" "em \<sigma>' = s" "appending \<sigma>' = appending \<sigma>"
    "flushing \<sigma>' = flushing \<sigma>"
proof -
  from assms(2) obtain \<sigma>' where s: "step\<^sup>*\<^sup>* \<sigma> \<sigma>'" and e: "em \<sigma>' = s" "appending \<sigma>' = appending \<sigma>"
      "flushing \<sigma>' = flushing \<sigma>"
    unfolding runs_to_def by blast
  from reachable_steps [OF assms(1) s] e show thesis by (rule that)
qed

lemma demo_record_eval:
  "events (record_outcome (example_outcome []) demo_emitter) = [example_outcome []]"
  "map PName (metrics (record_outcome (example_outcome []) demo_emitter)) = [value_total, txn_total]"
  by code_simp+

lemma demo_recorded:
  obtains \<sigma> where "reachable demo_registry 2 1 \<sigma>" "em \<sigma> = record_outcome (example_outcome []) demo_emitter"
  using reachable_runs [OF reachable_demo record_outcome_runs [of "initial demo_emitter" "example_outcome []"]]
  by (auto simp: initial_def)

text \<open>C5: no admitted outcome disappears: under any interleaving of calls and flushes, every outcome
  the emitter admitted is buffered, in the hands of exactly one flush, delivered to the exporter,
  or in a batch whose export failed, each as often as it was admitted.\<close>

theorem emitter_conserves_outcomes:
  assumes "reachable reg bufs pairs \<sigma>"
  shows "admitted \<sigma> =
     mset (events (em \<sigma>)) + (\<Sum>t\<in>#flushing \<sigma>. task_events t) + delivered \<sigma> + lost \<sigma>"
  using reachable_invariants [OF assms] by (simp add: outcomes_conserved_def)

theorem emitter_conserves_outcomes_witness:
  "\<exists>\<sigma>. reachable demo_registry 2 1 \<sigma> \<and> example_outcome [] \<in># admitted \<sigma>"
proof -
  obtain \<sigma> where r: "reachable demo_registry 2 1 \<sigma>"
    and e: "em \<sigma> = record_outcome (example_outcome []) demo_emitter" by (rule demo_recorded)
  have "example_outcome [] \<in># admitted \<sigma>"
    unfolding emitter_conserves_outcomes [OF r] by (simp add: e demo_record_eval)
  then show ?thesis using r by blast
qed

text \<open>C1: no drop goes uncounted: for every reason, what has been dropped equals what the emitter
  still counts, plus what the flushes under way carry, plus what has been shipped on
  \<open>biz_dropped_events_total\<close>, whatever exports fail in between and however flushes overlap.\<close>

theorem emitter_counts_every_drop:
  assumes "reachable reg bufs pairs \<sigma>"
  shows "true_drops \<sigma> r = map_get 0 (drop_counts (em \<sigma>)) r
     + (\<Sum>t\<in>#flushing \<sigma>. drop_sum r (task_points t)) + drop_sum r (shipped \<sigma>)"
  using reachable_invariants [OF assms] by (simp add: drops_conserved_def)

theorem emitter_counts_every_drop_witness:
  "\<exists>\<sigma>. reachable demo_registry 2 1 \<sigma> \<and> true_drops \<sigma> ''invalid'' = 1"
proof -
  let ?\<sigma> = "(initial demo_emitter)\<lparr>em := drop_invalid demo_emitter, n_invalid := 1\<rparr>"
  have "step (initial demo_emitter) ?\<sigma>"
    using step.invalid [of "initial demo_emitter"] by (simp add: initial_def)
  then have r: "reachable demo_registry 2 1 ?\<sigma>"
    using reachable_demo unfolding reachable_def by (meson rtranclp.rtrancl_into_rtrancl)
  have "true_drops ?\<sigma> ''invalid'' = 1"
    unfolding emitter_counts_every_drop [OF r] by (simp add: initial_def demo_emitter_def drop_sum_def)
  then show ?thesis using r by blast
qed

definition provider_series :: "metric_point \<Rightarrow> string \<times> string" where
  "provider_series p = (map_get [] (PLabels p) ''provider'', map_get [] (PLabels p) ''op'')"

lemma nul_free: "bounded_provider_label v \<Longrightarrow> CHR 0x00 \<notin> set v"
proof
  assume b: "bounded_provider_label v" and n: "CHR 0x00 \<in> set v"
  have "list_all (\<lambda>r. \<not> is_control r) (rune_values v)" using b by (simp add: bounded_provider_label_def)
  moreover have "0 \<in> set (rune_values v)" using rune_values_ascii_byte [OF n] by simp
  ultimately show False by (auto simp: list_all_iff is_control_def)
qed

lemma pair_key_inj:
  assumes "CHR 0x00 \<notin> set a" "CHR 0x00 \<notin> set c" "a @ nul @ b = c @ nul @ d"
  shows "a = c \<and> b = d"
proof -
  have "takeWhile (\<lambda>x. x \<noteq> CHR 0x00) (a @ nul @ b) = a" "takeWhile (\<lambda>x. x \<noteq> CHR 0x00) (c @ nul @ d) = c"
    using assms(1,2) by (auto simp: nul_def takeWhile_append2 intro!: takeWhile_append2 [THEN trans])
  then have "a = c" using assms(3) by simp
  then show ?thesis using assms(3) by simp
qed

text \<open>The provider and operation of the provider-call points of a run.\<close>

lemma provider_pairs_bounded:
  assumes "reachable reg bufs pairs \<sigma>"
  shows "\<exists>S. finite S \<and> card S \<le> nat pairs + 1
    \<and> provider_series ` {p \<in> all_points \<sigma>. PName p = provider_calls_total} \<subseteq> S"
proof -
  have b: "bounded reg bufs pairs (em \<sigma>)" and f: "all_fenced \<sigma>"
    using reachable_invariants [OF assms] by simp_all
  let ?V = "{(pr, op). bounded_provider_label pr \<and> bounded_provider_label op
      \<and> pr @ nul @ op \<in> set (provider_pairs (em \<sigma>))}"
  let ?key = "\<lambda>(pr, op). pr @ nul @ op"
  have inj: "inj_on ?key ?V"
  proof (rule inj_onI)
    fix x y
    assume xy: "x \<in> ?V" "y \<in> ?V" "?key x = ?key y"
    obtain a b c d where p: "x = (a, b)" "y = (c, d)" by (cases x, cases y)
    have "CHR 0x00 \<notin> set a" "CHR 0x00 \<notin> set c" using xy p nul_free by auto
    moreover have "a @ nul @ b = c @ nul @ d" using xy(3) by (simp add: p)
    ultimately show "x = y" using pair_key_inj [of a c b d] by (simp add: p)
  qed
  have sub: "?key ` ?V \<subseteq> set (provider_pairs (em \<sigma>))" by auto
  have fin: "finite ?V" using inj sub by (meson finite_imageD finite_set finite_subset)
  have "card ?V \<le> card (set (provider_pairs (em \<sigma>)))" using card_inj_on_le [OF inj sub] by simp
  also have "\<dots> \<le> nat pairs" using b card_length [of "provider_pairs (em \<sigma>)"] by (simp add: bounded_def)
  finally have c: "card (insert (provider_other, provider_other) ?V) \<le> nat pairs + 1"
    using fin by (simp add: card_insert_if)
  have ser: "provider_series p \<in> insert (provider_other, provider_other) ?V"
    if "p \<in> all_points \<sigma>" "PName p = provider_calls_total" for p
  proof -
    have "fenced (em_reg (em \<sigma>)) (provider_pairs (em \<sigma>)) p" using f that(1) by (simp add: all_fenced_def)
    then have "fenced_provider (provider_pairs (em \<sigma>)) p"
      using that(2) by (auto simp: fenced_def fenced_outcome_def fenced_inflight_def fenced_drop_def family_defs)
    then show ?thesis
      by (auto simp: fenced_provider_def provider_labels_ok_def provider_series_def map_get_def)
  qed
  have i: "provider_series ` {p \<in> all_points \<sigma>. PName p = provider_calls_total}
      \<subseteq> insert (provider_other, provider_other) ?V"
    by (rule image_subsetI, elim CollectE conjE) (rule ser)
  have f: "finite (insert (provider_other, provider_other) ?V)" using fin by (rule finite.insertI)
  show ?thesis
    by (rule exI [of _ "insert (provider_other, provider_other) ?V"], intro conjI) (fact f, fact c, fact i)
qed

text \<open>C35: the emitter's memory and its provider series stay bounded: the buffers never exceed their capacities;
  the provider-call points of a whole run, buffered, in flight or shipped, carry at most one more pair of provider and
  operation than the configured number; and as the third label is the outcome, one of two, they form at most twice as
  many series.\<close>

theorem emitter_bounded:
  assumes "reachable reg bufs pairs \<sigma>"
  shows "length (events (em \<sigma>)) \<le> nat bufs \<and> length (metrics (em \<sigma>)) \<le> 8 * nat bufs
     \<and> (\<exists>S. finite S \<and> card S \<le> nat pairs + 1
          \<and> provider_series ` {p \<in> all_points \<sigma>. PName p = provider_calls_total} \<subseteq> S)
     \<and> (\<exists>L. finite L \<and> card L \<le> 2 * (nat pairs + 1)
          \<and> PLabels ` {p \<in> all_points \<sigma>. PName p = provider_calls_total} \<subseteq> L)"
proof -
  have b: "bounded reg bufs pairs (em \<sigma>)" and f: "all_fenced \<sigma>"
    using reachable_invariants [OF assms] by simp_all
  obtain S where S: "finite S" "card S \<le> nat pairs + 1"
    "provider_series ` {p \<in> all_points \<sigma>. PName p = provider_calls_total} \<subseteq> S"
    using provider_pairs_bounded [OF assms] by blast
  let ?labels = "\<lambda>((pr, op), out). [(''provider'', pr), (''op'', op), (''outcome'', out)]"
  let ?L = "?labels ` (S \<times> {''success'', ''failed''})"
  have "PLabels p \<in> ?L" if p: "p \<in> all_points \<sigma>" "PName p = provider_calls_total" for p
  proof -
    have "fenced (em_reg (em \<sigma>)) (provider_pairs (em \<sigma>)) p" using f p(1) by (simp add: all_fenced_def)
    then have "fenced_provider (provider_pairs (em \<sigma>)) p"
      using p(2) by (auto simp: fenced_def fenced_outcome_def fenced_inflight_def fenced_drop_def family_defs)
    then obtain pr op out where l: "PLabels p = [(''provider'', pr), (''op'', op), (''outcome'', out)]"
      and out: "out \<in> {''success'', ''failed''}"
      by (auto simp: fenced_provider_def valid_provider_outcome_def provider_call_outcomes_def)
    have "provider_series p \<in> S" using S(3) p by blast
    then have "(pr, op) \<in> S" by (simp add: provider_series_def l map_get_def)
    then show ?thesis unfolding l using out by (intro image_eqI [of _ _ "((pr, op), out)"]) auto
  qed
  moreover have "card ?L \<le> 2 * (nat pairs + 1)"
  proof -
    have "card ?L \<le> card (S \<times> {''success'', ''failed''})" using S(1) by (intro card_image_le) simp
    also have "\<dots> = card S * 2" using S(1) by (simp add: card_cartesian_product)
    finally show ?thesis using S(2) by simp
  qed
  moreover have "finite ?L" using S(1) by simp
  ultimately have "\<exists>L. finite L \<and> card L \<le> 2 * (nat pairs + 1)
      \<and> PLabels ` {p \<in> all_points \<sigma>. PName p = provider_calls_total} \<subseteq> L"
    by (intro exI [of _ ?L] conjI image_subsetI) auto
  moreover have "length (events (em \<sigma>)) \<le> nat bufs" "length (metrics (em \<sigma>)) \<le> 8 * nat bufs"
    using b by (simp_all add: bounded_def)
  ultimately show ?thesis using S by blast
qed

theorem emitter_bounded_witness:
  "\<exists>\<sigma>. reachable demo_registry 2 1 \<sigma> \<and> events (em \<sigma>) = [example_outcome []]
     \<and> length (metrics (em \<sigma>)) \<le> 16"
proof -
  obtain \<sigma> where r: "reachable demo_registry 2 1 \<sigma>"
    and e: "em \<sigma> = record_outcome (example_outcome []) demo_emitter" by (rule demo_recorded)
  then show ?thesis using emitter_bounded [OF r] demo_record_eval(1) by (intro exI [of _ \<sigma>]) simp
qed

text \<open>C25: no call can mint an unbounded series: every metric point of a run, wherever it is, carries
  exactly the labels of its family, each from a closed set: registered flows with their declared
  stages or the fallback, declared segments, valid results, kinds and currencies, the five age
  buckets, admitted provider pairs or the fallback, and the three drop reasons.\<close>

theorem emitter_label_fence:
  assumes "reachable reg bufs pairs \<sigma>" "p \<in> all_points \<sigma>"
  shows "fenced reg (provider_pairs (em \<sigma>)) p"
  using reachable_invariants [OF assms(1)] assms(2) by (auto simp: all_fenced_def bounded_def)

theorem emitter_label_fence_witness:
  "\<exists>p. PName p = value_total \<and> fenced demo_registry [] p"
proof -
  obtain \<sigma> where r: "reachable demo_registry 2 1 \<sigma>"
    and e: "em \<sigma> = record_outcome (example_outcome []) demo_emitter" by (rule demo_recorded)
  obtain p ps where p: "metrics (em \<sigma>) = p # ps" "PName p = value_total"
    using demo_record_eval(2) by (auto simp: e map_eq_Cons_conv)
  have "provider_pairs (em \<sigma>) = []" by (simp only: e) code_simp
  then show ?thesis using emitter_label_fence [OF r, of p] p by (auto simp: all_points_def)
qed

end
