(* ===== verification/InFlight.thy ===== *)
theory InFlight
  imports Emit_Steps
begin

text \<open>
  \<open>emit/inflight.go\<close>: the tracker of messages in flight at queue stages. The set is spread over 32
  shards by a hash of the message id; the hash (\<open>maphash\<close> under a random seed) is a parameter. Each
  of \<open>Track\<close>, \<open>Done\<close> and \<open>Publish\<close> runs under the locks it needs, so it is one function on the
  state; the ticker goroutine of \<open>Start\<close> only calls \<open>Publish\<close>. The refinement at the end shows
  that the shards, the counter and the pins implement one bounded map from keys to items.
\<close>

section \<open>State\<close>

definition age_bucket_for :: "duration \<Rightarrow> string" where
  "age_bucket_for age =
     (if age < minute then age_lt1m
      else if age < 5 * minute then age_1m_5m
      else if age < 30 * minute then age_5m_30m
      else if age < 2 * hour then age_30m_2h
      else age_gt2h)"

datatype inflight_key = InflightKey (key_flow: string) (key_stage: string) (key_id: string)

datatype combo_key =
  ComboKey (combo_flow: string) (combo_stage: string) (combo_currency: string) (combo_exponent: i8)

record inflight_item =
  item_money :: money
  enqueued_at :: time

type_synonym shard = "(inflight_key, inflight_item) gomap"

record tracker =
  shards :: "shard list"
  live :: "combo_key list"
  exponents :: "(string, i8) gomap"
  max_items :: i64
  item_count :: i64
  overflow :: i64
  rejected :: i64
  started :: bool

abbreviation tracker_shards :: nat where "tracker_shards \<equiv> 32"

definition shard_for :: "(string \<Rightarrow> 64 word) \<Rightarrow> string \<Rightarrow> nat" where
  "shard_for hash msg = unat (and (hash msg) 31)"

definition new_tracker :: "i64 \<Rightarrow> tracker" where
  "new_tracker requested =
     \<lparr>shards = replicate tracker_shards [], live = [], exponents = [],
      max_items = (if sint requested < 1 then push_bit 20 1 else requested),
      item_count = 0, overflow = 0, rejected = 0, started = False\<rparr>"

section \<open>Operations\<close>

text \<open>\<open>LoadOrStore\<close> on the pinned exponents.\<close>

definition pin_exponent :: "money \<Rightarrow> tracker \<Rightarrow> i8 \<times> bool \<times> tracker" where
  "pin_exponent m t =
     (case map_of (exponents t) (Currency m) of
        Some e \<Rightarrow> (e, True, t)
      | None \<Rightarrow> (Exponent m, False, t\<lparr>exponents := map_put (Currency m) (Exponent m) (exponents t)\<rparr>))"

definition track_in_shard :: "(string \<Rightarrow> 64 word) \<Rightarrow> inflight_key \<Rightarrow> money \<Rightarrow> time \<Rightarrow> tracker \<Rightarrow> tracker" where
  "track_in_shard hash k m enqueued t =
     (let i = shard_for hash (key_id k);
          sh = shards t ! i
      in case map_of sh k of
           Some prior \<Rightarrow>
             (let oldest = (if enqueued_at prior < enqueued then enqueued_at prior else enqueued)
              in t\<lparr>shards := (shards t)[i := map_put k \<lparr>item_money = m, enqueued_at = oldest\<rparr> sh]\<rparr>)
         | None \<Rightarrow>
             if sint (item_count t + 1) > sint (max_items t) then t\<lparr>overflow := overflow t + 1\<rparr>
             else t\<lparr>item_count := item_count t + 1,
                    shards := (shards t)[i := map_put k \<lparr>item_money = m, enqueued_at = enqueued\<rparr> sh]\<rparr>)"

definition track ::
  "(string \<Rightarrow> 64 word) \<Rightarrow> string \<Rightarrow> string \<Rightarrow> string \<Rightarrow> money \<Rightarrow> time \<Rightarrow> tracker \<Rightarrow> tracker" where
  "track hash flow stage msg m enqueued t =
     (if money_validate m \<noteq> None then t\<lparr>rejected := rejected t + 1\<rparr>
      else
        (let (pinned, loaded, t1) = pin_exponent m t in
         if loaded \<and> pinned \<noteq> Exponent m then t1\<lparr>rejected := rejected t1 + 1\<rparr>
         else track_in_shard hash (InflightKey flow stage msg) m enqueued t1))"

definition tracker_done ::
  "(string \<Rightarrow> 64 word) \<Rightarrow> string \<Rightarrow> string \<Rightarrow> string \<Rightarrow> tracker \<Rightarrow> tracker" where
  "tracker_done hash flow stage msg t =
     (let k = InflightKey flow stage msg;
          i = shard_for hash msg
      in if map_has (shards t ! i) k
         then t\<lparr>shards := (shards t)[i := map_del k (shards t ! i)], item_count := item_count t - 1\<rparr>
         else t)"

text \<open>The aggregation of one snapshot: per combination, per bucket, minor units and a count.\<close>

type_synonym bucket_sums = "(combo_key, (string, i64 \<times> i64) gomap) gomap"

definition combo_of :: "inflight_key \<Rightarrow> inflight_item \<Rightarrow> combo_key" where
  "combo_of k it = ComboKey (key_flow k) (key_stage k) (Currency (item_money it)) (Exponent (item_money it))"

definition bucket_of :: "time \<Rightarrow> inflight_item \<Rightarrow> string" where
  "bucket_of now it = age_bucket_for (time_sub now (enqueued_at it))"

definition add_item :: "time \<Rightarrow> inflight_key \<times> inflight_item \<Rightarrow> bucket_sums \<Rightarrow> bucket_sums" where
  "add_item now x agg =
     (let (k, it) = x;
          ck = combo_of k it;
          cb = map_get [] agg ck;
          bucket = bucket_of now it;
          (minor, n) = map_get (0, 0) cb bucket
      in map_put ck (map_put bucket (minor + Amount (item_money it), n + 1) cb) agg)"

definition snapshot :: "time \<Rightarrow> tracker \<Rightarrow> bucket_sums" where
  "snapshot now t = fold (add_item now) (concat (shards t)) []"

text \<open>One call of \<open>SetInFlight\<close>.\<close>

record gauge_call =
  g_flow :: string
  g_stage :: string
  g_bucket :: string
  g_money :: money
  g_count :: i64

definition gauge :: "bucket_sums \<Rightarrow> combo_key \<Rightarrow> string \<Rightarrow> gauge_call" where
  "gauge agg ck bucket =
     (let (minor, n) = map_get (0, 0) (map_get [] agg ck) bucket
      in \<lparr>g_flow = combo_flow ck, g_stage = combo_stage ck, g_bucket = bucket,
          g_money = \<lparr>Amount = minor, Currency = combo_currency ck, Exponent = combo_exponent ck\<rparr>,
          g_count = n\<rparr>)"

definition publish :: "time \<Rightarrow> tracker \<Rightarrow> gauge_call list \<times> tracker" where
  "publish now t =
     (let agg = snapshot now t;
          current = map fst agg;
          alive = fold List.insert current (live t);
          retire = filter (\<lambda>ck. \<not> map_has agg ck) alive
      in (concat (map (\<lambda>ck. map (gauge agg ck) age_buckets) (current @ retire)),
          t\<lparr>live := filter (\<lambda>ck. map_has agg ck) alive\<rparr>))"

text \<open>Published through an emitter.\<close>

definition send_gauge :: "time \<Rightarrow> gauge_call \<Rightarrow> emitter \<Rightarrow> emitter" where
  "send_gauge clock g = set_in_flight clock (g_flow g) (g_stage g) (g_bucket g) (g_money g) (g_count g)"

definition publish_to :: "time \<Rightarrow> time \<Rightarrow> tracker \<Rightarrow> emitter \<Rightarrow> tracker \<times> emitter" where
  "publish_to now clock t s = (let (calls, t') = publish now t in (t', fold (send_gauge clock) calls s))"

text \<open>\<open>Start\<close>: whether a publish loop is spawned.\<close>

definition start_tracker :: "duration \<Rightarrow> tracker \<Rightarrow> bool \<times> tracker" where
  "start_tracker interval t =
     (if interval \<le> 0 then (False, t)
      else if started t then (False, t)
      else (True, t\<lparr>started := True\<rparr>))"

section \<open>The abstract tracker\<close>

text \<open>
  What the tracker promises: a bounded map from keys to items, and one exponent per currency. A
  retry keeps the oldest enqueue time and takes the new money.
\<close>

record in_flight =
  inflight_map :: "inflight_key \<Rightarrow> inflight_item option"
  pins :: "string \<Rightarrow> i8 option"

definition spec_track :: "nat \<Rightarrow> inflight_key \<Rightarrow> money \<Rightarrow> time \<Rightarrow> in_flight \<Rightarrow> in_flight" where
  "spec_track bound k m enqueued s =
     (if money_validate m \<noteq> None \<or> pins s (Currency m) \<notin> {None, Some (Exponent m)} then s
      else
        (let s' = s\<lparr>pins := (pins s)(Currency m \<mapsto> Exponent m)\<rparr> in
         case inflight_map s k of
           Some prior \<Rightarrow> s'\<lparr>inflight_map := (inflight_map s)
              (k \<mapsto> \<lparr>item_money = m, enqueued_at = min (enqueued_at prior) enqueued\<rparr>)\<rparr>
         | None \<Rightarrow>
             if card (dom (inflight_map s)) < bound
             then s'\<lparr>inflight_map := (inflight_map s)(k \<mapsto> \<lparr>item_money = m, enqueued_at = enqueued\<rparr>)\<rparr>
             else s'))"

definition spec_done :: "inflight_key \<Rightarrow> in_flight \<Rightarrow> in_flight" where
  "spec_done k s = s\<lparr>inflight_map := (inflight_map s)(k := None)\<rparr>"

definition spec_new :: in_flight where
  "spec_new = \<lparr>inflight_map = Map.empty, pins = Map.empty\<rparr>"

text \<open>The abstraction function looks a key up in the shard its id hashes to.\<close>

definition tracked :: "(string \<Rightarrow> 64 word) \<Rightarrow> tracker \<Rightarrow> inflight_key \<Rightarrow> inflight_item option" where
  "tracked hash t k = map_of (shards t ! shard_for hash (key_id k)) k"

definition abs_tracker :: "(string \<Rightarrow> 64 word) \<Rightarrow> tracker \<Rightarrow> in_flight" where
  "abs_tracker hash t = \<lparr>inflight_map = tracked hash t, pins = map_of (exponents t)\<rparr>"

definition tracker_ok :: "(string \<Rightarrow> 64 word) \<Rightarrow> tracker \<Rightarrow> bool" where
  "tracker_ok hash t \<longleftrightarrow>
     length (shards t) = tracker_shards
     \<and> (\<forall>i < tracker_shards. map_ok (shards t ! i)
          \<and> (\<forall>(k, it) \<in> set (shards t ! i). shard_for hash (key_id k) = i
               \<and> money_validate (item_money it) = None
               \<and> map_of (exponents t) (Currency (item_money it)) = Some (Exponent (item_money it))))
     \<and> sint (item_count t) = int (length (concat (shards t)))
     \<and> sint (item_count t) \<le> sint (max_items t) \<and> 1 \<le> sint (max_items t)
     \<and> distinct (live t)
     \<and> (\<forall>ck \<in> set (live t). \<not> currency_bad (combo_currency ck)
          \<and> 0 \<le> sint (combo_exponent ck) \<and> sint (combo_exponent ck) \<le> 4)"

section \<open>Well-formedness\<close>

lemma shard_for_less [simp]: "shard_for hash msg < tracker_shards"
proof -
  have "and (hash msg) 31 \<le> 31" by (rule word_and_le1)
  then have "unat (and (hash msg) 31) \<le> unat (31 :: 64 word)" by (simp only: word_le_nat_alt)
  then show ?thesis by (simp add: shard_for_def)
qed

definition item_ok :: "tracker \<Rightarrow> inflight_item \<Rightarrow> bool" where
  "item_ok t it \<longleftrightarrow> money_validate (item_money it) = None
     \<and> map_of (exponents t) (Currency (item_money it)) = Some (Exponent (item_money it))"

text \<open>The shards of a well-formed tracker, put side by side, are one map with distinct keys.\<close>

lemma concat_distinct:
  assumes "\<And>i. i < length xs \<Longrightarrow> distinct (map fst (xs ! i)) \<and> (\<forall>x \<in> set (xs ! i). f (fst x) = i + off)"
  shows "distinct (map fst (concat xs))"
  using assms
proof (induction xs arbitrary: off)
  case Nil
  then show ?case by simp
next
  case (Cons x xs)
  have hd: "distinct (map fst x)" "\<forall>y \<in> set x. f (fst y) = off"
    using Cons.prems [of 0] by simp_all
  have tl: "distinct (map fst (xs ! i)) \<and> (\<forall>y \<in> set (xs ! i). f (fst y) = i + Suc off)"
    if "i < length xs" for i
    using Cons.prems [of "Suc i"] that by simp
  have far: "f (fst y) \<noteq> off" if "y \<in> set (concat xs)" for y
  proof -
    from that obtain z where z: "z \<in> set xs" "y \<in> set z" by auto
    then obtain i where "i < length xs" "z = xs ! i" by (metis in_set_conv_nth)
    then show ?thesis using tl [of i] z(2) by auto
  qed
  have "k \<notin> set (map fst (concat xs))" if "k \<in> set (map fst x)" for k
  proof
    assume "k \<in> set (map fst (concat xs))"
    then obtain y where "y \<in> set (concat xs)" "fst y = k" unfolding set_map by (elim imageE) simp
    then have "f k \<noteq> off" using far by blast
    moreover from that obtain y where "y \<in> set x" "fst y = k" unfolding set_map by (elim imageE) simp
    ultimately show False using hd(2) by auto
  qed
  then have "set (map fst x) \<inter> set (map fst (concat xs)) = {}" by blast
  then show ?case using Cons.IH [OF tl] hd(1) by simp
qed

lemma ok_shard:
  assumes "tracker_ok hash t"
  shows "i < tracker_shards \<Longrightarrow> map_ok (shards t ! i)"
    and "i < tracker_shards \<Longrightarrow> (k, it) \<in> set (shards t ! i) \<Longrightarrow> shard_for hash (key_id k) = i \<and> item_ok t it"
    and "length (shards t) = tracker_shards"
  using assms by (auto simp: tracker_ok_def item_ok_def)

lemma ok_map:
  assumes "tracker_ok hash t"
  shows "map_ok (concat (shards t))"
  unfolding map_ok_def
proof (rule concat_distinct [where f = "\<lambda>k. shard_for hash (key_id k)" and off = 0])
  fix i
  assume "i < length (shards t)"
  then have i: "i < tracker_shards" using ok_shard(3) [OF assms] by simp
  show "distinct (map fst (shards t ! i)) \<and> (\<forall>x \<in> set (shards t ! i). shard_for hash (key_id (fst x)) = i + 0)"
    using ok_shard(1) [OF assms i] ok_shard(2) [OF assms i] by (auto simp: map_ok_def)
qed

lemma tracked_iff:
  assumes "tracker_ok hash t"
  shows "tracked hash t k = Some it \<longleftrightarrow> (k, it) \<in> set (concat (shards t))"
proof -
  let ?i = "shard_for hash (key_id k)"
  have "tracked hash t k = Some it \<longleftrightarrow> (k, it) \<in> set (shards t ! ?i)"
    using map_ok_map_of [OF ok_shard(1) [OF assms shard_for_less]] by (simp add: tracked_def)
  also have "\<dots> \<longleftrightarrow> (k, it) \<in> set (concat (shards t))"
  proof
    assume "(k, it) \<in> set (shards t ! ?i)"
    moreover have "shards t ! ?i \<in> set (shards t)" using ok_shard(3) [OF assms] by simp
    ultimately show "(k, it) \<in> set (concat (shards t))" unfolding set_concat by blast
  next
    assume "(k, it) \<in> set (concat (shards t))"
    then obtain sh where "sh \<in> set (shards t)" "(k, it) \<in> set sh" by auto
    then obtain i where i: "i < length (shards t)" "(k, it) \<in> set (shards t ! i)" by (metis in_set_conv_nth)
    then have "?i = i" using ok_shard(2) [OF assms, of i k it] ok_shard(3) [OF assms] by simp
    then show "(k, it) \<in> set (shards t ! ?i)" using i by simp
  qed
  finally show ?thesis .
qed

lemma tracked_map:
  assumes "tracker_ok hash t"
  shows "tracked hash t = map_of (concat (shards t))"
proof
  fix k
  show "tracked hash t k = map_of (concat (shards t)) k"
    using tracked_iff [OF assms, of k] map_ok_map_of [OF ok_map [OF assms], of k]
    by (cases "tracked hash t k"; cases "map_of (concat (shards t)) k") auto
qed

lemma finite_tracked: "tracker_ok hash t \<Longrightarrow> finite (dom (tracked hash t))"
  by (simp add: tracked_map finite_dom_map_of)

lemma count_is_card:
  assumes "tracker_ok hash t"
  shows "sint (item_count t) = int (card (dom (tracked hash t)))"
proof -
  have "card (dom (tracked hash t)) = card (set (map fst (concat (shards t))))"
    by (simp only: tracked_map [OF assms] dom_map_of_conv_image_fst set_map)
  also have "\<dots> = length (concat (shards t))"
    using ok_map [OF assms] distinct_card [of "map fst (concat (shards t))"] by (simp add: map_ok_def)
  finally show ?thesis using assms by (simp add: tracker_ok_def)
qed

text \<open>Writing one shard writes one key of the map.\<close>

lemma tracked_put:
  assumes "length (shards t) = tracker_shards" "shards t' = (shards t)[shard_for hash (key_id k) := map_put k it (shards t ! shard_for hash (key_id k))]"
  shows "tracked hash t' = (tracked hash t)(k \<mapsto> it)"
proof
  fix k'
  show "tracked hash t' k' = ((tracked hash t)(k \<mapsto> it)) k'"
    using assms by (simp add: tracked_def nth_list_update)
qed

lemma tracked_del:
  assumes "length (shards t) = tracker_shards" "shards t' = (shards t)[shard_for hash (key_id k) := map_del k (shards t ! shard_for hash (key_id k))]"
  shows "tracked hash t' = (tracked hash t)(k := None)"
proof
  fix k'
  show "tracked hash t' k' = ((tracked hash t)(k := None)) k'"
    using assms by (simp add: tracked_def nth_list_update)
qed

section \<open>Operations keep the invariant and refine the abstract tracker\<close>

lemma length_put: "length (map_put k v m) = (if map_has m k then length m else length m + 1)"
  by (induction m) (auto simp: map_has_def)

lemma length_del: "map_ok m \<Longrightarrow> length (map_del k m) = (if map_has m k then length m - 1 else length m)"
proof -
  assume ok: "map_ok m"
  have "length (map_del k m) = length (removeAll k (map fst m))"
    by (metis delete_keys length_map)
  also have "\<dots> = length (remove1 k (map fst m))"
    using ok by (simp add: map_ok_def distinct_remove1_removeAll)
  finally show ?thesis by (simp add: length_remove1 map_has_iff)
qed

lemma length_concat_update:
  assumes "i < length xs"
  shows "length (concat (xs[i := ys])) + length (xs ! i) = length (concat xs) + length ys"
  using assms
proof (induction xs arbitrary: i)
  case Nil
  then show ?case by simp
next
  case (Cons x xs)
  then show ?case by (cases i) auto
qed

lemma length_concat_pos: "i < length xs \<Longrightarrow> length (xs ! i) \<le> length (concat xs)"
proof (induction xs arbitrary: i)
  case Nil
  then show ?case by simp
next
  case (Cons x xs)
  then show ?case by (cases i) (auto intro: trans_le_add2)
qed

text \<open>Replacing one shard keeps the invariant when the new shard is as good as the old one.\<close>

lemma tracker_ok_replace:
  assumes ok: "tracker_ok hash t" and i: "i < tracker_shards"
    and sh: "shards t' = (shards t)[i := sh]" "map_ok sh"
    and items: "\<And>k it. (k, it) \<in> set sh \<Longrightarrow> shard_for hash (key_id k) = i \<and> item_ok t' it"
    and pins: "\<And>c e. map_of (exponents t) c = Some e \<Longrightarrow> map_of (exponents t') c = Some e"
    and rest: "max_items t' = max_items t" "live t' = live t"
    and n: "sint (item_count t') = sint (item_count t) + int (length sh) - int (length (shards t ! i))"
      "sint (item_count t') \<le> sint (max_items t)"
  shows "tracker_ok hash t'"
proof -
  have l: "length (shards t) = tracker_shards" using ok_shard(3) [OF ok] .
  have shard: "map_ok (shards t' ! j) \<and> (\<forall>(k, it) \<in> set (shards t' ! j). shard_for hash (key_id k) = j
       \<and> money_validate (item_money it) = None
       \<and> map_of (exponents t') (Currency (item_money it)) = Some (Exponent (item_money it)))"
    if j: "j < tracker_shards" for j
  proof (cases "j = i")
    case True
    then show ?thesis using sh items l j by (auto simp: item_ok_def)
  next
    case False
    then have "shards t' ! j = shards t ! j" using sh(1) by simp
    then show ?thesis using ok_shard(1,2) [OF ok j] pins by (auto simp: item_ok_def)
  qed
  have "int (length (concat (shards t'))) = int (length (concat (shards t))) + int (length sh) - int (length (shards t ! i))"
    using length_concat_update [of i "shards t" sh] i l sh(1) by simp
  then have "sint (item_count t') = int (length (concat (shards t')))"
    using ok n(1) by (simp add: tracker_ok_def)
  then show ?thesis using ok shard n(2) rest l sh(1) by (simp add: tracker_ok_def)
qed

lemma tracker_ok_pins:
  assumes "tracker_ok hash t" "\<And>c e. map_of (exponents t) c = Some e \<Longrightarrow> map_of (exponents t') c = Some e"
    "shards t' = shards t" "max_items t' = max_items t" "live t' = live t" "item_count t' = item_count t"
  shows "tracker_ok hash t'"
proof -
  have "0 < tracker_shards" by simp
  from tracker_ok_replace [OF assms(1) this, of t' "shards t ! 0"] show ?thesis
    using assms ok_shard(1,2) [OF assms(1), of 0] by (auto simp: item_ok_def tracker_ok_def)
qed

lemma new_tracker_ok: "tracker_ok hash (new_tracker n)"
  by (auto simp: tracker_ok_def new_tracker_def)

lemma abs_new: "abs_tracker hash (new_tracker n) = spec_new"
  by (auto simp: abs_tracker_def tracked_def new_tracker_def spec_new_def)

lemma track_in_shard_refines:
  assumes ok: "tracker_ok hash t" and top: "sint (max_items t) < max_i64"
    and m: "item_ok t \<lparr>item_money = m, enqueued_at = since\<rparr>"
    and t'_def: "t' = track_in_shard hash k m since t"
  shows "tracker_ok hash t' \<and> exponents t' = exponents t \<and> max_items t' = max_items t
     \<and> tracked hash t' =
        (case tracked hash t k of
           Some prior \<Rightarrow> (tracked hash t)(k \<mapsto> \<lparr>item_money = m, enqueued_at = min (enqueued_at prior) since\<rparr>)
         | None \<Rightarrow> if card (dom (tracked hash t)) < nat (sint (max_items t))
             then (tracked hash t)(k \<mapsto> \<lparr>item_money = m, enqueued_at = since\<rparr>) else tracked hash t)"
proof -
  let ?i = "shard_for hash (key_id k)"
  let ?sh = "shards t ! ?i"
  have l: "length (shards t) = tracker_shards" using ok_shard(3) [OF ok] .
  have shok: "map_ok ?sh" using ok_shard(1) [OF ok] by simp
  have old: "(k', it) \<in> set ?sh \<Longrightarrow> shard_for hash (key_id k') = ?i \<and> item_ok t it" for k' it
    using ok_shard(2) [OF ok, of ?i k' it] by simp
  have put: "(k', it) \<in> set (map_put k v ?sh) \<Longrightarrow> item_ok t v \<Longrightarrow> shard_for hash (key_id k') = ?i \<and> item_ok t it"
    for k' it v using set_map_putD [of "(k', it)" k v ?sh] old by auto
  have m': "item_ok t \<lparr>item_money = m, enqueued_at = a\<rparr>" for a using m by (simp add: item_ok_def)
  have cnt: "sint (item_count t) = int (card (dom (tracked hash t)))" using count_is_card [OF ok] .
  have le: "sint (item_count t) \<le> sint (max_items t)" using ok by (simp add: tracker_ok_def)
  have inc: "sint (item_count t + 1) = sint (item_count t) + 1"
    using le top cnt by (subst sint_add_i64) (simp_all add: in_i64_def)
  show ?thesis
  proof (cases "map_of ?sh k")
    case (Some prior)
    let ?v = "\<lparr>item_money = m, enqueued_at = min (enqueued_at prior) since\<rparr>"
    have t': "t' = t\<lparr>shards := (shards t)[?i := map_put k ?v ?sh]\<rparr>"
      using Some by (auto simp: t'_def track_in_shard_def min_def Let_def)
    have "tracker_ok hash t'"
    proof (rule tracker_ok_replace [OF ok, of ?i])
      show "shard_for hash (key_id k') = ?i \<and> item_ok t' it" if "(k', it) \<in> set (map_put k ?v ?sh)" for k' it
        using put [OF that m'] by (simp add: t' item_ok_def)
    qed (use shok le Some in \<open>simp_all add: t' length_put map_has_def\<close>)
    moreover have "tracked hash t k = Some prior" using Some by (simp add: tracked_def)
    ultimately show ?thesis using tracked_put [OF l, of t' hash k ?v] by (simp add: t')
  next
    case None
    let ?v = "\<lparr>item_money = m, enqueued_at = since\<rparr>"
    have n: "tracked hash t k = None" using None by (simp add: tracked_def)
    show ?thesis
    proof (cases "sint (item_count t + 1) > sint (max_items t)")
      case True
      then have t': "t' = t\<lparr>overflow := overflow t + 1\<rparr>"
        using None by (simp add: t'_def track_in_shard_def Let_def)
      have "tracker_ok hash t'" by (rule tracker_ok_pins [OF ok]) (simp_all add: t')
      moreover have "\<not> card (dom (tracked hash t)) < nat (sint (max_items t))"
        using True cnt inc by simp
      moreover have "tracked hash t' = tracked hash t" by (rule ext) (simp add: t' tracked_def)
      ultimately show ?thesis using n by (simp add: t')
    next
      case False
      then have t': "t' = t\<lparr>item_count := item_count t + 1, shards := (shards t)[?i := map_put k ?v ?sh]\<rparr>"
        using None by (simp add: t'_def track_in_shard_def Let_def)
      have "tracker_ok hash t'"
      proof (rule tracker_ok_replace [OF ok, of ?i])
        show "shard_for hash (key_id k') = ?i \<and> item_ok t' it" if "(k', it) \<in> set (map_put k ?v ?sh)" for k' it
          using put [OF that m'] by (simp add: t' item_ok_def)
      qed (use shok le False None inc in \<open>simp_all add: t' length_put map_has_def\<close>)
      moreover have "card (dom (tracked hash t)) < nat (sint (max_items t))" using False cnt inc by simp
      ultimately show ?thesis using n tracked_put [OF l, of t' hash k ?v] by (simp add: t')
    qed
  qed
qed

lemma track_refines:
  assumes ok: "tracker_ok hash t" and top: "sint (max_items t) < max_i64"
  shows "tracker_ok hash (track hash f s msg m since t)
     \<and> max_items (track hash f s msg m since t) = max_items t
     \<and> abs_tracker hash (track hash f s msg m since t)
         = spec_track (nat (sint (max_items t))) (InflightKey f s msg) m since (abs_tracker hash t)"
proof -
  let ?k = "InflightKey f s msg"
  have rej: "tracker_ok hash (t\<lparr>rejected := rejected t + 1\<rparr>)"
    "abs_tracker hash (t\<lparr>rejected := rejected t + 1\<rparr>) = abs_tracker hash t"
    by (rule tracker_ok_pins [OF ok]) (simp_all add: abs_tracker_def tracked_def fun_eq_iff)
  show ?thesis
  proof (cases "money_validate m")
    case (Some e)
    then show ?thesis using rej by (simp add: track_def spec_track_def)
  next
    case valid: None
    show ?thesis
    proof (cases "map_of (exponents t) (Currency m)")
      case (Some e)
      show ?thesis
      proof (cases "e = Exponent m")
        case True
        have m: "item_ok t \<lparr>item_money = m, enqueued_at = since\<rparr>" using valid Some True by (simp add: item_ok_def)
        have pin: "(map_of (exponents t))(Currency m \<mapsto> Exponent m) = map_of (exponents t)"
          using Some True by auto
        show ?thesis
          using track_in_shard_refines [OF ok top m refl, where k = ?k] valid Some True pin
          by (simp add: track_def pin_exponent_def spec_track_def abs_tracker_def split: option.splits)
      next
        case False
        then show ?thesis using rej valid Some
          by (simp add: track_def pin_exponent_def spec_track_def abs_tracker_def)
      qed
    next
      case None
      let ?t = "t\<lparr>exponents := map_put (Currency m) (Exponent m) (exponents t)\<rparr>"
      have ok': "tracker_ok hash ?t" by (rule tracker_ok_pins [OF ok]) (use None in auto)
      have top': "sint (max_items ?t) < max_i64" using top by simp
      have m: "item_ok ?t \<lparr>item_money = m, enqueued_at = since\<rparr>" using valid by (simp add: item_ok_def)
      have tr: "tracked hash ?t = tracked hash t" by (rule ext) (simp add: tracked_def)
      show ?thesis
        using track_in_shard_refines [OF ok' top' m refl, where k = ?k] valid None tr
        by (simp add: track_def pin_exponent_def spec_track_def abs_tracker_def split: option.splits)
    qed
  qed
qed

lemma done_refines:
  assumes ok: "tracker_ok hash t"
  shows "tracker_ok hash (tracker_done hash f s msg t)
     \<and> max_items (tracker_done hash f s msg t) = max_items t
     \<and> abs_tracker hash (tracker_done hash f s msg t) = spec_done (InflightKey f s msg) (abs_tracker hash t)"
proof -
  let ?k = "InflightKey f s msg"
  let ?i = "shard_for hash (key_id ?k)"
  let ?sh = "shards t ! ?i"
  let ?t = "tracker_done hash f s msg t"
  have l: "length (shards t) = tracker_shards" using ok_shard(3) [OF ok] .
  have shok: "map_ok ?sh" using ok_shard(1) [OF ok] by simp
  show ?thesis
  proof (cases "map_has ?sh ?k")
    case True
    have t': "?t = t\<lparr>shards := (shards t)[?i := map_del ?k ?sh], item_count := item_count t - 1\<rparr>"
      using True by (simp add: tracker_done_def Let_def)
    have pos: "0 < length ?sh" using True by (cases ?sh) (auto simp: map_has_def)
    have "length ?sh \<le> length (concat (shards t))" using length_concat_pos [of ?i "shards t"] l by simp
    then have "1 \<le> length (concat (shards t))" using pos by linarith
    then have "1 \<le> sint (item_count t)" using ok by (simp add: tracker_ok_def)
    then have dec: "sint (item_count t - 1) = sint (item_count t) - 1"
      using sint_i64_bounds [of "item_count t"] by (subst sint_diff_i64) (simp_all add: in_i64_def)
    have len: "int (length (map_del ?k ?sh)) = int (length ?sh) - 1"
      using length_del [OF shok, of ?k] True pos by (simp add: of_nat_diff Suc_leI)
    have le: "sint (item_count t) \<le> sint (max_items t)" using ok by (simp add: tracker_ok_def)
    have "tracker_ok hash ?t"
    proof (rule tracker_ok_replace [OF ok, of ?i])
      show "shard_for hash (key_id k') = ?i \<and> item_ok ?t it" if "(k', it) \<in> set (map_del ?k ?sh)" for k' it
      proof -
        have "(k', it) \<in> set ?sh" using that by (auto simp: AList.delete_eq)
        then show ?thesis using ok_shard(2) [OF ok, of ?i k' it] by (simp add: t' item_ok_def)
      qed
    qed (use shok le dec len in \<open>simp_all add: t'\<close>)
    then show ?thesis using tracked_del [OF l, of ?t hash ?k] by (simp add: t' abs_tracker_def spec_done_def)
  next
    case False
    then have "tracked hash t ?k = None" by (simp add: tracked_def map_has_def)
    then have "(tracked hash t)(?k := None) = tracked hash t" by auto
    then show ?thesis using False ok by (simp add: tracker_done_def abs_tracker_def spec_done_def Let_def)
  qed
qed

section \<open>Publishing\<close>

lemma bucket_of_in [simp]: "bucket_of now it \<in> set age_buckets"
  by (simp add: bucket_of_def age_bucket_for_def age_buckets_def)

lemma age_buckets_distinct: "distinct age_buckets"
  by code_simp

text \<open>The aggregation, cell by cell, and its keys.\<close>

lemma snapshot_cell:
  "map_get (0, 0) (map_get [] (fold (add_item now) xs agg) ck) b =
     (fst (map_get (0, 0) (map_get [] agg ck) b)
        + sum_i64 [Amount (item_money it). (k, it) \<leftarrow> xs, combo_of k it = ck \<and> bucket_of now it = b],
      snd (map_get (0, 0) (map_get [] agg ck) b)
        + of_nat (length [(k, it) \<leftarrow> xs. combo_of k it = ck \<and> bucket_of now it = b]))"
proof (induction xs arbitrary: agg)
  case Nil
  then show ?case by simp
next
  case (Cons x xs)
  obtain k it where x: "x = (k, it)" by (cases x)
  obtain minor n where mn: "map_get (0, 0) (map_get [] agg (combo_of k it)) (bucket_of now it) = (minor, n)"
    by (cases "map_get (0, 0) (map_get [] agg (combo_of k it)) (bucket_of now it)")
  show ?case unfolding fold.simps comp_def Cons.IH
    using mn by (auto simp: x add_item_def Let_def algebra_simps)
qed

lemma snapshot_keys:
  "map_has (fold (add_item now) xs agg) ck \<longleftrightarrow> map_has agg ck \<or> (\<exists>(k, it) \<in> set xs. combo_of k it = ck)"
proof (induction xs arbitrary: agg)
  case Nil
  then show ?case by simp
next
  case (Cons x xs)
  then show ?case by (cases x) (auto simp: add_item_def Let_def split: prod.splits)
qed

lemma snapshot_map_ok: "map_ok agg \<Longrightarrow> map_ok (fold (add_item now) xs agg)"
  by (induction xs arbitrary: agg) (simp_all add: add_item_def Let_def split: prod.splits)

text \<open>What one gauge should say, over the tracked map.\<close>

definition in_cell :: "(string \<Rightarrow> 64 word) \<Rightarrow> tracker \<Rightarrow> time \<Rightarrow> combo_key \<Rightarrow> string \<Rightarrow> inflight_key set" where
  "in_cell hash t now ck b =
     {k. \<exists>it. tracked hash t k = Some it \<and> combo_of k it = ck \<and> bucket_of now it = b}"

definition cell_value :: "(string \<Rightarrow> 64 word) \<Rightarrow> tracker \<Rightarrow> time \<Rightarrow> combo_key \<Rightarrow> string \<Rightarrow> int" where
  "cell_value hash t now ck b =
     (\<Sum>k \<in> in_cell hash t now ck b. sint (Amount (item_money (the (tracked hash t k)))))"

definition level :: "(string \<Rightarrow> 64 word) \<Rightarrow> tracker \<Rightarrow> time \<Rightarrow> combo_key \<Rightarrow> string \<Rightarrow> gauge_call" where
  "level hash t now ck b =
     \<lparr>g_flow = combo_flow ck, g_stage = combo_stage ck, g_bucket = b,
      g_money = \<lparr>Amount = word_of_int (cell_value hash t now ck b), Currency = combo_currency ck,
                 Exponent = combo_exponent ck\<rparr>,
      g_count = of_nat (card (in_cell hash t now ck b))\<rparr>"

definition occupied :: "(string \<Rightarrow> 64 word) \<Rightarrow> tracker \<Rightarrow> combo_key set" where
  "occupied hash t = {combo_of k it | k it. tracked hash t k = Some it}"

lemma sum_i64_filtered:
  "sum_i64 [f k v. (k, v) \<leftarrow> xs, P k v] = sum_i64 (map (\<lambda>(k, v). f k v) [(k, v) \<leftarrow> xs. P k v])"
  by (induction xs) auto

lemma gauge_level:
  assumes ok: "tracker_ok hash t"
  shows "gauge (snapshot now t) ck b = level hash t now ck b"
proof -
  let ?xs = "[(k, it) \<leftarrow> concat (shards t). combo_of k it = ck \<and> bucket_of now it = b]"
  have d: "distinct (map fst ?xs)"
    using ok_map [OF ok] by (simp add: map_ok_def distinct_map_filter)
  have cell: "fst ` set ?xs = in_cell hash t now ck b"
    by (force simp: in_cell_def tracked_iff [OF ok])
  have card: "card (in_cell hash t now ck b) = length ?xs"
    using distinct_card [OF d] cell by simp
  have "cell_value hash t now ck b = (\<Sum>k \<in> set (map fst ?xs). sint (Amount (item_money (the (tracked hash t k)))))"
    by (simp only: cell_value_def cell set_map)
  also have "\<dots> = (\<Sum>k\<leftarrow>map fst ?xs. sint (Amount (item_money (the (tracked hash t k)))))"
    by (rule sum_list_distinct_conv_sum_set [OF d, symmetric])
  also have "\<dots> = (\<Sum>(k, it)\<leftarrow>?xs. sint (Amount (item_money it)))"
  proof -
    have "the (tracked hash t k) = it" if "(k, it) \<in> set ?xs" for k it
      using that tracked_iff [OF ok, of k it] by auto
    then have "map (\<lambda>k. sint (Amount (item_money (the (tracked hash t k))))) (map fst ?xs)
        = map (\<lambda>(k, it). sint (Amount (item_money it))) ?xs"
      unfolding map_map by (intro map_cong refl) (auto simp: comp_def split: prod.splits)
    then show ?thesis by (rule arg_cong [where f = sum_list])
  qed
  finally have v: "cell_value hash t now ck b = (\<Sum>(k, it)\<leftarrow>?xs. sint (Amount (item_money it)))" .
  have "sum_i64 (map (\<lambda>(k, it). Amount (item_money it)) ?xs) = word_of_int (cell_value hash t now ck b)"
    unfolding sum_i64_word_of_int v by (simp add: comp_def split_def)
  then show ?thesis
    using snapshot_cell [of now "concat (shards t)" "[]" ck b]
    by (simp add: gauge_def level_def snapshot_def card sum_i64_filtered [where f = "\<lambda>k it. Amount (item_money it)"])
qed

lemma snapshot_occupied:
  assumes "tracker_ok hash t"
  shows "map_has (snapshot now t) ck \<longleftrightarrow> ck \<in> occupied hash t"
  unfolding snapshot_def snapshot_keys occupied_def tracked_iff [OF assms] by auto

lemma fold_insert_list: "set (fold List.insert xs ys) = set xs \<union> set ys"
  "distinct ys \<Longrightarrow> distinct (fold List.insert xs ys)"
  by (induction xs arbitrary: ys) (auto simp: distinct_insert)

lemma concat_map_product:
  "concat (map (\<lambda>x. map (f x) ys) xs) = map (\<lambda>(x, y). f x y) (List.product xs ys)"
  by (induction xs) auto

lemma publish_calls:
  assumes ok: "tracker_ok hash t"
  obtains cks where "distinct cks" "set cks = occupied hash t \<union> set (live t)"
    "fst (publish now t) = map (\<lambda>(ck, b). level hash t now ck b) (List.product cks age_buckets)"
proof -
  let ?agg = "snapshot now t"
  let ?alive = "fold List.insert (map fst ?agg) (live t)"
  let ?cks = "map fst ?agg @ filter (\<lambda>ck. \<not> map_has ?agg ck) ?alive"
  have has: "ck \<in> fst ` set ?agg \<longleftrightarrow> ck \<in> occupied hash t" for ck
    using snapshot_occupied [OF ok, of now ck] by (simp add: map_has_iff)
  have "distinct (map fst ?agg)"
    using snapshot_map_ok [of "[]" now "concat (shards t)"] by (simp add: snapshot_def map_ok_def)
  moreover have "distinct ?alive"
    by (rule fold_insert_list(2)) (use ok in \<open>simp add: tracker_ok_def\<close>)
  ultimately have "distinct ?cks" by (auto simp: map_has_iff)
  moreover have "set ?cks = occupied hash t \<union> set (live t)"
    using has by (auto simp: fold_insert_list map_has_iff)
  moreover have "fst (publish now t) = map (\<lambda>(ck, b). level hash t now ck b) (List.product ?cks age_buckets)"
    by (simp add: publish_def Let_def concat_map_product gauge_level [OF ok] del: map_append)
  ultimately show thesis by (rule that)
qed

lemma publish_live:
  assumes ok: "tracker_ok hash t"
  shows "set (live (snd (publish now t))) = occupied hash t" "distinct (live (snd (publish now t)))"
proof -
  have has: "map_has (snapshot now t) ck \<longleftrightarrow> ck \<in> occupied hash t" for ck
    by (rule snapshot_occupied [OF ok])
  show "set (live (snd (publish now t))) = occupied hash t"
    using has by (auto simp: publish_def Let_def fold_insert_list map_has_iff)
  show "distinct (live (snd (publish now t)))"
    using fold_insert_list(2) [of "live t"] ok by (simp add: publish_def Let_def tracker_ok_def)
qed

lemma occupied_ok:
  assumes ok: "tracker_ok hash t" and "ck \<in> occupied hash t"
  shows "\<not> currency_bad (combo_currency ck) \<and> 0 \<le> sint (combo_exponent ck) \<and> sint (combo_exponent ck) \<le> 4"
proof -
  from assms(2) obtain k it where k: "tracked hash t k = Some it" "ck = combo_of k it"
    by (auto simp: occupied_def)
  then have "(k, it) \<in> set (shards t ! shard_for hash (key_id k))"
    using map_ok_map_of [OF ok_shard(1) [OF ok shard_for_less]] by (simp add: tracked_def)
  then have "item_ok t it" using ok_shard(2) [OF ok shard_for_less] by blast
  then show ?thesis using k(2) by (simp add: item_ok_def combo_of_def money_validate_None)
qed

lemma publish_refines:
  assumes ok: "tracker_ok hash t"
  shows "tracker_ok hash (snd (publish now t)) \<and> max_items (snd (publish now t)) = max_items t
     \<and> abs_tracker hash (snd (publish now t)) = abs_tracker hash t"
proof -
  let ?t = "snd (publish now t)"
  have same: "shards ?t = shards t" "exponents ?t = exponents t" "max_items ?t = max_items t" "item_count ?t = item_count t"
    by (simp_all add: publish_def Let_def)
  have "tracker_ok hash ?t"
    using ok publish_live [OF ok] occupied_ok [OF ok] same by (simp add: tracker_ok_def)
  then show ?thesis using same by (simp add: abs_tracker_def tracked_def fun_eq_iff)
qed

section \<open>Properties\<close>

lemma sint_wrap_neg_iff: "sint (word_of_int v :: i64) < 0 \<longleftrightarrow> v mod 2 ^ 64 \<ge> 2 ^ 63"
proof -
  let ?r = "v mod 18446744073709551616"
  have r: "0 \<le> ?r" "?r < 18446744073709551616" by simp_all
  have "sint (word_of_int v :: i64) = (v + 9223372036854775808) mod 18446744073709551616 - 9223372036854775808"
    by (simp add: sint_sbintrunc' signed_take_bit_eq_take_bit_shift take_bit_eq_mod)
  also have "(v + 9223372036854775808) mod 18446744073709551616 = (?r + 9223372036854775808) mod 18446744073709551616"
    by (simp add: mod_add_left_eq)
  also have "\<dots> = (if ?r < 9223372036854775808 then ?r + 9223372036854775808 else ?r - 9223372036854775808)"
  proof (cases "?r < 9223372036854775808")
    case True
    then show ?thesis using r by (simp add: mod_pos_pos_trivial)
  next
    case False
    have "(?r + 9223372036854775808) mod 18446744073709551616
        = (?r + 9223372036854775808 - 18446744073709551616) mod 18446744073709551616"
      by (rule minus_mod_self2 [symmetric])
    also have "\<dots> = ?r - 9223372036854775808" using False r by (simp add: mod_pos_pos_trivial)
    finally show ?thesis using False by simp
  qed
  finally have "sint (word_of_int v :: i64) = (if ?r < 9223372036854775808 then ?r else ?r - 18446744073709551616)"
    by simp
  then have "sint (word_of_int v :: i64) < 0 \<longleftrightarrow> ?r \<ge> 9223372036854775808" using r by (cases "?r < 9223372036854775808") simp_all
  then show ?thesis by simp
qed

text \<open>Any sequence of calls.\<close>

datatype tracker_op = Track string string string money time | Done string string string | Publish time

fun run_op :: "(string \<Rightarrow> 64 word) \<Rightarrow> tracker_op \<Rightarrow> tracker \<Rightarrow> tracker" where
  "run_op hash (Track f s msg m since) t = track hash f s msg m since t"
| "run_op hash (Done f s msg) t = tracker_done hash f s msg t"
| "run_op hash (Publish now) t = snd (publish now t)"

fun spec_op :: "nat \<Rightarrow> tracker_op \<Rightarrow> in_flight \<Rightarrow> in_flight" where
  "spec_op bound (Track f s msg m since) a = spec_track bound (InflightKey f s msg) m since a"
| "spec_op bound (Done f s msg) a = spec_done (InflightKey f s msg) a"
| "spec_op bound (Publish now) a = a"

lemma run_ops_refine:
  assumes "tracker_ok hash t" "sint (max_items t) < max_i64"
  shows "tracker_ok hash (fold (run_op hash) ops t) \<and> max_items (fold (run_op hash) ops t) = max_items t
     \<and> abs_tracker hash (fold (run_op hash) ops t) = fold (spec_op (nat (sint (max_items t)))) ops (abs_tracker hash t)"
  using assms
proof (induction ops arbitrary: t)
  case Nil
  then show ?case by simp
next
  case (Cons op ops)
  have "tracker_ok hash (run_op hash op t) \<and> max_items (run_op hash op t) = max_items t
      \<and> abs_tracker hash (run_op hash op t) = spec_op (nat (sint (max_items t))) op (abs_tracker hash t)"
    using track_refines [OF Cons.prems] done_refines [OF Cons.prems(1)] publish_refines [OF Cons.prems(1)]
    by (cases op) simp_all
  then show ?case using Cons.IH [of "run_op hash op t"] Cons.prems(2) by simp
qed

text \<open>C7: the sharded tracker is one bounded map. After any sequence of calls, under any hash, looking
  a key up in its shard gives what the abstract map gives (the oldest enqueue time, the last money,
  one exponent per currency, new keys only below the bound), and the atomic counter is exactly the
  number of tracked keys, which never exceeds the bound.\<close>

theorem tracker_refines:
  assumes "1 \<le> sint n" "sint n < max_i64"
  shows "abs_tracker hash (fold (run_op hash) ops (new_tracker n)) = fold (spec_op (nat (sint n))) ops spec_new
     \<and> sint (item_count (fold (run_op hash) ops (new_tracker n)))
         = int (card (dom (inflight_map (fold (spec_op (nat (sint n))) ops spec_new))))
     \<and> card (dom (inflight_map (fold (spec_op (nat (sint n))) ops spec_new))) \<le> nat (sint n)"
proof -
  let ?t = "fold (run_op hash) ops (new_tracker n)"
  have m: "max_items (new_tracker n) = n" using assms(1) by (simp add: new_tracker_def)
  have r: "tracker_ok hash ?t" "max_items ?t = n"
      "abs_tracker hash ?t = fold (spec_op (nat (sint n))) ops spec_new"
    using run_ops_refine [OF new_tracker_ok [of hash n], of ops] assms(2) m abs_new [of hash n] by simp_all
  have "sint (item_count ?t) \<le> sint n" using r(1,2) by (simp add: tracker_ok_def)
  then show ?thesis using r(3) count_is_card [OF r(1)] by (auto simp flip: r(3) simp: abs_tracker_def)
qed

theorem tracker_refines_witness:
  "sint (item_count (fold (run_op (\<lambda>_. 7)) [Track ''f'' ''q'' ''1'' \<lparr>Amount = 5, Currency = ''EUR'', Exponent = 2\<rparr> 9,
      Track ''f'' ''q'' ''2'' \<lparr>Amount = 5, Currency = ''EUR'', Exponent = 3\<rparr> 9] (new_tracker 4))) \<le> 4"
    (is "sint (item_count (fold _ ?ops _)) \<le> 4")
proof -
  have "1 \<le> sint (4 :: i64)" "sint (4 :: i64) < max_i64" by code_simp+
  from tracker_refines [OF this, of "\<lambda>_. 7" ?ops] show ?thesis by (simp del: fold.simps)
qed

text \<open>one \<open>Publish\<close> sends exactly one gauge for every bucket of every combination that has items or
  had a published level, with the sum (in \<open>int64\<close>) and the number of the items whose age falls in the
  bucket; combinations that emptied are sent zeroes and then retired, so the next round covers
  exactly the combinations that have items now.\<close>

theorem publish_exact:
  assumes "tracker_ok hash t"
  shows "set (fst (publish now t)) =
       {level hash t now ck b | ck b. ck \<in> occupied hash t \<union> set (live t) \<and> b \<in> set age_buckets}
     \<and> distinct (map (\<lambda>g. (g_flow g, g_stage g, Currency (g_money g), Exponent (g_money g), g_bucket g))
          (fst (publish now t)))
     \<and> set (live (snd (publish now t))) = occupied hash t
     \<and> tracker_ok hash (snd (publish now t))"
proof -
  obtain cks where c: "distinct cks" "set cks = occupied hash t \<union> set (live t)"
      "fst (publish now t) = map (\<lambda>(ck, b). level hash t now ck b) (List.product cks age_buckets)"
    using publish_calls [OF assms] .
  have k: "map (\<lambda>g. (g_flow g, g_stage g, Currency (g_money g), Exponent (g_money g), g_bucket g)) (fst (publish now t))
     = map (\<lambda>(ck, b). (combo_flow ck, combo_stage ck, combo_currency ck, combo_exponent ck, b)) (List.product cks age_buckets)"
    by (simp add: c(3) level_def comp_def split_def)
  have "inj (\<lambda>(ck, b). (combo_flow ck, combo_stage ck, combo_currency ck, combo_exponent ck, b))"
    by (rule injI) (auto intro: combo_key.expand)
  then have "distinct (map (\<lambda>g. (g_flow g, g_stage g, Currency (g_money g), Exponent (g_money g), g_bucket g)) (fst (publish now t)))"
    unfolding k distinct_map using c(1) age_buckets_distinct by (auto simp: distinct_product intro: inj_on_subset)
  moreover have "set (fst (publish now t)) =
      {level hash t now ck b | ck b. ck \<in> occupied hash t \<union> set (live t) \<and> b \<in> set age_buckets}"
    by (auto simp: c(2,3))
  ultimately show ?thesis using publish_live(1) [OF assms] publish_refines [OF assms] by simp
qed

theorem publish_exact_witness:
  "live (snd (publish 0 (new_tracker 3))) = []"
  using publish_exact [OF new_tracker_ok [of "\<lambda>_. 0" 3], of 0]
  by (simp add: occupied_def tracked_def new_tracker_def)

text \<open>what the emitter does with a published gauge depends only on the sum fitting \<open>int64\<close>: a sum
  of the tracked amounts that wraps to a negative number makes the emitter drop the gauge, and
  every other gauge reaches the series with its value.\<close>

theorem published_gauge_fate:
  assumes "tracker_ok hash t" "ck \<in> occupied hash t \<union> set (live t)" "b \<in> set age_buckets"
  shows "send_gauge clock (level hash t now ck b) s =
     (if cell_value hash t now ck b mod 2 ^ 64 \<ge> 2 ^ 63 then drop_invalid s
      else append_metrics (inflight_points (em_reg s) clock (combo_flow ck) (combo_stage ck) b
             (g_money (level hash t now ck b)) (of_nat (card (in_cell hash t now ck b)))) s)"
proof -
  have cur: "\<not> currency_bad (combo_currency ck) \<and> 0 \<le> sint (combo_exponent ck) \<and> sint (combo_exponent ck) \<le> 4"
    using assms(2) occupied_ok [OF assms(1)] assms(1) by (auto simp: tracker_ok_def)
  have "card (in_cell hash t now ck b) \<le> card (dom (tracked hash t))"
    by (rule card_mono [OF finite_tracked [OF assms(1)]]) (auto simp: in_cell_def)
  then have "int (card (in_cell hash t now ck b)) \<le> max_i64"
    using count_is_card [OF assms(1)] sint_i64_bounds(2) [of "item_count t"] by linarith
  then have n: "0 \<le> sint (of_nat (card (in_cell hash t now ck b)) :: i64)"
    using sint_of_int_i64 [of "int (card (in_cell hash t now ck b))"] by (simp add: in_i64_def)
  let ?v = "cell_value hash t now ck b"
  have w: "sint (word_of_int ?v :: i64) < 0 \<longleftrightarrow> ?v mod 2 ^ 64 \<ge> 2 ^ 63" by (rule sint_wrap_neg_iff)
  show ?thesis
    using cur n assms(3) w unfolding send_gauge_def set_in_flight_def
    by (cases "sint (word_of_int ?v :: i64) < 0") (simp_all add: level_def money_validate_None)
qed

text \<open>Two items whose sum does not fit.\<close>

definition big_money :: money where
  "big_money = \<lparr>Amount = 4611686018427387904, Currency = ''EUR'', Exponent = 2\<rparr>"

definition big_tracker :: tracker where
  "big_tracker = fold (run_op (\<lambda>_. 0)) [Track ''f'' ''q'' ''1'' big_money 0, Track ''f'' ''q'' ''2'' big_money 0] (new_tracker 4)"

lemma big_tracker_ok: "tracker_ok (\<lambda>_. 0) big_tracker"
proof -
  have "sint (max_items (new_tracker 4)) < max_i64" by code_simp
  then show ?thesis using run_ops_refine [OF new_tracker_ok [of _ 4]] by (simp only: big_tracker_def)
qed

lemma big_tracker_tracked:
  "tracked (\<lambda>_. 0) big_tracker = [InflightKey ''f'' ''q'' ''1'' \<mapsto> \<lparr>item_money = big_money, enqueued_at = 0\<rparr>,
     InflightKey ''f'' ''q'' ''2'' \<mapsto> \<lparr>item_money = big_money, enqueued_at = 0\<rparr>]"
proof -
  have "shards big_tracker ! 0 = [(InflightKey ''f'' ''q'' ''1'', \<lparr>item_money = big_money, enqueued_at = 0\<rparr>),
     (InflightKey ''f'' ''q'' ''2'', \<lparr>item_money = big_money, enqueued_at = 0\<rparr>)]"
    by code_simp
  then show ?thesis by (auto simp: tracked_def shard_for_def fun_eq_iff)
qed

lemma big_cell:
  "cell_value (\<lambda>_. 0) big_tracker 0 (ComboKey ''f'' ''q'' ''EUR'' 2) age_lt1m = 2 ^ 63"
proof -
  have b: "bucket_of 0 \<lparr>item_money = big_money, enqueued_at = 0\<rparr> = age_lt1m" by code_simp
  have a: "sint (Amount big_money) = 2 ^ 62" by code_simp
  have c: "combo_of (InflightKey ''f'' ''q'' x) \<lparr>item_money = big_money, enqueued_at = 0\<rparr> = ComboKey ''f'' ''q'' ''EUR'' 2" for x
    by (simp add: combo_of_def big_money_def)
  have "in_cell (\<lambda>_. 0) big_tracker 0 (ComboKey ''f'' ''q'' ''EUR'' 2) age_lt1m
      = {InflightKey ''f'' ''q'' ''1'', InflightKey ''f'' ''q'' ''2''}"
    using b c by (auto simp: in_cell_def big_tracker_tracked split: if_splits)
  then show ?thesis using a by (simp add: cell_value_def big_tracker_tracked)
qed

theorem published_gauge_fate_witness:
  "drop_counts (send_gauge 0 (level (\<lambda>_. 0) big_tracker 0 (ComboKey ''f'' ''q'' ''EUR'' 2) age_lt1m) demo_emitter)
     = [(''invalid'', 1)]"
proof -
  have "ComboKey ''f'' ''q'' ''EUR'' 2 = combo_of (InflightKey ''f'' ''q'' ''1'') \<lparr>item_money = big_money, enqueued_at = 0\<rparr>"
    by (simp add: combo_of_def big_money_def)
  then have o: "ComboKey ''f'' ''q'' ''EUR'' 2 \<in> occupied (\<lambda>_. 0) big_tracker \<union> set (live big_tracker)"
    unfolding occupied_def big_tracker_tracked by force
  have b: "age_lt1m \<in> set age_buckets" by code_simp
  show ?thesis
    using published_gauge_fate [OF big_tracker_ok o b, of 0 0 demo_emitter]
    by (simp add: big_cell drop_invalid_def demo_emitter_def map_add_def)
qed

end
