(* ===== verification/Query.thy ===== *)
theory Query
  imports Float64 Biz_Context "HOL-Library.List_Lexorder" "HOL-Library.Char_ord" "HOL-Library.Product_Lexorder"
begin

text \<open>
  \<open>query/query.go\<close> and \<open>query/combine.go\<close>: the questions the engine may ask a backend and the
  answers it gets. A \<open>Querier\<close> is the record of its three methods; a report reads one state of a
  backend, so the methods are functions of the question. Strings are ordered bytewise, as Go
  orders them.
\<close>

type_synonym labels = "(string, string) gomap"

definition agg_sum :: string where "agg_sum = ''sum''"
definition agg_count :: string where "agg_count = ''count''"

record time_range =
  From :: time
  To :: time

record metric_query =
  Metric :: string
  QAgg :: string
  QFilters :: labels
  QGroupBy :: "string list"
  QRange :: time_range
  QStep :: duration

definition agg_groups :: string where "agg_groups = ''''"
definition agg_distinct_count :: string where "agg_distinct_count = ''distinct_count''"
definition agg_max_per_group :: string where "agg_max_per_group = ''max_per_group''"

definition order_none :: string where "order_none = ''''"
definition order_sum_desc :: string where "order_sum_desc = ''sum_desc''"
definition order_count_desc :: string where "order_count_desc = ''count_desc''"

lemmas agg_defs = agg_groups_def agg_distinct_count_def agg_max_per_group_def agg_sum_def agg_count_def
lemmas order_defs = order_none_def order_sum_desc_def order_count_desc_def

record event_query =
  EFilters :: labels
  EGroupBy :: "string list"
  ERange :: time_range
  EAgg :: string
  EOrderBy :: string
  ELimit :: int

record point =
  PtAt :: time
  PtValue :: f64

record series_slice =
  SLabels :: labels
  SPoints :: "point list"

record event_group =
  GKey :: labels
  GCount :: i64
  GSum :: i64
  GMax :: i64

record caps =
  CMetrics :: bool
  CEvents :: bool
  CMetricWeeks :: int
  CEventWeeks :: int

datatype query_error = ErrUnsupported | BackendError string

fun error_text :: "query_error \<Rightarrow> string" where
  "error_text ErrUnsupported = ''query: this signal kind is not supported by this backend''"
| "error_text (BackendError s) = s"

record querier =
  query_metric :: "metric_query \<Rightarrow> query_error + series_slice list"
  query_events :: "event_query \<Rightarrow> query_error + event_group list"
  capabilities :: caps

text \<open>Zero values of the question structs, for the fields a caller leaves out.\<close>

definition metric_query_zero :: metric_query where
  "metric_query_zero = \<lparr>Metric = [], QAgg = [], QFilters = [], QGroupBy = [],
     QRange = \<lparr>From = zero_time, To = zero_time\<rparr>, QStep = 0\<rparr>"

definition event_query_zero :: event_query where
  "event_query_zero = \<lparr>EFilters = [], EGroupBy = [], ERange = \<lparr>From = zero_time, To = zero_time\<rparr>,
     EAgg = agg_groups, EOrderBy = order_none, ELimit = 0\<rparr>"

section \<open>Two backends as one\<close>

definition combined :: "querier \<Rightarrow> querier \<Rightarrow> querier" where
  "combined metrics events =
     \<lparr>query_metric = query_metric metrics, query_events = query_events events,
      capabilities = \<lparr>CMetrics = CMetrics (capabilities metrics), CEvents = CEvents (capabilities events),
        CMetricWeeks = CMetricWeeks (capabilities metrics), CEventWeeks = CEventWeeks (capabilities events)\<rparr>\<rparr>"

text \<open>\<open>None\<close> is a nil interface on the left of the arrow and a panic on the right.\<close>

definition combine :: "querier option \<Rightarrow> querier option \<Rightarrow> querier option" where
  "combine metrics events =
     (case (metrics, events) of (Some m, Some e) \<Rightarrow> Some (combined m e) | _ \<Rightarrow> None)"

section \<open>What an event query means\<close>

text \<open>The label view of an outcome: what can be filtered on and grouped by.\<close>

definition event_labels :: "outcome \<Rightarrow> labels" where
  "event_labels o' =
     [(''flow'', Flow (VC o')), (''stage'', Stage o'), (''outcome'', Result o'),
      (''currency'', Currency (Money (VC o'))), (''segment'', Segment (VC o')), (''kind'', Kind (VC o')),
      (''customer'', CustomerID (VC o')), (''entity'', EntityID (VC o'))]"

abbreviation amount_of :: "outcome \<Rightarrow> i64" where
  "amount_of o' \<equiv> Amount (Money (VC o'))"

definition in_range :: "time \<Rightarrow> time_range \<Rightarrow> bool" where
  "in_range t r \<longleftrightarrow> \<not> t < From r \<and> t < To r"

definition match_filters :: "labels \<Rightarrow> labels \<Rightarrow> bool" where
  "match_filters lbls filters \<longleftrightarrow> list_all (\<lambda>(k, v). map_get [] lbls k = v) filters"

definition group_key :: "labels \<Rightarrow> string list \<Rightarrow> labels" where
  "group_key lbls group_by = fold (\<lambda>k key. map_put k (map_get [] lbls k) key) group_by []"

definition matched :: "outcome list \<Rightarrow> event_query \<Rightarrow> outcome list" where
  "matched evs q = [o' \<leftarrow> evs. in_range (At o') (ERange q) \<and> match_filters (event_labels o') (EFilters q)]"

abbreviation event_key :: "event_query \<Rightarrow> outcome \<Rightarrow> labels" where
  "event_key q o' \<equiv> group_key (event_labels o') (EGroupBy q)"

text \<open>The groups of a question over a store: one per key that occurs, with its exact numbers.\<close>

definition group_of :: "outcome list \<Rightarrow> event_query \<Rightarrow> labels \<Rightarrow> outcome list" where
  "group_of evs q key = [o' \<leftarrow> matched evs q. event_key q o' = key]"

definition answers :: "outcome list \<Rightarrow> event_query \<Rightarrow> event_group list \<Rightarrow> bool" where
  "answers evs q gs \<longleftrightarrow>
     distinct (map GKey gs)
     \<and> GKey ` set gs = event_key q ` set (matched evs q)
     \<and> (\<forall>g \<in> set gs.
          GCount g = of_nat (length (group_of evs q (GKey g)))
          \<and> GSum g = sum_i64 (map amount_of (group_of evs q (GKey g)))
          \<and> sint (GMax g) = (if EAgg q = agg_max_per_group
               then Max (sint ` amount_of ` set (group_of evs q (GKey g))) else 0))"

text \<open>Money is only read per currency.\<close>

definition currency_known :: "event_query \<Rightarrow> bool" where
  "currency_known q \<longleftrightarrow> map_has (EFilters q) ''currency'' \<or> ''currency'' \<in> set (EGroupBy q)"

text \<open>
  A store whose label values hold no NUL byte; every validated outcome is one. The contract of an
  event backend is about such stores, because the code joins label values with NUL bytes.
\<close>

definition nul_free_label :: "string \<Rightarrow> bool" where
  "nul_free_label s \<longleftrightarrow> CHR 0x00 \<notin> set s"

definition clean_event :: "outcome \<Rightarrow> bool" where
  "clean_event o' \<longleftrightarrow> list_all (\<lambda>(k, v). nul_free_label v) (event_labels o')"

lemma event_labels_get [simp]:
  "map_get [] (event_labels o') ''flow'' = Flow (VC o')"
  "map_get [] (event_labels o') ''stage'' = Stage o'"
  "map_get [] (event_labels o') ''outcome'' = Result o'"
  "map_get [] (event_labels o') ''currency'' = Currency (Money (VC o'))"
  "map_get [] (event_labels o') ''segment'' = Segment (VC o')"
  "map_get [] (event_labels o') ''kind'' = Kind (VC o')"
  "map_get [] (event_labels o') ''customer'' = CustomerID (VC o')"
  "map_get [] (event_labels o') ''entity'' = EntityID (VC o')"
  by (simp_all add: event_labels_def map_get_def)

lemma map_put_new: "k \<notin> fst ` set m \<Longrightarrow> map_put k v m = m @ [(k, v)]"
  by (induction m) auto

lemma group_key_fold:
  "distinct ks \<Longrightarrow> fst ` set key \<inter> set ks = {} \<Longrightarrow>
     fold (\<lambda>k key. map_put k (map_get [] lbls k) key) ks key = key @ map (\<lambda>k. (k, map_get [] lbls k)) ks"
proof (induction ks arbitrary: key)
  case Nil
  then show ?case by simp
next
  case (Cons k ks)
  then have "fold (\<lambda>k key. map_put k (map_get [] lbls k) key) ks (key @ [(k, map_get [] lbls k)])
      = (key @ [(k, map_get [] lbls k)]) @ map (\<lambda>k. (k, map_get [] lbls k)) ks"
    by (intro Cons.IH) auto
  then show ?case using Cons.prems by (simp add: map_put_new)
qed

lemma group_key_distinct:
  "distinct ks \<Longrightarrow> group_key lbls ks = map (\<lambda>k. (k, map_get [] lbls k)) ks"
  using group_key_fold [of ks "[]"] by (simp add: group_key_def)

text \<open>Two events fall into one group exactly when they agree on every grouping label.\<close>

lemma group_key_eq_iff:
  "distinct ks \<Longrightarrow> group_key l ks = group_key l' ks \<longleftrightarrow> (\<forall>k \<in> set ks. map_get [] l k = map_get [] l' k)"
  by (auto simp: group_key_distinct)

lemma group_key_get:
  "distinct ks \<Longrightarrow> map_get [] (group_key l ks) k = (if k \<in> set ks then map_get [] l k else [])"
  by (auto simp: group_key_distinct map_get_def map_of_map_restrict restrict_map_def)

lemma clean_event_get: "clean_event o' \<Longrightarrow> nul_free_label (map_get [] (event_labels o') k)"
  by (auto simp: clean_event_def event_labels_def map_get_def nul_free_label_def)

lemma validated_clean: "outcome_validate o' = None \<Longrightarrow> clean_event o'"
proof -
  assume v: "outcome_validate o' = None"
  have tok: "nul_free_label s" if "list_all (\<lambda>c. token_rune (byte c)) s" for s
    using that by (auto simp: nul_free_label_def list_all_iff token_rune_def char_class_iff)
  have idt: "nul_free_label s" if "list_all (\<lambda>c. id_rune (byte c)) s" for s
    using that by (auto simp: nul_free_label_def list_all_iff id_rune_def)
  have up: "nul_free_label s" if "list_all (\<lambda>b. is_upper (byte b)) s" for s
    using that by (auto simp: nul_free_label_def list_all_iff is_upper_iff)
  have "nul_free_label (Result o')" "nul_free_label (Kind (VC o'))"
    using v by (auto simp: outcome_validate_None vc_validate_None result_valid_def kind_valid_def
        res_defs kind_defs nul_free_label_def)
  moreover have "nul_free_label (Segment (VC o'))"
    using v tok [of "Segment (VC o')"] by (auto simp: outcome_validate_None vc_validate_None nul_free_label_def)
  moreover have "nul_free_label (Currency (Money (VC o')))"
    using v up by (simp add: outcome_validate_None vc_validate_None money_validate_None currency_bad_iff)
  ultimately show ?thesis
    using v tok idt by (simp add: clean_event_def event_labels_def outcome_validate_None vc_validate_None)
qed

text \<open>Summing groups is summing the events they cover.\<close>

lemma partition_sum:
  assumes "finite K" "key ` set evs \<subseteq> K"
  shows "(\<Sum>k \<in> {k \<in> K. P k}. \<Sum>x\<leftarrow>[x \<leftarrow> evs. key x = k]. f x) = (\<Sum>x\<leftarrow>[x \<leftarrow> evs. P (key x)]. f x :: int)"
  using assms(2)
proof (induction evs)
  case Nil
  then show ?case by simp
next
  case (Cons e evs)
  have split: "(\<Sum>x\<leftarrow>[x \<leftarrow> e # evs. key x = k]. f x) = (if k = key e then f e else 0) + (\<Sum>x\<leftarrow>[x \<leftarrow> evs. key x = k]. f x)"
    for k by simp
  have "(\<Sum>k \<in> {k \<in> K. P k}. (if k = key e then f e else 0)) = (if P (key e) then f e else 0)"
    using Cons.prems assms(1) by (simp add: sum.delta)
  then show ?case using Cons by (simp only: split sum.distrib) simp
qed

lemma answers_sum:
  assumes "answers evs q gs"
  shows "sum_i64 (map GSum [g \<leftarrow> gs. P (GKey g)]) = sum_i64 (map amount_of [o' \<leftarrow> matched evs q. P (event_key q o')])"
proof -
  let ?M = "matched evs q"
  let ?v = "\<lambda>k. \<Sum>o'\<leftarrow>[o' \<leftarrow> ?M. event_key q o' = k]. sint (amount_of o')"
  have d: "distinct (map GKey [g \<leftarrow> gs. P (GKey g)])"
    using assms by (auto simp: answers_def distinct_map intro: inj_on_subset)
  have w: "word_of_int (sint (GSum g)) = (word_of_int (?v (GKey g)) :: i64)" if "g \<in> set gs" for g
    using assms that by (simp add: answers_def group_of_def sum_i64_word_of_int comp_def)
  have "sum_i64 (map GSum [g \<leftarrow> gs. P (GKey g)]) = sum_i64 (map (\<lambda>g. word_of_int (?v (GKey g))) [g \<leftarrow> gs. P (GKey g)])"
    using w by (intro arg_cong [where f = sum_i64] map_cong) auto
  also have "\<dots> = word_of_int (\<Sum>k\<leftarrow>map GKey [g \<leftarrow> gs. P (GKey g)]. ?v k)"
  proof -
    have "sum_i64 (map (\<lambda>x. word_of_int (h x)) xs) = word_of_int (\<Sum>x\<leftarrow>xs. h x)" for h :: "event_group \<Rightarrow> int" and xs
      by (induction xs) (simp_all flip: wi_hom_add)
    then show ?thesis by (simp add: comp_def)
  qed
  also have "(\<Sum>k\<leftarrow>map GKey [g \<leftarrow> gs. P (GKey g)]. ?v k) = (\<Sum>k \<in> {k \<in> event_key q ` set ?M. P k}. ?v k)"
  proof -
    have "set (map GKey [g \<leftarrow> gs. P (GKey g)]) = {k \<in> GKey ` set gs. P k}" by auto
    then show ?thesis using sum_list_distinct_conv_sum_set [OF d, of ?v] assms by (simp add: answers_def)
  qed
  also have "\<dots> = (\<Sum>o'\<leftarrow>[o' \<leftarrow> ?M. P (event_key q o')]. sint (amount_of o'))"
    by (rule partition_sum) simp_all
  finally show ?thesis by (simp add: sum_i64_word_of_int comp_def)
qed

text \<open>The contract between the engine and an event backend.\<close>

locale event_backend =
  fixes q :: querier and store :: "outcome list"
  assumes serves: "CEvents (capabilities q)"
    and grouped: "list_all clean_event store \<Longrightarrow> distinct (EGroupBy eq) \<Longrightarrow> currency_known eq
      \<Longrightarrow> EAgg eq \<in> {agg_groups, agg_max_per_group} \<Longrightarrow> EOrderBy eq = order_none \<Longrightarrow> ELimit eq = 0
      \<Longrightarrow> \<exists>gs. query_events q eq = Inr gs \<and> answers store eq gs"
begin

lemma paired: "event_backend (combined m q) store"
  using serves grouped by unfold_locales (simp_all add: combined_def)

end

end
