(* ===== verification/Engine.thy ===== *)
theory Engine
  imports Query Registry
begin

text \<open>
  \<open>engine/engine.go\<close> and the filters of \<open>engine/realized.go\<close> and \<open>engine/deferred.go\<close>: requests,
  the legs of a report and how a request becomes the filters of the queries. Errors are the text
  of Go's error values. \<open>oob\<close> is the conversion of an out-of-range float to \<open>int64\<close>, which Go
  leaves to the target.
\<close>

section \<open>Requests and legs\<close>

record request =
  Window :: time_range
  Scope :: labels
  Flows :: "string list"

definition evidence_deterministic :: string where "evidence_deterministic = ''deterministic''"
definition evidence_estimate :: string where "evidence_estimate = ''estimate''"
definition evidence_trust :: string where "evidence_trust = ''trust''"

type_synonym minor_map = "(string, i64) gomap"

record leg =
  Count :: i64
  ByCurrency :: minor_map
  Evidence :: string
  Caveats :: "string list"
  Unavailable :: bool

record deferred_leg = leg +
  ByAgeBucket :: "(string, minor_map) gomap"
  SLABreaches :: i64
  OldestAgeMinutes :: i64
  ProjectedLostMinor :: minor_map

record est_leg =
  LowMinor :: minor_map
  MidMinor :: minor_map
  HighMinor :: minor_map
  EstEvidence :: string
  Notes :: "string list"
  EstUnavailable :: bool

record customer_impact =
  ImpactID :: string
  ImpactSegment :: string
  ImpactByCurrency :: minor_map

record customers_leg =
  Distinct :: i64
  BySegment :: minor_map
  TopN :: "customer_impact list"
  NotAvailableReason :: string

record coverage_leg =
  Ratio :: f64
  CovWindow :: time_range
  CovSource :: string
  CovEvidence :: string
  CovUnavailable :: string

record report =
  RepRequest :: request
  GeneratedAt :: time
  RegistryVersion :: int
  LibraryVersion :: string
  RepRealized :: leg
  RepDeferred :: deferred_leg
  RepUnrealized :: est_leg
  RepCustomers :: customers_leg
  RepCoverage :: coverage_leg
  RepSeverity :: string

definition leg_zero :: leg where
  "leg_zero = \<lparr>Count = 0, ByCurrency = [], Evidence = [], Caveats = [], Unavailable = False\<rparr>"

definition customers_zero :: customers_leg where
  "customers_zero = \<lparr>Distinct = 0, BySegment = [], TopN = [], NotAvailableReason = []\<rparr>"

section \<open>Loops that stop at the first error\<close>

fun fold_err :: "('x \<Rightarrow> 's \<Rightarrow> 'e + 's) \<Rightarrow> 'x list \<Rightarrow> 's \<Rightarrow> 'e + 's" where
  "fold_err f [] s = Inr s"
| "fold_err f (x # xs) s = (case f x s of Inl e \<Rightarrow> Inl e | Inr s' \<Rightarrow> fold_err f xs s')"

definition map_err :: "('e \<Rightarrow> 'd) \<Rightarrow> 'e + 'a \<Rightarrow> 'd + 'a" where
  "map_err g r = (case r of Inl e \<Rightarrow> Inl (g e) | Inr x \<Rightarrow> Inr x)"

lemma map_err_simps [simp]: "map_err g (Inl e) = Inl (g e)" "map_err g (Inr x) = Inr x"
  by (simp_all add: map_err_def)

lemma fold_err_Inr:
  "(\<And>x s. x \<in> set xs \<Longrightarrow> f x s = Inr (g x s)) \<Longrightarrow> fold_err f xs s = Inr (fold g xs s)"
  by (induction xs arbitrary: s) simp_all

lemma fold_err_inv:
  assumes "fold_err f xs s = Inr s'" "P s" "\<And>x s s'. x \<in> set xs \<Longrightarrow> P s \<Longrightarrow> f x s = Inr s' \<Longrightarrow> P s'"
  shows "P s'"
  using assms
proof (induction xs arbitrary: s)
  case Nil
  then show ?case by simp
next
  case (Cons x xs)
  then obtain t where t: "f x s = Inr t" "fold_err f xs t = Inr s'" by (auto split: sum.splits)
  then show ?case using Cons by (meson list.set_intros)
qed

section \<open>Filters\<close>

text \<open>One filter map per requested flow, or the scope alone when no flow is named; the reserved
  labels overwrite what the scope says about them.\<close>

definition flow_filters :: "request \<Rightarrow> string \<Rightarrow> labels list" where
  "flow_filters req out =
     (let scope = fold (\<lambda>(k, v) m. map_put k v m) (Scope req) [] in
      if Flows req = [] then [map_put ''outcome'' out scope]
      else map (\<lambda>f. map_put ''flow'' f (map_put ''outcome'' out scope)) (Flows req))"

definition inflight_filters :: "request \<Rightarrow> labels list" where
  "inflight_filters req =
     (let scope = fold (\<lambda>(k, v) m. map_put k v m) (Scope req) [] in
      if Flows req = [] then [scope] else map (\<lambda>f. map_put ''flow'' f scope) (Flows req))"

lemma scope_copy: "map_of (fold (\<lambda>(k, v) m. map_put k v m) kvs m) = map_of m ++ map_of (rev kvs)"
proof (induction kvs arbitrary: m)
  case Nil
  then show ?case by simp
next
  case (Cons kv kvs)
  then show ?case by (cases kv) (simp add: fun_eq_iff map_add_def split: option.splits)
qed

lemma map_of_rev_ok: "map_ok m \<Longrightarrow> map_of (rev m) = map_of m"
  by (rule ext) (metis map_ok_def map_of_eqI distinct_rev list.set_map map_of_eq_Some_iff
      not_Some_eq rev_map set_rev)

lemma scope_copy_ok:
  assumes "map_ok m"
  shows "map_of (fold (\<lambda>(k, v) m. map_put k v m) m []) = map_of m"
  using scope_copy [of m "[]"] map_of_rev_ok [OF assms] by simp

lemma map_ok_copy: "map_ok m \<Longrightarrow> map_ok (fold (\<lambda>(k, v) m. map_put k v m) kvs m)"
  by (induction kvs arbitrary: m) (auto split: prod.splits)

lemma flow_filters_map:
  assumes "map_ok (Scope req)" "flt \<in> set (flow_filters req out)"
  shows "map_ok flt" "map_of flt ''outcome'' = Some out"
    "(if Flows req = [] then map_of flt = (map_of (Scope req))(''outcome'' \<mapsto> out)
      else \<exists>f \<in> set (Flows req). map_of flt = (map_of (Scope req))(''outcome'' \<mapsto> out, ''flow'' \<mapsto> f))"
  using assms scope_copy_ok [OF assms(1)]
  by (auto simp: flow_filters_def Let_def map_ok_copy split: if_splits)

text \<open>Matching a filter map is agreeing with it, label by label.\<close>

lemma match_filters_iff:
  "map_ok flt \<Longrightarrow> match_filters lbls flt \<longleftrightarrow> (\<forall>k v. map_of flt k = Some v \<longrightarrow> map_get [] lbls k = v)"
  by (auto simp: match_filters_def list_all_iff map_ok_map_of)

end
