(* ===== verification/Memq.thy ===== *)
theory Memq
  imports Query Emit
begin

text \<open>
  \<open>query/memq/memq.go\<close>: the in-memory backend that fixes what the query language means. It is an
  \<open>event_backend\<close>: on a store of NUL-free events its groups are exactly the groups of the store.
\<close>

section \<open>The backend\<close>

record memq =
  mq_metrics :: "metric_point list"
  mq_events :: "outcome list"
  mq_caps :: caps

definition default_caps :: caps where
  "default_caps = \<lparr>CMetrics = True, CEvents = True, CMetricWeeks = 520, CEventWeeks = 520\<rparr>"

definition with_metrics :: "metric_point list \<Rightarrow> memq \<Rightarrow> memq" where
  "with_metrics pts q = q\<lparr>mq_metrics := pts\<rparr>"
definition with_events :: "outcome list \<Rightarrow> memq \<Rightarrow> memq" where
  "with_events evs q = q\<lparr>mq_events := evs\<rparr>"
definition with_caps :: "caps \<Rightarrow> memq \<Rightarrow> memq" where
  "with_caps c q = q\<lparr>mq_caps := c\<rparr>"

definition new_memq :: "(memq \<Rightarrow> memq) list \<Rightarrow> memq" where
  "new_memq opts = fold (\<lambda>opt q. opt q) opts \<lparr>mq_metrics = [], mq_events = [], mq_caps = default_caps\<rparr>"

definition gauge_families :: "string list" where
  "gauge_families = [''biz_inflight_value'', ''biz_inflight_count'']"

definition canonical :: "labels \<Rightarrow> string" where
  "canonical key = concat (map (\<lambda>k. k @ ''='' @ map_get [] key k @ nul) (sort (map fst key)))"

section \<open>Metric queries\<close>

text \<open>Points are collected per canonical key, in the order in which the keys first occur.\<close>

definition add_point ::
  "string list \<Rightarrow> metric_point \<Rightarrow> (string, labels \<times> metric_point list) gomap \<Rightarrow> (string, labels \<times> metric_point list) gomap" where
  "add_point group_by p groups =
     (let key = group_key (PLabels p) group_by; ck = canonical key in
      case map_of groups ck of
        Some (lbls, ps) \<Rightarrow> map_put ck (lbls, ps @ [p]) groups
      | None \<Rightarrow> groups @ [(ck, (key, [p]))])"

definition wanted_point :: "metric_query \<Rightarrow> bool \<Rightarrow> metric_point \<Rightarrow> bool" where
  "wanted_point qy is_gauge p \<longleftrightarrow>
     PName p = Metric qy \<and> match_filters (PLabels p) (QFilters qy)
     \<and> (if is_gauge then PAt p < To (QRange qy) else in_range (PAt p) (QRange qy))"

text \<open>The last level of every underlying series before a boundary.\<close>

fun last_levels :: "metric_point list \<Rightarrow> time \<Rightarrow> (string, time \<times> i64) gomap \<Rightarrow> (string, time \<times> i64) gomap" where
  "last_levels [] until lv = lv"
| "last_levels (p # ps) until lv =
     (if \<not> PAt p < until then last_levels ps until lv
      else
        (let series = canonical (PLabels p) in
         last_levels ps until
           (case map_of lv series of
              Some (t, v) \<Rightarrow> if PAt p > t then map_put series (PAt p, PValue p) lv else lv
            | None \<Rightarrow> map_put series (PAt p, PValue p) lv)))"

definition aggregate :: "metric_point list \<Rightarrow> time \<Rightarrow> time \<Rightarrow> string \<Rightarrow> bool \<Rightarrow> f64 option" where
  "aggregate ps since until agg is_gauge =
     (if is_gauge then
        (let lv = last_levels ps until [] in
         if lv = [] then None
         else if agg = agg_count then Some (to_f64 (of_nat (length lv)))
         else Some (fold (\<lambda>(_, _, v) acc. fadd acc (of_i64 v)) lv (Fin 0)))
      else
        (let hits = [p \<leftarrow> ps. \<not> PAt p < since \<and> PAt p < until] in
         if hits = [] then None
         else if agg = agg_count then Some (fold (\<lambda>_ acc. fadd acc (Fin 1)) hits (Fin 0))
         else Some (fold (\<lambda>p acc. fadd acc (of_i64 (PValue p))) hits (Fin 0))))"

text \<open>The loop over the step boundaries.\<close>

function step_points :: "metric_point list \<Rightarrow> metric_query \<Rightarrow> bool \<Rightarrow> time \<Rightarrow> point list" where
  "step_points ps qy is_gauge start =
     (if QStep qy \<le> 0 \<or> \<not> start < To (QRange qy) then []
      else
        (let stop = start + QStep qy;
             until = (if To (QRange qy) < stop then To (QRange qy) else stop);
             rest = step_points ps qy is_gauge (start + QStep qy)
         in case aggregate ps start until (QAgg qy) is_gauge of
              Some v \<Rightarrow> \<lparr>PtAt = start, PtValue = v\<rparr> # rest
            | None \<Rightarrow> rest))"
  by pat_completeness auto
termination
  by (relation "measure (\<lambda>(ps, qy, g, start). nat (To (QRange qy) - start))") auto

declare step_points.simps [simp del]

definition bucket_points :: "metric_point list \<Rightarrow> metric_query \<Rightarrow> bool \<Rightarrow> point list" where
  "bucket_points ps qy is_gauge =
     (if QStep qy \<le> 0 then
        (case aggregate ps (From (QRange qy)) (To (QRange qy)) (QAgg qy) is_gauge of
           None \<Rightarrow> []
         | Some v \<Rightarrow> [\<lparr>PtAt = From (QRange qy), PtValue = v\<rparr>])
      else step_points ps qy is_gauge (From (QRange qy)))"

definition memq_metric :: "memq \<Rightarrow> metric_query \<Rightarrow> query_error + series_slice list" where
  "memq_metric q qy =
     (if \<not> CMetrics (mq_caps q) then Inl ErrUnsupported
      else
        (let is_gauge = Metric qy \<in> set gauge_families;
             groups = fold (add_point (QGroupBy qy)) [p \<leftarrow> mq_metrics q. wanted_point qy is_gauge p] []
         in Inr (map (\<lambda>ck. (let (lbls, ps) = map_get ([], []) groups ck
                            in \<lparr>SLabels = lbls, SPoints = bucket_points ps qy is_gauge\<rparr>))
                  (sort (map fst groups)))))"

section \<open>Event queries\<close>

record event_agg =
  agg_key :: labels
  agg_n :: i64
  agg_total :: i64
  agg_max :: i64

definition add_event :: "event_query \<Rightarrow> outcome \<Rightarrow> (string, event_agg) gomap \<Rightarrow> (string, event_agg) gomap" where
  "add_event qy o' groups =
     (let key = event_key qy o'; ck = canonical key;
          g = (case map_of groups ck of
                 Some g \<Rightarrow> g
               | None \<Rightarrow> \<lparr>agg_key = key, agg_n = 0, agg_total = 0, agg_max = amount_of o'\<rparr>)
      in map_put ck
           \<lparr>agg_key = agg_key g, agg_n = agg_n g + 1, agg_total = agg_total g + amount_of o',
            agg_max = (if sint (amount_of o') > sint (agg_max g) then amount_of o' else agg_max g)\<rparr> groups)"

definition distinct_count :: "outcome list \<Rightarrow> string list \<Rightarrow> event_group list" where
  "distinct_count evs group_by =
     [\<lparr>GKey = [], GCount = of_nat (length (remdups (map (\<lambda>o'. canonical (group_key (event_labels o') group_by)) evs))),
       GSum = 0, GMax = 0\<rparr>]"

definition order_groups :: "event_group list \<Rightarrow> string \<Rightarrow> query_error + event_group list" where
  "order_groups gs o' =
     (if o' = order_none then Inr (sort_key (\<lambda>g. canonical (GKey g)) gs)
      else if o' = order_sum_desc then Inr (sort_key (\<lambda>g. (- sint (GSum g), canonical (GKey g))) gs)
      else if o' = order_count_desc then Inr (sort_key (\<lambda>g. (- sint (GCount g), canonical (GKey g))) gs)
      else Inl (BackendError (''memq: unknown OrderBy '' @ quoted o')))"

definition memq_events :: "memq \<Rightarrow> event_query \<Rightarrow> query_error + event_group list" where
  "memq_events q qy =
     (if \<not> CEvents (mq_caps q) then Inl ErrUnsupported
      else
        (let evs = matched (mq_events q) qy in
         if EAgg qy = agg_distinct_count then Inr (distinct_count evs (EGroupBy qy))
         else if \<not> currency_known qy
         then Inl (BackendError (''memq: event sum would cross currencies '' @ dash @ '' pin currency in Filters or add it to GroupBy''))
         else
           (let groups = fold (add_event qy) evs [];
                out = map (\<lambda>(_, g). \<lparr>GKey = agg_key g, GCount = agg_n g, GSum = agg_total g,
                         GMax = (if EAgg qy = agg_max_per_group then agg_max g else 0)\<rparr>) groups
            in case order_groups out (EOrderBy qy) of
                 Inl e \<Rightarrow> Inl e
               | Inr out \<Rightarrow>
                   if ELimit qy > 0 then
                     (if EOrderBy qy = order_none
                      then Inl (BackendError ''memq: Limit requires an OrderBy (OrderNone + Limit>0 is undefined)'')
                      else Inr (if int (length out) > ELimit qy then take (nat (ELimit qy)) out else out))
                   else Inr out)))"

definition memq_querier :: "memq \<Rightarrow> querier" where
  "memq_querier q = \<lparr>query_metric = memq_metric q, query_events = memq_events q, capabilities = mq_caps q\<rparr>"

section \<open>Grouping\<close>

lemma cut_at_nul:
  assumes "nul_free_label a" "nul_free_label c" "a @ nul @ b = c @ nul @ d"
  shows "a = c \<and> b = d"
proof -
  have "takeWhile (\<lambda>x. x \<noteq> CHR 0x00) (a @ nul @ b) = a" "takeWhile (\<lambda>x. x \<noteq> CHR 0x00) (c @ nul @ d) = c"
    using assms(1,2) by (auto simp: nul_def nul_free_label_def intro!: takeWhile_append2 [THEN trans])
  then have "a = c" using assms(3) by simp
  then show ?thesis using assms(3) by simp
qed

lemma joined_inj:
  assumes "\<And>k. nul_free_label (f k)" "\<And>k. nul_free_label (g k)"
    "concat (map (\<lambda>k. k @ ''='' @ f k @ nul) ks) = concat (map (\<lambda>k. k @ ''='' @ g k @ nul) ks)"
  shows "\<forall>k \<in> set ks. f k = g k"
  using assms(3)
proof (induction ks)
  case Nil
  then show ?case by simp
next
  case (Cons k ks)
  then have "f k @ nul @ concat (map (\<lambda>k. k @ ''='' @ f k @ nul) ks)
      = g k @ nul @ concat (map (\<lambda>k. k @ ''='' @ g k @ nul) ks)" by simp
  from cut_at_nul [OF assms(1,2) this] show ?case using Cons.IH by simp
qed

lemma canonical_inj:
  assumes "distinct ks" "\<And>k. nul_free_label (map_get [] l k)" "\<And>k. nul_free_label (map_get [] l' k)"
  shows "canonical (group_key l ks) = canonical (group_key l' ks) \<longleftrightarrow> group_key l ks = group_key l' ks"
proof
  have keys: "map fst (group_key m ks) = ks" for m
    using assms(1) by (simp add: group_key_distinct comp_def)
  assume "canonical (group_key l ks) = canonical (group_key l' ks)"
  then have "concat (map (\<lambda>k. k @ ''='' @ map_get [] (group_key l ks) k @ nul) (sort ks))
      = concat (map (\<lambda>k. k @ ''='' @ map_get [] (group_key l' ks) k @ nul) (sort ks))"
    by (simp add: canonical_def keys)
  moreover have "nul_free_label (map_get [] (group_key m ks) k)" if "\<And>k. nul_free_label (map_get [] m k)" for m k
    using that [of k] assms(1) by (simp add: group_key_get nul_free_label_def)
  ultimately have "\<forall>k \<in> set (sort ks). map_get [] (group_key l ks) k = map_get [] (group_key l' ks) k"
    using assms(2,3) by (intro joined_inj) simp_all
  then show "group_key l ks = group_key l' ks"
    using assms(1) by (simp add: group_key_eq_iff group_key_get)
qed simp

definition groups_ok :: "event_query \<Rightarrow> outcome list \<Rightarrow> (string, event_agg) gomap \<Rightarrow> bool" where
  "groups_ok qy evs groups \<longleftrightarrow>
     map_ok groups \<and> fst ` set groups = (\<lambda>o'. canonical (event_key qy o')) ` set evs
     \<and> (\<forall>(ck, g) \<in> set groups.
          (\<exists>o' \<in> set evs. agg_key g = event_key qy o' \<and> canonical (event_key qy o') = ck)
          \<and> agg_n g = of_nat (length [o' \<leftarrow> evs. canonical (event_key qy o') = ck])
          \<and> agg_total g = sum_i64 (map amount_of [o' \<leftarrow> evs. canonical (event_key qy o') = ck])
          \<and> sint (agg_max g) = Max ((\<lambda>o'. sint (amount_of o')) ` set [o' \<leftarrow> evs. canonical (event_key qy o') = ck]))"

lemma groups_ok_fold: "groups_ok qy evs (fold (add_event qy) evs [])"
proof (induction evs rule: rev_induct)
  case Nil
  then show ?case by (simp add: groups_ok_def)
next
  case (snoc o' evs)
  let ?groups = "fold (add_event qy) evs []"
  let ?ck = "canonical (event_key qy o')"
  from snoc have ok: "map_ok ?groups" and keys: "fst ` set ?groups = (\<lambda>o'. canonical (event_key qy o')) ` set evs"
    and each: "\<And>ck g. (ck, g) \<in> set ?groups \<Longrightarrow>
          (\<exists>o' \<in> set evs. agg_key g = event_key qy o' \<and> canonical (event_key qy o') = ck)
          \<and> agg_n g = of_nat (length [o' \<leftarrow> evs. canonical (event_key qy o') = ck])
          \<and> agg_total g = sum_i64 (map amount_of [o' \<leftarrow> evs. canonical (event_key qy o') = ck])
          \<and> sint (agg_max g) = Max ((\<lambda>o'. sint (amount_of o')) ` set [o' \<leftarrow> evs. canonical (event_key qy o') = ck])"
    by (auto simp: groups_ok_def)
  obtain g where new: "add_event qy o' ?groups = map_put ?ck g ?groups"
    and key: "\<exists>x \<in> set (evs @ [o']). agg_key g = event_key qy x \<and> canonical (event_key qy x) = ?ck"
    and n: "agg_n g = of_nat (length [x \<leftarrow> evs @ [o']. canonical (event_key qy x) = ?ck])"
    and total: "agg_total g = sum_i64 (map amount_of [x \<leftarrow> evs @ [o']. canonical (event_key qy x) = ?ck])"
    and top: "sint (agg_max g) = Max ((\<lambda>x. sint (amount_of x)) ` set [x \<leftarrow> evs @ [o']. canonical (event_key qy x) = ?ck])"
  proof (cases "map_of ?groups ?ck")
    case None
    then have "?ck \<notin> fst ` set ?groups" by (simp add: map_of_eq_None_iff)
    then have none: "[x \<leftarrow> evs. canonical (event_key qy x) = ?ck] = []"
      unfolding keys filter_empty_conv by (metis (no_types, lifting) image_eqI)
    with none None show thesis
      by (intro that [of "\<lparr>agg_key = event_key qy o', agg_n = 1, agg_total = amount_of o', agg_max = amount_of o'\<rparr>"])
        (simp_all add: add_event_def Let_def)
  next
    case (Some g0)
    then have "(?ck, g0) \<in> set ?groups" by (rule map_of_SomeD)
    note g0 = each [OF this]
    let ?F = "[x \<leftarrow> evs. canonical (event_key qy x) = ?ck]"
    have ne: "(\<lambda>x. sint (amount_of x)) ` set ?F \<noteq> {}" using g0 by auto
    show thesis
    proof (rule that [of "\<lparr>agg_key = agg_key g0, agg_n = agg_n g0 + 1, agg_total = agg_total g0 + amount_of o',
        agg_max = (if sint (amount_of o') > sint (agg_max g0) then amount_of o' else agg_max g0)\<rparr>"])
      show "sint (agg_max \<lparr>agg_key = agg_key g0, agg_n = agg_n g0 + 1, agg_total = agg_total g0 + amount_of o',
          agg_max = (if sint (amount_of o') > sint (agg_max g0) then amount_of o' else agg_max g0)\<rparr>)
        = Max ((\<lambda>x. sint (amount_of x)) ` set [x \<leftarrow> evs @ [o']. canonical (event_key qy x) = ?ck])"
      proof -
        let ?M = "(\<lambda>x. sint (amount_of x)) ` set ?F"
        have "(\<lambda>x. sint (amount_of x)) ` set [x \<leftarrow> evs @ [o']. canonical (event_key qy x) = ?ck]
            = insert (sint (amount_of o')) ?M" by auto
        moreover have "Max (insert (sint (amount_of o')) ?M) = max (sint (amount_of o')) (Max ?M)"
          using ne by (intro Max_insert) simp_all
        ultimately show ?thesis using g0 by (simp only: event_agg.simps) (simp add: max_def)
      qed
    qed (use g0 Some in \<open>auto simp: add_event_def Let_def\<close>)
  qed
  have "groups_ok qy (evs @ [o']) (map_put ?ck g ?groups)"
    unfolding groups_ok_def
  proof (intro conjI ballI)
    show "map_ok (map_put ?ck g ?groups)" using ok by simp
    show "fst ` set (map_put ?ck g ?groups) = (\<lambda>o'. canonical (event_key qy o')) ` set (evs @ [o'])"
      using keys dom_update [of ?ck g ?groups] by simp
    fix x
    assume x: "x \<in> set (map_put ?ck g ?groups)"
    obtain ck g' where xe: "x = (ck, g')" by (cases x)
    have "(ck = ?ck \<and> g' = g) \<or> (ck \<noteq> ?ck \<and> (ck, g') \<in> set ?groups)"
    proof -
      have "map_of (map_put ?ck g ?groups) ck = Some g'"
        using x ok map_ok_map_of [of "map_put ?ck g ?groups"] by (simp add: xe)
      then show ?thesis using ok map_ok_map_of [of ?groups ck g'] by (auto split: if_splits)
    qed
    then show "case x of (ck, g) \<Rightarrow>
          (\<exists>y \<in> set (evs @ [o']). agg_key g = event_key qy y \<and> canonical (event_key qy y) = ck)
          \<and> agg_n g = of_nat (length [y \<leftarrow> evs @ [o']. canonical (event_key qy y) = ck])
          \<and> agg_total g = sum_i64 (map amount_of [y \<leftarrow> evs @ [o']. canonical (event_key qy y) = ck])
          \<and> sint (agg_max g) = Max ((\<lambda>y. sint (amount_of y)) ` set [y \<leftarrow> evs @ [o']. canonical (event_key qy y) = ck])"
    proof
      assume "ck = ?ck \<and> g' = g"
      then show ?thesis using key n total top unfolding xe by simp
    next
      assume o: "ck \<noteq> ?ck \<and> (ck, g') \<in> set ?groups"
      then show ?thesis using each [of ck g'] unfolding xe by auto
    qed
  qed
  then show ?case by (simp add: new)
qed

section \<open>The backend honours the contract\<close>

lemma canonical_event_inj:
  assumes "distinct (EGroupBy qy)" "clean_event x" "clean_event y"
  shows "canonical (event_key qy x) = canonical (event_key qy y) \<longleftrightarrow> event_key qy x = event_key qy y"
  using canonical_inj [OF assms(1)] clean_event_get assms(2,3) by blast

lemma distinct_map_sort_key: "distinct (map f (sort_key g xs)) = distinct (map f xs)"
  by (rule mset_eq_imp_distinct_iff) simp

lemma memq_event_groups:
  assumes clean: "list_all clean_event (mq_events q)" and d: "distinct (EGroupBy qy)"
    and cur: "currency_known qy" and agg: "EAgg qy \<in> {agg_groups, agg_max_per_group}"
    and ord: "EOrderBy qy = order_none" and lim: "ELimit qy = 0" and on: "CEvents (mq_caps q)"
  shows "\<exists>gs. memq_events q qy = Inr gs \<and> answers (mq_events q) qy gs
     \<and> sorted (map (\<lambda>g. canonical (GKey g)) gs)"
proof -
  let ?evs = "matched (mq_events q) qy"
  let ?groups = "fold (add_event qy) ?evs []"
  let ?row = "\<lambda>g. \<lparr>GKey = agg_key g, GCount = agg_n g, GSum = agg_total g,
      GMax = (if EAgg qy = agg_max_per_group then agg_max g else 0)\<rparr>"
  let ?out = "map (\<lambda>(_, g). ?row g) ?groups"
  let ?gs = "sort_key (\<lambda>g. canonical (GKey g)) ?out"
  have inj: "canonical (event_key qy x) = canonical (event_key qy y) \<longleftrightarrow> event_key qy x = event_key qy y"
    if "x \<in> set ?evs" "y \<in> set ?evs" for x y
    using that clean by (intro canonical_event_inj [OF d]) (auto simp: matched_def list_all_iff)
  have ok: "groups_ok qy ?evs ?groups" by (rule groups_ok_fold)
  have key: "canonical (agg_key g) = ck \<and> agg_key g \<in> event_key qy ` set ?evs
      \<and> [x \<leftarrow> ?evs. canonical (event_key qy x) = ck] = group_of (mq_events q) qy (agg_key g)"
    if g: "(ck, g) \<in> set ?groups" for ck g
  proof -
    from ok g obtain o' where o': "o' \<in> set ?evs" "agg_key g = event_key qy o'" "canonical (event_key qy o') = ck"
      by (auto simp: groups_ok_def)
    then have "[x \<leftarrow> ?evs. canonical (event_key qy x) = ck] = [x \<leftarrow> ?evs. event_key qy x = agg_key g]"
      using inj by (intro filter_cong refl) auto
    then show ?thesis using o' by (auto simp: group_of_def)
  qed
  have run: "memq_events q qy = Inr ?gs"
    using on agg cur ord lim by (auto simp: memq_events_def order_groups_def agg_defs Let_def)
  have keys: "map GKey ?out = map (\<lambda>(ck, g). agg_key g) ?groups" by (simp add: comp_def split_def)
  have "distinct (map (\<lambda>(ck, g). canonical (agg_key g)) ?groups)"
  proof -
    have e: "map (\<lambda>(ck, g). canonical (agg_key g)) ?groups = map fst ?groups"
      using key by (intro map_cong refl) (auto split: prod.splits)
    have "distinct (map fst ?groups)" using ok unfolding groups_ok_def map_ok_def by blast
    then show ?thesis by (simp only: e)
  qed
  then have "distinct (map canonical (map GKey ?out))" unfolding keys by (simp add: comp_def split_def)
  then have "distinct (map GKey ?out)" by (simp only: distinct_map)
  then have dist: "distinct (map GKey ?gs)" by (simp only: distinct_map_sort_key)
  have gset: "set ?gs = (\<lambda>(_, g). ?row g) ` set ?groups" by simp
  have covers: "GKey ` set ?gs = event_key qy ` set ?evs"
  proof
    show "GKey ` set ?gs \<subseteq> event_key qy ` set ?evs" unfolding gset using key by auto
    show "event_key qy ` set ?evs \<subseteq> GKey ` set ?gs"
    proof
      fix k
      assume "k \<in> event_key qy ` set ?evs"
      then obtain o' where o': "o' \<in> set ?evs" "k = event_key qy o'" by auto
      then have "canonical k \<in> fst ` set ?groups" using ok by (auto simp: groups_ok_def)
      then obtain g where g: "(canonical k, g) \<in> set ?groups" by auto
      from ok g obtain x where x: "x \<in> set ?evs" "agg_key g = event_key qy x" "canonical (event_key qy x) = canonical k"
        by (auto simp: groups_ok_def)
      then have "agg_key g = k" using inj [OF x(1) o'(1)] o'(2) by simp
      then show "k \<in> GKey ` set ?gs" unfolding gset using g by force
    qed
  qed
  have "answers (mq_events q) qy ?gs"
    unfolding answers_def
  proof (intro conjI ballI)
    fix g
    assume "g \<in> set ?gs"
    then obtain ck a where a: "(ck, a) \<in> set ?groups" "g = ?row a" unfolding gset by auto
    note k = key [OF a(1)]
    have "agg_n a = of_nat (length [x \<leftarrow> ?evs. canonical (event_key qy x) = ck])
        \<and> agg_total a = sum_i64 (map amount_of [x \<leftarrow> ?evs. canonical (event_key qy x) = ck])
        \<and> sint (agg_max a) = Max ((\<lambda>x. sint (amount_of x)) ` set [x \<leftarrow> ?evs. canonical (event_key qy x) = ck])"
      using ok a(1) by (auto simp: groups_ok_def)
    then show "GCount g = of_nat (length (group_of (mq_events q) qy (GKey g)))"
      "GSum g = sum_i64 (map amount_of (group_of (mq_events q) qy (GKey g)))"
      "sint (GMax g) = (if EAgg qy = agg_max_per_group
         then Max (sint ` amount_of ` set (group_of (mq_events q) qy (GKey g))) else 0)"
      using k by (simp_all add: a(2) image_image)
  qed (fact dist, fact covers)
  then show ?thesis using run sorted_sort_key [of "\<lambda>g. canonical (GKey g)" ?out] by auto
qed

interpretation memq_ev: event_backend "memq_querier (with_caps default_caps (new_memq [with_metrics ms, with_events evs]))" evs
  for ms evs
proof
  let ?q = "with_caps default_caps (new_memq [with_metrics ms, with_events evs])"
  show "CEvents (capabilities (memq_querier ?q))"
    by (simp add: memq_querier_def with_caps_def default_caps_def)
  fix eq
  assume "list_all clean_event evs" "distinct (EGroupBy eq)" "currency_known eq"
    "EAgg eq \<in> {agg_groups, agg_max_per_group}" "EOrderBy eq = order_none" "ELimit eq = 0"
  then show "\<exists>gs. query_events (memq_querier ?q) eq = Inr gs \<and> answers evs eq gs"
    using memq_event_groups [of ?q eq]
    by (auto simp: memq_querier_def with_caps_def with_events_def with_metrics_def new_memq_def default_caps_def)
qed

end
