(* ===== verification/Engine_Realized.thy ===== *)
theory Engine_Realized
  imports Engine Memq
begin

text \<open>
  \<open>engine/realized.go\<close>: the realized loss, from outcome events when the backend serves them and
  from the value counters otherwise. On an event backend the leg is computed from the store
  itself: every entity that failed and never succeeded counts once, at its largest failed amount.
\<close>

section \<open>The leg\<close>

definition recovery_success :: string where "recovery_success = ''success''"

definition group_query :: "time_range \<Rightarrow> labels \<Rightarrow> string list \<Rightarrow> string \<Rightarrow> event_query" where
  "group_query win flt group_by agg =
     event_query_zero\<lparr>ERange := win, EFilters := flt, EGroupBy := group_by, EAgg := agg\<rparr>"

definition collect_succeeded :: "querier \<Rightarrow> time_range \<Rightarrow> labels \<Rightarrow> string list \<Rightarrow> string + string list" where
  "collect_succeeded q win flt acc =
     (case query_events q (group_query win flt [''currency'', ''entity''] agg_groups) of
        Inl e \<Rightarrow> Inl (''engine: realized success query: '' @ error_text e)
      | Inr gs \<Rightarrow> Inr (map (\<lambda>g. map_get [] (GKey g) ''entity'') gs @ acc))"

definition add_failed_group :: "string list \<Rightarrow> event_group \<Rightarrow> leg \<Rightarrow> leg" where
  "add_failed_group succeeded g lg =
     (if map_get [] (GKey g) ''entity'' \<in> set succeeded then lg
      else lg\<lparr>ByCurrency := map_add (map_get [] (GKey g) ''currency'') (GMax g) (ByCurrency lg),
              Count := Count lg + 1\<rparr>)"

definition add_failed :: "querier \<Rightarrow> time_range \<Rightarrow> string list \<Rightarrow> labels \<Rightarrow> leg \<Rightarrow> string + leg" where
  "add_failed q win succeeded flt lg =
     (case query_events q (group_query win flt [''currency'', ''entity''] agg_max_per_group) of
        Inl e \<Rightarrow> Inl (''engine: realized failed query: '' @ error_text e)
      | Inr gs \<Rightarrow> Inr (fold (add_failed_group succeeded) gs lg))"

definition realized_from_events :: "querier \<Rightarrow> request \<Rightarrow> string + leg" where
  "realized_from_events q req =
     (case fold_err (collect_succeeded q (Window req)) (flow_filters req recovery_success) [] of
        Inl e \<Rightarrow> Inl e
      | Inr succeeded \<Rightarrow>
          fold_err (add_failed q (Window req) succeeded) (flow_filters req ''failed'')
            (leg_zero\<lparr>Evidence := evidence_deterministic\<rparr>))"

definition add_value_series :: "(f64 \<Rightarrow> i64) \<Rightarrow> series_slice \<Rightarrow> leg \<Rightarrow> leg" where
  "add_value_series oob s lg =
     fold (\<lambda>p lg. lg\<lparr>ByCurrency := map_add (map_get [] (SLabels s) ''currency'') (to_i64 oob (PtValue p)) (ByCurrency lg)\<rparr>)
       (SPoints s) lg"

definition add_count_series :: "(f64 \<Rightarrow> i64) \<Rightarrow> series_slice \<Rightarrow> leg \<Rightarrow> leg" where
  "add_count_series oob s lg = fold (\<lambda>p lg. lg\<lparr>Count := Count lg + to_i64 oob (PtValue p)\<rparr>) (SPoints s) lg"

definition metric_only_caveat :: string where
  "metric_only_caveat = ''metrics-only: upper bound, not de-duped by entity''"

definition add_failed_metrics :: "(f64 \<Rightarrow> i64) \<Rightarrow> querier \<Rightarrow> time_range \<Rightarrow> labels \<Rightarrow> leg \<Rightarrow> string + leg" where
  "add_failed_metrics oob q win flt lg =
     (case query_metric q (metric_query_zero\<lparr>Metric := ''biz_value_total'', QAgg := agg_sum, QFilters := flt,
              QGroupBy := [''currency''], QRange := win\<rparr>) of
        Inl e \<Rightarrow> Inl (''engine: realized value metric: '' @ error_text e)
      | Inr vals \<Rightarrow>
          (let lg1 = fold (add_value_series oob) vals lg in
           case query_metric q (metric_query_zero\<lparr>Metric := ''biz_txn_total'', QAgg := agg_sum, QFilters := flt,
                  QRange := win\<rparr>) of
             Inl e \<Rightarrow> Inl (''engine: realized count metric: '' @ error_text e)
           | Inr counts \<Rightarrow> Inr (fold (add_count_series oob) counts lg1)))"

definition realized_from_metrics :: "(f64 \<Rightarrow> i64) \<Rightarrow> querier \<Rightarrow> request \<Rightarrow> string + leg" where
  "realized_from_metrics oob q req =
     fold_err (add_failed_metrics oob q (Window req)) (flow_filters req ''failed'')
       (leg_zero\<lparr>Evidence := evidence_deterministic, Caveats := [metric_only_caveat]\<rparr>)"

definition realized_leg :: "(f64 \<Rightarrow> i64) \<Rightarrow> querier \<Rightarrow> request \<Rightarrow> string + leg" where
  "realized_leg oob q req =
     (if CEvents (capabilities q) then realized_from_events q req
      else if CMetrics (capabilities q) then realized_from_metrics oob q req
      else Inl ''engine: realized leg needs an event or metric source; this backend serves neither'')"

section \<open>What the leg is, on the store\<close>

text \<open>The events a filter map selects in the window, and the loss of one entity there.\<close>

definition selected :: "outcome list \<Rightarrow> time_range \<Rightarrow> labels \<Rightarrow> outcome set" where
  "selected store win flt =
     {o' \<in> set store. in_range (At o') win \<and> match_filters (event_labels o') flt}"

definition of_entity :: "string \<Rightarrow> string \<Rightarrow> outcome set \<Rightarrow> outcome set" where
  "of_entity cur entity evs = {o' \<in> evs. Currency (Money (VC o')) = cur \<and> EntityID (VC o') = entity}"

definition recovered :: "outcome list \<Rightarrow> request \<Rightarrow> string set" where
  "recovered store req =
     (\<Union>flt \<in> set (flow_filters req recovery_success). (\<lambda>o'. EntityID (VC o')) ` selected store (Window req) flt)"

definition lost_entities :: "outcome list \<Rightarrow> request \<Rightarrow> labels \<Rightarrow> string \<Rightarrow> string set" where
  "lost_entities store req flt cur =
     (\<lambda>o'. EntityID (VC o')) ` {o' \<in> selected store (Window req) flt. Currency (Money (VC o')) = cur}
       - recovered store req"

definition exposure :: "outcome list \<Rightarrow> request \<Rightarrow> labels \<Rightarrow> string \<Rightarrow> string \<Rightarrow> int" where
  "exposure store req flt cur entity =
     Max ((\<lambda>o'. sint (amount_of o')) ` of_entity cur entity (selected store (Window req) flt))"

definition realized_loss :: "outcome list \<Rightarrow> request \<Rightarrow> string \<Rightarrow> int" where
  "realized_loss store req cur =
     (\<Sum>flt\<leftarrow>flow_filters req ''failed''.
        \<Sum>entity \<in> lost_entities store req flt cur. exposure store req flt cur entity)"

definition lost_pairs :: "outcome list \<Rightarrow> request \<Rightarrow> labels \<Rightarrow> (string \<times> string) set" where
  "lost_pairs store req flt =
     {(Currency (Money (VC o')), EntityID (VC o')) | o'.
        o' \<in> selected store (Window req) flt \<and> EntityID (VC o') \<notin> recovered store req}"

section \<open>Lemmas\<close>

lemma add_failed_group_fields:
  "map_get 0 (ByCurrency (fold (add_failed_group succ) gs lg)) cur
     = map_get 0 (ByCurrency lg) cur
       + sum_i64 (map GMax [g \<leftarrow> gs. map_get [] (GKey g) ''entity'' \<notin> set succ \<and> map_get [] (GKey g) ''currency'' = cur])"
  "Count (fold (add_failed_group succ) gs lg)
     = Count lg + of_nat (length [g \<leftarrow> gs. map_get [] (GKey g) ''entity'' \<notin> set succ])"
  by (induction gs arbitrary: lg) (auto simp: add_failed_group_def add.assoc)

lemma matched_selected: "set (matched store (group_query win flt gb agg)) = selected store win flt"
  by (auto simp: matched_def selected_def group_query_def event_query_zero_def)

lemma pair_key:
  "event_key (group_query win flt [''currency'', ''entity''] agg) o'
     = [(''currency'', Currency (Money (VC o'))), (''entity'', EntityID (VC o'))]"
  by (simp add: group_key_distinct group_query_def)

lemma sum_i64_distinct:
  assumes "distinct (map f xs)" "\<And>x. x \<in> set xs \<Longrightarrow> sint (h x) = v (f x)"
  shows "sum_i64 (map h xs) = word_of_int (\<Sum>k \<in> f ` set xs. v k)"
proof -
  have "sum_i64 (map h xs) = word_of_int (\<Sum>x\<leftarrow>xs. sint (h x))"
    by (simp add: sum_i64_word_of_int comp_def)
  also have "(\<Sum>x\<leftarrow>xs. sint (h x)) = (\<Sum>x\<leftarrow>xs. v (f x))"
    using assms(2) by (intro arg_cong [where f = sum_list] map_cong) simp_all
  also have "\<dots> = (\<Sum>k\<leftarrow>map f xs. v k)" by (simp add: comp_def)
  also have "\<dots> = (\<Sum>k \<in> f ` set xs. v k)"
    using sum_list_distinct_conv_sum_set [OF assms(1), of v] by simp
  finally show ?thesis .
qed

lemma setcompr_of_image: "{h k | k. k \<in> f ` S \<and> P k} = {h (f x) | x. x \<in> S \<and> P (f x)}"
  by blast

context event_backend
begin

lemma group_answer:
  assumes "list_all clean_event store" "agg \<in> {agg_groups, agg_max_per_group}"
  obtains gs where "query_events q (group_query win flt [''currency'', ''entity''] agg) = Inr gs"
    "answers store (group_query win flt [''currency'', ''entity''] agg) gs"
  using grouped [of "group_query win flt [''currency'', ''entity''] agg"] assms
  by (force simp: group_query_def event_query_zero_def currency_known_def)

lemma succeeded_of:
  assumes "list_all clean_event store"
  obtains acc' where "collect_succeeded q win flt acc = Inr acc'"
    "set acc' = set acc \<union> (\<lambda>o'. EntityID (VC o')) ` selected store win flt"
proof -
  obtain gs where gs: "query_events q (group_query win flt [''currency'', ''entity''] agg_groups) = Inr gs"
      "answers store (group_query win flt [''currency'', ''entity''] agg_groups) gs"
    using group_answer [OF assms] by blast
  have "GKey ` set gs = (\<lambda>o'. [(''currency'', Currency (Money (VC o'))), (''entity'', EntityID (VC o'))]) ` selected store win flt"
    using gs(2) by (simp add: answers_def matched_selected pair_key)
  then have "(\<lambda>key. map_get [] key ''entity'') ` GKey ` set gs = (\<lambda>o'. EntityID (VC o')) ` selected store win flt"
    by (simp add: image_image map_get_def)
  then show thesis
    using gs(1) by (intro that [of "map (\<lambda>g. map_get [] (GKey g) ''entity'') gs @ acc"])
      (auto simp: collect_succeeded_def image_image)
qed

lemma succeeded_all:
  assumes "list_all clean_event store"
  obtains acc' where "fold_err (collect_succeeded q win) flts acc = Inr acc'"
    "set acc' = set acc \<union> (\<Union>flt \<in> set flts. (\<lambda>o'. EntityID (VC o')) ` selected store win flt)"
proof (induction flts arbitrary: acc thesis)
  case Nil
  then show ?case by simp
next
  case (Cons flt flts)
  obtain a where a: "collect_succeeded q win flt acc = Inr a"
      "set a = set acc \<union> (\<lambda>o'. EntityID (VC o')) ` selected store win flt"
    using succeeded_of [OF assms] .
  obtain a' where "fold_err (collect_succeeded q win) flts a = Inr a'"
      "set a' = set a \<union> (\<Union>flt \<in> set flts. (\<lambda>o'. EntityID (VC o')) ` selected store win flt)"
    using Cons.IH .
  then show ?case using a by (intro Cons.prems [of a']) auto
qed

lemma failed_of:
  assumes clean: "list_all clean_event store" and succ: "set succ = recovered store req"
  obtains lg' where "add_failed q (Window req) succ flt lg = Inr lg'"
    "\<And>cur. map_get 0 (ByCurrency lg') cur = map_get 0 (ByCurrency lg) cur
       + word_of_int (\<Sum>entity \<in> lost_entities store req flt cur. exposure store req flt cur entity)"
    "Count lg' = Count lg + of_nat (card (lost_pairs store req flt))"
    "Unavailable lg' = Unavailable lg" "Caveats lg' = Caveats lg" "Evidence lg' = Evidence lg"
proof -
  let ?eq = "group_query (Window req) flt [''currency'', ''entity''] agg_max_per_group"
  let ?sel = "selected store (Window req) flt"
  let ?cur = "\<lambda>key. map_get [] key ''currency''" and ?ent = "\<lambda>key. map_get [] key ''entity''"
  obtain gs where gs: "query_events q ?eq = Inr gs" "answers store ?eq gs"
    using group_answer [OF clean] by blast
  have keys: "GKey ` set gs = (\<lambda>o'. [(''currency'', Currency (Money (VC o'))), (''entity'', EntityID (VC o'))]) ` ?sel"
    using gs(2) by (simp add: answers_def matched_selected pair_key)
  have key: "\<exists>o' \<in> ?sel. GKey g = [(''currency'', Currency (Money (VC o'))), (''entity'', EntityID (VC o'))]"
    if "g \<in> set gs" for g
    using keys that by (metis (no_types, lifting) image_iff)
  have fields: "?cur [(''currency'', c), (''entity'', e)] = c" "?ent [(''currency'', c), (''entity'', e)] = e" for c e
    by (simp_all add: map_get_def)
  have dist: "distinct (map (\<lambda>g. (?cur (GKey g), ?ent (GKey g))) gs)"
  proof -
    have "inj_on (\<lambda>g. (?cur (GKey g), ?ent (GKey g))) (set gs)"
    proof (rule inj_onI)
      fix g h
      assume gh: "g \<in> set gs" "h \<in> set gs" "(?cur (GKey g), ?ent (GKey g)) = (?cur (GKey h), ?ent (GKey h))"
      then have "GKey g = GKey h" using key [OF gh(1)] key [OF gh(2)] by (auto simp: fields)
      then show "g = h" using gs(2) gh(1,2) by (auto simp: answers_def distinct_map dest: inj_onD)
    qed
    then show ?thesis using gs(2) by (simp add: answers_def distinct_map)
  qed
  have max: "sint (GMax g) = exposure store req flt (?cur (GKey g)) (?ent (GKey g))" if g: "g \<in> set gs" for g
  proof -
    obtain o' :: outcome where o': "GKey g = [(''currency'', Currency (Money (VC o'))), (''entity'', EntityID (VC o'))]"
      using key [OF g] by blast
    have "set (group_of store ?eq (GKey g)) = of_entity (?cur (GKey g)) (?ent (GKey g)) ?sel"
      using matched_selected [of store "Window req" flt] unfolding group_of_def pair_key o'
      by (auto simp: of_entity_def fields)
    then show ?thesis
      using gs(2) g by (simp add: answers_def exposure_def image_image group_query_def)
  qed
  let ?lost = "\<lambda>g. ?ent (GKey g) \<notin> set succ"
  have "sum_i64 (map GMax [g \<leftarrow> gs. ?lost g \<and> ?cur (GKey g) = cur])
      = word_of_int (\<Sum>entity \<in> lost_entities store req flt cur. exposure store req flt cur entity)" for cur
  proof -
    let ?gs = "[g \<leftarrow> gs. ?lost g \<and> ?cur (GKey g) = cur]"
    have "distinct (map (\<lambda>g. ?ent (GKey g)) ?gs)"
      using dist by (auto simp: distinct_map inj_on_def)
    from sum_i64_distinct [OF this, of GMax "exposure store req flt cur"]
    have "sum_i64 (map GMax ?gs) = word_of_int (\<Sum>e \<in> (\<lambda>g. ?ent (GKey g)) ` set ?gs. exposure store req flt cur e)"
      using max by auto
    moreover have "(\<lambda>g. ?ent (GKey g)) ` set ?gs = lost_entities store req flt cur"
    proof -
      have "(\<lambda>g. ?ent (GKey g)) ` set ?gs = {?ent k | k. k \<in> GKey ` set gs \<and> ?ent k \<notin> set succ \<and> ?cur k = cur}"
        by auto
      also have "\<dots> = lost_entities store req flt cur"
        unfolding keys setcompr_of_image fields lost_entities_def succ [symmetric] by blast
      finally show ?thesis .
    qed
    ultimately show ?thesis by simp
  qed
  moreover have "length [g \<leftarrow> gs. ?lost g] = card (lost_pairs store req flt)"
  proof -
    have "length [g \<leftarrow> gs. ?lost g] = card (set [g \<leftarrow> gs. ?lost g])"
      using dist by (simp add: distinct_map flip: distinct_card)
    also have "\<dots> = card ((\<lambda>g. (?cur (GKey g), ?ent (GKey g))) ` set [g \<leftarrow> gs. ?lost g])"
      using dist by (intro card_image [symmetric]) (auto simp: distinct_map intro: inj_on_subset)
    also have "(\<lambda>g. (?cur (GKey g), ?ent (GKey g))) ` set [g \<leftarrow> gs. ?lost g]
        = {(?cur k, ?ent k) | k. k \<in> GKey ` set gs \<and> ?ent k \<notin> set succ}" by auto
    also have "\<dots> = lost_pairs store req flt"
      unfolding keys setcompr_of_image fields lost_pairs_def succ [symmetric] by blast
    finally show ?thesis .
  qed
  moreover have "Unavailable (fold (add_failed_group succ) gs lg) = Unavailable lg
      \<and> Caveats (fold (add_failed_group succ) gs lg) = Caveats lg
      \<and> Evidence (fold (add_failed_group succ) gs lg) = Evidence lg"
    by (induction gs arbitrary: lg) (simp_all add: add_failed_group_def)
  ultimately show thesis
    using gs(1) by (intro that [of "fold (add_failed_group succ) gs lg"])
      (simp_all add: add_failed_def add_failed_group_fields)
qed

lemma realized_exact:
  assumes clean: "list_all clean_event store"
  obtains lg where "realized_leg oob q req = Inr lg"
    "\<And>cur. map_get 0 (ByCurrency lg) cur = word_of_int (realized_loss store req cur)"
    "Count lg = of_nat (\<Sum>flt\<leftarrow>flow_filters req ''failed''. card (lost_pairs store req flt))"
    "\<not> Unavailable lg" "Caveats lg = []"
proof -
  obtain succ where s: "fold_err (collect_succeeded q (Window req)) (flow_filters req recovery_success) [] = Inr succ"
      "set succ = recovered store req"
    using succeeded_all [OF clean, of "Window req" "flow_filters req recovery_success" "[]"]
    by (auto simp: recovered_def)
  have "\<exists>lg. fold_err (add_failed q (Window req) succ) flts lg0 = Inr lg
      \<and> (\<forall>cur. map_get 0 (ByCurrency lg) cur = map_get 0 (ByCurrency lg0) cur + word_of_int
           (\<Sum>flt\<leftarrow>flts. \<Sum>entity \<in> lost_entities store req flt cur. exposure store req flt cur entity))
      \<and> Count lg = Count lg0 + of_nat (\<Sum>flt\<leftarrow>flts. card (lost_pairs store req flt))
      \<and> Unavailable lg = Unavailable lg0 \<and> Caveats lg = Caveats lg0" for flts lg0
  proof (induction flts arbitrary: lg0)
    case Nil
    then show ?case by simp
  next
    case (Cons flt flts)
    obtain l1 where l1: "add_failed q (Window req) succ flt lg0 = Inr l1"
        "\<And>cur. map_get 0 (ByCurrency l1) cur = map_get 0 (ByCurrency lg0) cur
           + word_of_int (\<Sum>entity \<in> lost_entities store req flt cur. exposure store req flt cur entity)"
        "Count l1 = Count lg0 + of_nat (card (lost_pairs store req flt))"
        "Unavailable l1 = Unavailable lg0" "Caveats l1 = Caveats lg0"
      using failed_of [OF clean s(2)] by metis
    then show ?case using Cons.IH [of l1] by (auto simp: add.assoc)
  qed
  from this [of "flow_filters req ''failed''" "leg_zero\<lparr>Evidence := evidence_deterministic\<rparr>"]
  show thesis using that s serves
    by (auto simp: realized_leg_def realized_from_events_def realized_loss_def leg_zero_def)
qed

end

section \<open>Properties\<close>

definition memq_store :: "metric_point list \<Rightarrow> outcome list \<Rightarrow> querier" where
  "memq_store ms evs = memq_querier (with_caps default_caps (new_memq [with_metrics ms, with_events evs]))"

lemma paired_store: "event_backend (combined m (memq_store ms evs)) evs"
  unfolding memq_store_def by (rule memq_ev.paired)

lemma store_backend: "event_backend (memq_store ms evs) evs"
  unfolding memq_store_def by (rule memq_ev.event_backend_axioms)

lemma paired_same:
  "collect_succeeded (combined m q) = collect_succeeded q" "add_failed (combined m q) = add_failed q"
  by (intro ext; simp add: collect_succeeded_def add_failed_def combined_def)+

lemma realized_on_store:
  assumes "list_all clean_event evs"
  shows "\<exists>lg. realized_leg oob (combined m (memq_store ms evs)) req = Inr lg
     \<and> realized_leg oob (memq_store ms evs) req = Inr lg
     \<and> (\<forall>cur. map_get 0 (ByCurrency lg) cur = word_of_int (realized_loss evs req cur))
     \<and> Count lg = of_nat (\<Sum>flt\<leftarrow>flow_filters req ''failed''. card (lost_pairs evs req flt))
     \<and> \<not> Unavailable lg \<and> Caveats lg = []"
proof -
  have "realized_leg oob (combined m (memq_store ms evs)) req = realized_leg oob (memq_store ms evs) req"
    using event_backend.serves [OF paired_store, of m ms evs] event_backend.serves [OF store_backend, of ms evs]
    unfolding realized_leg_def realized_from_events_def paired_same by simp
  moreover obtain lg where "realized_leg oob (memq_store ms evs) req = Inr lg"
    "\<And>cur. map_get 0 (ByCurrency lg) cur = word_of_int (realized_loss evs req cur)"
    "Count lg = of_nat (\<Sum>flt\<leftarrow>flow_filters req ''failed''. card (lost_pairs evs req flt))"
    "\<not> Unavailable lg" "Caveats lg = []"
    by (rule event_backend.realized_exact [OF store_backend [of ms evs] assms, of oob req]) (rule that)
  ultimately show ?thesis by auto
qed

text \<open>C2: on outcome events the realized leg is exactly the loss defined on the store: per currency, the
  sum over the entities that failed in the window and scope and succeeded nowhere in it, of the
  largest failed amount (in \<open>int64\<close>); its count is the number of these (currency, entity) pairs.
  Any metrics backend paired with the events backend leaves this unchanged.\<close>

theorem realized_leg_exact:
  assumes "list_all clean_event evs"
  shows "\<exists>lg. realized_leg oob (combined m (memq_store ms evs)) req = Inr lg
     \<and> realized_leg oob (memq_store ms evs) req = Inr lg
     \<and> (\<forall>cur. map_get 0 (ByCurrency lg) cur = word_of_int (realized_loss evs req cur))
     \<and> Count lg = of_nat (\<Sum>flt\<leftarrow>flow_filters req ''failed''. card (lost_pairs evs req flt))
     \<and> \<not> Unavailable lg \<and> Caveats lg = []"
  by (rule realized_on_store [OF assms])

definition demo_request :: request where
  "demo_request = \<lparr>Window = \<lparr>From = 0, To = 5000\<rparr>, Scope = [], Flows = [''checkout'']\<rparr>"

lemma demo_clean: "list_all clean_event [example_outcome []]"
  using validated_clean [OF example_outcome_ok] by simp

theorem realized_leg_exact_witness:
  "realized_loss [example_outcome []] demo_request ''USD'' mod 2 ^ 64 = 4200"
proof -
  have e: "map_sum id (\<lambda>lg. map_get 0 (ByCurrency lg) ''USD'')
      (realized_leg (\<lambda>_. 0) (memq_store [] [example_outcome []]) demo_request) = Inr 4200" by code_simp
  obtain lg where "realized_leg (\<lambda>_. 0) (memq_store [] [example_outcome []]) demo_request = Inr lg"
      "map_get 0 (ByCurrency lg) ''USD'' = word_of_int (realized_loss [example_outcome []] demo_request ''USD'')"
    using realized_leg_exact [OF demo_clean, of "\<lambda>_. 0" _ "[]" demo_request] by blast
  with e have "(word_of_int (realized_loss [example_outcome []] demo_request ''USD'') :: i64) = word_of_int 4200" by simp
  then show ?thesis by (simp only: word_of_int_eq_iff) (simp add: take_bit_eq_mod)
qed

text \<open>redelivered events and their order change nothing: two stores with the same set of events,
  however often and in whatever order they hold them, give the same realized count and the same
  loss in every currency.\<close>

theorem realized_leg_dedups:
  assumes "list_all clean_event evs" "set evs' = set evs"
    "realized_leg oob (memq_store ms evs) req = Inr lg" "realized_leg oob (memq_store ms' evs') req = Inr lg'"
  shows "Count lg = Count lg' \<and> (\<forall>cur. map_get 0 (ByCurrency lg) cur = map_get 0 (ByCurrency lg') cur)"
proof -
  have "list_all clean_event evs'" using assms(1,2) by (simp add: list_all_iff)
  moreover have "realized_loss evs' req = realized_loss evs req" "lost_pairs evs' req = lost_pairs evs req"
    using assms(2)
    by (auto simp: fun_eq_iff realized_loss_def lost_entities_def recovered_def exposure_def lost_pairs_def selected_def)
  ultimately show ?thesis
    using realized_on_store [OF assms(1), of oob undefined ms req] realized_on_store [of evs' oob undefined ms' req] assms(3,4)
    by auto
qed

theorem realized_leg_dedups_witness:
  "\<exists>lg lg'. realized_leg (\<lambda>_. 0) (memq_store [] [example_outcome []]) demo_request = Inr lg
     \<and> realized_leg (\<lambda>_. 0) (memq_store [] [example_outcome [], example_outcome []]) demo_request = Inr lg'
     \<and> Count lg = Count lg'"
proof -
  have two: "list_all clean_event [example_outcome [], example_outcome []]" using demo_clean by simp
  obtain lg lg' where "realized_leg (\<lambda>_. 0) (memq_store [] [example_outcome []]) demo_request = Inr lg"
    "realized_leg (\<lambda>_. 0) (memq_store [] [example_outcome [], example_outcome []]) demo_request = Inr lg'"
    using realized_on_store [OF demo_clean] realized_on_store [OF two] by blast
  moreover have "set [example_outcome [], example_outcome []] = set [example_outcome []]" by simp
  ultimately show ?thesis using realized_leg_dedups [OF demo_clean] by blast
qed

end
