(* ===== verification/Engine_Customers.thy ===== *)
theory Engine_Customers
  imports Engine_Realized
begin

text \<open>
  \<open>engine/customers.go\<close>: who was hit. Groups per (currency, customer, segment) are merged into one
  account per customer; accounts are ranked by their largest failed value in a single currency.
\<close>

section \<open>The leg\<close>

record account =
  acct_segment :: string
  by_cur :: minor_map

type_synonym accounts = "(string, account) gomap"

definition add_account :: "event_group \<Rightarrow> accounts \<Rightarrow> accounts" where
  "add_account g accts =
     (let cid = map_get [] (GKey g) ''customer'';
          a = (case map_of accts cid of
                 Some a \<Rightarrow> a
               | None \<Rightarrow> \<lparr>acct_segment = map_get [] (GKey g) ''segment'', by_cur = []\<rparr>)
      in map_put cid (a\<lparr>by_cur := map_add (map_get [] (GKey g) ''currency'') (GSum g) (by_cur a)\<rparr>) accts)"

definition add_accounts :: "querier \<Rightarrow> time_range \<Rightarrow> labels \<Rightarrow> accounts \<Rightarrow> string + accounts" where
  "add_accounts q win flt accts =
     (case query_events q (group_query win flt [''currency'', ''customer'', ''segment''] agg_groups) of
        Inl e \<Rightarrow> Inl (''engine: customers query: '' @ error_text e)
      | Inr gs \<Rightarrow> Inr (fold add_account gs accts))"

fun max_from :: "i64 \<Rightarrow> i64 list \<Rightarrow> i64" where
  "max_from m [] = m"
| "max_from m (v # vs) = max_from (if sint v > sint m then v else m) vs"

definition max_currency :: "minor_map \<Rightarrow> i64" where
  "max_currency m = (case map snd m of [] \<Rightarrow> 0 | v # vs \<Rightarrow> max_from v vs)"

text \<open>Larger values first, ties by customer id.\<close>

definition rank_key :: "accounts \<Rightarrow> string \<Rightarrow> int \<times> string" where
  "rank_key accts cid =
     (- sint (max_currency (by_cur (map_get \<lparr>acct_segment = [], by_cur = []\<rparr> accts cid))), cid)"

definition ranked_ids :: "accounts \<Rightarrow> string list" where
  "ranked_ids accts = sort_key (rank_key accts) (map fst accts)"

definition impact_of :: "accounts \<Rightarrow> string \<Rightarrow> customer_impact" where
  "impact_of accts cid =
     (let a = map_get \<lparr>acct_segment = [], by_cur = []\<rparr> accts cid
      in \<lparr>ImpactID = cid, ImpactSegment = acct_segment a, ImpactByCurrency = by_cur a\<rparr>)"

definition customers_of :: "int \<Rightarrow> accounts \<Rightarrow> customers_leg" where
  "customers_of top_n accts =
     (let ids = ranked_ids accts;
          ids = (if top_n > 0 \<and> int (length ids) > top_n then take (nat top_n) ids else ids)
      in \<lparr>Distinct = of_nat (length accts),
          BySegment = fold (\<lambda>(_, a). map_add (acct_segment a) 1) accts [],
          TopN = (if top_n \<le> 0 then [] else map (impact_of accts) ids),
          NotAvailableReason = []\<rparr>)"

definition no_events_reason :: string where
  "no_events_reason =
     ''backend serves no events; per-customer impact (distinct, by segment, top-N) is unavailable '' @ dash
       @ '' pair with an event exporter''"

definition customers :: "querier \<Rightarrow> request \<Rightarrow> int \<Rightarrow> string + customers_leg" where
  "customers q req top_n =
     (if \<not> CEvents (capabilities q) then Inr (customers_zero\<lparr>NotAvailableReason := no_events_reason\<rparr>)
      else
        (case fold_err (add_accounts q (Window req)) (flow_filters req ''failed'') [] of
           Inl e \<Rightarrow> Inl e
         | Inr accts \<Rightarrow> Inr (customers_of top_n accts)))"

section \<open>What the leg is, on the store\<close>

definition hit :: "outcome list \<Rightarrow> request \<Rightarrow> string set" where
  "hit store req =
     (\<Union>flt \<in> set (flow_filters req ''failed''). (\<lambda>o'. CustomerID (VC o')) ` selected store (Window req) flt)"

definition failed_value :: "outcome list \<Rightarrow> request \<Rightarrow> string \<Rightarrow> string \<Rightarrow> int" where
  "failed_value store req cid cur =
     (\<Sum>flt\<leftarrow>flow_filters req ''failed''.
        \<Sum>o'\<leftarrow>[o' \<leftarrow> store. in_range (At o') (Window req) \<and> match_filters (event_labels o') flt
                     \<and> CustomerID (VC o') = cid \<and> Currency (Money (VC o')) = cur]. sint (amount_of o'))"

text \<open>The merged accounts: one per customer, holding that customer's sums.\<close>

definition accounts_of :: "(string \<Rightarrow> string \<Rightarrow> int) \<Rightarrow> string set \<Rightarrow> accounts \<Rightarrow> bool" where
  "accounts_of v ids accts \<longleftrightarrow> map_ok accts \<and> fst ` set accts = ids
     \<and> (\<forall>cid a. map_of accts cid = Some a \<longrightarrow>
          map_ok (by_cur a) \<and> (\<forall>cur. map_get 0 (by_cur a) cur = word_of_int (v cid cur)))
     \<and> (\<forall>cid cur. cid \<notin> ids \<longrightarrow> (word_of_int (v cid cur) :: i64) = 0)"

section \<open>Lemmas\<close>

lemma max_from_start: "sint m \<le> sint (max_from m vs)"
proof (induction vs arbitrary: m)
  case (Cons w vs)
  show ?case using Cons.IH [of w] Cons.IH [of m] by simp
qed simp

lemma max_from_ge: "v \<in> set vs \<Longrightarrow> sint v \<le> sint (max_from m vs)"
proof (induction vs arbitrary: m)
  case (Cons w vs)
  then show ?case using max_from_start [of w vs] max_from_start [of m vs] by auto
qed simp

lemma max_from_in: "max_from m vs \<in> set (m # vs)"
proof (induction vs arbitrary: m)
  case (Cons w vs)
  then show ?case using Cons.IH [of w] Cons.IH [of m] by auto
qed simp

lemma max_currency_is_max:
  assumes "map_ok m" "m \<noteq> []"
  shows "(\<exists>cur. map_get 0 m cur = max_currency m) \<and> (\<forall>cur. map_has m cur \<longrightarrow> sint (map_get 0 m cur) \<le> sint (max_currency m))"
proof -
  obtain v vs where vs: "map snd m = v # vs" using assms(2) by (cases m) auto
  have m: "max_currency m = max_from v vs" by (simp add: max_currency_def vs)
  have "max_currency m \<in> set (map snd m)" using max_from_in [of v vs] by (simp add: m vs)
  then have "\<exists>cur. map_get 0 m cur = max_currency m" using map_get_in [OF assms(1)] by force
  moreover have "sint (map_get 0 m cur) \<le> sint (max_currency m)" if "map_has m cur" for cur
  proof -
    from that obtain w where w: "(cur, w) \<in> set m" by (auto simp: map_has_iff)
    then have "w \<in> set (v # vs)" using vs by (metis image_eqI list.set_map snd_conv)
    then show ?thesis using map_get_in [OF assms(1) w] max_from_start [of v vs] max_from_ge [of w vs v] by (auto simp: m)
  qed
  ultimately show ?thesis by blast
qed

text \<open>One group adds its sum to one cell.\<close>

lemma add_account_step:
  assumes "accounts_of v ids accts"
  shows "accounts_of (\<lambda>cid cur. v cid cur + (if cid = map_get [] (GKey g) ''customer'' \<and> cur = map_get [] (GKey g) ''currency''
            then sint (GSum g) else 0)) (insert (map_get [] (GKey g) ''customer'') ids) (add_account g accts)"
proof -
  let ?c = "map_get [] (GKey g) ''customer''"
  have "map_of accts ?c = None \<longleftrightarrow> ?c \<notin> ids" using assms by (simp add: accounts_of_def map_of_eq_None_iff)
  then show ?thesis
    using assms by (auto simp: accounts_of_def add_account_def Let_def dom_update split: option.splits)
qed

lemma add_account_groups:
  assumes "accounts_of v ids accts"
  shows "accounts_of (\<lambda>cid cur. v cid cur + (\<Sum>g\<leftarrow>[g \<leftarrow> gs. map_get [] (GKey g) ''customer'' = cid \<and> map_get [] (GKey g) ''currency'' = cur]. sint (GSum g)))
     (ids \<union> (\<lambda>g. map_get [] (GKey g) ''customer'') ` set gs) (fold add_account gs accts)"
  using assms
proof (induction gs arbitrary: v ids accts)
  case Nil
  then show ?case by simp
next
  case (Cons g gs)
  from Cons.IH [OF add_account_step [OF Cons.prems, of g]] show ?case
    by (rule back_subst [where P = "\<lambda>x. x"]) (simp, intro arg_cong2 [where f = "\<lambda>a b. accounts_of a b _"] ext; auto)
qed

lemma accounts_of_cong:
  "accounts_of v ids accts \<Longrightarrow> (\<And>cid cur. (word_of_int (v cid cur) :: i64) = word_of_int (v' cid cur))
     \<Longrightarrow> accounts_of v' ids accts"
  by (simp add: accounts_of_def)

lemma map_add_total: "map_ok m \<Longrightarrow> sum_i64 (map snd (map_add k v m)) = sum_i64 (map snd m) + v"
proof (induction m)
  case Nil
  then show ?case by (simp add: map_add_def)
next
  case (Cons x m)
  obtain k' w where x: "x = (k', w)" by (cases x)
  show ?case
  proof (cases "k' = k")
    case True
    then show ?thesis by (simp add: x map_add_def map_get_def)
  next
    case False
    then show ?thesis using Cons by (simp add: x map_add_def map_get_def map_ok_def algebra_simps)
  qed
qed

lemma segment_total:
  "map_ok m \<Longrightarrow> sum_i64 (map snd (fold (\<lambda>(_, a). map_add (acct_segment a) 1) accts m))
     = sum_i64 (map snd m) + of_nat (length accts)"
proof (induction accts arbitrary: m)
  case (Cons x accts)
  then show ?case by (cases x) (simp add: map_add_total algebra_simps)
qed simp

lemma ranked_ids_perm: "mset (ranked_ids accts) = mset (map fst accts)"
  by (simp add: ranked_ids_def)

lemma ranked_sorted: "sorted_wrt (\<lambda>a b. rank_key accts a \<le> rank_key accts b) (ranked_ids accts)"
  using sorted_sort_key [of "rank_key accts" "map fst accts"] by (simp add: ranked_ids_def sorted_map)

context event_backend
begin

lemma account_answer:
  assumes "list_all clean_event store"
  obtains gs where "query_events q (group_query win flt [''currency'', ''customer'', ''segment''] agg_groups) = Inr gs"
    "answers store (group_query win flt [''currency'', ''customer'', ''segment''] agg_groups) gs"
  using grouped [of "group_query win flt [''currency'', ''customer'', ''segment''] agg_groups"] assms
  by (force simp: group_query_def event_query_zero_def currency_known_def)

lemma accounts_step:
  assumes clean: "list_all clean_event store" and a: "accounts_of v ids accts"
  obtains accts' where "add_accounts q win flt accts = Inr accts'"
    "accounts_of (\<lambda>cid cur. v cid cur + (\<Sum>o'\<leftarrow>[o' \<leftarrow> store. in_range (At o') win \<and> match_filters (event_labels o') flt
         \<and> CustomerID (VC o') = cid \<and> Currency (Money (VC o')) = cur]. sint (amount_of o')))
       (ids \<union> (\<lambda>o'. CustomerID (VC o')) ` selected store win flt) accts'"
proof -
  let ?eq = "group_query win flt [''currency'', ''customer'', ''segment''] agg_groups"
  obtain gs where gs: "query_events q ?eq = Inr gs" "answers store ?eq gs"
    by (rule account_answer [OF clean]) (rule that)
  have key: "event_key ?eq o' = [(''currency'', Currency (Money (VC o'))), (''customer'', CustomerID (VC o')),
      (''segment'', Segment (VC o'))]" for o'
    by (simp add: group_key_distinct group_query_def)
  have sums: "(word_of_int (\<Sum>g\<leftarrow>[g \<leftarrow> gs. map_get [] (GKey g) ''customer'' = cid \<and> map_get [] (GKey g) ''currency'' = cur]. sint (GSum g)) :: i64)
      = word_of_int (\<Sum>o'\<leftarrow>[o' \<leftarrow> store. in_range (At o') win \<and> match_filters (event_labels o') flt
         \<and> CustomerID (VC o') = cid \<and> Currency (Money (VC o')) = cur]. sint (amount_of o'))" for cid cur
  proof -
    have "sum_i64 (map GSum [g \<leftarrow> gs. map_get [] (GKey g) ''customer'' = cid \<and> map_get [] (GKey g) ''currency'' = cur])
       = sum_i64 (map amount_of [o' \<leftarrow> matched store ?eq. CustomerID (VC o') = cid \<and> Currency (Money (VC o')) = cur])"
      using answers_sum [OF gs(2), of "\<lambda>k. map_get [] k ''customer'' = cid \<and> map_get [] k ''currency'' = cur"]
      by (simp add: key map_get_def)
    then show ?thesis
      by (simp add: sum_i64_word_of_int comp_def matched_def group_query_def event_query_zero_def conj_assoc)
  qed
  have "(\<lambda>k. map_get [] k ''customer'') ` GKey ` set gs = (\<lambda>o'. CustomerID (VC o')) ` selected store win flt"
    using gs(2) by (simp add: answers_def matched_selected image_image key map_get_def)
  then have ids: "(\<lambda>g. map_get [] (GKey g) ''customer'') ` set gs = (\<lambda>o'. CustomerID (VC o')) ` selected store win flt"
    by (simp add: image_image)
  from add_account_groups [OF a, of gs] have b: "accounts_of (\<lambda>cid cur. v cid cur + (\<Sum>o'\<leftarrow>[o' \<leftarrow> store. in_range (At o') win
         \<and> match_filters (event_labels o') flt \<and> CustomerID (VC o') = cid \<and> Currency (Money (VC o')) = cur]. sint (amount_of o')))
       (ids \<union> (\<lambda>o'. CustomerID (VC o')) ` selected store win flt) (fold add_account gs accts)"
    unfolding ids by (rule accounts_of_cong) (simp only: sums flip: wi_hom_add)
  show thesis using gs(1) by (intro that [OF _ b]) (simp add: add_accounts_def)
qed

lemma accounts_all:
  assumes clean: "list_all clean_event store" and a: "accounts_of v ids accts"
  shows "\<exists>accts'. fold_err (add_accounts q win) flts accts = Inr accts'
    \<and> accounts_of (\<lambda>cid cur. v cid cur + (\<Sum>flt\<leftarrow>flts. \<Sum>o'\<leftarrow>[o' \<leftarrow> store. in_range (At o') win \<and> match_filters (event_labels o') flt
         \<and> CustomerID (VC o') = cid \<and> Currency (Money (VC o')) = cur]. sint (amount_of o')))
       (ids \<union> (\<Union>flt \<in> set flts. (\<lambda>o'. CustomerID (VC o')) ` selected store win flt)) accts'"
  using a
proof (induction flts arbitrary: v ids accts)
  case Nil
  then show ?case by simp
next
  case (Cons flt flts)
  obtain accts1 where s: "add_accounts q win flt accts = Inr accts1" and
    b: "accounts_of (\<lambda>cid cur. v cid cur + (\<Sum>o'\<leftarrow>[o' \<leftarrow> store. in_range (At o') win \<and> match_filters (event_labels o') flt
         \<and> CustomerID (VC o') = cid \<and> Currency (Money (VC o')) = cur]. sint (amount_of o')))
       (ids \<union> (\<lambda>o'. CustomerID (VC o')) ` selected store win flt) accts1"
    by (rule accounts_step [OF clean Cons.prems]) (rule that)
  from Cons.IH [OF b] s show ?case by (simp add: add.assoc Un_assoc)
qed

lemma customers_accounts:
  assumes "list_all clean_event store"
  obtains accts where "customers q req n = Inr (customers_of n accts)"
    "accounts_of (failed_value store req) (hit store req) accts"
proof -
  have "accounts_of (\<lambda>_ _. 0) {} []" by (simp add: accounts_of_def)
  from accounts_all [OF assms this, of "Window req" "flow_filters req ''failed''"] show thesis
    using that serves by (auto simp: customers_def failed_value_def [abs_def] hit_def)
qed

end

section \<open>Properties\<close>

lemma top_ids:
  assumes "accounts_of v ids accts"
  shows "distinct (map ImpactID (TopN (customers_of n accts)))"
    "set (map ImpactID (TopN (customers_of n accts))) \<subseteq> ids"
    "length (TopN (customers_of n accts)) = min (nat n) (card ids)"
    "Distinct (customers_of n accts) = of_nat (card ids)"
    "sum_i64 (map snd (BySegment (customers_of n accts))) = Distinct (customers_of n accts)"
proof -
  have d: "distinct (map fst accts)" and k: "set (map fst accts) = ids"
    using assms by (simp_all add: accounts_of_def map_ok_def)
  have l: "length accts = card ids" using distinct_card [OF d] k by simp
  have rd: "distinct (ranked_ids accts)" and rk: "set (ranked_ids accts) = ids"
    using d k by (simp_all add: ranked_ids_def)
  have rl: "length (ranked_ids accts) = card ids" using l by (simp add: ranked_ids_def)
  have ids: "map ImpactID (TopN (customers_of n accts)) = take (nat n) (ranked_ids accts)"
    by (auto simp: customers_of_def Let_def impact_of_def comp_def)
  show "distinct (map ImpactID (TopN (customers_of n accts)))" using rd by (simp add: ids)
  show "set (map ImpactID (TopN (customers_of n accts))) \<subseteq> ids" using rk set_take_subset by (fastforce simp: ids)
  show "length (TopN (customers_of n accts)) = min (nat n) (card ids)"
    using arg_cong [OF ids, of length] rl by simp
  show "Distinct (customers_of n accts) = of_nat (card ids)" using l by (simp add: customers_of_def Let_def)
  show "sum_i64 (map snd (BySegment (customers_of n accts))) = Distinct (customers_of n accts)"
    using segment_total [of "[]" accts] by (simp add: customers_of_def Let_def)
qed

lemma top_values:
  assumes a: "accounts_of v ids accts" and i: "i \<in> set (TopN (customers_of n accts))"
  shows "map_get 0 (ImpactByCurrency i) cur = word_of_int (v (ImpactID i) cur)"
proof -
  have im: "i = impact_of accts (ImpactID i)"
    using i by (auto simp: customers_of_def Let_def impact_of_def split: if_splits)
  have "ImpactID i \<in> ids" using top_ids(2) [OF a] i by auto
  then obtain x where "map_of accts (ImpactID i) = Some x"
    using a by (cases "map_of accts (ImpactID i)") (auto simp: accounts_of_def map_of_eq_None_iff)
  then show ?thesis
    using a by (subst im) (auto simp: impact_of_def accounts_of_def map_get_def)
qed

lemma top_rank:
  assumes a: "accounts_of v ids accts" and i: "i \<in> set (TopN (customers_of n accts))"
    and c: "cid \<in> ids" "cid \<notin> ImpactID ` set (TopN (customers_of n accts))"
  shows "sint (word_of_int (v cid cur) :: i64) \<le> max 0 (sint (max_currency (ImpactByCurrency i)))"
proof -
  let ?r = "ranked_ids accts"
  have ids: "map ImpactID (TopN (customers_of n accts)) = take (nat n) ?r"
    by (auto simp: customers_of_def Let_def impact_of_def comp_def)
  have im: "i = impact_of accts (ImpactID i)"
    using i by (auto simp: customers_of_def Let_def impact_of_def split: if_splits)
  have "set ?r = ids" using a by (simp add: ranked_ids_def accounts_of_def)
  moreover have "?r = take (nat n) ?r @ drop (nat n) ?r" by simp
  moreover have "ImpactID i \<in> set (take (nat n) ?r)" using i ids by (metis image_eqI list.set_map)
  moreover have "cid \<notin> set (take (nat n) ?r)" using c(2) ids by (metis list.set_map)
  ultimately have "cid \<in> set (drop (nat n) ?r)" using c(1) by (metis Un_iff set_append)
  then have "rank_key accts (ImpactID i) \<le> rank_key accts cid"
    using ranked_sorted [of accts] \<open>ImpactID i \<in> set (take (nat n) ?r)\<close>
    by (metis append_take_drop_id sorted_wrt_append)
  then have le: "sint (max_currency (by_cur (map_get \<lparr>acct_segment = [], by_cur = []\<rparr> accts cid)))
      \<le> sint (max_currency (ImpactByCurrency i))"
    by (subst im) (auto simp: rank_key_def impact_of_def Let_def less_eq_prod_def)
  obtain x where x: "map_of accts cid = Some x"
    using a c(1) by (cases "map_of accts cid") (auto simp: accounts_of_def map_of_eq_None_iff)
  then have ok: "map_ok (by_cur x)" and val: "map_get 0 (by_cur x) cur = word_of_int (v cid cur)"
    using a by (auto simp: accounts_of_def)
  show ?thesis
  proof (cases "map_has (by_cur x) cur")
    case True
    then have "by_cur x \<noteq> []" by auto
    then have "sint (map_get 0 (by_cur x) cur) \<le> sint (max_currency (by_cur x))"
      using max_currency_is_max [OF ok] True by blast
    moreover have "map_get \<lparr>acct_segment = [], by_cur = []\<rparr> accts cid = x" using x by (simp add: map_get_def)
    ultimately show ?thesis using le val by simp
  next
    case False
    then have "map_get 0 (by_cur x) cur = 0" by (simp add: map_has_def map_get_def)
    then have "(word_of_int (v cid cur) :: i64) = 0" using val by simp
    then show ?thesis by simp
  qed
qed

text \<open>C36: on outcome events the customers leg is exact. It counts every customer with a failed event in
  the window and scope once, over all flows; the segment counts add up to that number; the top list
  holds distinct hit customers, as many as asked for, each with the sums of its failed amounts per
  currency; and no customer left out of it has a larger sum in any currency than the best currency
  of any customer in it.\<close>

theorem customers_leg_exact:
  assumes "list_all clean_event evs"
  shows "\<exists>lg. customers (memq_store ms evs) req n = Inr lg
     \<and> Distinct lg = of_nat (card (hit evs req))
     \<and> sum_i64 (map snd (BySegment lg)) = Distinct lg
     \<and> distinct (map ImpactID (TopN lg)) \<and> length (TopN lg) = min (nat n) (card (hit evs req))
     \<and> (\<forall>i \<in> set (TopN lg). ImpactID i \<in> hit evs req
          \<and> (\<forall>cur. map_get 0 (ImpactByCurrency i) cur = word_of_int (failed_value evs req (ImpactID i) cur))
          \<and> (\<forall>cid \<in> hit evs req - ImpactID ` set (TopN lg). \<forall>cur.
               sint (word_of_int (failed_value evs req cid cur) :: i64) \<le> max 0 (sint (max_currency (ImpactByCurrency i)))))"
proof -
  obtain accts where c: "customers (memq_store ms evs) req n = Inr (customers_of n accts)"
      and a: "accounts_of (failed_value evs req) (hit evs req) accts"
    by (rule event_backend.customers_accounts [OF store_backend [of ms evs] assms, of req n]) (rule that)
  show ?thesis
    using c top_ids [OF a, of n] top_values [OF a] top_rank [OF a] by (intro exI [of _ "customers_of n accts"]) auto
qed

theorem customers_leg_exact_witness:
  "card (hit [example_outcome []] demo_request) mod 2 ^ 64 = 1"
proof -
  have e: "map_sum id Distinct (customers (memq_store [] [example_outcome []]) demo_request 10) = Inr 1" by code_simp
  obtain lg where "customers (memq_store [] [example_outcome []]) demo_request 10 = Inr lg"
      "Distinct lg = of_nat (card (hit [example_outcome []] demo_request))"
    using customers_leg_exact [OF demo_clean, of "[]" demo_request 10] by blast
  with e have "(of_nat (card (hit [example_outcome []] demo_request)) :: i64) = of_nat 1" by simp
  then show ?thesis by (simp only: word_of_nat_eq_iff) (simp add: take_bit_eq_mod)
qed

end
