(* ===== verification/Engine_Severity.thy ===== *)
theory Engine_Severity
  imports Engine
begin

text \<open>
  \<open>engine/severity.go\<close>: the money at risk per minute, per currency, against the registry's ladder of
  thresholds, most severe first.
\<close>

section \<open>The suggestion\<close>

text \<open>\<open>Duration.Minutes\<close>: whole minutes plus the fraction.\<close>

definition duration_minutes :: "duration \<Rightarrow> f64" where
  "duration_minutes d =
     (let whole = quot_to_zero d minute; rest = d - whole * minute
      in fadd (to_f64 (of_int whole)) (fdiv (to_f64 (of_int rest)) (Fin 60000000000)))"

definition at_risk :: "report \<Rightarrow> minor_map" where
  "at_risk r =
     fold (\<lambda>(c, v). map_add c v) (ByCurrency (RepDeferred r))
       (fold (\<lambda>(c, v). map_add c v) (ByCurrency (RepRealized r)) [])"

text \<open>The index of the first threshold a rate reaches.\<close>

fun first_cleared :: "f64 \<Rightarrow> severity_threshold list \<Rightarrow> nat option" where
  "first_cleared rate [] = None"
| "first_cleared rate (th # ths) =
     (if fle (of_i64 (MinPerMinuteMinor th)) rate then Some 0
      else map_option Suc (first_cleared rate ths))"

definition window_minutes :: "report \<Rightarrow> f64" where
  "window_minutes r = duration_minutes (time_sub (To (Window (RepRequest r))) (From (Window (RepRequest r))))"

definition best_index :: "registry \<Rightarrow> report \<Rightarrow> nat" where
  "best_index reg r =
     fold (\<lambda>(c, v) best.
             case first_cleared (fdiv (of_i64 v) (window_minutes r)) (Severity reg) of
               Some i \<Rightarrow> if i < best then i else best
             | None \<Rightarrow> best)
       (at_risk r) (length (Severity reg))"

definition suggest_severity :: "registry option \<Rightarrow> report \<Rightarrow> string" where
  "suggest_severity reg r =
     (case reg of
        None \<Rightarrow> []
      | Some reg \<Rightarrow>
          if Severity reg = [] then []
          else if fle (window_minutes r) (Fin 0) then []
          else
            (let best = best_index reg r
             in if best = length (Severity reg) then [] else Sev (Severity reg ! best)))"

section \<open>Lemmas\<close>

lemma first_cleared_Some:
  "first_cleared rate ths = Some i \<longleftrightarrow>
     i < length ths \<and> fle (of_i64 (MinPerMinuteMinor (ths ! i))) rate
     \<and> (\<forall>j < i. \<not> fle (of_i64 (MinPerMinuteMinor (ths ! j))) rate)"
proof (induction ths arbitrary: i)
  case Nil
  then show ?case by simp
next
  case (Cons th ths)
  show ?case
  proof (cases i)
    case 0
    then show ?thesis by auto
  next
    case (Suc k)
    then show ?thesis using Cons.IH [of k] by (auto simp: All_less_Suc2)
  qed
qed

lemma first_cleared_None:
  "first_cleared rate ths = None \<longleftrightarrow> (\<forall>i < length ths. \<not> fle (of_i64 (MinPerMinuteMinor (ths ! i))) rate)"
  by (induction ths) (auto simp: All_less_Suc2)

text \<open>A currency reaches a threshold.\<close>

definition reaches :: "registry \<Rightarrow> report \<Rightarrow> nat \<Rightarrow> bool" where
  "reaches reg r i \<longleftrightarrow> i < length (Severity reg)
     \<and> (\<exists>(c, v) \<in> set (at_risk r). fle (of_i64 (MinPerMinuteMinor (Severity reg ! i))) (fdiv (of_i64 v) (window_minutes r)))"

lemma reaches_less: "reaches reg r i \<Longrightarrow> i < length (Severity reg)"
  by (simp add: reaches_def)

lemma fold_least:
  "fold (\<lambda>x best. case f x of Some i \<Rightarrow> if i < best then i else best | None \<Rightarrow> best) xs n
     = Min (insert n {i. \<exists>x \<in> set xs. f x = Some (i :: nat)})"
proof (induction xs arbitrary: n)
  case Nil
  then show ?case by simp
next
  case (Cons x xs)
  have fin: "finite {i. \<exists>x \<in> set xs. f x = Some i}"
  proof -
    have "{i. \<exists>x \<in> set xs. f x = Some i} \<subseteq> the ` f ` set xs" by force
    then show ?thesis by (rule finite_subset) simp
  qed
  show ?case
  proof (cases "f x")
    case None
    then show ?thesis using Cons.IH by simp
  next
    case (Some i)
    have "{j. \<exists>y \<in> set (x # xs). f y = Some j} = insert i {j. \<exists>y \<in> set xs. f y = Some j}" using Some by auto
    moreover have "Min (insert (min n i) S) = Min (insert n (insert i S))" if "finite S" for S
      using that by (cases "S = {}") (simp_all add: min.assoc)
    moreover have "(if i < n then i else n) = min n i" by simp
    ultimately show ?thesis using Cons.IH [of "min n i"] Some fin by simp
  qed
qed

lemma best_index_Least:
  "best_index reg r = (if \<exists>i. reaches reg r i then LEAST i. reaches reg r i else length (Severity reg))"
proof -
  let ?n = "length (Severity reg)"
  let ?rate = "\<lambda>v. fdiv (of_i64 v) (window_minutes r)"
  let ?S = "{i. \<exists>x \<in> set (at_risk r). first_cleared (?rate (snd x)) (Severity reg) = Some i}"
  have b: "best_index reg r = Min (insert ?n ?S)"
    unfolding best_index_def using fold_least [of "\<lambda>x. first_cleared (?rate (snd x)) (Severity reg)"]
    by (simp add: split_def)
  have sub: "?S \<subseteq> {i. reaches reg r i}" by (auto simp: reaches_def first_cleared_Some)
  have fin: "finite ?S" by (rule finite_subset [OF sub]) (auto simp: reaches_def intro: finite_subset [of _ "{..<?n}"])
  show ?thesis
  proof (cases "\<exists>i. reaches reg r i")
    case True
    let ?m = "LEAST i. reaches reg r i"
    have m: "reaches reg r ?m" using True by (rule LeastI_ex)
    then obtain c v where cv: "(c, v) \<in> set (at_risk r)" "?m < ?n"
        "fle (of_i64 (MinPerMinuteMinor (Severity reg ! ?m))) (?rate v)"
      by (auto simp: reaches_def)
    have "\<not> fle (of_i64 (MinPerMinuteMinor (Severity reg ! j))) (?rate v)" if "j < ?m" for j
      using not_less_Least [OF that] cv(1,2) that by (force simp: reaches_def)
    then have "first_cleared (?rate v) (Severity reg) = Some ?m" using cv by (simp add: first_cleared_Some)
    then have "?m \<in> ?S" using cv(1) by force
    moreover have "?m \<le> i" if "i \<in> insert ?n ?S" for i
      using that sub cv(2) by (auto intro: Least_le)
    ultimately have "Min (insert ?n ?S) = ?m" using fin by (intro Min_eqI) auto
    then show ?thesis using True b by simp
  next
    case False
    then have "?S = {}" using sub by auto
    then show ?thesis using False b by simp
  qed
qed

text \<open>The minutes of a window are a finite number.\<close>

lemma quot_small: "\<bar>quot_to_zero d m\<bar> \<le> \<bar>d\<bar>"
proof (cases "m = 0")
  case False
  have "\<bar>d\<bar> div \<bar>m\<bar> \<le> \<bar>d\<bar> div 1" using False by (intro zdiv_mono2) simp_all
  moreover have "0 \<le> \<bar>d\<bar> div \<bar>m\<bar>" using False by (simp add: pos_imp_zdiv_nonneg_iff)
  ultimately show ?thesis by (auto simp: quot_to_zero_def Let_def)
qed (simp add: quot_to_zero_def)

lemma window_minutes_Fin: "\<exists>m. window_minutes r = Fin m"
proof -
  define d where "d = time_sub (To (Window (RepRequest r))) (From (Window (RepRequest r)))"
  define w where "w = quot_to_zero d minute"
  define s where "s = d - w * minute"
  have d: "\<bar>d\<bar> \<le> 2 ^ 63" by (auto simp: d_def time_sub_def Let_def)
  then have w: "\<bar>w\<bar> \<le> 2 ^ 63" using quot_small [of d minute] unfolding w_def by linarith
  have "\<bar>s\<bar> \<le> \<bar>d\<bar> + \<bar>w * minute\<bar>" by (simp add: s_def)
  also have "\<dots> \<le> 2 ^ 63 + 2 ^ 63 * 2 ^ 36"
    using d w mult_mono [of "\<bar>w\<bar>" "2 ^ 63" minute "2 ^ 36"] by (simp add: abs_mult minute_def second_def)
  finally have s: "\<bar>s\<bar> \<le> 2 ^ 100" by simp
  have up: "\<bar>of_int x\<bar> \<le> pow2 100" if "\<bar>x\<bar> \<le> 2 ^ 100" for x :: int
  proof -
    have "(of_int \<bar>x\<bar> :: rat) \<le> of_int (2 ^ 100)" using that by (simp only: of_int_le_iff)
    then show ?thesis by (simp add: pow2_def)
  qed
  obtain a where a: "to_f64 (of_int w) = Fin a" "\<bar>a\<bar> \<le> pow2 100"
    using to_f64_Fin [OF up [of w]] w by auto
  obtain b where b: "to_f64 (of_int s) = Fin b" "\<bar>b\<bar> \<le> pow2 100"
    using to_f64_Fin [OF up [OF s]] by auto
  have "\<bar>b / 60000000000\<bar> \<le> \<bar>b\<bar>" by simp
  then have "\<bar>b / 60000000000\<bar> \<le> pow2 100" using b(2) by linarith
  then obtain c where c: "fdiv (Fin b) (Fin 60000000000) = Fin c" "\<bar>c\<bar> \<le> pow2 100"
    using to_f64_Fin [of "b / 60000000000" 100] by auto
  have "\<bar>a + c\<bar> \<le> pow2 100 + pow2 100" using a(2) c(2) by linarith
  also have "\<dots> = pow2 101" by (simp add: pow2_def)
  finally obtain m where "to_f64 (a + c) = Fin m" using to_f64_Fin [of "a + c" 101] by auto
  then have "window_minutes r = Fin m"
    using a(1) b(1) c(1)
    by (simp only: window_minutes_def duration_minutes_def Let_def flip: d_def w_def s_def) simp
  then show ?thesis ..
qed

lemma at_risk_ok: "map_ok (at_risk r)"
proof -
  have "map_ok (fold (\<lambda>(c, v). map_add c v) xs m)" if "map_ok m" for xs :: minor_map and m
    using that by (induction xs arbitrary: m) auto
  then show ?thesis by (simp add: at_risk_def)
qed

section \<open>Properties\<close>

text \<open>the suggested severity is the most severe one whose threshold some currency's money at risk
  per minute reaches, and it is empty exactly when there is no ladder, no positive window or no
  threshold reached; the order in which Go iterates over the currencies is irrelevant.\<close>

theorem suggest_severity_exact:
  "suggest_severity (Some reg) r =
     (if Severity reg \<noteq> [] \<and> \<not> fle (window_minutes r) (Fin 0) \<and> (\<exists>i. reaches reg r i)
      then Sev (Severity reg ! (LEAST i. reaches reg r i)) else [])"
proof (cases "\<exists>i. reaches reg r i")
  case True
  then show ?thesis using reaches_less [OF LeastI_ex [OF True]]
    by (auto simp: suggest_severity_def best_index_Least Let_def)
qed (auto simp: suggest_severity_def best_index_Least)

text \<open>more money at risk never lowers the suggestion, floating point included: if over the same
  window every currency's amount at risk is at least as large, the suggested level is at least as
  severe.\<close>

theorem severity_monotone:
  assumes th: "\<forall>t \<in> set (Severity reg). 0 < sint (MinPerMinuteMinor t)"
    and win: "Window (RepRequest r') = Window (RepRequest r)" "\<not> fle (window_minutes r) (Fin 0)"
    and more: "\<forall>c. sint (map_get 0 (at_risk r) c) \<le> sint (map_get 0 (at_risk r') c)"
  shows "best_index reg r' \<le> best_index reg r"
proof -
  obtain m where m: "window_minutes r = Fin m" "0 < m"
    using window_minutes_Fin [of r] win(2) by auto
  have m': "window_minutes r' = Fin m" using m(1) win(1) by (simp add: window_minutes_def)
  have mono: "fle (fdiv (of_i64 a) (Fin m)) (fdiv (of_i64 b) (Fin m))" if "sint a \<le> sint b" for a b
    using of_i64_mono [OF that] fdiv_mono [OF _ m(2)] by (simp only: of_i64_Fin)
  have "reaches reg r' i" if i: "reaches reg r i" for i
  proof -
    let ?t = "of_i64 (MinPerMinuteMinor (Severity reg ! i))"
    from i obtain c v where cv: "(c, v) \<in> set (at_risk r)" "fle ?t (fdiv (of_i64 v) (Fin m))" "i < length (Severity reg)"
      by (auto simp: reaches_def m(1))
    have v: "v = map_get 0 (at_risk r) c" using map_get_in [OF at_risk_ok cv(1)] by simp
    let ?v = "map_get 0 (at_risk r') c"
    have le: "fle ?t (fdiv (of_i64 ?v) (Fin m))"
      using cv(2) mono more v fle_trans by blast
    have "map_has (at_risk r') c"
    proof (rule ccontr)
      assume "\<not> map_has (at_risk r') c"
      then have z: "?v = 0" by (simp add: map_has_def map_get_def)
      have "fdiv (of_i64 ?v) (Fin m) = Fin 0" unfolding z of_i64_Fin using m(2) by (simp add: to_f64_def)
      moreover have "sint (1 :: i64) \<le> sint (MinPerMinuteMinor (Severity reg ! i))"
        using th cv(3) by (force simp: set_conv_nth)
      then have "fle (of_i64 1) ?t" by (rule of_i64_mono)
      moreover have "of_i64 1 = Fin 1" using of_i64_exact [of 1] by simp
      ultimately show False using le fle_trans [of "Fin 1" ?t "Fin 0"] by simp
    qed
    then obtain y where "map_of (at_risk r') c = Some y" by (auto simp: map_has_def)
    then have "(c, ?v) \<in> set (at_risk r')" by (auto simp: map_get_def dest: map_of_SomeD)
    then show ?thesis using le cv(3) by (auto simp: reaches_def m')
  qed
  then have sub: "reaches reg r i \<Longrightarrow> reaches reg r' i" for i .
  show ?thesis
  proof (cases "\<exists>i. reaches reg r i")
    case True
    then have "reaches reg r' (LEAST i. reaches reg r i)" using sub LeastI_ex by blast
    then have "(LEAST i. reaches reg r' i) \<le> (LEAST i. reaches reg r i)" by (rule Least_le)
    then show ?thesis using True sub by (auto simp: best_index_Least)
  next
    case False
    moreover have "(LEAST i. reaches reg r' i) < length (Severity reg)" if "\<exists>i. reaches reg r' i"
      by (rule reaches_less [OF LeastI_ex [OF that]])
    ultimately show ?thesis by (auto simp: best_index_Least less_imp_le)
  qed
qed

definition ladder :: registry where
  "ladder = \<lparr>Version = 1, Segments = [], AllowHosts = [],
     Severity = [\<lparr>Sev = ''SEV1'', MinPerMinuteMinor = 1000\<rparr>, \<lparr>Sev = ''SEV2'', MinPerMinuteMinor = 10\<rparr>],
     flows = [], segment_set = []\<rparr>"

lemma whole_minutes:
  assumes "\<bar>n\<bar> < 2 ^ 53"
  shows "duration_minutes (n * minute) = Fin (of_int n)"
proof -
  have "\<bar>n * minute\<bar> div \<bar>minute\<bar> = \<bar>n\<bar>" by (simp add: abs_mult minute_def second_def)
  then have "quot_to_zero (n * minute) minute = n"
    by (auto simp: quot_to_zero_def Let_def minute_def second_def)
  then show ?thesis using to_f64_int [OF assms] by (simp add: duration_minutes_def)
qed

definition report_of :: "i64 \<Rightarrow> report" where
  "report_of v =
     \<lparr>RepRequest = \<lparr>Window = \<lparr>From = 0, To = 600000000000\<rparr>, Scope = [], Flows = []\<rparr>, GeneratedAt = 0, RegistryVersion = 1,
      LibraryVersion = [], RepRealized = leg_zero\<lparr>ByCurrency := [(''USD'', v)]\<rparr>,
      RepDeferred = leg.extend leg_zero \<lparr>ByAgeBucket = [], SLABreaches = 0, OldestAgeMinutes = 0, ProjectedLostMinor = []\<rparr>,
      RepUnrealized = \<lparr>LowMinor = [], MidMinor = [], HighMinor = [], EstEvidence = [], Notes = [], EstUnavailable = True\<rparr>,
      RepCustomers = customers_zero,
      RepCoverage = \<lparr>Ratio = Fin 0, CovWindow = \<lparr>From = 0, To = 0\<rparr>, CovSource = [], CovEvidence = [], CovUnavailable = []\<rparr>,
      RepSeverity = []\<rparr>"

theorem severity_monotone_witness:
  "best_index ladder (report_of 20000) \<le> best_index ladder (report_of 200) \<and> best_index ladder (report_of 200) = 1"
proof
  have "\<forall>t \<in> set (Severity ladder). 0 < sint (MinPerMinuteMinor t)" by code_simp
  moreover have "Window (RepRequest (report_of 20000)) = Window (RepRequest (report_of 200))"
    by (simp add: report_of_def)
  moreover have w: "window_minutes (report_of v) = Fin 10" for v
    using whole_minutes [of 10] by (simp add: window_minutes_def report_of_def time_sub_def minute_def second_def)
  then have "\<not> fle (window_minutes (report_of 200)) (Fin 0)" by simp
  moreover have risk: "at_risk (report_of v) = [(''USD'', v)]" for v
    by (simp add: at_risk_def report_of_def leg_zero_def leg.defs map_add_def)
  then have "\<forall>c. sint (map_get 0 (at_risk (report_of 200)) c) \<le> sint (map_get 0 (at_risk (report_of 20000)) c)"
    by (simp add: map_get_def)
  ultimately show "best_index ladder (report_of 20000) \<le> best_index ladder (report_of 200)"
    by (rule severity_monotone)
  show "best_index ladder (report_of 200) = 1"
    by (simp add: best_index_def risk w ladder_def of_i64_def)
qed

end
