(* ===== verification/Engine_Coverage.thy ===== *)
theory Engine_Coverage
  imports Engine_Realized
begin

text \<open>
  \<open>engine/coverage.go\<close>: how much of the ledger's captured value telemetry also saw, per flow and
  currency; the headline is the worst of these ratios.
\<close>

section \<open>The leg\<close>

record coverage_slice =
  SlFlow :: string
  SlCurrency :: string
  SlExponent :: i8
  TelemetryMinor :: i64
  LedgerMinor :: i64
  SlRatio :: f64

record ledger_acc =
  acc_minor :: i64
  acc_exponent :: i8

type_synonym ledger_sums = "(string, (string, ledger_acc) gomap) gomap"

definition add_ledger_row :: "ledger_row \<Rightarrow> ledger_sums \<Rightarrow> ledger_sums" where
  "add_ledger_row r lv =
     (if LOutcome r \<noteq> res_success then lv
      else
        (let per = map_get [] lv (LFlow r);
             a = (case map_of per (Currency (LMoney r)) of
                    Some a \<Rightarrow> a
                  | None \<Rightarrow> \<lparr>acc_minor = 0, acc_exponent = Exponent (LMoney r)\<rparr>)
         in map_put (LFlow r)
              (map_put (Currency (LMoney r)) (a\<lparr>acc_minor := acc_minor a + Amount (LMoney r)\<rparr>) per) lv))"

definition ledger_value :: "ledger_row list \<Rightarrow> ledger_sums" where
  "ledger_value rows = fold add_ledger_row rows []"

definition telemetry_success_value ::
  "(f64 \<Rightarrow> i64) \<Rightarrow> querier \<Rightarrow> string \<Rightarrow> string \<Rightarrow> time_range \<Rightarrow> query_error + minor_map" where
  "telemetry_success_value oob q flow stage win =
     (let base = map_put ''outcome'' ''success'' (map_put ''flow'' flow []);
          flt = (if stage \<noteq> [] then map_put ''stage'' stage base else base)
      in if CMetrics (capabilities q) then
           (case query_metric q (metric_query_zero\<lparr>Metric := ''biz_value_total'', QAgg := agg_sum, QFilters := flt,
                    QGroupBy := [''currency''], QRange := win\<rparr>) of
              Inl e \<Rightarrow> Inl e
            | Inr series \<Rightarrow>
                Inr (fold (\<lambda>s m. fold (\<lambda>p. map_add (map_get [] (SLabels s) ''currency'') (to_i64 oob (PtValue p)))
                       (SPoints s) m) series []))
         else if CEvents (capabilities q) then
           (case query_events q (group_query win flt [''currency''] agg_groups) of
              Inl e \<Rightarrow> Inl e
            | Inr gs \<Rightarrow> Inr (fold (\<lambda>g. map_add (map_get [] (GKey g) ''currency'') (GSum g)) gs []))
         else Inl ErrUnsupported)"

text \<open>The slices so far and the worst ratio among them.\<close>

type_synonym coverage_state = "coverage_slice list \<times> f64"

definition add_slice :: "string \<Rightarrow> minor_map \<Rightarrow> string \<times> ledger_acc \<Rightarrow> coverage_state \<Rightarrow> coverage_state" where
  "add_slice flow tel entry st =
     (let (currency, a) = entry; (slices, worst) = st in
      if sint (acc_minor a) \<le> 0 then st
      else
        (let tel_minor = map_get 0 tel currency;
             raw = fdiv (of_i64 tel_minor) (of_i64 (acc_minor a));
             ratio = (if fless (Fin 1) raw then Fin 1 else raw)
         in (slices @ [\<lparr>SlFlow = flow, SlCurrency = currency, SlExponent = acc_exponent a,
               TelemetryMinor = tel_minor, LedgerMinor = acc_minor a, SlRatio = ratio\<rparr>],
             if fless ratio worst then ratio else worst)))"

definition cover_flow ::
  "(f64 \<Rightarrow> i64) \<Rightarrow> registry option \<Rightarrow> querier \<Rightarrow> time_range \<Rightarrow> ledger_sums \<Rightarrow> string \<Rightarrow> coverage_state \<Rightarrow> string + coverage_state" where
  "cover_flow oob reg q win ledger flow st =
     (case map_of ledger flow of
        None \<Rightarrow> Inr st
      | Some lcur \<Rightarrow>
          (case reg of
             Some r \<Rightarrow>
               if \<not> snd (registry_flow r flow)
               then Inl (''engine: coverage: flow '' @ quoted flow @ '' is not in the registry '' @ dash
                      @ '' an unanchored read could clamp-mask exporter drops'')
               else
                 (case telemetry_success_value oob q flow (value_stage (fst (registry_flow r flow))) win of
                    Inl e \<Rightarrow> Inl (''engine: coverage telemetry query for '' @ quoted flow @ '': '' @ error_text e)
                  | Inr tel \<Rightarrow> Inr (fold (add_slice flow tel) lcur st))
           | None \<Rightarrow>
               (case telemetry_success_value oob q flow [] win of
                  Inl e \<Rightarrow> Inl (''engine: coverage telemetry query for '' @ quoted flow @ '': '' @ error_text e)
                | Inr tel \<Rightarrow> Inr (fold (add_slice flow tel) lcur st))))"

definition coverage ::
  "(f64 \<Rightarrow> i64) \<Rightarrow> registry option \<Rightarrow> querier \<Rightarrow> request \<Rightarrow> ledger_row list \<Rightarrow> string
     \<Rightarrow> string + (coverage_leg \<times> coverage_slice list)" where
  "coverage oob reg q req ledger source =
     (let leg = \<lparr>Ratio = Fin 0, CovWindow = Window req, CovSource = source, CovEvidence = evidence_trust,
                 CovUnavailable = []\<rparr>;
          lv = ledger_value ledger
      in if lv = [] then Inr (leg\<lparr>CovUnavailable := ''no ledger success rows to reconcile against''\<rparr>, [])
         else
           (let todo = (if Flows req = [] then map fst lv else Flows req) in
            case fold_err (cover_flow oob reg q (Window req) lv) todo ([], Fin 1) of
              Inl e \<Rightarrow> Inl e
            | Inr (slices, worst) \<Rightarrow>
                if slices = []
                then Inr (leg\<lparr>CovUnavailable := ''no ledger slice with value to reconcile for the requested flows''\<rparr>, [])
                else Inr (leg\<lparr>Ratio := worst\<rparr>, slices)))"

section \<open>Lemmas\<close>

text \<open>The ledger sums: the wrapped sum of the success rows of a slice.\<close>

definition ledger_total :: "ledger_row list \<Rightarrow> string \<Rightarrow> string \<Rightarrow> i64" where
  "ledger_total rows flow currency =
     sum_i64 (map (\<lambda>r. Amount (LMoney r))
       [r \<leftarrow> rows. LOutcome r = res_success \<and> LFlow r = flow \<and> Currency (LMoney r) = currency])"

definition sums_ok :: "ledger_row list \<Rightarrow> ledger_sums \<Rightarrow> bool" where
  "sums_ok rows lv \<longleftrightarrow> map_ok lv
     \<and> (\<forall>flow per. map_of lv flow = Some per \<longrightarrow> map_ok per \<and> per \<noteq> []
          \<and> (\<forall>c a. map_of per c = Some a \<longrightarrow> acc_minor a = ledger_total rows flow c
               \<and> (\<exists>r \<in> set rows. LOutcome r = res_success \<and> LFlow r = flow \<and> Currency (LMoney r) = c)))
     \<and> (\<forall>r \<in> set rows. LOutcome r = res_success \<longrightarrow>
          (\<exists>per. map_of lv (LFlow r) = Some per \<and> map_has per (Currency (LMoney r))))"

lemma ledger_total_snoc:
  "ledger_total (rows @ [r]) flow c =
     (if LOutcome r = res_success \<and> LFlow r = flow \<and> Currency (LMoney r) = c
      then ledger_total rows flow c + Amount (LMoney r) else ledger_total rows flow c)"
  by (simp add: ledger_total_def)

lemma ledger_total_none:
  "\<not> (\<exists>r \<in> set rows. LOutcome r = res_success \<and> LFlow r = flow \<and> Currency (LMoney r) = c) \<Longrightarrow> ledger_total rows flow c = 0"
  by (auto simp: ledger_total_def filter_empty_conv)

lemma map_put_not_Nil [simp]: "map_put k v m \<noteq> []"
  by (cases m) auto

lemma ledger_value_ok: "sums_ok rows (ledger_value rows)"
proof (induction rows rule: rev_induct)
  case Nil
  then show ?case by (simp add: sums_ok_def ledger_value_def)
next
  case (snoc r rows)
  let ?s = "ledger_value rows" and ?f = "LFlow r" and ?c = "Currency (LMoney r)"
  have step: "ledger_value (rows @ [r]) = add_ledger_row r ?s" by (simp add: ledger_value_def)
  show ?case
  proof (cases "LOutcome r = res_success")
    case False
    then show ?thesis using snoc
      by (auto simp: step add_ledger_row_def sums_ok_def ledger_total_snoc)
  next
    case True
    define per where "per = map_get [] ?s ?f"
    define a where "a = (case map_of per ?c of Some a \<Rightarrow> a | None \<Rightarrow> \<lparr>acc_minor = 0, acc_exponent = Exponent (LMoney r)\<rparr>)"
    define a' where "a' = a\<lparr>acc_minor := acc_minor a + Amount (LMoney r)\<rparr>"
    have new: "ledger_value (rows @ [r]) = map_put ?f (map_put ?c a' per) ?s"
      using True by (simp add: step add_ledger_row_def Let_def per_def a_def a'_def)
    have per: "map_ok per" "\<And>c b. map_of per c = Some b \<Longrightarrow> acc_minor b = ledger_total rows ?f c
        \<and> (\<exists>r \<in> set rows. LOutcome r = res_success \<and> LFlow r = ?f \<and> Currency (LMoney r) = c)"
      using snoc by (auto simp: per_def map_get_def sums_ok_def split: option.splits)
    have miss: "map_of per ?c = None \<Longrightarrow> ledger_total rows ?f ?c = 0"
    proof (rule ledger_total_none, rule notI)
      assume n: "map_of per ?c = None" and "\<exists>x \<in> set rows. LOutcome x = res_success \<and> LFlow x = ?f \<and> Currency (LMoney x) = ?c"
      then obtain x where x: "x \<in> set rows" "LOutcome x = res_success" "LFlow x = ?f" "Currency (LMoney x) = ?c" by blast
      then obtain p where "map_of ?s ?f = Some p" "map_has p ?c" using snoc unfolding sums_ok_def by metis
      then show False using n by (simp add: per_def map_get_def map_has_def)
    qed
    have a': "acc_minor a' = ledger_total (rows @ [r]) ?f ?c"
      using per(2) miss True by (cases "map_of per ?c") (auto simp: a'_def a_def ledger_total_snoc)
    show ?thesis
      unfolding new sums_ok_def
    proof (intro conjI allI impI ballI)
      show "map_ok (map_put ?f (map_put ?c a' per) ?s)" using snoc by (simp add: sums_ok_def)
      fix flow p
      assume p: "map_of (map_put ?f (map_put ?c a' per) ?s) flow = Some p"
      show "map_ok p" using p per(1) snoc by (auto simp: sums_ok_def split: if_splits)
      show "p \<noteq> []" using p snoc by (auto simp: sums_ok_def split: if_splits)
      fix c b
      assume b: "map_of p c = Some b"
      show "acc_minor b = ledger_total (rows @ [r]) flow c"
        using p b a' per(2) snoc by (auto simp: sums_ok_def ledger_total_snoc True split: if_splits)
      show "\<exists>x \<in> set (rows @ [r]). LOutcome x = res_success \<and> LFlow x = flow \<and> Currency (LMoney x) = c"
      proof (cases "flow = ?f \<and> c = ?c")
        case True
        then show ?thesis using \<open>LOutcome r = res_success\<close> by auto
      next
        case False
        then have "\<exists>x \<in> set rows. LOutcome x = res_success \<and> LFlow x = flow \<and> Currency (LMoney x) = c"
          using p b per(2) snoc by (auto simp: sums_ok_def split: if_splits)
        then show ?thesis by auto
      qed
    next
      fix x
      assume "x \<in> set (rows @ [r])" "LOutcome x = res_success"
      then show "\<exists>p. map_of (map_put ?f (map_put ?c a' per) ?s) (LFlow x) = Some p \<and> map_has p (Currency (LMoney x))"
        using snoc by (auto simp: sums_ok_def per_def map_get_def)
    qed
  qed
qed

text \<open>What one slice says.\<close>

definition slice_ok :: "ledger_row list \<Rightarrow> coverage_slice \<Rightarrow> bool" where
  "slice_ok rows s \<longleftrightarrow>
     0 < sint (LedgerMinor s) \<and> LedgerMinor s = ledger_total rows (SlFlow s) (SlCurrency s)
     \<and> (\<exists>x. SlRatio s = Fin x \<and> x \<le> 1)
     \<and> SlRatio s = (let raw = fdiv (of_i64 (TelemetryMinor s)) (of_i64 (LedgerMinor s))
                    in if fless (Fin 1) raw then Fin 1 else raw)"

lemma slice_ok_Fin: "slice_ok rows s \<Longrightarrow> \<exists>x. SlRatio s = Fin x \<and> x \<le> 1"
  unfolding slice_ok_def by blast

definition state_ok :: "ledger_row list \<Rightarrow> coverage_state \<Rightarrow> bool" where
  "state_ok rows st \<longleftrightarrow> (case st of (slices, worst) \<Rightarrow>
     list_all (slice_ok rows) slices
     \<and> (if slices = [] then worst = Fin 1 else worst \<in> SlRatio ` set slices)
     \<and> (\<forall>s \<in> set slices. fle worst (SlRatio s)))"

definition listed :: "coverage_state \<Rightarrow> string \<Rightarrow> string \<Rightarrow> bool" where
  "listed st flow c \<longleftrightarrow> (\<exists>s \<in> set (fst st). SlFlow s = flow \<and> SlCurrency s = c)"

lemma add_slice_keeps: "listed st flow c \<Longrightarrow> listed (add_slice f tel entry st) flow c"
  by (auto simp: listed_def add_slice_def Let_def split: prod.splits)

lemma add_slice_ok:
  assumes st: "state_ok rows st" and a: "acc_minor (snd entry) = ledger_total rows flow (fst entry)"
  shows "state_ok rows (add_slice flow tel entry st)"
    "0 < sint (ledger_total rows flow (fst entry)) \<Longrightarrow> listed (add_slice flow tel entry st) flow (fst entry)"
proof -
  obtain c x where e: "entry = (c, x)" by (cases entry)
  obtain slices worst where s: "st = (slices, worst)" by (cases st)
  let ?raw = "fdiv (of_i64 (map_get 0 tel c)) (of_i64 (acc_minor x))"
  let ?ratio = "if fless (Fin 1) ?raw then Fin 1 else ?raw"
  have "state_ok rows (add_slice flow tel entry st)
      \<and> (0 < sint (ledger_total rows flow c) \<longrightarrow> listed (add_slice flow tel entry st) flow c)"
  proof (cases "sint (acc_minor x) \<le> 0")
    case True
    then show ?thesis using st a by (simp add: e s add_slice_def)
  next
    case False
    then have pos: "0 < sint (acc_minor x)" by simp
    obtain u v where "?raw = Fin (rnd (u / v))" by (rule quotient_Fin [OF pos])
    then have "\<exists>r. ?ratio = Fin r \<and> r \<le> 1" by (cases "1 < rnd (u / v)") simp_all
    then obtain r where r: "?ratio = Fin r" "r \<le> 1" by blast
    let ?slice = "\<lparr>SlFlow = flow, SlCurrency = c, SlExponent = acc_exponent x,
               TelemetryMinor = map_get 0 tel c, LedgerMinor = acc_minor x, SlRatio = ?ratio\<rparr>"
    have new: "add_slice flow tel entry st = (slices @ [?slice], if fless ?ratio worst then ?ratio else worst)"
      using False by (simp add: e s add_slice_def Let_def)
    have ok: "slice_ok rows ?slice" unfolding slice_ok_def
      by (intro conjI exI [of _ r]) (use pos a r in \<open>simp_all only: coverage_slice.simps e prod.sel Let_def\<close>)
    obtain w where w: "worst = Fin w" "slices = [] \<longrightarrow> w = 1"
      using st slice_ok_Fin by (fastforce simp: s state_ok_def list_all_iff split: if_splits)
    have rs: "\<forall>t \<in> set slices. \<exists>y. SlRatio t = Fin y \<and> w \<le> y"
    proof
      fix t
      assume t: "t \<in> set slices"
      then have "slice_ok rows t" "fle worst (SlRatio t)" using st by (simp_all add: s state_ok_def list_all_iff)
      then show "\<exists>y. SlRatio t = Fin y \<and> w \<le> y" using w(1) slice_ok_Fin by fastforce
    qed
    have "state_ok rows (add_slice flow tel entry st)"
      unfolding new state_ok_def prod.case
    proof (intro conjI ballI)
      show "list_all (slice_ok rows) (slices @ [?slice])" using st ok by (simp add: s state_ok_def)
      show "if slices @ [?slice] = [] then (if fless ?ratio worst then ?ratio else worst) = Fin 1
          else (if fless ?ratio worst then ?ratio else worst) \<in> SlRatio ` set (slices @ [?slice])"
      proof (cases "slices = []")
        case True
        then show ?thesis using w r by (auto simp: r(1))
      next
        case False
        then show ?thesis using st by (auto simp: s state_ok_def)
      qed
      fix t
      assume "t \<in> set (slices @ [?slice])"
      then show "fle (if fless ?ratio worst then ?ratio else worst) (SlRatio t)"
        using rs r w by (auto simp: r(1))
    qed
    then show ?thesis by (simp add: new listed_def)
  qed
  then show "state_ok rows (add_slice flow tel entry st)"
    "0 < sint (ledger_total rows flow (fst entry)) \<Longrightarrow> listed (add_slice flow tel entry st) flow (fst entry)"
    by (simp_all add: e)
qed

lemma add_slices_ok:
  assumes "state_ok rows st" "\<forall>(c, a) \<in> set es. acc_minor a = ledger_total rows flow c"
  shows "state_ok rows (fold (add_slice flow tel) es st)
     \<and> (\<forall>(c, a) \<in> set es. 0 < sint (ledger_total rows flow c) \<longrightarrow> listed (fold (add_slice flow tel) es st) flow c)"
  using assms
proof (induction es arbitrary: st)
  case Nil
  then show ?case by simp
next
  case (Cons e es)
  have keep: "listed st f c \<Longrightarrow> listed (fold (add_slice flow tel) es st) f c" for st f c
    by (induction es arbitrary: st) (simp_all add: add_slice_keeps)
  have e: "acc_minor (snd e) = ledger_total rows flow (fst e)" using Cons.prems(2) by (cases e) simp
  note new = add_slice_ok [OF Cons.prems(1) e, of tel]
  from Cons.IH [OF new(1)] Cons.prems(2) show ?case
    using keep [OF new(2)] by (cases e) auto
qed

lemma cover_flow_ok:
  assumes st: "state_ok rows st" and run: "cover_flow oob reg q win (ledger_value rows) flow st = Inr st'"
  shows "state_ok rows st'" "\<And>f c. listed st f c \<Longrightarrow> listed st' f c"
    "\<And>r. r \<in> set rows \<Longrightarrow> LOutcome r = res_success \<Longrightarrow> LFlow r = flow
       \<Longrightarrow> 0 < sint (ledger_total rows flow (Currency (LMoney r))) \<Longrightarrow> listed st' flow (Currency (LMoney r))"
proof -
  have lv: "sums_ok rows (ledger_value rows)" by (rule ledger_value_ok)
  have "state_ok rows st' \<and> (\<forall>f c. listed st f c \<longrightarrow> listed st' f c)
     \<and> (\<forall>r \<in> set rows. LOutcome r = res_success \<longrightarrow> LFlow r = flow
          \<longrightarrow> 0 < sint (ledger_total rows flow (Currency (LMoney r))) \<longrightarrow> listed st' flow (Currency (LMoney r)))"
  proof (cases "map_of (ledger_value rows) flow")
    case None
    then show ?thesis using st run lv by (auto simp: cover_flow_def sums_ok_def)
  next
    case (Some lcur)
    obtain tel where st': "st' = fold (add_slice flow tel) lcur st"
      using run Some by (auto simp: cover_flow_def split: option.splits if_splits sum.splits)
    have ok: "map_ok lcur" using lv Some unfolding sums_ok_def by blast
    have per: "\<forall>(c, a) \<in> set lcur. acc_minor a = ledger_total rows flow c"
    proof (intro ballI, unfold split_paired_all prod.case)
      fix c a
      assume "(c, a) \<in> set lcur"
      then have "map_of lcur c = Some a" using map_ok_map_of [OF ok] by simp
      then show "acc_minor a = ledger_total rows flow c" using lv Some unfolding sums_ok_def by blast
    qed
    have keep: "listed st f c \<Longrightarrow> listed (fold (add_slice flow tel) lcur st) f c" for f c
      by (induction lcur arbitrary: st) (simp_all add: add_slice_keeps)
    note new = add_slices_ok [OF st per, of tel]
    have "listed st' flow (Currency (LMoney r))"
      if r: "r \<in> set rows" "LOutcome r = res_success" "LFlow r = flow" "0 < sint (ledger_total rows flow (Currency (LMoney r)))" for r
    proof -
      have "map_has lcur (Currency (LMoney r))" using lv r(1-3) Some by (force simp: sums_ok_def)
      then obtain a where "(Currency (LMoney r), a) \<in> set lcur" by (auto simp: map_has_iff)
      then show ?thesis using new r(4) by (auto simp: st')
    qed
    then show ?thesis using new keep by (simp add: st')
  qed
  then show "state_ok rows st'" "\<And>f c. listed st f c \<Longrightarrow> listed st' f c"
    "\<And>r. r \<in> set rows \<Longrightarrow> LOutcome r = res_success \<Longrightarrow> LFlow r = flow
       \<Longrightarrow> 0 < sint (ledger_total rows flow (Currency (LMoney r))) \<Longrightarrow> listed st' flow (Currency (LMoney r))"
    by blast+
qed

lemma cover_flows_ok:
  assumes "state_ok rows st" "fold_err (cover_flow oob reg q win (ledger_value rows)) fs st = Inr st'"
  shows "state_ok rows st' \<and> (\<forall>f c. listed st f c \<longrightarrow> listed st' f c)
     \<and> (\<forall>r \<in> set rows. LOutcome r = res_success \<longrightarrow> LFlow r \<in> set fs
          \<longrightarrow> 0 < sint (ledger_total rows (LFlow r) (Currency (LMoney r))) \<longrightarrow> listed st' (LFlow r) (Currency (LMoney r)))"
  using assms
proof (induction fs arbitrary: st)
  case Nil
  then show ?case by simp
next
  case (Cons f fs)
  from Cons.prems(2) obtain st1 where s1: "cover_flow oob reg q win (ledger_value rows) f st = Inr st1"
      "fold_err (cover_flow oob reg q win (ledger_value rows)) fs st1 = Inr st'"
    by (auto split: sum.splits)
  note c = cover_flow_ok [OF Cons.prems(1) s1(1)]
  from Cons.IH [OF c(1) s1(2)] c(2,3) show ?case by auto
qed

section \<open>Properties\<close>

lemma coverage_result:
  assumes run: "coverage oob reg q req rows src = Inr (lg, slices)"
  shows "list_all (slice_ok rows) slices
     \<and> (CovUnavailable lg = [] \<longleftrightarrow> slices \<noteq> [])
     \<and> (slices \<noteq> [] \<longrightarrow> Ratio lg \<in> SlRatio ` set slices \<and> (\<forall>s \<in> set slices. fle (Ratio lg) (SlRatio s)))
     \<and> (\<forall>r \<in> set rows. LOutcome r = res_success \<and> (Flows req = [] \<or> LFlow r \<in> set (Flows req))
          \<and> 0 < sint (ledger_total rows (LFlow r) (Currency (LMoney r)))
          \<longrightarrow> (\<exists>s \<in> set slices. SlFlow s = LFlow r \<and> SlCurrency s = Currency (LMoney r)))"
proof (cases "ledger_value rows = []")
  case True
  then show ?thesis using run ledger_value_ok [of rows] by (auto simp: coverage_def Let_def sums_ok_def)
next
  case False
  let ?fs = "if Flows req = [] then map fst (ledger_value rows) else Flows req"
  obtain worst where w: "fold_err (cover_flow oob reg q (Window req) (ledger_value rows)) ?fs ([], Fin 1) = Inr (slices, worst)"
      "slices = [] \<longrightarrow> CovUnavailable lg \<noteq> []" "slices \<noteq> [] \<longrightarrow> Ratio lg = worst \<and> CovUnavailable lg = []"
    using run False by (auto simp: coverage_def Let_def split: sum.splits prod.splits if_splits)
  have "state_ok rows ([], Fin 1)" by (simp add: state_ok_def)
  note c = cover_flows_ok [OF this w(1)]
  have "LFlow r \<in> set ?fs"
    if r: "r \<in> set rows" "LOutcome r = res_success" "Flows req = [] \<or> LFlow r \<in> set (Flows req)" for r
  proof -
    obtain per where "map_of (ledger_value rows) (LFlow r) = Some per"
      using ledger_value_ok [of rows] r(1,2) unfolding sums_ok_def by metis
    then show ?thesis using r(3) by (force dest: map_of_SomeD)
  qed
  then show ?thesis using c w(2,3) by (auto simp: state_ok_def listed_def split: if_splits)
qed

lemma missing_telemetry:
  assumes "slice_ok rows s" "TelemetryMinor s = 0"
  shows "SlRatio s = Fin 0"
proof -
  have "0 < sint (LedgerMinor s)" using assms(1) unfolding slice_ok_def by blast
  then obtain x y where "of_i64 (0 :: i64) = Fin x" "of_i64 (LedgerMinor s) = Fin y" "1 \<le> y"
      "fdiv (of_i64 0) (of_i64 (LedgerMinor s)) = Fin (rnd (x / y))"
    by (rule quotient_Fin [where n = 0])
  moreover have "of_i64 0 = Fin 0" by (simp add: of_i64_def)
  ultimately have "fdiv (of_i64 0) (of_i64 (LedgerMinor s)) = Fin 0" by simp
  then show ?thesis using assms unfolding slice_ok_def by simp
qed

text \<open>What a slice compares the ledger with: the telemetry of its flow at the flow's value stage, 0 for a currency
  telemetry does not know.\<close>

definition anchor_stage :: "registry option \<Rightarrow> string \<Rightarrow> string" where
  "anchor_stage reg flow = (case reg of Some r \<Rightarrow> value_stage (fst (registry_flow r flow)) | None \<Rightarrow> [])"

definition slice_telemetry :: "(f64 \<Rightarrow> i64) \<Rightarrow> registry option \<Rightarrow> querier \<Rightarrow> time_range \<Rightarrow> coverage_slice \<Rightarrow> bool" where
  "slice_telemetry oob reg q win s \<longleftrightarrow>
     (\<exists>tel. telemetry_success_value oob q (SlFlow s) (anchor_stage reg (SlFlow s)) win = Inr tel
        \<and> TelemetryMinor s = map_get 0 tel (SlCurrency s))"

lemma coverage_telemetry:
  assumes run: "coverage oob reg q req rows src = Inr (lg, slices)"
  shows "list_all (slice_telemetry oob reg q (Window req)) slices"
proof -
  let ?P = "\<lambda>st :: coverage_state. list_all (slice_telemetry oob reg q (Window req)) (fst st)"
  have add: "?P (fold (add_slice flow tel) lcur st)"
    if "?P st" and tel: "telemetry_success_value oob q flow (anchor_stage reg flow) (Window req) = Inr tel" for flow tel lcur st
    using that(1)
  proof (induction lcur arbitrary: st)
    case (Cons entry lcur)
    have "?P (add_slice flow tel entry st)"
      using Cons.prems tel by (cases entry; cases st) (auto simp: add_slice_def Let_def slice_telemetry_def list_all_iff)
    then show ?case using Cons.IH by simp
  qed simp
  have step: "?P st'" if st: "?P st" and run': "cover_flow oob reg q (Window req) lv flow st = Inr st'" for lv flow st st'
  proof (cases "map_of lv flow")
    case None
    then show ?thesis using st run' by (simp add: cover_flow_def)
  next
    case (Some lcur)
    then obtain tel where "telemetry_success_value oob q flow (anchor_stage reg flow) (Window req) = Inr tel"
      "st' = fold (add_slice flow tel) lcur st"
      using run' by (auto simp: cover_flow_def anchor_stage_def split: option.splits if_splits sum.splits)
    then show ?thesis using add st by simp
  qed
  have all: "?P st'" if "fold_err (cover_flow oob reg q (Window req) lv) fs ([], Fin 1) = Inr st'" for lv fs st'
    by (rule fold_err_inv [of _ _ _ _ ?P, OF that]) (use step in auto)
  show ?thesis
  proof (cases "slices = []")
    case False
    then obtain worst fs where "fold_err (cover_flow oob reg q (Window req) (ledger_value rows)) fs ([], Fin 1) = Inr (slices, worst)"
      using run by (auto simp: coverage_def Let_def split: if_splits sum.splits prod.splits)
    then show ?thesis using all by fastforce
  qed simp
qed

text \<open>The sum of the ledger is exact when it fits.\<close>

lemma ledger_total_exact:
  assumes "in_i64 (\<Sum>r \<leftarrow> [r \<leftarrow> rows. LOutcome r = res_success \<and> LFlow r = flow \<and> Currency (LMoney r) = c]. sint (Amount (LMoney r)))"
  shows "sint (ledger_total rows flow c)
    = (\<Sum>r \<leftarrow> [r \<leftarrow> rows. LOutcome r = res_success \<and> LFlow r = flow \<and> Currency (LMoney r) = c]. sint (Amount (LMoney r)))"
  using assms unfolding ledger_total_def sum_i64_word_of_int by (simp add: sint_of_int_i64 comp_def)

lemma telemetry_nonneg:
  assumes ok: "slice_ok rows s" and "0 \<le> sint (TelemetryMinor s)"
  shows "fle (Fin 0) (SlRatio s)"
proof -
  have pos: "0 < sint (LedgerMinor s)" using ok unfolding slice_ok_def by blast
  obtain x y where xy: "of_i64 (TelemetryMinor s) = Fin x" "of_i64 (LedgerMinor s) = Fin y" "1 \<le> y"
      "fdiv (of_i64 (TelemetryMinor s)) (of_i64 (LedgerMinor s)) = Fin (rnd (x / y))"
    by (rule quotient_Fin [OF pos])
  have "0 \<le> x" using assms(2) of_i64_Fin [of "TelemetryMinor s"] xy(1) by (auto intro!: rnd_nonneg simp del: of_int_sint)
  then have "0 \<le> rnd (x / y)" using xy(3) by (intro rnd_nonneg) simp
  then show ?thesis using ok xy(4) unfolding slice_ok_def by (auto simp: Let_def)
qed

text \<open>C8: the trust number never flatters. When the leg is available, its ratio is the ratio of one of its
  slices and no slice has a smaller one. Every slice compares what telemetry recorded for its flow and currency, at
  the flow's value stage, with the \<open>int64\<close> sum of the ledger's success rows (the exact sum when it fits), a positive
  one, in a finite ratio of at most 1, which is not negative unless the telemetry is. Every flow and currency in which
  the ledger holds success rows of positive total is a slice, unless the request names other flows. Missing telemetry
  gives its slice the ratio 0, and the report too unless another slice's telemetry is negative.\<close>

theorem coverage_never_flatters:
  assumes run: "coverage oob reg q req rows src = Inr (lg, slices)"
  shows "list_all (slice_ok rows) slices
     \<and> list_all (slice_telemetry oob reg q (Window req)) slices
     \<and> (CovUnavailable lg = [] \<longleftrightarrow> slices \<noteq> [])
     \<and> (slices \<noteq> [] \<longrightarrow> Ratio lg \<in> SlRatio ` set slices \<and> (\<forall>s \<in> set slices. fle (Ratio lg) (SlRatio s)))
     \<and> (\<forall>r \<in> set rows. LOutcome r = res_success \<and> (Flows req = [] \<or> LFlow r \<in> set (Flows req))
          \<and> 0 < sint (ledger_total rows (LFlow r) (Currency (LMoney r)))
          \<longrightarrow> (\<exists>s \<in> set slices. SlFlow s = LFlow r \<and> SlCurrency s = Currency (LMoney r)))
     \<and> (\<forall>s \<in> set slices. 0 \<le> sint (TelemetryMinor s) \<longrightarrow> fle (Fin 0) (SlRatio s))
     \<and> (\<forall>s \<in> set slices. TelemetryMinor s = 0 \<longrightarrow> SlRatio s = Fin 0 \<and> fle (Ratio lg) (Fin 0)
          \<and> ((\<forall>t \<in> set slices. 0 \<le> sint (TelemetryMinor t)) \<longrightarrow> Ratio lg = Fin 0))"
proof -
  note res = coverage_result [OF run]
  have ok: "slice_ok rows s" if "s \<in> set slices" for s using res that by (simp add: list_all_iff)
  have le: "Ratio lg \<in> SlRatio ` set slices" "fle (Ratio lg) (SlRatio s)" if "s \<in> set slices" for s
    using res that by (metis empty_iff list.set(1))+
  have zero: "SlRatio s = Fin 0 \<and> fle (Ratio lg) (Fin 0)
      \<and> ((\<forall>t \<in> set slices. 0 \<le> sint (TelemetryMinor t)) \<longrightarrow> Ratio lg = Fin 0)" if s: "s \<in> set slices" "TelemetryMinor s = 0" for s
  proof -
    have z: "SlRatio s = Fin 0" by (rule missing_telemetry [OF ok [OF s(1)] s(2)])
    then have b: "fle (Ratio lg) (Fin 0)" using le(2) [OF s(1)] by simp
    have "Ratio lg = Fin 0" if all: "\<forall>t \<in> set slices. 0 \<le> sint (TelemetryMinor t)"
    proof -
      obtain t where t: "t \<in> set slices" "Ratio lg = SlRatio t" using le(1) [OF s(1)] by blast
      then have "fle (Fin 0) (Ratio lg)" using telemetry_nonneg [OF ok] all by simp
      then show ?thesis using b by (cases "Ratio lg") auto
    qed
    then show ?thesis using z b by blast
  qed
  show ?thesis using res coverage_telemetry [OF run] telemetry_nonneg [OF ok] zero by blast
qed

text \<open>The ratio is documented as clamped to \<open>[0,1]\<close>; only its upper end is. A counter that was reset inside the window
  makes the difference the Prometheus adapter reads negative, and the trust number with it.\<close>

lemma negative_coverage:
  "\<exists>lg slices. coverage (\<lambda>_. 0) None
       \<lparr>query_metric = (\<lambda>_. Inr [\<lparr>SLabels = [(''currency'', ''USD'')], SPoints = [\<lparr>PtAt = 0, PtValue = Fin (- 100)\<rparr>]\<rparr>]),
        query_events = (\<lambda>_. Inl ErrUnsupported), capabilities = \<lparr>CMetrics = True, CEvents = False, CMetricWeeks = 6, CEventWeeks = 0\<rparr>\<rparr>
       demo_request
       [\<lparr>LFlow = ''checkout'', LOutcome = ''success'', LMoney = \<lparr>Amount = 100, Currency = ''USD'', Exponent = 2\<rparr>, LCount = 1\<rparr>] ''stripe''
     = Inr (lg, slices) \<and> Ratio lg = Fin (- 1) \<and> CovUnavailable lg = []"
proof -
  let ?q = "\<lparr>query_metric = (\<lambda>_. Inr [\<lparr>SLabels = [(''currency'', ''USD'')], SPoints = [\<lparr>PtAt = 0, PtValue = Fin (- 100)\<rparr>]\<rparr>]),
        query_events = (\<lambda>_. Inl ErrUnsupported), capabilities = \<lparr>CMetrics = True, CEvents = False, CMetricWeeks = 6, CEventWeeks = 0\<rparr>\<rparr>"
  let ?rows = "[\<lparr>LFlow = ''checkout'', LOutcome = ''success'', LMoney = \<lparr>Amount = 100, Currency = ''USD'', Exponent = 2\<rparr>, LCount = 1\<rparr>]"
  have lv: "ledger_value ?rows = [(''checkout'', [(''USD'', \<lparr>acc_minor = 100, acc_exponent = 2\<rparr>)])]" by code_simp
  have t: "telemetry_success_value (\<lambda>_. 0) ?q ''checkout'' [] win = Inr [(''USD'', - 100)]" for win
    by (simp add: telemetry_success_value_def metric_query_zero_def map_get_def map_add_def to_i64_def in_i64_def)
  have "of_i64 (- 100) = Fin (- 100)" "of_i64 100 = Fin 100" using of_i64_exact [of "- 100"] of_i64_exact [of 100] by simp_all
  moreover have "to_f64 (- 1) = Fin (- 1)" using to_f64_int [of "- 1"] by simp
  ultimately have r: "fdiv (of_i64 (- 100)) (of_i64 100) = Fin (- 1)" by simp
  show ?thesis
    by (simp add: coverage_def lv demo_request_def cover_flow_def t add_slice_def map_get_def r Let_def)
qed

definition demo_ledger :: "ledger_row list" where
  "demo_ledger = [\<lparr>LFlow = ''checkout'', LOutcome = ''success'',
     LMoney = \<lparr>Amount = 100, Currency = ''USD'', Exponent = 2\<rparr>, LCount = 1\<rparr>]"

theorem coverage_never_flatters_witness:
  "\<exists>lg slices. coverage (\<lambda>_. 0) None (memq_store [] []) demo_request demo_ledger ''stripe'' = Inr (lg, slices)
     \<and> slices \<noteq> [] \<and> fle (Ratio lg) (Fin 0)"
proof -
  have lv: "ledger_value demo_ledger = [(''checkout'', [(''USD'', \<lparr>acc_minor = 100, acc_exponent = 2\<rparr>)])]"
    by code_simp
  have "telemetry_success_value (\<lambda>_. 0) (memq_store [] []) ''checkout'' [] \<lparr>From = 0, To = 5000\<rparr> = Inr []"
    by code_simp
  then have "cover_flow (\<lambda>_. 0) None (memq_store [] []) \<lparr>From = 0, To = 5000\<rparr> (ledger_value demo_ledger) ''checkout'' ([], Fin 1)
      = Inr (add_slice ''checkout'' [] (''USD'', \<lparr>acc_minor = 100, acc_exponent = 2\<rparr>) ([], Fin 1))"
    by (simp add: cover_flow_def lv)
  moreover obtain s w where s: "add_slice ''checkout'' [] (''USD'', \<lparr>acc_minor = 100, acc_exponent = 2\<rparr>) ([], Fin 1) = ([s], w)"
      and z: "TelemetryMinor s = 0"
    unfolding add_slice_def Let_def prod.case by simp
  ultimately have "\<exists>lg. coverage (\<lambda>_. 0) None (memq_store [] []) demo_request demo_ledger ''stripe'' = Inr (lg, [s])"
    by (simp add: coverage_def Let_def demo_request_def lv)
  then obtain lg where run: "coverage (\<lambda>_. 0) None (memq_store [] []) demo_request demo_ledger ''stripe'' = Inr (lg, [s])" ..
  from coverage_never_flatters [OF run] z have "fle (Ratio lg) (Fin 0)" by (elim conjE) simp
  with run show ?thesis by blast
qed

end
