(* ===== verification/Engine_Deferred.thy ===== *)
theory Engine_Deferred
  imports Engine_Realized InFlight
begin

text \<open>
  \<open>engine/deferred.go\<close>: the value in flight at the end of the window. It is read from the in-flight
  gauges when the backend has any, and otherwise derived from outcome events: an entity with a
  deferred outcome is in flight unless a terminal outcome at the same or a later stage, or a later
  deferral, resolves it.
\<close>

section \<open>Buckets and deadlines\<close>

definition age_bucket_floor_minutes :: "(string, i64) gomap" where
  "age_bucket_floor_minutes =
     [(''lt1m'', 0), (''1m-5m'', 1), (''5m-30m'', 5), (''30m-2h'', 30), (''gt2h'', 120)]"

definition age_bucket_order :: "string list" where
  "age_bucket_order = [''lt1m'', ''1m-5m'', ''5m-30m'', ''30m-2h'', ''gt2h'']"

fun position :: "string list \<Rightarrow> string \<Rightarrow> int \<Rightarrow> int" where
  "position [] x i = - 1"
| "position (y # ys) x i = (if y = x then i else position ys x (i + 1))"

definition bucket_index :: "string \<Rightarrow> int" where
  "bucket_index bucket = position age_bucket_order bucket 0"

definition stage_index :: "registry option \<Rightarrow> string \<Rightarrow> string \<Rightarrow> int" where
  "stage_index reg flow stage =
     (case reg of
        None \<Rightarrow> - 1
      | Some r \<Rightarrow>
          (let (f, ok) = registry_flow r flow in
           if \<not> ok then - 1 else position (map StageName (Stages f)) stage 0))"

definition sla_of :: "registry \<Rightarrow> string \<Rightarrow> string \<Rightarrow> sla option" where
  "sla_of reg flow stage =
     (let (f, ok) = registry_flow reg flow in if \<not> ok then None else map_of (SLAs f) stage)"

definition breached :: "registry \<Rightarrow> string \<Rightarrow> string \<Rightarrow> string \<Rightarrow> bool" where
  "breached reg flow stage bucket =
     (case sla_of reg flow stage of
        None \<Rightarrow> False
      | Some s \<Rightarrow>
          (case map_of age_bucket_floor_minutes bucket of
             None \<Rightarrow> False
           | Some floor_min \<Rightarrow> SLADeadline s \<le> sint floor_min * minute))"

definition breached_and_lost :: "registry \<Rightarrow> string \<Rightarrow> string \<Rightarrow> string \<Rightarrow> bool" where
  "breached_and_lost reg flow stage bucket =
     (case sla_of reg flow stage of
        None \<Rightarrow> False
      | Some s \<Rightarrow> OnBreach s = breach_lost \<and> breached reg flow stage bucket)"

definition oldest_minutes :: "int \<Rightarrow> i64" where
  "oldest_minutes idx =
     (if idx \<ge> 0 then map_get 0 age_bucket_floor_minutes (age_bucket_order ! nat idx) else 0)"

section \<open>Filling the leg\<close>

definition new_deferred_leg :: deferred_leg where
  "new_deferred_leg =
     \<lparr>Count = 0, ByCurrency = [], Evidence = evidence_deterministic, Caveats = [], Unavailable = False,
      ByAgeBucket = [], SLABreaches = 0, OldestAgeMinutes = 0, ProjectedLostMinor = []\<rparr>"

definition add_bucket :: "string \<Rightarrow> string \<Rightarrow> i64 \<Rightarrow> deferred_leg \<Rightarrow> deferred_leg" where
  "add_bucket bucket currency v lg =
     lg\<lparr>ByAgeBucket := map_put bucket (map_add currency v (map_get [] (ByAgeBucket lg) bucket)) (ByAgeBucket lg),
        ByCurrency := map_add currency v (ByCurrency lg)\<rparr>"

definition add_projected :: "bool \<Rightarrow> string \<Rightarrow> i64 \<Rightarrow> deferred_leg \<Rightarrow> deferred_leg" where
  "add_projected is_lost currency v lg =
     (if is_lost then lg\<lparr>ProjectedLostMinor := map_add currency v (ProjectedLostMinor lg)\<rparr> else lg)"

section \<open>From the gauges\<close>

definition last_level :: "(f64 \<Rightarrow> i64) \<Rightarrow> series_slice \<Rightarrow> i64" where
  "last_level oob s = fold (\<lambda>p v. v + to_i64 oob (PtValue p)) (SPoints s) 0"

definition inflight_query :: "string \<Rightarrow> labels \<Rightarrow> time_range \<Rightarrow> metric_query" where
  "inflight_query metric flt win =
     metric_query_zero\<lparr>Metric := metric, QFilters := flt,
       QGroupBy := [''flow'', ''stage'', ''age_bucket'', ''currency''], QRange := win\<rparr>"

text \<open>The leg, whether any series was seen, and the index of the oldest bucket.\<close>

type_synonym gauge_state = "deferred_leg \<times> bool \<times> int"

definition add_gauge :: "(f64 \<Rightarrow> i64) \<Rightarrow> registry option \<Rightarrow> series_slice \<Rightarrow> deferred_leg \<times> int \<Rightarrow> deferred_leg \<times> int" where
  "add_gauge oob reg s st =
     (let (lg, oldest) = st; lv = last_level oob s;
          bucket = map_get [] (SLabels s) ''age_bucket''; currency = map_get [] (SLabels s) ''currency''
      in if lv = 0 then st
         else
           (add_projected
              (case reg of None \<Rightarrow> False
                 | Some r \<Rightarrow> breached_and_lost r (map_get [] (SLabels s) ''flow'') (map_get [] (SLabels s) ''stage'') bucket)
              currency lv (add_bucket bucket currency lv lg),
            if bucket_index bucket > oldest then bucket_index bucket else oldest))"

definition read_gauges ::
  "(f64 \<Rightarrow> i64) \<Rightarrow> registry option \<Rightarrow> querier \<Rightarrow> time_range \<Rightarrow> labels \<Rightarrow> gauge_state \<Rightarrow> string + gauge_state" where
  "read_gauges oob reg q win flt st =
     (let (lg, saw, oldest) = st in
      case query_metric q (inflight_query ''biz_inflight_value'' flt win) of
        Inl e \<Rightarrow> Inl (''engine: deferred inflight query: '' @ error_text e)
      | Inr series \<Rightarrow>
          (let (lg', oldest') = fold (add_gauge oob reg) series (lg, oldest)
           in Inr (lg', saw \<or> series \<noteq> [], oldest')))"

definition add_gauge_count :: "(f64 \<Rightarrow> i64) \<Rightarrow> registry option \<Rightarrow> series_slice \<Rightarrow> deferred_leg \<times> bool \<Rightarrow> deferred_leg \<times> bool" where
  "add_gauge_count oob reg s st =
     (let (lg, saw) = st; n = last_level oob s in
      if n = 0 then st
      else
        (let lg1 = lg\<lparr>Count := Count lg + n\<rparr>;
             late = (case reg of None \<Rightarrow> False
                       | Some r \<Rightarrow> breached r (map_get [] (SLabels s) ''flow'') (map_get [] (SLabels s) ''stage'')
                                     (map_get [] (SLabels s) ''age_bucket''))
         in (if late then lg1\<lparr>SLABreaches := SLABreaches lg1 + n\<rparr> else lg1, True)))"

definition read_counts ::
  "(f64 \<Rightarrow> i64) \<Rightarrow> registry option \<Rightarrow> querier \<Rightarrow> time_range \<Rightarrow> labels \<Rightarrow> deferred_leg \<times> bool \<Rightarrow> string + (deferred_leg \<times> bool)" where
  "read_counts oob reg q win flt st =
     (case query_metric q (inflight_query ''biz_inflight_count'' flt win) of
        Inl e \<Rightarrow> Inl (''engine: deferred inflight count query: '' @ error_text e)
      | Inr series \<Rightarrow> Inr (fold (add_gauge_count oob reg) series st))"

definition counts_caveat :: string where
  "counts_caveat = ''in-flight and SLA-breach transaction COUNTS are unavailable '' @ dash
       @ '' this source emits biz_inflight_value but not biz_inflight_count (ADR-0012); ''
       @ ''breach is reported as projected-lost value''"

definition fill_deferred_counts ::
  "(f64 \<Rightarrow> i64) \<Rightarrow> registry option \<Rightarrow> querier \<Rightarrow> request \<Rightarrow> deferred_leg \<Rightarrow> string + deferred_leg" where
  "fill_deferred_counts oob reg q req lg =
     (case fold_err (read_counts oob reg q (Window req)) (inflight_filters req) (lg, False) of
        Inl e \<Rightarrow> Inl e
      | Inr (lg', saw) \<Rightarrow>
          Inr (if \<not> saw \<and> ByAgeBucket lg' \<noteq> [] then lg'\<lparr>Caveats := Caveats lg' @ [counts_caveat]\<rparr> else lg'))"

definition deferred_from_gauge ::
  "(f64 \<Rightarrow> i64) \<Rightarrow> registry option \<Rightarrow> querier \<Rightarrow> request \<Rightarrow> string + (deferred_leg \<times> bool)" where
  "deferred_from_gauge oob reg q req =
     (case fold_err (read_gauges oob reg q (Window req)) (inflight_filters req) (new_deferred_leg, False, - 1) of
        Inl e \<Rightarrow> Inl e
      | Inr (lg, saw, oldest) \<Rightarrow>
          (case fill_deferred_counts oob reg q req (lg\<lparr>OldestAgeMinutes := oldest_minutes oldest\<rparr>) of
             Inl e \<Rightarrow> Inl e
           | Inr lg' \<Rightarrow> Inr (lg', saw)))"

section \<open>From outcome events\<close>

definition events_derived_caveat :: string where
  "events_derived_caveat = ''events-derived: no biz_inflight_value gauge grounded this leg, so it is built from deferred outcome events ''
       @ ''whose entity has no terminal outcome at the same or a later stage within the lookback '' @ dash
       @ '' ordering in time is not known, so a deferral retried after a failure at its stage is not seen; ''
       @ ''ages run from the first deferred event, and work never recorded as deferred is not seen (ADR-0019)''"

definition terminal_outcomes :: "string list" where
  "terminal_outcomes = [''success'', ''failed'', ''abandoned'']"

definition age_cutoffs :: "(string \<times> duration) list" where
  "age_cutoffs = [(''gt2h'', 2 * hour), (''30m-2h'', 30 * minute), (''5m-30m'', 5 * minute),
     (''1m-5m'', minute), (''lt1m'', 0)]"

definition min_events_lookback :: duration where "min_events_lookback = 2 * hour"

definition cut_end :: "time \<Rightarrow> duration \<Rightarrow> time" where
  "cut_end until before = (if before = 0 then until else until - before + 1)"

definition longest_deadline :: "registry \<Rightarrow> string \<Rightarrow> duration \<Rightarrow> duration" where
  "longest_deadline r name lookback =
     (let (f, ok) = registry_flow r name in
      if \<not> ok then lookback
      else fold (\<lambda>(_, s) l. if SLADeadline s > l then SLADeadline s else l) (SLAs f) lookback)"

definition events_lookback :: "registry option \<Rightarrow> string \<Rightarrow> duration" where
  "events_lookback reg flow =
     (case reg of
        None \<Rightarrow> min_events_lookback
      | Some r \<Rightarrow> fold (longest_deadline r) (if flow = [] then flow_names r else [flow]) min_events_lookback)"

definition start_for :: "registry option \<Rightarrow> request \<Rightarrow> labels \<Rightarrow> time" where
  "start_for reg req flt = From (Window req) - events_lookback reg (map_get [] flt ''flow'')"

datatype entity_stage =
  EntityStage (es_flow: string) (es_stage: string) (es_currency: string) (es_entity: string)

record open_item =
  oi_bucket :: string
  oi_minor :: i64

type_synonym open_items = "(entity_stage, open_item) gomap"

abbreviation stage_group_by :: "string list" where
  "stage_group_by \<equiv> [''flow'', ''stage'', ''currency'', ''entity'']"

definition entity_stage_of :: "labels \<Rightarrow> entity_stage" where
  "entity_stage_of key = EntityStage (map_get [] key ''flow'') (map_get [] key ''stage'')
     (map_get [] key ''currency'') (map_get [] key ''entity'')"

definition add_open :: "string \<Rightarrow> event_group \<Rightarrow> open_items \<Rightarrow> open_items" where
  "add_open bucket g items =
     (let k = entity_stage_of (GKey g);
          it = (case map_of items k of Some it \<Rightarrow> it | None \<Rightarrow> \<lparr>oi_bucket = bucket, oi_minor = 0\<rparr>)
      in map_put k (if sint (GMax g) > sint (oi_minor it) then it\<lparr>oi_minor := GMax g\<rparr> else it) items)"

definition collect_open ::
  "registry option \<Rightarrow> querier \<Rightarrow> request \<Rightarrow> (string \<times> duration) \<times> labels \<Rightarrow> open_items \<Rightarrow> string + open_items" where
  "collect_open reg q req x items =
     (let ((bucket, before), flt) = x;
          win = \<lparr>From = start_for reg req flt, To = cut_end (To (Window req)) before\<rparr>
      in if \<not> To win > From win then Inr items
         else
           (case query_events q (group_query win flt stage_group_by agg_max_per_group) of
              Inl e \<Rightarrow> Inl (''engine: deferred events query: '' @ error_text e)
            | Inr gs \<Rightarrow> Inr (fold (add_open bucket) gs items)))"

text \<open>Sets of stages, per flow and entity.\<close>

type_synonym stage_sets = "((string \<times> string), string list) gomap"

definition add_stage :: "string \<times> string \<Rightarrow> string \<Rightarrow> stage_sets \<Rightarrow> stage_sets" where
  "add_stage fe stage m = map_put fe (List.insert stage (map_get [] m fe)) m"

definition collect_terminal ::
  "registry option \<Rightarrow> querier \<Rightarrow> request \<Rightarrow> labels \<Rightarrow> stage_sets \<Rightarrow> string + stage_sets" where
  "collect_terminal reg q req flt m =
     (case query_events q (group_query \<lparr>From = start_for reg req flt, To = To (Window req)\<rparr> flt stage_group_by agg_groups) of
        Inl e \<Rightarrow> Inl (''engine: deferred terminal query: '' @ error_text e)
      | Inr gs \<Rightarrow>
          Inr (fold (\<lambda>g. add_stage (map_get [] (GKey g) ''flow'', map_get [] (GKey g) ''entity'')
                 (map_get [] (GKey g) ''stage'')) gs m))"

definition resolved_by_later_stage :: "registry option \<Rightarrow> string \<Rightarrow> string \<Rightarrow> string list \<Rightarrow> bool" where
  "resolved_by_later_stage reg flow stage terminals =
     (if stage \<in> set terminals then True
      else
        (let i = stage_index reg flow stage in
         if i < 0 then False else list_ex (\<lambda>t. stage_index reg flow t > i) terminals))"

definition progressed_past :: "registry option \<Rightarrow> string \<Rightarrow> string \<Rightarrow> string list \<Rightarrow> bool" where
  "progressed_past reg flow stage deferred_stages =
     (let i = stage_index reg flow stage in
      if i < 0 then False else list_ex (\<lambda>d. stage_index reg flow d > i) deferred_stages)"

definition still_open :: "registry option \<Rightarrow> stage_sets \<Rightarrow> stage_sets \<Rightarrow> entity_stage \<Rightarrow> bool" where
  "still_open reg terminals deferred k =
     (\<not> (resolved_by_later_stage reg (es_flow k) (es_stage k) (map_get [] terminals (es_flow k, es_entity k))
         \<or> progressed_past reg (es_flow k) (es_stage k) (map_get [] deferred (es_flow k, es_entity k))))"

definition add_open_item :: "registry option \<Rightarrow> entity_stage \<times> open_item \<Rightarrow> deferred_leg \<times> int \<Rightarrow> deferred_leg \<times> int" where
  "add_open_item reg x st =
     (let (k, it) = x; (lg, oldest) = st; bucket = oi_bucket it;
          lg1 = add_bucket bucket (es_currency k) (oi_minor it) lg;
          lg2 = lg1\<lparr>Count := Count lg1 + 1\<rparr>;
          oldest' = (if bucket_index bucket > oldest then bucket_index bucket else oldest)
      in case reg of
           None \<Rightarrow> (lg2, oldest')
         | Some r \<Rightarrow>
             (let lg3 = (if breached r (es_flow k) (es_stage k) bucket then lg2\<lparr>SLABreaches := SLABreaches lg2 + 1\<rparr> else lg2)
              in (add_projected (breached_and_lost r (es_flow k) (es_stage k) bucket) (es_currency k) (oi_minor it) lg3, oldest')))"

definition deferred_from_events :: "registry option \<Rightarrow> querier \<Rightarrow> request \<Rightarrow> string + deferred_leg" where
  "deferred_from_events reg q req =
     (case fold_err (collect_open reg q req) (List.product age_cutoffs (flow_filters req ''deferred'')) [] of
        Inl e \<Rightarrow> Inl e
      | Inr items \<Rightarrow>
          (let later = fold (\<lambda>(k, _). add_stage (es_flow k, es_entity k) (es_stage k)) items [] in
           case fold_err (collect_terminal reg q req) (concat (map (flow_filters req) terminal_outcomes)) [] of
             Inl e \<Rightarrow> Inl e
           | Inr terminals \<Rightarrow>
               (let (lg, oldest) = fold (add_open_item reg) [x \<leftarrow> items. still_open reg terminals later (fst x)]
                      (new_deferred_leg\<lparr>Caveats := [events_derived_caveat]\<rparr>, - 1)
                in Inr (lg\<lparr>OldestAgeMinutes := oldest_minutes oldest\<rparr>))))"

section \<open>The two groundings\<close>

definition deferred :: "(f64 \<Rightarrow> i64) \<Rightarrow> registry option \<Rightarrow> querier \<Rightarrow> request \<Rightarrow> string + deferred_leg" where
  "deferred oob reg q req =
     (if \<not> CMetrics (capabilities q) \<and> \<not> CEvents (capabilities q)
      then Inl ''engine: deferred leg needs the biz_inflight_value gauge or deferred outcome events; this backend serves neither''
      else if CMetrics (capabilities q) then
        (case deferred_from_gauge oob reg q req of
           Inl e \<Rightarrow> Inl e
         | Inr (lg, saw) \<Rightarrow>
             if saw \<or> \<not> CEvents (capabilities q) then Inr lg else deferred_from_events reg q req)
      else deferred_from_events reg q req)"

section \<open>Buckets and ages\<close>

lemma floor_of_bucket:
  "map_of age_bucket_floor_minutes (age_bucket_for age) = Some v \<Longrightarrow> 0 \<le> age \<Longrightarrow> sint v * minute \<le> age"
  by (auto simp: age_bucket_for_def age_defs age_bucket_floor_minutes_def duration_units split: if_splits)

text \<open>The order of the buckets is the order of the ages.\<close>

lemma bucket_index_age:
  "bucket_index (age_bucket_for age) =
     (if age < minute then 0 else if age < 5 * minute then 1 else if age < 30 * minute then 2 else if age < 2 * hour then 3 else 4)"
  by (simp add: age_bucket_for_def age_defs bucket_index_def age_bucket_order_def)

lemma bucket_index_mono: "a \<le> b \<Longrightarrow> bucket_index (age_bucket_for a) \<le> bucket_index (age_bucket_for b)"
  by (simp add: bucket_index_age minute_def hour_def second_def)

section \<open>The open items, on the store\<close>

definition es_of :: "outcome \<Rightarrow> entity_stage" where
  "es_of o' = EntityStage (Flow (VC o')) (Stage o') (Currency (Money (VC o'))) (EntityID (VC o'))"

fun first_bucket :: "(string \<times> outcome set) list \<Rightarrow> entity_stage \<Rightarrow> string option" where
  "first_bucket [] k = None"
| "first_bucket ((b, S) # L) k = (if k \<in> es_of ` S then Some b else first_bucket L k)"

lemma first_bucket_append:
  "first_bucket (L @ M) k = (case first_bucket L k of Some b \<Rightarrow> Some b | None \<Rightarrow> first_bucket M k)"
  by (induction L k rule: first_bucket.induct) auto

lemma first_bucket_None: "first_bucket L k = None \<longleftrightarrow> k \<notin> es_of ` \<Union>(snd ` set L)"
  by (induction L k rule: first_bucket.induct) auto

definition largest :: "outcome set \<Rightarrow> entity_stage \<Rightarrow> int" where
  "largest S k = Max (insert 0 ((\<lambda>o'. sint (amount_of o')) ` {o' \<in> S. es_of o' = k}))"

definition open_ok :: "(string \<times> outcome set) list \<Rightarrow> open_items \<Rightarrow> bool" where
  "open_ok L items \<longleftrightarrow> map_ok items \<and> (\<forall>k. map_option oi_bucket (map_of items k) = first_bucket L k
     \<and> (\<forall>it. map_of items k = Some it \<longrightarrow> sint (oi_minor it) = largest (\<Union>(snd ` set L)) k))"

definition upd_open :: "string \<Rightarrow> event_group \<Rightarrow> open_item option \<Rightarrow> open_item" where
  "upd_open bucket g it0 =
     (let it = (case it0 of Some it \<Rightarrow> it | None \<Rightarrow> \<lparr>oi_bucket = bucket, oi_minor = 0\<rparr>)
      in if sint (GMax g) > sint (oi_minor it) then it\<lparr>oi_minor := GMax g\<rparr> else it)"

lemma add_open_upd:
  "add_open bucket g items = map_put (entity_stage_of (GKey g)) (upd_open bucket g (map_of items (entity_stage_of (GKey g)))) items"
  by (simp add: add_open_def upd_open_def Let_def)

lemma add_open_fold:
  assumes "distinct (map (\<lambda>g. entity_stage_of (GKey g)) gs)"
  shows "map_of (fold (add_open b) gs items) k =
     (case [g \<leftarrow> gs. entity_stage_of (GKey g) = k] of [] \<Rightarrow> map_of items k | g # _ \<Rightarrow> Some (upd_open b g (map_of items k)))"
  using assms
proof (induction gs arbitrary: items)
  case Nil
  then show ?case by simp
next
  case (Cons g gs)
  have none: "[h \<leftarrow> gs. entity_stage_of (GKey h) = entity_stage_of (GKey g)] = []"
  proof -
    have "entity_stage_of (GKey g) \<notin> (\<lambda>g. entity_stage_of (GKey g)) ` set gs" using Cons.prems by simp
    then show ?thesis unfolding filter_empty_conv by (metis (mono_tags, lifting) image_eqI)
  qed
  show ?case
  proof (cases "entity_stage_of (GKey g) = k")
    case True
    then show ?thesis using Cons.IH [of "add_open b g items"] Cons.prems none by (simp add: add_open_upd)
  next
    case False
    then have "map_of (add_open b g items) k = map_of items k" by (simp add: add_open_upd)
    then show ?thesis using Cons.IH [of "add_open b g items"] Cons.prems False
      by (cases "[g \<leftarrow> gs. entity_stage_of (GKey g) = k]") simp_all
  qed
qed

lemma add_open_fold_ok: "map_ok items \<Longrightarrow> map_ok (fold (add_open b) gs items)"
  by (induction gs arbitrary: items) (simp_all add: add_open_upd)

lemma stage_key:
  "event_key (group_query win flt stage_group_by agg) o'
     = [(''flow'', Flow (VC o')), (''stage'', Stage o'), (''currency'', Currency (Money (VC o'))), (''entity'', EntityID (VC o'))]"
  by (simp add: group_key_distinct group_query_def)

lemma entity_stage_of_key:
  "entity_stage_of [(''flow'', f), (''stage'', s), (''currency'', c), (''entity'', e)] = EntityStage f s c e"
  by (simp add: entity_stage_of_def map_get_def)

lemma largest_union:
  assumes "finite S" "finite T"
  shows "largest (S \<union> T) k = max (largest S k) (largest T k)"
proof -
  let ?f = "\<lambda>S. insert 0 ((\<lambda>o'. sint (amount_of o')) ` {o' \<in> S. es_of o' = k})"
  have "?f (S \<union> T) = ?f S \<union> ?f T" by auto
  then have "largest (S \<union> T) k = Max (?f S \<union> ?f T)" by (simp only: largest_def)
  also have "\<dots> = max (Max (?f S)) (Max (?f T))" using assms by (intro Max_Un) simp_all
  finally show ?thesis by (simp only: largest_def)
qed

lemma largest_none: "k \<notin> es_of ` S \<Longrightarrow> largest S k = 0"
proof -
  assume "k \<notin> es_of ` S"
  then have "{o' \<in> S. es_of o' = k} = {}" by auto
  then show ?thesis by (simp only: largest_def image_empty) simp
qed

lemma largest_nonneg: "finite S \<Longrightarrow> 0 \<le> largest S k"
  unfolding largest_def by (rule Max_ge) simp_all

text \<open>One query's groups extend the items by the events it selects.\<close>

lemma open_ok_step:
  assumes ok: "open_ok L items" and fin: "finite (\<Union>(snd ` set L))"
    and ans: "answers store (group_query win flt stage_group_by agg_max_per_group) gs"
  shows "open_ok (L @ [(b, selected store win flt)]) (fold (add_open b) gs items)"
proof -
  let ?S = "selected store win flt" and ?eq = "group_query win flt stage_group_by agg_max_per_group"
  let ?U = "\<Union>(snd ` set L)"
  have finS: "finite ?S" by (simp add: selected_def)
  have keys: "GKey ` set gs = event_key ?eq ` ?S" using ans by (simp add: answers_def matched_selected)
  have key: "\<exists>o' \<in> ?S. GKey g = event_key ?eq o'" if "g \<in> set gs" for g
    using keys that by (metis (no_types, lifting) image_iff)
  have es: "entity_stage_of (event_key ?eq o') = es_of o'" for o'
    by (simp add: stage_key entity_stage_of_key es_of_def)
  have inj: "event_key ?eq x = event_key ?eq y \<longleftrightarrow> es_of x = es_of y" for x y
    by (auto simp: stage_key es_of_def)
  have dist: "distinct (map (\<lambda>g. entity_stage_of (GKey g)) gs)"
  proof -
    have "inj_on (\<lambda>g. entity_stage_of (GKey g)) (set gs)"
    proof (rule inj_onI)
      fix g h
      assume gh: "g \<in> set gs" "h \<in> set gs" "entity_stage_of (GKey g) = entity_stage_of (GKey h)"
      obtain x y :: outcome where xy: "GKey g = event_key ?eq x" "GKey h = event_key ?eq y"
        using key gh(1,2) by metis
      then have "GKey g = GKey h" using gh(3) es inj by simp
      then show "g = h" using ans gh(1,2) by (auto simp: answers_def distinct_map dest: inj_onD)
    qed
    then show ?thesis using ans by (simp add: answers_def distinct_map)
  qed
  have found: "[g \<leftarrow> gs. entity_stage_of (GKey g) = k] = [] \<longleftrightarrow> k \<notin> es_of ` ?S" for k
  proof -
    have "(\<lambda>g. entity_stage_of (GKey g)) ` set gs = es_of ` ?S"
      using arg_cong [OF keys, of "image entity_stage_of"] es by (simp add: image_image)
    moreover have "[g \<leftarrow> gs. entity_stage_of (GKey g) = k] = [] \<longleftrightarrow> k \<notin> (\<lambda>g. entity_stage_of (GKey g)) ` set gs"
      by (auto simp: filter_empty_conv)
    ultimately show ?thesis by simp
  qed
  have maxi: "max 0 (sint (GMax g)) = largest ?S k" if g: "g \<in> set gs" "entity_stage_of (GKey g) = k" for g k
  proof -
    obtain x :: outcome where x: "x \<in> ?S" "GKey g = event_key ?eq x" using key [OF g(1)] by blast
    have "set (group_of store ?eq (GKey g)) = {o' \<in> ?S. es_of o' = k}"
      using x g(2) es inj matched_selected [of store win flt stage_group_by agg_max_per_group]
      by (auto simp: group_of_def x(2))
    then have "sint (GMax g) = Max ((\<lambda>o'. sint (amount_of o')) ` {o' \<in> ?S. es_of o' = k})"
      using ans g(1) by (simp add: answers_def image_image group_query_def)
    moreover have "(\<lambda>o'. sint (amount_of o')) ` {o' \<in> ?S. es_of o' = k} \<noteq> {}"
      using x g(2) es by auto
    ultimately show ?thesis using finS unfolding largest_def by (subst Max_insert) auto
  qed
  have step: "map_option oi_bucket (map_of (fold (add_open b) gs items) k) = first_bucket (L @ [(b, ?S)]) k
      \<and> (\<forall>it. map_of (fold (add_open b) gs items) k = Some it \<longrightarrow> sint (oi_minor it) = largest (?U \<union> ?S) k)" for k
  proof (cases "[g \<leftarrow> gs. entity_stage_of (GKey g) = k]")
    case Nil
    then have no: "k \<notin> es_of ` ?S" using found by blast
    have "largest (?U \<union> ?S) k = max (largest ?U k) 0"
      using largest_union [OF fin finS] largest_none [OF no] by simp
    then have "largest (?U \<union> ?S) k = largest ?U k" using largest_nonneg [OF fin] by simp
    moreover have "first_bucket (L @ [(b, ?S)]) k = first_bucket L k" using no by (simp add: first_bucket_append split: option.split)
    ultimately show ?thesis using ok by (simp add: add_open_fold [OF dist] Nil open_ok_def)
  next
    case (Cons g rest)
    then have g: "g \<in> set gs" "entity_stage_of (GKey g) = k" using filter_eq_ConsD [OF Cons] by auto
    have yes: "k \<in> es_of ` ?S" using found Cons by (metis list.distinct(1))
    have new: "map_of (fold (add_open b) gs items) k = Some (upd_open b g (map_of items k))"
      by (simp add: add_open_fold [OF dist] Cons)
    have lu: "largest (?U \<union> ?S) k = max (largest ?U k) (max 0 (sint (GMax g)))"
      using largest_union [OF fin finS] maxi [OF g] by simp
    show ?thesis
    proof (cases "map_of items k")
      case None
      then have n: "first_bucket L k = None" using ok unfolding open_ok_def by (metis option.simps(8))
      then have f: "first_bucket (L @ [(b, ?S)]) k = Some b" using yes by (simp add: first_bucket_append)
      have "k \<notin> es_of ` ?U" using n first_bucket_None [of L k] by blast
      then have "largest ?U k = 0" by (rule largest_none)
      then show ?thesis using None f lu by (simp add: new upd_open_def max_def Let_def)
    next
      case (Some it)
      then have "first_bucket L k = Some (oi_bucket it)" and lt: "sint (oi_minor it) = largest ?U k"
        using ok unfolding open_ok_def by (metis option.simps(9))+
      then have "first_bucket (L @ [(b, ?S)]) k = Some (oi_bucket it)"
        by (simp add: first_bucket_append)
      moreover have "0 \<le> sint (oi_minor it)" using lt largest_nonneg [OF fin] by simp
      ultimately show ?thesis using Some lt lu by (simp add: new upd_open_def max_def Let_def)
    qed
  qed
  have "\<Union>(snd ` set (L @ [(b, ?S)])) = ?U \<union> ?S" by auto
  then show ?thesis
    unfolding open_ok_def using step add_open_fold_ok ok by (simp add: open_ok_def)
qed

text \<open>Everything deferred that the lookback reaches, and the age of an item.\<close>

definition deferred_events :: "registry option \<Rightarrow> outcome list \<Rightarrow> request \<Rightarrow> outcome set" where
  "deferred_events reg store req =
     (\<Union>flt \<in> set (flow_filters req ''deferred''). selected store \<lparr>From = start_for reg req flt, To = To (Window req)\<rparr> flt)"

definition terminal_events :: "registry option \<Rightarrow> outcome list \<Rightarrow> request \<Rightarrow> outcome set" where
  "terminal_events reg store req =
     (\<Union>flt \<in> set (concat (map (flow_filters req) terminal_outcomes)).
        selected store \<lparr>From = start_for reg req flt, To = To (Window req)\<rparr> flt)"

definition first_seen :: "outcome set \<Rightarrow> entity_stage \<Rightarrow> time" where
  "first_seen S k = Min (At ` {o' \<in> S. es_of o' = k})"

definition age_bucket_of :: "request \<Rightarrow> outcome set \<Rightarrow> entity_stage \<Rightarrow> string" where
  "age_bucket_of req S k = age_bucket_for (To (Window req) - first_seen S k)"

lemma selected_cut:
  "selected store \<lparr>From = f, To = cut_end u d\<rparr> flt
     = {o' \<in> selected store \<lparr>From = f, To = u\<rparr> flt. At o' < cut_end u d}" if "0 \<le> d"
  using that by (auto simp: selected_def in_range_def cut_end_def split: if_splits)

definition cut_sets :: "registry option \<Rightarrow> outcome list \<Rightarrow> request \<Rightarrow> (string \<times> duration) list \<Rightarrow> (string \<times> outcome set) list" where
  "cut_sets reg store req cuts =
     map (\<lambda>((b, d), flt). (b, selected store \<lparr>From = start_for reg req flt, To = cut_end (To (Window req)) d\<rparr> flt))
       (List.product cuts (flow_filters req ''deferred''))"

lemma cut_sets_Cons:
  "cut_sets reg store req ((b, d) # cuts) =
     map (\<lambda>flt. (b, selected store \<lparr>From = start_for reg req flt, To = cut_end (To (Window req)) d\<rparr> flt))
       (flow_filters req ''deferred'') @ cut_sets reg store req cuts"
  by (simp add: cut_sets_def comp_def)

text \<open>The first cut that reaches an item is the one its oldest event falls in.\<close>

lemma first_bucket_same:
  "first_bucket (map (\<lambda>x. (b, f x)) xs) k = (if k \<in> es_of ` (\<Union>x \<in> set xs. f x) then Some b else None)"
  by (induction xs) auto

lemma cut_union:
  assumes "0 \<le> d"
  shows "(\<Union>flt \<in> set (flow_filters req ''deferred'').
       selected store \<lparr>From = start_for reg req flt, To = cut_end (To (Window req)) d\<rparr> flt)
     = {o' \<in> deferred_events reg store req. At o' < cut_end (To (Window req)) d}"
  using selected_cut [OF assms] by (auto simp: deferred_events_def)

lemma first_bucket_cuts:
  assumes "\<forall>(b, d) \<in> set cuts. 0 \<le> d"
  shows "first_bucket (cut_sets reg store req cuts) k =
     (case [(b, d) \<leftarrow> cuts. \<exists>o' \<in> deferred_events reg store req. es_of o' = k \<and> At o' < cut_end (To (Window req)) d] of
        [] \<Rightarrow> None | (b, d) # _ \<Rightarrow> Some b)"
  using assms
proof (induction cuts)
  case Nil
  then show ?case by (simp add: cut_sets_def)
next
  case (Cons c cuts)
  obtain b d where c: "c = (b, d)" by (cases c)
  have d: "0 \<le> d" using Cons.prems by (simp add: c)
  have "k \<in> es_of ` {o' \<in> deferred_events reg store req. At o' < cut_end (To (Window req)) d} \<longleftrightarrow>
      (\<exists>o' \<in> deferred_events reg store req. es_of o' = k \<and> At o' < cut_end (To (Window req)) d)" by auto
  then show ?case
    using Cons by (auto simp: c cut_sets_Cons first_bucket_append first_bucket_same cut_union [OF d])
qed

lemma finite_deferred [simp]: "finite (deferred_events reg store req)"
  by (auto simp: deferred_events_def selected_def)

lemma cuts_age:
  assumes S: "S = {o' \<in> deferred_events reg store req. es_of o' = k}" "S \<noteq> {}"
  shows "first_bucket (cut_sets reg store req age_cutoffs) k
     = Some (age_bucket_of req (deferred_events reg store req) k)"
proof -
  let ?t = "To (Window req)"
  let ?m = "first_seen (deferred_events reg store req) k"
  have fin: "finite S" by (simp add: S(1))
  have m: "?m \<in> At ` S" "\<And>x. x \<in> S \<Longrightarrow> ?m \<le> At x"
    using Min_in [of "At ` S"] fin S by (auto simp: first_seen_def)
  have hits: "(\<exists>o' \<in> deferred_events reg store req. es_of o' = k \<and> At o' < c) \<longleftrightarrow> ?m < c" for c
    using m S(1) by (auto intro: le_less_trans)
  have "\<And>o'. o' \<in> deferred_events reg store req \<Longrightarrow> At o' < ?t"
    by (auto simp: deferred_events_def selected_def in_range_def)
  then have lt: "?m < ?t" using m(1) S(1) by auto
  have nn: "\<forall>(b, d) \<in> set age_cutoffs. 0 \<le> d" by (simp add: age_cutoffs_def duration_units)
  show ?thesis
    unfolding first_bucket_cuts [OF nn] hits age_bucket_of_def
    using lt by (simp add: age_cutoffs_def cut_end_def age_bucket_for_def age_defs duration_units)
qed

lemma cut_sets_union: "\<Union>(snd ` set (cut_sets reg store req age_cutoffs)) = deferred_events reg store req"
proof -
  have "\<Union>(snd ` set (cut_sets reg store req cuts))
      = (\<Union>(b, d) \<in> set cuts. {o' \<in> deferred_events reg store req. At o' < cut_end (To (Window req)) d})"
    if "\<forall>(b, d) \<in> set cuts. 0 \<le> d" for cuts
    using that
  proof (induction cuts)
    case (Cons c cuts)
    obtain b d where c: "c = (b, d)" by (cases c)
    have d: "0 \<le> d" using Cons.prems by (simp add: c)
    have "\<Union>(snd ` set (cut_sets reg store req (c # cuts)))
        = {o' \<in> deferred_events reg store req. At o' < cut_end (To (Window req)) d} \<union> \<Union>(snd ` set (cut_sets reg store req cuts))"
      unfolding c cut_sets_Cons using cut_union [OF d, where req = req and store = store and reg = reg] by (simp add: image_Un image_image)
    then show ?case using Cons by (simp add: c)
  qed (simp add: cut_sets_def)
  moreover have "\<forall>(b, d) \<in> set age_cutoffs. 0 \<le> d" by (simp add: age_cutoffs_def duration_units)
  moreover have "\<And>o'. o' \<in> deferred_events reg store req \<Longrightarrow> At o' < To (Window req)"
    by (auto simp: deferred_events_def selected_def in_range_def)
  ultimately show ?thesis by (auto simp: age_cutoffs_def cut_end_def)
qed

section \<open>What resolves an item\<close>

definition is_open :: "registry option \<Rightarrow> outcome list \<Rightarrow> request \<Rightarrow> entity_stage \<Rightarrow> bool" where
  "is_open reg store req k \<longleftrightarrow>
     k \<in> es_of ` deferred_events reg store req
     \<and> (let at_stage = stage_index reg (es_flow k) (es_stage k);
            later = (\<lambda>o'. 0 \<le> at_stage \<and> at_stage < stage_index reg (es_flow k) (Stage o'));
            mine = (\<lambda>o'. Flow (VC o') = es_flow k \<and> EntityID (VC o') = es_entity k)
        in (\<forall>o' \<in> terminal_events reg store req. mine o' \<longrightarrow> Stage o' \<noteq> es_stage k \<and> \<not> later o')
         \<and> (\<forall>o' \<in> deferred_events reg store req. mine o' \<longrightarrow> \<not> later o'))"

definition stages_of :: "outcome set \<Rightarrow> stage_sets \<Rightarrow> bool" where
  "stages_of E m \<longleftrightarrow> (\<forall>f e. set (map_get [] m (f, e)) = Stage ` {o' \<in> E. Flow (VC o') = f \<and> EntityID (VC o') = e})"

lemma add_stages_fold:
  "set (map_get [] (fold (\<lambda>x. add_stage (f x) (g x)) xs m) fe) = set (map_get [] m fe) \<union> g ` {x \<in> set xs. f x = fe}"
  by (induction xs arbitrary: m) (auto simp: add_stage_def)

lemma still_open_iff:
  assumes "k \<in> es_of ` deferred_events reg store req"
    "stages_of (terminal_events reg store req) terminals" "stages_of (deferred_events reg store req) later"
  shows "still_open reg terminals later k \<longleftrightarrow> is_open reg store req k"
proof -
  have t: "s \<in> set (map_get [] terminals (f, e)) \<longleftrightarrow>
      (\<exists>o' \<in> terminal_events reg store req. Flow (VC o') = f \<and> EntityID (VC o') = e \<and> Stage o' = s)" for s f e
    using assms(2) by (auto simp: stages_of_def image_iff)
  have d: "s \<in> set (map_get [] later (f, e)) \<longleftrightarrow>
      (\<exists>o' \<in> deferred_events reg store req. Flow (VC o') = f \<and> EntityID (VC o') = e \<and> Stage o' = s)" for s f e
    using assms(3) by (auto simp: stages_of_def image_iff)
  show ?thesis
    using assms(1)
    by (auto simp: still_open_def is_open_def resolved_by_later_stage_def progressed_past_def t d
        Let_def list_ex_iff Ball_def Bex_def split: if_splits)
qed

section \<open>The sums of the leg\<close>

lemma add_open_item_fields:
  assumes "fold (add_open_item reg) xs (lg, idx) = (lg', idx')"
  shows "(\<forall>cur. map_get 0 (ByCurrency lg') cur = map_get 0 (ByCurrency lg) cur
       + sum_i64 (map (\<lambda>x. oi_minor (snd x)) [x \<leftarrow> xs. es_currency (fst x) = cur]))
    \<and> (\<forall>b cur. map_get 0 (map_get [] (ByAgeBucket lg') b) cur = map_get 0 (map_get [] (ByAgeBucket lg) b) cur
       + sum_i64 (map (\<lambda>x. oi_minor (snd x)) [x \<leftarrow> xs. oi_bucket (snd x) = b \<and> es_currency (fst x) = cur]))
    \<and> Count lg' = Count lg + of_nat (length xs)
    \<and> (\<forall>r. reg = Some r \<longrightarrow> SLABreaches lg' = SLABreaches lg
       + of_nat (length [x \<leftarrow> xs. breached r (es_flow (fst x)) (es_stage (fst x)) (oi_bucket (snd x))]))
    \<and> Unavailable lg' = Unavailable lg \<and> Caveats lg' = Caveats lg"
  using assms
proof (induction xs arbitrary: lg idx)
  case Nil
  then show ?case by simp
next
  case (Cons x xs)
  obtain k it where x: "x = (k, it)" by (cases x)
  obtain l1 i1 where s: "add_open_item reg x (lg, idx) = (l1, i1)" by (cases "add_open_item reg x (lg, idx)")
  then have run: "fold (add_open_item reg) xs (l1, i1) = (lg', idx')" using Cons.prems by simp
  have f: "ByCurrency l1 = map_add (es_currency k) (oi_minor it) (ByCurrency lg)"
    "ByAgeBucket l1 = map_put (oi_bucket it) (map_add (es_currency k) (oi_minor it) (map_get [] (ByAgeBucket lg) (oi_bucket it))) (ByAgeBucket lg)"
    "Count l1 = Count lg + 1" "Unavailable l1 = Unavailable lg" "Caveats l1 = Caveats lg"
    "\<And>r. reg = Some r \<Longrightarrow> SLABreaches l1 = (if breached r (es_flow k) (es_stage k) (oi_bucket it) then SLABreaches lg + 1 else SLABreaches lg)"
    using s by (auto simp: x add_open_item_def Let_def add_bucket_def add_projected_def split: option.splits if_splits)
  show ?case
    using Cons.IH [OF run] by (auto simp: x f add.assoc)
qed

context event_backend
begin

lemma stage_answer:
  assumes "list_all clean_event store" "agg \<in> {agg_groups, agg_max_per_group}"
  obtains gs where "query_events q (group_query win flt stage_group_by agg) = Inr gs"
    "answers store (group_query win flt stage_group_by agg) gs"
  using grouped [of "group_query win flt stage_group_by agg"] assms
  by (force simp: group_query_def event_query_zero_def currency_known_def)

lemma open_all:
  assumes clean: "list_all clean_event store" and ok: "open_ok L items" and fin: "finite (\<Union>(snd ` set L))"
  shows "\<exists>items'. fold_err (collect_open reg q req) xs items = Inr items'
    \<and> open_ok (L @ map (\<lambda>((b, d), flt). (b, selected store \<lparr>From = start_for reg req flt, To = cut_end (To (Window req)) d\<rparr> flt)) xs) items'"
  using ok fin
proof (induction xs arbitrary: L items)
  case Nil
  then show ?case by simp
next
  case (Cons x xs)
  obtain b d flt where x: "x = ((b, d), flt)" by (cases x) auto
  let ?win = "\<lparr>From = start_for reg req flt, To = cut_end (To (Window req)) d\<rparr>"
  let ?S = "selected store ?win flt"
  obtain items1 where i1: "collect_open reg q req x items = Inr items1" "open_ok (L @ [(b, ?S)]) items1"
  proof (cases "To ?win > From ?win")
    case True
    obtain gs where gs: "query_events q (group_query ?win flt stage_group_by agg_max_per_group) = Inr gs"
        "answers store (group_query ?win flt stage_group_by agg_max_per_group) gs"
      by (rule stage_answer [OF clean, of agg_max_per_group ?win flt]) (simp, rule that)
    have "collect_open reg q req x items = Inr (fold (add_open b) gs items)"
      using True gs(1) by (simp add: x collect_open_def Let_def)
    then show thesis using open_ok_step [OF Cons.prems gs(2), of b] by (rule that)
  next
    case False
    then have "?S = {}" by (auto simp: selected_def in_range_def)
    then have "open_ok (L @ [(b, ?S)]) items"
      using Cons.prems(1) by (auto simp: open_ok_def first_bucket_append split: option.split)
    moreover have "collect_open reg q req x items = Inr items" using False by (simp add: x collect_open_def Let_def)
    ultimately show thesis using that by blast
  qed
  have "finite (\<Union>(snd ` set (L @ [(b, ?S)])))" using Cons.prems(2) by (simp add: selected_def)
  from Cons.IH [OF i1(2) this] i1(1) show ?case by (simp add: x)
qed

lemma open_items_exact:
  assumes clean: "list_all clean_event store"
  obtains items where "fold_err (collect_open reg q req) (List.product age_cutoffs (flow_filters req ''deferred'')) [] = Inr items"
    "map_ok items" "fst ` set items = es_of ` deferred_events reg store req"
    "\<And>k it. (k, it) \<in> set items \<Longrightarrow> oi_bucket it = age_bucket_of req (deferred_events reg store req) k
       \<and> sint (oi_minor it) = largest (deferred_events reg store req) k"
proof -
  let ?D = "deferred_events reg store req"
  have "open_ok [] []" by (simp add: open_ok_def)
  from open_all [OF clean this, of reg req "List.product age_cutoffs (flow_filters req ''deferred'')"]
  obtain items where items: "fold_err (collect_open reg q req) (List.product age_cutoffs (flow_filters req ''deferred'')) [] = Inr items"
      "open_ok (cut_sets reg store req age_cutoffs) items"
    by (auto simp: cut_sets_def)
  have ok: "map_ok items" using items(2) by (simp add: open_ok_def)
  have at: "map_option oi_bucket (map_of items k) = first_bucket (cut_sets reg store req age_cutoffs) k"
    "map_of items k = Some it \<Longrightarrow> sint (oi_minor it) = largest ?D k" for k it
    using items(2) by (auto simp: open_ok_def cut_sets_union)
  have dom: "k \<in> fst ` set items \<longleftrightarrow> k \<in> es_of ` ?D" for k
  proof -
    have "k \<in> fst ` set items \<longleftrightarrow> map_of items k \<noteq> None" by (simp add: map_of_eq_None_iff)
    also have "\<dots> \<longleftrightarrow> first_bucket (cut_sets reg store req age_cutoffs) k \<noteq> None"
      using at(1) [of k]
      by (cases "map_of items k"; cases "first_bucket (cut_sets reg store req age_cutoffs) k") auto
    finally show ?thesis by (simp only: first_bucket_None cut_sets_union) simp
  qed
  have each: "oi_bucket it = age_bucket_of req ?D k \<and> sint (oi_minor it) = largest ?D k" if kit: "(k, it) \<in> set items" for k it
  proof -
    have m: "map_of items k = Some it" using map_ok_map_of [OF ok] kit by simp
    have "k \<in> es_of ` ?D" using dom [of k] kit by force
    then have "{o' \<in> ?D. es_of o' = k} \<noteq> {}" by auto
    from cuts_age [OF refl this] at(1) [of k] m at(2) [OF m] show ?thesis by simp
  qed
  show thesis using items(1) ok dom each by (intro that) auto
qed

lemma terminals_all:
  assumes clean: "list_all clean_event store" and m: "stages_of E m"
  shows "\<exists>m'. fold_err (collect_terminal reg q req) flts m = Inr m'
    \<and> stages_of (E \<union> (\<Union>flt \<in> set flts. selected store \<lparr>From = start_for reg req flt, To = To (Window req)\<rparr> flt)) m'"
  using m
proof (induction flts arbitrary: E m)
  case Nil
  then show ?case by simp
next
  case (Cons flt flts)
  let ?win = "\<lparr>From = start_for reg req flt, To = To (Window req)\<rparr>"
  let ?eq = "group_query ?win flt stage_group_by agg_groups"
  let ?S = "selected store ?win flt"
  obtain gs where gs: "query_events q ?eq = Inr gs" "answers store ?eq gs"
    by (rule stage_answer [OF clean, of agg_groups ?win flt]) (simp, rule that)
  let ?m = "fold (\<lambda>g. add_stage (map_get [] (GKey g) ''flow'', map_get [] (GKey g) ''entity'') (map_get [] (GKey g) ''stage'')) gs m"
  have run: "collect_terminal reg q req flt m = Inr ?m" using gs(1) by (simp add: collect_terminal_def)
  have keys: "GKey ` set gs = (\<lambda>o'. [(''flow'', Flow (VC o')), (''stage'', Stage o'), (''currency'', Currency (Money (VC o'))), (''entity'', EntityID (VC o'))]) ` ?S"
    using gs(2) by (simp add: answers_def matched_selected stage_key)
  have "(\<lambda>g. map_get [] (GKey g) ''stage'') ` {g \<in> set gs. (map_get [] (GKey g) ''flow'', map_get [] (GKey g) ''entity'') = (f, e)}
      = Stage ` {o' \<in> ?S. Flow (VC o') = f \<and> EntityID (VC o') = e}" for f e
  proof -
    have "(\<lambda>g. map_get [] (GKey g) ''stage'') ` {g \<in> set gs. (map_get [] (GKey g) ''flow'', map_get [] (GKey g) ''entity'') = (f, e)}
      = {map_get [] k ''stage'' | k. k \<in> GKey ` set gs \<and> (map_get [] k ''flow'', map_get [] k ''entity'') = (f, e)}" by auto
    then show ?thesis unfolding keys setcompr_of_image by (auto simp: map_get_def)
  qed
  then have "stages_of (E \<union> ?S) ?m"
    using Cons.prems unfolding stages_of_def by (simp add: add_stages_fold) blast
  from Cons.IH [OF this] run show ?case by (simp add: Un_assoc)
qed

end

section \<open>The leg, on the store\<close>

lemma later_stages:
  assumes "fst ` set items = es_of ` D"
  shows "stages_of D (fold (\<lambda>(k, _). add_stage (es_flow k, es_entity k) (es_stage k)) items [])"
  unfolding stages_of_def
proof (intro allI)
  fix f e
  have "set (map_get [] (fold (\<lambda>(k, _). add_stage (es_flow k, es_entity k) (es_stage k)) items []) (f, e))
      = {es_stage k | k. k \<in> fst ` set items \<and> (es_flow k, es_entity k) = (f, e)}"
    using add_stages_fold [of "\<lambda>x. (es_flow (fst x), es_entity (fst x))" "\<lambda>x. es_stage (fst x)" items "[]" "(f, e)"]
    by (auto simp: split_def)
  also have "\<dots> = Stage ` {o' \<in> D. Flow (VC o') = f \<and> EntityID (VC o') = e}"
    unfolding assms setcompr_of_image by (auto simp: es_of_def)
  finally show "set (map_get [] (fold (\<lambda>(k, _). add_stage (es_flow k, es_entity k) (es_stage k)) items []) (f, e))
      = Stage ` {o' \<in> D. Flow (VC o') = f \<and> EntityID (VC o') = e}" .
qed

lemma filtered_sum:
  assumes "distinct (map fst xs)" "\<And>x. x \<in> set xs \<Longrightarrow> sint (oi_minor (snd x)) = v (fst x)"
  shows "sum_i64 (map (\<lambda>x. oi_minor (snd x)) [x \<leftarrow> xs. P x]) = word_of_int (\<Sum>k \<in> fst ` {x \<in> set xs. P x}. v k)"
proof -
  have "distinct (map fst [x \<leftarrow> xs. P x])" using assms(1) by (simp add: distinct_map_filter)
  from sum_i64_distinct [OF this, of "\<lambda>x. oi_minor (snd x)" v] show ?thesis using assms(2) by simp
qed

text \<open>The value of one open item, and a cell of the leg.\<close>

abbreviation open_value :: "registry option \<Rightarrow> outcome list \<Rightarrow> request \<Rightarrow> (entity_stage \<Rightarrow> bool) \<Rightarrow> int" where
  "open_value reg store req P \<equiv>
     (\<Sum>k \<in> {k. is_open reg store req k \<and> P k}. largest (deferred_events reg store req) k)"

definition leg_of_store :: "registry option \<Rightarrow> outcome list \<Rightarrow> request \<Rightarrow> deferred_leg \<Rightarrow> bool" where
  "leg_of_store reg store req lg \<longleftrightarrow>
     (let bucket = age_bucket_of req (deferred_events reg store req) in
      (\<forall>c. map_get 0 (ByCurrency lg) c = word_of_int (open_value reg store req (\<lambda>k. es_currency k = c)))
      \<and> (\<forall>b c. map_get 0 (map_get [] (ByAgeBucket lg) b) c
           = word_of_int (open_value reg store req (\<lambda>k. bucket k = b \<and> es_currency k = c)))
      \<and> Count lg = of_nat (card {k. is_open reg store req k})
      \<and> (\<forall>r. reg = Some r \<longrightarrow> SLABreaches lg
           = of_nat (card {k. is_open reg store req k \<and> breached r (es_flow k) (es_stage k) (bucket k)}))
      \<and> \<not> Unavailable lg \<and> Caveats lg = [events_derived_caveat])"

context event_backend
begin

lemma events_leg_exact:
  assumes clean: "list_all clean_event store"
  shows "\<exists>lg. deferred_from_events reg q req = Inr lg \<and> leg_of_store reg store req lg"
proof -
  let ?D = "deferred_events reg store req" and ?T = "terminal_events reg store req"
  let ?b = "age_bucket_of req ?D"
  obtain items where it: "fold_err (collect_open reg q req) (List.product age_cutoffs (flow_filters req ''deferred'')) [] = Inr items"
      "map_ok items" "fst ` set items = es_of ` ?D"
    and each: "\<And>k i. (k, i) \<in> set items \<Longrightarrow> oi_bucket i = ?b k \<and> sint (oi_minor i) = largest ?D k"
    by (rule open_items_exact [OF clean, of reg req]) (rule that)
  let ?later = "fold (\<lambda>(k, _). add_stage (es_flow k, es_entity k) (es_stage k)) items []"
  have "stages_of {} []" by (simp add: stages_of_def)
  from terminals_all [OF clean this, of reg req "concat (map (flow_filters req) terminal_outcomes)"]
  obtain terminals where tm: "fold_err (collect_terminal reg q req) (concat (map (flow_filters req) terminal_outcomes)) [] = Inr terminals"
      "stages_of ?T terminals" by (auto simp: terminal_events_def)
  let ?ys = "[x \<leftarrow> items. still_open reg terminals ?later (fst x)]"
  obtain lg idx where run: "fold (add_open_item reg) ?ys (new_deferred_leg\<lparr>Caveats := [events_derived_caveat]\<rparr>, - 1) = (lg, idx)"
    by (cases "fold (add_open_item reg) ?ys (new_deferred_leg\<lparr>Caveats := [events_derived_caveat]\<rparr>, - 1)")
  have open_iff: "still_open reg terminals ?later k \<longleftrightarrow> is_open reg store req k" if "k \<in> es_of ` ?D" for k
    by (rule still_open_iff [OF that tm(2) later_stages [OF it(3)]])
  have keys: "fst ` {x \<in> set ?ys. P x} = {k. is_open reg store req k \<and> Q k}"
    if pq: "\<And>x. x \<in> set items \<Longrightarrow> P x \<longleftrightarrow> Q (fst x)" for P Q
  proof -
    have "fst ` {x \<in> set ?ys. P x} = {k \<in> fst ` set items. still_open reg terminals ?later k \<and> Q k}"
      using pq by auto
    also have "\<dots> = {k. is_open reg store req k \<and> Q k}"
      unfolding it(3) using open_iff by (auto simp: is_open_def)
    finally show ?thesis .
  qed
  have dist: "distinct (map fst ?ys)" using it(2) by (simp add: map_ok_def distinct_map_filter)
  have val: "sint (oi_minor (snd x)) = largest ?D (fst x)" if "x \<in> set ?ys" for x
    using that each [of "fst x" "snd x"] by simp
  have sums: "sum_i64 (map (\<lambda>x. oi_minor (snd x)) [x \<leftarrow> ?ys. P x]) = word_of_int (open_value reg store req Q)"
    if pq: "\<And>x. x \<in> set items \<Longrightarrow> P x \<longleftrightarrow> Q (fst x)" for P Q
    using filtered_sum [OF dist val, of P] keys [of P Q] pq by simp
  have cards: "length [x \<leftarrow> ?ys. P x] = card {k. is_open reg store req k \<and> Q k}"
    if pq: "\<And>x. x \<in> set items \<Longrightarrow> P x \<longleftrightarrow> Q (fst x)" for P Q
  proof -
    have "distinct (map fst [x \<leftarrow> ?ys. P x])" by (rule distinct_map_filter [OF dist])
    from distinct_card [OF this] have "length [x \<leftarrow> ?ys. P x] = card (fst ` {x \<in> set ?ys. P x})" by simp
    then show ?thesis using keys [of P Q] pq by simp
  qed
  note f = add_open_item_fields [OF run]
  have start: "ByCurrency (new_deferred_leg\<lparr>Caveats := cs\<rparr>) = []" "ByAgeBucket (new_deferred_leg\<lparr>Caveats := cs\<rparr>) = []"
    "Count (new_deferred_leg\<lparr>Caveats := cs\<rparr>) = 0" "SLABreaches (new_deferred_leg\<lparr>Caveats := cs\<rparr>) = 0"
    "\<not> Unavailable (new_deferred_leg\<lparr>Caveats := cs\<rparr>)" "Caveats (new_deferred_leg\<lparr>Caveats := cs\<rparr>) = cs" for cs
    by (simp_all add: new_deferred_leg_def)
  have "leg_of_store reg store req (lg\<lparr>OldestAgeMinutes := oldest_minutes idx\<rparr>)"
    unfolding leg_of_store_def Let_def
  proof (intro conjI allI impI)
    fix c b r
    let ?lg = "lg\<lparr>OldestAgeMinutes := oldest_minutes idx\<rparr>"
    show "map_get 0 (ByCurrency ?lg) c = word_of_int (open_value reg store req (\<lambda>k. es_currency k = c))"
      using f sums [of "\<lambda>x. es_currency (fst x) = c" "\<lambda>k. es_currency k = c"] by (simp add: start)
    show "map_get 0 (map_get [] (ByAgeBucket ?lg) b) c
        = word_of_int (open_value reg store req (\<lambda>k. ?b k = b \<and> es_currency k = c))"
      using f sums [of "\<lambda>x. oi_bucket (snd x) = b \<and> es_currency (fst x) = c" "\<lambda>k. ?b k = b \<and> es_currency k = c"] each
      by (force simp: start)
    show "Count ?lg = of_nat (card {k. is_open reg store req k})"
      using f cards [of "\<lambda>_. True" "\<lambda>_. True"] by (simp add: start)
    show "SLABreaches ?lg = of_nat (card {k. is_open reg store req k \<and> breached r (es_flow k) (es_stage k) (?b k)})"
      if "reg = Some r"
      using f that cards [of "\<lambda>x. breached r (es_flow (fst x)) (es_stage (fst x)) (oi_bucket (snd x))"
          "\<lambda>k. breached r (es_flow k) (es_stage k) (?b k)"] each
      by (force simp: start)
    show "\<not> Unavailable ?lg" "Caveats ?lg = [events_derived_caveat]" using f by (simp_all add: start)
  qed
  moreover have "deferred_from_events reg q req = Inr (lg\<lparr>OldestAgeMinutes := oldest_minutes idx\<rparr>)"
    by (simp add: deferred_from_events_def it(1) tm(1) run Let_def)
  ultimately show ?thesis by blast
qed

end

section \<open>Properties\<close>

lemma no_gauge_series:
  assumes "\<forall>p \<in> set ms. PName p \<noteq> ''biz_inflight_value''"
  shows "query_metric (memq_store ms evs) (inflight_query ''biz_inflight_value'' flt win) = Inr []"
proof -
  have n: "[p \<leftarrow> ms. wanted_point (inflight_query ''biz_inflight_value'' flt win) g p] = []" for g
    using assms by (auto simp: filter_empty_conv wanted_point_def inflight_query_def)
  show ?thesis
    by (simp add: memq_store_def memq_querier_def memq_metric_def with_caps_def default_caps_def new_memq_def
        with_metrics_def with_events_def n Let_def)
qed

lemma metric_answers: "\<exists>s. query_metric (memq_store ms evs) qy = Inr s"
  by (simp add: memq_store_def memq_querier_def memq_metric_def with_caps_def default_caps_def Let_def)

lemma counts_read: "\<exists>st'. fold_err (read_counts oob reg (memq_store ms evs) win) flts st = Inr st'"
proof (induction flts arbitrary: st)
  case (Cons flt flts)
  obtain s where "query_metric (memq_store ms evs) (inflight_query ''biz_inflight_count'' flt win) = Inr s"
    using metric_answers by blast
  then show ?case using Cons.IH by (simp add: read_counts_def)
qed simp

lemma no_gauge_events:
  assumes "\<forall>p \<in> set ms. PName p \<noteq> ''biz_inflight_value''"
  shows "deferred oob reg (memq_store ms evs) req = deferred_from_events reg (memq_store ms evs) req"
proof -
  have "fold_err (read_gauges oob reg (memq_store ms evs) win) flts (lg, False, i) = Inr (lg, False, i)" for flts lg i win
    using no_gauge_series [OF assms] by (induction flts) (simp_all add: read_gauges_def)
  moreover obtain lg1 saw where "fold_err (read_counts oob reg (memq_store ms evs) (Window req)) (inflight_filters req)
      (new_deferred_leg\<lparr>OldestAgeMinutes := oldest_minutes (- 1)\<rparr>, False) = Inr (lg1, saw)"
    using counts_read by (metis surj_pair)
  moreover have "CMetrics (capabilities (memq_store ms evs))" "CEvents (capabilities (memq_store ms evs))"
    by (simp_all add: memq_store_def memq_querier_def with_caps_def default_caps_def)
  ultimately show ?thesis by (simp add: deferred_def deferred_from_gauge_def fill_deferred_counts_def)
qed

text \<open>C3: without gauge series the deferred leg is exactly the backlog of the event store. An item is a
  (flow, stage, currency, entity) with a deferred event inside the flow's lookback, unresolved: no
  terminal event of its entity at the same or a later stage, no deferral at a later stage. Each item
  counts once, at its largest deferred amount, in the age bucket its oldest deferred event has under
  the tracker's own bucket rule; sums per bucket and currency, the count and the number of breached
  items are those of the open items.\<close>

theorem deferred_leg_exact:
  assumes "list_all clean_event evs" "\<forall>p \<in> set ms. PName p \<noteq> ''biz_inflight_value''"
  shows "\<exists>lg. deferred oob reg (memq_store ms evs) req = Inr lg \<and> leg_of_store reg evs req lg"
  unfolding no_gauge_events [OF assms(2)]
  by (rule event_backend.events_leg_exact [OF store_backend assms(1)])

definition deferred_outcome :: "time \<Rightarrow> outcome" where
  "deferred_outcome t = (example_outcome [])\<lparr>At := t, Result := ''deferred''\<rparr>"

theorem deferred_leg_exact_witness:
  "open_value None [deferred_outcome 5] demo_request (\<lambda>k. es_currency k = ''USD'') mod 2 ^ 64 = 4200"
proof -
  have "outcome_validate (deferred_outcome 5) = None" by code_simp
  then have clean: "list_all clean_event [deferred_outcome 5]" using validated_clean by simp
  have e: "map_sum id (\<lambda>lg. map_get 0 (ByCurrency lg) ''USD'')
      (deferred (\<lambda>_. 0) None (memq_store [] [deferred_outcome 5]) demo_request) = Inr 4200" by code_simp
  obtain lg where lg: "deferred (\<lambda>_. 0) None (memq_store [] [deferred_outcome 5]) demo_request = Inr lg"
      "leg_of_store None [deferred_outcome 5] demo_request lg"
    using deferred_leg_exact [OF clean, of "[]" "\<lambda>_. 0" None demo_request] by auto
  then have "map_get 0 (ByCurrency lg) ''USD''
      = word_of_int (open_value None [deferred_outcome 5] demo_request (\<lambda>k. es_currency k = ''USD''))"
    unfolding leg_of_store_def Let_def by blast
  with e lg(1) have "(word_of_int (open_value None [deferred_outcome 5] demo_request (\<lambda>k. es_currency k = ''USD'')) :: i64) = word_of_int 4200"
    by simp
  then show ?thesis by (simp only: word_of_int_eq_iff) (simp add: take_bit_eq_mod)
qed

text \<open>an SLA breach is never over-attributed: when the leg counts a bucket as past the deadline of its
  stage, every age that falls in the bucket, down to its floor, is at least the deadline; and an
  older item is never in a younger bucket.\<close>

theorem breach_is_real:
  assumes "breached reg flow stage (age_bucket_for age)" "0 \<le> age"
  shows "\<exists>s. sla_of reg flow stage = Some s \<and> SLADeadline s \<le> age
     \<and> (\<forall>older \<ge> age. bucket_index (age_bucket_for age) \<le> bucket_index (age_bucket_for older)
          \<and> breached reg flow stage (age_bucket_for older))"
proof -
  obtain s v where s: "sla_of reg flow stage = Some s"
    and v: "map_of age_bucket_floor_minutes (age_bucket_for age) = Some v" "SLADeadline s \<le> sint v * minute"
    using assms(1) by (auto simp: breached_def split: option.splits)
  have "SLADeadline s \<le> age" using floor_of_bucket [OF v(1) assms(2)] v(2) by simp
  moreover have "breached reg flow stage (age_bucket_for older)" if "age \<le> older" for older
    using s v that assms(2)
    by (auto simp: breached_def age_bucket_for_def age_defs age_bucket_floor_minutes_def duration_units split: if_splits)
  ultimately show ?thesis using s bucket_index_mono by blast
qed

definition sla_registry :: registry where
  "sla_registry = demo_registry\<lparr>flows := [(''checkout'', zero_flow\<lparr>FlowName := ''checkout'',
     SLAs := [(''auth'', \<lparr>SLADeadline = 90 * second, OnBreach = ''lost''\<rparr>)]\<rparr>)]\<rparr>"

theorem breach_is_real_witness:
  "\<exists>s. sla_of sla_registry ''checkout'' ''auth'' = Some s \<and> SLADeadline s \<le> 6 * minute"
proof -
  have "breached sla_registry ''checkout'' ''auth'' (age_bucket_for (6 * minute))" by code_simp
  moreover have "0 \<le> 6 * minute" by (simp add: minute_def second_def)
  ultimately show ?thesis using breach_is_real by blast
qed

end
