(* ===== verification/Float_Order.thy ===== *)
theory Float_Order
  imports Float64
begin

text \<open>
  The order of \<open>sort.Float64s\<close> on \<open>float64\<close> as an instance of the library's linear orders (so that
  \<^const>\<open>sort\<close> is Go's sort: NaN first, then by value), rounding as a projection, and the
  monotonicity of the arithmetic on values the modelled code adds up.
\<close>

section \<open>The total order of sorting\<close>

instantiation f64 :: linorder
begin

definition less_f64 :: "f64 \<Rightarrow> f64 \<Rightarrow> bool" where
  "less_f64 a b \<longleftrightarrow> fless a b \<or> (a = NaN \<and> b \<noteq> NaN)"

definition less_eq_f64 :: "f64 \<Rightarrow> f64 \<Rightarrow> bool" where
  "less_eq_f64 a b \<longleftrightarrow> a = NaN \<or> fle a b"

instance
proof
  fix x y z :: f64
  show "(x < y) = (x \<le> y \<and> \<not> y \<le> x)" by (cases x; cases y) (auto simp: less_f64_def less_eq_f64_def)
  show "x \<le> x" by (cases x) (simp_all add: less_eq_f64_def)
  show "x \<le> y \<Longrightarrow> y \<le> z \<Longrightarrow> x \<le> z" by (cases x; cases y; cases z) (auto simp: less_eq_f64_def)
  show "x \<le> y \<Longrightarrow> y \<le> x \<Longrightarrow> x = y" by (cases x; cases y) (auto simp: less_eq_f64_def)
  show "x \<le> y \<or> y \<le> x" by (cases x; cases y) (auto simp: less_eq_f64_def)
qed

end

lemma Fin_le_iff [simp]: "Fin x \<le> Fin y \<longleftrightarrow> x \<le> y"
  by (simp add: less_eq_f64_def)

lemma Fin_less_iff [simp]: "Fin x < Fin y \<longleftrightarrow> x < y"
  by (simp add: less_f64_def)

section \<open>Rounding is a projection\<close>

lemma rnd_pos_zero_or_pos: "0 < x \<Longrightarrow> rnd_pos x = 0 \<or> 0 < rnd_pos x"
  using rnd_pos_nonneg [of x] by (auto simp: order_le_less)

lemma rnd_pos_idem:
  assumes x: "0 < x" and pos: "0 < rnd_pos x"
  shows "rnd_pos (rnd_pos x) = rnd_pos x"
proof -
  define l where "l = ilog2 x"
  define y where "y = rnd_pos x"
  define n where "n = near_even (x / pow2 (grid_exp x))"
  have y: "y = of_int n * pow2 (grid_exp x)" by (simp add: y_def n_def rnd_pos_def)
  have xb: "pow2 l \<le> x" "x < pow2 (l + 1)" using ilog2_bounds [OF x] by (simp_all add: l_def)
  have yb: "pow2 (ilog2 y) \<le> y" "y < pow2 (ilog2 y + 1)" using ilog2_bounds [of y] pos by (simp_all add: y_def)
  show ?thesis
  proof (cases "l - 52 < - 1074")
    case True
    then have g: "grid_exp x = - 1074" by (simp add: grid_exp_def l_def)
    have "x \<le> pow2 (- 1022)" using xb(2) pow2_mono [of "l + 1" "- 1022"] True by linarith
    moreover have "pow2 (52 + - 1074) = of_int (2 ^ 52) * pow2 (- 1074)" unfolding pow2_add by (simp add: pow2_int)
    ultimately have "x \<le> of_int (2 ^ 52) * pow2 (grid_exp x)" by (simp add: g)
    then have "y \<le> of_int (2 ^ 52) * pow2 (grid_exp x)" unfolding y_def by (rule rnd_pos_le)
    also have "\<dots> = pow2 (52 + - 1074)" unfolding pow2_add g by (simp add: pow2_int)
    finally have "y < pow2 (- 1022 + 1)" using pow2_less [of "- 1022" "- 1021"] by simp
    with yb(1) have "ilog2 y \<le> - 1022" by (rule pow2_le_imp)
    then have "grid_exp y = grid_exp x" by (simp add: g) (simp add: grid_exp_def)
    then show ?thesis using rnd_pos_exact [of y n] y by (simp add: y_def)
  next
    case False
    then have g: "grid_exp x = l - 52" by (simp add: grid_exp_def l_def)
    have p: "pow2 k = of_int (2 ^ nat (k - (l - 52))) * pow2 (grid_exp x)" if "l - 52 \<le> k" for k
    proof -
      have "pow2 (k - (l - 52) + (l - 52)) = of_int (2 ^ nat (k - (l - 52))) * pow2 (l - 52)"
        unfolding pow2_add using that by (simp add: pow2_int)
      then show ?thesis by (simp add: g)
    qed
    have lo: "pow2 l \<le> y"
      using rnd_pos_ge [of "2 ^ 52" x] xb(1) p [of l] by (simp add: y_def)
    have "x \<le> of_int (2 ^ nat (l + 1 - (l - 52))) * pow2 (grid_exp x)"
      using xb(2) p [of "l + 1"] by simp
    then have "y \<le> of_int (2 ^ nat (l + 1 - (l - 52))) * pow2 (grid_exp x)" unfolding y_def by (rule rnd_pos_le)
    then have hi: "y \<le> pow2 (l + 1)" using p [of "l + 1"] by simp
    show ?thesis
    proof (cases "y = pow2 (l + 1)")
      case True
      then show ?thesis using rnd_pow2 [of "l + 1"] False pow2_pos [of "l + 1"]
        by (simp add: y_def rnd_def)
    next
      case neq: False
      then have "ilog2 y = l" using lo hi by (intro ilog2_eq) auto
      then have "grid_exp y = grid_exp x" by (simp add: grid_exp_def l_def)
      then show ?thesis using rnd_pos_exact [of y n] y by (simp add: y_def)
    qed
  qed
qed

lemma rnd_idem [simp]: "rnd (rnd x) = rnd x"
proof -
  have p: "rnd (rnd_pos x) = rnd_pos x" if "0 < x" for x
    using rnd_pos_zero_or_pos [OF that] rnd_pos_idem [OF that] by (auto simp: rnd_def)
  consider "x = 0" | "0 < x" | "x < 0" by linarith
  then show ?thesis
  proof cases
    case 3
    then have "rnd (- rnd_pos (- x)) = - rnd_pos (- x)" using p [of "- x"] by (simp add: rnd_uminus)
    then show ?thesis using 3 by (simp add: rnd_def)
  qed (use p in \<open>simp_all add: rnd_def\<close>)
qed

section \<open>Amounts\<close>

text \<open>A float that is a non-negative number of at most \<open>2^k\<close>; every float the hardware can hold
  is its own rounding.\<close>

definition amount_upto :: "int \<Rightarrow> f64 \<Rightarrow> bool" where
  "amount_upto k f \<longleftrightarrow> (\<exists>x. f = Fin x \<and> 0 \<le> x \<and> x \<le> pow2 k \<and> rnd x = x)"

lemma amount_uptoE:
  assumes "amount_upto k f"
  obtains x where "f = Fin x" "0 \<le> x" "x \<le> pow2 k" "rnd x = x"
  using assms by (auto simp: amount_upto_def)

lemma to_f64_amount:
  assumes "0 \<le> x" "x \<le> pow2 k" "- 1022 \<le> k" "k \<le> 1023"
  shows "to_f64 x = Fin (rnd x)" "amount_upto k (to_f64 x)"
proof -
  have r: "0 \<le> rnd x" "rnd x \<le> pow2 k" using rnd_nonneg [OF assms(1)] rnd_mono [OF assms(2)] rnd_pow2 [of k] assms by simp_all
  have "x \<le> 2 ^ 1023" using assms(2) pow2_mono [OF assms(4)] by (simp add: pow2_def)
  then show "to_f64 x = Fin (rnd x)" using assms(1) by (intro to_f64_small) simp
  then show "amount_upto k (to_f64 x)" using r by (simp add: amount_upto_def)
qed

lemma to_f64_rnd: "rnd x = x \<Longrightarrow> \<bar>x\<bar> \<le> 2 ^ 1023 \<Longrightarrow> to_f64 x = Fin x"
  using to_f64_small [of x] by simp

section \<open>Sums of non-negative numbers\<close>

definition nonneg :: "f64 \<Rightarrow> bool" where
  "nonneg f \<longleftrightarrow> fle (Fin 0) f"

lemma nonneg_cases: "nonneg f \<longleftrightarrow> f = PInf \<or> (\<exists>x. f = Fin x \<and> 0 \<le> x)"
  by (cases f) (auto simp: nonneg_def)

lemma amount_nonneg: "amount_upto k f \<Longrightarrow> nonneg f"
  by (auto simp: amount_upto_def nonneg_def)

lemma to_f64_nonneg: "0 \<le> x \<Longrightarrow> nonneg (to_f64 x)"
  using to_f64_mono [of 0 x] by (simp add: nonneg_def to_f64_def)

lemma fadd_nonneg: "nonneg a \<Longrightarrow> nonneg b \<Longrightarrow> nonneg (fadd a b)"
  by (auto simp: nonneg_cases [of a] nonneg_cases [of b] to_f64_nonneg) (simp_all add: nonneg_def)

lemma to_f64_le_PInf: "0 \<le> x \<Longrightarrow> fle (to_f64 x) PInf"
  using to_f64_nonneg [of x] by (auto simp: nonneg_cases)

lemma fadd_mono:
  assumes "nonneg a" "fle a b" "nonneg c" "fle c d"
  shows "fle (fadd a c) (fadd b d)"
  using assms by (cases a; cases b; cases c; cases d) (auto simp: nonneg_def to_f64_mono intro!: to_f64_le_PInf)

lemma round_away_mono: "x \<le> y \<Longrightarrow> round_away x \<le> round_away y"
proof -
  assume le: "x \<le> y"
  consider "0 \<le> x" | "x < 0" "0 \<le> y" | "y < 0" by linarith
  then show ?thesis
  proof cases
    case 1
    then show ?thesis using le floor_mono [of "x + 1 / 2" "y + 1 / 2"] by (simp add: round_away_def)
  next
    case 2
    then have "0 \<le> \<lfloor>y + 1 / 2\<rfloor>" "0 \<le> \<lfloor>- x + 1 / 2\<rfloor>" by simp_all
    then have "- \<lfloor>- x + 1 / 2\<rfloor> \<le> \<lfloor>y + 1 / 2\<rfloor>" by linarith
    then show ?thesis using 2 by (simp only: round_away_def) simp
  next
    case 3
    then show ?thesis using le floor_mono [of "- y + 1 / 2" "- x + 1 / 2"] by (simp add: round_away_def)
  qed
qed

lemma fround_mono: "fle a b \<Longrightarrow> fle (fround a) (fround b)"
  by (cases a; cases b) (simp_all add: round_away_mono)

text \<open>An ordered pair of non-negative numbers converts to an ordered pair of integers, when the
  larger one is in range.\<close>

lemma to_i64_round:
  assumes "nonneg a" "fle a b" "fless (fround b) (Fin (2 ^ 63))"
  shows "0 \<le> sint (to_i64 oob (fround a))" "sint (to_i64 oob (fround a)) \<le> sint (to_i64 oob (fround b))"
proof -
  from assms obtain x y where xy: "a = Fin x" "b = Fin y" "0 \<le> x" "x \<le> y"
    by (cases a; cases b) (auto simp: nonneg_def)
  have m: "0 \<le> round_away x" "round_away x \<le> round_away y"
    using round_away_mono [of 0 x] round_away_mono [of x y] xy by (simp_all add: round_away_def)
  have "(of_int (round_away y) :: rat) < of_int (2 ^ 63)" using assms(3) xy(2) by simp
  then have u: "round_away y < 2 ^ 63" by (simp only: of_int_less_iff)
  have c: "sint (to_i64 oob (fround (Fin z))) = round_away z" if "0 \<le> round_away z" "round_away z < 2 ^ 63" for z
    using that by (simp add: to_i64_def in_i64_def sint_of_int_i64)
  show "0 \<le> sint (to_i64 oob (fround a))" "sint (to_i64 oob (fround a)) \<le> sint (to_i64 oob (fround b))"
    using c [of x] c [of y] m u xy by simp_all
qed

end
