(* ===== verification/Baseline.thy ===== *)
theory Baseline
  imports Float_Order Query
begin

text \<open>
  \<open>engine/baseline/baseline.go\<close>: the expected count of an hour, the median of the same hour of the
  week over the lookback, with a band of two robust standard deviations around it. Times are UTC,
  the zone the engine and the backends use.
\<close>

section \<open>Samples and expectations\<close>

record sample =
  SmAt :: time
  SmCount :: f64

record expectation =
  ExAt :: time
  ExExpected :: f64
  ExLower :: f64
  ExUpper :: f64
  ExN :: nat

text \<open>The holiday predicate is \<open>None\<close> when the field is nil.\<close>

record baseline_config =
  CfgWeeks :: int
  CfgHoliday :: "(time \<Rightarrow> bool) option"

definition hours_per_week :: nat where "hours_per_week = 168"

definition day :: duration where "day = 24 * hour"

text \<open>\<open>Time.Weekday\<close> (Sunday is 0; the Unix epoch was a Thursday), \<open>Time.Hour\<close>, and \<open>AddDate\<close> by days.\<close>

definition weekday :: "time \<Rightarrow> int" where "weekday t = (t div day + 4) mod 7"
definition hour_of_day :: "time \<Rightarrow> int" where "hour_of_day t = (t mod day) div hour"
definition add_days :: "time \<Rightarrow> int \<Rightarrow> time" where "add_days t n = t + n * day"

definition hour_of_week :: "time \<Rightarrow> nat" where
  "hour_of_week t = nat (((weekday t + 6) mod 7) * 24 + hour_of_day t)"

section \<open>Robust statistics\<close>

definition median :: "f64 list \<Rightarrow> f64" where
  "median xs =
     (let s = sort xs; n = length s
      in if n mod 2 = 1 then s ! (n div 2) else fdiv (fadd (s ! (n div 2 - 1)) (s ! (n div 2))) (Fin 2))"

definition mad :: "f64 list \<Rightarrow> f64 \<Rightarrow> f64" where
  "mad xs med = median (map (\<lambda>x. let d = fsub x med in if fless d (Fin 0) then fneg d else d) xs)"

text \<open>The product of the two constants is exact in Go and rounded once.\<close>

definition mad_to_std_dev :: rat where "mad_to_std_dev = 14826 / 10000"
definition interval_sigma :: rat where "interval_sigma = 2"

definition band :: "f64 list \<Rightarrow> f64 \<Rightarrow> f64" where
  "band b med = fmul (to_f64 (interval_sigma * mad_to_std_dev)) (mad b med)"

section \<open>The baseline\<close>

definition earliest :: "time list \<Rightarrow> time" where
  "earliest target = fold (\<lambda>t e. if t < e then t else e) (tl target) (hd target)"

definition add_sample :: "time \<Rightarrow> time \<Rightarrow> (time \<Rightarrow> bool) option \<Rightarrow> sample \<Rightarrow> f64 list list \<Rightarrow> f64 list list" where
  "add_sample cutoff first holiday s buckets =
     (if SmAt s < cutoff \<or> \<not> SmAt s < first then buckets
      else if (case holiday of Some h \<Rightarrow> h (SmAt s) | None \<Rightarrow> False) then buckets
      else (let h = hour_of_week (SmAt s) in buckets[h := buckets ! h @ [SmCount s]]))"

definition expect_at :: "f64 list list \<Rightarrow> time \<Rightarrow> expectation" where
  "expect_at buckets t =
     (let b = buckets ! hour_of_week t in
      if b = [] then \<lparr>ExAt = t, ExExpected = Fin 0, ExLower = Fin 0, ExUpper = Fin 0, ExN = 0\<rparr>
      else
        (let med = median b; w = band b med; low = fsub med w
         in \<lparr>ExAt = t, ExExpected = med, ExLower = (if fless low (Fin 0) then Fin 0 else low),
             ExUpper = fadd med w, ExN = length b\<rparr>))"

definition fill_buckets :: "sample list \<Rightarrow> time list \<Rightarrow> baseline_config \<Rightarrow> f64 list list" where
  "fill_buckets history target cfg =
     (let first = earliest target; cutoff = add_days first (- 7 * CfgWeeks cfg)
      in fold (add_sample cutoff first (CfgHoliday cfg)) history (replicate hours_per_week []))"

definition expected :: "sample list \<Rightarrow> time list \<Rightarrow> baseline_config \<Rightarrow> string + expectation list" where
  "expected history target cfg =
     (if CfgWeeks cfg < 1
      then Inl (''baseline: lookback_weeks '' @ format_int (CfgWeeks cfg) @ '' must be >= 1'')
      else if target = [] then Inr []
      else Inr (map (expect_at (fill_buckets history target cfg)) target))"

section \<open>The hour of the week\<close>

lemma hour_pos [simp]: "0 < hour"
  by (simp add: hour_def minute_def second_def)

lemma hour_nonzero [simp]: "hour \<noteq> 0"
  using hour_pos by linarith

lemma hour_of_week_mod: "int (hour_of_week t) = (t div hour + 72) mod 168"
proof -
  define h where "h = t div hour"
  have day: "day = hour * 24" "0 < hour" by (simp_all add: day_def hour_pos)
  have d: "t div day = h div 24" by (simp add: h_def day zdiv_zmult2_eq)
  have "t mod day = hour * (h mod 24) + t mod hour" by (simp add: h_def day(1) zmod_zmult2_eq)
  then have hd: "hour_of_day t = h mod 24" by (simp add: hour_of_day_def div_mult_self4)
  have "int (hour_of_week t) = ((h div 24 + 4) mod 7 + 6) mod 7 * 24 + h mod 24"
    using hd by (simp add: hour_of_week_def weekday_def d)
  also have "((h div 24 + 4) mod 7 + 6) mod 7 = (h div 24 + 10) mod 7" by (simp add: mod_simps add.commute)
  also have "(h div 24 + 10) mod 7 = (h div 24 + 3) mod 7" using mod_add_self2 [of "h div 24 + 3" 7] by (simp add: add.commute)
  also have "(h div 24 + 3) mod 7 * 24 + h mod 24 = 24 * ((h + 72) div 24 mod 7) + (h + 72) mod 24"
    using div_mult_self1 [of 24 h 3] mod_mult_self1 [of h 3 24] by (simp add: add.commute)
  also have "\<dots> = (h + 72) mod 168" using zmod_zmult2_eq [of 7 "h + 72" 24] by simp
  finally show ?thesis by (simp add: h_def)
qed

lemma hour_of_week_less [simp]: "hour_of_week t < hours_per_week"
proof -
  have "int (hour_of_week t) < 168" by (simp add: hour_of_week_mod)
  then show ?thesis by (simp add: hours_per_week_def)
qed

lemma hour_of_week_week: "hour_of_week (t + k * (7 * day)) = hour_of_week t"
proof -
  have "t + k * (7 * day) = t + (168 * k) * hour" by (simp add: day_def)
  then have "(t + k * (7 * day)) div hour = t div hour + 168 * k" by (simp only: div_mult_self1 [OF hour_nonzero] add.commute)
  then have "int (hour_of_week (t + k * (7 * day))) = ((t div hour + 72) + 168 * k) mod 168"
    by (simp add: hour_of_week_mod add.commute add.left_commute)
  also have "\<dots> = int (hour_of_week t)" by (simp only: mod_mult_self2 hour_of_week_mod)
  finally show ?thesis by simp
qed

section \<open>The buckets\<close>

text \<open>The samples of the lookback that are no holiday.\<close>

definition in_lookback :: "time list \<Rightarrow> baseline_config \<Rightarrow> sample \<Rightarrow> bool" where
  "in_lookback target cfg s \<longleftrightarrow>
     add_days (earliest target) (- 7 * CfgWeeks cfg) \<le> SmAt s \<and> SmAt s < earliest target
     \<and> (case CfgHoliday cfg of Some h \<Rightarrow> \<not> h (SmAt s) | None \<Rightarrow> True)"

definition basis :: "sample list \<Rightarrow> time list \<Rightarrow> baseline_config \<Rightarrow> time \<Rightarrow> f64 list" where
  "basis history target cfg t =
     map SmCount [s \<leftarrow> history. in_lookback target cfg s \<and> hour_of_week (SmAt s) = hour_of_week t]"

lemma add_sample_length [simp]: "length (add_sample c f h s b) = length b"
  by (simp add: add_sample_def Let_def)

lemma buckets_nth:
  assumes "h < length b"
  shows "fold (add_sample c f hol) history b ! h
    = b ! h @ map SmCount [s \<leftarrow> history. \<not> SmAt s < c \<and> SmAt s < f
        \<and> (case hol of Some p \<Rightarrow> \<not> p (SmAt s) | None \<Rightarrow> True) \<and> hour_of_week (SmAt s) = h]"
  using assms
proof (induction history arbitrary: b)
  case Nil
  then show ?case by simp
next
  case (Cons s history)
  show ?case using Cons.prems Cons.IH [of "add_sample c f hol s b"]
    by (auto simp: add_sample_def Let_def nth_list_update split: option.splits)
qed

lemma buckets_basis: "fill_buckets history target cfg ! hour_of_week t = basis history target cfg t"
  unfolding fill_buckets_def Let_def
  by (subst buckets_nth) (simp_all add: basis_def in_lookback_def not_less conj_assoc)

lemma earliest_Min: "target \<noteq> [] \<Longrightarrow> earliest target = Min (set target)"
proof -
  assume ne: "target \<noteq> []"
  have "(\<lambda>t e :: int. if t < e then t else e) = min" by (intro ext) (simp add: min_def)
  then have "earliest target = fold min (tl target) (hd target)" by (simp add: earliest_def)
  also have "\<dots> = Min (set target)" using ne Min.set_eq_fold [of "hd target" "tl target"] by simp
  finally show ?thesis .
qed

section \<open>The median\<close>

lemma rnd_double:
  assumes "rnd x = x" "0 \<le> x"
  shows "rnd (2 * x) = 2 * x"
proof (cases "x = 0")
  case False
  then have x: "0 < x" using assms(2) by simp
  define l where "l = ilog2 x"
  define n where "n = near_even (x / pow2 (grid_exp x))"
  have xn: "x = of_int n * pow2 (grid_exp x)" using assms(1) x by (simp add: rnd_def rnd_pos_def n_def)
  have "pow2 (l + 1) = 2 * pow2 l" "pow2 (l + 1 + 1) = 2 * pow2 (l + 1)"
    by (simp_all only: pow2_add) (simp_all add: pow2_def)
  then have l2: "ilog2 (2 * x) = l + 1" using ilog2_bounds [OF x] by (intro ilog2_eq) (simp_all add: l_def)
  have g: "grid_exp (2 * x) \<le> grid_exp x + 1" unfolding grid_exp_def l2 l_def [symmetric] by linarith
  have "pow2 (grid_exp x) * 2 = pow2 (grid_exp x + 1)" by (simp only: pow2_add) (simp add: pow2_def)
  also have "\<dots> = pow2 ((grid_exp x + 1 - grid_exp (2 * x)) + grid_exp (2 * x))" by simp
  also have "\<dots> = of_int (2 ^ nat (grid_exp x + 1 - grid_exp (2 * x))) * pow2 (grid_exp (2 * x))"
    unfolding pow2_add using g by (simp add: pow2_int)
  finally have "2 * x = of_int (n * 2 ^ nat (grid_exp x + 1 - grid_exp (2 * x))) * pow2 (grid_exp (2 * x))"
    by (subst xn) simp
  from rnd_pos_exact [OF this] show ?thesis using x by (simp add: rnd_def)
qed simp

text \<open>The rounded mean of two amounts is between them.\<close>

lemma mean_between:
  assumes "amount_upto k a" "amount_upto k b" "a \<le> b" "- 1022 \<le> k" "k < 1023"
  shows "amount_upto k (fdiv (fadd a b) (Fin 2)) \<and> a \<le> fdiv (fadd a b) (Fin 2) \<and> fdiv (fadd a b) (Fin 2) \<le> b"
proof -
  from assms obtain x y where xy: "a = Fin x" "b = Fin y" "0 \<le> x" "y \<le> pow2 k" "rnd x = x" "rnd y = y" "x \<le> y"
    by (auto simp: amount_upto_def)
  have kk: "pow2 (k + 1) = 2 * pow2 k" by (simp only: pow2_add) (simp add: pow2_def)
  have s: "fadd a b = Fin (rnd (x + y))"
    using to_f64_amount [of "x + y" "k + 1"] xy assms kk by simp
  have "2 * x \<le> rnd (x + y)" using rnd_mono [of "2 * x" "x + y"] rnd_double [OF xy(5)] xy by simp
  moreover have "rnd (x + y) \<le> 2 * y" using rnd_mono [of "x + y" "2 * y"] rnd_double [OF xy(6)] xy by simp
  ultimately have "rnd x \<le> rnd (rnd (x + y) / 2)" "rnd (rnd (x + y) / 2) \<le> rnd y" by (auto intro!: rnd_mono)
  moreover have "to_f64 (rnd (x + y) / 2) = Fin (rnd (rnd (x + y) / 2))" "amount_upto k (to_f64 (rnd (x + y) / 2))"
    using \<open>rnd (x + y) \<le> 2 * y\<close> xy assms rnd_nonneg [of "x + y"]
    by (auto intro!: to_f64_amount [of _ k])
  ultimately show ?thesis using xy s by simp
qed

abbreviation amounts_upto :: "int \<Rightarrow> f64 list \<Rightarrow> bool" where
  "amounts_upto k \<equiv> list_all (amount_upto k)"

lemma median_mid:
  assumes "amounts_upto k xs" "xs \<noteq> []" "- 1022 \<le> k" "k < 1023"
  shows "amount_upto k (median xs) \<and> sort xs ! ((length xs - 1) div 2) \<le> median xs \<and> median xs \<le> sort xs ! (length xs div 2)"
proof -
  let ?n = "length xs"
  have el: "amount_upto k (sort xs ! i)" if "i < ?n" for i
    using assms(1) that nth_mem [of i "sort xs"] by (simp add: list_all_iff)
  show ?thesis
  proof (cases "?n mod 2 = 1")
    case True
    then have "(?n - 1) div 2 = ?n div 2" by presburger
    moreover have "?n div 2 < ?n" using assms(2) by simp
    ultimately show ?thesis using True el by (simp add: median_def Let_def)
  next
    case False
    then have e: "(?n - 1) div 2 = ?n div 2 - 1" "?n div 2 - 1 < ?n div 2" using assms(2) by (cases xs; simp; presburger)+
    have n: "?n div 2 < ?n" using assms(2) by simp
    have "sort xs ! (?n div 2 - 1) \<le> sort xs ! (?n div 2)"
      using e n by (intro sorted_nth_mono) simp_all
    then have "amount_upto k (fdiv (fadd (sort xs ! (?n div 2 - 1)) (sort xs ! (?n div 2))) (Fin 2))
        \<and> sort xs ! (?n div 2 - 1) \<le> fdiv (fadd (sort xs ! (?n div 2 - 1)) (sort xs ! (?n div 2))) (Fin 2)
        \<and> fdiv (fadd (sort xs ! (?n div 2 - 1)) (sort xs ! (?n div 2))) (Fin 2) \<le> sort xs ! (?n div 2)"
      using assms e n by (intro mean_between el) simp_all
    then show ?thesis using False e(1) by (simp add: median_def Let_def)
  qed
qed

text \<open>At most half of the numbers are below the median and at most half above it.\<close>

lemma count_filter_sort: "length (filter P (sort xs)) = length (filter P xs)"
  by (simp add: filter_sort)

lemma filter_index_bound:
  assumes "\<And>i. i < length ys \<Longrightarrow> P (ys ! i) \<Longrightarrow> i < m"
  shows "length (filter P ys) \<le> m"
proof -
  have "length (filter P ys) = card {i. i < length ys \<and> P (ys ! i)}" by (rule length_filter_conv_card)
  also have "\<dots> \<le> card {..<m}" using assms by (intro card_mono) auto
  finally show ?thesis by simp
qed

definition is_median :: "f64 \<Rightarrow> f64 list \<Rightarrow> bool" where
  "is_median m xs \<longleftrightarrow> 2 * length (filter (\<lambda>x. x < m) xs) \<le> length xs \<and> 2 * length (filter (\<lambda>x. m < x) xs) \<le> length xs"

lemma median_is_median:
  assumes "amounts_upto k xs" "xs \<noteq> []" "- 1022 \<le> k" "k < 1023"
  shows "is_median (median xs) xs"
proof -
  let ?s = "sort xs"
  let ?n = "length xs"
  note m = median_mid [OF assms]
  have "length (filter (\<lambda>x. x < median xs) ?s) \<le> ?n div 2"
  proof (rule filter_index_bound)
    fix i assume i: "i < length ?s" "?s ! i < median xs"
    then have "?s ! i < ?s ! (?n div 2)" using m by (meson order_less_le_trans)
    then show "i < ?n div 2" using i sorted_nth_mono [of ?s "?n div 2" i] by (metis leD leI sorted_sort)
  qed
  moreover have "length (filter (\<lambda>x. median xs < x) ?s) \<le> ?n div 2"
  proof -
    have len: "(?n - 1) div 2 < length ?s" using assms(2) by (cases xs) auto
    have "(?n - 1) div 2 < i" if i: "i < length ?s" "median xs < ?s ! i" for i
    proof -
      have "?s ! ((?n - 1) div 2) < ?s ! i" using m i by (meson order_le_less_trans)
      then show ?thesis using i sorted_nth_mono [of ?s i "(?n - 1) div 2"] len by (metis leD leI sorted_sort)
    qed
    then have "length (filter (\<lambda>x. median xs < x) ?s) \<le> card {Suc ((?n - 1) div 2) ..< ?n}"
      unfolding length_filter_conv_card by (intro card_mono) (auto simp: Suc_le_eq)
    also have "\<dots> = ?n - Suc ((?n - 1) div 2)" by simp
    also have "\<dots> \<le> ?n div 2" by presburger
    finally show ?thesis .
  qed
  ultimately show ?thesis unfolding is_median_def count_filter_sort by linarith
qed

section \<open>The band\<close>

lemma amount_dev:
  assumes "amount_upto k x" "amount_upto k m" "- 1022 \<le> k" "k \<le> 1023"
  shows "amount_upto k (let d = fsub x m in if fless d (Fin 0) then fneg d else d)"
proof -
  from assms obtain a b where ab: "x = Fin a" "m = Fin b" "0 \<le> a" "a \<le> pow2 k" "0 \<le> b" "b \<le> pow2 k"
    by (auto simp: amount_upto_def)
  have abs: "\<bar>a - b\<bar> \<le> pow2 k" using ab by linarith
  then have r: "\<bar>rnd (a - b)\<bar> \<le> pow2 k" using assms(3) by (intro rnd_abs_le) simp_all
  have "\<bar>a - b\<bar> \<le> 2 ^ 1023" using abs pow2_mono [OF assms(4)] by (simp add: pow2_def)
  then have "fsub x m = Fin (rnd (a - b))" by (simp add: fsub_def ab to_f64_small)
  moreover have "rnd (- rnd (a - b)) = - rnd (a - b)" by (simp add: rnd_uminus)
  ultimately show ?thesis using r by (auto simp: amount_upto_def Let_def)
qed

lemma mad_amount:
  assumes "amounts_upto k xs" "xs \<noteq> []" "amount_upto k m" "- 1022 \<le> k" "k < 1023"
  shows "amount_upto k (mad xs m)"
  unfolding mad_def
  using assms amount_dev [of k _ m] by (intro median_mid [THEN conjunct1]) (auto simp: list_all_iff)

lemma band_amount:
  assumes "amounts_upto k b" "b \<noteq> []" "amount_upto k m" "- 1022 \<le> k" "k < 1020"
  shows "amount_upto (k + 2) (band b m)"
proof -
  obtain x where x: "mad b m = Fin x" "0 \<le> x" "x \<le> pow2 k"
    using mad_amount [of k b m] assms by (auto simp: amount_upto_def)
  have c: "amount_upto 2 (to_f64 (interval_sigma * mad_to_std_dev))"
    by (rule to_f64_amount) (simp_all add: interval_sigma_def mad_to_std_dev_def pow2_def)
  then obtain c where c: "to_f64 (interval_sigma * mad_to_std_dev) = Fin c" "0 \<le> c" "c \<le> pow2 2"
    by (auto simp: amount_upto_def)
  have "c * x \<le> pow2 2 * pow2 k" using c x by (intro mult_mono) simp_all
  then have "c * x \<le> pow2 (k + 2)" by (simp only: pow2_add mult.commute)
  then show ?thesis using c x assms by (auto simp: band_def intro!: to_f64_amount)
qed

text \<open>An expectation that is a range of amounts around its middle.\<close>

definition ordered_band :: "int \<Rightarrow> expectation \<Rightarrow> bool" where
  "ordered_band k e \<longleftrightarrow>
     amount_upto k (ExLower e) \<and> amount_upto k (ExExpected e) \<and> amount_upto k (ExUpper e)
     \<and> fle (ExLower e) (ExExpected e) \<and> fle (ExExpected e) (ExUpper e)"

lemma amount_mono: "amount_upto j f \<Longrightarrow> j \<le> k \<Longrightarrow> amount_upto k f"
  using pow2_mono [of j k] by (auto simp: amount_upto_def)

lemma expect_at_band:
  assumes b: "amounts_upto k (buckets ! hour_of_week t)" "- 1022 \<le> k" "k < 1019"
  shows "ordered_band (k + 3) (expect_at buckets t)"
proof (cases "buckets ! hour_of_week t = []")
  case True
  then show ?thesis by (simp add: expect_at_def ordered_band_def amount_upto_def)
next
  case False
  let ?b = "buckets ! hour_of_week t"
  have m: "amount_upto k (median ?b)" using median_mid [OF b(1) False] assms by simp
  have w: "amount_upto (k + 2) (band ?b (median ?b))" using band_amount [OF b(1) False m] assms by simp
  from m obtain x where x: "median ?b = Fin x" "0 \<le> x" "x \<le> pow2 k" "rnd x = x" by (auto simp: amount_upto_def)
  from w obtain y where y: "band ?b (median ?b) = Fin y" "0 \<le> y" "y \<le> pow2 (k + 2)" by (auto simp: amount_upto_def)
  have p: "pow2 (k + 2) = 4 * pow2 k" "pow2 (k + 3) = 8 * pow2 k"
    by (simp_all only: pow2_add) (simp_all add: pow2_def)
  have big: "pow2 (k + 3) \<le> 2 ^ 1023" using pow2_mono [of "k + 3" 1023] assms by (simp add: pow2_def)
  have "\<bar>x - y\<bar> \<le> 2 ^ 1023" using x y p big by linarith
  then have lo: "fsub (median ?b) (band ?b (median ?b)) = Fin (rnd (x - y))" by (simp add: x(1) y(1) [unfolded x(1)] fsub_def to_f64_small)
  have lx: "rnd (x - y) \<le> x" using rnd_mono [of "x - y" x] x y by simp
  have "x + y \<le> pow2 (k + 3)" using x y p by linarith
  then have up: "fadd (median ?b) (band ?b (median ?b)) = Fin (rnd (x + y))" "amount_upto (k + 3) (Fin (rnd (x + y)))"
    using to_f64_amount [of "x + y" "k + 3"] x y assms by simp_all
  have ux: "x \<le> rnd (x + y)" using rnd_mono [of x "x + y"] x y by simp
  have m3: "amount_upto (k + 3) (Fin x)" using amount_mono [OF m, of "k + 3"] x(1) by simp
  have l3: "amount_upto (k + 3) (if rnd (x - y) < 0 then Fin 0 else Fin (rnd (x - y)))"
    using lx m3 by (auto simp: amount_upto_def)
  show ?thesis
    using False lo up x ux m3 l3 lx by (auto simp: expect_at_def Let_def ordered_band_def)
qed

section \<open>The contract of a baseline\<close>

text \<open>The interface \<open>Baseline\<close> and what its comment promises the leg that uses it.\<close>

locale baseline_source =
  fixes expect :: "sample list \<Rightarrow> time list \<Rightarrow> baseline_config \<Rightarrow> string + expectation list"
  assumes total: "1 \<le> CfgWeeks cfg \<Longrightarrow> \<exists>es. expect h tgt cfg = Inr es"
    and in_order: "expect h tgt cfg = Inr es \<Longrightarrow> map ExAt es = tgt"
    and banded: "expect h tgt cfg = Inr es \<Longrightarrow> e \<in> set es \<Longrightarrow> amounts_upto k (map SmCount h)
      \<Longrightarrow> - 1022 \<le> k \<Longrightarrow> k < 1019 \<Longrightarrow> ordered_band (k + 3) e"
    and lookback_only: "filter (in_lookback tgt cfg) h = filter (in_lookback tgt cfg) h'
      \<Longrightarrow> expect h tgt cfg = expect h' tgt cfg"
begin

lemma one_per_target: "expect h tgt cfg = Inr es \<Longrightarrow> length es = length tgt"
  using in_order [THEN arg_cong [where f = length]] by simp

lemma older_samples_ignored:
  assumes "\<forall>s \<in> set old. \<not> in_lookback tgt cfg s"
  shows "expect (old @ h) tgt cfg = expect h tgt cfg"
  using assms by (intro lookback_only) simp

end

lemma amounts_filter: "amounts_upto k (map SmCount h) \<Longrightarrow> amounts_upto k (map SmCount (filter P h))"
  by (simp add: list_all_iff)

lemma expected_Inr:
  assumes "expected h tgt cfg = Inr es" "e \<in> set es"
  obtains t bs where "t \<in> set tgt" "bs ! hour_of_week t = basis h tgt cfg t" "e = expect_at bs t"
proof -
  from assms obtain t where "t \<in> set tgt" "e = expect_at (fill_buckets h tgt cfg) t"
    by (auto simp: expected_def split: if_splits)
  then show thesis using that buckets_basis by blast
qed

lemma expected_basis:
  assumes "\<And>t. basis h tgt cfg t = basis h' tgt cfg t"
  shows "expected h tgt cfg = expected h' tgt cfg"
proof -
  have "expect_at bs t = expect_at bs' t" if "bs ! hour_of_week t = bs' ! hour_of_week t" for bs bs' t
    using that by (simp add: expect_at_def)
  then show ?thesis using assms buckets_basis by (simp add: expected_def)
qed

interpretation hour_of_week_baseline: baseline_source expected
proof
  show "1 \<le> CfgWeeks cfg \<Longrightarrow> \<exists>es. expected h tgt cfg = Inr es" for cfg h tgt
    by (simp add: expected_def Let_def)
  show "expected h tgt cfg = Inr es \<Longrightarrow> map ExAt es = tgt" for cfg h tgt es
    by (auto simp: expected_def expect_at_def Let_def intro!: nth_equalityI split: if_splits)
  show "ordered_band (k + 3) e"
    if "expected h tgt cfg = Inr es" "e \<in> set es" "amounts_upto k (map SmCount h)" "- 1022 \<le> k" "k < 1019"
    for cfg h tgt es e k
    using that(1,2)
  proof (rule expected_Inr)
    fix t bs assume b: "bs ! hour_of_week t = basis h tgt cfg t" "e = expect_at bs t"
    show ?thesis unfolding b(2)
      by (rule expect_at_band) (use that amounts_filter in \<open>simp_all add: b(1) basis_def\<close>)
  qed
  show "expected h tgt cfg = expected h' tgt cfg"
    if "filter (in_lookback tgt cfg) h = filter (in_lookback tgt cfg) h'" for cfg tgt h h'
  proof (rule expected_basis)
    fix t
    have "basis h tgt cfg t = map SmCount (filter (\<lambda>s. hour_of_week (SmAt s) = hour_of_week t) (filter (in_lookback tgt cfg) h))" for h
      by (simp add: basis_def conj_commute)
    then show "basis h tgt cfg t = basis h' tgt cfg t" by (simp only: that)
  qed
qed

section \<open>Properties\<close>

text \<open>The median lies in every range that holds more than half of the amounts.\<close>

lemma median_majority:
  assumes b: "amounts_upto k b" "- 1022 \<le> k" "k < 1019"
    and more: "length b < 2 * length (filter (\<lambda>x. lo \<le> x \<and> x \<le> hi) b)"
  shows "lo \<le> median b \<and> median b \<le> hi"
proof -
  have "is_median (median b) b" using more b(2,3) by (intro median_is_median [OF b(1)]) auto
  then have m: "2 * length (filter (\<lambda>x. x < median b) b) \<le> length b" "2 * length (filter (\<lambda>x. median b < x) b) \<le> length b"
    by (simp_all add: is_median_def)
  have f: "length (filter P b) \<le> length (filter Q b)" if "\<And>x. P x \<Longrightarrow> Q x" for P Q
    using that by (induction b) auto
  have "lo \<le> median b"
  proof (rule ccontr)
    assume "\<not> lo \<le> median b"
    then have "length (filter (\<lambda>x. lo \<le> x \<and> x \<le> hi) b) \<le> length (filter (\<lambda>x. median b < x) b)"
      by (intro f) auto
    then show False using m more by linarith
  qed
  moreover have "median b \<le> hi"
  proof (rule ccontr)
    assume "\<not> median b \<le> hi"
    then have "length (filter (\<lambda>x. lo \<le> x \<and> x \<le> hi) b) \<le> length (filter (\<lambda>x. x < median b) b)"
      by (intro f) auto
    then show False using m more by linarith
  qed
  ultimately show ?thesis ..
qed

text \<open>C31: the baseline of an hour is robust: it is computed from the samples of the same hour of the
  week inside the lookback only, its band is ordered around it, and whenever more than half of those
  samples lie between two values the expected count does too, however extreme the others are.\<close>

theorem baseline_robust:
  assumes weeks: "1 \<le> CfgWeeks cfg" and amounts: "amounts_upto k (map SmCount history)" "- 1022 \<le> k" "k < 1019"
  shows "\<exists>es. expected history target cfg = Inr es \<and> map ExAt es = target
    \<and> (\<forall>e \<in> set es. ExN e = length (basis history target cfg (ExAt e)) \<and> ordered_band (k + 3) e
        \<and> (\<forall>lo hi. length (basis history target cfg (ExAt e))
                    < 2 * length (filter (\<lambda>x. lo \<le> x \<and> x \<le> hi) (basis history target cfg (ExAt e)))
             \<longrightarrow> lo \<le> ExExpected e \<and> ExExpected e \<le> hi))"
proof -
  obtain es where es: "expected history target cfg = Inr es"
    using hour_of_week_baseline.total [OF weeks] by blast
  have "ExN e = length (basis history target cfg (ExAt e))
      \<and> (basis history target cfg (ExAt e) \<noteq> [] \<longrightarrow> ExExpected e = median (basis history target cfg (ExAt e)))"
    if "e \<in> set es" for e
    using es that by (rule expected_Inr) (simp add: expect_at_def Let_def)
  then have ex: "ExN e = length (basis history target cfg (ExAt e))"
      "basis history target cfg (ExAt e) \<noteq> [] \<Longrightarrow> ExExpected e = median (basis history target cfg (ExAt e))"
    if "e \<in> set es" for e using that by simp_all
  have am: "amounts_upto k (basis history target cfg t)" for t
    unfolding basis_def by (rule amounts_filter [OF amounts(1)])
  have "lo \<le> ExExpected e \<and> ExExpected e \<le> hi"
    if "e \<in> set es" and more: "length (basis history target cfg (ExAt e))
      < 2 * length (filter (\<lambda>x. lo \<le> x \<and> x \<le> hi) (basis history target cfg (ExAt e)))" for e lo hi
  proof -
    have "basis history target cfg (ExAt e) \<noteq> []" using more by auto
    then show ?thesis using median_majority [OF am amounts(2,3) more] ex(2) [OF that(1)] by simp
  qed
  then have "\<forall>e \<in> set es. ExN e = length (basis history target cfg (ExAt e)) \<and> ordered_band (k + 3) e
        \<and> (\<forall>lo hi. length (basis history target cfg (ExAt e))
                    < 2 * length (filter (\<lambda>x. lo \<le> x \<and> x \<le> hi) (basis history target cfg (ExAt e)))
             \<longrightarrow> lo \<le> ExExpected e \<and> ExExpected e \<le> hi)"
    using hour_of_week_baseline.banded [OF es _ amounts] ex(1) by blast
  then show ?thesis using es hour_of_week_baseline.in_order [OF es] by blast
qed

definition spike :: "sample list" where
  "spike = [\<lparr>SmAt = 345600000000000, SmCount = Fin 100\<rparr>, \<lparr>SmAt = 345600000000000 + 7 * day, SmCount = Fin 100\<rparr>,
     \<lparr>SmAt = 345600000000000 + 14 * day, SmCount = Fin 99999\<rparr>]"

theorem baseline_robust_witness:
  "\<exists>es. expected spike [345600000000000 + 28 * day] \<lparr>CfgWeeks = 8, CfgHoliday = None\<rparr> = Inr es
     \<and> (\<forall>e \<in> set es. ExExpected e = Fin 100)"
proof -
  let ?t = "[345600000000000 + 28 * day]"
  let ?c = "\<lparr>CfgWeeks = 8, CfgHoliday = None\<rparr>"
  have r: "rnd 100 = 100" "rnd 99999 = 99999" using rnd_int [of 100] rnd_int [of 99999] by simp_all
  have a: "amounts_upto 20 (map SmCount spike)" by (simp add: spike_def amount_upto_def pow2_def r)
  have w: "hour_of_week (345600000000000 + k * (7 * day)) = hour_of_week 345600000000000" for k
    by (rule hour_of_week_week)
  have b: "basis spike ?t ?c (345600000000000 + 28 * day) = [Fin 100, Fin 100, Fin 99999]"
    using w [of 4] w [of 1] w [of 2]
    by (simp add: basis_def spike_def in_lookback_def earliest_def add_days_def day_def hour_def minute_def second_def)
  obtain es where es: "expected spike ?t ?c = Inr es" "map ExAt es = ?t"
      "\<forall>e \<in> set es. \<forall>lo hi. length (basis spike ?t ?c (ExAt e)) < 2 * length (filter (\<lambda>x. lo \<le> x \<and> x \<le> hi) (basis spike ?t ?c (ExAt e)))
             \<longrightarrow> lo \<le> ExExpected e \<and> ExExpected e \<le> hi"
    using baseline_robust [of ?c 20 spike ?t] a by auto
  have "ExExpected e = Fin 100" if "e \<in> set es" for e
  proof -
    have at: "ExAt e = 345600000000000 + 28 * day" using that es(2) by (auto dest: arg_cong [where f = set])
    have "Fin 100 \<le> ExExpected e \<and> ExExpected e \<le> Fin 100"
      using es(3) [rule_format, OF that, of "Fin 100" "Fin 100"] by (simp add: at b)
    then show ?thesis by (simp add: antisym)
  qed
  then show ?thesis using es(1) by blast
qed

end
