(* ===== verification/Engine_Unrealized.thy ===== *)
theory Engine_Unrealized
  imports Engine_Realized Baseline
begin

text \<open>
  \<open>engine/unrealized.go\<close>: the counterfactual loss of transactions that never arrived, as a range
  per currency: for every incident hour the shortfall against the baseline's lower, middle and upper
  expectation, valued at the average order and net of the assumed recovery.
\<close>

section \<open>Text\<close>

text \<open>\<open>%.0f\<close> of a finite number: to the nearest integer, ties to even.\<close>

definition format_f0 :: "f64 \<Rightarrow> string" where
  "format_f0 f =
     (case f of Fin x \<Rightarrow> format_int (near_even x) | PInf \<Rightarrow> ''+Inf'' | NInf \<Rightarrow> ''-Inf'' | NaN \<Rightarrow> ''NaN'')"

definition in_flow :: "string \<Rightarrow> string" where
  "in_flow name = ''flow '' @ quoted name"

definition in_currency :: "string \<Rightarrow> string \<Rightarrow> string" where
  "in_currency name currency = in_flow name @ '' currency '' @ currency"

section \<open>Hours\<close>

definition truncate_hour :: "time \<Rightarrow> time" where
  "truncate_hour t = t - t mod hour"

definition hour_key :: "time \<Rightarrow> int" where
  "hour_key t = time_unix (truncate_hour t)"

text \<open>The loop \<open>for t := start; t.Before(w.To); t = t.Add(time.Hour)\<close>.\<close>

function hours_from :: "time \<Rightarrow> time \<Rightarrow> time list" where
  "hours_from t until = (if t < until then t # hours_from (t + hour) until else [])"
  by auto

termination hours_from
  by (relation "measure (\<lambda>(t, until). nat (until - t))") auto

declare hours_from.simps [simp del]

definition hourly_instants :: "time_range \<Rightarrow> time list" where
  "hourly_instants w =
     (let start = truncate_hour (From w);
          start = (if start < From w then start + hour else start)
      in hours_from start (To w))"

section \<open>Counts and values\<close>

definition hour_map :: "sample list \<Rightarrow> (int, f64) gomap" where
  "hour_map samples =
     fold (\<lambda>s m. map_put (hour_key (SmAt s)) (fadd (map_get (Fin 0) m (hour_key (SmAt s))) (SmCount s)) m) samples []"

definition shortfall_value :: "f64 \<Rightarrow> f64 \<Rightarrow> i64 \<Rightarrow> f64 \<Rightarrow> f64" where
  "shortfall_value expected_count observed aov recovery =
     (let short = fsub expected_count observed in
      if fle short (Fin 0) then Fin 0
      else fmul (fmul short (of_i64 aov)) (fsub (Fin 1) recovery))"

definition clamp_fraction :: "f64 \<Rightarrow> f64" where
  "clamp_fraction f =
     (if f = NaN then Fin 0 else if fless f (Fin 0) then Fin 0 else if fless (Fin 1) f then Fin 1 else f)"

definition add_entries :: "series_slice \<Rightarrow> (string, sample list) gomap \<Rightarrow> (string, sample list) gomap" where
  "add_entries s out =
     (let cur = map_get [] (SLabels s) ''currency'' in
      fold (\<lambda>p out. map_put cur (map_get [] out cur @ [\<lparr>SmAt = PtAt p, SmCount = PtValue p\<rparr>]) out) (SPoints s) out)"

definition hourly_entries_by_currency ::
  "querier \<Rightarrow> string \<Rightarrow> string \<Rightarrow> time_range \<Rightarrow> query_error + (string, sample list) gomap" where
  "hourly_entries_by_currency q name entry_stage r =
     (case query_metric q \<lparr>Metric = ''biz_txn_total'', QAgg = agg_sum,
          QFilters = [(''flow'', name), (''stage'', entry_stage)], QGroupBy = [''currency''], QRange = r, QStep = hour\<rparr> of
        Inl e \<Rightarrow> Inl e
      | Inr series \<Rightarrow> Inr (fold add_entries series []))"

definition sum_metric :: "querier \<Rightarrow> string \<Rightarrow> labels \<Rightarrow> time_range \<Rightarrow> f64" where
  "sum_metric q metric filters win =
     (case query_metric q (metric_query_zero\<lparr>Metric := metric, QAgg := agg_sum, QFilters := filters, QRange := win\<rparr>) of
        Inl e \<Rightarrow> Fin 0
      | Inr series \<Rightarrow> fold (\<lambda>s total. fold (\<lambda>p total. fadd total (PtValue p)) (SPoints s) total) series (Fin 0))"

section \<open>The average order value\<close>

definition flow_allows_currency :: "flow \<Rightarrow> string \<Rightarrow> bool" where
  "flow_allows_currency f currency \<longleftrightarrow> Currencies f = [] \<or> currency \<in> set (Currencies f)"

definition aov_filters :: "string \<Rightarrow> string \<Rightarrow> flow \<Rightarrow> labels" where
  "aov_filters name currency f =
     (let filters = [(''flow'', name), (''outcome'', ''success''), (''currency'', currency)] in
      if value_stage f \<noteq> [] then map_put ''stage'' (value_stage f) filters else filters)"

definition aov_from_events :: "(f64 \<Rightarrow> i64) \<Rightarrow> event_group list \<Rightarrow> i64 option" where
  "aov_from_events oob groups =
     (let total = sum_i64 (map GSum groups); n = sum_i64 (map GCount groups) in
      if 0 < sint n then Some (to_i64 oob (fround (fdiv (of_i64 total) (of_i64 n)))) else None)"

definition aov_from_metrics :: "(f64 \<Rightarrow> i64) \<Rightarrow> querier \<Rightarrow> labels \<Rightarrow> time_range \<Rightarrow> i64 option" where
  "aov_from_metrics oob q filters win =
     (let v = sum_metric q ''biz_value_total'' filters win; n = sum_metric q ''biz_txn_total'' filters win in
      if fless (Fin 0) n \<and> fless (Fin 0) v then Some (to_i64 oob (fround (fdiv v n))) else None)"

text \<open>The value, its source, a warning and whether there is one.\<close>

definition aov_minor ::
  "(f64 \<Rightarrow> i64) \<Rightarrow> querier \<Rightarrow> string \<Rightarrow> string \<Rightarrow> flow \<Rightarrow> time_range \<Rightarrow> i64 \<times> string \<times> string \<times> bool" where
  "aov_minor oob q name currency f win =
     (let filters = aov_filters name currency f;
          (events, warn) =
            (if CEvents (capabilities q) then
               (case query_events q (event_query_zero\<lparr>ERange := win, EFilters := filters\<rparr>) of
                  Inl e \<Rightarrow> (None, in_currency name currency @ '': AOV events query failed ('' @ error_text e
                     @ ''); fell back to the value counter'')
                | Inr groups \<Rightarrow> (aov_from_events oob groups, []))
             else (None, []))
      in case events of
           Some v \<Rightarrow> (v, ''events'', warn, True)
         | None \<Rightarrow>
             (case (if CMetrics (capabilities q) then aov_from_metrics oob q filters win else None) of
                Some v \<Rightarrow> (v, ''metric'', warn, True)
              | None \<Rightarrow>
                  (let (m, ok) = estimate_money f [] currency in
                   if ok \<and> flow_allows_currency f currency then (Amount m, ''estimator'', warn, True)
                   else (0, [], warn, False))))"

section \<open>One currency\<close>

record valuation =
  v_low :: f64
  v_mid :: f64
  v_high :: f64
  v_valued :: bool
  v_thin :: bool

definition value_hour :: "(int, f64) gomap \<Rightarrow> i64 \<Rightarrow> f64 \<Rightarrow> time \<times> expectation \<Rightarrow> valuation \<Rightarrow> valuation" where
  "value_hour observed aov recovery te v =
     (let (t, e) = te in
      if ExN e = 0 then v\<lparr>v_thin := True\<rparr>
      else
        (let o' = map_get (Fin 0) observed (hour_key t)
         in v\<lparr>v_valued := True,
              v_low := fadd (v_low v) (shortfall_value (ExLower e) o' aov recovery),
              v_mid := fadd (v_mid v) (shortfall_value (ExExpected e) o' aov recovery),
              v_high := fadd (v_high v) (shortfall_value (ExUpper e) o' aov recovery)\<rparr>))"

definition value_hours :: "time list \<Rightarrow> expectation list \<Rightarrow> (int, f64) gomap \<Rightarrow> i64 \<Rightarrow> f64 \<Rightarrow> valuation" where
  "value_hours target es observed aov recovery =
     fold (value_hour observed aov recovery) (zip target es)
       \<lparr>v_low = Fin 0, v_mid = Fin 0, v_high = Fin 0, v_valued = False, v_thin = False\<rparr>"

text \<open>The variables of the loops over flows and currencies.\<close>

record est_state =
  es_leg :: est_leg
  es_notes :: "string list"
  es_thin :: bool
  es_sized :: bool

definition add_note :: "string \<Rightarrow> est_state \<Rightarrow> est_state" where
  "add_note n st = st\<lparr>es_notes := es_notes st @ [n]\<rparr>"

definition add_range :: "(f64 \<Rightarrow> i64) \<Rightarrow> string \<Rightarrow> valuation \<Rightarrow> est_leg \<Rightarrow> est_leg" where
  "add_range oob currency v lg =
     lg\<lparr>LowMinor := map_add currency (to_i64 oob (fround (v_low v))) (LowMinor lg),
        MidMinor := map_add currency (to_i64 oob (fround (v_mid v))) (MidMinor lg),
        HighMinor := map_add currency (to_i64 oob (fround (v_high v))) (HighMinor lg)\<rparr>"

definition size_valuation :: "(f64 \<Rightarrow> i64) \<Rightarrow> string \<Rightarrow> string \<Rightarrow> valuation \<Rightarrow> est_state \<Rightarrow> est_state" where
  "size_valuation oob name currency v st =
     (let st = st\<lparr>es_thin := es_thin st \<or> v_thin v, es_sized := es_sized st \<or> v_valued v\<rparr> in
      if \<not> v_valued v
      then add_note (in_currency name currency @ '': no baseline history for any incident hour '' @ dash @ '' not valued'') st
      else st\<lparr>es_leg := add_range oob currency v (es_leg st)\<rparr>)"

definition size_currency ::
  "(f64 \<Rightarrow> i64) \<Rightarrow> querier \<Rightarrow> time_range \<Rightarrow> time list \<Rightarrow> string \<Rightarrow> flow \<Rightarrow> (string, sample list) gomap
     \<Rightarrow> string \<times> sample list \<Rightarrow> est_state \<Rightarrow> string + est_state" where
  "size_currency oob q win target name f obs entry st =
     (let (currency, history) = entry in
      case expected history target \<lparr>CfgWeeks = LookbackWeeks (BaselineOf f), CfgHoliday = None\<rparr> of
        Inl e \<Rightarrow> Inl (''engine: unrealized baseline: '' @ e)
      | Inr es \<Rightarrow>
          (let (aov, source, warn, ok) = aov_minor oob q name currency f win;
               st = (if warn \<noteq> [] then add_note warn st else st)
           in if \<not> ok
              then Inr (add_note (in_currency name currency
                     @ '': no observed AOV and no applicable registry estimator '' @ dash @ '' not valued'') st)
              else
                (let st = (if source = ''metric'' \<and> EstimatorOf f \<noteq> None
                           then add_note (in_currency name currency @ '': AOV from the value counter may understate '' @ dash
                             @ '' this flow emits estimated successes the counter omits, and no event source was available to correct it'') st
                           else st)
                 in Inr (size_valuation oob name currency
                      (value_hours target es (hour_map (map_get [] obs currency)) aov
                        (clamp_fraction (RecoveredFraction (RecoveryOf f)))) st))))"

section \<open>One flow\<close>

definition retention_note :: "string \<Rightarrow> int \<Rightarrow> int \<Rightarrow> string" where
  "retention_note name hw weeks =
     in_flow name @ '': RETENTION GAP '' @ dash @ '' the querier serves '' @ format_int hw
       @ '' week(s) of metric history but the baseline needs '' @ format_int weeks
       @ ''; not estimated, to avoid a counterfactual built from too little history. Point the counterfactual at a longer-retention (e.g. warehouse) querier.''"

definition recovery_note :: "string \<Rightarrow> flow \<Rightarrow> est_state \<Rightarrow> est_state" where
  "recovery_note name f st =
     (let r = clamp_fraction (RecoveredFraction (RecoveryOf f)) in
      if fless (Fin 0) r
      then add_note (in_flow name @ '': net of an assumed '' @ format_f0 (fmul r (Fin 100)) @ ''% recovery of suppressed demand'') st
      else if Model (RecoveryOf f) = []
      then add_note (in_flow name @ '' declares no recovery model '' @ dash
             @ '' nothing is credited back; this is gross suppressed demand (ADR-0020)'') st
      else st)"

text \<open>A flow that passed the checks: its history and its observed counts, then every currency of the
  history.\<close>

definition estimate_flow ::
  "(f64 \<Rightarrow> i64) \<Rightarrow> querier \<Rightarrow> time_range \<Rightarrow> time list \<Rightarrow> string \<Rightarrow> flow \<Rightarrow> est_state \<Rightarrow> string + est_state" where
  "estimate_flow oob q win target name f st =
     (let weeks = LookbackWeeks (BaselineOf f);
          st = (if Holidays (BaselineOf f) \<noteq> []
                then add_note (in_flow name @ '' declares holiday calendar '' @ quoted (Holidays (BaselineOf f))
                       @ '', which v0 does not yet apply'') st
                else st);
          entry_stage = StageName (Stages f ! 0);
          aligned = \<lparr>From = target ! 0, To = target ! (length target - 1) + hour\<rparr>;
          lookback = \<lparr>From = add_days (target ! 0) (- 7 * weeks), To = target ! 0\<rparr>
      in case hourly_entries_by_currency q name entry_stage lookback of
           Inl e \<Rightarrow> Inl (''engine: unrealized history query: '' @ error_text e)
         | Inr hist \<Rightarrow>
             (case hourly_entries_by_currency q name entry_stage aligned of
                Inl e \<Rightarrow> Inl (''engine: unrealized observed query: '' @ error_text e)
              | Inr obs \<Rightarrow>
                  if hist = []
                  then Inr (add_note (in_flow name @ '': no entry-stage history in the '' @ format_int weeks
                         @ ''-week lookback '' @ dash @ '' nothing to fit a baseline against; not sized'') st)
                  else (case fold_err (size_currency oob q win target name f obs) hist st of
                         Inl e \<Rightarrow> Inl e
                       | Inr st \<Rightarrow> Inr (recovery_note name f st))))"

definition size_flow ::
  "(f64 \<Rightarrow> i64) \<Rightarrow> registry \<Rightarrow> querier \<Rightarrow> time_range \<Rightarrow> time list \<Rightarrow> string \<Rightarrow> est_state \<Rightarrow> string + est_state" where
  "size_flow oob reg q win target name st =
     (let (f, ok) = registry_flow reg name;
          weeks = LookbackWeeks (BaselineOf f);
          hw = CMetricWeeks (capabilities q)
      in if \<not> ok \<or> Stages f = []
         then Inr (add_note (in_flow name @ '' not in the registry (or has no stages) '' @ dash @ '' skipped'') st)
         else if weeks < 1
         then Inr (add_note (in_flow name @ '' declares no baseline '' @ dash
                @ '' the counterfactual leg cannot be sized without one; add a baseline block to the registry (ADR-0020)'') st)
         else if 0 < hw \<and> hw < weeks then Inr (add_note (retention_note name hw weeks) st)
         else estimate_flow oob q win target name f st)"

section \<open>The leg\<close>

definition est_zero :: est_leg where
  "est_zero = \<lparr>LowMinor = [], MidMinor = [], HighMinor = [], EstEvidence = evidence_estimate, Notes = [],
     EstUnavailable = False\<rparr>"

definition ungrounded :: "string \<Rightarrow> est_leg" where
  "ungrounded reason = est_zero\<lparr>Notes := [reason], EstUnavailable := True\<rparr>"

definition upstream_attribution :: "(f64 \<Rightarrow> i64) \<Rightarrow> querier \<Rightarrow> request \<Rightarrow> string" where
  "upstream_attribution oob q req =
     (let failed = sum_metric q ''biz_provider_calls_total'' [(''outcome'', ''failed'')] (Window req) in
      if fle failed (Fin 0) then []
      else ''attribution hint: '' @ format_int (sint (to_i64 oob failed))
             @ '' failed provider call(s) in the window '' @ dash @ '' suppression may be upstream'')"

definition finish_estimate :: "(f64 \<Rightarrow> i64) \<Rightarrow> querier \<Rightarrow> request \<Rightarrow> est_state \<Rightarrow> est_leg" where
  "finish_estimate oob q req st =
     (let lg = (if es_sized st then es_leg st
                else (es_leg st)\<lparr>EstUnavailable := True, LowMinor := [], MidMinor := [], HighMinor := []\<rparr>);
          st = (if es_thin st
                then add_note (''some incident hours had no baseline history (retention gap) and were excluded '' @ dash
                       @ '' see the coverage/retention note'') st
                else st);
          hint = upstream_attribution oob q req;
          st = (if hint \<noteq> [] then add_note hint st else st)
      in lg\<lparr>Notes := es_notes st\<rparr>)"

definition unrealized :: "(f64 \<Rightarrow> i64) \<Rightarrow> registry option \<Rightarrow> querier \<Rightarrow> request \<Rightarrow> string + est_leg" where
  "unrealized oob reg q req =
     (case reg of
        None \<Rightarrow> Inr (ungrounded (''unavailable: the counterfactual leg needs a registry (the flow'' @ CHR 0x27 # ''s stages and baseline lookback)''))
      | Some reg \<Rightarrow>
          if \<not> CMetrics (capabilities q)
          then Inr (ungrounded ''unavailable: the counterfactual leg needs a metric source for stage-entry history'')
          else
            (let target = hourly_instants (Window req) in
             if target = []
             then Inr (ungrounded (''window shorter than one hour '' @ dash @ '' no counterfactual estimate''))
             else if Flows req = []
             then Inr (ungrounded (''no flow named in the request '' @ dash
                    @ '' the counterfactual leg needs per-flow baseline configuration''))
             else
               (case fold_err (size_flow oob reg q (Window req) target) (Flows req)
                       \<lparr>es_leg = est_zero, es_notes = [], es_thin = False, es_sized = False\<rparr> of
                  Inl e \<Rightarrow> Inl e
                | Inr st \<Rightarrow> Inr (finish_estimate oob q req st))))"

section \<open>The hours of a window\<close>

lemma hours_from_set:
  "set (hours_from t until) = {s. t \<le> s \<and> s < until \<and> hour dvd s - t}"
proof (induction t until rule: hours_from.induct)
  case (1 t until)
  have step: "s = t \<or> t + hour \<le> s" if "t \<le> s" "hour dvd s - t" for s
  proof -
    from that(2) obtain k where k: "s - t = hour * k" ..
    then have "0 \<le> k" using that(1) mult_pos_neg [of hour k] by (cases "k < 0") simp_all
    show ?thesis
    proof (cases "k = 0")
      case False
      then have "hour * 1 \<le> hour * k" using \<open>0 \<le> k\<close> by (intro mult_left_mono) (simp_all add: less_imp_le)
      then show ?thesis using k by linarith
    qed (use k in simp)
  qed
  have dvd: "hour dvd s - (t + hour) \<longleftrightarrow> hour dvd s - t" for s
    using dvd_add_left_iff [of hour hour "s - (t + hour)"] by (simp add: algebra_simps)
  show ?case
  proof (cases "t < until")
    case True
    have "set (hours_from t until) = insert t {s. t + hour \<le> s \<and> s < until \<and> hour dvd s - t}"
      using 1 True by (subst hours_from.simps) (simp add: dvd)
    also have "\<dots> = {s. t \<le> s \<and> s < until \<and> hour dvd s - t}"
    proof -
      have "t \<le> x" if "t + hour \<le> x" for x using that hour_pos by linarith
      then show ?thesis using True step by auto
    qed
    finally show ?thesis .
  next
    case False
    then show ?thesis by (subst hours_from.simps) auto
  qed
qed

lemma hours_from_sorted: "sorted_wrt (<) (hours_from t until)"
proof (induction t until rule: hours_from.induct)
  case (1 t until)
  have "t < s" if "s \<in> set (hours_from (t + hour) until)" for s
    using that hour_pos unfolding hours_from_set by (elim CollectE conjE) linarith
  then show ?case using 1 by (subst hours_from.simps) simp
qed

text \<open>the loop over the hours of a window ends for every window, and visits exactly the full hours
  inside it, each once and in order.\<close>

theorem hourly_instants_exact:
  "set (hourly_instants w) = {t. in_range t w \<and> t mod hour = 0} \<and> sorted_wrt (<) (hourly_instants w)"
proof -
  let ?s = "truncate_hour (From w)"
  define start where "start = (if ?s < From w then ?s + hour else ?s)"
  have m: "0 \<le> From w mod hour" "From w mod hour < hour" by simp_all
  have z: "?s mod hour = 0" by (simp add: truncate_hour_def mod_diff_eq [symmetric])
  then have z': "start mod hour = 0" by (simp add: start_def mod_add_eq [symmetric])
  have "start \<le> s \<longleftrightarrow> From w \<le> s" if "s mod hour = 0" for s
  proof
    assume "start \<le> s"
    moreover have "From w < ?s + hour" unfolding truncate_hour_def using m by linarith
    then have "From w \<le> start" by (simp add: start_def)
    ultimately show "From w \<le> s" by linarith
  next
    assume le: "From w \<le> s"
    show "start \<le> s"
    proof (cases "?s < From w")
      case True
      have "?s \<le> s" unfolding truncate_hour_def using le m by linarith
      moreover have "?s \<noteq> s" using True le by auto
      moreover have "hour dvd s - ?s" using that z by (simp add: mod_eq_dvd_iff flip: mod_eq_dvd_iff)
      ultimately have "?s + hour \<le> s" using zdvd_imp_le [of hour "s - ?s"] by simp
      then show ?thesis using True by (simp add: start_def)
    next
      case False
      moreover have "?s \<le> From w" unfolding truncate_hour_def using m by linarith
      ultimately show ?thesis using le by (simp add: start_def)
    qed
  qed
  moreover have "hour dvd s - start \<longleftrightarrow> s mod hour = 0" for s
    using z' by (metis diff_zero dvd_eq_mod_eq_0 mod_diff_right_eq)
  ultimately have "set (hours_from start (To w)) = {t. in_range t w \<and> t mod hour = 0}"
    unfolding hours_from_set by (auto simp: in_range_def)
  moreover have "hourly_instants w = hours_from start (To w)" by (simp add: hourly_instants_def start_def Let_def)
  ultimately show ?thesis by (simp add: hours_from_sorted)
qed

section \<open>Values are ordered\<close>

lemma clamp_fraction_Fin: "\<exists>r. clamp_fraction f = Fin r \<and> 0 \<le> r \<and> r \<le> 1"
  by (cases f) (auto simp: clamp_fraction_def)

lemma fmul_amount:
  assumes "amount_upto j a" "amount_upto k b" "- 1022 \<le> j + k" "j + k \<le> 1023"
  shows "amount_upto (j + k) (fmul a b)"
proof -
  from assms obtain x y where xy: "a = Fin x" "b = Fin y" "0 \<le> x" "x \<le> pow2 j" "0 \<le> y" "y \<le> pow2 k"
    by (auto simp: amount_upto_def)
  have "x * y \<le> pow2 (j + k)" unfolding pow2_add using xy by (intro mult_mono) simp_all
  then show ?thesis using xy assms by (auto intro!: to_f64_amount)
qed

lemma fmul_mono: "fle (Fin x) (Fin y) \<Longrightarrow> amount_upto k b \<Longrightarrow> fle (fmul (Fin x) b) (fmul (Fin y) b)"
  by (auto simp: amount_upto_def intro!: to_f64_mono mult_right_mono)

lemma of_i64_amount: "0 \<le> sint v \<Longrightarrow> amount_upto 63 (of_i64 v)"
proof -
  assume "0 \<le> sint v"
  then have "(0 :: rat) \<le> of_int (sint v)" by (simp only: of_int_0_le_iff)
  moreover have "sint v \<le> 2 ^ 63" using sint_i64_bounds [of v] by simp
  then have "(of_int (sint v) :: rat) \<le> of_int (2 ^ 63)" by (simp only: of_int_le_iff)
  then have "of_int (sint v) \<le> pow2 63" by (simp add: pow2_def del: of_int_sint)
  ultimately show ?thesis unfolding of_i64_def by (intro to_f64_amount) simp_all
qed

text \<open>The value of a shortfall of entries, from the shortfall on.\<close>

definition worth :: "i64 \<Rightarrow> f64 \<Rightarrow> f64 \<Rightarrow> f64" where
  "worth aov recovery short = fmul (fmul short (of_i64 aov)) (fsub (Fin 1) recovery)"

lemma net_amount: "0 \<le> r \<Longrightarrow> r \<le> 1 \<Longrightarrow> amount_upto 0 (fsub (Fin 1) (Fin r))"
  using to_f64_amount [of "1 - r" 0] by (simp add: fsub_def pow2_def)

lemma worth_amount:
  assumes "amount_upto k u" "0 \<le> sint aov" "0 \<le> r" "r \<le> 1" "0 \<le> k" "k \<le> 960"
  shows "amount_upto (k + 63) (worth aov (Fin r) u)"
  using fmul_amount [OF fmul_amount [OF assms(1) of_i64_amount [OF assms(2)]] net_amount [OF assms(3,4)]] assms
  by (simp add: worth_def)

lemma worth_mono:
  assumes "fle u u'" "amount_upto k u" "amount_upto k u'" "0 \<le> sint aov" "0 \<le> r" "r \<le> 1" "0 \<le> k" "k \<le> 960"
  shows "fle (worth aov (Fin r) u) (worth aov (Fin r) u')"
proof -
  have a: "amount_upto (k + 63) (fmul u (of_i64 aov))" "amount_upto (k + 63) (fmul u' (of_i64 aov))"
    using fmul_amount of_i64_amount assms by simp_all
  have "fle (fmul u (of_i64 aov)) (fmul u' (of_i64 aov))"
    using assms(1-3) fmul_mono [OF _ of_i64_amount [OF assms(4)]] by (auto simp: amount_upto_def)
  then show ?thesis
    using a fmul_mono [OF _ net_amount [OF assms(5,6)]] by (auto simp: worth_def amount_upto_def)
qed

text \<open>The shortfall of an hour, never negative.\<close>

definition shortage :: "f64 \<Rightarrow> f64 \<Rightarrow> f64" where
  "shortage e o' = (if fle (fsub e o') (Fin 0) then Fin 0 else fsub e o')"

lemma shortfall_worth:
  assumes "0 \<le> r" "r \<le> 1" "0 \<le> sint aov"
  shows "shortfall_value e o' aov (Fin r) = worth aov (Fin r) (shortage e o')"
proof -
  have zero: "fmul (Fin 0) b = Fin 0" if "amount_upto k b" for b k
    using that by (auto simp: amount_upto_def to_f64_def)
  show ?thesis
    using zero [OF of_i64_amount [OF assms(3)]] zero [OF net_amount [OF assms(1,2)]]
    by (simp add: shortfall_value_def shortage_def worth_def Let_def)
qed

lemma shortage_amount:
  assumes "amount_upto k e" "nonneg o'" "- 1022 \<le> k" "k \<le> 1023"
  shows "amount_upto k (shortage e o')"
proof -
  from assms(1) obtain x where x: "e = Fin x" "0 \<le> x" "x \<le> pow2 k" by (auto simp: amount_upto_def)
  have z: "amount_upto k (Fin 0)" by (simp add: amount_upto_def)
  from assms(2) consider "o' = PInf" | y where "o' = Fin y" "0 \<le> y" by (auto simp: nonneg_cases)
  then show ?thesis
  proof cases
    case 1
    then show ?thesis using x z by (simp add: shortage_def fsub_def)
  next
    case (2 y)
    show ?thesis
    proof (cases "x - y \<le> 0")
      case True
      then have "fle (to_f64 (x - y)) (Fin 0)" using to_f64_mono [of "x - y" 0] by (simp add: to_f64_def)
      then show ?thesis using 2 x z by (simp add: shortage_def fsub_def)
    next
      case False
      then have "amount_upto k (to_f64 (x - y))" using 2 x assms by (intro to_f64_amount) linarith+
      then show ?thesis using 2 x z by (simp add: shortage_def fsub_def)
    qed
  qed
qed

lemma shortage_mono:
  assumes "fle e e'" "amount_upto k e" "amount_upto k e'" "nonneg o'"
  shows "fle (shortage e o') (shortage e' o')"
proof -
  from assms obtain x y where x: "e = Fin x" "e' = Fin y" "x \<le> y" by (auto simp: amount_upto_def)
  from assms(4) consider "o' = PInf" | z where "o' = Fin z" by (auto simp: nonneg_cases)
  then show ?thesis
  proof cases
    case 1
    then show ?thesis using x by (simp add: shortage_def fsub_def)
  next
    case (2 z)
    have "fle (to_f64 (x - z)) (to_f64 (y - z))" using x by (intro to_f64_mono) simp
    then show ?thesis using x 2
      by (cases "to_f64 (x - z)"; cases "to_f64 (y - z)") (auto simp: shortage_def fsub_def)
  qed
qed

section \<open>The range of one currency\<close>

lemma nonneg_le_trans: "nonneg a \<Longrightarrow> fle a b \<Longrightarrow> nonneg b"
  unfolding nonneg_def by (rule fle_trans)

lemma hour_map_nonneg:
  assumes "\<forall>s \<in> set samples. nonneg (SmCount s)"
  shows "nonneg (map_get (Fin 0) (hour_map samples) k)"
proof -
  have *: "nonneg (map_get (Fin 0) (fold (\<lambda>s m. map_put (hour_key (SmAt s)) (fadd (map_get (Fin 0) m (hour_key (SmAt s))) (SmCount s)) m) xs m) k)"
    if "\<And>k. nonneg (map_get (Fin 0) m k)" "\<forall>s \<in> set xs. nonneg (SmCount s)" for xs m k
    using that by (induction xs arbitrary: m) (simp_all add: fadd_nonneg)
  have "nonneg (Fin 0)" by (simp add: nonneg_def)
  then show ?thesis using * [of "[]" samples k] assms by (simp add: hour_map_def)
qed

definition ordered_valuation :: "valuation \<Rightarrow> bool" where
  "ordered_valuation v \<longleftrightarrow> nonneg (v_low v) \<and> fle (v_low v) (v_mid v) \<and> fle (v_mid v) (v_high v)"

lemma value_hour_ordered:
  assumes v: "ordered_valuation v" and e: "ordered_band k e" and obs: "\<And>h. nonneg (map_get (Fin 0) observed h)"
    and aov: "0 \<le> sint aov" and r: "0 \<le> r" "r \<le> 1" and k: "0 \<le> k" "k \<le> 960"
  shows "ordered_valuation (value_hour observed aov (Fin r) (t, e) v)"
proof -
  let ?o = "map_get (Fin 0) observed (hour_key t)"
  let ?s = "\<lambda>x. shortfall_value x ?o aov (Fin r)"
  have am: "amount_upto k (shortage x ?o)" if "amount_upto k x" for x
    using shortage_amount [OF that obs] k by simp
  have nn: "nonneg (?s x)" if "amount_upto k x" for x
    using amount_nonneg [OF worth_amount [OF am [OF that] aov r k]] by (simp add: shortfall_worth [OF r aov])
  have mono: "fle (?s x) (?s y)" if "fle x y" "amount_upto k x" "amount_upto k y" for x y
    using worth_mono [OF shortage_mono [OF that obs] am [OF that(2)] am [OF that(3)] aov r k]
    by (simp add: shortfall_worth [OF r aov])
  have ex: "amount_upto k (ExLower e)" "amount_upto k (ExExpected e)" "amount_upto k (ExUpper e)"
      "fle (ExLower e) (ExExpected e)" "fle (ExExpected e) (ExUpper e)" using e by (simp_all add: ordered_band_def)
  have vx: "nonneg (v_low v)" "fle (v_low v) (v_mid v)" "fle (v_mid v) (v_high v)"
    using v by (simp_all add: ordered_valuation_def)
  have "nonneg (v_mid v)" using vx by (blast intro: nonneg_le_trans)
  then show ?thesis
    using v ex vx nn [OF ex(1)] nn [OF ex(2)] mono
    by (simp add: value_hour_def Let_def ordered_valuation_def fadd_nonneg fadd_mono)
qed

lemma value_hours_ordered:
  assumes es: "\<forall>e \<in> set es. ordered_band k e" and obs: "\<And>h. nonneg (map_get (Fin 0) observed h)"
    and aov: "0 \<le> sint aov" and r: "0 \<le> r" "r \<le> 1" and k: "0 \<le> k" "k \<le> 960"
  shows "ordered_valuation (value_hours target es observed aov (Fin r))"
proof -
  have "ordered_valuation (fold (value_hour observed aov (Fin r)) tes v)"
    if "ordered_valuation v" "\<forall>te \<in> set tes. ordered_band k (snd te)" for tes v
    using that
  proof (induction tes arbitrary: v)
    case (Cons te tes)
    then show ?case using value_hour_ordered [OF Cons.prems(1) _ obs aov r k, of "snd te" "fst te"] by simp
  qed simp
  moreover have "\<forall>te \<in> set (zip target es). ordered_band k (snd te)" using es by (auto dest: set_zip_rightD)
  ultimately show ?thesis by (simp add: value_hours_def ordered_valuation_def nonneg_def)
qed

context baseline_source
begin

text \<open>Whatever baseline keeps the contract, sizing its expectations gives an ordered range.\<close>

lemma sized_range:
  assumes "expect h tgt cfg = Inr es" "amounts_upto 900 (map SmCount h)"
    and "\<forall>s \<in> set obs. nonneg (SmCount s)" "0 \<le> sint aov"
  shows "ordered_valuation (value_hours tgt es (hour_map obs) aov (clamp_fraction f))"
proof -
  obtain r where r: "clamp_fraction f = Fin r" "0 \<le> r" "r \<le> 1" using clamp_fraction_Fin by blast
  have "\<forall>e \<in> set es. ordered_band (900 + 3) e" using banded [OF assms(1) _ assms(2)] by simp
  then show ?thesis
    unfolding r(1) by (rule value_hours_ordered [OF _ hour_map_nonneg]) (use assms r in simp_all)
qed

end

section \<open>The leg as a sum of valuations\<close>

abbreviation baseline_of :: "flow \<Rightarrow> baseline_config" where
  "baseline_of f \<equiv> \<lparr>CfgWeeks = LookbackWeeks (BaselineOf f), CfgHoliday = None\<rparr>"

text \<open>The valuation of a currency of a requested flow: the entry counts come from the backend, the
  expectations from the baseline.\<close>

definition valuation_of ::
  "(f64 \<Rightarrow> i64) \<Rightarrow> registry \<Rightarrow> querier \<Rightarrow> request \<Rightarrow> string \<times> valuation \<Rightarrow> bool" where
  "valuation_of oob reg q req cv \<longleftrightarrow>
     (\<exists>name \<in> set (Flows req). \<exists>f hist obs history es rng rng'.
        registry_flow reg name = (f, True)
        \<and> hourly_entries_by_currency q name (StageName (Stages f ! 0)) rng = Inr hist
        \<and> hourly_entries_by_currency q name (StageName (Stages f ! 0)) rng' = Inr obs
        \<and> (fst cv, history) \<in> set hist
        \<and> expected history (hourly_instants (Window req)) (baseline_of f) = Inr es
        \<and> snd cv = value_hours (hourly_instants (Window req)) es (hour_map (map_get [] obs (fst cv)))
             (fst (aov_minor oob q name (fst cv) f (Window req))) (clamp_fraction (RecoveredFraction (RecoveryOf f)))
        \<and> v_valued (snd cv))"

abbreviation total_of :: "(f64 \<Rightarrow> i64) \<Rightarrow> (valuation \<Rightarrow> f64) \<Rightarrow> (string \<times> valuation) list \<Rightarrow> string \<Rightarrow> i64" where
  "total_of oob sel vs c \<equiv> sum_i64 (map (\<lambda>cv. to_i64 oob (fround (sel (snd cv)))) [cv \<leftarrow> vs. fst cv = c])"

definition is_range :: "(f64 \<Rightarrow> i64) \<Rightarrow> (string \<times> valuation) list \<Rightarrow> est_leg \<Rightarrow> bool" where
  "is_range oob vs lg \<longleftrightarrow>
     (\<forall>c. map_get 0 (LowMinor lg) c = total_of oob v_low vs c
        \<and> map_get 0 (MidMinor lg) c = total_of oob v_mid vs c
        \<and> map_get 0 (HighMinor lg) c = total_of oob v_high vs c
        \<and> (map_has (LowMinor lg) c \<longleftrightarrow> c \<in> fst ` set vs)
        \<and> (map_has (MidMinor lg) c \<longleftrightarrow> c \<in> fst ` set vs)
        \<and> (map_has (HighMinor lg) c \<longleftrightarrow> c \<in> fst ` set vs))"

lemma is_range_add:
  "is_range oob vs lg \<Longrightarrow> is_range oob (vs @ [(c, v)]) (add_range oob c v lg)"
  by (auto simp: is_range_def add_range_def)

definition sized_inv ::
  "(f64 \<Rightarrow> i64) \<Rightarrow> registry \<Rightarrow> querier \<Rightarrow> request \<Rightarrow> est_state \<Rightarrow> bool" where
  "sized_inv oob reg q req st \<longleftrightarrow>
     (\<exists>vs. (\<forall>cv \<in> set vs. valuation_of oob reg q req cv) \<and> is_range oob vs (es_leg st)
        \<and> (es_sized st \<longleftrightarrow> vs \<noteq> []) \<and> \<not> EstUnavailable (es_leg st)
        \<and> EstEvidence (es_leg st) = evidence_estimate)"

lemma sized_inv_note [simp]: "sized_inv oob reg q req (add_note n st) = sized_inv oob reg q req st"
  by (simp add: sized_inv_def add_note_def)

lemma size_valuation_inv:
  assumes "sized_inv oob reg q req st" "v_valued v \<Longrightarrow> valuation_of oob reg q req (c, v)"
  shows "sized_inv oob reg q req (size_valuation oob name c v st)"
proof -
  from assms(1) obtain vs where vs: "\<forall>cv \<in> set vs. valuation_of oob reg q req cv" "is_range oob vs (es_leg st)"
      "es_sized st \<longleftrightarrow> vs \<noteq> []" "\<not> EstUnavailable (es_leg st)" "EstEvidence (es_leg st) = evidence_estimate"
    by (auto simp: sized_inv_def)
  show ?thesis
  proof (cases "v_valued v")
    case False
    have "sized_inv oob reg q req (st\<lparr>es_thin := es_thin st \<or> v_thin v, es_sized := es_sized st \<or> v_valued v\<rparr>)"
      unfolding sized_inv_def using False vs by (intro exI [of _ vs]) simp
    then show ?thesis using False by (simp add: size_valuation_def Let_def)
  next
    case True
    then show ?thesis using vs is_range_add [OF vs(2), of c v] assms(2)
      by (auto simp: size_valuation_def Let_def sized_inv_def add_range_def intro!: exI [of _ "vs @ [(c, v)]"])
  qed
qed

lemma size_currency_inv:
  assumes "size_currency oob q (Window req) (hourly_instants (Window req)) name f obs entry st = Inr st'"
    and "sized_inv oob reg q req st" "name \<in> set (Flows req)" "registry_flow reg name = (f, True)"
    and "hourly_entries_by_currency q name (StageName (Stages f ! 0)) rng = Inr hist" "entry \<in> set hist"
    and "hourly_entries_by_currency q name (StageName (Stages f ! 0)) rng' = Inr obs"
  shows "sized_inv oob reg q req st'"
proof -
  obtain c history where entry: "entry = (c, history)" by (cases entry)
  obtain aov source warn ok where a: "aov_minor oob q name c f (Window req) = (aov, source, warn, ok)"
    by (cases "aov_minor oob q name c f (Window req)")
  obtain es where es: "expected history (hourly_instants (Window req)) (baseline_of f) = Inr es"
    using assms(1) by (auto simp: size_currency_def entry split: sum.splits)
  let ?v = "value_hours (hourly_instants (Window req)) es (hour_map (map_get [] obs c)) aov
     (clamp_fraction (RecoveredFraction (RecoveryOf f)))"
  have "valuation_of oob reg q req (c, ?v)" if "v_valued ?v"
    unfolding valuation_of_def using assms(3-7) es that a entry
    by (intro bexI [of _ name] exI [of _ f] exI [of _ hist] exI [of _ obs] exI [of _ history] exI [of _ es]
          exI [of _ rng] exI [of _ rng']) auto
  note step = size_valuation_inv [of oob reg q req _ ?v c name, OF _ this]
  show ?thesis
    using assms(1,2) a es
    by (auto simp: size_currency_def entry Let_def split: if_splits intro!: step)
qed

lemma size_flow_inv:
  assumes "size_flow oob reg q (Window req) (hourly_instants (Window req)) name st = Inr st'"
    and "sized_inv oob reg q req st" "name \<in> set (Flows req)"
  shows "sized_inv oob reg q req st'"
proof -
  obtain f ok where f: "registry_flow reg name = (f, ok)" by (cases "registry_flow reg name")
  have est: "sized_inv oob reg q req st'"
    if run: "estimate_flow oob q (Window req) (hourly_instants (Window req)) name f st = Inr st'"
      and inv: "sized_inv oob reg q req st" and ok for st
  proof -
    define s0 where "s0 = (if Holidays (BaselineOf f) \<noteq> []
      then add_note (in_flow name @ '' declares holiday calendar '' @ quoted (Holidays (BaselineOf f))
             @ '', which v0 does not yet apply'') st else st)"
    have s0: "sized_inv oob reg q req s0" using inv by (simp add: s0_def)
    let ?es = "hourly_entries_by_currency q name (StageName (Stages f ! 0))"
    let ?target = "hourly_instants (Window req)"
    let ?lookback = "\<lparr>From = add_days (?target ! 0) (- 7 * LookbackWeeks (BaselineOf f)), To = ?target ! 0\<rparr>"
    let ?aligned = "\<lparr>From = ?target ! 0, To = ?target ! (length ?target - 1) + hour\<rparr>"
    note run' = run [unfolded estimate_flow_def Let_def, folded s0_def]
    obtain hist where hist: "?es ?lookback = Inr hist" using run' by (cases "?es ?lookback") simp_all
    obtain obs where obs: "?es ?aligned = Inr obs" using run' hist by (cases "?es ?aligned") simp_all
    have f': "registry_flow reg name = (f, True)" using f \<open>ok\<close> by simp
    have rest: "hist = [] \<and> (\<exists>n. st' = add_note n s0)
        \<or> (\<exists>t. fold_err (size_currency oob q (Window req) ?target name f obs) hist s0 = Inr t \<and> st' = recovery_note name f t)"
    proof (cases "hist = []")
      case False
      then show ?thesis using run' hist obs
        by (cases "fold_err (size_currency oob q (Window req) ?target name f obs) hist s0") simp_all
    qed (use run' hist obs in auto)
    note qs = hist obs
    have "sized_inv oob reg q req t"
      if "fold_err (size_currency oob q (Window req) (hourly_instants (Window req)) name f obs) hist s0 = Inr t" for t
      by (rule fold_err_inv [OF that, of "sized_inv oob reg q req"])
        (use s0 size_currency_inv [OF _ _ assms(3) f' qs(1) _ qs(2)] in blast)+
    then show ?thesis using rest s0 by (auto simp: recovery_note_def Let_def)
  qed
  show ?thesis
    using assms f est by (auto simp: size_flow_def Let_def split: if_splits)
qed

lemma samples_get:
  assumes "\<forall>ch \<in> set m. \<forall>s \<in> set (snd ch). P (SmCount s)"
  shows "\<forall>s \<in> set (map_get [] m c). P (SmCount s)"
proof (cases "map_of m c")
  case (Some l)
  then have "(c, l) \<in> set m" by (rule map_of_SomeD)
  then show ?thesis using assms Some by (force simp: map_get_def)
qed (simp add: map_get_def)

lemma entries_of_points:
  assumes run: "hourly_entries_by_currency q name stage rng = Inr m"
    and P: "\<forall>mq ss s p. query_metric q mq = Inr ss \<longrightarrow> s \<in> set ss \<longrightarrow> p \<in> set (SPoints s) \<longrightarrow> P (PtValue p)"
  shows "\<forall>ch \<in> set m. \<forall>s \<in> set (snd ch). P (SmCount s)"
proof -
  define I where "I m \<longleftrightarrow> (\<forall>ch \<in> set m. \<forall>s \<in> set (snd ch). P (SmCount s))" for m :: "(string, sample list) gomap"
  have put: "I (map_put c (map_get [] m c @ [\<lparr>SmAt = t, SmCount = v\<rparr>]) m)" if "I m" "P v" for m c t v
  proof -
    have "\<forall>s \<in> set (map_get [] m c). P (SmCount s)" by (rule samples_get [OF that(1) [unfolded I_def]])
    then show ?thesis using that by (auto simp: I_def dest!: set_map_putD)
  qed
  have series: "I (add_entries s m)" if "I m" "\<forall>p \<in> set (SPoints s). P (PtValue p)" for s m
  proof -
    have "I (fold (\<lambda>p out. map_put c (map_get [] out c @ [\<lparr>SmAt = PtAt p, SmCount = PtValue p\<rparr>]) out) ps m)"
      if "I m" "\<forall>p \<in> set ps. P (PtValue p)" for ps m c
      using that by (induction ps arbitrary: m) (simp_all add: put)
    then show ?thesis using that by (simp add: add_entries_def Let_def)
  qed
  obtain ss where ss: "m = fold add_entries ss []" "\<forall>s \<in> set ss. \<forall>p \<in> set (SPoints s). P (PtValue p)"
    using run P by (fastforce simp: hourly_entries_by_currency_def split: sum.splits)
  have "I (fold add_entries ss m)" if "I m" "\<forall>s \<in> set ss. \<forall>p \<in> set (SPoints s). P (PtValue p)" for ss m
    using that by (induction ss arbitrary: m) (simp_all add: series)
  from this [of "[]" ss] show ?thesis using ss by (simp add: I_def)
qed

text \<open>Every answer of the backend to a metric query holds counts of at most \<open>2^900\<close>.\<close>

definition sane_counts :: "querier \<Rightarrow> bool" where
  "sane_counts q \<longleftrightarrow>
     (\<forall>mq ss s p. query_metric q mq = Inr ss \<longrightarrow> s \<in> set ss \<longrightarrow> p \<in> set (SPoints s) \<longrightarrow> amount_upto 900 (PtValue p))"

text \<open>What the average order value is read from, for the requested flows: an estimator is positive, as an accepted
  registry's are; where the backend answers the events question the amounts add up to a sum that is not negative
  and at most \<open>2^61\<close>; and where its counters show value and transactions the average is below \<open>2^62\<close>.\<close>

definition estimators_positive :: "registry \<Rightarrow> bool" where
  "estimators_positive reg \<longleftrightarrow>
     (\<forall>(name, f) \<in> set (flows reg). \<forall>e. EstimatorOf f = Some e \<longrightarrow>
        0 < sint (DefaultMinor e) \<and> (\<forall>(s, v) \<in> set (Registry.BySegment e). 0 < sint v))"

definition sane_values :: "registry \<Rightarrow> querier \<Rightarrow> request \<Rightarrow> bool" where
  "sane_values reg q req \<longleftrightarrow>
     (\<forall>name \<in> set (Flows req). \<forall>c.
        let flt = aov_filters name c (fst (registry_flow reg name));
            v = sum_metric q ''biz_value_total'' flt (Window req); n = sum_metric q ''biz_txn_total'' flt (Window req)
        in (\<forall>gs. query_events q (event_query_zero\<lparr>ERange := Window req, EFilters := flt\<rparr>) = Inr gs \<longrightarrow>
              0 \<le> sint (sum_i64 (map GSum gs)) \<and> sint (sum_i64 (map GSum gs)) \<le> 2 ^ 61)
           \<and> (fless (Fin 0) n \<and> fless (Fin 0) v \<longrightarrow> fless (fdiv v n) (Fin (2 ^ 62))))"

lemma registry_estimators: "registry_ok reg \<Longrightarrow> estimators_positive reg"
  by (fastforce simp: registry_ok_def flow_ok_def estimator_ok_def estimators_positive_def)

lemma rounded_nonneg:
  assumes "nonneg a" "fless a (Fin (2 ^ 62))"
  shows "0 \<le> sint (to_i64 oob (fround a))"
proof -
  obtain x where x: "a = Fin x" "0 \<le> x" "x < 2 ^ 62" using assms by (cases a) (auto simp: nonneg_def)
  have "round_away x \<le> 2 ^ 62" using x(2,3) by (simp add: round_away_def)
  then have "(of_int (round_away x) :: rat) \<le> of_int (2 ^ 62)" by (simp only: of_int_le_iff)
  then have "fless (fround a) (Fin (2 ^ 63))" using x(1) by simp
  then show ?thesis using to_i64_round(1) [of a a oob] assms x by simp
qed

lemma event_average_nonneg:
  assumes "0 \<le> sint t" "sint t \<le> 2 ^ 61" "0 < sint n"
  shows "0 \<le> sint (to_i64 oob (fround (fdiv (of_i64 t) (of_i64 n))))"
proof -
  obtain x y where xy: "of_i64 t = Fin x" "1 \<le> y" "fdiv (of_i64 t) (of_i64 n) = Fin (rnd (x / y))"
    by (rule quotient_Fin [OF assms(3), of t])
  have x: "x = rnd (of_int (sint t))" using xy(1) of_i64_Fin [of t] by simp
  have "\<bar>of_int (sint t) :: rat\<bar> \<le> of_int (2 ^ 61)" using assms(1,2) by (simp only: abs_of_nonneg of_int_0_le_iff of_int_le_iff)
  then have "\<bar>of_int (sint t) :: rat\<bar> \<le> pow2 61" by (simp add: pow2_def)
  then have "\<bar>x\<bar> \<le> pow2 61" unfolding x by (rule rnd_abs_le) simp
  moreover have nn: "0 \<le> x" unfolding x using assms(1) by (intro rnd_nonneg) (simp only: of_int_0_le_iff)
  moreover have "\<bar>x / y\<bar> \<le> \<bar>x\<bar>" using xy(2) nn by (simp add: abs_divide divide_le_eq mult_left_le_one_le mult_le_cancel_left1)
  ultimately have "\<bar>rnd (x / y)\<bar> \<le> pow2 61" by (intro rnd_abs_le) simp_all
  then have "rnd (x / y) < 2 ^ 62" by (simp add: pow2_def)
  moreover have "0 \<le> rnd (x / y)" using nn xy(2) by (intro rnd_nonneg) simp
  ultimately show ?thesis unfolding xy(3) by (intro rounded_nonneg) (simp_all add: nonneg_def)
qed

lemma positive_quotient:
  assumes "fless (Fin 0) n" "fless (Fin 0) v" "fless (fdiv v n) (Fin k)"
  shows "nonneg (fdiv v n)"
  using assms to_f64_nonneg by (cases v; cases n) (auto simp: nonneg_def inf_sign_def)

text \<open>The average order value is not negative, whichever way it is found.\<close>

lemma aov_nonneg:
  assumes reg: "estimators_positive reg" and vals: "sane_values reg q req" and name: "name \<in> set (Flows req)"
  shows "0 \<le> sint (fst (aov_minor oob q name c (fst (registry_flow reg name)) (Window req)))"
proof -
  let ?f = "fst (registry_flow reg name)" and ?w = "Window req"
  let ?flt = "aov_filters name c ?f"
  have s: "query_events q (event_query_zero\<lparr>ERange := ?w, EFilters := ?flt\<rparr>) = Inr gs \<Longrightarrow>
      0 \<le> sint (sum_i64 (map GSum gs)) \<and> sint (sum_i64 (map GSum gs)) \<le> 2 ^ 61"
    "fless (Fin 0) (sum_metric q ''biz_txn_total'' ?flt ?w) \<Longrightarrow> fless (Fin 0) (sum_metric q ''biz_value_total'' ?flt ?w) \<Longrightarrow>
      fless (fdiv (sum_metric q ''biz_value_total'' ?flt ?w) (sum_metric q ''biz_txn_total'' ?flt ?w)) (Fin (2 ^ 62))" for gs
    using vals name unfolding sane_values_def Let_def by blast+
  have ev: "0 \<le> sint v" if "query_events q (event_query_zero\<lparr>ERange := ?w, EFilters := ?flt\<rparr>) = Inr gs" "aov_from_events oob gs = Some v" for gs v
    using that s(1) event_average_nonneg by (auto simp: aov_from_events_def Let_def split: if_splits)
  have mt: "0 \<le> sint v" if "aov_from_metrics oob q ?flt ?w = Some v" for v
    using that s(2) positive_quotient rounded_nonneg by (auto simp: aov_from_metrics_def Let_def split: if_splits)
  have est: "0 \<le> sint (Amount (fst (estimate_money ?f [] c)))"
  proof (cases "map_of (flows reg) name")
    case None
    then show ?thesis by (simp add: registry_flow_def estimate_money_def estimate_minor_def zero_flow_def zero_money_def)
  next
    case (Some f)
    then have f: "(name, f) \<in> set (flows reg)" by (rule map_of_SomeD)
    show ?thesis
    proof (cases "EstimatorOf f")
      case None
      then show ?thesis using Some by (simp add: registry_flow_def estimate_money_def estimate_minor_def zero_money_def)
    next
      case e: (Some e)
      have pos: "0 < sint (DefaultMinor e)" "\<forall>(s, v) \<in> set (Registry.BySegment e). 0 < sint v"
        using reg f e unfolding estimators_positive_def by blast+
      have "0 < sint v" if "map_of (copy_map (Registry.BySegment e)) [] = Some v" for v
      proof -
        have "set (fold (\<lambda>(k, v). map_put k v) kvs m) \<subseteq> set kvs \<union> set m" for kvs and m :: "(string, i64) gomap"
          by (induction kvs arbitrary: m) (fastforce dest!: set_map_putD)+
        then have "set (copy_map (Registry.BySegment e)) \<subseteq> set (Registry.BySegment e)" by (fastforce simp: copy_map_def)
        then show ?thesis using map_of_SomeD [OF that] pos(2) by blast
      qed
      then show ?thesis using Some e pos(1) less_imp_le
        by (auto simp: registry_flow_def estimate_money_def estimate_minor_def split: option.split)
    qed
  qed
  show ?thesis
    using ev mt est by (auto simp: aov_minor_def Let_def split: option.splits sum.splits prod.splits)
qed

lemma valuation_ordered:
  assumes v: "valuation_of oob reg q req cv" and q: "sane_counts q"
    and reg: "estimators_positive reg" and vals: "sane_values reg q req"
  shows "ordered_valuation (snd cv)"
proof -
  from v obtain name f hist obs history es rng rng' where
    d: "name \<in> set (Flows req)" "registry_flow reg name = (f, True)"
      "hourly_entries_by_currency q name (StageName (Stages f ! 0)) rng = Inr hist"
      "hourly_entries_by_currency q name (StageName (Stages f ! 0)) rng' = Inr obs"
      "(fst cv, history) \<in> set hist"
      "expected history (hourly_instants (Window req)) (baseline_of f) = Inr es"
    and s: "snd cv = value_hours (hourly_instants (Window req)) es (hour_map (map_get [] obs (fst cv)))
             (fst (aov_minor oob q name (fst cv) f (Window req))) (clamp_fraction (RecoveredFraction (RecoveryOf f)))"
    unfolding valuation_of_def by blast
  note pts = q [unfolded sane_counts_def]
  have h: "amounts_upto 900 (map SmCount history)"
    using entries_of_points [OF d(3) pts] d(5) by (fastforce simp: list_all_iff)
  have o': "\<forall>s \<in> set (map_get [] obs (fst cv)). nonneg (SmCount s)"
    using samples_get [OF entries_of_points [OF d(4) pts]] amount_nonneg by blast
  have a: "0 \<le> sint (fst (aov_minor oob q name (fst cv) f (Window req)))"
    using aov_nonneg [OF reg vals d(1), of oob "fst cv"] d(2) by simp
  show ?thesis unfolding s by (rule hour_of_week_baseline.sized_range [OF d(6) h o' a])
qed

lemma unrealized_sum:
  assumes "unrealized oob (Some reg) q req = Inr leg"
  shows "\<exists>vs. (\<forall>cv \<in> set vs. valuation_of oob reg q req cv) \<and> is_range oob vs leg
    \<and> (EstUnavailable leg \<longleftrightarrow> vs = []) \<and> EstEvidence leg = evidence_estimate"
proof -
  have empty: ?thesis if "LowMinor leg = []" "MidMinor leg = []" "HighMinor leg = []" "EstUnavailable leg"
      "EstEvidence leg = evidence_estimate"
    using that by (intro exI [of _ "[]"]) (simp add: is_range_def)
  show ?thesis
  proof (cases "CMetrics (capabilities q) \<and> hourly_instants (Window req) \<noteq> [] \<and> Flows req \<noteq> []")
    case False
    then have "\<exists>r. leg = ungrounded r" using assms by (auto simp: unrealized_def Let_def split: if_splits)
    then show ?thesis using empty by (auto simp: ungrounded_def est_zero_def)
  next
    case True
    let ?s = "\<lparr>es_leg = est_zero, es_notes = [], es_thin = False, es_sized = False\<rparr>"
    have i: "sized_inv oob reg q req ?s"
      unfolding sized_inv_def by (intro exI [of _ "[]"]) (simp add: is_range_def est_zero_def)
    from assms True obtain st where st:
      "fold_err (size_flow oob reg q (Window req) (hourly_instants (Window req))) (Flows req) ?s = Inr st"
      "leg = finish_estimate oob q req st"
      by (auto simp: unrealized_def Let_def split: sum.splits)
    have "sized_inv oob reg q req st"
      by (rule fold_err_inv [OF st(1), of "sized_inv oob reg q req", OF i]) (use size_flow_inv in blast)
    then obtain vs where vs: "\<forall>cv \<in> set vs. valuation_of oob reg q req cv" "is_range oob vs (es_leg st)"
        "es_sized st \<longleftrightarrow> vs \<noteq> []" "\<not> EstUnavailable (es_leg st)" "EstEvidence (es_leg st) = evidence_estimate"
      by (auto simp: sized_inv_def)
    show ?thesis
    proof (cases "es_sized st")
      case True
      then have "\<exists>ns. leg = (es_leg st)\<lparr>Notes := ns\<rparr>" 
        unfolding st(2) finish_estimate_def Let_def by (simp only: if_True) (rule exI, rule refl)
      then obtain ns where "leg = (es_leg st)\<lparr>Notes := ns\<rparr>" ..
      moreover from this have "is_range oob vs leg" using vs(2) by (simp add: is_range_def)
      ultimately show ?thesis using vs True by (intro exI [of _ vs]) simp
    next
      case False
      then show ?thesis using vs by (intro empty) (simp_all add: st(2) finish_estimate_def Let_def)
    qed
  qed
qed

lemma sum_i64_mono:
  assumes "\<And>x. x \<in> set xs \<Longrightarrow> 0 \<le> sint (f x) \<and> sint (f x) \<le> sint (g x)"
    and "(\<Sum>x\<leftarrow>xs. sint (g x)) \<le> max_i64"
  shows "0 \<le> sint (sum_i64 (map f xs))" "sint (sum_i64 (map f xs)) \<le> sint (sum_i64 (map g xs))"
proof -
  have le: "(\<Sum>x\<leftarrow>xs. sint (f x)) \<le> (\<Sum>x\<leftarrow>xs. sint (g x))" using assms(1) by (intro sum_list_mono) auto
  have g: "sint (sum_i64 (map g xs)) = (\<Sum>x\<leftarrow>xs. sint (g x))"
    using assms by (subst sint_sum_i64) (force simp: comp_def)+
  have f: "sint (sum_i64 (map f xs)) = (\<Sum>x\<leftarrow>xs. sint (f x))"
    using assms le by (subst sint_sum_i64) (force simp: comp_def)+
  show "0 \<le> sint (sum_i64 (map f xs))" unfolding f using assms(1) by (intro sum_list_nonneg) auto
  show "sint (sum_i64 (map f xs)) \<le> sint (sum_i64 (map g xs))" using f g le by simp
qed

section \<open>Properties\<close>

text \<open>C6: over a backend with sane numbers and a registry whose estimators are positive, the counterfactual loss is
  a range around its middle, floating point included: the leg is the sum, per currency, of the valuations of its
  requested flows, each of them ordered, and per currency low, middle and high are non-negative and in order unless
  a high bound leaves the int64 range; the leg is marked unavailable exactly when nothing was valued. Sane: counts
  that are not negative and at most \<open>2^900\<close>, event sums that are not negative and at most \<open>2^61\<close>, an average from
  the counters below \<open>2^62\<close>.\<close>

theorem unrealized_range:
  assumes run: "unrealized oob (Some reg) q req = Inr leg"
    and counts: "sane_counts q" and reg: "estimators_positive reg" and vals: "sane_values reg q req"
  shows "\<exists>vs. (\<forall>cv \<in> set vs. valuation_of oob reg q req cv \<and> ordered_valuation (snd cv)) \<and> is_range oob vs leg
    \<and> (EstUnavailable leg \<longleftrightarrow> vs = [])
    \<and> (\<forall>c. (\<forall>cv \<in> set vs. fst cv = c \<longrightarrow> fless (fround (v_high (snd cv))) (Fin (2 ^ 63)))
          \<and> (\<Sum>cv\<leftarrow>[cv \<leftarrow> vs. fst cv = c]. sint (to_i64 oob (fround (v_high (snd cv))))) \<le> max_i64
          \<longrightarrow> 0 \<le> sint (map_get 0 (LowMinor leg) c)
              \<and> sint (map_get 0 (LowMinor leg) c) \<le> sint (map_get 0 (MidMinor leg) c)
              \<and> sint (map_get 0 (MidMinor leg) c) \<le> sint (map_get 0 (HighMinor leg) c))"
proof -
  obtain vs where vs: "\<forall>cv \<in> set vs. valuation_of oob reg q req cv" "is_range oob vs leg" "EstUnavailable leg \<longleftrightarrow> vs = []"
    using unrealized_sum [OF run] by blast
  have o': "\<forall>cv \<in> set vs. ordered_valuation (snd cv)" using vs(1) valuation_ordered [OF _ counts reg vals] by blast
  have "0 \<le> sint (map_get 0 (LowMinor leg) c)
      \<and> sint (map_get 0 (LowMinor leg) c) \<le> sint (map_get 0 (MidMinor leg) c)
      \<and> sint (map_get 0 (MidMinor leg) c) \<le> sint (map_get 0 (HighMinor leg) c)"
    if fit: "\<forall>cv \<in> set vs. fst cv = c \<longrightarrow> fless (fround (v_high (snd cv))) (Fin (2 ^ 63))"
      and total: "(\<Sum>cv\<leftarrow>[cv \<leftarrow> vs. fst cv = c]. sint (to_i64 oob (fround (v_high (snd cv))))) \<le> max_i64" for c
  proof -
    let ?vs = "[cv \<leftarrow> vs. fst cv = c]"
    let ?i = "\<lambda>sel cv. to_i64 oob (fround (sel (snd cv)))"
    have hi: "0 \<le> sint (?i v_mid cv) \<and> sint (?i v_mid cv) \<le> sint (?i v_high cv)
        \<and> 0 \<le> sint (?i v_low cv) \<and> sint (?i v_low cv) \<le> sint (?i v_mid cv)" if cv: "cv \<in> set ?vs" for cv
    proof -
      have o2: "nonneg (v_low (snd cv))" "fle (v_low (snd cv)) (v_mid (snd cv))" "fle (v_mid (snd cv)) (v_high (snd cv))"
          "fless (fround (v_high (snd cv))) (Fin (2 ^ 63))"
        using o' fit cv by (auto simp: ordered_valuation_def)
      have m: "nonneg (v_mid (snd cv))" using o2 by (blast intro: nonneg_le_trans)
      have "fless (fround (v_mid (snd cv))) (Fin (2 ^ 63))"
        using fround_mono [OF o2(3)] o2(4) by (cases "fround (v_mid (snd cv))"; cases "fround (v_high (snd cv))") auto
      then show ?thesis using to_i64_round [OF m o2(3,4)] to_i64_round [OF o2(1,2)] by blast
    qed
    have "(\<Sum>cv\<leftarrow>?vs. sint (?i v_mid cv)) \<le> (\<Sum>cv\<leftarrow>?vs. sint (?i v_high cv))" using hi by (intro sum_list_mono) auto
    then have mid: "(\<Sum>cv\<leftarrow>?vs. sint (?i v_mid cv)) \<le> max_i64" using total by linarith
    show ?thesis
      using vs(2) sum_i64_mono [of ?vs "?i v_low" "?i v_mid", OF _ mid] sum_i64_mono [of ?vs "?i v_mid" "?i v_high", OF _ total] hi
      by (simp add: is_range_def)
  qed
  then show ?thesis using vs o' by (intro exI [of _ vs]) blast
qed

definition shop :: registry where
  "shop = \<lparr>Version = 1, Segments = [], AllowHosts = [], Severity = [],
     flows = [(''pay'', zero_flow\<lparr>Stages := [\<lparr>StageName = ''auth'', Signals = []\<rparr>],
       BaselineOf := \<lparr>Seasonality = [], LookbackWeeks = 1, Holidays = []\<rparr>,
       EstimatorOf := Some \<lparr>DefaultMinor = 500, EstExponent = 2, BySegment = []\<rparr>\<rparr>)], segment_set = []\<rparr>"

definition quiet_hour :: request where
  "quiet_hour = \<lparr>Window = \<lparr>From = 0, To = 3600000000000\<rparr>, Scope = [], Flows = [''pay'']\<rparr>"

text \<open>A backend that saw 100 entries in the same hour a week ago and 40 in the incident hour.\<close>

definition counter :: querier where
  "counter =
     \<lparr>query_metric = (\<lambda>mq. Inr (if QStep mq = hour
        then [\<lparr>SLabels = [(''currency'', ''USD'')],
               SPoints = [if To (QRange mq) = 0 then \<lparr>PtAt = - 7 * day, PtValue = Fin 100\<rparr> else \<lparr>PtAt = 0, PtValue = Fin 40\<rparr>]\<rparr>]
        else [])),
      query_events = (\<lambda>_. Inl ErrUnsupported),
      capabilities = \<lparr>CMetrics = True, CEvents = False, CMetricWeeks = 0, CEventWeeks = 0\<rparr>\<rparr>"

lemma counter_sane: "sane_counts counter"
proof -
  have "rnd 100 = 100" "rnd 40 = 40" "pow2 900 \<ge> 100" using rnd_int [of 100] rnd_int [of 40] pow2_mono [of 7 900]
    by (simp_all add: pow2_def)
  then show ?thesis by (auto simp: sane_counts_def counter_def amount_upto_def split: if_splits)
qed

lemma counter_aov: "fst (aov_minor oob counter ''pay'' c f win) = (if flow_allows_currency f c then fst (estimate_minor f []) else 0)"
  by (simp add: aov_minor_def counter_def aov_from_metrics_def sum_metric_def metric_query_zero_def hour_def
      minute_def second_def estimate_money_def estimate_minor_def zero_money_def Let_def split: option.split)

lemma shop_flow: "registry_flow shop ''pay'' = (snd (hd (flows shop)), True)"
  by (simp add: registry_flow_def shop_def copy_map_def zero_flow_def Let_def)

lemma quiet_hours: "hourly_instants (Window quiet_hour) = [0]"
  by (simp add: hourly_instants_def quiet_hour_def truncate_hour_def hour_def minute_def second_def hours_from.simps)

lemma counter_entries:
  "hourly_entries_by_currency counter name stage rng =
     Inr [(''USD'', [if To rng = 0 then \<lparr>SmAt = - 7 * day, SmCount = Fin 100\<rparr> else \<lparr>SmAt = 0, SmCount = Fin 40\<rparr>])]"
  by (simp add: hourly_entries_by_currency_def counter_def add_entries_def Let_def map_get_def)

lemma day_pos: "0 < day"
  by (simp add: day_def)

lemma counter_expected:
  "expected [\<lparr>SmAt = - 7 * day, SmCount = Fin 100\<rparr>] [0] \<lparr>CfgWeeks = 1, CfgHoliday = None\<rparr>
     = Inr [\<lparr>ExAt = 0, ExExpected = Fin 100, ExLower = Fin 100, ExUpper = Fin 100, ExN = 1\<rparr>]"
proof -
  have h: "hour_of_week (- 7 * day) = hour_of_week 0" using hour_of_week_week [of 0 "- 1"] by simp
  have "fill_buckets [\<lparr>SmAt = - 7 * day, SmCount = Fin 100\<rparr>] [0] \<lparr>CfgWeeks = 1, CfgHoliday = None\<rparr> ! hour_of_week 0 = [Fin 100]"
    unfolding buckets_basis using h day_pos by (simp add: basis_def in_lookback_def earliest_def add_days_def)
  then have e: "expect_at (fill_buckets [\<lparr>SmAt = - 7 * day, SmCount = Fin 100\<rparr>] [0] \<lparr>CfgWeeks = 1, CfgHoliday = None\<rparr>) 0
      = \<lparr>ExAt = 0, ExExpected = Fin 100, ExLower = Fin 100, ExUpper = Fin 100, ExN = 1\<rparr>"
  proof -
    obtain c where c: "to_f64 (interval_sigma * mad_to_std_dev) = Fin c"
      using to_f64_amount(1) [of "interval_sigma * mad_to_std_dev" 2]
      by (auto simp: interval_sigma_def mad_to_std_dev_def pow2_def)
    have "median [Fin 100] = Fin 100" by (simp add: median_def)
    moreover have "band [Fin 100] (Fin 100) = Fin 0" by (simp add: band_def mad_def median_def fsub_def c)
    ultimately show ?thesis using \<open>fill_buckets _ _ _ ! _ = _\<close>
      by (simp add: expect_at_def Let_def fsub_def)
  qed
  then show ?thesis by (simp add: expected_def)
qed

theorem unrealized_range_witness:
  "\<exists>leg. unrealized (\<lambda>_. 0) (Some shop) counter quiet_hour = Inr leg \<and> \<not> EstUnavailable leg
     \<and> LowMinor leg = [(''USD'', 30000)] \<and> (\<exists>vs. vs \<noteq> [] \<and> is_range (\<lambda>_. 0) vs leg \<and> (\<forall>cv \<in> set vs. ordered_valuation (snd cv)))"
proof -
  let ?z = "\<lambda>_ :: f64. 0 :: i64"
  have reg: "estimators_positive shop" by (simp add: estimators_positive_def shop_def)
  have vals: "sane_values shop counter quiet_hour"
    by (simp add: sane_values_def counter_def sum_metric_def metric_query_zero_def hour_def minute_def second_def)
  let ?f = "snd (hd (flows shop))"
  let ?v = "value_hours [0] [\<lparr>ExAt = 0, ExExpected = Fin 100, ExLower = Fin 100, ExUpper = Fin 100, ExN = 1\<rparr>]
     (hour_map [\<lparr>SmAt = 0, SmCount = Fin 40\<rparr>]) 500 (Fin 0)"
  have f: "LookbackWeeks (BaselineOf ?f) = 1" "Holidays (BaselineOf ?f) = []" "Stages ?f \<noteq> []"
      "clamp_fraction (RecoveredFraction (RecoveryOf ?f)) = Fin 0" "flow_allows_currency ?f ''USD''"
    by (simp_all add: shop_def zero_flow_def no_recovery_def clamp_fraction_def flow_allows_currency_def)
  have v: "v_low ?v = Fin 30000" "v_valued ?v"
    using of_i64_exact [of 500]
    by (simp_all add: value_hours_def value_hour_def hour_map_def shortfall_value_def fsub_def map_get_def Let_def)
  have a: "\<exists>src. aov_minor ?z counter ''pay'' ''USD'' ?f win = (500, src, [], True) \<and> src \<noteq> ''metric''" for win
    by (simp add: aov_minor_def counter_def aov_from_metrics_def sum_metric_def metric_query_zero_def hour_def
        minute_def second_def estimate_money_def estimate_minor_def Let_def f(5)) (simp add: shop_def zero_flow_def)
  have cur: "\<exists>st. size_currency ?z counter (Window quiet_hour) [0] ''pay'' ?f
        [(''USD'', [\<lparr>SmAt = 0, SmCount = Fin 40\<rparr>])] (''USD'', [\<lparr>SmAt = - 7 * day, SmCount = Fin 100\<rparr>]) s0 = Inr st
      \<and> es_sized st \<and> es_leg st = add_range ?z ''USD'' ?v (es_leg s0)" for s0
  proof -
    obtain src where src: "aov_minor ?z counter ''pay'' ''USD'' ?f (Window quiet_hour) = (500, src, [], True)" "src \<noteq> ''metric''"
      using a by blast
    show ?thesis using v(2)
      by (simp add: size_currency_def f(1,4) counter_expected [simplified] src map_get_def [of "[]"] size_valuation_def Let_def)
  qed
  have step: "\<exists>st. size_flow ?z shop counter (Window quiet_hour) [0] ''pay'' s0 = Inr st
      \<and> es_sized st \<and> es_leg st = add_range ?z ''USD'' ?v (es_leg s0)" for s0
  proof -
    obtain st where st: "size_currency ?z counter (Window quiet_hour) [0] ''pay'' ?f
        [(''USD'', [\<lparr>SmAt = 0, SmCount = Fin 40\<rparr>])] (''USD'', [\<lparr>SmAt = - 7 * day, SmCount = Fin 100\<rparr>]) s0 = Inr st"
        "es_sized st" "es_leg st = add_range ?z ''USD'' ?v (es_leg s0)"
      using cur by blast
    have "CMetricWeeks (capabilities counter) = 0" by (simp add: counter_def)
    moreover have "hour \<noteq> 0" by simp
    moreover have "es_sized (recovery_note ''pay'' ?f st)" "es_leg (recovery_note ''pay'' ?f st) = es_leg st"
      using st(2) by (simp_all add: recovery_note_def add_note_def Let_def)
    ultimately show ?thesis using st f
      by (simp add: size_flow_def shop_flow estimate_flow_def counter_entries Let_def del: hour_nonzero)
  qed
  then obtain st where st: "fold_err (size_flow ?z shop counter (Window quiet_hour) [0]) (Flows quiet_hour)
      \<lparr>es_leg = est_zero, es_notes = [], es_thin = False, es_sized = False\<rparr> = Inr st"
      "es_sized st" "es_leg st = add_range ?z ''USD'' ?v est_zero"
    using step [of "\<lparr>es_leg = est_zero, es_notes = [], es_thin = False, es_sized = False\<rparr>"] by (auto simp: quiet_hour_def)
  have "CMetrics (capabilities counter)" "Flows quiet_hour \<noteq> []" by (simp_all add: counter_def quiet_hour_def)
  then have leg: "unrealized ?z (Some shop) counter quiet_hour = Inr (finish_estimate ?z counter quiet_hour st)"
    using st(1) by (simp add: unrealized_def quiet_hours Let_def)
  have "round_away 30000 = 30000" by (simp add: round_away_def) (rule floor_unique, simp_all)
  then have r: "to_i64 ?z (fround (Fin 30000)) = 30000" by (simp add: to_i64_def in_i64_def)
  have "LowMinor (finish_estimate ?z counter quiet_hour st) = [(''USD'', 30000)]"
    using st(2,3) v(1) r by (simp add: finish_estimate_def add_range_def est_zero_def map_add_def Let_def)
  moreover have "\<not> EstUnavailable (finish_estimate ?z counter quiet_hour st)"
    using st(2,3) by (simp add: finish_estimate_def add_range_def est_zero_def Let_def)
  ultimately show ?thesis using leg unrealized_range [OF leg counter_sane reg vals] by blast
qed

end
