(* ===== verification/Engine_Compute.thy ===== *)
theory Engine_Compute
  imports Engine_Unrealized Engine_Customers Engine_Severity Engine_Deferred
begin

text \<open>
  \<open>Compute\<close> of \<open>engine/engine.go\<close>: the report put together from the legs. A leg that cannot be
  computed is marked with the reason; the report itself never fails.
\<close>

section \<open>The report\<close>

definition library_version :: string where "library_version = ''v0.2.0''"

definition default_top_n :: int where "default_top_n = 10"

definition unavailable_leg :: "string \<Rightarrow> leg" where
  "unavailable_leg e =
     \<lparr>Count = 0, ByCurrency = [], Evidence = evidence_deterministic, Caveats = [''unavailable: '' @ e], Unavailable = True\<rparr>"

definition unavailable_deferred :: "string \<Rightarrow> deferred_leg" where
  "unavailable_deferred e =
     leg.extend (unavailable_leg e)
       (deferred_leg.fields [] 0 0 [])"

definition unavailable_estimate :: "string \<Rightarrow> est_leg" where
  "unavailable_estimate e =
     \<lparr>LowMinor = [], MidMinor = [], HighMinor = [], EstEvidence = evidence_estimate,
      Notes = [''unavailable: '' @ e], EstUnavailable = True\<rparr>"

definition no_coverage :: coverage_leg where
  "no_coverage =
     \<lparr>Ratio = Fin 0, CovWindow = \<lparr>From = zero_time, To = zero_time\<rparr>, CovSource = [], CovEvidence = evidence_trust,
      CovUnavailable = ''coverage needs a provider ledger '' @ dash @ '' run shortfall reconcile for the trust number''\<rparr>"

definition or_else :: "(string \<Rightarrow> 'a) \<Rightarrow> string + 'a \<Rightarrow> 'a" where
  "or_else f r = (case r of Inl e \<Rightarrow> f e | Inr x \<Rightarrow> x)"

definition compute :: "(f64 \<Rightarrow> i64) \<Rightarrow> time \<Rightarrow> registry option \<Rightarrow> querier \<Rightarrow> request \<Rightarrow> report" where
  "compute oob now reg q req =
     (let report =
        \<lparr>RepRequest = req, GeneratedAt = now,
         RegistryVersion = (case reg of Some r \<Rightarrow> Version r | None \<Rightarrow> 0), LibraryVersion = library_version,
         RepRealized = or_else unavailable_leg (realized_leg oob q req),
         RepDeferred = or_else unavailable_deferred (deferred oob reg q req),
         RepUnrealized = or_else unavailable_estimate (unrealized oob reg q req),
         RepCustomers = or_else (\<lambda>e. customers_zero\<lparr>NotAvailableReason := ''query failed: '' @ e\<rparr>)
           (customers q req default_top_n),
         RepCoverage = no_coverage, RepSeverity = []\<rparr>
      in report\<lparr>RepSeverity := suggest_severity reg report\<rparr>)"

section \<open>Well-formed reports\<close>

text \<open>Every money map has one entry per currency, the evidence label of a leg is the leg's own, and
  a leg that is unavailable shows no number and says why.\<close>

definition leg_ok :: "'a leg_scheme \<Rightarrow> bool" where
  "leg_ok lg \<longleftrightarrow> Evidence lg = evidence_deterministic \<and> map_ok (ByCurrency lg)
     \<and> (Unavailable lg \<longrightarrow> Count lg = 0 \<and> ByCurrency lg = [] \<and> Caveats lg \<noteq> [])"

definition deferred_ok :: "deferred_leg \<Rightarrow> bool" where
  "deferred_ok lg \<longleftrightarrow> leg_ok lg \<and> map_ok (ByAgeBucket lg) \<and> (\<forall>(b, m) \<in> set (ByAgeBucket lg). map_ok m)
     \<and> map_ok (ProjectedLostMinor lg)
     \<and> (Unavailable lg \<longrightarrow> ByAgeBucket lg = [] \<and> SLABreaches lg = 0 \<and> ProjectedLostMinor lg = [])"

definition est_ok :: "est_leg \<Rightarrow> bool" where
  "est_ok lg \<longleftrightarrow> EstEvidence lg = evidence_estimate
     \<and> map_ok (LowMinor lg) \<and> map fst (MidMinor lg) = map fst (LowMinor lg) \<and> map fst (HighMinor lg) = map fst (LowMinor lg)
     \<and> (EstUnavailable lg \<longleftrightarrow> LowMinor lg = []) \<and> (EstUnavailable lg \<longrightarrow> Notes lg \<noteq> [])"

definition customers_ok :: "customers_leg \<Rightarrow> bool" where
  "customers_ok lg \<longleftrightarrow> map_ok (BySegment lg)
     \<and> (NotAvailableReason lg \<noteq> [] \<longrightarrow> Distinct lg = 0 \<and> BySegment lg = [] \<and> TopN lg = [])
     \<and> length (TopN lg) \<le> nat default_top_n"

definition report_ok :: "report \<Rightarrow> bool" where
  "report_ok r \<longleftrightarrow> leg_ok (RepRealized r) \<and> deferred_ok (RepDeferred r) \<and> est_ok (RepUnrealized r)
     \<and> customers_ok (RepCustomers r) \<and> CovEvidence (RepCoverage r) = evidence_trust \<and> CovUnavailable (RepCoverage r) \<noteq> []"

section \<open>Each leg is well formed\<close>

lemma fold_inv: "P s \<Longrightarrow> (\<And>x s. x \<in> set xs \<Longrightarrow> P s \<Longrightarrow> P (f x s)) \<Longrightarrow> P (fold f xs s)"
  by (induction xs arbitrary: s) simp_all

definition realized_inv :: "leg \<Rightarrow> bool" where
  "realized_inv lg \<longleftrightarrow> Evidence lg = evidence_deterministic \<and> map_ok (ByCurrency lg) \<and> \<not> Unavailable lg"

lemma realized_leg_inv:
  assumes "realized_leg oob q req = Inr lg"
  shows "realized_inv lg"
proof -
  have g: "realized_inv (add_failed_group s g lg)" if "realized_inv lg" for s g lg
    using that by (simp add: add_failed_group_def realized_inv_def)
  have f: "realized_inv lg'" if "realized_inv lg" "add_failed q win s flt lg = Inr lg'" for win s flt lg lg'
  proof -
    have "realized_inv (fold (add_failed_group s) gs lg)" for gs
      by (rule fold_inv [where P = realized_inv, OF that(1)]) (rule g)
    then show ?thesis using that(2) by (auto simp: add_failed_def split: sum.splits)
  qed
  have v: "realized_inv (add_value_series oob s lg)" if "realized_inv lg" for s lg
    unfolding add_value_series_def by (rule fold_inv [where P = realized_inv, OF that]) (simp add: realized_inv_def)
  have c: "realized_inv (add_count_series oob s lg)" if "realized_inv lg" for s lg
    unfolding add_count_series_def by (rule fold_inv [where P = realized_inv, OF that]) (simp add: realized_inv_def)
  have m: "realized_inv lg'" if "realized_inv lg" "add_failed_metrics oob q win flt lg = Inr lg'" for win flt lg lg'
  proof -
    have "realized_inv (fold (add_value_series oob) ss lg)" if "realized_inv lg" for ss lg
      by (rule fold_inv [where P = realized_inv, OF that]) (rule v)
    moreover have "realized_inv (fold (add_count_series oob) ss lg)" if "realized_inv lg" for ss lg
      by (rule fold_inv [where P = realized_inv, OF that]) (rule c)
    ultimately show ?thesis using that by (auto simp: add_failed_metrics_def Let_def split: sum.splits)
  qed
  have z: "realized_inv (leg_zero\<lparr>Evidence := evidence_deterministic\<rparr>)"
      "realized_inv (leg_zero\<lparr>Evidence := evidence_deterministic, Caveats := [metric_only_caveat]\<rparr>)"
    by (simp_all add: realized_inv_def leg_zero_def)
  have "realized_inv lg'" if "fold_err (add_failed q win s) flts (leg_zero\<lparr>Evidence := evidence_deterministic\<rparr>) = Inr lg'"
    for win s flts lg' by (rule fold_err_inv [where P = realized_inv, OF that z(1)]) (rule f)
  moreover have "realized_inv lg'" if "fold_err (add_failed_metrics oob q win) flts
      (leg_zero\<lparr>Evidence := evidence_deterministic, Caveats := [metric_only_caveat]\<rparr>) = Inr lg'"
    for win flts lg' by (rule fold_err_inv [where P = realized_inv, OF that z(2)]) (rule m)
  ultimately show ?thesis
    using assms by (auto simp: realized_leg_def realized_from_events_def realized_from_metrics_def split: if_splits sum.splits)
qed

definition deferred_inv :: "deferred_leg \<Rightarrow> bool" where
  "deferred_inv lg \<longleftrightarrow> Evidence lg = evidence_deterministic \<and> map_ok (ByCurrency lg) \<and> \<not> Unavailable lg
     \<and> map_ok (ByAgeBucket lg) \<and> (\<forall>(b, m) \<in> set (ByAgeBucket lg). map_ok m) \<and> map_ok (ProjectedLostMinor lg)"

lemma deferred_inv_simps [simp]:
  "deferred_inv (lg\<lparr>Count := n\<rparr>) = deferred_inv lg" "deferred_inv (lg\<lparr>SLABreaches := n\<rparr>) = deferred_inv lg"
  "deferred_inv (lg\<lparr>OldestAgeMinutes := n\<rparr>) = deferred_inv lg" "deferred_inv (lg\<lparr>Caveats := cs\<rparr>) = deferred_inv lg"
  by (simp_all add: deferred_inv_def)

lemma deferred_inv_new [simp]: "deferred_inv new_deferred_leg"
  by (simp add: deferred_inv_def new_deferred_leg_def)

lemma deferred_inv_projected [simp]: "deferred_inv lg \<Longrightarrow> deferred_inv (add_projected b c v lg)"
  by (simp add: add_projected_def deferred_inv_def)

lemma deferred_inv_bucket [simp]:
  assumes "deferred_inv lg"
  shows "deferred_inv (add_bucket b c v lg)"
proof -
  have "map_ok (map_get [] (ByAgeBucket lg) b)"
  proof (cases "map_of (ByAgeBucket lg) b")
    case (Some m)
    then have "(b, m) \<in> set (ByAgeBucket lg)" by (rule map_of_SomeD)
    then show ?thesis using assms Some by (auto simp: deferred_inv_def map_get_def)
  qed (simp add: map_get_def)
  then show ?thesis using assms by (auto simp: add_bucket_def deferred_inv_def dest!: set_map_putD)
qed

lemma deferred_leg_inv:
  assumes "deferred oob reg q req = Inr lg"
  shows "deferred_inv lg"
proof -
  let ?P = "\<lambda>st :: deferred_leg \<times> int. deferred_inv (fst st)"
  have g: "?P (add_gauge oob reg s st)" if "?P st" for s st
    using that by (cases st) (simp add: add_gauge_def Let_def)
  have rg: "deferred_inv (fst st')" if inv: "deferred_inv (fst st)" and run: "read_gauges oob reg q win flt st = Inr st'"
    for win flt st st'
  proof -
    obtain lg saw oldest where st: "st = (lg, saw, oldest)" by (cases st)
    obtain series where s: "query_metric q (inflight_query ''biz_inflight_value'' flt win) = Inr series"
      using run by (auto simp: read_gauges_def st split: sum.splits)
    have "?P (fold (add_gauge oob reg) series (lg, oldest))"
      by (rule fold_inv [of ?P]) (use inv st g in simp_all)
    then show ?thesis using run s by (auto simp: read_gauges_def st split: prod.splits)
  qed
  let ?Q = "\<lambda>st :: deferred_leg \<times> bool. deferred_inv (fst st)"
  have c: "?Q (add_gauge_count oob reg s st)" if "?Q st" for s st
    using that by (cases st) (simp add: add_gauge_count_def Let_def)
  have rc: "?Q st'" if "?Q st" "read_counts oob reg q win flt st = Inr st'" for win flt st st'
  proof -
    have "?Q (fold (add_gauge_count oob reg) ss st)" for ss
      by (rule fold_inv [where P = ?Q, OF that(1)]) (rule c)
    then show ?thesis using that(2) by (auto simp: read_counts_def split: sum.splits)
  qed
  have fc: "deferred_inv lg'" if inv: "deferred_inv lg" and run: "fill_deferred_counts oob reg q req lg = Inr lg'" for lg lg'
  proof -
    obtain l saw where l: "fold_err (read_counts oob reg q (Window req)) (inflight_filters req) (lg, False) = Inr (l, saw)"
      using run by (auto simp: fill_deferred_counts_def split: sum.splits)
    have "?Q (l, saw)" by (rule fold_err_inv [OF l, of ?Q]) (use that(1) rc in auto)
    then show ?thesis using that(2) l by (auto simp: fill_deferred_counts_def)
  qed
  have dg: "deferred_inv lg" if run: "deferred_from_gauge oob reg q req = Inr (lg, saw)" for lg saw
  proof -
    obtain l s o' where l: "fold_err (read_gauges oob reg q (Window req)) (inflight_filters req) (new_deferred_leg, False, - 1)
        = Inr (l, s, o')"
      using run by (auto simp: deferred_from_gauge_def split: sum.splits)
    have "deferred_inv (fst (l, s, o'))"
      by (rule fold_err_inv [OF l, of "\<lambda>st. deferred_inv (fst st)"]) (use rg in auto)
    then show ?thesis using run l fc [of "l\<lparr>OldestAgeMinutes := oldest_minutes o'\<rparr>"]
      by (auto simp: deferred_from_gauge_def split: sum.splits)
  qed
  have i: "?P (add_open_item reg x st)" if "?P st" for x st
    using that by (cases st; cases x) (auto simp: add_open_item_def Let_def split: option.splits)
  have de: "deferred_inv lg" if "deferred_from_events reg q req = Inr lg" for lg
  proof -
    have "?P (fold (add_open_item reg) xs (new_deferred_leg\<lparr>Caveats := [events_derived_caveat]\<rparr>, - 1))" for xs
      by (rule fold_inv [of ?P]) (use i in simp_all)
    then show ?thesis using that
      by (auto simp: deferred_from_events_def Let_def split: sum.splits prod.splits)
        (metis (no_types, lifting) fst_conv deferred_inv_simps(3))
  qed
  show ?thesis
    using assms dg de by (auto simp: deferred_def split: if_splits sum.splits)
qed

definition est_inv :: "est_state \<Rightarrow> bool" where
  "est_inv st \<longleftrightarrow> EstEvidence (es_leg st) = evidence_estimate \<and> \<not> EstUnavailable (es_leg st)
     \<and> map_ok (LowMinor (es_leg st)) \<and> map fst (MidMinor (es_leg st)) = map fst (LowMinor (es_leg st))
     \<and> map fst (HighMinor (es_leg st)) = map fst (LowMinor (es_leg st))
     \<and> (es_sized st \<longleftrightarrow> LowMinor (es_leg st) \<noteq> [])"

text \<open>Every flow either is sized or leaves a note.\<close>

definition said :: "est_state \<Rightarrow> bool" where
  "said st \<longleftrightarrow> es_sized st \<or> es_notes st \<noteq> []"

lemma est_inv_note [simp]: "est_inv (add_note n st) = est_inv st" "said (add_note n st)"
  by (simp_all add: est_inv_def said_def add_note_def)

lemma map_put_nonempty [simp]: "map_put k v m \<noteq> []"
  by (cases m) (auto split: if_splits)

lemma size_valuation_est:
  assumes "est_inv st"
  shows "est_inv (size_valuation oob name c v st)" "said (size_valuation oob name c v st)"
  using assms
  by (auto simp: size_valuation_def est_inv_def said_def add_range_def add_note_def map_add_def update_keys Let_def
      simp flip: set_map split: if_splits)

lemma size_currency_est:
  assumes "size_currency oob q win target name f obs entry st = Inr st'" "est_inv st"
  shows "est_inv st' \<and> said st'"
proof -
  obtain c history where e: "entry = (c, history)" by (cases entry)
  obtain aov source warn ok where a: "aov_minor oob q name c f win = (aov, source, warn, ok)"
    by (cases "aov_minor oob q name c f win")
  have n: "est_inv (if P then add_note n s else s)" if "est_inv s" for P n s using that by simp
  show ?thesis
    using assms a n by (auto simp: size_currency_def e Let_def size_valuation_est split: sum.splits if_splits)
qed

lemma size_flow_est:
  assumes "size_flow oob reg q win target name st = Inr st'" "est_inv st"
  shows "est_inv st' \<and> said st'"
proof -
  obtain f ok where f: "registry_flow reg name = (f, ok)" by (cases "registry_flow reg name")
  have "est_inv st' \<and> said st'" if run: "estimate_flow oob q win target name f st = Inr st'"
  proof -
    define s0 where "s0 = (if Holidays (BaselineOf f) \<noteq> []
      then add_note (in_flow name @ '' declares holiday calendar '' @ quoted (Holidays (BaselineOf f))
             @ '', which v0 does not yet apply'') st else st)"
    have s0: "est_inv s0" using assms(2) by (simp add: s0_def)
    let ?es = "hourly_entries_by_currency q name (StageName (Stages f ! 0))"
    let ?lookback = "\<lparr>From = add_days (target ! 0) (- 7 * LookbackWeeks (BaselineOf f)), To = target ! 0\<rparr>"
    let ?aligned = "\<lparr>From = target ! 0, To = target ! (length target - 1) + hour\<rparr>"
    note run' = run [unfolded estimate_flow_def Let_def, folded s0_def]
    obtain hist where hist: "?es ?lookback = Inr hist" using run' by (cases "?es ?lookback") simp_all
    obtain obs where obs: "?es ?aligned = Inr obs" using run' hist by (cases "?es ?aligned") simp_all
    show ?thesis
    proof (cases hist)
      case Nil
      then have "\<exists>n. st' = add_note n s0" using run' hist obs by auto
      then show ?thesis using s0 by auto
    next
      case (Cons x xs)
      then obtain t where t: "fold_err (size_currency oob q win target name f obs) (x # xs) s0 = Inr t"
          "st' = recovery_note name f t"
        using run' hist obs by (cases "fold_err (size_currency oob q win target name f obs) hist s0") auto
      then obtain s1 where s1: "size_currency oob q win target name f obs x s0 = Inr s1"
          "fold_err (size_currency oob q win target name f obs) xs s1 = Inr t"
        by (auto split: sum.splits)
      have "est_inv t \<and> said t"
        by (rule fold_err_inv [OF s1(2), of "\<lambda>s. est_inv s \<and> said s"])
          (use size_currency_est [OF s1(1) s0] size_currency_est in auto)
      then show ?thesis by (auto simp: t(2) recovery_note_def Let_def)
    qed
  qed
  then show ?thesis using assms f by (auto simp: size_flow_def Let_def split: if_splits)
qed

lemma unrealized_ok:
  assumes "unrealized oob reg q req = Inr lg"
  shows "est_ok lg"
proof -
  have u: "est_ok (ungrounded r)" for r by (simp add: est_ok_def ungrounded_def est_zero_def)
  show ?thesis
  proof (cases "\<exists>r. lg = ungrounded r")
    case True
    then show ?thesis using u by auto
  next
    case False
    let ?s = "\<lparr>es_leg = est_zero, es_notes = [], es_thin = False, es_sized = False\<rparr>"
    obtain rg st where st: "fold_err (size_flow oob rg q (Window req) (hourly_instants (Window req))) (Flows req) ?s = Inr st"
        "Flows req \<noteq> []" "lg = finish_estimate oob q req st"
      using assms False by (auto simp: unrealized_def Let_def split: if_splits sum.splits option.splits)
    obtain x xs where fl: "Flows req = x # xs" using st(2) by (cases "Flows req") auto
    have i: "est_inv ?s" by (simp add: est_inv_def est_zero_def)
    obtain s1 where s1: "size_flow oob rg q (Window req) (hourly_instants (Window req)) x ?s = Inr s1"
        "fold_err (size_flow oob rg q (Window req) (hourly_instants (Window req))) xs s1 = Inr st"
      using st(1) by (auto simp: fl split: sum.splits)
    have e: "est_inv st \<and> said st"
      by (rule fold_err_inv [OF s1(2), of "\<lambda>s. est_inv s \<and> said s"])
        (use size_flow_est [OF s1(1) i] size_flow_est in auto)
    have n: "es_notes (if P then add_note m s else s) \<noteq> []" if "es_notes s \<noteq> []" for P m s
      using that by (simp add: add_note_def)
    show ?thesis
    proof (cases "es_sized st")
      case True
      then have "\<exists>ns. lg = (es_leg st)\<lparr>Notes := ns\<rparr>"
        unfolding st(3) finish_estimate_def Let_def by (simp only: if_True) (rule exI, rule refl)
      then show ?thesis using e True by (auto simp: est_ok_def est_inv_def)
    next
      case False
      then have "es_notes st \<noteq> []" using e by (simp add: said_def)
      then have "Notes lg \<noteq> []" unfolding st(3) finish_estimate_def Let_def by (simp add: n del: if_split)
      then show ?thesis using e False by (simp add: st(3) finish_estimate_def est_ok_def est_inv_def Let_def)
    qed
  qed
qed

lemma customers_leg_ok:
  assumes "customers q req default_top_n = Inr lg"
  shows "customers_ok lg"
proof -
  have "map_ok (fold (\<lambda>(_, a). map_add (acct_segment a) 1) accts m)" if "map_ok m" for accts :: accounts and m
    using that by (induction accts arbitrary: m) auto
  then show ?thesis using assms
    by (auto simp: customers_def customers_ok_def customers_zero_def customers_of_def default_top_n_def Let_def
        split: if_splits sum.splits)
qed

section \<open>Properties\<close>

lemma compute_well_formed: "report_ok (compute oob now reg q req)"
proof -
  have "leg_ok (or_else unavailable_leg (realized_leg oob q req))"
    using realized_leg_inv [of oob q req]
    by (cases "realized_leg oob q req") (simp_all add: or_else_def leg_ok_def unavailable_leg_def realized_inv_def)
  moreover have "deferred_ok (or_else unavailable_deferred (deferred oob reg q req))"
    using deferred_leg_inv [of oob reg q req]
    by (cases "deferred oob reg q req")
      (simp_all add: or_else_def deferred_ok_def leg_ok_def unavailable_deferred_def unavailable_leg_def
        deferred_leg.defs leg.defs deferred_inv_def)
  moreover have "est_ok (or_else unavailable_estimate (unrealized oob reg q req))"
    using unrealized_ok [of oob reg q req]
    by (cases "unrealized oob reg q req") (simp_all add: or_else_def est_ok_def unavailable_estimate_def)
  moreover have "customers_ok (or_else (\<lambda>e. customers_zero\<lparr>NotAvailableReason := ''query failed: '' @ e\<rparr>)
      (customers q req default_top_n))"
    using customers_leg_ok [of q req]
    by (cases "customers q req default_top_n") (simp_all add: or_else_def customers_ok_def customers_zero_def)
  ultimately show ?thesis by (simp add: report_ok_def compute_def no_coverage_def Let_def)
qed

lemma no_money_no_severity:
  "ByCurrency (RepRealized rep) = [] \<Longrightarrow> ByCurrency (RepDeferred rep) = [] \<Longrightarrow> suggest_severity reg rep = []"
  by (simp add: suggest_severity_def best_index_def at_risk_def Let_def split: option.split)

lemma compute_parts:
  "RepRealized (compute oob now reg q req) = or_else unavailable_leg (realized_leg oob q req)"
  "RepDeferred (compute oob now reg q req) = or_else unavailable_deferred (deferred oob reg q req)"
  "RepUnrealized (compute oob now reg q req) = or_else unavailable_estimate (unrealized oob reg q req)"
  "RepCustomers (compute oob now reg q req)
     = or_else (\<lambda>e. customers_zero\<lparr>NotAvailableReason := ''query failed: '' @ e\<rparr>) (customers q req default_top_n)"
  by (simp_all add: compute_def Let_def)

lemma compute_severity:
  "\<exists>rep. RepSeverity (compute oob now reg q req) = suggest_severity reg rep
     \<and> RepRealized rep = RepRealized (compute oob now reg q req) \<and> RepDeferred rep = RepDeferred (compute oob now reg q req)"
  unfolding compute_def Let_def by (rule exI, rule conjI, simp, simp)

text \<open>C11: an error never turns into a measured zero. A report is always produced and well formed: each leg
  carries its own evidence label, money maps have one entry per currency, the ends of the counterfactual range cover
  the same currencies. A leg that was computed is in the report as it is and not marked; the realized and deferred
  legs are marked unavailable exactly when computing them failed, and a failed leg of any kind names its error
  and shows no number; and when both money legs are unavailable no severity is suggested.\<close>

theorem compute_report_ok:
  "let r = compute oob now reg q req in
     report_ok r
     \<and> (Unavailable (RepRealized r) \<longleftrightarrow> isl (realized_leg oob q req)) \<and> (Unavailable (RepDeferred r) \<longleftrightarrow> isl (deferred oob reg q req))
     \<and> (case realized_leg oob q req of Inr lg \<Rightarrow> RepRealized r = lg | Inl e \<Rightarrow> Caveats (RepRealized r) = [''unavailable: '' @ e])
     \<and> (case deferred oob reg q req of Inr lg \<Rightarrow> RepDeferred r = lg | Inl e \<Rightarrow> Caveats (RepDeferred r) = [''unavailable: '' @ e])
     \<and> (case unrealized oob reg q req of Inr lg \<Rightarrow> RepUnrealized r = lg
        | Inl e \<Rightarrow> EstUnavailable (RepUnrealized r) \<and> Notes (RepUnrealized r) = [''unavailable: '' @ e])
     \<and> (case customers q req 10 of Inr lg \<Rightarrow> RepCustomers r = lg | Inl e \<Rightarrow> NotAvailableReason (RepCustomers r) = ''query failed: '' @ e)
     \<and> (Unavailable (RepRealized r) \<and> Unavailable (RepDeferred r) \<longrightarrow> RepSeverity r = [])"
proof -
  let ?r = "compute oob now reg q req"
  have ok: "report_ok ?r" by (rule compute_well_formed)
  have r: "Unavailable (RepRealized ?r) \<longleftrightarrow> isl (realized_leg oob q req)"
    using realized_leg_inv [of oob q req]
    by (cases "realized_leg oob q req") (simp_all add: compute_parts or_else_def unavailable_leg_def realized_inv_def)
  have d: "Unavailable (RepDeferred ?r) \<longleftrightarrow> isl (deferred oob reg q req)"
    using deferred_leg_inv [of oob reg q req]
    by (cases "deferred oob reg q req")
      (simp_all add: compute_parts or_else_def unavailable_deferred_def unavailable_leg_def deferred_leg.defs leg.defs deferred_inv_def)
  have s: "RepSeverity ?r = []" if "Unavailable (RepRealized ?r)" "Unavailable (RepDeferred ?r)"
  proof -
    obtain rep where rep: "RepSeverity ?r = suggest_severity reg rep" "RepRealized rep = RepRealized ?r" "RepDeferred rep = RepDeferred ?r"
      using compute_severity by blast
    have "ByCurrency (RepRealized ?r) = []" "ByCurrency (RepDeferred ?r) = []"
      using ok that by (simp_all add: report_ok_def deferred_ok_def leg_ok_def)
    then show ?thesis using no_money_no_severity [of rep reg] rep by simp
  qed
  show ?thesis
    unfolding Let_def
    by (intro conjI impI ok r d)
      (auto simp: compute_parts or_else_def unavailable_leg_def unavailable_deferred_def unavailable_estimate_def
        deferred_leg.defs leg.defs default_top_n_def s split: sum.split)
qed

lemma flow_filters_nonempty: "flow_filters req out \<noteq> []"
  by (simp add: flow_filters_def Let_def)

lemma fold_err_fails:
  assumes "xs \<noteq> []" and "\<And>x s. x \<in> set xs \<Longrightarrow> \<exists>e. f x s = Inl e"
  shows "\<exists>e. fold_err f xs s = Inl e"
proof -
  obtain x xs' where x: "xs = x # xs'" using assms(1) by (cases xs) auto
  then obtain e where "f x s = Inl e" using assms(2) [of x s] by auto
  then show ?thesis by (simp add: x)
qed

text \<open>A backend that is down: each leg that asks it fails, and names an error or a reason.\<close>

lemma down_questions:
  assumes down: "\<forall>mq. \<exists>e. query_metric q mq = Inl e" "\<forall>eq. \<exists>e. query_events q eq = Inl e"
  shows "\<exists>e. collect_succeeded q win flt acc = Inl e" and "\<exists>e. add_accounts q win flt accts = Inl e"
    and "\<exists>e. collect_terminal reg q req flt m = Inl e" and "\<exists>e. read_gauges oob reg q win flt st = Inl e"
    and "\<exists>e. add_failed_metrics oob q win flt lg = Inl e"
  using down(2) apply (auto simp: collect_succeeded_def add_accounts_def collect_terminal_def split: sum.split)[3]
      apply (metis Inl_Inr_False)+
  using down(1) by (cases st, auto simp: read_gauges_def add_failed_metrics_def split: sum.split) (metis Inl_Inr_False)+

lemma realized_down:
  assumes "\<forall>mq. \<exists>e. query_metric q mq = Inl e" "\<forall>eq. \<exists>e. query_events q eq = Inl e"
  shows "\<exists>e. realized_leg oob q req = Inl e"
proof -
  have "\<exists>e. fold_err (collect_succeeded q (Window req)) (flow_filters req recovery_success) [] = Inl e"
    by (rule fold_err_fails [OF flow_filters_nonempty]) (rule down_questions(1) [OF assms])
  moreover have "\<exists>e. fold_err (add_failed_metrics oob q (Window req)) (flow_filters req ''failed'')
      (leg_zero\<lparr>Evidence := evidence_deterministic, Caveats := [metric_only_caveat]\<rparr>) = Inl e"
    by (rule fold_err_fails [OF flow_filters_nonempty]) (rule down_questions(5) [OF assms])
  ultimately show ?thesis by (auto simp: realized_leg_def realized_from_events_def realized_from_metrics_def)
qed

lemma deferred_down:
  assumes "\<forall>mq. \<exists>e. query_metric q mq = Inl e" "\<forall>eq. \<exists>e. query_events q eq = Inl e"
  shows "\<exists>e. deferred oob reg q req = Inl e"
proof -
  have "inflight_filters req \<noteq> []" by (simp add: inflight_filters_def Let_def)
  then have "\<exists>e. fold_err (read_gauges oob reg q (Window req)) (inflight_filters req) (new_deferred_leg, False, - 1) = Inl e"
    by (rule fold_err_fails) (rule down_questions(4) [OF assms])
  then have dg: "\<exists>e. deferred_from_gauge oob reg q req = Inl e" by (auto simp: deferred_from_gauge_def)
  have ne: "concat (map (flow_filters req) terminal_outcomes) \<noteq> []"
    using flow_filters_nonempty by (simp add: terminal_outcomes_def)
  have "\<exists>e. fold_err (collect_terminal reg q req) (concat (map (flow_filters req) terminal_outcomes)) m = Inl e" for m
    by (rule fold_err_fails [OF ne]) (rule down_questions(3) [OF assms])
  then have "\<exists>e. deferred_from_events reg q req = Inl e"
    by (auto simp: deferred_from_events_def Let_def split: sum.split) (metis Inl_Inr_False)
  then show ?thesis using dg by (auto simp: deferred_def)
qed

lemma customers_down:
  assumes "\<forall>mq. \<exists>e. query_metric q mq = Inl e" "\<forall>eq. \<exists>e. query_events q eq = Inl e"
  shows "NotAvailableReason (RepCustomers (compute oob now reg q req)) \<noteq> []"
proof -
  have "\<exists>e. fold_err (add_accounts q (Window req)) (flow_filters req ''failed'') [] = Inl e"
    by (rule fold_err_fails [OF flow_filters_nonempty]) (rule down_questions(2) [OF assms])
  then show ?thesis by (auto simp: compute_parts or_else_def customers_def no_events_reason_def)
qed

lemma unrealized_down:
  assumes "\<forall>mq. \<exists>e. query_metric q mq = Inl e"
  shows "EstUnavailable (or_else unavailable_estimate (unrealized oob reg q req))"
proof (cases "unrealized oob reg q req")
  case (Inl e)
  then show ?thesis by (simp add: or_else_def unavailable_estimate_def)
next
  case (Inr lg)
  have "\<not> valuation_of oob rg q req cv" for rg cv
    using assms by (auto simp: valuation_of_def hourly_entries_by_currency_def split: sum.splits) (metis Inl_Inr_False)
  then have "EstUnavailable lg" if "reg = Some rg" for rg
    using unrealized_sum [of oob rg q req lg] Inr that by (metis list.set_intros(1) neq_Nil_conv)
  moreover have "EstUnavailable lg" if "reg = None" using Inr that by (auto simp: unrealized_def ungrounded_def)
  ultimately show ?thesis using Inr by (cases reg) (simp_all add: or_else_def)
qed

text \<open>C40: a backend that fails every question never turns into a report of zero loss, whatever it claims to serve:
  both money legs and the counterfactual are marked unavailable, the customers leg names its reason, and no
  severity is suggested.\<close>

theorem compute_backend_down:
  assumes down: "\<forall>mq. \<exists>e. query_metric q mq = Inl e" "\<forall>eq. \<exists>e. query_events q eq = Inl e"
  shows "let r = compute oob now reg q req in
    Unavailable (RepRealized r) \<and> Unavailable (RepDeferred r) \<and> EstUnavailable (RepUnrealized r)
    \<and> NotAvailableReason (RepCustomers r) \<noteq> [] \<and> RepSeverity r = []"
proof -
  obtain er ed where e: "realized_leg oob q req = Inl er" "deferred oob reg q req = Inl ed"
    using realized_down [OF down] deferred_down [OF down] by blast
  obtain rep where "RepSeverity (compute oob now reg q req) = suggest_severity reg rep"
    "RepRealized rep = RepRealized (compute oob now reg q req)" "RepDeferred rep = RepDeferred (compute oob now reg q req)"
    using compute_severity by blast
  then have "RepSeverity (compute oob now reg q req) = []"
    using no_money_no_severity [of rep reg]
    by (simp add: compute_parts e or_else_def unavailable_leg_def unavailable_deferred_def leg.defs deferred_leg.defs)
  then show ?thesis
    using unrealized_down [OF down(1)] customers_down [OF down]
    by (simp add: compute_parts e or_else_def unavailable_leg_def unavailable_deferred_def leg.defs
        deferred_leg.defs Let_def)
qed

definition broken :: querier where
  "broken = \<lparr>query_metric = (\<lambda>_. Inl (BackendError ''timeout'')), query_events = (\<lambda>_. Inl (BackendError ''timeout'')),
     capabilities = \<lparr>CMetrics = True, CEvents = True, CMetricWeeks = 0, CEventWeeks = 0\<rparr>\<rparr>"

theorem compute_backend_down_witness:
  "Unavailable (RepRealized (compute (\<lambda>_. 0) 0 (Some shop) broken quiet_hour))
     \<and> RepSeverity (compute (\<lambda>_. 0) 0 (Some shop) broken quiet_hour) = []"
  using compute_backend_down [of broken "\<lambda>_. 0" 0 "Some shop" quiet_hour] by (simp add: broken_def Let_def)

text \<open>A backend that serves nothing: both money legs fail, and the report says so.\<close>

definition mute :: querier where
  "mute = \<lparr>query_metric = (\<lambda>_. Inl ErrUnsupported), query_events = (\<lambda>_. Inl ErrUnsupported),
     capabilities = \<lparr>CMetrics = False, CEvents = False, CMetricWeeks = 0, CEventWeeks = 0\<rparr>\<rparr>"

theorem compute_report_ok_witness:
  "let r = compute (\<lambda>_. 0) 0 (Some shop) mute quiet_hour in
     Unavailable (RepRealized r) \<and> Unavailable (RepDeferred r) \<and> RepSeverity r = []"
proof -
  have "isl (realized_leg (\<lambda>_. 0) mute quiet_hour)" "isl (deferred (\<lambda>_. 0) (Some shop) mute quiet_hour)"
    by (simp_all add: realized_leg_def deferred_def mute_def)
  then show ?thesis using compute_report_ok [of "\<lambda>_. 0" 0 "Some shop" mute quiet_hour] unfolding Let_def by (elim conjE) blast
qed

end
