(* ===== verification/Propagate.thy ===== *)
theory Propagate
  imports Biz_Baggage
begin

text \<open>
  \<open>propagate/carrier.go\<close> and its three transports (\<open>propagate/kafka\<close>, \<open>propagate/sqs\<close>,
  \<open>propagate/amqp\<close>): the value context as one header of a queued message. The \<open>Carrier\<close> interface
  is a locale; each transport's header shape is a model of it.
\<close>

section \<open>The seam\<close>

datatype inject_error = CodecFailed codec_error | Unwritable

text \<open>\<open>Inject\<close> and \<open>Extract\<close> over the methods of a carrier; \<open>Set\<close> returns the carrier and whether the
  write landed.\<close>

definition inject :: "(string \<Rightarrow> string \<Rightarrow> 'c \<Rightarrow> 'c \<times> bool) \<Rightarrow> 'c \<Rightarrow> value_context \<Rightarrow> 'c \<times> inject_error option" where
  "inject put c vc =
     (case encode_vc vc of
        Inl e \<Rightarrow> (c, Some (CodecFailed e))
      | Inr enc \<Rightarrow>
          (let (c', ok) = put member_key enc c in if \<not> ok then (c', Some Unwritable) else (c', None)))"

definition extract_vc :: "('c \<Rightarrow> string \<Rightarrow> string) \<Rightarrow> 'c \<Rightarrow> found" where
  "extract_vc get c =
     (let raw = get c member_key in
      if raw = [] then Absent
      else (case decode_vc raw of Inl e \<Rightarrow> Corrupt e | Inr vc \<Rightarrow> Present vc))"

text \<open>What the interface promises: a write that lands is read back, is the only one under its key
  and leaves the other headers alone; a write that does not land changes nothing.\<close>

locale carrier =
  fixes get :: "'c \<Rightarrow> string \<Rightarrow> string" and put :: "string \<Rightarrow> string \<Rightarrow> 'c \<Rightarrow> 'c \<times> bool"
    and keys :: "'c \<Rightarrow> string list" and ok :: "'c \<Rightarrow> bool"
  assumes ok_put: "ok c \<Longrightarrow> ok (fst (put k v c))"
    and read_back: "ok c \<Longrightarrow> put k v c = (c', True) \<Longrightarrow> get c' k' = (if k' = k then v else get c k')"
    and one_key: "ok c \<Longrightarrow> put k v c = (c', True) \<Longrightarrow> filter (\<lambda>x. x = k) (keys c') = [k]"
    and other_keys: "ok c \<Longrightarrow> put k v c = (c', True) \<Longrightarrow> filter (\<lambda>x. x \<noteq> k) (keys c') = filter (\<lambda>x. x \<noteq> k) (keys c)"
    and not_landed: "put k v c = (c', False) \<Longrightarrow> c' = c"
begin

lemma failed_inject: "inject put c vc = (c', Some e) \<Longrightarrow> c' = c"
  by (auto simp: inject_def Let_def not_landed split: sum.splits prod.splits if_splits)

lemma injected:
  assumes "inject put c vc = (c', None)" "ok c"
  shows "extract_vc get c' = Present (wire_view vc)" "k \<noteq> member_key \<Longrightarrow> get c' k = get c k"
    "filter (\<lambda>x. x = member_key) (keys c') = [member_key]"
    "filter (\<lambda>x. x \<noteq> member_key) (keys c') = filter (\<lambda>x. x \<noteq> member_key) (keys c)"
proof -
  obtain s where s: "encode_vc vc = Inr s" "put member_key s c = (c', True)"
    using assms(1) by (auto simp: inject_def Let_def split: sum.splits prod.splits if_splits)
  have "s \<noteq> []" using s(1) by (auto simp: encode_vc_Inr wire_form_def codec_version_def)
  then show "extract_vc get c' = Present (wire_view vc)"
    using decode_encode [OF s(1)] by (simp add: extract_vc_def read_back [OF assms(2) s(2)])
  show "k \<noteq> member_key \<Longrightarrow> get c' k = get c k" by (simp add: read_back [OF assms(2) s(2)])
  show "filter (\<lambda>x. x = member_key) (keys c') = [member_key]" by (rule one_key [OF assms(2) s(2)])
  show "filter (\<lambda>x. x \<noteq> member_key) (keys c') = filter (\<lambda>x. x \<noteq> member_key) (keys c)"
    by (rule other_keys [OF assms(2) s(2)])
qed

lemma inject_lands:
  assumes "encode_vc vc = Inr s" "snd (put member_key s c)"
  shows "inject put c vc = (fst (put member_key s c), None)"
  using assms by (cases "put member_key s c") (simp add: inject_def)

end

section \<open>Kafka\<close>

text \<open>A header list; \<open>None\<close> is the nil pointer.\<close>

record header =
  HKey :: string
  HValue :: string

type_synonym kafka_carrier = "header list option"

fun first_header :: "string \<Rightarrow> header list \<Rightarrow> string" where
  "first_header key [] = []"
| "first_header key (h # hs) = (if HKey h = key then HValue h else first_header key hs)"

definition kafka_get :: "kafka_carrier \<Rightarrow> string \<Rightarrow> string" where
  "kafka_get c key = (case c of None \<Rightarrow> [] | Some hs \<Rightarrow> first_header key hs)"

text \<open>The loop of \<open>Set\<close>, with its flag.\<close>

fun set_header :: "string \<Rightarrow> string \<Rightarrow> bool \<Rightarrow> header list \<Rightarrow> header list" where
  "set_header key v found [] = (if found then [] else [\<lparr>HKey = key, HValue = v\<rparr>])"
| "set_header key v found (h # hs) =
     (if HKey h = key
      then (if found then set_header key v found hs else h\<lparr>HValue := v\<rparr> # set_header key v True hs)
      else h # set_header key v found hs)"

definition kafka_set :: "string \<Rightarrow> string \<Rightarrow> kafka_carrier \<Rightarrow> kafka_carrier \<times> bool" where
  "kafka_set key v c = (case c of None \<Rightarrow> (None, False) | Some hs \<Rightarrow> (Some (set_header key v False hs), True))"

definition kafka_keys :: "kafka_carrier \<Rightarrow> string list" where
  "kafka_keys c = (case c of None \<Rightarrow> [] | Some hs \<Rightarrow> map HKey hs)"

lemma set_header_others: "[h \<leftarrow> set_header k v found hs. HKey h \<noteq> k] = [h \<leftarrow> hs. HKey h \<noteq> k]"
  by (induction hs arbitrary: found) auto

lemma set_header_key:
  "map HKey [h \<leftarrow> set_header k v found hs. HKey h = k] = (if found then [] else [k])"
proof (induction hs arbitrary: found)
  case (Cons h hs)
  show ?case using Cons.IH [of True] Cons.IH [of found] by (cases found) auto
qed simp

lemma first_header_set:
  "first_header k' (set_header k v found hs) =
     (if k' \<noteq> k then first_header k' hs else if found then [] else v)"
proof (induction hs arbitrary: found)
  case (Cons h hs)
  then show ?case by (cases found) auto
qed simp

interpretation kafka: carrier kafka_get kafka_set kafka_keys "\<lambda>_. True"
proof
  fix c c' :: kafka_carrier and k v k' :: string
  assume "kafka_set k v c = (c', True)"
  then obtain hs where c: "c = Some hs" "c' = Some (set_header k v False hs)"
    by (auto simp: kafka_set_def split: option.splits)
  show "kafka_get c' k' = (if k' = k then v else kafka_get c k')"
    by (simp add: c kafka_get_def first_header_set)
  show "filter (\<lambda>x. x = k) (kafka_keys c') = [k]"
    using set_header_key [of k v False hs] by (simp add: c kafka_keys_def filter_map comp_def)
  show "filter (\<lambda>x. x \<noteq> k) (kafka_keys c') = filter (\<lambda>x. x \<noteq> k) (kafka_keys c)"
    using set_header_others [of k v False hs] by (simp add: c kafka_keys_def filter_map comp_def)
qed (auto simp: kafka_set_def split: option.splits)

section \<open>SQS and AMQP\<close>

record attribute =
  DataType :: string
  StringValue :: string

type_synonym sqs_carrier = "(string, attribute) gomap option"

definition sqs_get :: "sqs_carrier \<Rightarrow> string \<Rightarrow> string" where
  "sqs_get c key =
     (case c of None \<Rightarrow> [] | Some m \<Rightarrow> StringValue (map_get \<lparr>DataType = [], StringValue = []\<rparr> m key))"

definition sqs_set :: "string \<Rightarrow> string \<Rightarrow> sqs_carrier \<Rightarrow> sqs_carrier \<times> bool" where
  "sqs_set key v c =
     (case c of None \<Rightarrow> (None, False)
      | Some m \<Rightarrow> (Some (map_put key \<lparr>DataType = ''String'', StringValue = v\<rparr> m), True))"

definition table_keys :: "(string, 'v) gomap option \<Rightarrow> string list" where
  "table_keys c = (case c of None \<Rightarrow> [] | Some m \<Rightarrow> map fst m)"

abbreviation table_ok :: "(string, 'v) gomap option \<Rightarrow> bool" where
  "table_ok \<equiv> pred_option map_ok"

text \<open>A value of an AMQP table: a string, bytes, or anything else.\<close>

datatype 'x table_value = TableString string | TableBytes string | TableOther 'x

type_synonym 'x amqp_carrier = "(string, 'x table_value) gomap option"

definition amqp_get :: "'x amqp_carrier \<Rightarrow> string \<Rightarrow> string" where
  "amqp_get c key =
     (case c of None \<Rightarrow> []
      | Some m \<Rightarrow> (case map_of m key of Some (TableString s) \<Rightarrow> s | Some (TableBytes s) \<Rightarrow> s | _ \<Rightarrow> []))"

definition amqp_set :: "string \<Rightarrow> string \<Rightarrow> 'x amqp_carrier \<Rightarrow> 'x amqp_carrier \<times> bool" where
  "amqp_set key v c =
     (case c of None \<Rightarrow> (None, False) | Some m \<Rightarrow> (Some (map_put key (TableString v) m), True))"

lemma put_keys:
  assumes "map_ok m"
  shows "filter (\<lambda>x. x = k) (map fst (map_put k v m)) = [k]"
    "filter (\<lambda>x. x \<noteq> k) (map fst (map_put k v m)) = filter (\<lambda>x. x \<noteq> k) (map fst m)"
proof -
  have one: "filter (\<lambda>x. x = k) xs = (if k \<in> set xs then [k] else [])" if "distinct xs" for xs
    using that by (induction xs) (auto simp: filter_empty_conv)
  show "filter (\<lambda>x. x = k) (map fst (map_put k v m)) = [k]"
    using assms one [of "map fst m"] by (auto simp: map_ok_def update_keys)
  show "filter (\<lambda>x. x \<noteq> k) (map fst (map_put k v m)) = filter (\<lambda>x. x \<noteq> k) (map fst m)"
    by (simp add: update_keys)
qed

interpretation sqs: carrier sqs_get sqs_set table_keys table_ok
proof
  fix c c' :: sqs_carrier and k v k' :: string
  assume ok: "table_ok c"
  show "table_ok (fst (sqs_set k v c))" using ok by (auto simp: sqs_set_def split: option.splits)
  assume "sqs_set k v c = (c', True)"
  then obtain m where c: "c = Some m" "c' = Some (map_put k \<lparr>DataType = ''String'', StringValue = v\<rparr> m)"
    by (auto simp: sqs_set_def split: option.splits)
  show "sqs_get c' k' = (if k' = k then v else sqs_get c k')" by (simp add: c sqs_get_def)
  show "filter (\<lambda>x. x = k) (table_keys c') = [k]" "filter (\<lambda>x. x \<noteq> k) (table_keys c') = filter (\<lambda>x. x \<noteq> k) (table_keys c)"
    using put_keys ok by (simp_all add: c table_keys_def)
qed (auto simp: sqs_set_def split: option.splits)

interpretation amqp: carrier amqp_get amqp_set table_keys table_ok
proof
  fix c c' :: "'x amqp_carrier" and k v k' :: string
  assume ok: "table_ok c"
  show "table_ok (fst (amqp_set k v c))" using ok by (auto simp: amqp_set_def split: option.splits)
  assume "amqp_set k v c = (c', True)"
  then obtain m where c: "c = Some m" "c' = Some (map_put k (TableString v) m)"
    by (auto simp: amqp_set_def split: option.splits)
  show "amqp_get c' k' = (if k' = k then v else amqp_get c k')" by (simp add: c amqp_get_def)
  show "filter (\<lambda>x. x = k) (table_keys c') = [k]" "filter (\<lambda>x. x \<noteq> k) (table_keys c') = filter (\<lambda>x. x \<noteq> k) (table_keys c)"
    using put_keys ok by (simp_all add: c table_keys_def)
qed (auto simp: amqp_set_def split: option.splits)

section \<open>Properties\<close>

text \<open>C32: a value context that fits the codec survives a hop over each queue, whether or not it validates: injecting
  it into any message with writable headers succeeds, the consumer extracts it back with its deadline cut to whole
  seconds, the header is there exactly once - on Kafka even where it was there more often - and every other header
  stays and reads as before.\<close>

theorem queue_hop:
  assumes enc: "encode_vc vc = Inr s"
  shows "(\<exists>c. inject kafka_set (Some hs) vc = (c, None) \<and> extract_vc kafka_get c = Present (wire_view vc)
           \<and> filter (\<lambda>k. k = member_key) (kafka_keys c) = [member_key]
           \<and> filter (\<lambda>k. k \<noteq> member_key) (kafka_keys c) = filter (\<lambda>k. k \<noteq> member_key) (kafka_keys (Some hs))
           \<and> (\<forall>k. k \<noteq> member_key \<longrightarrow> kafka_get c k = kafka_get (Some hs) k))
       \<and> (map_ok attrs \<longrightarrow> (\<exists>c. inject sqs_set (Some attrs) vc = (c, None) \<and> extract_vc sqs_get c = Present (wire_view vc)
           \<and> filter (\<lambda>k. k = member_key) (table_keys c) = [member_key]
           \<and> filter (\<lambda>k. k \<noteq> member_key) (table_keys c) = filter (\<lambda>k. k \<noteq> member_key) (table_keys (Some attrs))
           \<and> (\<forall>k. k \<noteq> member_key \<longrightarrow> sqs_get c k = sqs_get (Some attrs) k)))
       \<and> (map_ok (table :: (string, 'x table_value) gomap) \<longrightarrow>
           (\<exists>c. inject amqp_set (Some table) vc = (c, None) \<and> extract_vc amqp_get c = Present (wire_view vc)
           \<and> filter (\<lambda>k. k = member_key) (table_keys c) = [member_key]
           \<and> filter (\<lambda>k. k \<noteq> member_key) (table_keys c) = filter (\<lambda>k. k \<noteq> member_key) (table_keys (Some table))
           \<and> (\<forall>k. k \<noteq> member_key \<longrightarrow> amqp_get c k = amqp_get (Some table) k)))"
proof (intro conjI impI)
  have k: "inject kafka_set (Some hs) vc = (fst (kafka_set member_key s (Some hs)), None)"
    by (rule kafka.inject_lands [OF enc]) (simp add: kafka_set_def)
  show "\<exists>c. inject kafka_set (Some hs) vc = (c, None) \<and> extract_vc kafka_get c = Present (wire_view vc)
       \<and> filter (\<lambda>k. k = member_key) (kafka_keys c) = [member_key]
       \<and> filter (\<lambda>k. k \<noteq> member_key) (kafka_keys c) = filter (\<lambda>k. k \<noteq> member_key) (kafka_keys (Some hs))
       \<and> (\<forall>k. k \<noteq> member_key \<longrightarrow> kafka_get c k = kafka_get (Some hs) k)"
    using k kafka.injected [OF k TrueI] by blast
  have q: "inject sqs_set (Some attrs) vc = (fst (sqs_set member_key s (Some attrs)), None)"
    by (rule sqs.inject_lands [OF enc]) (simp add: sqs_set_def)
  show "\<exists>c. inject sqs_set (Some attrs) vc = (c, None) \<and> extract_vc sqs_get c = Present (wire_view vc)
       \<and> filter (\<lambda>k. k = member_key) (table_keys c) = [member_key]
       \<and> filter (\<lambda>k. k \<noteq> member_key) (table_keys c) = filter (\<lambda>k. k \<noteq> member_key) (table_keys (Some attrs))
       \<and> (\<forall>k. k \<noteq> member_key \<longrightarrow> sqs_get c k = sqs_get (Some attrs) k)" if ok: "map_ok attrs"
  proof -
    have "table_ok (Some attrs)" using ok by simp
    from q sqs.injected [OF q this] show ?thesis by blast
  qed
  have a: "inject amqp_set (Some table) vc = (fst (amqp_set member_key s (Some table)), None)"
    by (rule amqp.inject_lands [OF enc]) (simp add: amqp_set_def)
  show "\<exists>c. inject amqp_set (Some table) vc = (c, None) \<and> extract_vc amqp_get c = Present (wire_view vc)
       \<and> filter (\<lambda>k. k = member_key) (table_keys c) = [member_key]
       \<and> filter (\<lambda>k. k \<noteq> member_key) (table_keys c) = filter (\<lambda>k. k \<noteq> member_key) (table_keys (Some table))
       \<and> (\<forall>k. k \<noteq> member_key \<longrightarrow> amqp_get c k = amqp_get (Some table) k)" if ok: "map_ok table"
  proof -
    have "table_ok (Some table)" using ok by simp
    from a amqp.injected [OF a this] show ?thesis by blast
  qed
qed

theorem queue_hop_witness:
  "\<exists>c. inject kafka_set
         (Some [\<lparr>HKey = ''biz.vc'', HValue = ''stale''\<rparr>, \<lparr>HKey = ''trace'', HValue = ''t''\<rparr>, \<lparr>HKey = ''biz.vc'', HValue = ''x''\<rparr>])
         \<lparr>Flow = ''checkout'', EntityID = ''ord 1'', CustomerID = [], Segment = ''vip'',
           Money = \<lparr>Amount = 1250, Currency = ''USD'', Exponent = 2\<rparr>, Kind = ''gmv'',
           Estimated = False, Deadline = zero_time\<rparr> = (c, None)
       \<and> kafka_keys c = [''biz.vc'', ''trace''] \<and> kafka_get c ''trace'' = ''t''"
proof -
  let ?vc = "\<lparr>Flow = ''checkout'', EntityID = ''ord 1'', CustomerID = [], Segment = ''vip'',
      Money = \<lparr>Amount = 1250, Currency = ''USD'', Exponent = 2\<rparr>, Kind = ''gmv'',
      Estimated = False, Deadline = zero_time\<rparr>"
  let ?hs = "[\<lparr>HKey = ''biz.vc'', HValue = ''stale''\<rparr>, \<lparr>HKey = ''trace'', HValue = ''t''\<rparr>, \<lparr>HKey = ''biz.vc'', HValue = ''x''\<rparr>]"
  have enc: "encode_vc ?vc = Inr ''1|checkout|ord%201||vip|1250|USD|2|gmv|0|0''" by code_simp
  obtain c where c: "inject kafka_set (Some ?hs) ?vc = (c, None)"
      "\<forall>k. k \<noteq> member_key \<longrightarrow> kafka_get c k = kafka_get (Some ?hs) k"
    using queue_hop [OF enc, of ?hs] by blast
  moreover have "kafka_keys c = [''biz.vc'', ''trace'']"
    using c(1) by (auto simp: inject_def enc kafka_set_def kafka_keys_def member_key_def)
  ultimately show ?thesis by (auto simp: member_key_def kafka_get_def)
qed

end
