(* ===== verification/Httpmw.thy ===== *)
theory Httpmw
  imports Biz_Baggage Registry
begin

text \<open>
  \<open>propagate/httpmw/httpmw.go\<close>: the server middleware that recovers or stamps the value context of
  a request, and the client transport that lets it out only towards allowed hosts. A header is the
  list of its baggage field lines; the OpenTelemetry baggage package is the record of the functions
  the code calls; what is written to the log is a list of messages. The request the transport hands
  to its base transport is the transport's result.
\<close>

section \<open>The baggage package\<close>

text \<open>\<open>Parse\<close> (members and whether it reported an error), \<open>Member.Key\<close>, \<open>New\<close>, \<open>Baggage.String\<close>,
  \<open>NewMemberRaw\<close>, \<open>ContextWithBaggage\<close>, and the member lookup and \<open>SetMember\<close> of a context.\<close>

record ('m, 'bag, 'ctx) baggage_lib =
  bl_parse :: "string \<Rightarrow> 'm list \<times> bool"
  bl_key :: "'m \<Rightarrow> string"
  bl_new :: "'m list \<Rightarrow> 'bag option"
  bl_string :: "'bag \<Rightarrow> string"
  bl_member :: "string \<Rightarrow> string \<Rightarrow> 'm option"
  bl_with :: "'ctx \<Rightarrow> 'bag \<Rightarrow> 'ctx"
  bl_lookup :: "'ctx \<Rightarrow> string \<Rightarrow> string \<times> string"
  bl_set :: "'ctx \<Rightarrow> 'm \<Rightarrow> 'ctx option"

record 'ctx http_request =
  ReqHost :: string
  ReqBaggage :: "string list"
  ReqCtx :: 'ctx

section \<open>Members\<close>

definition recover_line ::
  "('m, 'bag, 'ctx) baggage_lib \<Rightarrow> string \<Rightarrow> (string, 'm) gomap \<times> bool \<Rightarrow> (string, 'm) gomap \<times> bool" where
  "recover_line lib line st =
     (if line = [] then st
      else
        (let (members, had_error) = st; (found, err) = bl_parse lib line
         in (fold (\<lambda>m ms. map_put (bl_key lib m) m ms) found members, had_error \<or> err)))"

definition recover_members :: "('m, 'bag, 'ctx) baggage_lib \<Rightarrow> string list \<Rightarrow> (string, 'm) gomap \<times> bool" where
  "recover_members lib lines = fold (recover_line lib) lines ([], False)"

text \<open>The new field lines, \<open>None\<close> when \<open>New\<close> fails.\<close>

definition write_members :: "('m, 'bag, 'ctx) baggage_lib \<Rightarrow> (string, 'm) gomap \<Rightarrow> string list option" where
  "write_members lib members =
     (if members = [] then Some []
      else (case bl_new lib (map snd members) of None \<Rightarrow> None | Some bag \<Rightarrow> Some [bl_string lib bag]))"

section \<open>The middleware\<close>

definition estimate :: "registry option \<Rightarrow> value_context \<Rightarrow> value_context" where
  "estimate reg vc =
     (if \<not> Estimated vc \<or> Amount (Money vc) \<noteq> 0 then vc
      else
        (case reg of
           None \<Rightarrow> vc
         | Some r \<Rightarrow>
             (let (f, ok) = registry_flow r (Flow vc) in
              if \<not> ok then vc
              else
                (let (m, ok) = estimate_money f (Segment vc) (Currency (Money vc))
                 in if ok then vc\<lparr>Money := m\<rparr> else vc))))"

definition stamp ::
  "('m, 'bag, 'ctx) baggage_lib \<Rightarrow> registry option \<Rightarrow> 'ctx \<Rightarrow> value_context \<Rightarrow> 'ctx \<times> string list" where
  "stamp lib reg ctx vc0 =
     (let vc = estimate reg vc0 in
      if vc_validate vc \<noteq> None then (ctx, [''httpmw: ingress stamp rejected '' @ dash @ '' the hook'' @ CHR 0x27 # ''s output must satisfy the same fences as the wire''])
      else
        (case with_value_context (bl_member lib) (bl_set lib) ctx vc of
           (_, Some e) \<Rightarrow> (ctx, [''httpmw: ingress stamp not encodable''])
         | (stamped, None) \<Rightarrow> (stamped, [])))"

text \<open>The context the next handler sees, and the log.\<close>

definition inbound_context :: "('m, 'bag, 'ctx) baggage_lib \<Rightarrow> 'ctx http_request \<Rightarrow> 'ctx" where
  "inbound_context lib r =
     (let (members, had_error) = recover_members lib (ReqBaggage r) in
      if members = [] then ReqCtx r
      else (case bl_new lib (map snd members) of Some bag \<Rightarrow> bl_with lib (ReqCtx r) bag | None \<Rightarrow> ReqCtx r))"

definition corrupt_on_wire :: string where
  "corrupt_on_wire = ''httpmw: corrupt biz.vc on the wire '' @ dash @ '' dropped loudly''"

definition middleware ::
  "('m, 'bag, 'ctx) baggage_lib \<Rightarrow> registry option \<Rightarrow> ('ctx http_request \<Rightarrow> value_context \<times> bool) option
     \<Rightarrow> 'ctx http_request \<Rightarrow> 'ctx \<times> string list" where
  "middleware lib reg ingress r =
     (let (members, had_error) = recover_members lib (ReqBaggage r);
          log1 = (if had_error then [''httpmw: malformed member(s) in inbound baggage dropped; valid members kept''] else []);
          ctx = inbound_context lib r
      in case from_context (bl_lookup lib) ctx of
           Present vc \<Rightarrow> (ctx, log1)
         | res \<Rightarrow>
             (let log2 = (case res of Corrupt e \<Rightarrow> [corrupt_on_wire] | _ \<Rightarrow> [])
              in case ingress of
                   None \<Rightarrow> (ctx, log1 @ log2)
                 | Some hook \<Rightarrow>
                     (case hook r of
                        (vc, False) \<Rightarrow> (ctx, log1 @ log2)
                      | (vc, True) \<Rightarrow>
                          (let (ctx', log3) = stamp lib reg ctx vc in (ctx', log1 @ log2 @ log3)))))"

section \<open>The transport\<close>

definition egress_members ::
  "('m, 'bag, 'ctx) baggage_lib \<Rightarrow> bool \<Rightarrow> 'ctx \<Rightarrow> (string, 'm) gomap \<Rightarrow> (string, 'm) gomap \<times> string list" where
  "egress_members lib allowed ctx members =
     (if allowed then
        (case from_context (bl_lookup lib) ctx of
           Present vc \<Rightarrow>
             (case encode_vc vc of
                Inl e \<Rightarrow> (members, [''httpmw: ValueContext not encodable at egress '' @ dash @ '' not injected''])
              | Inr enc \<Rightarrow>
                  (case bl_member lib member_key enc of
                     None \<Rightarrow> (members, [''httpmw: biz.vc member not constructible at egress '' @ dash @ '' not injected''])
                   | Some m \<Rightarrow> (map_put member_key m members, [])))
         | Corrupt e \<Rightarrow> (members, [''httpmw: corrupt biz.vc in egress context '' @ dash @ '' not injected''])
         | Absent \<Rightarrow> (members, []))
      else if map_has members member_key
      then (map_del member_key members,
            [''httpmw: biz.vc stripped at egress '' @ dash @ '' host is outside the propagation allowlist''])
      else (members, []))"

definition round_trip ::
  "(string \<Rightarrow> string) \<Rightarrow> ('m, 'bag, 'ctx) baggage_lib \<Rightarrow> registry \<Rightarrow> 'ctx http_request \<Rightarrow> 'ctx http_request \<times> string list" where
  "round_trip unicode_lower lib reg req =
     (let host = go_lower unicode_lower (ReqHost req);
          allowed = host_allowed unicode_lower (AllowHosts reg) host;
          (members, had_error) = recover_members lib (ReqBaggage req);
          log1 = (if had_error then [''httpmw: malformed member(s) in outbound baggage dropped''] else []);
          (members', log2) = egress_members lib allowed (ReqCtx req) members
      in case write_members lib members' of
           Some lines \<Rightarrow> (req\<lparr>ReqBaggage := lines\<rparr>, log1 @ log2)
         | None \<Rightarrow> (req\<lparr>ReqBaggage := []\<rparr>,
             log1 @ log2 @ [''httpmw: could not rebuild outbound baggage; sending no baggage header'']))"

section \<open>What is relied on of the package\<close>

text \<open>Printing a baggage and parsing it gives the members back, and a member made for a key has that
  key.\<close>

definition baggage_faithful :: "('m, 'bag, 'ctx) baggage_lib \<Rightarrow> bool" where
  "baggage_faithful lib \<longleftrightarrow>
     (\<forall>ms bag. distinct (map (bl_key lib) ms) \<longrightarrow> bl_new lib ms = Some bag \<longrightarrow>
        bl_string lib bag \<noteq> [] \<and> set (fst (bl_parse lib (bl_string lib bag))) = set ms)
     \<and> (\<forall>k v m. bl_member lib k v = Some m \<longrightarrow> bl_key lib m = k)"

text \<open>Members are kept under their own key.\<close>

definition members_ok :: "('m, 'bag, 'ctx) baggage_lib \<Rightarrow> (string, 'm) gomap \<Rightarrow> bool" where
  "members_ok lib ms \<longleftrightarrow> map_ok ms \<and> (\<forall>(k, m) \<in> set ms. bl_key lib m = k)"

lemma members_ok_put: "members_ok lib ms \<Longrightarrow> members_ok lib (map_put (bl_key lib m) m ms)"
  by (auto simp: members_ok_def dest!: set_map_putD)

lemma members_ok_del: "members_ok lib ms \<Longrightarrow> members_ok lib (map_del k ms)"
proof -
  have "set (map_del k ms) \<subseteq> set ms" by (auto simp: AList.delete_eq)
  then show "members_ok lib ms \<Longrightarrow> members_ok lib (map_del k ms)" by (auto simp: members_ok_def)
qed

lemma recover_members_ok: "members_ok lib (fst (recover_members lib lines))"
proof -
  have put: "members_ok lib (fold (\<lambda>m ms. map_put (bl_key lib m) m ms) found ms)" if "members_ok lib ms" for found ms
    using that by (induction found arbitrary: ms) (simp_all add: members_ok_put)
  have "members_ok lib (fst (fold (recover_line lib) lines st))" if "members_ok lib (fst st)" for st
    using that
  proof (induction lines arbitrary: st)
    case (Cons l lines)
    then show ?case by (auto simp: recover_line_def put split: prod.splits)
  qed simp
  from this [of "([], False)"] show ?thesis by (simp add: recover_members_def members_ok_def)
qed

lemma fold_put_map_of:
  assumes "\<forall>m \<in> set found. \<forall>m' \<in> set found. bl_key lib m = bl_key lib m' \<longrightarrow> m = m'"
  shows "map_of (fold (\<lambda>m ms. map_put (bl_key lib m) m ms) found ms) k
    = (if \<exists>m \<in> set found. bl_key lib m = k then Some (THE m. m \<in> set found \<and> bl_key lib m = k) else map_of ms k)"
  using assms
proof (induction found arbitrary: ms rule: rev_induct)
  case (snoc m found)
  have the: "(THE x. x \<in> set (found @ [m]) \<and> bl_key lib x = bl_key lib m) = m"
    using snoc.prems by (intro the_equality) auto
  show ?case
  proof (cases "bl_key lib m = k")
    case True
    then show ?thesis using the by auto
  next
    case False
    then have "(\<lambda>x. x \<in> set (found @ [m]) \<and> bl_key lib x = k) = (\<lambda>x. x \<in> set found \<and> bl_key lib x = k)" by auto
    moreover have "\<forall>m \<in> set found. \<forall>m' \<in> set found. bl_key lib m = bl_key lib m' \<longrightarrow> m = m'" using snoc.prems by auto
    ultimately show ?thesis using False snoc.IH [of ms] by auto
  qed
qed simp

text \<open>What a reader recovers from the header that is sent is what was written.\<close>

lemma recover_written:
  assumes lib: "baggage_faithful lib" and ms: "members_ok lib ms" and w: "write_members lib ms = Some lines"
  shows "map_of (fst (recover_members lib lines)) = map_of ms"
proof (cases "ms = []")
  case True
  then show ?thesis using w by (simp add: write_members_def recover_members_def)
next
  case False
  then obtain bag where bag: "bl_new lib (map snd ms) = Some bag" "lines = [bl_string lib bag]"
    using w by (auto simp: write_members_def split: option.splits)
  have keys: "map (bl_key lib) (map snd ms) = map fst ms" using ms by (auto simp: members_ok_def)
  have d: "distinct (map (bl_key lib) (map snd ms))" unfolding keys using ms by (simp add: members_ok_def map_ok_def)
  obtain found err where p: "bl_parse lib (bl_string lib bag) = (found, err)" by (cases "bl_parse lib (bl_string lib bag)")
  have "bl_string lib bag \<noteq> [] \<and> set (fst (bl_parse lib (bl_string lib bag))) = set (map snd ms)"
    using lib [unfolded baggage_faithful_def] d bag(1) by blast
  then have f: "bl_string lib bag \<noteq> []" "set found = snd ` set ms" using p by simp_all
  have inj: "\<forall>m \<in> set found. \<forall>m' \<in> set found. bl_key lib m = bl_key lib m' \<longrightarrow> m = m'"
    unfolding f(2) using d by (metis (no_types, lifting) distinct_map inj_onD set_map)
  have r: "fst (recover_members lib lines) = fold (\<lambda>m ms. map_put (bl_key lib m) m ms) found []"
    by (simp add: recover_members_def recover_line_def bag(2) f(1) p)
  show ?thesis
  proof (rule ext)
    fix k
    show "map_of (fst (recover_members lib lines)) k = map_of ms k"
    proof (cases "map_of ms k")
      case None
      then have "\<not> (\<exists>m \<in> set found. bl_key lib m = k)"
        using ms unfolding f(2) members_ok_def map_of_eq_None_iff by force
      then show ?thesis using fold_put_map_of [OF inj, of "[]" k] None by (simp add: r)
    next
      case (Some m)
      then have m: "(k, m) \<in> set ms" by (rule map_of_SomeD)
      then have "m \<in> set found" "bl_key lib m = k" using ms by (force simp: f(2), auto simp: members_ok_def)
      moreover from this have "(THE x. x \<in> set found \<and> bl_key lib x = k) = m" using inj by (intro the_equality) auto
      ultimately show ?thesis using fold_put_map_of [OF inj, of "[]" k] Some by (auto simp: r)
    qed
  qed
qed

section \<open>Properties\<close>

abbreviation recovered :: "('m, 'bag, 'ctx) baggage_lib \<Rightarrow> 'ctx http_request \<Rightarrow> (string, 'm) gomap" where
  "recovered lib r \<equiv> fst (recover_members lib (ReqBaggage r))"

text \<open>C4: the transport is a fence: towards a host outside the allowlist no reader of the sent header
  finds the value context, whatever the header held before; towards an allowed host a reader finds the
  context of the request when it is encodable, and otherwise only what was in the header already; every
  other member arrives unchanged unless the whole header is dropped.\<close>

theorem egress_fence:
  assumes lib: "baggage_faithful lib"
  shows "let sent = fst (round_trip unicode_lower lib reg req); before = recovered lib req; after = recovered lib sent;
      allowed = host_allowed unicode_lower (AllowHosts reg) (go_lower unicode_lower (ReqHost req))
    in (\<not> allowed \<longrightarrow> \<not> map_has after member_key)
       \<and> (\<forall>vc enc m. allowed \<longrightarrow> from_context (bl_lookup lib) (ReqCtx req) = Present vc \<longrightarrow> encode_vc vc = Inr enc
            \<longrightarrow> bl_member lib member_key enc = Some m \<longrightarrow> ReqBaggage sent \<noteq> [] \<longrightarrow> map_of after member_key = Some m)
       \<and> (ReqBaggage sent \<noteq> [] \<longrightarrow> (\<forall>k. k \<noteq> member_key \<longrightarrow> map_of after k = map_of before k))
       \<and> ReqHost sent = ReqHost req \<and> ReqCtx sent = ReqCtx req"
proof -
  let ?host = "go_lower unicode_lower (ReqHost req)"
  let ?allowed = "host_allowed unicode_lower (AllowHosts reg) ?host"
  let ?before = "recovered lib req"
  obtain ms log2 where e: "egress_members lib ?allowed (ReqCtx req) ?before = (ms, log2)"
    by (cases "egress_members lib ?allowed (ReqCtx req) ?before")
  obtain lines log where s: "round_trip unicode_lower lib reg req = (req\<lparr>ReqBaggage := lines\<rparr>, log)"
      "lines = (case write_members lib ms of Some ls \<Rightarrow> ls | None \<Rightarrow> [])"
    using e by (cases "recover_members lib (ReqBaggage req)"; cases "write_members lib ms")
      (auto simp: round_trip_def Let_def)
  have b: "members_ok lib ?before" by (rule recover_members_ok)
  have m: "members_ok lib ms"
    using e b lib members_ok_put [OF b] members_ok_del [OF b]
    by (auto simp: egress_members_def baggage_faithful_def split: if_splits sum.splits option.splits found.splits)
      (metis)
  have others: "map_of ms k = map_of ?before k" if "k \<noteq> member_key" for k
    using e that by (auto simp: egress_members_def split: if_splits sum.splits option.splits found.splits)
  have fence: "\<not> map_has ms member_key" if "\<not> ?allowed"
    using e that by (auto simp: egress_members_def map_has_def split: if_splits)
  have inj: "map_of ms member_key = Some x"
    if "?allowed" "from_context (bl_lookup lib) (ReqCtx req) = Present vc" "encode_vc vc = Inr enc"
      "bl_member lib member_key enc = Some x" for vc enc x
    using e that by (auto simp: egress_members_def)
  have after: "map_of (fst (recover_members lib lines)) = (if lines = [] then map_of [] else map_of ms)"
    using recover_written [OF lib m] s(2) by (auto simp: recover_members_def split: option.splits)
  show ?thesis
    using fence inj others by (simp add: s(1) Let_def map_has_def after)
qed

text \<open>A baggage package small enough to compute with: members are pairs, printed with commas and equals
  signs and refused when they hold one.\<close>

definition plain_member :: "string \<times> string \<Rightarrow> bool" where
  "plain_member kv \<longleftrightarrow> CHR ''='' \<notin> set (fst kv) \<and> CHR '','' \<notin> set (fst kv) \<and> CHR '','' \<notin> set (snd kv)"

definition print_member :: "string \<times> string \<Rightarrow> string" where
  "print_member kv = fst kv @ CHR ''='' # snd kv"

definition pair_lib :: "(string \<times> string, (string \<times> string) list, (string \<times> string) list) baggage_lib" where
  "pair_lib = \<lparr>bl_parse = (\<lambda>s. (map (\<lambda>f. let (k, v, _) = cut CHR ''='' f in (k, v)) (split_on CHR '','' s), False)),
     bl_key = fst, bl_new = (\<lambda>ms. if list_all plain_member ms \<and> ms \<noteq> [] then Some ms else None),
     bl_string = (\<lambda>ms. join_with CHR '','' (map print_member ms)), bl_member = (\<lambda>k v. Some (k, v)),
     bl_with = (\<lambda>ctx bag. bag), bl_lookup = (\<lambda>ctx k. if map_has ctx k then (k, map_get [] ctx k) else ([], [])),
     bl_set = (\<lambda>ctx m. Some (map_put (fst m) (snd m) ctx))\<rparr>"

lemma pair_lib_faithful: "baggage_faithful pair_lib"
proof -
  have "bl_string pair_lib bag \<noteq> [] \<and> set (fst (bl_parse pair_lib (bl_string pair_lib bag))) = set ms"
    if "bl_new pair_lib ms = Some bag" for ms bag
  proof -
    have ms: "bag = ms" "list_all plain_member ms" "ms \<noteq> []" using that by (auto simp: pair_lib_def split: if_splits)
    have "split_on CHR '','' (join_with CHR '','' (map print_member ms)) = map print_member ms"
      using ms by (intro split_on_join) (auto simp: list_all_iff plain_member_def print_member_def)
    moreover have "map (\<lambda>kv. let (k, v, _) = cut CHR ''='' (print_member kv) in (k, v)) ms = ms"
      using ms(2) by (intro map_idI) (auto simp: list_all_iff plain_member_def print_member_def cut_found)
    moreover have "join_with CHR '','' (map print_member ms) \<noteq> []"
      using ms(3) by (cases ms; cases "tl ms") (auto simp: print_member_def join_with_Cons)
    ultimately show ?thesis by (simp add: pair_lib_def ms(1) comp_def)
  qed
  then show ?thesis by (auto simp: baggage_faithful_def pair_lib_def)
qed

definition fenced :: registry where
  "fenced = \<lparr>Version = 1, Segments = [], AllowHosts = [''*.corp.io''], Severity = [], flows = [], segment_set = []\<rparr>"

theorem egress_fence_witness:
  "\<not> map_has (recovered pair_lib (fst (round_trip (\<lambda>s. s) pair_lib fenced
      \<lparr>ReqHost = ''Evil.com'', ReqBaggage = [''biz.vc=secret,tenant=a'', ''biz.vc=again''], ReqCtx = []\<rparr>))) ''biz.vc''
    \<and> ReqBaggage (fst (round_trip (\<lambda>s. s) pair_lib fenced
      \<lparr>ReqHost = ''Evil.com'', ReqBaggage = [''biz.vc=secret,tenant=a'', ''biz.vc=again''], ReqCtx = []\<rparr>)) = [''tenant=a'']"
proof
  let ?req = "\<lparr>ReqHost = ''Evil.com'', ReqBaggage = [''biz.vc=secret,tenant=a'', ''biz.vc=again''], ReqCtx = []\<rparr>"
  have "\<not> host_allowed (\<lambda>s. s) (AllowHosts fenced) (go_lower (\<lambda>s. s) (ReqHost ?req))" by code_simp
  then show "\<not> map_has (recovered pair_lib (fst (round_trip (\<lambda>s. s) pair_lib fenced ?req))) ''biz.vc''"
    using egress_fence [OF pair_lib_faithful, of "\<lambda>s. s" fenced ?req] by (simp add: Let_def member_key_def)
  show "ReqBaggage (fst (round_trip (\<lambda>s. s) pair_lib fenced ?req)) = [''tenant=a'']" by code_simp
qed

text \<open>what the next handler reads is either the valid context of the wire, which always wins, or a
  stamp the hook made that passed validation; a stamp with a known amount is never changed by the
  estimator, an estimated one is only filled in its own currency, and a corrupt member on the wire is
  logged and never read.\<close>

theorem ingress_precedence:
  assumes set_get: "\<And>ctx v m ctx'. bl_member lib member_key v = Some m \<Longrightarrow> bl_set lib ctx m = Some ctx'
      \<Longrightarrow> bl_lookup lib ctx' member_key = (member_key, v)"
  shows "let (ctx', log) = middleware lib reg ingress r; wire = from_context (bl_lookup lib) (inbound_context lib r)
    in (\<forall>vc. wire = Present vc \<longrightarrow> from_context (bl_lookup lib) ctx' = Present vc)
       \<and> (\<forall>e. wire = Corrupt e \<longrightarrow> corrupt_on_wire \<in> set log)
       \<and> (\<forall>vc. from_context (bl_lookup lib) ctx' = Present vc \<longrightarrow> wire \<noteq> Present vc \<longrightarrow>
            (\<exists>hook vc0. ingress = Some hook \<and> hook r = (vc0, True) \<and> vc = wire_view (estimate reg vc0)
               \<and> vc_validate (estimate reg vc0) = None
               \<and> Currency (Money vc) = Currency (Money vc0)
               \<and> (Estimated vc0 \<and> Amount (Money vc0) = 0 \<or> Money vc = Money vc0)))"
proof -
  let ?c = "inbound_context lib r"
  let ?wire = "from_context (bl_lookup lib) ?c"
  have est: "Currency (Money (estimate reg vc)) = Currency (Money vc)
      \<and> (Estimated vc \<and> Amount (Money vc) = 0 \<or> estimate reg vc = vc)" for vc
    by (auto simp: estimate_def estimate_money_def Let_def split: option.splits prod.splits if_splits)
  have st: "from_context (bl_lookup lib) ctx' = ?wire
      \<or> (vc_validate (estimate reg vc0) = None \<and> from_context (bl_lookup lib) ctx' = Present (wire_view (estimate reg vc0)))"
    if s: "stamp lib reg ?c vc0 = (ctx', log)" for vc0 ctx' log
  proof (cases "vc_validate (estimate reg vc0) = None")
    case True
    obtain c2 err where w: "with_value_context (bl_member lib) (bl_set lib) ?c (estimate reg vc0) = (c2, err)"
      by (cases "with_value_context (bl_member lib) (bl_set lib) ?c (estimate reg vc0)")
    show ?thesis
    proof (cases err)
      case None
      have "from_context (bl_lookup lib) c2 = Present (wire_view (estimate reg vc0))"
      proof -
        obtain enc m where enc: "encode_vc (estimate reg vc0) = Inr enc" "bl_member lib member_key enc = Some m"
            "bl_set lib ?c m = Some c2"
          using w None by (auto simp: with_value_context_def split: sum.splits option.splits)
        then show ?thesis using set_get [OF enc(2,3)] decode_encode [OF enc(1)]
          by (simp add: from_context_def member_key_def)
      qed
      then show ?thesis using s True w None by (simp add: stamp_def)
    next
      case (Some e)
      then show ?thesis using s True w by (auto simp: stamp_def)
    qed
  qed (use s in \<open>simp add: stamp_def\<close>)
  have wv: "Money (wire_view vc) = Money vc" for vc by (simp add: wire_view_def)
  obtain members had where m: "recover_members lib (ReqBaggage r) = (members, had)" by (cases "recover_members lib (ReqBaggage r)")
  show ?thesis
  proof (cases ?wire)
    case (Present vc)
    then show ?thesis by (simp add: middleware_def Let_def m)
  next
    case Absent
    show ?thesis
    proof (cases ingress)
      case None
      then show ?thesis using Absent by (simp add: middleware_def Let_def m)
    next
      case (Some hook)
      obtain vc0 b where h: "hook r = (vc0, b)" by (cases "hook r")
      obtain ctx' log where s: "stamp lib reg ?c vc0 = (ctx', log)" by (cases "stamp lib reg ?c vc0")
      show ?thesis using Absent Some h s st [OF s] est [of vc0]
        by (cases b) (auto simp: middleware_def Let_def m wv)
    qed
  next
    case (Corrupt e)
    show ?thesis
    proof (cases ingress)
      case None
      then show ?thesis using Corrupt by (simp add: middleware_def Let_def m)
    next
      case (Some hook)
      obtain vc0 b where h: "hook r = (vc0, b)" by (cases "hook r")
      obtain ctx' log where s: "stamp lib reg ?c vc0 = (ctx', log)" by (cases "stamp lib reg ?c vc0")
      show ?thesis using Corrupt Some h s st [OF s] est [of vc0]
        by (cases b) (auto simp: middleware_def Let_def m wv)
    qed
  qed
qed

theorem ingress_precedence_witness:
  "\<exists>ctx log. middleware pair_lib None
       (Some (\<lambda>_. (\<lparr>Flow = ''checkout'', EntityID = ''ord-1'', CustomerID = ''c1'', Segment = [],
          Money = \<lparr>Amount = 1250, Currency = ''USD'', Exponent = 2\<rparr>, Kind = ''gmv'', Estimated = False, Deadline = zero_time\<rparr>, True)))
       \<lparr>ReqHost = ''a'', ReqBaggage = [''biz.vc=junk''], ReqCtx = []\<rparr> = (ctx, log)
     \<and> from_context (bl_lookup pair_lib) ctx = Present
         \<lparr>Flow = ''checkout'', EntityID = ''ord-1'', CustomerID = ''c1'', Segment = [],
          Money = \<lparr>Amount = 1250, Currency = ''USD'', Exponent = 2\<rparr>, Kind = ''gmv'', Estimated = False, Deadline = zero_time\<rparr>
     \<and> corrupt_on_wire \<in> set log"
proof -
  let ?vc = "\<lparr>Flow = ''checkout'', EntityID = ''ord-1'', CustomerID = ''c1'', Segment = [],
          Money = \<lparr>Amount = 1250, Currency = ''USD'', Exponent = 2\<rparr>, Kind = ''gmv'', Estimated = False, Deadline = zero_time\<rparr>"
  let ?r = "\<lparr>ReqHost = ''a'', ReqBaggage = [''biz.vc=junk''], ReqCtx = []\<rparr>"
  obtain ctx log where m: "middleware pair_lib None (Some (\<lambda>_. (?vc, True))) ?r = (ctx, log)"
    by (cases "middleware pair_lib None (Some (\<lambda>_. (?vc, True))) ?r")
  have law: "bl_lookup pair_lib ctx' member_key = (member_key, v)"
    if "bl_member pair_lib member_key v = Some m" "bl_set pair_lib ctx m = Some ctx'" for ctx v m ctx'
    using that by (auto simp: pair_lib_def)
  have w: "from_context (bl_lookup pair_lib) (inbound_context pair_lib ?r) = Corrupt (FieldCount 1)" by code_simp
  have "from_context (bl_lookup pair_lib) (fst (middleware pair_lib None (Some (\<lambda>_. (?vc, True))) ?r)) = Present ?vc"
    by code_simp
  moreover have "corrupt_on_wire \<in> set log"
    using ingress_precedence [OF law, where reg = None and ingress = "Some (\<lambda>_. (?vc, True))" and r = ?r] w m by (simp add: Let_def)
  ultimately show ?thesis using m by simp
qed

end
