(* ===== verification/Stripe.thy ===== *)
theory Stripe
  imports Biz_Context Registry
begin

text \<open>
  The Stripe adapter: \<open>adapters/payment/stripe/stripe.go\<close> and \<open>webhook.go\<close> (verified webhooks become
  outcomes) and \<open>client.go\<close> (the decorator that observes API calls). What the SDK does is a parameter:
  the verification of a signature, the JSON decoding of a payload, and the answer of the wrapped
  backend. The names of the SDK's event types are their documented values.
\<close>

section \<open>Currencies and metadata\<close>

text \<open>\<open>strings.ToUpper\<close> and \<open>ToLower\<close>: ASCII is written out, the Unicode tables are a parameter.\<close>

definition go_upper :: "(string \<Rightarrow> string) \<Rightarrow> string \<Rightarrow> string" where
  "go_upper unicode_upper s = (if is_ascii s then to_upper s else unicode_upper s)"

definition go_lower :: "(string \<Rightarrow> string) \<Rightarrow> string \<Rightarrow> string" where
  "go_lower unicode_lower s = (if is_ascii s then to_lower s else unicode_lower s)"

definition currency_exponent :: "string \<Rightarrow> i8" where
  "currency_exponent c =
     (if c \<in> set [''BIF'', ''CLP'', ''DJF'', ''GNF'', ''JPY'', ''KMF'', ''KRW'', ''MGA'', ''PYG'', ''RWF'', ''UGX'', ''VND'',
          ''VUV'', ''XAF'', ''XOF'', ''XPF''] then 0
      else if c \<in> set [''BHD'', ''JOD'', ''KWD'', ''OMR'', ''TND''] then 3
      else 2)"

definition meta_flow :: string where "meta_flow = ''biz_flow''"
definition meta_entity :: string where "meta_entity = ''biz_entity''"
definition meta_customer :: string where "meta_customer = ''biz_customer''"

lemmas meta_defs = meta_flow_def meta_entity_def meta_customer_def

type_synonym metadata = "(string, string) gomap"

text \<open>A params object is its metadata, \<open>None\<close> a nil one.\<close>

definition with_stripe_metadata :: "metadata option \<Rightarrow> value_context \<Rightarrow> metadata option" where
  "with_stripe_metadata p vc =
     (case p of None \<Rightarrow> None
      | Some md \<Rightarrow> Some (map_put meta_customer (CustomerID vc) (map_put meta_entity (EntityID vc) (map_put meta_flow (Flow vc) md))))"

section \<open>Events and stages\<close>

datatype amount_field = AmtAmount | AmtPaid | AmtDue

record event_mapping =
  MapStage :: string
  MapResult :: string
  MapAmount :: amount_field

definition mapping_of :: "string \<Rightarrow> string \<Rightarrow> amount_field \<Rightarrow> event_mapping" where
  "mapping_of st r a = \<lparr>MapStage = st, MapResult = r, MapAmount = a\<rparr>"

definition event_map :: "(string, event_mapping) gomap" where
  "event_map =
     [(''payment_intent.succeeded'', mapping_of ''capture'' res_success AmtAmount),
      (''payment_intent.payment_failed'', mapping_of ''capture'' res_failed AmtAmount),
      (''payment_intent.processing'', mapping_of ''capture'' res_deferred AmtAmount),
      (''payment_intent.requires_action'', mapping_of ''auth'' res_deferred AmtAmount),
      (''charge.failed'', mapping_of ''capture'' res_failed AmtAmount),
      (''invoice.paid'', mapping_of ''settle'' res_success AmtPaid),
      (''invoice.payment_failed'', mapping_of ''settle'' res_failed AmtDue),
      (''charge.dispute.created'', mapping_of ''dispute'' res_failed AmtAmount)]"

definition auth_stage :: string where "auth_stage = ''auth''"

definition emits_stage :: "string \<Rightarrow> bool" where
  "emits_stage stage \<longleftrightarrow> stage = auth_stage \<or> list_ex (\<lambda>(_, m). MapStage m = stage) event_map"

definition stage_rune :: "nat \<Rightarrow> bool" where
  "stage_rune r \<longleftrightarrow> is_lower r \<or> is_digit r \<or> r = byte CHR ''.'' \<or> r = byte CHR ''_'' \<or> r = byte CHR ''-''"

definition stage_shaped :: "string \<Rightarrow> bool" where
  "stage_shaped s \<longleftrightarrow> \<not> (s = [] \<or> length s > 32) \<and> list_all stage_rune (rune_values s)"

type_synonym stage_map = "(string, string) gomap"

text \<open>The panic of a bad map, \<open>None\<close> for a good one.\<close>

fun validate_stage_map :: "stage_map \<Rightarrow> string option" where
  "validate_stage_map [] = None"
| "validate_stage_map ((from, to) # m) =
     (if \<not> emits_stage from
      then Some (''stripe: stage map: '' @ quoted from @ '' is not a stage this adapter emits'')
      else if \<not> stage_shaped to
      then Some (''stripe: stage map: '' @ quoted from @ '' -> '' @ quoted to
             @ '' is not a registry stage name (lowercase [a-z0-9._-], 1-32 bytes)'')
      else validate_stage_map m)"

text \<open>\<open>WithStageMap\<close>: a panic, or what the option does to the configured stages.\<close>

definition with_stage_map :: "stage_map \<Rightarrow> string + (stage_map \<Rightarrow> stage_map)" where
  "with_stage_map stages =
     (case validate_stage_map stages of
        Some p \<Rightarrow> Inl p
      | None \<Rightarrow> Inr (\<lambda>cfg. fold (\<lambda>(from, to) m. map_put from to m) stages cfg))"

section \<open>Webhooks\<close>

record stripe_event =
  EvType :: string
  EvCreated :: int
  EvRaw :: "string option"

record stripe_object =
  ObjAmount :: i64
  ObjAmountPaid :: i64
  ObjAmountDue :: i64
  ObjCurrency :: string
  ObjMetadata :: metadata

definition object_zero :: stripe_object where
  "object_zero = \<lparr>ObjAmount = 0, ObjAmountPaid = 0, ObjAmountDue = 0, ObjCurrency = [], ObjMetadata = []\<rparr>"

definition webhook_source :: string where "webhook_source = ''stripe:webhook''"

definition outcome_zero :: outcome where
  "outcome_zero =
     \<lparr>At = zero_time,
      VC = \<lparr>Flow = [], EntityID = [], CustomerID = [], Segment = [], Money = zero_money, Kind = [], Estimated = False,
        Deadline = zero_time\<rparr>,
      Stage = [], Result = [], Source = [], TraceID = [], Err = []\<rparr>"

text \<open>The context that metadata, an amount and a currency make (both paths build it field by field).\<close>

definition context_of_metadata :: "metadata \<Rightarrow> i64 \<Rightarrow> string \<Rightarrow> value_context" where
  "context_of_metadata md amount currency =
     \<lparr>Flow = map_get [] md meta_flow, EntityID = map_get [] md meta_entity, CustomerID = map_get [] md meta_customer,
      Segment = [], Money = \<lparr>Amount = amount, Currency = currency, Exponent = currency_exponent currency\<rparr>,
      Kind = kind_gmv, Estimated = False, Deadline = zero_time\<rparr>"

definition map_event ::
  "(string \<Rightarrow> string) \<Rightarrow> stage_map \<Rightarrow> event_mapping \<Rightarrow> stripe_event \<Rightarrow> stripe_object \<Rightarrow> outcome" where
  "map_event unicode_upper stages m ev obj =
     (let amount = (case MapAmount m of AmtPaid \<Rightarrow> ObjAmountPaid obj | AmtDue \<Rightarrow> ObjAmountDue obj | AmtAmount \<Rightarrow> ObjAmount obj);
          currency = go_upper unicode_upper (ObjCurrency obj);
          stage = (case map_of stages (MapStage m) of Some to \<Rightarrow> to | None \<Rightarrow> MapStage m)
      in outcome_zero\<lparr>At := unix_time (EvCreated ev), Stage := stage, Result := MapResult m, Source := webhook_source,
           VC := context_of_metadata (ObjMetadata obj) amount currency\<rparr>)"

definition verify_and_map ::
  "(string \<Rightarrow> string) \<Rightarrow> (string \<Rightarrow> string \<Rightarrow> string \<Rightarrow> string + stripe_event) \<Rightarrow> (string \<Rightarrow> string + stripe_object)
     \<Rightarrow> stage_map \<Rightarrow> string \<Rightarrow> string \<Rightarrow> string \<Rightarrow> string + outcome \<times> bool" where
  "verify_and_map unicode_upper construct_event unmarshal stages payload sig secret =
     (case construct_event payload sig secret of
        Inl e \<Rightarrow> Inl (''stripe: signature verification failed: '' @ e)
      | Inr ev \<Rightarrow>
          (case map_of event_map (EvType ev) of
             None \<Rightarrow> Inr (outcome_zero, False)
           | Some m \<Rightarrow>
               (case (case EvRaw ev of Some raw \<Rightarrow> if raw \<noteq> [] then unmarshal raw else Inr object_zero | None \<Rightarrow> Inr object_zero) of
                  Inl e \<Rightarrow> Inl (''stripe: decode '' @ EvType ev @ '' payload: '' @ e)
                | Inr obj \<Rightarrow> Inr (map_event unicode_upper stages m ev obj, True))))"

definition max_webhook_body :: nat where "max_webhook_body = 2 ^ 20"

text \<open>The handler: the status and the outcomes handed to the sink; the body is \<open>None\<close> when reading it
  fails, and there may be no sink.\<close>

definition handler ::
  "(string \<Rightarrow> string) \<Rightarrow> (string \<Rightarrow> string \<Rightarrow> string \<Rightarrow> string + stripe_event) \<Rightarrow> (string \<Rightarrow> string + stripe_object)
     \<Rightarrow> stage_map \<Rightarrow> string \<Rightarrow> bool \<Rightarrow> string option \<Rightarrow> string \<Rightarrow> nat \<times> outcome list" where
  "handler unicode_upper construct_event unmarshal stages secret has_sink body sig =
     (case body of
        None \<Rightarrow> (400, [])
      | Some b \<Rightarrow>
          (case verify_and_map unicode_upper construct_event unmarshal stages (take max_webhook_body b) sig secret of
             Inl e \<Rightarrow> (400, [])
           | Inr (out, mapped) \<Rightarrow> (200, if mapped \<and> has_sink then [out] else [])))"

section \<open>The operation label\<close>

definition stripe_namespaces :: "string list" where
  "stripe_namespaces =
     [''checkout'', ''billing_portal'', ''billing'', ''issuing'', ''treasury'', ''radar'', ''terminal'',
      ''financial_connections'', ''identity'', ''reporting'', ''apps'', ''test_helpers'', ''climate'',
      ''forwarding'', ''tax'', ''entitlements'', ''sigma'']"

definition is_id_shaped :: "string \<Rightarrow> bool" where
  "is_id_shaped s =
     (let (before, after, found) = cut CHR ''_'' s
      in found \<and> before \<noteq> [] \<and> after \<noteq> [] \<and> list_ex (\<lambda>r. is_digit r \<or> is_upper r) (rune_values after))"

definition path_segments :: "string \<Rightarrow> string list" where
  "path_segments path = [s \<leftarrow> split_on CHR ''/'' (fst (cut_prefix path ''/'')). s \<noteq> [] \<and> s \<noteq> ''v1'']"

text \<open>The resource span, and the segments after it.\<close>

definition resource_span :: "string list \<Rightarrow> string list \<times> string list" where
  "resource_span segs =
     (if 2 \<le> length segs \<and> hd segs \<in> set stripe_namespaces then (take 2 segs, drop 2 segs)
      else (take 1 segs, drop 1 segs))"

text \<open>The walk over id, name, id, \<open>\<dots>\<close>: the kept parts, \<open>idSeen\<close> and \<open>endedAtID\<close>.\<close>

fun walk_segments :: "string list \<Rightarrow> string list \<Rightarrow> bool \<Rightarrow> bool \<Rightarrow> string list \<times> bool \<times> bool" where
  "walk_segments [] parts id_seen ended_at_id = (parts, id_seen, ended_at_id)"
| "walk_segments [i] parts id_seen ended_at_id = (parts, True, True)"
| "walk_segments (i # s # segs) parts id_seen ended_at_id =
     walk_segments segs (if is_id_shaped s then parts else parts @ [s]) True False"

definition derive_op :: "(string \<Rightarrow> string) \<Rightarrow> string \<Rightarrow> string \<Rightarrow> string" where
  "derive_op unicode_lower http_method path =
     (let segs = path_segments path
      in if segs = [] then go_lower unicode_lower http_method
         else
           (let (parts, rest) = resource_span segs;
                (parts, id_seen, ended_at_id) = walk_segments rest parts False False;
                base = join_with CHR ''.'' parts;
                other = base @ ''.'' @ go_lower unicode_lower http_method
            in if ended_at_id then
                 (if http_method = ''GET'' then base @ ''.get''
                  else if http_method = ''POST'' then base @ ''.update''
                  else if http_method = ''DELETE'' then base @ ''.delete''
                  else other)
               else if id_seen then base
               else if http_method = ''POST'' then base @ ''.create''
               else if http_method = ''GET'' then base @ ''.list''
               else if http_method = ''DELETE'' then base @ ''.delete''
               else other))"

section \<open>The observed backend\<close>

text \<open>An error of the wrapped backend: the status and text when Stripe answered (\<open>errors.As\<close> finds a
  \<open>*stripe.Error\<close>), the text of any other error.\<close>

datatype call_error = StripeError i64 string | OtherError string

fun error_text :: "call_error \<Rightarrow> string" where
  "error_text (StripeError st msg) = msg"
| "error_text (OtherError msg) = msg"

fun status_of :: "call_error option \<Rightarrow> i64" where
  "status_of None = 200"
| "status_of (Some (StripeError st msg)) = st"
| "status_of (Some (OtherError msg)) = 0"

definition provider_outcome :: "i64 \<Rightarrow> call_error option \<Rightarrow> string" where
  "provider_outcome status err =
     (if err = None then ''success''
      else if 400 \<le> sint status \<and> sint status < 500 \<and> status \<noteq> 429 then ''success''
      else ''failed'')"

definition is_auth_op :: "string \<Rightarrow> bool" where
  "is_auth_op op \<longleftrightarrow> op = ''payment_intents.create'' \<or> op = ''payment_intents.confirm''"

text \<open>The params of a call: those of a payment intent (its metadata, amount and currency, \<open>None\<close> a nil
  pointer), a nil pointer of that type, or another type.\<close>

datatype call_params = IntentParams metadata "i64 option" "string option" | NilIntentParams | OtherParams

fun auth_vc :: "(string \<Rightarrow> string) \<Rightarrow> call_params \<Rightarrow> value_context option" where
  "auth_vc unicode_upper (IntentParams md amt cur) =
     (if map_get [] md meta_flow = [] then None
      else
        (let amount = (case amt of Some a \<Rightarrow> a | None \<Rightarrow> 0);
             currency = (case cur of Some c \<Rightarrow> go_upper unicode_upper c | None \<Rightarrow> [])
         in Some (context_of_metadata md amount currency)))"
| "auth_vc unicode_upper NilIntentParams = None"
| "auth_vc unicode_upper OtherParams = None"

fun trunc_err :: "call_error option \<Rightarrow> string" where
  "trunc_err None = []"
| "trunc_err (Some e) = (if length (error_text e) > 480 then take 480 (error_text e) else error_text e)"

definition client_source :: string where "client_source = ''stripe:client''"

record provider_call =
  CallOp :: string
  CallOutcome :: string
  CallStatus :: i64
  CallLatency :: duration
  CallErr :: "call_error option"

record stripe_backend =
  HasOnCall :: bool
  HasOnAuth :: bool
  AuthStage :: string

definition wrap_backend :: "(stripe_backend \<Rightarrow> stripe_backend) list \<Rightarrow> stripe_backend" where
  "wrap_backend opts = fold (\<lambda>opt b. opt b) opts \<lparr>HasOnCall = False, HasOnAuth = False, AuthStage = auth_stage\<rparr>"

definition with_provider_metric :: "stripe_backend \<Rightarrow> stripe_backend" where
  "with_provider_metric b = b\<lparr>HasOnCall := True\<rparr>"

definition with_auth_outcome :: "stripe_backend \<Rightarrow> stripe_backend" where
  "with_auth_outcome b = b\<lparr>HasOnAuth := True\<rparr>"

definition with_backend_stage_map :: "stage_map \<Rightarrow> string + (stripe_backend \<Rightarrow> stripe_backend)" where
  "with_backend_stage_map stages =
     (case validate_stage_map stages of
        Some p \<Rightarrow> Inl p
      | None \<Rightarrow> Inr (\<lambda>b. case map_of stages auth_stage of Some to \<Rightarrow> b\<lparr>AuthStage := to\<rparr> | None \<Rightarrow> b))"

text \<open>What a call does besides delegating: the callbacks it makes, in order.\<close>

datatype observation = OnCall provider_call | OnAuth outcome

definition backend_call ::
  "(string \<Rightarrow> string) \<Rightarrow> (string \<Rightarrow> string) \<Rightarrow> stripe_backend \<Rightarrow> time \<Rightarrow> time \<Rightarrow> call_error option
     \<Rightarrow> string \<Rightarrow> string \<Rightarrow> call_params \<Rightarrow> observation list \<times> call_error option" where
  "backend_call unicode_upper unicode_lower b start finish err http_method path params =
     (let latency = time_sub finish start;
          status = status_of err;
          result = provider_outcome status err;
          op = derive_op unicode_lower http_method path;
          calls = (if HasOnCall b
                   then [OnCall \<lparr>CallOp = op, CallOutcome = result, CallStatus = status, CallLatency = latency, CallErr = err\<rparr>]
                   else []);
          auths = (if HasOnAuth b \<and> result = ''failed'' \<and> is_auth_op op
                   then (case auth_vc unicode_upper params of
                           Some vc \<Rightarrow> [OnAuth (outcome_zero\<lparr>At := start, Stage := AuthStage b, Result := res_failed,
                                               Source := client_source, Err := trunc_err err, VC := vc\<rparr>)]
                         | None \<Rightarrow> [])
                   else [])
      in (calls @ auths, err))"

section \<open>Lemmas\<close>

lemma stage_rune_is: "stage_rune = token_rune"
  by (auto simp: fun_eq_iff stage_rune_def token_rune_def)

lemma first_bad_ok: "first_bad P rs = None \<longleftrightarrow> list_all P rs"
  by (induction rs) auto

lemma stage_shaped_iff: "stage_shaped s \<longleftrightarrow> lower_token s max_stage_len = None"
proof -
  have "stage_shaped s \<longleftrightarrow> \<not> (s = [] \<or> length s > 32) \<and> first_bad token_rune (rune_values s) = None"
    by (simp only: stage_shaped_def stage_rune_is first_bad_ok)
  then show ?thesis
    by (cases "first_bad token_rune (rune_values s)") (simp_all only: lower_token_def max_stage_len_def, simp_all)
qed

lemma validate_stage_map_None:
  "validate_stage_map m = None \<longleftrightarrow> (\<forall>(from, to) \<in> set m. emits_stage from \<and> stage_shaped to)"
  by (induction m rule: validate_stage_map.induct) auto

text \<open>The stages the adapter emits pass the fence of stage names themselves.\<close>

lemma stage_shaped_ascii:
  "stage_shaped s \<longleftrightarrow> s \<noteq> [] \<and> length s \<le> 32 \<and> list_all (\<lambda>c. token_rune (byte c)) s"
  using stage_shaped_iff by (simp add: max_stage_len_def)

lemma emitted_stages:
  "stage_shaped ''capture''" "stage_shaped ''auth''" "stage_shaped ''settle''" "stage_shaped ''dispute''"
  by (simp_all add: stage_shaped_ascii token_rune_def is_lower_iff is_digit_iff)

lemma event_map_all: "list_all (\<lambda>(t, m). stage_shaped (MapStage m) \<and> result_valid (MapResult m)) event_map"
  by (simp add: event_map_def mapping_of_def emitted_stages result_valid_def)

lemma event_map_ok:
  "map_of event_map t = Some m \<Longrightarrow> stage_shaped (MapStage m) \<and> result_valid (MapResult m)"
  using event_map_all by (fastforce simp: list_all_iff dest: map_of_SomeD)

lemma auth_stage_shaped: "stage_shaped auth_stage"
  by (simp add: auth_stage_def emitted_stages)

text \<open>A stage map built from accepted options renames to stage names only.\<close>

definition stages_ok :: "stage_map \<Rightarrow> bool" where
  "stages_ok cfg \<longleftrightarrow> (\<forall>from to. map_of cfg from = Some to \<longrightarrow> stage_shaped to)"

lemma stages_ok_put: "stage_shaped to \<Longrightarrow> stages_ok cfg \<Longrightarrow> stages_ok (map_put from to cfg)"
  by (simp add: stages_ok_def)

lemma fold_put_stages:
  "(\<forall>(from, to) \<in> set m. stage_shaped to) \<Longrightarrow> stages_ok cfg
     \<Longrightarrow> stages_ok (fold (\<lambda>(from, to) m. map_put from to m) m cfg)"
  by (induction m arbitrary: cfg) (auto intro: stages_ok_put)

lemma with_stage_map_ok: "with_stage_map m = Inr opt \<Longrightarrow> stages_ok cfg \<Longrightarrow> stages_ok (opt cfg)"
  by (auto simp: with_stage_map_def validate_stage_map_None split: option.splits intro!: fold_put_stages)

text \<open>The configuration an accepted list of options makes.\<close>

definition configured :: "stage_map list \<Rightarrow> stage_map option" where
  "configured opts =
     (if \<forall>m \<in> set opts. validate_stage_map m = None
      then Some (fold (\<lambda>m. projr (with_stage_map m)) opts []) else None)"

lemma configured_ok: "configured opts = Some cfg \<Longrightarrow> stages_ok cfg"
proof -
  have "stages_ok (fold (\<lambda>m. projr (with_stage_map m)) opts c)"
    if "\<forall>m \<in> set opts. validate_stage_map m = None" "stages_ok c" for c
    using that
  proof (induction opts arbitrary: c)
    case (Cons m opts)
    then have "with_stage_map m = Inr (projr (with_stage_map m))" by (simp add: with_stage_map_def)
    then have "stages_ok (projr (with_stage_map m) c)" using with_stage_map_ok Cons.prems(2) by blast
    then show ?case using Cons by simp
  qed simp
  moreover have "stages_ok []" by (simp add: stages_ok_def)
  ultimately show "configured opts = Some cfg \<Longrightarrow> stages_ok cfg" by (auto simp: configured_def split: if_splits)
qed

lemma sources_ok:
  "id_token webhook_source max_id_len = None" "check_pii ''source'' webhook_source = None"
  "id_token client_source max_id_len = None" "check_pii ''source'' client_source = None"
  by code_simp+

lemma mapped_event:
  "verify_and_map up construct_event unmarshal cfg payload sig secret = Inr (out, True) \<Longrightarrow>
     \<exists>ev m obj. construct_event payload sig secret = Inr ev \<and> map_of event_map (EvType ev) = Some m
       \<and> out = map_event up cfg m ev obj"
  by (auto simp: verify_and_map_def split: sum.splits option.splits if_splits)

lemma handler_delivers:
  "handler up construct_event unmarshal cfg secret has_sink body sig = (st, outs) \<Longrightarrow> out \<in> set outs \<Longrightarrow>
     \<exists>b. body = Some b \<and> st = 200
       \<and> verify_and_map up construct_event unmarshal cfg (take max_webhook_body b) sig secret = Inr (out, True)"
  by (auto simp: handler_def split: option.splits sum.splits prod.splits if_splits)

lemma map_event_fence:
  assumes "stages_ok cfg" "map_of event_map t = Some m" "EvCreated ev \<noteq> - 62135596800"
  shows "outcome_validate (map_event up cfg m ev obj) = vc_validate (VC (map_event up cfg m ev obj))"
proof -
  let ?o = "map_event up cfg m ev obj"
  have st: "lower_token (Stage ?o) max_stage_len = None" and res: "result_valid (Result ?o)"
    using assms(1) event_map_ok [OF assms(2)]
    by (auto simp: map_event_def Let_def stages_ok_def simp del: lower_token_None simp flip: stage_shaped_iff
        split: option.splits)
  have "Source ?o = webhook_source" "TraceID ?o = []" "Err ?o = []" "\<not> is_zero_time (At ?o)"
    using assms(3) by (simp_all add: map_event_def outcome_zero_def Let_def unix_time_zero_iff)
  moreover have "trace_id_error [] = None" by (simp add: trace_id_error_def)
  ultimately show ?thesis using st res sources_ok
    by (simp add: outcome_validate_def del: lower_token_None id_token_None check_pii_None)
       (cases "vc_validate (VC (map_event up cfg m ev obj))"; simp)
qed
section \<open>Operation labels carry no ids\<close>

definition segment_ok :: "string \<Rightarrow> bool" where
  "segment_ok s \<longleftrightarrow> s \<noteq> [] \<and> s \<noteq> ''v1'' \<and> CHR ''/'' \<notin> set s"

text \<open>A path of the API: a resource, then an id and a name in turn, and perhaps a last id.\<close>

definition resource_ok :: "string list \<Rightarrow> bool" where
  "resource_ok res \<longleftrightarrow> list_all segment_ok res
     \<and> (case res of [r] \<Rightarrow> r \<notin> set stripe_namespaces | [ns, r] \<Rightarrow> ns \<in> set stripe_namespaces | _ \<Rightarrow> False)"

definition api_path :: "string list \<Rightarrow> (string \<times> string) list \<Rightarrow> string option \<Rightarrow> string" where
  "api_path res hops tail =
     concat (map (\<lambda>s. CHR ''/'' # s) (''v1'' # res @ concat (map (\<lambda>(i, s). [i, s]) hops) @ (case tail of Some i \<Rightarrow> [i] | None \<Rightarrow> [])))"

text \<open>The label, from the method, the resource, the names and whether the path ends at an id.\<close>

definition op_label :: "(string \<Rightarrow> string) \<Rightarrow> string \<Rightarrow> string list \<Rightarrow> string list \<Rightarrow> bool \<Rightarrow> string" where
  "op_label unicode_lower http_method res names ends_at_id =
     (let base = join_with CHR ''.'' (res @ [s \<leftarrow> names. \<not> is_id_shaped s]);
          verb = (if http_method = ''DELETE'' then ''delete''
                  else if http_method = ''GET'' then (if ends_at_id then ''get'' else ''list'')
                  else if http_method = ''POST'' then (if ends_at_id then ''update'' else ''create'')
                  else go_lower unicode_lower http_method)
      in if \<not> ends_at_id \<and> names \<noteq> [] then base else base @ ''.'' @ verb)"

lemma split_path:
  "list_all (\<lambda>s. CHR ''/'' \<notin> set s) ss \<Longrightarrow> CHR ''/'' \<notin> set s0 \<Longrightarrow>
     split_on CHR ''/'' (s0 @ concat (map (\<lambda>s. CHR ''/'' # s) ss)) = s0 # ss"
  by (induction ss arbitrary: s0) (auto simp: split_on_append split_on_no_sep)

lemma hop_segments: "list_all segment_ok (concat (map (\<lambda>(i, s). [i, s]) hops)) \<longleftrightarrow> list_all (\<lambda>(i, s). segment_ok i \<and> segment_ok s) hops"
  by (induction hops) auto

lemma api_segments:
  assumes "resource_ok res" "list_all (\<lambda>(i, s). segment_ok i \<and> segment_ok s) hops" "list_all segment_ok (case tail of Some i \<Rightarrow> [i] | None \<Rightarrow> [])"
  shows "path_segments (api_path res hops tail)
    = res @ concat (map (\<lambda>(i, s). [i, s]) hops) @ (case tail of Some i \<Rightarrow> [i] | None \<Rightarrow> [])"
    (is "_ = ?segs")
proof -
  have ok: "list_all segment_ok ?segs" using assms by (simp add: resource_ok_def hop_segments)
  have "fst (cut_prefix (api_path res hops tail) ''/'') = ''v1'' @ concat (map (\<lambda>s. CHR ''/'' # s) ?segs)"
    by (simp add: api_path_def cut_prefix_def has_prefix_def)
  moreover have "list_all (\<lambda>s. CHR ''/'' \<notin> set s) ?segs"
    using ok by (rule list.pred_mono_strong) (simp add: segment_ok_def)
  ultimately have "split_on CHR ''/'' (fst (cut_prefix (api_path res hops tail) ''/'')) = ''v1'' # ?segs"
    using split_path [of ?segs "''v1''"] by simp
  moreover have "[s \<leftarrow> ?segs. s \<noteq> [] \<and> s \<noteq> ''v1''] = ?segs"
    using ok by (auto simp: filter_id_conv list_all_iff segment_ok_def)
  ultimately show ?thesis by (simp add: path_segments_def)
qed

lemma resource_span_ok: "resource_ok res \<Longrightarrow> resource_span (res @ rest) = (res, rest)"
  by (auto simp: resource_ok_def resource_span_def split: list.splits)

lemma walk_hops:
  "walk_segments (concat (map (\<lambda>(i, s). [i, s]) hops) @ (case tail of Some i \<Rightarrow> [i] | None \<Rightarrow> [])) parts seen ended
     = (parts @ [s \<leftarrow> map snd hops. \<not> is_id_shaped s], seen \<or> hops \<noteq> [] \<or> tail \<noteq> None,
        if tail \<noteq> None then True else if hops \<noteq> [] then False else ended)"
proof (induction hops arbitrary: parts seen ended)
  case Nil
  show ?case by (cases tail) auto
next
  case (Cons h hops)
  obtain i s where "h = (i, s)" by (cases h)
  then show ?case by (simp add: Cons.IH)
qed

text \<open>C30: whatever non-empty ids without a slash, other than the text "v1", stand in a path of the API, the label of
  the call is a function of the method, the resource and the names between the ids alone: no such id, user-chosen or
  generated, reaches it. (The exception is real: Lemma \<open>v1_id_shifts\<close>.)\<close>

theorem derive_op_hides_ids:
  assumes "resource_ok res"
    and "list_all (\<lambda>(i, s). segment_ok i \<and> segment_ok s) hops"
    and "list_all segment_ok (case tail of Some i \<Rightarrow> [i] | None \<Rightarrow> [])"
  shows "derive_op unicode_lower http_method (api_path res hops tail)
    = op_label unicode_lower http_method res (map snd hops) (tail \<noteq> None)"
proof -
  have "res \<noteq> []" using assms(1) by (auto simp: resource_ok_def)
  then show ?thesis
    by (simp add: derive_op_def api_segments [OF assms] resource_span_ok [OF assms(1)] walk_hops op_label_def Let_def)
qed

theorem derive_op_hides_ids_witness:
  "derive_op id ''POST'' (api_path [''payment_intents''] [(''pi_3Q'', ''confirm'')] None)
     = op_label id ''POST'' [''payment_intents''] [''confirm''] False
   \<and> derive_op id ''GET'' (api_path [''checkout'', ''sessions''] [] (Some ''summer''))
     = op_label id ''GET'' [''checkout'', ''sessions''] [] True"
  using derive_op_hides_ids [of "[''payment_intents'']" "[(''pi_3Q'', ''confirm'')]" None id "''POST''"]
    derive_op_hides_ids [of "[''checkout'', ''sessions'']" "[]" "Some ''summer''" id "''GET''"]
  by (simp add: resource_ok_def segment_ok_def stripe_namespaces_def)

section \<open>What a webhook can put into the telemetry\<close>

text \<open>C29: The sink receives an outcome only for a payload, within the size cap, whose signature verified and
  whose type is mapped, and the answer is then 200; under stage maps that were accepted, what the emitter's
  boundary says of that outcome is what it says of its value context: stage, result, source and time never
  make it reject one (an event dated at the zero time apart).\<close>

theorem webhook_outcome_fate:
  assumes "configured opts = Some cfg"
    and "handler unicode_upper construct_event unmarshal cfg secret has_sink body sig = (status, outs)"
    and "out \<in> set outs"
  shows "\<exists>b ev m obj. body = Some b \<and> construct_event (take max_webhook_body b) sig secret = Inr ev
    \<and> map_of event_map (EvType ev) = Some m \<and> status = 200 \<and> outs = [out]
    \<and> out = map_event unicode_upper cfg m ev obj
    \<and> outcome_validate out = (if EvCreated ev = - 62135596800 then Some TimeZero else vc_validate (VC out))"
proof -
  obtain b where b: "body = Some b" "status = 200"
    "verify_and_map unicode_upper construct_event unmarshal cfg (take max_webhook_body b) sig secret = Inr (out, True)"
    using handler_delivers [OF assms(2,3)] by blast
  have one: "outs = [out]" using assms(2,3) b by (auto simp: handler_def split: if_splits)
  obtain ev m obj where ev: "construct_event (take max_webhook_body b) sig secret = Inr ev"
    "map_of event_map (EvType ev) = Some m" "out = map_event unicode_upper cfg m ev obj"
    using mapped_event [OF b(3)] by blast
  have "outcome_validate out = (if EvCreated ev = - 62135596800 then Some TimeZero else vc_validate (VC out))"
  proof (cases "EvCreated ev = - 62135596800")
    case True
    then have "is_zero_time (At out)" by (simp add: ev(3) map_event_def Let_def unix_time_zero_iff)
    then show ?thesis using True by (simp add: outcome_validate_def)
  next
    case False
    then show ?thesis using map_event_fence [OF configured_ok [OF assms(1)] ev(2) False] ev(3) by simp
  qed
  then show ?thesis using b one ev by blast
qed

definition demo_event :: stripe_event where
  "demo_event = \<lparr>EvType = ''payment_intent.succeeded'', EvCreated = 1700000000, EvRaw = Some ''{}''\<rparr>"

definition demo_object :: stripe_object where
  "demo_object = object_zero\<lparr>ObjAmount := 4250, ObjCurrency := ''usd'', ObjMetadata := [(meta_flow, ''checkout''), (meta_entity, ''ord_1'')]\<rparr>"

definition demo_outcome :: outcome where
  "demo_outcome = map_event id [(''capture'', ''charge'')] (mapping_of ''capture'' res_success AmtAmount) demo_event demo_object"

lemma demo_configured: "configured [[(''capture'', ''charge'')]] = Some [(''capture'', ''charge'')]"
  by (simp add: configured_def with_stage_map_def emits_stage_def event_map_def mapping_of_def stage_shaped_ascii
      token_rune_def is_lower_iff is_digit_iff)

lemma demo_mapping: "map_of event_map ''payment_intent.succeeded'' = Some (mapping_of ''capture'' res_success AmtAmount)"
  by (simp add: event_map_def)

lemma demo_handled:
  "handler id (\<lambda>p s k. if s = ''good'' then Inr demo_event else Inl ''no'') (\<lambda>raw. Inr demo_object) [(''capture'', ''charge'')]
     ''whsec'' True (Some ''body'') ''good'' = (200, [demo_outcome])"
  by (simp add: handler_def verify_and_map_def demo_outcome_def demo_event_def demo_mapping)

theorem webhook_outcome_fate_witness:
  "Stage demo_outcome = ''charge'' \<and> outcome_validate demo_outcome = vc_validate (VC demo_outcome)"
proof -
  obtain ev where "(\<lambda>p s k. if s = ''good'' then Inr demo_event else Inl ''no'') (take max_webhook_body ''body'') ''good'' ''whsec'' = Inr ev"
    and v: "outcome_validate demo_outcome = (if EvCreated ev = - 62135596800 then Some TimeZero else vc_validate (VC demo_outcome))"
    using webhook_outcome_fate [OF demo_configured demo_handled] by auto
  then have "ev = demo_event" by simp
  then have "outcome_validate demo_outcome = vc_validate (VC demo_outcome)" using v by (simp add: demo_event_def)
  moreover have "Stage demo_outcome = ''charge''"
    by (simp add: demo_outcome_def map_event_def mapping_of_def outcome_zero_def Let_def)
  ultimately show ?thesis by simp
qed

text \<open>An id spelled \<open>v1\<close> shifts the positions: the path filter drops it with the version, and the id after
  the next name is then kept as a name.\<close>

lemma v1_id_shifts: "derive_op id ''GET'' ''/v1/products/v1/features/summer'' = ''products.summer''"
  by code_simp
end
