(* ===== verification/Stripe_Reconcile.thy ===== *)
theory Stripe_Reconcile
  imports Stripe Query
begin

text \<open>
  The reconciliation of \<open>adapters/payment/stripe/reconcile.go\<close>: the payment intents a provider lists become
  the ledger rows that the coverage leg compares with the telemetry. The paging loop is the code's, so a
  pager can keep it from returning: it is a \<open>partial_function\<close> into \<open>option\<close>, where \<open>None\<close> is the walk that
  never ends. A page function is a function of the number of the call and of the cursor, which is what any
  stateful one shows to a single walk; the context's error may change from call to call in the same way.
\<close>

section \<open>Intents\<close>

record intent =
  PiID :: string
  PiStatus :: string
  PiAmount :: i64
  PiCurrency :: string
  PiMetadata :: metadata
  PiHasPaymentError :: bool

definition classify :: "intent \<Rightarrow> string option" where
  "classify pin =
     (if PiStatus pin = ''succeeded'' then Some res_success
      else if PiStatus pin = ''processing'' then Some res_deferred
      else if PiStatus pin \<in> {''canceled'', ''requires_payment_method'', ''requires_confirmation'', ''requires_action''}
      then (if PiHasPaymentError pin then Some res_failed else None)
      else None)"

record intent_page =
  Intents :: "intent option list"
  HasMore :: bool

type_synonym page_func = "nat \<Rightarrow> string \<Rightarrow> string + intent_page"

section \<open>The walk\<close>

text \<open>The key of a group (flow, currency, outcome), its sums, and the state of the walk.\<close>

type_synonym group_id = "string \<times> string \<times> string"

record group_acc =
  AccSum :: i64
  AccCount :: i64
  AccExponent :: i8

record tally =
  Agg :: "(group_id, group_acc) gomap"
  TScanned :: i64
  TSkipped :: i64

definition tally_zero :: tally where
  "tally_zero = \<lparr>Agg = [], TScanned = 0, TSkipped = 0\<rparr>"

definition group_of :: "(string \<Rightarrow> string) \<Rightarrow> intent \<Rightarrow> string \<Rightarrow> group_id" where
  "group_of unicode_upper pin res = (map_get [] (PiMetadata pin) meta_flow, go_upper unicode_upper (PiCurrency pin), res)"

definition add_fact :: "group_id \<Rightarrow> i64 \<Rightarrow> (group_id, group_acc) gomap \<Rightarrow> (group_id, group_acc) gomap" where
  "add_fact k amount agg =
     (let a = (case map_of agg k of Some a \<Rightarrow> a
               | None \<Rightarrow> \<lparr>AccSum = 0, AccCount = 0, AccExponent = currency_exponent (fst (snd k))\<rparr>)
      in map_put k (a\<lparr>AccSum := AccSum a + amount, AccCount := AccCount a + 1\<rparr>) agg)"

definition tally_intent :: "(string \<Rightarrow> string) \<Rightarrow> intent option \<Rightarrow> tally \<Rightarrow> tally" where
  "tally_intent unicode_upper entry t =
     (case entry of None \<Rightarrow> t
      | Some pin \<Rightarrow>
          (let t = t\<lparr>TScanned := TScanned t + 1\<rparr>
           in case classify pin of
                None \<Rightarrow> t\<lparr>TSkipped := TSkipped t + 1\<rparr>
              | Some res \<Rightarrow> t\<lparr>Agg := add_fact (group_of unicode_upper pin res) (PiAmount pin) (Agg t)\<rparr>))"

text \<open>How a walk fails: the context's error, the error of a page (with the cursor it was asked at), or the
  dereference of a nil intent at the end of a page.\<close>

datatype reconcile_error = ContextError string | PageError string string | NilIntent

partial_function (option) walk_pages ::
  "(string \<Rightarrow> string) \<Rightarrow> (nat \<Rightarrow> string option) \<Rightarrow> page_func \<Rightarrow> nat \<Rightarrow> string \<Rightarrow> tally \<Rightarrow> (reconcile_error + tally) option" where
  "walk_pages unicode_upper ctx_err fetch n cursor t =
     (case ctx_err n of
        Some e \<Rightarrow> Some (Inl (ContextError e))
      | None \<Rightarrow>
          (case fetch n cursor of
             Inl e \<Rightarrow> Some (Inl (PageError cursor e))
           | Inr page \<Rightarrow>
               (let t = fold (tally_intent unicode_upper) (Intents page) t
                in if \<not> HasMore page \<or> Intents page = [] then Some (Inr t)
                   else
                     (case last (Intents page) of
                        None \<Rightarrow> Some (Inl NilIntent)
                      | Some pin \<Rightarrow>
                          if PiID pin = [] \<or> PiID pin = cursor then Some (Inr t)
                          else walk_pages unicode_upper ctx_err fetch (Suc n) (PiID pin) t))))"

record ledger =
  Rows :: "ledger_row list"
  Scanned :: i64
  Skipped :: i64

definition row_of :: "group_id \<times> group_acc \<Rightarrow> ledger_row" where
  "row_of = (\<lambda>((flow, currency, res), a).
     \<lparr>LFlow = flow, LOutcome = res,
      LMoney = \<lparr>Amount = AccSum a, Currency = currency, Exponent = AccExponent a\<rparr>, LCount = AccCount a\<rparr>)"

text \<open>The comparison the rows are sorted by; the keys of a map are distinct, so no two rows compare equal.\<close>

definition row_key :: "ledger_row \<Rightarrow> group_id" where
  "row_key r = (LFlow r, Currency (LMoney r), LOutcome r)"

definition ledger_of :: "tally \<Rightarrow> ledger" where
  "ledger_of t = \<lparr>Rows = sort_key row_key (map row_of (Agg t)), Scanned = TScanned t, Skipped = TSkipped t\<rparr>"

definition reconcile ::
  "(string \<Rightarrow> string) \<Rightarrow> (nat \<Rightarrow> string option) \<Rightarrow> page_func \<Rightarrow> (reconcile_error + ledger) option" where
  "reconcile unicode_upper ctx_err fetch =
     map_option (map_sum id ledger_of) (walk_pages unicode_upper ctx_err fetch 0 [] tally_zero)"

section \<open>The binding to the SDK\<close>

record list_params =
  SinceUnix :: int
  Limit :: "i64 option"
  StartingAfter :: "string option"

text \<open>The SDK's client is a parameter: one call for one page (\<open>Single\<close>) gives the intents iterated and the
  list's \<open>has_more\<close>, or the iterator's error.\<close>

type_synonym sdk_list = "list_params \<Rightarrow> string + intent list \<times> bool"

definition list_page_func :: "sdk_list \<Rightarrow> i64 \<Rightarrow> time \<Rightarrow> page_func" where
  "list_page_func sdk limit since n starting_after =
     (case sdk \<lparr>SinceUnix = time_unix since,
               Limit = (if sint limit > 0 then Some limit else None),
               StartingAfter = (if starting_after \<noteq> [] then Some starting_after else None)\<rparr> of
        Inl e \<Rightarrow> Inl e
      | Inr (pis, has_more) \<Rightarrow> Inr \<lparr>Intents = map Some pis, HasMore = has_more\<rparr>)"


section \<open>What the ledger is\<close>

text \<open>The classified facts of a list of intents, and the ledger they make: one row per group, in order.\<close>

definition facts :: "(string \<Rightarrow> string) \<Rightarrow> intent list \<Rightarrow> (group_id \<times> i64) list" where
  "facts unicode_upper ps =
     concat (map (\<lambda>p. case classify p of None \<Rightarrow> [] | Some res \<Rightarrow> [(group_of unicode_upper p res, PiAmount p)]) ps)"

definition amounts_of :: "(group_id \<times> i64) list \<Rightarrow> group_id \<Rightarrow> i64 list" where
  "amounts_of fs k = map snd [f \<leftarrow> fs. fst f = k]"

definition group_total :: "(group_id \<times> i64) list \<Rightarrow> group_id \<Rightarrow> group_acc" where
  "group_total fs k = \<lparr>AccSum = sum_i64 (amounts_of fs k), AccCount = of_nat (length (amounts_of fs k)),
     AccExponent = currency_exponent (fst (snd k))\<rparr>"

definition ledger_spec :: "(string \<Rightarrow> string) \<Rightarrow> intent list \<Rightarrow> ledger" where
  "ledger_spec unicode_upper ps =
     (let fs = facts unicode_upper ps
      in \<lparr>Rows = map (\<lambda>k. row_of (k, group_total fs k)) (sorted_list_of_set (fst ` set fs)),
          Scanned = of_nat (length ps), Skipped = of_nat (length [p \<leftarrow> ps. classify p = None])\<rparr>)"

text \<open>The documented behaviour of the list endpoint, as far as the walk relies on it: ids are distinct and
  not empty, a call answers with the intents after the cursor, at least one when there is one, and says
  whether some are left.\<close>

definition serves :: "sdk_list \<Rightarrow> int \<Rightarrow> intent list \<Rightarrow> bool" where
  "serves sdk since items \<longleftrightarrow> distinct (map PiID items) \<and> [] \<notin> set (map PiID items)
     \<and> (\<forall>pre post limit. items = pre @ post \<longrightarrow>
          (\<exists>k. sdk \<lparr>SinceUnix = since, Limit = limit,
                   StartingAfter = (if pre = [] then None else Some (PiID (last pre)))\<rparr> = Inr (take k post, k < length post)
             \<and> (post \<noteq> [] \<longrightarrow> 0 < k)))"

section \<open>Lemmas\<close>

lemma facts_Nil [simp]: "facts up [] = []" by (simp add: facts_def)

lemma facts_snoc: "facts up (ps @ [p]) = facts up ps @ (case classify p of None \<Rightarrow> [] | Some res \<Rightarrow> [(group_of up p res, PiAmount p)])"
  by (simp add: facts_def)

lemma group_total_snoc:
  "group_total (fs @ [(k, a)]) k' =
     (if k' = k then (group_total fs k)\<lparr>AccSum := AccSum (group_total fs k) + a, AccCount := AccCount (group_total fs k) + 1\<rparr>
      else group_total fs k')"
  by (simp add: group_total_def amounts_of_def)

definition agg_of :: "(group_id \<times> i64) list \<Rightarrow> (group_id, group_acc) gomap \<Rightarrow> bool" where
  "agg_of fs agg \<longleftrightarrow> map_ok agg
     \<and> map_of agg = (\<lambda>k. if k \<in> fst ` set fs then Some (group_total fs k) else None)"

lemma agg_of_add:
  assumes "agg_of fs agg"
  shows "agg_of (fs @ [(k, a)]) (add_fact k a agg)"
proof (cases "k \<in> fst ` set fs")
  case True
  then have "map_of agg k = Some (group_total fs k)" using assms by (simp add: agg_of_def)
  then show ?thesis using assms True by (auto simp: agg_of_def add_fact_def group_total_snoc Let_def)
next
  case False
  then have "amounts_of fs k = []" by (auto simp: amounts_of_def filter_empty_conv)
  then have "group_total fs k = \<lparr>AccSum = 0, AccCount = 0, AccExponent = currency_exponent (fst (snd k))\<rparr>"
    by (simp add: group_total_def)
  moreover have "map_of agg k = None" using assms False by (simp add: agg_of_def)
  ultimately show ?thesis using assms
    by (auto simp: agg_of_def add_fact_def group_total_snoc Let_def fun_eq_iff)
qed

lemma tally_spec:
  "agg_of (facts up ps) (Agg (fold (tally_intent up) (map Some ps) tally_zero))
   \<and> TScanned (fold (tally_intent up) (map Some ps) tally_zero) = of_nat (length ps)
   \<and> TSkipped (fold (tally_intent up) (map Some ps) tally_zero) = of_nat (length [p \<leftarrow> ps. classify p = None])"
proof (induction ps rule: rev_induct)
  case Nil
  show ?case by (simp add: tally_zero_def agg_of_def)
next
  case (snoc p ps)
  then show ?case
    by (cases "classify p") (auto simp: tally_intent_def facts_snoc Let_def intro!: agg_of_add)
qed

lemma insort_map: "insort_key g (f x) (map f xs) = map f (insort_key (\<lambda>y. g (f y)) x xs)"
  by (induction xs) auto

lemma sort_map: "sort_key g (map f xs) = map f (sort_key (\<lambda>y. g (f y)) xs)"
  by (induction xs) (auto simp: insort_map)

lemma row_key_row_of: "row_key (row_of e) = fst e"
  by (simp add: row_key_def row_of_def split: prod.split)

lemma agg_rows:
  assumes "agg_of fs agg"
  shows "sort_key row_key (map row_of agg) = map (\<lambda>k. row_of (k, group_total fs k)) (sorted_list_of_set (fst ` set fs))"
proof -
  have ok: "distinct (map fst agg)" using assms by (simp add: agg_of_def map_ok_def)
  have "dom (map_of agg) = fst ` set fs" using assms by (auto simp: agg_of_def dom_def)
  then have keys: "fst ` set agg = fst ` set fs" by (simp add: dom_map_of_conv_image_fst)
  have "e = (fst e, group_total fs (fst e))" if "e \<in> set agg" for e
  proof -
    have "map_of agg (fst e) = Some (snd e)" using that ok by (simp add: map_of_eq_Some_iff)
    then show ?thesis using assms that by (auto simp: agg_of_def prod_eq_iff split: if_splits)
  qed
  then have "map (\<lambda>k. (k, group_total fs k)) (map fst agg) = agg" by (auto intro: map_idI simp: comp_def)
  then have "sort_key row_key (map row_of agg) = sort_key row_key (map row_of (map (\<lambda>k. (k, group_total fs k)) (map fst agg)))"
    by simp
  also have "\<dots> = map (\<lambda>k. row_of (k, group_total fs k)) (sort (map fst agg))"
    by (simp add: sort_map row_key_row_of comp_def)
  also have "sort (map fst agg) = sorted_list_of_set (fst ` set fs)"
    using sorted_list_of_set_sort_remdups [of "map fst agg"] ok by (simp add: keys distinct_remdups_id)
  finally show ?thesis .
qed

lemma ledger_of_spec: "ledger_of (fold (tally_intent up) (map Some ps) tally_zero) = ledger_spec up ps"
  using tally_spec [of up ps] by (simp add: ledger_of_def ledger_spec_def agg_rows Let_def)

lemma walk_served:
  assumes "serves sdk (time_unix since) (pre @ post)"
  shows "walk_pages up (\<lambda>_. None) (list_page_func sdk limit since) n (if pre = [] then [] else PiID (last pre)) t
    = Some (Inr (fold (tally_intent up) (map Some post) t))"
  using assms
proof (induction "length post" arbitrary: pre post n t rule: less_induct)
  case less
  let ?cur = "if pre = [] then [] else PiID (last pre)"
  have ids: "distinct (map PiID (pre @ post))" "[] \<notin> set (map PiID (pre @ post))"
    using less.prems by (simp_all add: serves_def)
  have cur: "(if ?cur \<noteq> [] then Some ?cur else None) = (if pre = [] then None else Some (PiID (last pre)))"
    using ids(2) last_in_set [of pre] by (auto, metis imageI)
  obtain k where k: "post \<noteq> [] \<longrightarrow> 0 < k" and
    sdk: "sdk \<lparr>SinceUnix = time_unix since, Limit = (if sint limit > 0 then Some limit else None),
        StartingAfter = (if pre = [] then None else Some (PiID (last pre)))\<rparr> = Inr (take k post, k < length post)"
    using less.prems unfolding serves_def by blast
  have page: "list_page_func sdk limit since n ?cur = Inr \<lparr>Intents = map Some (take k post), HasMore = k < length post\<rparr>"
    unfolding list_page_func_def cur sdk by simp
  show ?case
  proof (cases "k < length post")
    case False
    then show ?thesis by (subst walk_pages.simps) (simp add: page)
  next
    case True
    define chunk where "chunk = take k post"
    define rest where "rest = drop k post"
    have post: "post = chunk @ rest" "chunk \<noteq> []" "length rest < length post"
      using True k by (auto simp: chunk_def rest_def)
    have l: "PiID (last chunk) \<in> PiID ` set post" using post(1,2) by simp
    have "PiID ` set pre \<inter> PiID ` set post = {}" using ids(1) by simp
    then have "pre \<noteq> [] \<Longrightarrow> PiID (last chunk) \<noteq> PiID (last pre)" using l last_in_set [of pre] by blast
    moreover have "PiID (last chunk) \<noteq> []" using l ids(2) by auto
    ultimately have new: "PiID (last chunk) \<noteq> [] \<and> PiID (last chunk) \<noteq> ?cur" by simp
    have "walk_pages up (\<lambda>_. None) (list_page_func sdk limit since) (Suc n) (PiID (last chunk))
            (fold (tally_intent up) (map Some chunk) t)
        = Some (Inr (fold (tally_intent up) (map Some rest) (fold (tally_intent up) (map Some chunk) t)))"
      using less.hyps [OF post(3), of "pre @ chunk" "Suc n" "fold (tally_intent up) (map Some chunk) t"] less.prems post(1,2)
      by simp
    moreover have "list_page_func sdk limit since n ?cur = Inr \<lparr>Intents = map Some chunk, HasMore = True\<rparr>"
      using page True by (simp add: chunk_def)
    moreover have "fold (tally_intent up) (map Some post) t = fold (tally_intent up) (map Some rest) (fold (tally_intent up) (map Some chunk) t)"
      by (simp add: post(1))
    ultimately show ?thesis using post(2) new
      by (subst walk_pages.simps) (simp add: last_map Let_def)
  qed
qed

lemma walk_spins:
  assumes "\<And>n. ctx_err n = None"
    and "\<And>n cursor. \<exists>ps p. fetch n cursor = Inr \<lparr>Intents = ps @ [Some p], HasMore = True\<rparr> \<and> PiID p \<noteq> [] \<and> PiID p \<noteq> cursor"
  shows "walk_pages up ctx_err fetch n cursor t = None"
proof -
  have "\<not> (ctx_err = c \<and> fetch = f)" if "walk_pages up c f n cursor t = Some r" for c f r
  proof (induction rule: walk_pages.raw_induct [OF _ that])
    case (1 walk up c f n cursor t r)
    show ?case
    proof
      assume eq: "ctx_err = c \<and> fetch = f"
      obtain ps p where p: "f n cursor = Inr \<lparr>Intents = ps @ [Some p], HasMore = True\<rparr>" "PiID p \<noteq> []" "PiID p \<noteq> cursor"
        using assms(2) [of n cursor] eq by blast
      have "walk up c f (Suc n) (PiID p) (fold (tally_intent up) (ps @ [Some p]) t) = Some r"
        using "1"(2) assms(1) [of n] eq p by (simp add: Let_def)
      from "1"(1) [OF this] eq show False by simp
    qed
  qed
  then show ?thesis by (cases "walk_pages up ctx_err fetch n cursor t") auto
qed
lemma sorted_keys_rows: "set (Rows (ledger_spec up ps)) = (\<lambda>k. row_of (k, group_total (facts up ps) k)) ` fst ` set (facts up ps)"
  by (simp add: ledger_spec_def Let_def)

lemma row_of_group:
  "row_of (k, group_total fs k) = \<lparr>LFlow = fst k, LOutcome = snd (snd k),
     LMoney = \<lparr>Amount = sum_i64 (amounts_of fs k), Currency = fst (snd k), Exponent = currency_exponent (fst (snd k))\<rparr>,
     LCount = of_nat (length (amounts_of fs k))\<rparr>"
  by (simp add: row_of_def group_total_def split: prod.split)

text \<open>C27: A walk over a provider that serves a list of intents ends, and its ledger is exact: every intent
  is scanned, those without a terminal fact are counted as skipped, and there is one row per flow, currency
  and outcome, in order, holding the sum of the intended amounts and their number. The page size does not
  enter.\<close>

theorem reconcile_complete:
  assumes "serves sdk (time_unix since) items"
  shows "reconcile unicode_upper (\<lambda>_. None) (list_page_func sdk limit since) = Some (Inr (ledger_spec unicode_upper items))"
  using walk_served [of sdk since "[]" items unicode_upper limit 0 tally_zero] assms
  by (simp add: reconcile_def ledger_of_spec)

text \<open>The walk is only as safe as its cursor check: under a pager that always claims more, answers no
  empty page, and names a last id other than the cursor it was asked at, the walk never returns. Two ids in
  turn are enough.\<close>

theorem reconcile_spins:
  assumes "\<And>n. ctx_err n = None"
    and "\<And>n cursor. \<exists>ps p. fetch n cursor = Inr \<lparr>Intents = ps @ [Some p], HasMore = True\<rparr> \<and> PiID p \<noteq> [] \<and> PiID p \<noteq> cursor"
  shows "reconcile unicode_upper ctx_err fetch = None"
  by (simp add: reconcile_def walk_spins [OF assms])

section \<open>The ledger and the webhooks\<close>

definition announced_type :: "string \<Rightarrow> string" where
  "announced_type res =
     (if res = res_success then ''payment_intent.succeeded''
      else if res = res_deferred then ''payment_intent.processing''
      else ''payment_intent.payment_failed'')"

text \<open>A webhook announces an intent: its payload verifies, is of the type of the intent's fact, and carries
  the intent's amount, currency and metadata.\<close>

definition announces ::
  "(string \<Rightarrow> string \<Rightarrow> string \<Rightarrow> string + stripe_event) \<Rightarrow> (string \<Rightarrow> string + stripe_object) \<Rightarrow> string
     \<Rightarrow> string \<times> string \<Rightarrow> intent \<Rightarrow> bool" where
  "announces construct_event unmarshal secret hook p \<longleftrightarrow>
     (\<exists>res ev raw obj. classify p = Some res \<and> length (fst hook) \<le> max_webhook_body
        \<and> construct_event (fst hook) (snd hook) secret = Inr ev \<and> EvType ev = announced_type res
        \<and> EvRaw ev = Some raw \<and> raw \<noteq> [] \<and> unmarshal raw = Inr obj
        \<and> ObjAmount obj = PiAmount p \<and> ObjCurrency obj = PiCurrency p \<and> ObjMetadata obj = PiMetadata p)"

text \<open>The outcomes that a sequence of deliveries hands to the sink.\<close>

definition sunk ::
  "(string \<Rightarrow> string) \<Rightarrow> (string \<Rightarrow> string \<Rightarrow> string \<Rightarrow> string + stripe_event) \<Rightarrow> (string \<Rightarrow> string + stripe_object)
     \<Rightarrow> stage_map \<Rightarrow> string \<Rightarrow> (string \<times> string) list \<Rightarrow> outcome list" where
  "sunk unicode_upper construct_event unmarshal cfg secret hooks =
     concat (map (\<lambda>(payload, sig). snd (handler unicode_upper construct_event unmarshal cfg secret True (Some payload) sig)) hooks)"

definition fact_of :: "outcome \<Rightarrow> group_id \<times> i64" where
  "fact_of o' = ((Flow (VC o'), Currency (Money (VC o')), Result o'), Amount (Money (VC o')))"

lemma announced_mapping:
  "classify p = Some res \<Longrightarrow> \<exists>m. map_of event_map (announced_type res) = Some m \<and> MapResult m = res \<and> MapAmount m = AmtAmount"
  by (auto simp: classify_def announced_type_def event_map_def mapping_of_def res_defs split: if_splits)

lemma announced_outcome:
  assumes "announces construct_event unmarshal secret hook p"
  shows "\<exists>o'. snd (handler up construct_event unmarshal cfg secret True (Some (fst hook)) (snd hook)) = [o']
    \<and> facts up [p] = [fact_of o'] \<and> Exponent (Money (VC o')) = currency_exponent (Currency (Money (VC o')))"
proof -
  obtain res ev raw obj where a: "classify p = Some res" "length (fst hook) \<le> max_webhook_body"
    "construct_event (fst hook) (snd hook) secret = Inr ev" "EvType ev = announced_type res" "EvRaw ev = Some raw" "raw \<noteq> []"
    "unmarshal raw = Inr obj" "ObjAmount obj = PiAmount p" "ObjCurrency obj = PiCurrency p" "ObjMetadata obj = PiMetadata p"
    using assms by (auto simp: announces_def)
  obtain m where m: "map_of event_map (announced_type res) = Some m" "MapResult m = res" "MapAmount m = AmtAmount"
    using announced_mapping [OF a(1)] by blast
  have "snd (handler up construct_event unmarshal cfg secret True (Some (fst hook)) (snd hook)) = [map_event up cfg m ev obj]"
    using a m(1) by (simp add: handler_def verify_and_map_def)
  moreover have "facts up [p] = [fact_of (map_event up cfg m ev obj)]"
    using a m by (simp add: facts_def fact_of_def group_of_def map_event_def context_of_metadata_def outcome_zero_def Let_def)
  ultimately show ?thesis
    by (auto simp: map_event_def context_of_metadata_def Let_def)
qed

lemma sunk_facts:
  assumes "list_all2 (announces construct_event unmarshal secret) hooks ps"
  shows "map fact_of (sunk up construct_event unmarshal cfg secret hooks) = facts up ps
    \<and> (\<forall>o' \<in> set (sunk up construct_event unmarshal cfg secret hooks).
         Exponent (Money (VC o')) = currency_exponent (Currency (Money (VC o'))))"
  using assms
proof (induction rule: list_all2_induct)
  case Nil
  show ?case by (simp add: sunk_def)
next
  case (Cons hook hooks p ps)
  obtain o' where "snd (handler up construct_event unmarshal cfg secret True (Some (fst hook)) (snd hook)) = [o']"
    "facts up [p] = [fact_of o']" "Exponent (Money (VC o')) = currency_exponent (Currency (Money (VC o')))"
    using announced_outcome [OF Cons.hyps(1)] by blast
  moreover have "facts up (p # ps) = facts up [p] @ facts up ps" by (simp add: facts_def)
  ultimately show ?case using Cons.IH by (simp add: sunk_def case_prod_beta)
qed
lemma facts_terminal: "facts up [p \<leftarrow> ps. classify p \<noteq> None] = facts up ps"
  by (induction ps) (auto simp: facts_def split: option.split)

definition row_outcomes :: "outcome list \<Rightarrow> ledger_row \<Rightarrow> outcome list" where
  "row_outcomes os r = [o' \<leftarrow> os. Flow (VC o') = LFlow r \<and> Currency (Money (VC o')) = Currency (LMoney r) \<and> Result o' = LOutcome r]"

lemma amounts_of_outcomes:
  "amounts_of (map fact_of os) k
     = map (\<lambda>o'. Amount (Money (VC o'))) [o' \<leftarrow> os. Flow (VC o') = fst k \<and> Currency (Money (VC o')) = fst (snd k) \<and> Result o' = snd (snd k)]"
  by (induction os) (auto simp: amounts_of_def fact_of_def)

text \<open>C28: The two paths measure the same money: when every terminal intent of the provider was announced
  by one webhook, the ledger that reconciliation computes and the outcomes the webhook handler delivered
  agree. Every row holds the sum, the number and the exponent of the delivered outcomes of its flow, currency
  and result, and every delivered outcome is in a row.\<close>

theorem ledger_matches_webhooks:
  assumes "serves sdk (time_unix since) items"
    and "list_all2 (announces construct_event unmarshal secret) hooks [p \<leftarrow> items. classify p \<noteq> None]"
    and "os = sunk unicode_upper construct_event unmarshal cfg secret hooks"
  shows "\<exists>led. reconcile unicode_upper (\<lambda>_. None) (list_page_func sdk limit since) = Some (Inr led)
    \<and> (\<forall>r \<in> set (Rows led).
         Amount (LMoney r) = sum_i64 (map (\<lambda>o'. Amount (Money (VC o'))) (row_outcomes os r))
         \<and> LCount r = of_nat (length (row_outcomes os r))
         \<and> (\<forall>o' \<in> set (row_outcomes os r). Exponent (Money (VC o')) = Exponent (LMoney r)))
    \<and> (\<forall>o' \<in> set os. \<exists>r \<in> set (Rows led). o' \<in> set (row_outcomes os r))"
proof -
  let ?led = "ledger_spec unicode_upper items"
  have f: "facts unicode_upper items = map fact_of os"
    and e: "\<And>o'. o' \<in> set os \<Longrightarrow> Exponent (Money (VC o')) = currency_exponent (Currency (Money (VC o')))"
    using sunk_facts [OF assms(2), of unicode_upper cfg] facts_terminal [of unicode_upper items] assms(3) by auto
  have rows: "Rows ?led = map (\<lambda>k. row_of (k, group_total (map fact_of os) k)) (sorted_list_of_set (fst ` set (map fact_of os)))"
    by (simp add: ledger_spec_def f Let_def)
  have sums: "Amount (LMoney r) = sum_i64 (map (\<lambda>o'. Amount (Money (VC o'))) (row_outcomes os r))
      \<and> LCount r = of_nat (length (row_outcomes os r))
      \<and> (\<forall>o' \<in> set (row_outcomes os r). Exponent (Money (VC o')) = Exponent (LMoney r))"
    if "r \<in> set (Rows ?led)" for r
    using that e by (auto simp: rows row_of_group row_outcomes_def amounts_of_outcomes)
  have "\<exists>r \<in> set (Rows ?led). o' \<in> set (row_outcomes os r)" if "o' \<in> set os" for o'
  proof
    have "fst (fact_of o') \<in> fst ` set (map fact_of os)" using that by simp
    then show "row_of (fst (fact_of o'), group_total (map fact_of os) (fst (fact_of o'))) \<in> set (Rows ?led)"
      unfolding rows by simp
    show "o' \<in> set (row_outcomes os (row_of (fst (fact_of o'), group_total (map fact_of os) (fst (fact_of o')))))"
      using that by (simp add: row_of_group row_outcomes_def fact_of_def)
  qed
  then show ?thesis using reconcile_complete [OF assms(1)] sums by blast
qed

section \<open>A small provider\<close>

text \<open>A provider that pages through a list.\<close>

definition paged :: "intent list \<Rightarrow> nat \<Rightarrow> sdk_list" where
  "paged items page_size ps =
     (let rest = (case StartingAfter ps of None \<Rightarrow> items | Some c \<Rightarrow> tl (dropWhile (\<lambda>p. PiID p \<noteq> c) items))
      in Inr (take page_size rest, page_size < length rest))"

lemma dropWhile_last:
  "pre \<noteq> [] \<Longrightarrow> distinct (map PiID (pre @ post)) \<Longrightarrow> tl (dropWhile (\<lambda>p. PiID p \<noteq> PiID (last pre)) (pre @ post)) = post"
proof (induction pre)
  case (Cons p pre)
  show ?case
  proof (cases "pre = []")
    case False
    then have "PiID p \<noteq> PiID (last pre)" using Cons.prems(2) last_in_set [of pre] by auto
    then show ?thesis using Cons False by simp
  qed simp
qed simp

lemma serves_paged:
  assumes "distinct (map PiID items)" "[] \<notin> set (map PiID items)" "0 < page_size"
  shows "serves (paged items page_size) since items"
  unfolding serves_def
proof (intro conjI allI impI)
  fix pre post limit assume items: "items = pre @ post"
  have "paged items page_size \<lparr>SinceUnix = since, Limit = limit, StartingAfter = (if pre = [] then None else Some (PiID (last pre)))\<rparr>
      = Inr (take page_size post, page_size < length post)"
    using dropWhile_last [of pre post] assms(1) items by (simp add: paged_def)
  then show "\<exists>k. paged items page_size \<lparr>SinceUnix = since, Limit = limit,
        StartingAfter = (if pre = [] then None else Some (PiID (last pre)))\<rparr> = Inr (take k post, k < length post) \<and> (post \<noteq> [] \<longrightarrow> 0 < k)"
    using assms(3) by blast
qed (use assms in auto)
definition demo_intent :: "string \<Rightarrow> string \<Rightarrow> i64 \<Rightarrow> bool \<Rightarrow> intent" where
  "demo_intent i st amount err =
     \<lparr>PiID = i, PiStatus = st, PiAmount = amount, PiCurrency = ''usd'', PiMetadata = [(meta_flow, ''checkout'')],
      PiHasPaymentError = err\<rparr>"

definition demo_items :: "intent list" where
  "demo_items = [demo_intent ''pi_1'' ''succeeded'' 4250 False, demo_intent ''pi_2'' ''requires_capture'' 900 False,
     demo_intent ''pi_3'' ''succeeded'' 50 False]"

lemma demo_served: "serves (paged demo_items 2) since demo_items"
  by (rule serves_paged) (simp_all add: demo_items_def demo_intent_def)

lemma demo_upper: "go_upper id ''usd'' = ''USD''" by code_simp

lemma demo_facts: "facts id demo_items = [((''checkout'', ''USD'', res_success), 4250), ((''checkout'', ''USD'', res_success), 50)]"
  by (simp add: facts_def demo_items_def demo_intent_def classify_def group_of_def demo_upper map_get_def)

theorem reconcile_complete_witness:
  "map_option (map_sum id Rows) (reconcile id (\<lambda>_. None) (list_page_func (paged demo_items 2) 100 0))
     = Some (Inr [\<lparr>LFlow = ''checkout'', LOutcome = res_success,
         LMoney = \<lparr>Amount = 4300, Currency = ''USD'', Exponent = 2\<rparr>, LCount = 2\<rparr>])"
proof -
  have "currency_exponent ''USD'' = 2" by (simp add: currency_exponent_def)
  then show ?thesis
    by (simp add: reconcile_complete [OF demo_served] ledger_spec_def demo_facts Let_def row_of_group amounts_of_def)
qed

definition spinning :: page_func where
  "spinning n cursor = Inr \<lparr>Intents = [Some (demo_intent (if cursor = ''pi_1'' then ''pi_2'' else ''pi_1'') ''succeeded'' 1 False)],
     HasMore = True\<rparr>"

theorem reconcile_spins_witness: "reconcile id (\<lambda>_. None) spinning = None"
proof (rule reconcile_spins)
  fix n cursor
  show "\<exists>ps p. spinning n cursor = Inr \<lparr>Intents = ps @ [Some p], HasMore = True\<rparr> \<and> PiID p \<noteq> [] \<and> PiID p \<noteq> cursor"
    by (intro exI [of _ "[]"]) (auto simp: spinning_def demo_intent_def)
qed simp

text \<open>One delivery per succeeded intent; the payload is the intent's id.\<close>

definition demo_construct :: "string \<Rightarrow> string \<Rightarrow> string \<Rightarrow> string + stripe_event" where
  "demo_construct payload sig secret =
     (if sig = ''good'' then Inr \<lparr>EvType = ''payment_intent.succeeded'', EvCreated = 1700000000, EvRaw = Some payload\<rparr> else Inl ''no'')"

definition demo_unmarshal :: "string \<Rightarrow> string + stripe_object" where
  "demo_unmarshal raw = Inr (object_zero\<lparr>ObjAmount := (if raw = ''pi_1'' then 4250 else 50), ObjCurrency := ''usd'',
     ObjMetadata := [(meta_flow, ''checkout'')]\<rparr>)"

definition demo_hooks :: "(string \<times> string) list" where
  "demo_hooks = [(''pi_1'', ''good''), (''pi_3'', ''good'')]"

lemma demo_announced:
  "list_all2 (announces demo_construct demo_unmarshal ''whsec'') demo_hooks [p \<leftarrow> demo_items. classify p \<noteq> None]"
  by (simp add: demo_items_def demo_hooks_def demo_intent_def classify_def announces_def announced_type_def demo_construct_def
      demo_unmarshal_def max_webhook_body_def)

theorem ledger_matches_webhooks_witness:
  "\<exists>r. Amount (LMoney r) = sum_i64 (map (\<lambda>o'. Amount (Money (VC o')))
        (row_outcomes (sunk id demo_construct demo_unmarshal [] ''whsec'' demo_hooks) r)) \<and> Amount (LMoney r) = 4300"
proof -
  let ?os = "sunk id demo_construct demo_unmarshal [] ''whsec'' demo_hooks"
  obtain led where led: "reconcile id (\<lambda>_. None) (list_page_func (paged demo_items 2) 100 0) = Some (Inr led)"
    "\<forall>r \<in> set (Rows led). Amount (LMoney r) = sum_i64 (map (\<lambda>o'. Amount (Money (VC o'))) (row_outcomes ?os r))"
    using ledger_matches_webhooks [OF demo_served demo_announced refl, where unicode_upper = id and cfg = "[]" and limit = 100 and since = 0] by blast
  have "led = ledger_spec id demo_items"
    using led(1) walk_served [of "paged demo_items 2" 0 "[]" demo_items id 100 0 tally_zero] demo_served
    by (simp add: reconcile_def ledger_of_spec)
  moreover have "row_of ((''checkout'', ''USD'', res_success), group_total (facts id demo_items) (''checkout'', ''USD'', res_success))
      \<in> set (Rows (ledger_spec id demo_items))"
    by (simp add: sorted_keys_rows demo_facts)
  ultimately show ?thesis using led(2)
    by (intro exI [of _ "row_of ((''checkout'', ''USD'', res_success), group_total (facts id demo_items) (''checkout'', ''USD'', res_success))"])
      (auto simp: row_of_group amounts_of_def demo_facts)
qed
end
