(* ===== verification/Go_Format.thy ===== *)
theory Go_Format
  imports Go_Strings Float64 Query
begin

text \<open>
  What the renderers use of \<open>fmt\<close>, \<open>sort\<close>, \<open>strings\<close> and \<open>time\<close>: the calendar date of an instant and its
  layouts, the verbs \<open>%.1f\<close> and \<open>%-16s\<close>, joins with a separator of several bytes, and the sorted keys of a
  map.
\<close>

section \<open>Calendar dates\<close>

text \<open>A day is counted from 1970-01-01; a year here starts in March, so that the leap day is its last.
  A cycle has 400 years.\<close>

definition cycle_days :: int where "cycle_days = 146097"
definition epoch_shift :: int where "epoch_shift = 719468"

definition civil_of_day :: "int \<Rightarrow> int \<times> int \<times> int" where
  "civil_of_day d =
     (let z = d + epoch_shift;
          doe = z mod cycle_days;
          cent = min 3 (doe div 36524);
          doc = doe - cent * 36524;
          quad = doc div 1461;
          doq = doc mod 1461;
          yr = min 3 (doq div 365);
          doy = doq - yr * 365;
          mp = (5 * doy + 2) div 153;
          day = doy - (153 * mp + 2) div 5 + 1;
          month = (if mp < 10 then mp + 3 else mp - 9);
          year = (z div cycle_days) * 400 + cent * 100 + quad * 4 + yr
      in (if month \<le> 2 then year + 1 else year, month, day))"

definition day_of_civil :: "int \<Rightarrow> int \<Rightarrow> int \<Rightarrow> int" where
  "day_of_civil year month day =
     (let y = (if month \<le> 2 then year - 1 else year);
          yoe = y mod 400;
          mp = (if month > 2 then month - 3 else month + 9);
          doy = (153 * mp + 2) div 5 + day - 1
      in (y div 400) * cycle_days + (yoe div 100) * 36524 + (yoe mod 100 div 4) * 1461 + (yoe mod 4) * 365 + doy - epoch_shift)"

definition leap_year :: "int \<Rightarrow> bool" where
  "leap_year y \<longleftrightarrow> y mod 4 = 0 \<and> (y mod 100 \<noteq> 0 \<or> y mod 400 = 0)"

definition days_in_month :: "int \<Rightarrow> int \<Rightarrow> int" where
  "days_in_month y m =
     (if m = 2 then (if leap_year y then 29 else 28) else if m \<in> {4, 6, 9, 11} then 30 else 31)"

text \<open>The parts of the computation, with their ranges: the arithmetic of the date lemmas is linear in them.\<close>

lemma civil_parts:
  obtains era cent quad yr doy mp where
    "d + epoch_shift = era * cycle_days + cent * 36524 + quad * 1461 + yr * 365 + doy"
    "0 \<le> cent" "cent \<le> 3" "0 \<le> quad" "quad \<le> 24" "0 \<le> yr" "yr \<le> 3" "0 \<le> doy" "doy \<le> 365"
    "doy = 365 \<longrightarrow> yr = 3 \<and> (quad \<noteq> 24 \<or> cent = 3)"
    "mp = (5 * doy + 2) div 153" "0 \<le> mp" "mp \<le> 11"
    "civil_of_day d = (era * 400 + cent * 100 + quad * 4 + yr + (if mp < 10 then 0 else 1),
       if mp < 10 then mp + 3 else mp - 9, doy - (153 * mp + 2) div 5 + 1)"
proof -
  define z where "z = d + epoch_shift"
  define doe where "doe = z mod cycle_days"
  define cent where "cent = min 3 (doe div 36524)"
  define doc where "doc = doe - cent * 36524"
  define quad where "quad = doc div 1461"
  define doq where "doq = doc mod 1461"
  define yr where "yr = min 3 (doq div 365)"
  define doy where "doy = doq - yr * 365"
  define mp where "mp = (5 * doy + 2) div 153"
  have doe: "0 \<le> doe" "doe < 146097" by (simp_all add: doe_def cycle_days_def)
  have doc: "0 \<le> doc" "cent < 3 \<longrightarrow> doc < 36524" "doc \<le> 36524" "0 \<le> cent" "cent \<le> 3"
    using doe unfolding doc_def cent_def by linarith+
  have doq: "0 \<le> doq" "doq < 1461" "0 \<le> quad" "quad \<le> 24" "quad * 1461 + doq = doc"
    using doc unfolding doq_def quad_def by simp_all
  have doy: "0 \<le> doy" "doy \<le> 365" "0 \<le> yr" "yr \<le> 3" "doy = 365 \<longrightarrow> yr = 3"
    using doq(1,2) unfolding doy_def yr_def by linarith+
  have leap: "doy = 365 \<longrightarrow> yr = 3 \<and> (quad \<noteq> 24 \<or> cent = 3)"
    using doy doq doc unfolding doy_def by linarith
  have mp: "0 \<le> mp" "mp \<le> 11" using doy by (simp_all add: mp_def)
  have z: "d + epoch_shift = (z div cycle_days) * cycle_days + cent * 36524 + quad * 1461 + yr * 365 + doy"
    using doq(5) unfolding doy_def doc_def doe_def z_def by simp
  have civ: "civil_of_day d = (z div cycle_days * 400 + cent * 100 + quad * 4 + yr + (if mp < 10 then 0 else 1),
       if mp < 10 then mp + 3 else mp - 9, doy - (153 * mp + 2) div 5 + 1)"
    unfolding civil_of_day_def Let_def z_def [symmetric] doe_def [symmetric] cent_def [symmetric] doc_def [symmetric]
      quad_def [symmetric] doq_def [symmetric] yr_def [symmetric] doy_def [symmetric] mp_def [symmetric]
    using mp by simp
  show ?thesis
    by (rule that [OF z doc(4,5) doq(3,4) doy(3,4,1,2) leap mp_def mp civ])
qed

lemma month_days: "mp = (5 * doy + 2) div 153 \<Longrightarrow> (153 * mp + 2) div 5 \<le> doy \<and> doy < (153 * mp + 2) div 5 + (31 :: int)"
  by linarith

lemma year_parts:
  fixes c q r :: int
  assumes "0 \<le> c" "c \<le> 3" "0 \<le> q" "q \<le> 24" "0 \<le> r" "r \<le> 3"
  shows "(c * 100 + q * 4 + r) div 100 = c" "(c * 100 + q * 4 + r) mod 100 div 4 = q" "(c * 100 + q * 4 + r) mod 4 = r"
proof -
  show "(c * 100 + q * 4 + r) div 100 = c" using assms by linarith
  have "(c * 100 + q * 4 + r) mod 100 = (c * 100 + (q * 4 + r)) mod 100" by (simp add: add.assoc)
  also have "\<dots> = q * 4 + r" using assms by (simp only: mod_mult_self3) simp
  finally show "(c * 100 + q * 4 + r) mod 100 div 4 = q" using assms by simp
  have "(c * 100 + q * 4 + r) mod 4 = ((c * 25 + q) * 4 + r) mod 4" by (simp add: algebra_simps)
  also have "\<dots> = r" using assms by (simp only: mod_mult_self3) simp
  finally show "(c * 100 + q * 4 + r) mod 4 = r" .
qed

lemma day_of_civil_of_day: "(case civil_of_day d of (y, m, dd) \<Rightarrow> day_of_civil y m dd) = d"
proof -
  obtain era cent quad yr doy mp where p:
    "d + epoch_shift = era * cycle_days + cent * 36524 + quad * 1461 + yr * 365 + doy"
    "0 \<le> cent" "cent \<le> 3" "0 \<le> quad" "quad \<le> 24" "0 \<le> yr" "yr \<le> 3" "0 \<le> doy" "doy \<le> 365"
    "mp = (5 * doy + 2) div 153" "0 \<le> mp" "mp \<le> 11"
    "civil_of_day d = (era * 400 + cent * 100 + quad * 4 + yr + (if mp < 10 then 0 else 1),
       if mp < 10 then mp + 3 else mp - 9, doy - (153 * mp + 2) div 5 + 1)"
    by (rule civil_parts)
  define y where "y = era * 400 + cent * 100 + quad * 4 + yr"
  have yoe: "y div 400 = era" using p(2-7) unfolding y_def by linarith
  then have yoe: "y div 400 = era" "y mod 400 = cent * 100 + quad * 4 + yr"
    using minus_div_mult_eq_mod [of y 400] by (simp_all add: y_def)
  have parts: "y mod 400 div 100 = cent" "y mod 400 mod 100 div 4 = quad" "y mod 400 mod 4 = yr"
    unfolding yoe(2) using year_parts [OF p(2-7)] by auto
  have "day_of_civil (y + (if mp < 10 then 0 else 1)) (if mp < 10 then mp + 3 else mp - 9) (doy - (153 * mp + 2) div 5 + 1)
      = era * cycle_days + cent * 36524 + quad * 1461 + yr * 365 + doy - epoch_shift"
    using p(11,12) by (simp add: day_of_civil_def Let_def parts yoe(1))
  then show ?thesis using p(1,13) by (simp add: y_def)
qed

text \<open>What \<open>civil_of_day\<close> gives is a date of the calendar.\<close>

lemma civil_of_day_valid:
  assumes "civil_of_day d = (y, m, dd)"
  shows "1 \<le> m \<and> m \<le> 12 \<and> 1 \<le> dd \<and> dd \<le> days_in_month y m"
proof -
  obtain era cent quad yr doy mp where p:
    "0 \<le> cent" "cent \<le> 3" "0 \<le> quad" "quad \<le> 24" "0 \<le> yr" "yr \<le> 3" "0 \<le> doy" "doy \<le> 365"
    "doy = 365 \<longrightarrow> yr = 3 \<and> (quad \<noteq> 24 \<or> cent = 3)"
    "mp = (5 * doy + 2) div 153" "0 \<le> mp" "mp \<le> 11"
    and c: "civil_of_day d = (era * 400 + cent * 100 + quad * 4 + yr + (if mp < 10 then 0 else 1),
       if mp < 10 then mp + 3 else mp - 9, doy - (153 * mp + 2) div 5 + 1)"
    by (rule civil_parts [of d])
  have m: "m = (if mp < 10 then mp + 3 else mp - 9)" and dd: "dd = doy - (153 * mp + 2) div 5 + 1"
    and y: "y = era * 400 + cent * 100 + quad * 4 + yr + (if mp < 10 then 0 else 1)"
    using assms c by auto
  have r: "(153 * mp + 2) div 5 \<le> doy" "doy < (153 * mp + 2) div 5 + 31" using month_days [OF p(10)] by auto
  have short: "doy < (153 * mp + 2) div 5 + 30" if "m \<in> {4, 6, 9, 11}"
  proof -
    have "mp \<in> {1, 3, 6, 8}" using that p(11,12) unfolding m by (auto split: if_splits)
    then have "(153 * (mp + 1) + 2) div 5 = (153 * mp + 2) div 5 + 30" by auto
    moreover have "doy < (153 * (mp + 1) + 2) div 5"
    proof -
      have "mp * 153 + (5 * doy + 2) mod 153 = 5 * doy + 2" unfolding p(10) by (rule div_mult_mod_eq)
      moreover have "(5 * doy + 2) mod 153 < 153" by simp
      ultimately have "5 * doy + 2 < 153 * (mp + 1)" by (simp add: algebra_simps)
      then show ?thesis by linarith
    qed
    ultimately show ?thesis by simp
  qed
  have feb: "dd \<le> 29 \<and> (dd = 29 \<longrightarrow> leap_year y)" if "m = 2"
  proof -
    have mp: "mp = 11" using that p(11,12) unfolding m by (auto split: if_splits)
    then have "dd = doy - 336" by (simp add: dd)
    moreover have "leap_year y" if "doy = 365"
    proof -
      have q: "yr = 3" "quad \<noteq> 24 \<or> cent = 3" using p(9) that by auto
      have "y = era * 400 + cent * 100 + quad * 4 + 4" using y mp q by simp
      then have e: "y = (era * 100 + cent * 25 + quad + 1) * 4 + 0" "y = (era * 4 + cent) * 100 + (quad * 4 + 4)"
        "quad = 24 \<longrightarrow> y = era * 400 + (cent * 100 + 100)"
        by (simp_all add: algebra_simps)
      have "y mod 4 = 0" unfolding e(1) by (simp only: mod_mult_self3) simp
      moreover have "y mod 100 = (quad * 4 + 4) mod 100" unfolding e(2) by (simp only: mod_mult_self3)
      moreover have "quad = 24 \<longrightarrow> y mod 400 = (cent * 100 + 100) mod 400" using e(3) mod_mult_self3 [of era 400 "cent * 100 + 100"] by simp
      moreover have "quad \<noteq> 24 \<longrightarrow> (quad * 4 + 4) mod 100 \<noteq> 0" using p(3,4) by auto
      ultimately show ?thesis using q unfolding leap_year_def by auto
    qed
    ultimately show ?thesis using p(8) by auto
  qed
  have range: "1 \<le> m" "m \<le> 12" "1 \<le> dd" "dd \<le> 31" using p(11,12) r by (auto simp: m dd)
  have "dd \<le> days_in_month y m"
  proof (cases "m = 2")
    case True
    then show ?thesis using feb by (auto simp: days_in_month_def)
  next
    case False
    show ?thesis
    proof (cases "m \<in> {4, 6, 9, 11}")
      case True
      then show ?thesis using short dd False by (simp add: days_in_month_def)
    next
      case inner: False
      then show ?thesis using range(4) False by (simp add: days_in_month_def)
    qed
  qed
  then show ?thesis using range by blast
qed

section \<open>Layouts\<close>

definition pad2 :: "int \<Rightarrow> string" where "pad2 n = pad_zero 2 (digits_of (nat n))"

definition format_year :: "int \<Rightarrow> string" where
  "format_year y = (if y < 0 then CHR ''-'' # pad_zero 4 (digits_of (nat (- y))) else pad_zero 4 (digits_of (nat y)))"

definition format_date :: "int \<Rightarrow> string" where
  "format_date d = (case civil_of_day d of (y, m, dd) \<Rightarrow> format_year y @ ''-'' @ pad2 m @ ''-'' @ pad2 dd)"

text \<open>The layout \<open>2006-01-02T15:04Z\<close>, whose \<open>Z\<close> is a literal, and \<open>time.RFC3339\<close>, both in UTC.\<close>

definition format_minutes :: "time \<Rightarrow> string" where
  "format_minutes t =
     (let s = time_unix t; sod = s mod 86400
      in format_date (s div 86400) @ ''T'' @ pad2 (sod div 3600) @ '':'' @ pad2 (sod div 60 mod 60) @ ''Z'')"

definition format_rfc3339 :: "time \<Rightarrow> string" where
  "format_rfc3339 t =
     (let s = time_unix t; sod = s mod 86400
      in format_date (s div 86400) @ ''T'' @ pad2 (sod div 3600) @ '':'' @ pad2 (sod div 60 mod 60) @ '':'' @ pad2 (sod mod 60)
           @ ''Z'')"

section \<open>Verbs and joins\<close>

text \<open>\<open>%.1f\<close> of a \<open>float64\<close>: the exact value rounded to tenths, ties to even.\<close>

definition format_tenths :: "rat \<Rightarrow> string" where
  "format_tenths q =
     (let n = near_even (abs q * 10)
      in (if q < 0 then ''-'' else []) @ format_int (n div 10) @ ''.'' @ format_int (n mod 10))"

fun format_1f :: "f64 \<Rightarrow> string" where
  "format_1f (Fin q) = format_tenths q"
| "format_1f PInf = ''+Inf''"
| "format_1f NInf = ''-Inf''"
| "format_1f NaN = ''NaN''"

text \<open>\<open>%-16s\<close> counts runes.\<close>

definition pad_right :: "nat \<Rightarrow> string \<Rightarrow> string" where
  "pad_right w s = s @ replicate (w - length (rune_values s)) CHR '' ''"

text \<open>\<open>strings.Join\<close> with any separator.\<close>

fun join_str :: "string \<Rightarrow> string list \<Rightarrow> string" where
  "join_str sep [] = []"
| "join_str sep [f] = f"
| "join_str sep (f # fs) = f @ sep @ join_str sep fs"

text \<open>The keys of a map, sorted.\<close>

definition sorted_keys :: "(string, 'v) gomap \<Rightarrow> string list" where
  "sorted_keys m = sort (map fst m)"

text \<open>The punctuation outside ASCII that the renderers write: an arrow, a middle dot, an ellipsis, an en
  dash and a greater-or-equal sign.\<close>

definition arrow :: string where "arrow = [CHR 0xE2, CHR 0x86, CHR 0x92]"
definition middot :: string where "middot = [CHR 0xC2, CHR 0xB7]"
definition ellipsis :: string where "ellipsis = [CHR 0xE2, CHR 0x80, CHR 0xA6]"
definition en_dash :: string where "en_dash = [CHR 0xE2, CHR 0x80, CHR 0x93]"
definition at_least :: string where "at_least = [CHR 0xE2, CHR 0x89, CHR 0xA5]"

lemma sorted_keys_perm: "map_ok m \<Longrightarrow> map_ok m' \<Longrightarrow> map_of m = map_of m' \<Longrightarrow> sorted_keys m = sorted_keys m'"
proof -
  assume m: "map_ok m" "map_ok m'" "map_of m = map_of m'"
  have "set (map fst m) = set (map fst m')"
    using m(3) by (metis dom_map_of_conv_image_fst set_map)
  then show ?thesis
    using m(1,2) sorted_list_of_set_sort_remdups [of "map fst m"] sorted_list_of_set_sort_remdups [of "map fst m'"]
    by (simp add: sorted_keys_def map_ok_def distinct_remdups_id)
qed

lemma sorted_keys_has: "c \<in> set (sorted_keys m) \<longleftrightarrow> map_has m c"
  by (simp add: sorted_keys_def map_has_iff)

lemma sorted_keys_Nil [simp]: "sorted_keys [] = []"
  by (simp add: sorted_keys_def)

lemma sorted_keys_empty: "sorted_keys m = [] \<longleftrightarrow> m = []"
  by (cases m) (auto simp: sorted_keys_def insort_not_Nil)

end
