(* ===== verification/Report.thy ===== *)
theory Report
  imports Go_Format Engine_Coverage
begin

text \<open>
  The renderers of a computed report: \<open>engine/report/render.go\<close> (text and Markdown), \<open>summary.go\<close> (the
  one-line impact), \<open>coverage.go\<close> (the trust line and its slices) and \<open>csv.go\<close> (the top accounts). A
  builder is the concatenation of what is written to it. The JSON renderings go through reflection and are
  not modelled.
\<close>

abbreviation "nl \<equiv> [CHR 0x0A]"

section \<open>Money and segments\<close>

definition format_i64 :: "i64 \<Rightarrow> string" where
  "format_i64 v = format_int (sint v)"

definition render_money :: "minor_map \<Rightarrow> string" where
  "render_money by_currency =
     (if by_currency = [] then ''none''
      else join_str '', '' (map (\<lambda>c. c @ '' '' @ format_i64 (map_get 0 by_currency c)) (sorted_keys by_currency)))"

definition segment_list :: "minor_map \<Rightarrow> string" where
  "segment_list by_segment =
     (if by_segment = [] then ''no segments''
      else join_str '', ''
        (map (\<lambda>s. (if s = [] then ''(unsegmented)'' else s) @ '' '' @ format_i64 (map_get 0 by_segment s)) (sorted_keys by_segment)))"

definition flows_or_all :: "request \<Rightarrow> string" where
  "flows_or_all req = (let flows = join_str '', '' (Flows req) in if flows = [] then ''(all flows)'' else flows)"

text \<open>A line per element, with a prefix.\<close>

definition lines_of :: "string \<Rightarrow> string list \<Rightarrow> string" where
  "lines_of prefix xs = concat (map (\<lambda>x. prefix @ x @ nl) xs)"

definition percent :: "f64 \<Rightarrow> string" where
  "percent ratio = format_1f (fmul ratio (Fin 100)) @ ''%''"

section \<open>The text block\<close>

definition text_head :: "report \<Rightarrow> string" where
  "text_head r =
     ''BUSINESS IMPACT '' @ dash @ '' '' @ flows_or_all (RepRequest r) @ nl
     @ ''window '' @ format_minutes (From (Window (RepRequest r))) @ '' '' @ arrow @ '' ''
     @ format_minutes (To (Window (RepRequest r))) @ '' '' @ middot @ '' registry v'' @ format_int (RegistryVersion r)
     @ '' '' @ middot @ '' '' @ LibraryVersion r @ nl
     @ ''amounts are minor currency units; realized and estimate are never added'' @ nl @ nl"

definition text_realized :: "report \<Rightarrow> string" where
  "text_realized r =
     ''REALIZED   ['' @ Evidence (RepRealized r) @ ''] '' @ render_money (ByCurrency (RepRealized r)) @ nl
     @ lines_of ''           caveat: '' (Caveats (RepRealized r))"

definition text_deferred :: "report \<Rightarrow> string" where
  "text_deferred r =
     (let d = RepDeferred r
      in ''DEFERRED   ['' @ Evidence d @ ''] '' @ render_money (ByCurrency d) @ '' in-flight'' @ nl
         @ lines_of ''           caveat: '' (Caveats d)
         @ (if ProjectedLostMinor d \<noteq> []
            then ''           projected lost if SLAs breach: '' @ render_money (ProjectedLostMinor d) @ nl else [])
         @ (if sint (OldestAgeMinutes d) > 0
            then ''           oldest in-flight '' @ at_least @ '' '' @ format_i64 (OldestAgeMinutes d) @ '' min'' @ nl else []))"

definition estimate_range :: "est_leg \<Rightarrow> string" where
  "estimate_range u =
     render_money (LowMinor u) @ '' '' @ ellipsis @ '' '' @ render_money (HighMinor u) @ '' (mid '' @ render_money (MidMinor u) @ '')''"

definition text_unrealized :: "report \<Rightarrow> string" where
  "text_unrealized r =
     ''UNREALIZED ['' @ EstEvidence (RepUnrealized r) @ ''] '' @ estimate_range (RepUnrealized r) @ ''  '' @ dash
     @ '' counterfactual; do not add to realized'' @ nl
     @ lines_of ''           note: '' (Notes (RepUnrealized r))"

definition text_customers :: "report \<Rightarrow> string" where
  "text_customers r =
     (let c = RepCustomers r
      in if NotAvailableReason c \<noteq> [] then ''CUSTOMERS  unavailable: '' @ NotAvailableReason c @ nl
         else ''CUSTOMERS  '' @ format_i64 (Distinct c) @ '' distinct ('' @ segment_list (BySegment c) @ '')'' @ nl
           @ concat (map (\<lambda>i. ''           '' @ ImpactID i @ '' ['' @ ImpactSegment i @ ''] '' @ render_money (ImpactByCurrency i) @ nl)
               (TopN c)))"

definition text_coverage :: "report \<Rightarrow> string" where
  "text_coverage r =
     (let c = RepCoverage r
      in if CovUnavailable c \<noteq> [] then ''COVERAGE   unavailable: '' @ CovUnavailable c @ nl
         else ''COVERAGE   ['' @ CovEvidence c @ ''] '' @ percent (Ratio c) @ '' reconciled ('' @ CovSource c @ '')'' @ nl)"

definition text_severity :: "report \<Rightarrow> string" where
  "text_severity r = (if RepSeverity r \<noteq> [] then nl @ ''Severity: '' @ RepSeverity r @ '' (suggested)'' @ nl else [])"

definition render_text :: "report \<Rightarrow> string" where
  "render_text r = text_head r @ text_realized r @ text_deferred r @ text_unrealized r @ text_customers r @ text_coverage r
     @ text_severity r"

section \<open>Markdown\<close>

definition md_head :: "report \<Rightarrow> string" where
  "md_head r =
     ''# Business impact '' @ dash @ '' '' @ flows_or_all (RepRequest r) @ nl @ nl
     @ ''Window `'' @ format_minutes (From (Window (RepRequest r))) @ '' '' @ arrow @ '' ''
     @ format_minutes (To (Window (RepRequest r))) @ ''` '' @ middot @ '' registry v'' @ format_int (RegistryVersion r)
     @ '' '' @ middot @ '' '' @ LibraryVersion r @ nl @ nl
     @ ''_Amounts are minor currency units (ADR-0001). Realized value and estimated value are reported separately and never summed._''
     @ nl @ nl"

definition md_legs :: "report \<Rightarrow> string" where
  "md_legs r =
     ''| Leg | Evidence | Value |'' @ nl @ ''|---|---|---|'' @ nl
     @ ''| Realized | '' @ Evidence (RepRealized r) @ '' | '' @ render_money (ByCurrency (RepRealized r)) @ '' |'' @ nl
     @ ''| Deferred (in-flight) | '' @ Evidence (RepDeferred r) @ '' | '' @ render_money (ByCurrency (RepDeferred r)) @ '' |'' @ nl
     @ ''| Deferred '' @ arrow @ '' projected lost | '' @ Evidence (RepDeferred r) @ '' | ''
     @ render_money (ProjectedLostMinor (RepDeferred r)) @ '' |'' @ nl
     @ ''| Unrealized (counterfactual) | '' @ EstEvidence (RepUnrealized r) @ '' | '' @ estimate_range (RepUnrealized r) @ '' |'' @ nl"

definition md_labels :: "report \<Rightarrow> string" where
  "md_labels r =
     (let labels = lines_of ''> - Realized caveat: '' (Caveats (RepRealized r)) @ lines_of ''> - Deferred caveat: '' (Caveats (RepDeferred r))
            @ lines_of ''> - Unrealized note: '' (Notes (RepUnrealized r));
          has_labels = (Caveats (RepRealized r) \<noteq> [] \<or> Caveats (RepDeferred r) \<noteq> [] \<or> Notes (RepUnrealized r) \<noteq> [])
      in nl @ labels @ (if has_labels then nl else [])
         @ ''> Unrealized is an estimate range and must not be added to realized.'' @ nl @ nl)"

definition md_customers :: "report \<Rightarrow> string" where
  "md_customers r =
     (let c = RepCustomers r
      in ''## Customers'' @ nl @ nl
         @ (if NotAvailableReason c \<noteq> [] then ''_Unavailable: '' @ NotAvailableReason c @ ''_'' @ nl @ nl
            else format_i64 (Distinct c) @ '' distinct affected ('' @ segment_list (BySegment c) @ '').'' @ nl @ nl
              @ (if TopN c \<noteq> []
                 then ''| Customer | Segment | Failed value |'' @ nl @ ''|---|---|---|'' @ nl
                   @ concat (map (\<lambda>i. ''| '' @ ImpactID i @ '' | '' @ ImpactSegment i @ '' | '' @ render_money (ImpactByCurrency i) @ '' |'' @ nl)
                       (TopN c)) @ nl
                 else [])))"

definition md_coverage :: "report \<Rightarrow> string" where
  "md_coverage r =
     (let c = RepCoverage r
      in ''## Coverage'' @ nl @ nl
         @ (if CovUnavailable c \<noteq> [] then ''_Unavailable: '' @ CovUnavailable c @ ''_'' @ nl
            else percent (Ratio c) @ '' of telemetry reconciled against `'' @ CovSource c @ ''` ['' @ CovEvidence c @ ''].'' @ nl))"

definition render_markdown :: "report \<Rightarrow> string" where
  "render_markdown r = md_head r @ md_legs r @ md_labels r @ md_customers r @ md_coverage r
     @ (if RepSeverity r \<noteq> [] then nl @ ''**Suggested severity:** '' @ RepSeverity r @ nl else [])"

end
