(* ===== verification/Report_Summary.thy ===== *)
theory Report_Summary
  imports Report
begin

text \<open>
  The one-line summary with its ranges (\<open>engine/report/summary.go\<close>), the coverage blocks
  (\<open>coverage.go\<close>) and the table of the top accounts (\<open>csv.go\<close>, with what it uses of \<open>encoding/csv\<close>). The
  line of amounts is shown to determine the amounts, and a reader of the table recovers its rows.
\<close>

section \<open>The summary\<close>

text \<open>The running bounds of a currency over the maps that carry it: low, high, and whether any did.\<close>

definition widen :: "string \<Rightarrow> minor_map \<Rightarrow> i64 \<times> i64 \<times> bool \<Rightarrow> i64 \<times> i64 \<times> bool" where
  "widen c m = (\<lambda>(lo, hi, have_any).
     case map_of m c of
       None \<Rightarrow> (lo, hi, have_any)
     | Some v \<Rightarrow> (if \<not> have_any \<or> sint v < sint lo then v else lo, if \<not> have_any \<or> sint v > sint hi then v else hi, True))"

definition est_maps :: "est_leg \<Rightarrow> minor_map list" where
  "est_maps u = [LowMinor u, MidMinor u, HighMinor u]"

definition money_range :: "est_leg \<Rightarrow> string" where
  "money_range u =
     (if LowMinor u = [] \<and> MidMinor u = [] \<and> HighMinor u = [] then ''none''
      else
        (let curs = fold (\<lambda>m curs. fold (\<lambda>(c, _). map_put c ()) m curs) (est_maps u) [];
             part = (\<lambda>c. case fold (widen c) (est_maps u) (0, 0, False) of (lo, hi, _) \<Rightarrow>
                       c @ '' '' @ format_i64 lo @ en_dash @ format_i64 hi)
         in join_str '', '' (map part (sorted_keys curs))))"

definition summary :: "report \<Rightarrow> string" where
  "summary r =
     ''shortfall impact '' @ flows_or_all (RepRequest r) @ '' '' @ format_minutes (From (Window (RepRequest r))) @ arrow
     @ format_minutes (To (Window (RepRequest r))) @ '' (minor units): ''
     @ (if Unavailable (RepRealized r) then ''realized n/a''
        else ''realized ['' @ Evidence (RepRealized r) @ ''] '' @ render_money (ByCurrency (RepRealized r)))
     @ (if Unavailable (RepDeferred r) then '' '' @ middot @ '' deferred n/a''
        else '' '' @ middot @ '' deferred ['' @ Evidence (RepDeferred r) @ ''] '' @ render_money (ByCurrency (RepDeferred r)) @ '' in-flight'')
     @ (if EstUnavailable (RepUnrealized r) then '' '' @ middot @ '' unrealized n/a''
        else '' '' @ middot @ '' unrealized ['' @ EstEvidence (RepUnrealized r) @ ''] '' @ money_range (RepUnrealized r))
     @ (if NotAvailableReason (RepCustomers r) \<noteq> [] then '' '' @ middot @ '' customers n/a''
        else '' '' @ middot @ '' customers '' @ format_i64 (Distinct (RepCustomers r)) @ '' distinct'')
     @ (if RepSeverity r \<noteq> [] then '' '' @ middot @ '' suggested '' @ RepSeverity r else [])"

section \<open>The coverage blocks\<close>

text \<open>The slices of one computation have distinct (flow, currency) keys, so that the sort has one result.\<close>

definition sorted_slices :: "coverage_slice list \<Rightarrow> coverage_slice list" where
  "sorted_slices ss = sort_key (\<lambda>s. (SlFlow s, SlCurrency s)) ss"

definition slice_money :: "coverage_slice \<Rightarrow> i64 \<Rightarrow> string" where
  "slice_money s amount = money_string \<lparr>Amount = amount, Currency = SlCurrency s, Exponent = SlExponent s\<rparr>"

definition render_coverage_text :: "coverage_leg \<Rightarrow> coverage_slice list \<Rightarrow> string" where
  "render_coverage_text leg slices =
     (if CovUnavailable leg \<noteq> [] then ''COVERAGE   unavailable: '' @ CovUnavailable leg @ nl
      else ''COVERAGE   ['' @ CovEvidence leg @ ''] '' @ percent (Ratio leg) @ '' reconciled against '' @ CovSource leg @ nl
        @ concat (map (\<lambda>s. ''  '' @ pad_right 16 (SlFlow s) @ '' '' @ SlCurrency s @ ''  telemetry '' @ slice_money s (TelemetryMinor s)
            @ ''  ledger '' @ slice_money s (LedgerMinor s) @ ''  ('' @ percent (SlRatio s) @ '')'' @ nl) (sorted_slices slices)))"

definition render_coverage_markdown :: "coverage_leg \<Rightarrow> coverage_slice list \<Rightarrow> string" where
  "render_coverage_markdown leg slices =
     ''## Coverage (reconciled)'' @ nl @ nl
     @ (if CovUnavailable leg \<noteq> [] then ''_Unavailable: '' @ CovUnavailable leg @ ''_'' @ nl
        else ''**'' @ percent (Ratio leg) @ ''** reconciled against `'' @ CovSource leg @ ''` '' @ middot @ '' evidence `''
          @ CovEvidence leg @ ''`'' @ nl @ nl
          @ ''_The headline is the worst (flow, currency) slice, not the average '' @ dash
          @ '' a trust number is a weakest-link number (ADR-0011)._'' @ nl @ nl
          @ ''| Flow | Currency | Telemetry | Ledger | Coverage |'' @ nl @ ''|---|---|---|---|---|'' @ nl
          @ concat (map (\<lambda>s. ''| '' @ SlFlow s @ '' | '' @ SlCurrency s @ '' | '' @ slice_money s (TelemetryMinor s) @ '' | ''
              @ slice_money s (LedgerMinor s) @ '' | '' @ percent (SlRatio s) @ '' |'' @ nl) (sorted_slices slices)))"

section \<open>The table of accounts\<close>

text \<open>\<open>csv.Writer\<close> with its defaults: a field is quoted when it holds a comma, a quote or a line break, when
  it begins with a space, or when it is the string backslash-dot; quotes are doubled.\<close>

abbreviation "quote_mark \<equiv> CHR 0x22"

definition field_needs_quotes :: "string \<Rightarrow> bool" where
  "field_needs_quotes f \<longleftrightarrow> f \<noteq> []
     \<and> (f = [CHR 0x5C, CHR ''.''] \<or> list_ex (\<lambda>c. c \<in> {CHR 0x0A, CHR 0x0D, quote_mark, CHR '',''}) f
        \<or> is_space (fst (decode_rune f)))"

definition csv_field :: "string \<Rightarrow> string" where
  "csv_field f =
     (if field_needs_quotes f
      then [quote_mark] @ concat (map (\<lambda>c. if c = quote_mark then [quote_mark, quote_mark] else [c]) f) @ [quote_mark]
      else f)"

definition csv_record :: "string list \<Rightarrow> string" where
  "csv_record fs = join_with CHR '','' (map csv_field fs) @ nl"

definition csv_write :: "string list list \<Rightarrow> string" where
  "csv_write rows = concat (map csv_record rows)"

definition csv_header :: "string list" where
  "csv_header = [''customer_id'', ''segment'', ''currency'', ''amount_minor'']"

definition account_rows :: "customer_impact \<Rightarrow> string list list" where
  "account_rows i =
     map (\<lambda>cur. [ImpactID i, ImpactSegment i, cur, format_int (sint (map_get 0 (ImpactByCurrency i) cur))])
       (sorted_keys (ImpactByCurrency i))"

definition customers_csv :: "report \<Rightarrow> string + string" where
  "customers_csv r =
     (if NotAvailableReason (RepCustomers r) \<noteq> []
      then Inl (''report: customers leg unavailable: '' @ NotAvailableReason (RepCustomers r))
      else Inr (csv_write (csv_header # concat (map account_rows (TopN (RepCustomers r))))))"

section \<open>A reader of the table\<close>

text \<open>The reader of RFC 4180: a quoted field ends at a quote that is not doubled, any other field before the
  next comma or line break; every reader returns the rest of its input.\<close>

fun csv_unquote :: "string \<Rightarrow> (string \<times> string) option" where
  "csv_unquote [] = None"
| "csv_unquote (c # cs) =
     (if c \<noteq> quote_mark then map_option (apfst (Cons c)) (csv_unquote cs)
      else (case cs of
              [] \<Rightarrow> Some ([], [])
            | d # ds \<Rightarrow> if d = quote_mark then map_option (apfst (Cons quote_mark)) (csv_unquote ds) else Some ([], cs)))"

definition csv_next :: "string \<Rightarrow> (string \<times> string) option" where
  "csv_next s =
     (case s of
        [] \<Rightarrow> Some ([], [])
      | c # cs \<Rightarrow>
          if c = quote_mark then csv_unquote cs
          else Some (takeWhile (\<lambda>c. c \<notin> {CHR '','', CHR 0x0A}) s, dropWhile (\<lambda>c. c \<notin> {CHR '','', CHR 0x0A}) s))"

lemma csv_unquote_shorter: "csv_unquote s = Some (f, rest) \<Longrightarrow> length rest \<le> length s"
  by (induction s arbitrary: f rest rule: csv_unquote.induct) (fastforce split: if_splits list.splits)+

lemma csv_next_shorter:
  assumes "csv_next s = Some (f, rest)"
  shows "length rest \<le> length s"
proof (cases s)
  case Nil
  then show ?thesis using assms by (simp add: csv_next_def)
next
  case (Cons c cs)
  show ?thesis
  proof (cases "c = quote_mark")
    case True
    then have "csv_unquote cs = Some (f, rest)" using assms Cons by (simp add: csv_next_def)
    then show ?thesis using csv_unquote_shorter [of cs] Cons by fastforce
  next
    case False
    then have "rest = dropWhile (\<lambda>c. c \<notin> {CHR '','', CHR 0x0A}) s" using assms Cons by (simp add: csv_next_def)
    then show ?thesis by (simp only: length_dropWhile_le)
  qed
qed

function csv_fields :: "string \<Rightarrow> (string list \<times> string) option" where
  "csv_fields s =
     (case csv_next s of
        None \<Rightarrow> None
      | Some (f, []) \<Rightarrow> None
      | Some (f, c # rest) \<Rightarrow>
          if c = CHR '','' then map_option (apfst (Cons f)) (csv_fields rest)
          else if c = CHR 0x0A then Some ([f], rest)
          else None)"
  by pat_completeness auto
termination
  by (relation "measure length") (auto dest: csv_next_shorter)

declare csv_fields.simps [simp del]

lemma csv_fields_shorter: "csv_fields s = Some (fs, rest) \<Longrightarrow> length rest < length s"
proof (induction s arbitrary: fs rest rule: csv_fields.induct)
  case (1 s)
  then show ?case
    by (subst (asm) (2) csv_fields.simps)
      (fastforce dest: csv_next_shorter split: option.splits prod.splits list.splits if_splits)
qed

function csv_read :: "string \<Rightarrow> string list list option" where
  "csv_read s =
     (if s = [] then Some []
      else (case csv_fields s of None \<Rightarrow> None | Some (fs, rest) \<Rightarrow> map_option (Cons fs) (csv_read rest)))"
  by pat_completeness auto
termination
  by (relation "measure length") (auto dest: csv_fields_shorter)

declare csv_read.simps [simp del]

section \<open>The round trip of the table\<close>

lemma csv_unquote_escaped:
  "rest = [] \<or> hd rest \<noteq> quote_mark \<Longrightarrow>
     csv_unquote (concat (map (\<lambda>c. if c = quote_mark then [quote_mark, quote_mark] else [c]) f) @ quote_mark # rest) = Some (f, rest)"
  by (induction f) (auto split: list.splits)

lemma csv_next_field:
  assumes "c \<in> {CHR '','', CHR 0x0A}"
  shows "csv_next (csv_field f @ c # rest) = Some (f, c # rest)"
proof (cases "field_needs_quotes f")
  case True
  then show ?thesis using assms csv_unquote_escaped [of "c # rest" f] by (auto simp: csv_field_def csv_next_def)
next
  case False
  then have plain: "\<forall>x \<in> set f. x \<notin> {CHR '','', CHR 0x0A} \<and> x \<noteq> quote_mark"
    by (cases f) (auto simp: field_needs_quotes_def list_ex_iff)
  then have "takeWhile (\<lambda>c. c \<notin> {CHR '','', CHR 0x0A}) (f @ c # rest) = f"
    "dropWhile (\<lambda>c. c \<notin> {CHR '','', CHR 0x0A}) (f @ c # rest) = c # rest"
    using assms by (auto simp: takeWhile_append2 dropWhile_append2)
  then show ?thesis using False plain assms by (cases f) (auto simp: csv_field_def csv_next_def)
qed

lemma csv_fields_record: "fs \<noteq> [] \<Longrightarrow> csv_fields (csv_record fs @ rest) = Some (fs, rest)"
proof (induction fs rule: induct_list012)
  case (2 f)
  show ?case using csv_next_field [of "CHR 0x0A" f rest]
    by (subst csv_fields.simps) (simp add: csv_record_def)
next
  case (3 f g fs)
  have "csv_fields (csv_field f @ CHR '','' # (join_with CHR '','' (map csv_field (g # fs)) @ nl @ rest)) = Some (f # g # fs, rest)"
    using 3 csv_next_field [of "CHR '',''" f]
    by (subst csv_fields.simps) (simp add: csv_record_def)
  then show ?case by (simp add: csv_record_def)
qed simp

lemma csv_read_write: "[] \<notin> set rows \<Longrightarrow> csv_read (csv_write rows) = Some rows"
proof (induction rows)
  case Nil
  show ?case by (subst csv_read.simps) (simp add: csv_write_def)
next
  case (Cons fs rows)
  then have "csv_fields (csv_record fs @ csv_write rows) = Some (fs, csv_write rows)"
    by (intro csv_fields_record) auto
  moreover have "csv_record fs \<noteq> []" by (simp add: csv_record_def)
  ultimately show ?case using Cons by (subst csv_read.simps) (simp add: csv_write_def)
qed

text \<open>The accounts that a table holds: the header, then one amount per row.\<close>

definition account_of_row :: "string list \<Rightarrow> (string \<times> string \<times> string \<times> int) option" where
  "account_of_row row =
     (case row of
        [cid, seg, cur, amount] \<Rightarrow> map_option (\<lambda>n. (cid, seg, cur, n)) (parse_int 64 amount)
      | _ \<Rightarrow> None)"

fun all_some :: "'a option list \<Rightarrow> 'a list option" where
  "all_some [] = Some []"
| "all_some (x # xs) = (case x of None \<Rightarrow> None | Some y \<Rightarrow> map_option (Cons y) (all_some xs))"

definition read_accounts :: "string \<Rightarrow> (string \<times> string \<times> string \<times> int) list option" where
  "read_accounts s =
     (case csv_read s of
        Some (header # rows) \<Rightarrow> if header = csv_header then all_some (map account_of_row rows) else None
      | _ \<Rightarrow> None)"

lemma all_some_map: "(\<And>x. x \<in> set xs \<Longrightarrow> f x = Some (g x)) \<Longrightarrow> all_some (map f xs) = Some (map g xs)"
  by (induction xs) auto

lemma parse_format_i64: "parse_int 64 (format_int (sint (v :: i64))) = Some (sint v)"
  using sint_i64_bounds [of v] by (intro parse_int_format_int) auto

text \<open>C37: The attached table loses nothing and nothing in it can forge a row: whatever bytes the ids,
  segments and currencies hold, a reader of the format gets back the top accounts in order, one row per
  currency in sorted order with the exact 64-bit amount. An unavailable leg is an error with its reason,
  never an empty table.\<close>

theorem customers_csv_roundtrip:
  "case customers_csv r of
     Inl e \<Rightarrow> NotAvailableReason (RepCustomers r) \<noteq> []
       \<and> e = ''report: customers leg unavailable: '' @ NotAvailableReason (RepCustomers r)
   | Inr table \<Rightarrow> NotAvailableReason (RepCustomers r) = []
       \<and> read_accounts table = Some (concat (map (\<lambda>i.
            map (\<lambda>cur. (ImpactID i, ImpactSegment i, cur, sint (map_get 0 (ImpactByCurrency i) cur))) (sorted_keys (ImpactByCurrency i)))
            (TopN (RepCustomers r))))"
proof (cases "NotAvailableReason (RepCustomers r) = []")
  case True
  let ?rows = "concat (map account_rows (TopN (RepCustomers r)))"
  have "csv_read (csv_write (csv_header # ?rows)) = Some (csv_header # ?rows)"
    by (rule csv_read_write) (auto simp: csv_header_def account_rows_def)
  moreover have "all_some (map account_of_row ?rows)
      = Some (map (\<lambda>row. (row ! 0, row ! 1, row ! 2, the (parse_int 64 (row ! 3)))) ?rows)"
    by (rule all_some_map) (auto simp: account_rows_def account_of_row_def parse_format_i64)
  ultimately show ?thesis using True
    by (simp add: customers_csv_def read_accounts_def map_concat account_rows_def parse_format_i64 comp_def)
next
  case False
  then show ?thesis by (simp add: customers_csv_def)
qed

section \<open>The line of amounts\<close>

text \<open>The keys of a currency map, as validated money has them: no space, no comma, not empty.\<close>

definition currency_keys :: "minor_map \<Rightarrow> bool" where
  "currency_keys m \<longleftrightarrow> map_ok m \<and> (\<forall>c \<in> fst ` set m. c \<noteq> [] \<and> CHR '' '' \<notin> set c \<and> CHR '','' \<notin> set c)"

text \<open>Reading a line back: entries at the commas, then the code, the space and the number.\<close>

definition read_entry :: "string \<Rightarrow> string \<times> int option" where
  "read_entry s = (case cut CHR '' '' s of (c, n, _) \<Rightarrow> (c, parse_int 64 n))"

definition read_money :: "string \<Rightarrow> (string \<times> int option) list" where
  "read_money s =
     (if s = ''none'' then []
      else map (\<lambda>e. read_entry e) (map (\<lambda>e. fst (cut_prefix e '' '')) (split_on CHR '','' s)))"

lemma join_str_commas:
  "fs \<noteq> [] \<Longrightarrow> (\<And>f. f \<in> set fs \<Longrightarrow> CHR '','' \<notin> set f) \<Longrightarrow>
     split_on CHR '','' (join_str '', '' fs) = hd fs # map (\<lambda>f. CHR '' '' # f) (tl fs)"
proof (induction fs rule: induct_list012)
  case (3 f g fs)
  then have "split_on CHR '','' (f @ CHR '','' # (CHR '' '' # join_str '', '' (g # fs))) = f # split_on CHR '','' (CHR '' '' # join_str '', '' (g # fs))"
    by (simp add: split_on_append)
  moreover have "split_on CHR '','' (CHR '' '' # join_str '', '' (g # fs)) = (CHR '' '' # g) # map (\<lambda>f. CHR '' '' # f) fs"
    using 3 by simp
  ultimately show ?case by simp
qed (simp_all add: split_on_no_sep)

lemma format_i64_chars: "CHR '' '' \<notin> set (format_i64 v)" "CHR '','' \<notin> set (format_i64 v)"
  using format_int_chars [of _ "sint v"] by (auto simp: format_i64_def is_digit_iff dest!: format_int_chars)

lemma read_entry_format: "CHR '' '' \<notin> set c \<Longrightarrow> read_entry (c @ CHR '' '' # format_i64 v) = (c, Some (sint v))"
  by (simp add: read_entry_def cut_found format_i64_def parse_format_i64)

lemma money_entries_not_none:
  assumes "fs \<noteq> []" "\<And>f. f \<in> set fs \<Longrightarrow> CHR '' '' \<in> set f"
  shows "join_str '', '' fs \<noteq> ''none''"
proof -
  obtain f gs where fs: "fs = f # gs" using assms(1) by (cases fs) auto
  then have "CHR '' '' \<in> set (join_str '', '' fs)" using assms(2) [of f] by (cases gs) auto
  then show ?thesis by auto
qed

lemma strip_entries:
  assumes "fs \<noteq> []" "\<And>f. f \<in> set fs \<Longrightarrow> f \<noteq> [] \<and> hd f \<noteq> CHR '' ''"
  shows "map (\<lambda>e. fst (cut_prefix e '' '')) (hd fs # map (\<lambda>f. CHR '' '' # f) (tl fs)) = fs"
proof -
  obtain f gs where fs: "fs = f # gs" using assms(1) by (cases fs) auto
  then obtain c cs where "f = c # cs" "c \<noteq> CHR '' ''" using assms(2) [of f] by (cases f) auto
  then show ?thesis by (simp add: fs cut_prefix_def has_prefix_def comp_def)
qed

lemma read_money_render:
  assumes "currency_keys m"
  shows "read_money (render_money m) = map (\<lambda>c. (c, Some (sint (map_get 0 m c)))) (sorted_keys m)"
proof (cases "m = []")
  case True
  then show ?thesis by (simp add: render_money_def read_money_def)
next
  case False
  let ?fs = "map (\<lambda>c. c @ '' '' @ format_i64 (map_get 0 m c)) (sorted_keys m)"
  have keys: "c \<noteq> [] \<and> CHR '' '' \<notin> set c \<and> CHR '','' \<notin> set c" if "c \<in> set (sorted_keys m)" for c
    using that assms by (auto simp: currency_keys_def sorted_keys_has map_has_iff)
  have ne: "?fs \<noteq> []" using False by (simp add: sorted_keys_empty)
  have "join_str '', '' ?fs \<noteq> ''none''" using ne by (rule money_entries_not_none) auto
  moreover have "split_on CHR '','' (join_str '', '' ?fs) = hd ?fs # map (\<lambda>f. CHR '' '' # f) (tl ?fs)"
    using ne by (rule join_str_commas) (auto simp: format_i64_chars dest: keys)
  moreover have "map (\<lambda>e. fst (cut_prefix e '' '')) (hd ?fs # map (\<lambda>f. CHR '' '' # f) (tl ?fs)) = ?fs"
  proof (rule strip_entries [OF ne])
    fix f assume "f \<in> set ?fs"
    then obtain c where c: "c \<in> set (sorted_keys m)" "f = c @ '' '' @ format_i64 (map_get 0 m c)" by auto
    have "c \<noteq> []" "hd c \<in> set c" "CHR '' '' \<notin> set c" using keys [OF c(1)] by auto
    then show "f \<noteq> [] \<and> hd f \<noteq> CHR '' ''" unfolding c(2) by (cases "hd c = CHR '' ''") auto
  qed
  ultimately have "read_money (render_money m) = map read_entry ?fs"
    using False by (simp only: render_money_def read_money_def if_False)
  also have "\<dots> = map (\<lambda>c. (c, Some (sint (map_get 0 m c)))) (sorted_keys m)"
    using keys by (simp add: read_entry_format)
  finally show ?thesis .
qed

text \<open>C38: The line of amounts determines the amounts: two maps of currencies give the same line exactly when
  they hold the same amount for every currency, whatever order they are iterated in.\<close>

theorem render_money_exact:
  assumes "currency_keys m" "currency_keys m'"
  shows "render_money m = render_money m' \<longleftrightarrow> map_of m = map_of m'"
proof
  assume eq: "map_of m = map_of m'"
  then have "sorted_keys m = sorted_keys m'" "m = [] \<longleftrightarrow> m' = []"
    using assms sorted_keys_perm [of m m'] by (auto simp: currency_keys_def sorted_keys_empty [symmetric])
  then show "render_money m = render_money m'" by (simp add: render_money_def map_get_def eq)
next
  assume "render_money m = render_money m'"
  then have eq: "map (\<lambda>c. (c, Some (sint (map_get 0 m c)))) (sorted_keys m) = map (\<lambda>c. (c, Some (sint (map_get 0 m' c)))) (sorted_keys m')"
    using read_money_render [OF assms(1)] read_money_render [OF assms(2)] by simp
  then have "map fst (map (\<lambda>c. (c, Some (sint (map_get 0 m c)))) (sorted_keys m))
      = map fst (map (\<lambda>c. (c, Some (sint (map_get 0 m' c)))) (sorted_keys m'))" by (rule arg_cong)
  then have k: "sorted_keys m = sorted_keys m'" by (simp add: comp_def)
  have v: "map_get 0 m c = map_get 0 m' c" if "c \<in> set (sorted_keys m)" for c
    using eq that unfolding k by (simp add: sint_eq_iff_i64)
  show "map_of m = map_of m'"
  proof
    fix c
    have "map_has m c \<longleftrightarrow> map_has m' c" using k sorted_keys_has [of c m] sorted_keys_has [of c m'] by simp
    then show "map_of m c = map_of m' c"
      using v [of c] sorted_keys_has [of c m] by (auto simp: map_has_def map_get_def split: option.splits)
  qed
qed

theorem render_money_exact_witness:
  "render_money [(''USD'', 4250), (''EUR'', - 7)] = render_money [(''EUR'', - 7), (''USD'', 4250)]
   \<and> render_money [(''USD'', 4250)] \<noteq> render_money [(''USD'', 4251)]"
proof -
  have k: "currency_keys [(''USD'', 4250), (''EUR'', - 7)]" "currency_keys [(''EUR'', - 7), (''USD'', 4250)]"
    "currency_keys [(''USD'', 4250)]" "currency_keys [(''USD'', 4251)]"
    by (simp_all add: currency_keys_def map_ok_def)
  have "map_of [(''USD'', 4250 :: i64), (''EUR'', - 7)] = map_of [(''EUR'', - 7), (''USD'', 4250)]"
    by (simp add: fun_eq_iff)
  moreover have "map_of [(''USD'', 4250 :: i64)] \<noteq> map_of [(''USD'', 4251)]" by (simp add: fun_eq_iff)
  ultimately show ?thesis using render_money_exact [OF k(1,2)] render_money_exact [OF k(3,4)] by simp
qed

section \<open>Ranges and unavailable legs\<close>

text \<open>The values a currency has in a list of maps.\<close>

definition values_in :: "minor_map list \<Rightarrow> string \<Rightarrow> int list" where
  "values_in ms c = concat (map (\<lambda>m. case map_of m c of Some v \<Rightarrow> [sint v] | None \<Rightarrow> []) ms)"

lemma values_in_snoc: "values_in (ms @ [m]) c = values_in ms c @ (case map_of m c of Some v \<Rightarrow> [sint v] | None \<Rightarrow> [])"
  by (simp add: values_in_def)

lemma values_in_Nil: "values_in ms c = [] \<longleftrightarrow> \<not> list_ex (\<lambda>m. map_has m c) ms"
  by (induction ms) (auto simp: values_in_def map_has_def split: option.splits)

lemma widen_bounds:
  "case fold (widen c) ms (0, 0, False) of (lo, hi, have_any) \<Rightarrow>
     have_any = (values_in ms c \<noteq> [])
     \<and> (have_any \<longrightarrow> sint lo = Min (set (values_in ms c)) \<and> sint hi = Max (set (values_in ms c)))"
proof (induction ms rule: rev_induct)
  case Nil
  show ?case by (simp add: values_in_def)
next
  case (snoc m ms)
  obtain lo hi b where st: "fold (widen c) ms (0, 0, False) = (lo, hi, b)" by (cases "fold (widen c) ms (0, 0, False)")
  then have step: "fold (widen c) (ms @ [m]) (0, 0, False) = widen c m (lo, hi, b)" by simp
  have IH: "b = (values_in ms c \<noteq> [])"
    "b \<longrightarrow> sint lo = Min (set (values_in ms c)) \<and> sint hi = Max (set (values_in ms c))"
    using snoc by (simp_all add: st)
  show ?case unfolding step
  proof (cases "map_of m c")
    case None
    then show "case widen c m (lo, hi, b) of (lo, hi, have_any) \<Rightarrow> have_any = (values_in (ms @ [m]) c \<noteq> [])
        \<and> (have_any \<longrightarrow> sint lo = Min (set (values_in (ms @ [m]) c)) \<and> sint hi = Max (set (values_in (ms @ [m]) c)))"
      using IH by (simp add: widen_def values_in_snoc)
  next
    case (Some v)
    show "case widen c m (lo, hi, b) of (lo, hi, have_any) \<Rightarrow> have_any = (values_in (ms @ [m]) c \<noteq> [])
        \<and> (have_any \<longrightarrow> sint lo = Min (set (values_in (ms @ [m]) c)) \<and> sint hi = Max (set (values_in (ms @ [m]) c)))"
    proof (cases "values_in ms c = []")
      case True
      then show ?thesis using IH Some by (simp add: widen_def values_in_snoc)
    next
      case False
      then have "Min (set (values_in (ms @ [m]) c)) = min (sint v) (sint lo)" "Max (set (values_in (ms @ [m]) c)) = max (sint v) (sint hi)"
        using IH Some by (simp_all add: values_in_snoc)
      then show ?thesis using False IH(1) Some by (simp add: widen_def values_in_Nil min_def max_def values_in_snoc)
    qed
  qed
qed

lemma map_has_Cons: "map_has (x # m) c \<longleftrightarrow> c = fst x \<or> map_has m c"
  by (auto simp: map_has_iff)

lemma keys_fold_put: "map_has (fold (\<lambda>(c, _). map_put c ()) m curs) c \<longleftrightarrow> map_has curs c \<or> map_has m c"
proof (induction m arbitrary: curs)
  case (Cons x m)
  show ?case by (cases x) (auto simp: Cons.IH map_has_Cons)
qed simp

lemma keys_fold_maps:
  "map_has (fold (\<lambda>m curs. fold (\<lambda>(c, _). map_put c ()) m curs) ms curs) c \<longleftrightarrow> map_has curs c \<or> list_ex (\<lambda>m. map_has m c) ms"
  by (induction ms arbitrary: curs) (auto simp: keys_fold_put)

lemma ok_fold_put: "map_ok curs \<Longrightarrow> map_ok (fold (\<lambda>(c, _). map_put c ()) m curs)"
  by (induction m arbitrary: curs) auto

lemma ok_fold_maps: "map_ok curs \<Longrightarrow> map_ok (fold (\<lambda>m curs. fold (\<lambda>(c, _). map_put c ()) m curs) ms curs)"
  by (induction ms arbitrary: curs) (auto simp: ok_fold_put)

text \<open>The summary's range is never inverted and never leaves a bound out: for every currency that any of
  the three maps carries, once and in order, it prints the least and the greatest of the bounds the maps
  carry, whether or not they were filled in step.\<close>

theorem money_range_exact:
  "money_range u =
     (if est_maps u = [[], [], []] then ''none''
      else join_str '', ''
        (map (\<lambda>c. c @ '' '' @ format_int (Min (set (values_in (est_maps u) c))) @ en_dash @ format_int (Max (set (values_in (est_maps u) c))))
          (sorted_list_of_set {c. values_in (est_maps u) c \<noteq> []})))"
proof -
  let ?curs = "fold (\<lambda>m curs. fold (\<lambda>(c, _). map_put c ()) m curs) (est_maps u) []"
  have has: "map_has ?curs c \<longleftrightarrow> values_in (est_maps u) c \<noteq> []" for c
    by (simp add: keys_fold_maps values_in_Nil)
  have "distinct (map fst ?curs)" using ok_fold_maps [of "[]" "est_maps u"] by (simp add: map_ok_def)
  moreover have "set (map fst ?curs) = {c. values_in (est_maps u) c \<noteq> []}" using has by (auto simp: map_has_iff)
  ultimately have keys: "sorted_keys ?curs = sorted_list_of_set {c. values_in (est_maps u) c \<noteq> []}"
    using sorted_list_of_set_sort_remdups [of "map fst ?curs"] by (simp add: sorted_keys_def distinct_remdups_id)
  have part: "(case fold (widen c) (est_maps u) (0, 0, False) of (lo, hi, _) \<Rightarrow> c @ '' '' @ format_i64 lo @ en_dash @ format_i64 hi)
      = c @ '' '' @ format_int (Min (set (values_in (est_maps u) c))) @ en_dash @ format_int (Max (set (values_in (est_maps u) c)))"
    if "c \<in> set (sorted_keys ?curs)" for c
  proof -
    have "values_in (est_maps u) c \<noteq> []" using that has [of c] by (simp add: sorted_keys_has)
    then show ?thesis using widen_bounds [where c = c and ms = "est_maps u"] by (auto simp: format_i64_def split: prod.splits)
  qed
  then have "map (\<lambda>c. case fold (widen c) (est_maps u) (0, 0, False) of (lo, hi, _) \<Rightarrow> c @ '' '' @ format_i64 lo @ en_dash @ format_i64 hi) (sorted_keys ?curs)
      = map (\<lambda>c. c @ '' '' @ format_int (Min (set (values_in (est_maps u) c))) @ en_dash @ format_int (Max (set (values_in (est_maps u) c)))) (sorted_keys ?curs)"
    by (intro map_cong refl) blast
  then show ?thesis by (simp only: money_range_def Let_def keys) (simp add: est_maps_def)
qed

text \<open>The text and Markdown blocks do not look at the flag of an unavailable leg, which the summary shows as
  \<open>n/a\<close>: its zero is printed as a measured one.\<close>

lemma blocks_ignore_unavailable:
  "render_text (r\<lparr>RepRealized := (RepRealized r)\<lparr>Unavailable := u\<rparr>, RepUnrealized := (RepUnrealized r)\<lparr>EstUnavailable := w\<rparr>\<rparr>) = render_text r"
  "render_markdown (r\<lparr>RepRealized := (RepRealized r)\<lparr>Unavailable := u\<rparr>, RepUnrealized := (RepUnrealized r)\<lparr>EstUnavailable := w\<rparr>\<rparr>)
     = render_markdown r"
  by (simp_all add: render_text_def text_head_def text_realized_def text_deferred_def text_unrealized_def text_customers_def
      text_coverage_def text_severity_def estimate_range_def render_markdown_def md_head_def md_legs_def md_labels_def
      md_customers_def md_coverage_def)

end
