(* ===== verification/Sqlq.thy ===== *)
theory Sqlq
  imports Go_Format Memq
begin

text \<open>
  The events backend over a SQL table, \<open>adapters/query/sql/sql.go\<close>. The database behind
  \<open>database/sql\<close> is a parameter: what a query of a text with bound arguments answers. The statements are
  the texts the code builds; what SQL means by them is stated as the hypothesis of the theorems, over the
  columns of the documented schema.
\<close>

section \<open>The database\<close>

datatype sql_arg = ArgInt i64 | ArgText string

text \<open>What \<open>Scan\<close> makes of a row: the group columns as \<open>NullString\<close>s and the aggregates, or its error.\<close>

datatype sql_row = Row "string option list" "i64 list" | ScanError string

text \<open>\<open>QueryContext\<close> answers rows and what \<open>rows.Err\<close> is at their end; \<open>QueryRowContext\<close> with \<open>Scan\<close> one number.\<close>

record database =
  db_query :: "string \<Rightarrow> sql_arg list \<Rightarrow> string + sql_row list \<times> string option"
  db_query_row :: "string \<Rightarrow> sql_arg list \<Rightarrow> string + i64"

record sql_querier =
  SqlDb :: database
  SqlTable :: string
  SqlWeeks :: int

definition label_columns :: "(string, string) gomap" where
  "label_columns =
     [(''flow'', ''flow''), (''stage'', ''stage''), (''outcome'', ''outcome''), (''currency'', ''currency''),
      (''segment'', ''segment''), (''kind'', ''kind''), (''customer'', ''customer_id''), (''entity'', ''entity_id'')]"

section \<open>Construction\<close>

definition identifier_rune :: "bool \<Rightarrow> nat \<Rightarrow> bool" where
  "identifier_rune first r \<longleftrightarrow> r = byte CHR ''_'' \<or> is_lower r \<or> is_upper r \<or> (is_digit r \<and> \<not> first)"

definition is_bare_identifier :: "string \<Rightarrow> bool" where
  "is_bare_identifier s \<longleftrightarrow>
     (case rune_values s of [] \<Rightarrow> False | r # rs \<Rightarrow> identifier_rune True r \<and> list_all (identifier_rune False) rs)"

definition with_table :: "string \<Rightarrow> sql_querier \<Rightarrow> sql_querier" where
  "with_table name q = q\<lparr>SqlTable := name\<rparr>"

definition with_event_history_weeks :: "int \<Rightarrow> sql_querier \<Rightarrow> sql_querier" where
  "with_event_history_weeks w q = q\<lparr>SqlWeeks := w\<rparr>"

definition new_sql :: "database \<Rightarrow> (sql_querier \<Rightarrow> sql_querier) list \<Rightarrow> string + sql_querier" where
  "new_sql db opts =
     (let q = fold (\<lambda>opt q. opt q) opts \<lparr>SqlDb = db, SqlTable = ''biz_outcomes'', SqlWeeks = 8\<rparr>
      in if \<not> is_bare_identifier (SqlTable q) then Inl (''sql: invalid table name '' @ quoted (SqlTable q)) else Inr q)"

definition sql_caps :: "sql_querier \<Rightarrow> caps" where
  "sql_caps q = \<lparr>CMetrics = False, CEvents = True, CMetricWeeks = 0, CEventWeeks = SqlWeeks q\<rparr>"

section \<open>The pieces of a statement\<close>

fun sql_columns :: "string list \<Rightarrow> string + string list" where
  "sql_columns [] = Inr []"
| "sql_columns (l # ls) =
     (case map_of label_columns l of
        None \<Rightarrow> Inl (''sql: unknown group/filter label '' @ quoted l)
      | Some c \<Rightarrow> (case sql_columns ls of Inl e \<Rightarrow> Inl e | Inr cs \<Rightarrow> Inr (c # cs)))"

definition unix_nano :: "time \<Rightarrow> i64" where
  "unix_nano t = word_of_int t"

fun filter_conds :: "labels \<Rightarrow> string list \<Rightarrow> string + (string \<times> sql_arg) list" where
  "filter_conds filters [] = Inr []"
| "filter_conds filters (k # ks) =
     (case map_of label_columns k of
        None \<Rightarrow> Inl (''sql: unknown filter label '' @ quoted k)
      | Some col \<Rightarrow>
          (case filter_conds filters ks of
             Inl e \<Rightarrow> Inl e
           | Inr cs \<Rightarrow> Inr ((col @ '' = ?'', ArgText (map_get [] filters k)) # cs)))"

definition where_clause :: "event_query \<Rightarrow> string + string \<times> sql_arg list" where
  "where_clause qy =
     (case filter_conds (EFilters qy) (sorted_keys (EFilters qy)) of
        Inl e \<Rightarrow> Inl e
      | Inr cs \<Rightarrow>
          Inr ('' WHERE '' @ join_str '' AND '' ([''at >= ?'', ''at < ?''] @ map fst cs),
               [ArgInt (unix_nano (From (ERange qy))), ArgInt (unix_nano (To (ERange qy)))] @ map snd cs))"

definition tiebreak_cols :: "string list \<Rightarrow> string list" where
  "tiebreak_cols group_by =
     concat (map (\<lambda>n. case map_of label_columns n of Some c \<Rightarrow> [c] | None \<Rightarrow> []) (sort group_by))"

definition order_clause :: "string \<Rightarrow> string list \<Rightarrow> string" where
  "order_clause o' tiebreak =
     (let clause = (\<lambda>primary. '' ORDER BY '' @ join_str '', '' (primary # map (\<lambda>c. c @ '' ASC'') tiebreak))
      in if o' = order_sum_desc then clause ''SUM(amount_minor) DESC''
         else if o' = order_count_desc then clause ''COUNT(*) DESC''
         else [])"

definition currency_invariant :: "event_query \<Rightarrow> string option" where
  "currency_invariant qy =
     (if map_has (EFilters qy) ''currency'' then None
      else if list_ex (\<lambda>g. g = ''currency'') (EGroupBy qy) then None
      else Some (''sql: event sum would cross currencies '' @ dash @ '' pin currency in Filters or add it to GroupBy''))"

section \<open>The queries\<close>

definition distinct_text :: "string \<Rightarrow> string list \<Rightarrow> string \<Rightarrow> string" where
  "distinct_text table group_cols where_sql =
     (let inner = (if group_cols \<noteq> [] then ''SELECT DISTINCT '' @ join_str '', '' group_cols else ''SELECT DISTINCT 1'')
      in ''SELECT COUNT(*) FROM ('' @ inner @ '' FROM '' @ table @ where_sql @ '')'')"

definition sql_distinct_count :: "sql_querier \<Rightarrow> string list \<Rightarrow> string \<Rightarrow> sql_arg list \<Rightarrow> string + event_group list" where
  "sql_distinct_count q group_cols where_sql args =
     (case db_query_row (SqlDb q) (distinct_text (SqlTable q) group_cols where_sql) args of
        Inl e \<Rightarrow> Inl (''sql: distinct count: '' @ e)
      | Inr n \<Rightarrow> Inr [\<lparr>GKey = [], GCount = n, GSum = 0, GMax = 0\<rparr>])"

text \<open>The text of a grouped statement, or the error of a limit without an order.\<close>

definition group_text :: "string \<Rightarrow> event_query \<Rightarrow> string list \<Rightarrow> string \<Rightarrow> string + string" where
  "group_text table qy group_cols where_sql =
     (let sel = ''COUNT(*), COALESCE(SUM(amount_minor), 0)''
            @ (if EAgg qy = agg_max_per_group then '', COALESCE(MAX(amount_minor), 0)'' else []);
          sel = (if group_cols \<noteq> [] then join_str '', '' group_cols @ '', '' @ sel else sel);
          text = ''SELECT '' @ sel @ '' FROM '' @ table @ where_sql
            @ (if group_cols \<noteq> [] then '' GROUP BY '' @ join_str '', '' group_cols else []);
          ord = order_clause (EOrderBy qy) (tiebreak_cols (EGroupBy qy));
          limit = (if ELimit qy > 0 then '' LIMIT '' @ format_int (ELimit qy) else [])
      in if ord \<noteq> [] then Inr (text @ ord @ limit)
         else if ELimit qy > 0 then Inl ''sql: Limit requires an OrderBy (OrderNone + Limit>0 is undefined)''
         else Inr (text @ limit))"

text \<open>The loop over the rows. A row is counted, summed and perhaps maximised; the empty row of an aggregate
  without groups is dropped.\<close>

fun read_rows :: "event_query \<Rightarrow> string list \<Rightarrow> sql_row list \<Rightarrow> string + event_group list" where
  "read_rows qy group_cols [] = Inr []"
| "read_rows qy group_cols (ScanError e # rows) = Inl (''sql: scan: '' @ e)"
| "read_rows qy group_cols (Row keys ints # rows) =
     (let count = ints ! 0; sum = ints ! 1;
          max_amt = (if EAgg qy = agg_max_per_group then ints ! 2 else 0);
          key = fold (\<lambda>(col, v) key. map_put col (case v of Some s \<Rightarrow> s | None \<Rightarrow> []) key) (zip (EGroupBy qy) keys) []
      in case read_rows qy group_cols rows of
           Inl e \<Rightarrow> Inl e
         | Inr gs \<Rightarrow>
             Inr (if group_cols = [] \<and> count = 0 then gs
                  else \<lparr>GKey = key, GCount = count, GSum = sum, GMax = max_amt\<rparr> # gs))"

definition sql_groups :: "sql_querier \<Rightarrow> event_query \<Rightarrow> string list \<Rightarrow> string \<Rightarrow> sql_arg list \<Rightarrow> string + event_group list" where
  "sql_groups q qy group_cols where_sql args =
     (case group_text (SqlTable q) qy group_cols where_sql of
        Inl e \<Rightarrow> Inl e
      | Inr text \<Rightarrow>
          (case db_query (SqlDb q) text args of
             Inl e \<Rightarrow> Inl (''sql: group query: '' @ e)
           | Inr (rows, rows_err) \<Rightarrow>
               (case read_rows qy group_cols rows of
                  Inl e \<Rightarrow> Inl e
                | Inr gs \<Rightarrow> (case rows_err of Some e \<Rightarrow> Inl (''sql: rows: '' @ e) | None \<Rightarrow> Inr gs))))"

definition sql_events :: "sql_querier \<Rightarrow> event_query \<Rightarrow> query_error + event_group list" where
  "sql_events q qy =
     map_sum BackendError id
       (case sql_columns (EGroupBy qy) of
          Inl e \<Rightarrow> Inl e
        | Inr group_cols \<Rightarrow>
            (case where_clause qy of
               Inl e \<Rightarrow> Inl e
             | Inr (where_sql, args) \<Rightarrow>
                 if EAgg qy = agg_distinct_count then sql_distinct_count q group_cols where_sql args
                 else
                   (case currency_invariant qy of
                      Some e \<Rightarrow> Inl e
                    | None \<Rightarrow> sql_groups q qy group_cols where_sql args)))"

definition sql_querier_of :: "sql_querier \<Rightarrow> querier" where
  "sql_querier_of q = \<lparr>query_metric = (\<lambda>_. Inl ErrUnsupported), query_events = sql_events q, capabilities = sql_caps q\<rparr>"

end
