(* ===== verification/Sql_Lang.thy ===== *)
theory Sql_Lang
  imports Sqlq
begin

text \<open>
  The fragment of SQL a grouped question needs: its syntax, its text, and its meaning over the rows of the
  documented schema. Nothing here is taken from the code that builds statements: a statement is a tree, its
  text is written from the grammar, and what a database may answer is read off the tree clause by clause.
\<close>

section \<open>The table\<close>

text \<open>The schema that \<open>adapters/query/sql/sql.go\<close> documents: the column of each label.\<close>

definition schema :: "(string, string) gomap" where
  "schema =
     [(''flow'', ''flow''), (''stage'', ''stage''), (''outcome'', ''outcome''), (''currency'', ''currency''),
      (''segment'', ''segment''), (''kind'', ''kind''), (''customer'', ''customer_id''), (''entity'', ''entity_id'')]"

definition column_of :: "string \<Rightarrow> string" where
  "column_of l = map_get [] schema l"

definition column_value :: "outcome \<Rightarrow> string \<Rightarrow> string" where
  "column_value o' c =
     (case find (\<lambda>(l, c'). c' = c) schema of Some (l, _) \<Rightarrow> map_get [] (event_labels o') l | None \<Rightarrow> [])"

datatype sql_value = VNull | VInt int | VText string

definition cell :: "outcome \<Rightarrow> string \<Rightarrow> sql_value" where
  "cell o' c =
     (if c = ''at'' then VInt (At o') else if c = ''amount_minor'' then VInt (sint (amount_of o'))
      else VText (column_value o' c))"

section \<open>Syntax\<close>

datatype sql_expr = Col string | CountAll | SumOf string | MaxOf string | OrZero sql_expr

datatype sql_cmp = IsEq | IsGe | IsLt

datatype sql_dir = Asc | Desc

record sql_select =
  SelItems :: "sql_expr list"
  SelTable :: string
  SelWhere :: "(string \<times> sql_cmp \<times> sql_arg) list"
  SelGroup :: "string list"
  SelOrder :: "(sql_expr \<times> sql_dir) list"
  SelLimit :: "int option"

section \<open>Text\<close>

primrec expr_text :: "sql_expr \<Rightarrow> string" where
  "expr_text (Col c) = c"
| "expr_text CountAll = ''COUNT(*)''"
| "expr_text (SumOf c) = ''SUM('' @ c @ '')''"
| "expr_text (MaxOf c) = ''MAX('' @ c @ '')''"
| "expr_text (OrZero e) = ''COALESCE('' @ expr_text e @ '', 0)''"

primrec cmp_text :: "sql_cmp \<Rightarrow> string" where
  "cmp_text IsEq = '' = ''" | "cmp_text IsGe = '' >= ''" | "cmp_text IsLt = '' < ''"

primrec dir_text :: "sql_dir \<Rightarrow> string" where
  "dir_text Asc = '' ASC''" | "dir_text Desc = '' DESC''"

definition clause :: "string \<Rightarrow> string \<Rightarrow> string list \<Rightarrow> string" where
  "clause word sep parts = (if parts = [] then [] else word @ join_str sep parts)"

definition sql_text :: "sql_select \<Rightarrow> string" where
  "sql_text st =
     ''SELECT '' @ join_str '', '' (map expr_text (SelItems st)) @ '' FROM '' @ SelTable st
     @ clause '' WHERE '' '' AND '' (map (\<lambda>(c, cmp, _). c @ cmp_text cmp @ ''?'') (SelWhere st))
     @ clause '' GROUP BY '' '', '' (SelGroup st)
     @ clause '' ORDER BY '' '', '' (map (\<lambda>(e, d). expr_text e @ dir_text d) (SelOrder st))
     @ (case SelLimit st of None \<Rightarrow> [] | Some n \<Rightarrow> '' LIMIT '' @ format_int n)"

text \<open>The placeholders are bound in the order they stand.\<close>

definition sql_args :: "sql_select \<Rightarrow> sql_arg list" where
  "sql_args st = map (\<lambda>(_, _, a). a) (SelWhere st)"

section \<open>Meaning\<close>

fun value_less :: "sql_value \<Rightarrow> sql_value \<Rightarrow> bool" where
  "value_less (VInt a) (VInt b) \<longleftrightarrow> a < b"
| "value_less (VText a) (VText b) \<longleftrightarrow> a < b"
| "value_less _ _ \<longleftrightarrow> False"

fun arg_value :: "sql_arg \<Rightarrow> sql_value" where
  "arg_value (ArgInt n) = VInt (sint n)"
| "arg_value (ArgText s) = VText s"

fun cond_holds :: "outcome \<Rightarrow> string \<times> sql_cmp \<times> sql_arg \<Rightarrow> bool" where
  "cond_holds o' (c, IsEq, a) \<longleftrightarrow> cell o' c = arg_value a"
| "cond_holds o' (c, IsGe, a) \<longleftrightarrow> cell o' c = arg_value a \<or> value_less (arg_value a) (cell o' c)"
| "cond_holds o' (c, IsLt, a) \<longleftrightarrow> value_less (cell o' c) (arg_value a)"

definition select_rows :: "outcome list \<Rightarrow> sql_select \<Rightarrow> outcome list" where
  "select_rows store st = [o' \<leftarrow> store. list_all (cond_holds o') (SelWhere st)]"

text \<open>A group is the rows that agree on the GROUP BY columns; without GROUP BY all rows are one group, even
  none.\<close>

definition select_groups :: "outcome list \<Rightarrow> sql_select \<Rightarrow> outcome list list" where
  "select_groups store st =
     (let rows = select_rows store st; key = (\<lambda>o'. map (cell o') (SelGroup st)) in
      if SelGroup st = [] then [rows] else map (\<lambda>k. [o' \<leftarrow> rows. key o' = k]) (remdups (map key rows)))"

fun int_value :: "sql_value \<Rightarrow> int" where
  "int_value (VInt i) = i" | "int_value _ = 0"

text \<open>An aggregate of no rows is NULL, except a count; sums are exact.\<close>

primrec eval_expr :: "outcome list \<Rightarrow> sql_expr \<Rightarrow> sql_value" where
  "eval_expr os (Col c) = (case os of [] \<Rightarrow> VNull | o' # _ \<Rightarrow> cell o' c)"
| "eval_expr os CountAll = VInt (int (length os))"
| "eval_expr os (SumOf c) = (if os = [] then VNull else VInt (\<Sum>o' \<leftarrow> os. int_value (cell o' c)))"
| "eval_expr os (MaxOf c) = (if os = [] then VNull else VInt (Max ((\<lambda>o'. int_value (cell o' c)) ` set os)))"
| "eval_expr os (OrZero e) = (case eval_expr os e of VNull \<Rightarrow> VInt 0 | v \<Rightarrow> v)"

text \<open>Two groups in the order of the ORDER BY terms, the first that differs deciding.\<close>

fun in_order :: "(sql_expr \<times> sql_dir) list \<Rightarrow> outcome list \<Rightarrow> outcome list \<Rightarrow> bool" where
  "in_order [] g h \<longleftrightarrow> True"
| "in_order ((e, d) # ts) g h \<longleftrightarrow>
     (let a = eval_expr g e; b = eval_expr h e in
      if a = b then in_order ts g h else case d of Asc \<Rightarrow> value_less a b | Desc \<Rightarrow> value_less b a)"

text \<open>\<open>Scan\<close> into \<open>NullString\<close>s, then into \<open>int64\<close>s.\<close>

fun scan_text :: "sql_value \<Rightarrow> string option" where
  "scan_text VNull = None" | "scan_text (VText s) = Some s" | "scan_text (VInt i) = Some (format_int i)"

fun scan_int :: "sql_value \<Rightarrow> i64 option" where
  "scan_int (VInt i) = (if in_i64 i then Some (word_of_int i) else None)" | "scan_int _ = None"

definition scan_row :: "nat \<Rightarrow> sql_value list \<Rightarrow> sql_row" where
  "scan_row k vs =
     (case those (map scan_int (drop k vs)) of
        Some ns \<Rightarrow> Row (map scan_text (take k vs)) ns
      | None \<Rightarrow> ScanError ''value out of range'')"

text \<open>What a database may answer: the groups, in any order that ORDER BY allows, cut by LIMIT.\<close>

definition sql_answers :: "outcome list \<Rightarrow> sql_select \<Rightarrow> nat \<Rightarrow> sql_row list \<Rightarrow> bool" where
  "sql_answers store st k rows \<longleftrightarrow>
     (\<exists>gs. mset gs = mset (select_groups store st) \<and> sorted_wrt (in_order (SelOrder st)) gs
        \<and> rows = map (\<lambda>g. scan_row k (map (eval_expr g) (SelItems st)))
            (case SelLimit st of None \<Rightarrow> gs | Some n \<Rightarrow> take (nat n) gs))"

text \<open>A database that holds the events answers the statement: its text, with its arguments bound.\<close>

definition executes :: "database \<Rightarrow> outcome list \<Rightarrow> sql_select \<Rightarrow> nat \<Rightarrow> bool" where
  "executes db store st k \<longleftrightarrow>
     (\<exists>rows. db_query db (sql_text st) (sql_args st) = Inr (rows, None) \<and> sql_answers store st k rows)"

lemma schema_columns: "label_columns = schema"
  by (simp add: label_columns_def schema_def)

lemma schema_cell: "l \<in> fst ` set schema \<Longrightarrow> cell o' (column_of l) = VText (column_value o' (column_of l))"
  by (auto simp: schema_def column_of_def map_get_def cell_def)

lemma clause_Nil [simp]: "clause w s [] = []"
  by (simp add: clause_def)

lemma clause_Cons: "parts \<noteq> [] \<Longrightarrow> clause w s parts = w @ join_str s parts"
  by (simp add: clause_def)

text \<open>Under ascending text columns, groups are in order when their lists of texts are.\<close>

lemma in_order_texts:
  assumes "\<And>c. c \<in> set cs \<Longrightarrow> \<exists>s t. eval_expr g (Col c) = VText (a c) \<and> eval_expr h (Col c) = VText (b c)"
  shows "in_order (map (\<lambda>c. (Col c, Asc)) cs) g h \<longleftrightarrow> map a cs \<le> map b cs"
  using assms
proof (induction cs)
  case (Cons c cs)
  have "eval_expr g (Col c) = VText (a c)" "eval_expr h (Col c) = VText (b c)" using Cons.prems by auto
  then show ?case using Cons by (auto simp: Let_def simp del: eval_expr.simps)
qed simp

end
