(* ===== verification/Sqlq_Exact.thy ===== *)
theory Sqlq_Exact
  imports Sql_Lang
begin

text \<open>
  What the SQL backend answers, when its database means what SQL means: the groups of the store, the same
  the in-memory backend answers, and under an order the same list, cut by a limit at the same place. And
  what the statements never hold: a value of a filter.
\<close>

section \<open>The clauses of a question\<close>

text \<open>A question's columns, window, equalities, order and limit, over the schema's columns.\<close>

record select_stmt =
  StCols :: "string list"
  StMax :: bool
  StFrom :: i64
  StTo :: i64
  StConds :: "(string \<times> string) list"
  StOrder :: string
  StTies :: "string list"
  StLimit :: int

definition selected_rows :: "outcome list \<Rightarrow> select_stmt \<Rightarrow> outcome list" where
  "selected_rows store st =
     [o' \<leftarrow> store. sint (StFrom st) \<le> At o' \<and> At o' < sint (StTo st)
        \<and> list_all (\<lambda>(c, v). column_value o' c = v) (StConds st)]"

definition row_key_of :: "string list \<Rightarrow> outcome \<Rightarrow> string list" where
  "row_key_of cols o' = map (column_value o') cols"

text \<open>One group per key that occurs; without GROUP BY one group, even of no rows.\<close>

definition stmt_groups :: "outcome list \<Rightarrow> select_stmt \<Rightarrow> (string list \<times> outcome list) list" where
  "stmt_groups store st =
     map (\<lambda>k. (k, [o' \<leftarrow> selected_rows store st. row_key_of (StCols st) o' = k]))
       (if StCols st = [] then [[]] else remdups (map (row_key_of (StCols st)) (selected_rows store st)))"

definition group_sum :: "outcome list \<Rightarrow> int" where
  "group_sum os = (\<Sum>o'\<leftarrow>os. sint (amount_of o'))"

definition group_max :: "outcome list \<Rightarrow> int" where
  "group_max os = (if os = [] then 0 else Max (sint ` amount_of ` set os))"

text \<open>SUM is exact; a sum that does not fit the \<open>int64\<close> it is scanned into is an error.\<close>

definition stmt_row :: "select_stmt \<Rightarrow> string list \<times> outcome list \<Rightarrow> sql_row" where
  "stmt_row st = (\<lambda>(k, os).
     if in_i64 (group_sum os)
     then Row (map Some k) ([of_nat (length os), word_of_int (group_sum os)] @ (if StMax st then [word_of_int (group_max os)] else []))
     else ScanError ''value out of range'')"

definition stmt_rank :: "select_stmt \<Rightarrow> string list \<times> outcome list \<Rightarrow> int \<times> string list" where
  "stmt_rank st = (\<lambda>(k, os).
     (if StOrder st = order_sum_desc then - group_sum os else - int (length os), map (\<lambda>c. map_get [] (zip (StCols st) k) c) (StTies st)))"

text \<open>The rows a database may answer: all groups, in any order that ORDER BY allows, cut by LIMIT.\<close>

definition stmt_answers :: "outcome list \<Rightarrow> select_stmt \<Rightarrow> sql_row list \<Rightarrow> bool" where
  "stmt_answers store st rows \<longleftrightarrow>
     (\<exists>gs. mset gs = mset (stmt_groups store st)
        \<and> (StOrder st \<in> {order_sum_desc, order_count_desc} \<longrightarrow> sorted (map (stmt_rank st) gs))
        \<and> rows = map (stmt_row st) (if StLimit st > 0 then take (nat (StLimit st)) gs else gs))"

definition known_labels :: "string list \<Rightarrow> bool" where
  "known_labels ls \<longleftrightarrow> set ls \<subseteq> fst ` set schema"

definition stmt_of :: "event_query \<Rightarrow> select_stmt" where
  "stmt_of qy =
     \<lparr>StCols = map column_of (EGroupBy qy), StMax = (EAgg qy = agg_max_per_group),
      StFrom = unix_nano (From (ERange qy)), StTo = unix_nano (To (ERange qy)),
      StConds = map (\<lambda>k. (column_of k, map_get [] (EFilters qy) k)) (sorted_keys (EFilters qy)),
      StOrder = EOrderBy qy, StTies = map column_of (sort (EGroupBy qy)), StLimit = ELimit qy\<rparr>"

lemma stmt_of_simps [simp]:
  "StCols (stmt_of qy) = map column_of (EGroupBy qy)" "StMax (stmt_of qy) = (EAgg qy = agg_max_per_group)"
  "StOrder (stmt_of qy) = EOrderBy qy" "StTies (stmt_of qy) = map column_of (sort (EGroupBy qy))" "StLimit (stmt_of qy) = ELimit qy"
  "StFrom (stmt_of qy) = unix_nano (From (ERange qy))" "StTo (stmt_of qy) = unix_nano (To (ERange qy))"
  by (simp_all add: stmt_of_def)

definition stmt_args :: "select_stmt \<Rightarrow> sql_arg list" where
  "stmt_args st = [ArgInt (StFrom st), ArgInt (StTo st)] @ map (\<lambda>(c, v). ArgText v) (StConds st)"

definition stmt_where :: "select_stmt \<Rightarrow> string" where
  "stmt_where st = '' WHERE '' @ join_str '' AND '' ([''at >= ?'', ''at < ?''] @ map (\<lambda>(c, v). c @ '' = ?'') (StConds st))"

section \<open>The statement of a question\<close>

text \<open>The SQL a grouped question asks for, as a tree: the group columns and the aggregates, the half-open
  window and the equalities, the same columns again in GROUP BY, and under an order the aggregate descending with
  the columns in label order breaking ties.\<close>

definition tie_terms :: "event_query \<Rightarrow> (sql_expr \<times> sql_dir) list" where
  "tie_terms qy = map (\<lambda>c. (Col c, Asc)) (map column_of (sort (EGroupBy qy)))"

definition group_select :: "string \<Rightarrow> event_query \<Rightarrow> sql_select" where
  "group_select table qy =
     \<lparr>SelItems = map Col (map column_of (EGroupBy qy)) @ [CountAll, OrZero (SumOf ''amount_minor'')]
        @ (if EAgg qy = agg_max_per_group then [OrZero (MaxOf ''amount_minor'')] else []),
      SelTable = table,
      SelWhere = [(''at'', IsGe, ArgInt (word_of_int (From (ERange qy)))), (''at'', IsLt, ArgInt (word_of_int (To (ERange qy))))]
        @ map (\<lambda>k. (column_of k, IsEq, ArgText (map_get [] (EFilters qy) k))) (sorted_keys (EFilters qy)),
      SelGroup = map column_of (EGroupBy qy),
      SelOrder =
        (if EOrderBy qy = order_sum_desc then (SumOf ''amount_minor'', Desc) # tie_terms qy
         else if EOrderBy qy = order_count_desc then (CountAll, Desc) # tie_terms qy else []),
      SelLimit = (if ELimit qy > 0 then Some (ELimit qy) else None)\<rparr>"

section \<open>Columns\<close>

lemma label_column:
  assumes "l \<in> fst ` set schema"
  shows "map_of label_columns l = Some (column_of l)" "column_value o' (column_of l) = map_get [] (event_labels o') l"
  using assms by (auto simp: schema_columns schema_def column_of_def map_get_def column_value_def)

lemma column_of_inj: "inj_on column_of (fst ` set schema)"
  by (auto simp: schema_def column_of_def map_get_def inj_on_def)

lemma sql_columns_known: "known_labels ls \<Longrightarrow> sql_columns ls = Inr (map column_of ls)"
  by (induction ls) (auto simp: known_labels_def label_column(1))

lemma tiebreak_cols_known: "known_labels ls \<Longrightarrow> tiebreak_cols ls = map column_of (sort ls)"
proof -
  assume "known_labels ls"
  then have "map_of label_columns n = Some (column_of n)" if "n \<in> set (sort ls)" for n
    using that label_column(1) [of n] by (auto simp: known_labels_def)
  then have "map (\<lambda>n. case map_of label_columns n of Some c \<Rightarrow> [c] | None \<Rightarrow> []) (sort ls) = map (\<lambda>n. [column_of n]) (sort ls)"
    by (intro map_cong) auto
  then show ?thesis unfolding tiebreak_cols_def by (simp only: concat_map_singleton)
qed

lemma filter_conds_known:
  "set ks \<subseteq> fst ` set schema \<Longrightarrow>
     filter_conds filters ks = Inr (map (\<lambda>k. (column_of k @ '' = ?'', ArgText (map_get [] filters k))) ks)"
  by (induction ks) (auto simp: label_column(1))

lemma where_clause_known:
  assumes "known_labels (map fst (EFilters qy))"
  shows "where_clause qy = Inr (stmt_where (stmt_of qy), stmt_args (stmt_of qy))"
proof -
  have "set (sorted_keys (EFilters qy)) \<subseteq> fst ` set schema"
    using assms by (auto simp: known_labels_def sorted_keys_def)
  then show ?thesis
    by (simp add: where_clause_def filter_conds_known stmt_where_def stmt_args_def stmt_of_def comp_def)
qed

lemma currency_invariant_None: "currency_known qy \<Longrightarrow> currency_invariant qy = None"
  by (auto simp: currency_known_def currency_invariant_def list_ex_iff)

section \<open>From rows to groups\<close>

definition group_of_row :: "event_query \<Rightarrow> string list \<times> outcome list \<Rightarrow> event_group" where
  "group_of_row qy = (\<lambda>(k, os).
     \<lparr>GKey = fold (\<lambda>(l, v) key. map_put l v key) (zip (EGroupBy qy) k) [], GCount = of_nat (length os),
      GSum = sum_i64 (map amount_of os), GMax = (if EAgg qy = agg_max_per_group then word_of_int (group_max os) else 0)\<rparr>)"

lemma fold_zip_map_Some:
  "fold (\<lambda>(col, v) key. map_put col (case v of Some s \<Rightarrow> s | None \<Rightarrow> []) key) (zip ls (map Some k)) key0
     = fold (\<lambda>(l, v) key. map_put l v key) (zip ls k) key0"
proof (induction ls arbitrary: k key0)
  case (Cons l ls)
  then show ?case by (cases k) auto
qed simp

lemma sum_i64_group_sum: "sum_i64 (map amount_of os) = word_of_int (group_sum os)"
  by (simp add: sum_i64_word_of_int group_sum_def comp_def)

lemma read_rows_groups:
  assumes "\<And>k os. (k, os) \<in> set gs \<Longrightarrow> in_i64 (group_sum os) \<and> length os < 2 ^ 64"
  shows "read_rows qy (map column_of (EGroupBy qy)) (map (stmt_row (stmt_of qy)) gs)
    = Inr (map (group_of_row qy) [(k, os) \<leftarrow> gs. EGroupBy qy \<noteq> [] \<or> os \<noteq> []])"
  using assms
proof (induction gs)
  case (Cons g gs)
  obtain k os where g: "g = (k, os)" by (cases g)
  then have b: "in_i64 (group_sum os)" "length os < 2 ^ 64" using Cons.prems by auto
  have "(of_nat (length os) :: i64) = 0 \<longleftrightarrow> os = []"
    using b(2) by (simp add: word_unat_eq_iff unat_of_nat)
  moreover have "stmt_row (stmt_of qy) g = Row (map Some k) ([of_nat (length os), word_of_int (group_sum os)]
      @ (if EAgg qy = agg_max_per_group then [word_of_int (group_max os)] else []))"
    using b(1) g by (simp add: stmt_row_def)
  moreover have "read_rows qy (map column_of (EGroupBy qy)) (map (stmt_row (stmt_of qy)) gs)
      = Inr (map (group_of_row qy) [(k, os) \<leftarrow> gs. EGroupBy qy \<noteq> [] \<or> os \<noteq> []])"
    by (rule Cons.IH) (use Cons.prems in auto)
  ultimately show ?case
    by (simp add: g group_of_row_def fold_zip_map_Some sum_i64_group_sum Let_def)
qed simp

lemma in_range_unix:
  "in_i64 (From r) \<Longrightarrow> in_i64 (To r) \<Longrightarrow> (sint (unix_nano (From r)) \<le> t \<and> t < sint (unix_nano (To r))) = in_range t r"
  by (auto simp: unix_nano_def sint_of_int_i64 in_range_def)

lemma filters_by_keys:
  assumes "map_ok filters" "known_labels (map fst filters)"
  shows "list_all (\<lambda>(c, v). column_value o' c = v) (map (\<lambda>k. (column_of k, map_get [] filters k)) (sorted_keys filters))
    = match_filters (event_labels o') filters"
proof -
  have "list_all (\<lambda>(c, v). column_value o' c = v) (map (\<lambda>k. (column_of k, map_get [] filters k)) (sorted_keys filters))
      \<longleftrightarrow> (\<forall>k \<in> fst ` set filters. column_value o' (column_of k) = map_get [] filters k)"
    by (simp add: list_all_iff sorted_keys_def)
  also have "\<dots> \<longleftrightarrow> (\<forall>k \<in> fst ` set filters. map_get [] (event_labels o') k = map_get [] filters k)"
  proof (rule ball_cong [OF refl])
    fix k assume "k \<in> fst ` set filters"
    then have "k \<in> fst ` set schema" using assms(2) by (auto simp: known_labels_def)
    then show "(column_value o' (column_of k) = map_get [] filters k) = (map_get [] (event_labels o') k = map_get [] filters k)"
      by (simp add: label_column(2))
  qed
  also have "\<dots> \<longleftrightarrow> (\<forall>(k, v) \<in> set filters. map_get [] (event_labels o') k = v)"
    using map_get_in [OF assms(1)] by fastforce
  finally show ?thesis by (simp add: match_filters_def list_all_iff)
qed

lemma selected_matched:
  assumes "in_i64 (From (ERange qy))" "in_i64 (To (ERange qy))" "map_ok (EFilters qy)" "known_labels (map fst (EFilters qy))"
  shows "selected_rows store (stmt_of qy) = matched store qy"
  unfolding selected_rows_def matched_def
proof (rule filter_cong [OF refl])
  fix o'
  have "StConds (stmt_of qy) = map (\<lambda>k. (column_of k, map_get [] (EFilters qy) k)) (sorted_keys (EFilters qy))"
    by (simp add: stmt_of_def)
  then show "(sint (StFrom (stmt_of qy)) \<le> At o' \<and> At o' < sint (StTo (stmt_of qy))
      \<and> list_all (\<lambda>(c, v). column_value o' c = v) (StConds (stmt_of qy)))
    = (in_range (At o') (ERange qy) \<and> match_filters (event_labels o') (EFilters qy))"
    using filters_by_keys [OF assms(3,4)] in_range_unix [OF assms(1,2), of "At o'"] by auto
qed

lemma row_key_labels: "known_labels ls \<Longrightarrow> row_key_of (map column_of ls) o' = map (map_get [] (event_labels o')) ls"
  using label_column(2) by (auto simp: row_key_of_def known_labels_def)

lemma key_of_row: "fold (\<lambda>(l, v) key. map_put l v key) (zip ls (map f ls)) key0 = fold (\<lambda>l key. map_put l (f l) key) ls key0"
  by (induction ls arbitrary: key0) auto

lemma answers_mset: "mset gs = mset gs' \<Longrightarrow> answers evs qy gs \<longleftrightarrow> answers evs qy gs'"
proof -
  assume m: "mset gs = mset gs'"
  then have "mset (map GKey gs) = mset (map GKey gs')" by simp
  then have "distinct (map GKey gs) = distinct (map GKey gs')" by (rule mset_eq_imp_distinct_iff)
  then show ?thesis using mset_eq_setD [OF m] by (simp add: answers_def)
qed

lemma kept_groups:
  assumes "known_labels (EGroupBy qy)" and M: "selected_rows store (stmt_of qy) = M"
  shows "[(k, os) \<leftarrow> stmt_groups store (stmt_of qy). EGroupBy qy \<noteq> [] \<or> os \<noteq> []]
    = map (\<lambda>k. (k, [o' \<leftarrow> M. row_key_of (map column_of (EGroupBy qy)) o' = k])) (remdups (map (row_key_of (map column_of (EGroupBy qy))) M))"
proof (cases "EGroupBy qy = []")
  case True
  then have "row_key_of (map column_of (EGroupBy qy)) = (\<lambda>_. [])" by (simp add: row_key_of_def fun_eq_iff)
  moreover have "remdups (map (\<lambda>_. [] :: string list) M) = (if M = [] then [] else [[]])" by (induction M) (auto simp: image_constant_conv)
  ultimately show ?thesis using True M by (simp add: stmt_groups_def)
next
  case False
  then show ?thesis using M by (simp add: stmt_groups_def filter_id_conv)
qed

lemma groups_answer:
  assumes d: "distinct (EGroupBy qy)" and known: "known_labels (EGroupBy qy)"
    and M: "selected_rows store (stmt_of qy) = matched store qy"
  shows "answers store qy (map (group_of_row qy) [(k, os) \<leftarrow> stmt_groups store (stmt_of qy). EGroupBy qy \<noteq> [] \<or> os \<noteq> []])"
proof -
  let ?M = "matched store qy" and ?rk = "row_key_of (map column_of (EGroupBy qy))"
  let ?F = "\<lambda>k. [o' \<leftarrow> ?M. ?rk o' = k]"
  let ?g = "\<lambda>k. group_of_row qy (k, ?F k)"
  have rk: "?rk o' = map (map_get [] (event_labels o')) (EGroupBy qy)" for o'
    using row_key_labels [OF known] by simp
  have gkey: "GKey (group_of_row qy (?rk o', os)) = event_key qy o'" for o' os
    by (simp add: group_of_row_def rk key_of_row group_key_def)
  have same: "?rk o' = ?rk p \<longleftrightarrow> event_key qy o' = event_key qy p" for o' p
    using group_key_eq_iff [OF d] by (simp add: rk)
  have "distinct (map GKey (map ?g (remdups (map ?rk ?M))))"
    using gkey same by (auto simp: distinct_map inj_on_def)
  moreover have "GKey ` set (map ?g (remdups (map ?rk ?M))) = event_key qy ` set ?M"
    using gkey by (auto simp: image_iff)
  moreover have "GCount g = of_nat (length (group_of store qy (GKey g)))
      \<and> GSum g = sum_i64 (map amount_of (group_of store qy (GKey g)))
      \<and> sint (GMax g) = (if EAgg qy = agg_max_per_group then Max (sint ` amount_of ` set (group_of store qy (GKey g))) else 0)"
    if "g \<in> set (map ?g (remdups (map ?rk ?M)))" for g
  proof -
    from that obtain o' where o': "o' \<in> set ?M" "g = ?g (?rk o')" by auto
    have F: "group_of store qy (GKey g) = ?F (?rk o')" by (simp add: o'(2) gkey group_of_def same)
    have "?F (?rk o') \<noteq> []" using o'(1) by (auto simp: filter_empty_conv)
    then have "sint (word_of_int (group_max (?F (?rk o'))) :: i64) = Max (sint ` amount_of ` set (?F (?rk o')))"
    proof -
      assume ne: "?F (?rk o') \<noteq> []"
      have "Max (sint ` amount_of ` set (?F (?rk o'))) \<in> sint ` amount_of ` set (?F (?rk o'))"
        using o'(1) by (intro Max_in) auto
      then obtain x where "x \<in> amount_of ` set (?F (?rk o'))" "Max (sint ` amount_of ` set (?F (?rk o'))) = sint x" by blast
      then show ?thesis using ne by (simp add: group_max_def)
    qed
    then show ?thesis unfolding F by (simp add: o'(2) group_of_row_def)
  qed
  ultimately have "answers store qy (map ?g (remdups (map ?rk ?M)))" by (auto simp: answers_def)
  then show ?thesis using kept_groups [OF known M] by (simp add: comp_def)
qed

section \<open>The order of keys\<close>

text \<open>The in-memory backend breaks ties by its NUL-joined key, the statement by its columns in label order:
  on NUL-free values these are the same order.\<close>

lemma append_le: "xs @ ys \<le> xs @ zs \<longleftrightarrow> ys \<le> (zs :: string)"
  by (induction xs) auto

lemma nul_less: "y \<noteq> CHR 0x00 \<Longrightarrow> CHR 0x00 < y"
proof (rule ccontr)
  assume "y \<noteq> CHR 0x00" "\<not> CHR 0x00 < y"
  then have "byte y = 0" by (simp add: less_char_def)
  then have "y = char_of (0 :: nat)" by (rule char_of_byte_inj)
  moreover have "char_of (0 :: nat) = CHR 0x00" by code_simp
  ultimately show False using \<open>y \<noteq> CHR 0x00\<close> by simp
qed

lemma nul_le: "nul_free_label a \<Longrightarrow> nul_free_label b \<Longrightarrow> a @ nul @ r \<le> b @ nul @ r' \<longleftrightarrow> a < b \<or> (a = b \<and> r \<le> r')"
proof (induction a arbitrary: b)
  case Nil
  show ?case
  proof (cases b)
    case Nil
    then show ?thesis by (simp add: nul_def)
  next
    case (Cons y ys)
    then have "CHR 0x00 < y" using Nil.prems by (intro nul_less) (auto simp: nul_free_label_def)
    then show ?thesis using Cons by (simp add: nul_def)
  qed
next
  case (Cons x xs)
  show ?case
  proof (cases b)
    case Nil
    have "CHR 0x00 < x" using Cons.prems by (intro nul_less) (auto simp: nul_free_label_def)
    then show ?thesis using Nil by (auto simp: nul_def)
  next
    case (Cons y ys)
    then show ?thesis using Cons.IH [of ys] Cons.prems by (auto simp: nul_free_label_def)
  qed
qed

lemma joined_le:
  assumes "\<And>k. nul_free_label (f k)" "\<And>k. nul_free_label (g k)"
  shows "concat (map (\<lambda>k. k @ ''='' @ f k @ nul) ks) \<le> concat (map (\<lambda>k. k @ ''='' @ g k @ nul) ks) \<longleftrightarrow> map f ks \<le> map g ks"
proof (induction ks)
  case (Cons k ks)
  have "concat (map (\<lambda>k. k @ ''='' @ f k @ nul) (k # ks)) \<le> concat (map (\<lambda>k. k @ ''='' @ g k @ nul) (k # ks))
      \<longleftrightarrow> (k @ ''='') @ f k @ nul @ concat (map (\<lambda>k. k @ ''='' @ f k @ nul) ks) \<le> (k @ ''='') @ g k @ nul @ concat (map (\<lambda>k. k @ ''='' @ g k @ nul) ks)"
    by simp
  also have "\<dots> \<longleftrightarrow> f k < g k \<or> (f k = g k \<and> map f ks \<le> map g ks)"
    unfolding append_le using nul_le [OF assms] Cons.IH by simp
  finally show ?case by simp
qed simp
section \<open>Sorted answers\<close>

definition memq_rank :: "string \<Rightarrow> event_group \<Rightarrow> int \<times> string" where
  "memq_rank o' g = (if o' = order_sum_desc then - sint (GSum g) else - sint (GCount g), canonical (GKey g))"

definition cut_limit :: "int \<Rightarrow> 'a list \<Rightarrow> 'a list" where
  "cut_limit n xs = (if n > 0 then take (nat n) xs else xs)"

lemma memq_rank_order:
  "memq_rank order_sum_desc = (\<lambda>g. (- sint (GSum g), canonical (GKey g)))"
  "memq_rank order_count_desc = (\<lambda>g. (- sint (GCount g), canonical (GKey g)))"
  by (simp_all add: fun_eq_iff memq_rank_def order_defs)

lemma filter_the_one: "distinct zs \<Longrightarrow> filter (\<lambda>x. x = k) zs = (if k \<in> set zs then [k] else [])"
  by (induction zs) auto

text \<open>The in-memory backend sorts and cuts the groups of the store.\<close>

lemma memq_ordered:
  assumes "list_all clean_event (mq_events m)" "distinct (EGroupBy qy)" "currency_known qy"
    "EAgg qy \<in> {agg_groups, agg_max_per_group}" "CEvents (mq_caps m)" "EOrderBy qy \<in> {order_sum_desc, order_count_desc}"
  obtains gs where "answers (mq_events m) qy gs" "memq_events m qy = Inr (cut_limit (ELimit qy) (sort_key (memq_rank (EOrderBy qy)) gs))"
proof -
  let ?q0 = "qy\<lparr>EOrderBy := order_none, ELimit := 0\<rparr>"
  let ?row = "\<lambda>g. \<lparr>GKey = agg_key g, GCount = agg_n g, GSum = agg_total g,
      GMax = (if EAgg qy = agg_max_per_group then agg_max g else 0)\<rparr>"
  let ?out = "map (\<lambda>(_, g). ?row g) (fold (add_event qy) (matched (mq_events m) qy) [])"
  have same: "add_event ?q0 = add_event qy" "matched (mq_events m) ?q0 = matched (mq_events m) qy"
    by (simp_all add: add_event_def matched_def fun_eq_iff)
  have cur: "currency_known ?q0" using assms(3) by (simp add: currency_known_def)
  have "memq_events m ?q0 = Inr (sort_key (\<lambda>g. canonical (GKey g)) ?out)"
    using assms(4,5) cur by (auto simp: memq_events_def same order_groups_def agg_defs Let_def)
  moreover obtain gs where "memq_events m ?q0 = Inr gs" "answers (mq_events m) ?q0 gs"
    using memq_event_groups [of m ?q0] assms cur by (auto simp: order_defs)
  ultimately have "answers (mq_events m) ?q0 (sort_key (\<lambda>g. canonical (GKey g)) ?out)" by simp
  then have "answers (mq_events m) ?q0 ?out" by (subst (asm) answers_mset [of _ ?out]) simp_all
  moreover have "group_of (mq_events m) ?q0 = group_of (mq_events m) qy" by (simp add: group_of_def same fun_eq_iff)
  ultimately have "answers (mq_events m) qy ?out" by (simp add: answers_def same)
  moreover have "memq_events m qy = Inr (cut_limit (ELimit qy) (sort_key (memq_rank (EOrderBy qy)) ?out))"
  proof -
    have "order_groups ?out (EOrderBy qy) = Inr (sort_key (memq_rank (EOrderBy qy)) ?out)"
      using assms(6) by (auto simp: order_groups_def memq_rank_order) (simp_all add: order_defs)
    moreover have "EAgg qy \<noteq> agg_distinct_count" "EOrderBy qy \<noteq> order_none" using assms(4,6) by (auto simp: agg_defs order_defs)
    ultimately show ?thesis using assms(3,5)
      by (simp add: memq_events_def Let_def cut_limit_def del: set_sort)
  qed
  ultimately show ?thesis by (rule that)
qed

lemma answers_keys:
  assumes "answers evs qy gs" "g \<in> set gs"
  obtains o' where "o' \<in> set (matched evs qy)" "GKey g = event_key qy o'"
proof -
  have "GKey g \<in> event_key qy ` set (matched evs qy)" using assms by (auto simp: answers_def)
  then show thesis using that by blast
qed

lemma answers_distinct: "answers evs qy gs \<Longrightarrow> distinct gs"
proof -
  assume "answers evs qy gs"
  then have "distinct (map GKey gs)" unfolding answers_def by blast
  then show "distinct gs" by (simp only: distinct_map)
qed

lemma answers_key_inj: "answers evs qy gs \<Longrightarrow> g \<in> set gs \<Longrightarrow> h \<in> set gs \<Longrightarrow> GKey g = GKey h \<Longrightarrow> g = h"
  by (auto simp: answers_def distinct_map dest: inj_onD)

lemma answers_unique:
  assumes "answers evs qy gs" "answers evs qy gs'"
  shows "mset gs = mset gs'"
proof -
  have val: "GCount g = of_nat (length (group_of evs qy (GKey g)))"
    "GSum g = sum_i64 (map amount_of (group_of evs qy (GKey g)))"
    "sint (GMax g) = (if EAgg qy = agg_max_per_group then Max (sint ` amount_of ` set (group_of evs qy (GKey g))) else 0)"
    if "g \<in> set gs \<or> g \<in> set gs'" for g
    using that assms by (auto simp: answers_def)
  have eq: "g = g'" if "g \<in> set gs \<or> g \<in> set gs'" "g' \<in> set gs \<or> g' \<in> set gs'" "GKey g = GKey g'" for g g'
  proof -
    have "GCount g = GCount g'" "GSum g = GSum g'" "sint (GMax g) = sint (GMax g')"
      using val [OF that(1)] val [OF that(2)] that(3) by (simp_all only:)
    then show ?thesis using that(3) by (simp add: sint_eq_iff_i64)
  qed
  have keys: "GKey ` set gs = GKey ` set gs'" using assms by (simp add: answers_def)
  have "set gs = set gs'"
  proof
    show "set gs \<subseteq> set gs'"
    proof
      fix x assume x: "x \<in> set gs"
      then obtain y where "y \<in> set gs'" "GKey x = GKey y" using keys by blast
      then show "x \<in> set gs'" using eq [of x y] x by simp
    qed
    show "set gs' \<subseteq> set gs"
    proof
      fix x assume x: "x \<in> set gs'"
      then obtain y where "y \<in> set gs" "GKey x = GKey y" using keys by blast
      then show "x \<in> set gs" using eq [of x y] x by simp
    qed
  qed
  moreover have "distinct gs" "distinct gs'" using assms by (auto simp: answers_def distinct_map)
  ultimately show ?thesis by (simp add: set_eq_iff_mset_eq_distinct)
qed

text \<open>A sorted list with distinct ranks is the sort of any permutation of it.\<close>

lemma sorted_is_sort_key:
  assumes "mset xs = mset ys" "sorted (map f xs)" "inj_on f (set xs)" "distinct xs"
  shows "sort_key f ys = xs"
proof (rule properties_for_sort_key)
  show "mset xs = mset ys" by (rule assms(1))
  show "sorted (map f xs)" by (rule assms(2))
  fix k assume k: "k \<in> set xs"
  have "filter (\<lambda>x. f k = f x) zs = [k]" if "mset zs = mset xs" for zs
  proof -
    have d: "distinct zs" "set zs = set xs" using that assms(4) mset_eq_imp_distinct_iff mset_eq_setD by blast+
    have "filter (\<lambda>x. f k = f x) zs = filter (\<lambda>x. x = k) zs"
      using assms(3) k d(2) by (intro filter_cong refl) (auto dest: inj_onD)
    also have "\<dots> = [k]" using d k by (simp add: filter_the_one)
    finally show ?thesis .
  qed
  then show "filter (\<lambda>x. f k = f x) xs = filter (\<lambda>x. f k = f x) ys" using assms(1) by simp
qed

text \<open>A store whose amounts, and hence those of any group of it, add up within an \<open>int64\<close>.\<close>

definition fits_store :: "outcome list \<Rightarrow> bool" where
  "fits_store store \<longleftrightarrow> (\<Sum>o'\<leftarrow>store. \<bar>sint (amount_of o')\<bar>) \<le> max_i64 \<and> int (length store) \<le> max_i64"

lemma abs_sum_filter: "\<bar>\<Sum>x\<leftarrow>filter P xs. f x\<bar> \<le> (\<Sum>x\<leftarrow>xs. \<bar>f x :: int\<bar>)"
  by (induction xs) auto

lemma fits_group:
  assumes "fits_store store"
  shows "in_i64 (group_sum (filter P store))" "int (length (filter P store)) \<le> max_i64"
proof -
  have "\<bar>group_sum (filter P store)\<bar> \<le> max_i64"
    using abs_sum_filter [where P = P and xs = store and f = "\<lambda>o'. sint (amount_of o')"] assms
    by (simp add: group_sum_def fits_store_def)
  then show "in_i64 (group_sum (filter P store))" unfolding in_i64_def by linarith
  show "int (length (filter P store)) \<le> max_i64"
    using assms length_filter_le [of P store] unfolding fits_store_def by linarith
qed

lemma sint_of_nat_i64: "int n \<le> max_i64 \<Longrightarrow> sint (of_nat n :: i64) = int n"
  using sint_of_int_i64 [of "int n"] by (simp add: in_i64_def)

text \<open>What holds of every group of the statement of a question.\<close>

definition group_fine :: "event_query \<Rightarrow> string list \<times> outcome list \<Rightarrow> bool" where
  "group_fine qy = (\<lambda>(k, os). in_i64 (group_sum os) \<and> int (length os) \<le> max_i64
     \<and> (\<exists>o'. clean_event o' \<and> k = map (map_get [] (event_labels o')) (EGroupBy qy)))"

lemma stmt_groups_fine:
  assumes "fits_store store" "list_all clean_event store" "known_labels (EGroupBy qy)" "g \<in> set (stmt_groups store (stmt_of qy))"
    and "EGroupBy qy \<noteq> [] \<or> snd g \<noteq> []"
  shows "group_fine qy g"
proof -
  let ?S = "selected_rows store (stmt_of qy)"
  obtain k os where g: "g = (k, os)" "os = [o' \<leftarrow> ?S. row_key_of (map column_of (EGroupBy qy)) o' = k]"
    using assms(4) by (auto simp: stmt_groups_def)
  have "\<exists>o' \<in> set store. k = row_key_of (map column_of (EGroupBy qy)) o'"
  proof (cases "EGroupBy qy = []")
    case True
    then obtain o' where "o' \<in> set os" using assms(5) g(1) by (cases os) auto
    then show ?thesis using g(2) by (auto simp: selected_rows_def)
  next
    case False
    then show ?thesis using assms(4) g(1) by (auto simp: stmt_groups_def selected_rows_def)
  qed
  moreover have "os = [o' \<leftarrow> store. (sint (StFrom (stmt_of qy)) \<le> At o' \<and> At o' < sint (StTo (stmt_of qy))
      \<and> list_all (\<lambda>(c, v). column_value o' c = v) (StConds (stmt_of qy))) \<and> row_key_of (map column_of (EGroupBy qy)) o' = k]"
    unfolding g(2) selected_rows_def by (simp only: filter_filter)
  ultimately show ?thesis
    using fits_group [OF assms(1)] row_key_labels [OF assms(3)] assms(2) g(1)
    by (auto simp: group_fine_def list_all_iff)
qed

lemma canonical_values:
  assumes "distinct ls"
  shows "canonical (group_key (event_labels o') ls)
    = concat (map (\<lambda>k. k @ ''='' @ map_get [] (group_key (event_labels o') ls) k @ nul) (sort ls))"
  using assms by (simp add: canonical_def group_key_distinct comp_def)

lemma tie_values:
  assumes "distinct ls" "known_labels ls"
  shows "map (\<lambda>c. map_get [] (zip (map column_of ls) (map f ls)) c) (map column_of (sort ls)) = map f (sort ls)"
proof -
  have z: "zip (map column_of ls) (map f ls) = map (\<lambda>l. (column_of l, f l)) ls" by (induction ls) auto
  have "inj_on column_of (set ls)" using column_of_inj assms(2) unfolding known_labels_def by (rule inj_on_subset)
  then have ok: "map_ok (map (\<lambda>l. (column_of l, f l)) ls)" using assms(1) by (simp add: map_ok_def comp_def distinct_map)
  have "map_get [] (map (\<lambda>l. (column_of l, f l)) ls) (column_of l) = f l" if "l \<in> set ls" for l
    using that by (intro map_get_in [OF ok]) auto
  then show ?thesis unfolding z by simp
qed

lemma rank_agrees:
  assumes d: "distinct (EGroupBy qy)" and known: "known_labels (EGroupBy qy)" and fine: "group_fine qy g" "group_fine qy h"
  shows "memq_rank (EOrderBy qy) (group_of_row qy g) \<le> memq_rank (EOrderBy qy) (group_of_row qy h)
    \<longleftrightarrow> stmt_rank (stmt_of qy) g \<le> stmt_rank (stmt_of qy) h"
proof -
  let ?ls = "EGroupBy qy"
  obtain a os b ps where g: "g = (map (map_get [] (event_labels a)) ?ls, os)" "clean_event a" "in_i64 (group_sum os)" "int (length os) \<le> max_i64"
    and h: "h = (map (map_get [] (event_labels b)) ?ls, ps)" "clean_event b" "in_i64 (group_sum ps)" "int (length ps) \<le> max_i64"
    using fine by (auto simp: group_fine_def split: prod.splits)
  have key: "GKey (group_of_row qy (map (map_get [] (event_labels x)) ?ls, xs)) = group_key (event_labels x) ?ls" for x xs
    by (simp add: group_of_row_def key_of_row group_key_def)
  have nf: "nul_free_label (map_get [] (group_key (event_labels x) ?ls) k)" if "clean_event x" for x k
    using clean_event_get [OF that, of k] d by (simp add: group_key_get nul_free_label_def)
  have vals: "map (map_get [] (group_key (event_labels x) ?ls)) (sort ?ls) = map (map_get [] (event_labels x)) (sort ?ls)" for x
    using d by (simp add: group_key_get)
  have "canonical (group_key (event_labels a) ?ls) \<le> canonical (group_key (event_labels b) ?ls)
      \<longleftrightarrow> map (map_get [] (event_labels a)) (sort ?ls) \<le> map (map_get [] (event_labels b)) (sort ?ls)"
    unfolding canonical_values [OF d] using joined_le [OF nf [OF g(2)] nf [OF h(2)]] by (simp only: vals)
  moreover have "sint (GSum (group_of_row qy (k, xs))) = group_sum xs" if "in_i64 (group_sum xs)" for k xs
    using that by (simp add: group_of_row_def sum_i64_group_sum sint_of_int_i64)
  moreover have "sint (GCount (group_of_row qy (k, xs))) = int (length xs)" if "int (length xs) \<le> max_i64" for k xs
    using that by (simp add: group_of_row_def sint_of_nat_i64)
  ultimately show ?thesis
    using g h by (simp add: memq_rank_def stmt_rank_def key less_eq_prod_simp tie_values [OF d known] del: map_map)
qed

section \<open>The two backends agree\<close>

text \<open>A question that the SQL table can be asked: known labels, once each, a window of instants that Unix
  nanoseconds can express, and money read per currency.\<close>

definition sql_question :: "event_query \<Rightarrow> bool" where
  "sql_question qy \<longleftrightarrow> known_labels (EGroupBy qy) \<and> distinct (EGroupBy qy)
     \<and> map_ok (EFilters qy) \<and> known_labels (map fst (EFilters qy))
     \<and> in_i64 (From (ERange qy)) \<and> in_i64 (To (ERange qy)) \<and> currency_known qy
     \<and> EAgg qy \<in> {agg_groups, agg_max_per_group}"

lemma sql_events_run:
  assumes "sql_question qy" and built: "group_text (SqlTable q) qy (StCols (stmt_of qy)) (stmt_where (stmt_of qy)) = Inr sql"
    and rows: "db_query (SqlDb q) sql (stmt_args (stmt_of qy)) = Inr (map (stmt_row (stmt_of qy)) gs, None)"
    and fine: "\<And>k os. (k, os) \<in> set gs \<Longrightarrow> in_i64 (group_sum os) \<and> length os < 2 ^ 64"
  shows "sql_events q qy = Inr (map (group_of_row qy) [(k, os) \<leftarrow> gs. EGroupBy qy \<noteq> [] \<or> os \<noteq> []])"
proof -
  have "EAgg qy \<noteq> agg_distinct_count" using assms(1) by (auto simp: sql_question_def agg_defs)
  then show ?thesis
    using assms(1) built rows read_rows_groups [OF fine]
    by (simp add: sql_events_def sql_question_def sql_columns_known where_clause_known currency_invariant_None sql_groups_def)
qed

section \<open>The text of the code is the text of the statement\<close>

lemma select_columns_text: "map expr_text (map Col cs) = cs"
  by (induction cs) simp_all

lemma join_append: "xs \<noteq> [] \<Longrightarrow> ys \<noteq> [] \<Longrightarrow> join_str sep (xs @ ys) = join_str sep xs @ sep @ join_str sep ys"
proof (induction xs)
  case (Cons x xs)
  then show ?case by (cases xs; cases ys) auto
qed simp

lemma select_items_text:
  "join_str '', '' (map expr_text (map Col cs @ [CountAll, OrZero (SumOf ''amount_minor'')] @ (if m then [OrZero (MaxOf ''amount_minor'')] else [])))
     = (if cs \<noteq> [] then join_str '', '' cs @ '', '' else [])
         @ ''COUNT(*), COALESCE(SUM(amount_minor), 0)'' @ (if m then '', COALESCE(MAX(amount_minor), 0)'' else [])"
proof (cases "cs = []")
  case True
  then show ?thesis by (cases m) simp_all
next
  case False
  show ?thesis unfolding map_append select_columns_text using False by (subst join_append) (cases m; simp)+
qed

lemma conditions_text:
  "map (\<lambda>(c, cmp, _). c @ cmp_text cmp @ ''?'') (SelWhere (group_select table qy))
     = [''at >= ?'', ''at < ?''] @ map (\<lambda>(c, v). c @ '' = ?'') (StConds (stmt_of qy))"
  by (simp add: group_select_def stmt_of_def comp_def)

lemma tie_terms_text: "map (\<lambda>(e, d). expr_text e @ dir_text d) (tie_terms qy) = map (\<lambda>c. c @ '' ASC'') (map column_of (sort (EGroupBy qy)))"
  by (simp add: tie_terms_def comp_def)

lemma order_text:
  assumes "known_labels (EGroupBy qy)"
  shows "order_clause (EOrderBy qy) (tiebreak_cols (EGroupBy qy))
    = clause '' ORDER BY '' '', '' (map (\<lambda>(e, d). expr_text e @ dir_text d) (SelOrder (group_select table qy)))"
proof -
  have "order_sum_desc \<noteq> order_count_desc" by (simp add: order_sum_desc_def order_count_desc_def)
  then show ?thesis
    by (simp add: order_clause_def Let_def group_select_def clause_def tiebreak_cols_known [OF assms] tie_terms_text)
qed

lemma statement_text:
  assumes known: "known_labels (EGroupBy qy)"
    and ord: "EOrderBy qy \<in> {order_sum_desc, order_count_desc} \<or> ELimit qy \<le> 0"
  shows "group_text table qy (map column_of (EGroupBy qy)) (stmt_where (stmt_of qy)) = Inr (sql_text (group_select table qy))"
proof -
  let ?st = "group_select table qy"
  have w: "stmt_where (stmt_of qy) = clause '' WHERE '' '' AND '' (map (\<lambda>(c, cmp, _). c @ cmp_text cmp @ ''?'') (SelWhere ?st))"
    unfolding conditions_text stmt_where_def by (simp only: clause_def append_is_Nil_conv list.distinct simp_thms if_False)
  have g: "(if map column_of (EGroupBy qy) \<noteq> [] then '' GROUP BY '' @ join_str '', '' (map column_of (EGroupBy qy)) else [])
      = clause '' GROUP BY '' '', '' (SelGroup ?st)"
    by (simp add: clause_def group_select_def)
  have l: "(if ELimit qy > 0 then '' LIMIT '' @ format_int (ELimit qy) else [])
      = (case SelLimit ?st of None \<Rightarrow> [] | Some n \<Rightarrow> '' LIMIT '' @ format_int n)"
    by (simp add: group_select_def)
  have i: "(if map column_of (EGroupBy qy) \<noteq> [] then join_str '', '' (map column_of (EGroupBy qy)) @ '', ''
        @ ''COUNT(*), COALESCE(SUM(amount_minor), 0)'' @ (if EAgg qy = agg_max_per_group then '', COALESCE(MAX(amount_minor), 0)'' else [])
      else ''COUNT(*), COALESCE(SUM(amount_minor), 0)'' @ (if EAgg qy = agg_max_per_group then '', COALESCE(MAX(amount_minor), 0)'' else []))
      = join_str '', '' (map expr_text (SelItems ?st))"
    unfolding group_select_def sql_select.simps select_items_text
    by (cases "map column_of (EGroupBy qy) = []")
      (simp_all only: simp_thms if_True if_False append_Nil append_assoc)
  have t: "SelTable ?st = table" by (simp add: group_select_def)
  show ?thesis
  proof (cases "EOrderBy qy \<in> {order_sum_desc, order_count_desc}")
    case True
    then have "order_clause (EOrderBy qy) (tiebreak_cols (EGroupBy qy)) \<noteq> []" by (auto simp: order_clause_def Let_def)
    note o' = if_P [OF this]
    show ?thesis
      unfolding group_text_def Let_def o' unfolding i g l w sql_text_def t order_text [OF known, of table]
      by (simp only: append_assoc)
  next
    case False
    then have e: "order_clause (EOrderBy qy) (tiebreak_cols (EGroupBy qy)) = []" and n: "\<not> ELimit qy > 0"
      using ord by (auto simp: order_clause_def Let_def)
    then have "clause '' ORDER BY '' '', '' (map (\<lambda>(e, d). expr_text e @ dir_text d) (SelOrder ?st)) = []"
      using order_text [OF known, of table] by (simp only:)
    note o' = this
    show ?thesis
      unfolding group_text_def Let_def i g l w sql_text_def t o'
      by (simp only: e n if_False if_True simp_thms append_assoc append_Nil)
  qed
qed

lemma statement_args: "sql_args (group_select table qy) = stmt_args (stmt_of qy)"
  by (simp add: sql_args_def stmt_args_def group_select_def stmt_of_def unix_nano_def comp_def)

section \<open>The meaning of the statement is the groups of the question\<close>

lemma statement_rows:
  assumes "known_labels (map fst (EFilters qy))"
  shows "select_rows store (group_select table qy) = selected_rows store (stmt_of qy)"
proof -
  have at: "cond_holds o' (''at'', IsGe, ArgInt n) \<longleftrightarrow> sint n \<le> At o'" "cond_holds o' (''at'', IsLt, ArgInt n) \<longleftrightarrow> At o' < sint n"
    for o' n by (auto simp: cell_def)
  have eq: "list_all (cond_holds o') (map (\<lambda>k. (column_of k, IsEq, ArgText (map_get [] (EFilters qy) k))) ks)
      = list_all (\<lambda>(c, v). column_value o' c = v) (map (\<lambda>k. (column_of k, map_get [] (EFilters qy) k)) ks)"
    if "set ks \<subseteq> fst ` set schema" for o' ks
    using that by (induction ks) (auto simp: schema_cell)
  have "set (sorted_keys (EFilters qy)) \<subseteq> fst ` set schema"
    using assms by (auto simp: known_labels_def sorted_keys_def)
  note eq [OF this]
  then show ?thesis unfolding select_rows_def selected_rows_def
    by (intro filter_cong refl)
      (simp add: group_select_def stmt_of_def unix_nano_def at del: cond_holds.simps)
qed

definition key_of_rows :: "string list \<Rightarrow> outcome list \<Rightarrow> string list" where
  "key_of_rows cols os = (case os of [] \<Rightarrow> [] | o' # _ \<Rightarrow> row_key_of cols o')"

lemma cells_of_key:
  assumes "known_labels ls"
  shows "map (cell o') (map column_of ls) = map VText (row_key_of (map column_of ls) o')"
  using assms by (auto simp: known_labels_def row_key_of_def intro!: schema_cell)

lemma remdups_map_inj: "inj f \<Longrightarrow> remdups (map f xs) = map f (remdups xs)"
  by (induction xs) (auto simp: inj_def)

lemma statement_groups:
  assumes known: "known_labels (EGroupBy qy)" "known_labels (map fst (EFilters qy))"
  shows "stmt_groups store (stmt_of qy)
    = map (\<lambda>os. (key_of_rows (map column_of (EGroupBy qy)) os, os)) (select_groups store (group_select table qy))"
proof -
  let ?cols = "map column_of (EGroupBy qy)" and ?rows = "selected_rows store (stmt_of qy)"
  have G: "SelGroup (group_select table qy) = ?cols" by (simp add: group_select_def)
  show ?thesis
  proof (cases "EGroupBy qy = []")
    case True
    then have "row_key_of [] = (\<lambda>_. [])" by (simp add: row_key_of_def fun_eq_iff)
    then show ?thesis using True
      by (simp add: stmt_groups_def select_groups_def Let_def statement_rows [OF known(2)] G key_of_rows_def split: list.split)
  next
    case False
    let ?F = "\<lambda>k. [o' \<leftarrow> ?rows. row_key_of ?cols o' = k]"
    have inj: "inj (map VText)" by (simp add: inj_def)
    have cells: "(\<lambda>o'. map (cell o') ?cols) = (\<lambda>o'. map VText (row_key_of ?cols o'))"
      by (rule ext) (rule cells_of_key [OF known(1)])
    have keys: "remdups (map (\<lambda>o'. map VText (row_key_of ?cols o')) ?rows) = map (map VText) (remdups (map (row_key_of ?cols) ?rows))"
      using remdups_map_inj [OF inj, of "map (row_key_of ?cols) ?rows"] by (simp add: comp_def)
    have "select_groups store (group_select table qy)
        = map (\<lambda>k. [o' \<leftarrow> ?rows. map VText (row_key_of ?cols o') = k]) (map (map VText) (remdups (map (row_key_of ?cols) ?rows)))"
      unfolding select_groups_def Let_def statement_rows [OF known(2)] G cells keys using False by simp
    also have "\<dots> = map ?F (remdups (map (row_key_of ?cols) ?rows))"
      unfolding map_map comp_def by (intro map_cong refl filter_cong) (auto simp: inj_eq [OF inj])
    finally have sg: "select_groups store (group_select table qy) = map ?F (remdups (map (row_key_of ?cols) ?rows))" .
    have "key_of_rows ?cols (?F k) = k" if "k \<in> set (remdups (map (row_key_of ?cols) ?rows))" for k
    proof -
      have "?F k \<noteq> []" using that by (auto simp: filter_empty_conv)
      then obtain x xs where x: "?F k = x # xs" by (cases "?F k") auto
      have "x \<in> set (?F k)" unfolding x by simp
      then have "row_key_of ?cols x = k" by simp
      then show ?thesis unfolding x by (simp add: key_of_rows_def)
    qed
    then show ?thesis using False unfolding sg stmt_groups_def by simp
  qed
qed

lemma those_ints: "\<forall>n \<in> set ns. in_i64 n \<Longrightarrow> those (map (\<lambda>n. scan_int (VInt n)) ns) = Some (map word_of_int ns)"
  by (induction ns) auto

lemma sum_cells: "(\<Sum>o' \<leftarrow> os. int_value (cell o' ''amount_minor'')) = group_sum os"
  by (simp add: group_sum_def cell_def)

lemma max_cells: "os \<noteq> [] \<Longrightarrow> Max ((\<lambda>o'. int_value (cell o' ''amount_minor'')) ` set os) = group_max os"
  by (simp add: group_max_def cell_def image_image)

lemma group_max_in_i64: "in_i64 (group_max os)"
proof (cases "os = []")
  case True
  then show ?thesis by (simp add: group_max_def in_i64_def)
next
  case False
  then have "Max (sint ` amount_of ` set os) \<in> sint ` amount_of ` set os" by (intro Max_in) auto
  then obtain w :: i64 where "Max (sint ` amount_of ` set os) = sint w" by blast
  then show ?thesis using False by (simp add: group_max_def)
qed

text \<open>A group's row, scanned: its texts and its numbers.\<close>

lemma statement_row:
  assumes known: "known_labels (EGroupBy qy)" and len: "length os < 2 ^ 63" and grp: "EGroupBy qy = [] \<or> os \<noteq> []"
  shows "scan_row (length (EGroupBy qy)) (map (eval_expr os) (SelItems (group_select table qy)))
    = stmt_row (stmt_of qy) (key_of_rows (map column_of (EGroupBy qy)) os, os)"
proof -
  let ?cols = "map column_of (EGroupBy qy)"
  let ?ns = "[int (length os), group_sum os] @ (if EAgg qy = agg_max_per_group then [group_max os] else [])"
  have texts: "map (eval_expr os) (map Col ?cols) = map VText (key_of_rows ?cols os)"
  proof (cases os)
    case Nil
    then show ?thesis using grp by (simp add: key_of_rows_def)
  next
    case (Cons o' os')
    then show ?thesis using cells_of_key [OF known, of o'] by (simp add: key_of_rows_def comp_def)
  qed
  have klen: "length (key_of_rows ?cols os) = length (EGroupBy qy)"
    using grp by (auto simp: key_of_rows_def row_key_of_def split: list.split)
  have ints: "map (eval_expr os) ([CountAll, OrZero (SumOf ''amount_minor'')]
        @ (if EAgg qy = agg_max_per_group then [OrZero (MaxOf ''amount_minor'')] else [])) = map VInt ?ns"
    by (cases "os = []") (simp_all add: sum_cells max_cells, simp add: group_sum_def group_max_def)
  have items: "map (eval_expr os) (SelItems (group_select table qy)) = map VText (key_of_rows ?cols os) @ map VInt ?ns"
    unfolding group_select_def sql_select.simps map_append [of _ "map Col ?cols"] texts ints ..
  have tk: "take (length (EGroupBy qy)) (map VText (key_of_rows ?cols os) @ map VInt ?ns) = map VText (key_of_rows ?cols os)"
    "drop (length (EGroupBy qy)) (map VText (key_of_rows ?cols os) @ map VInt ?ns) = map VInt ?ns"
    using klen by simp_all
  have scan: "map scan_text (map VText k) = map Some k" for k by simp
  show ?thesis
  proof (cases "in_i64 (group_sum os)")
    case True
    have "\<forall>n \<in> set ?ns. in_i64 n" using True group_max_in_i64 len by (simp add: in_i64_def)
    then have "those (map scan_int (map VInt ?ns)) = Some (map word_of_int ?ns)" using those_ints by (simp only: map_map comp_def)
    then show ?thesis unfolding scan_row_def items tk scan using True by (simp add: stmt_row_def)
  next
    case False
    then have "those (map scan_int (map VInt ?ns)) = None" by (simp split: option.split)
    then show ?thesis unfolding scan_row_def items tk using False by (simp add: stmt_row_def)
  qed
qed

text \<open>Under an order, ORDER BY arranges the groups by rank.\<close>

lemma statement_order:
  assumes known: "known_labels (EGroupBy qy)" and ord: "EOrderBy qy \<in> {order_sum_desc, order_count_desc}"
    and ne: "g \<noteq> []" "h \<noteq> []" and le: "in_order (SelOrder (group_select table qy)) g h"
  shows "stmt_rank (stmt_of qy) (key_of_rows (map column_of (EGroupBy qy)) g, g)
    \<le> stmt_rank (stmt_of qy) (key_of_rows (map column_of (EGroupBy qy)) h, h)"
proof -
  let ?cols = "map column_of (EGroupBy qy)"
  let ?v = "\<lambda>os c. map_get [] (zip ?cols (key_of_rows ?cols os)) c"
  have cell: "eval_expr os (Col c) = VText (?v os c)" if "os \<noteq> []" "c \<in> set ?cols" for os c
  proof -
    obtain o' os' where os: "os = o' # os'" using \<open>os \<noteq> []\<close> by (cases os) auto
    have "map_of (zip ?cols (map (column_value o') ?cols)) c = Some (column_value o' c)"
      using that(2) by (simp add: map_of_zip_map del: map_map)
    then have "?v os c = column_value o' c" by (simp add: os key_of_rows_def row_key_of_def map_get_def del: map_map)
    moreover have "cell o' c = VText (column_value o' c)"
      using that(2) known by (auto simp: known_labels_def intro!: schema_cell)
    ultimately show ?thesis by (simp add: os)
  qed
  have ties: "in_order (tie_terms qy) g h \<longleftrightarrow> map (?v g) (map column_of (sort (EGroupBy qy))) \<le> map (?v h) (map column_of (sort (EGroupBy qy)))"
    unfolding tie_terms_def
  proof (rule in_order_texts)
    fix c assume "c \<in> set (map column_of (sort (EGroupBy qy)))"
    then have c: "c \<in> set ?cols" by simp
    show "\<exists>s t. eval_expr g (Col c) = VText (?v g c) \<and> eval_expr h (Col c) = VText (?v h c)"
      by (intro exI conjI cell ne c)
  qed
  have neq: "order_sum_desc \<noteq> order_count_desc" by (simp add: order_sum_desc_def order_count_desc_def)
  show ?thesis
  proof (cases "EOrderBy qy = order_sum_desc")
    case True
    then have "in_order ((SumOf ''amount_minor'', Desc) # tie_terms qy) g h" using le by (simp add: group_select_def)
    then show ?thesis using ne True ties by (auto simp: stmt_rank_def sum_cells Let_def less_eq_prod_def split: if_splits)
  next
    case False
    then have "in_order ((CountAll, Desc) # tie_terms qy) g h" using le ord neq by (simp add: group_select_def)
    then show ?thesis using False ties by (auto simp: stmt_rank_def Let_def less_eq_prod_def split: if_splits)
  qed
qed

text \<open>What a database that means the statement answers is what the question's groups allow.\<close>

lemma statement_answers:
  assumes known: "known_labels (EGroupBy qy)" "known_labels (map fst (EFilters qy))"
    and len: "length store < 2 ^ 63"
    and ans: "sql_answers store (group_select table qy) (length (EGroupBy qy)) rows"
  shows "stmt_answers store (stmt_of qy) rows"
proof -
  let ?sel = "group_select table qy" and ?cols = "map column_of (EGroupBy qy)"
  let ?kv = "\<lambda>os. (key_of_rows ?cols os, os)"
  obtain gs where gs: "mset gs = mset (select_groups store ?sel)" "sorted_wrt (in_order (SelOrder ?sel)) gs"
    "rows = map (\<lambda>g. scan_row (length (EGroupBy qy)) (map (eval_expr g) (SelItems ?sel)))
       (case SelLimit ?sel of None \<Rightarrow> gs | Some n \<Rightarrow> take (nat n) gs)"
    using ans unfolding sql_answers_def by blast
  have G: "SelGroup ?sel = ?cols" "SelLimit ?sel = (if ELimit qy > 0 then Some (ELimit qy) else None)"
    by (simp_all add: group_select_def)
  have small: "length g < 2 ^ 63" "EGroupBy qy = [] \<or> g \<noteq> []" if "g \<in> set gs" for g
  proof -
    have m: "g \<in> set (select_groups store ?sel)" using that mset_eq_setD [OF gs(1)] by simp
    have "length (select_rows store ?sel) \<le> length store" by (simp add: select_rows_def)
    moreover have "length g \<le> length (select_rows store ?sel)"
      using m length_filter_le by (fastforce simp: select_groups_def Let_def split: if_splits)
    ultimately show "length g < 2 ^ 63" using len by simp
    show "EGroupBy qy = [] \<or> g \<noteq> []" using m G(1) by (auto simp: select_groups_def Let_def filter_empty_conv split: if_splits)
  qed
  show ?thesis unfolding stmt_answers_def
  proof (intro exI [of _ "map ?kv gs"] conjI impI)
    show "mset (map ?kv gs) = mset (stmt_groups store (stmt_of qy))"
      unfolding statement_groups [OF known, of store table] mset_map gs(1) ..
    show "sorted (map (stmt_rank (stmt_of qy)) (map ?kv gs))" if ord: "StOrder (stmt_of qy) \<in> {order_sum_desc, order_count_desc}"
    proof (cases "EGroupBy qy = []")
      case True
      then have "select_groups store ?sel = [select_rows store ?sel]" using G(1) by (simp add: select_groups_def Let_def)
      then have "size (mset gs) = 1" using gs(1) by simp
      then have "length gs = 1" by simp
      then show ?thesis by (auto simp: length_Suc_conv)
    next
      case False
      have "sorted_wrt (\<lambda>g h. stmt_rank (stmt_of qy) (?kv g) \<le> stmt_rank (stmt_of qy) (?kv h)) gs"
        by (rule sorted_wrt_mono_rel [OF _ gs(2)]) (use statement_order [OF known(1)] ord small(2) False in auto)
      then show ?thesis by (simp add: sorted_map sorted_wrt_map)
    qed
    have "scan_row (length (EGroupBy qy)) (map (eval_expr g) (SelItems ?sel)) = stmt_row (stmt_of qy) (?kv g)" if "g \<in> set gs" for g
      by (rule statement_row [OF known(1) small(1) [OF that] small(2) [OF that]])
    then show "rows = map (stmt_row (stmt_of qy)) (if StLimit (stmt_of qy) > 0 then take (nat (StLimit (stmt_of qy))) (map ?kv gs) else map ?kv gs)"
      unfolding gs(3) G(2) by (auto simp: take_map dest: in_set_takeD)
  qed
qed

section \<open>The two backends\<close>

lemma cut_filter:
  assumes "\<And>x. x \<in> set xs \<Longrightarrow> P x \<or> length xs \<le> 1"
  shows "filter P (cut_limit n xs) = cut_limit n (filter P xs)"
proof (cases "\<forall>x \<in> set xs. P x")
  case True
  then show ?thesis by (auto simp: cut_limit_def filter_id_conv dest: in_set_takeD)
next
  case False
  then have "length xs \<le> 1" using assms by blast
  then show ?thesis by (cases xs) (auto simp: cut_limit_def)
qed

lemma map_cut: "map f (cut_limit n xs) = cut_limit n (map f xs)"
  by (simp add: cut_limit_def take_map)

lemma mset_eq_length_le: "mset xs = mset ys \<Longrightarrow> length ys \<le> n \<Longrightarrow> length xs \<le> n"
  by (metis size_mset)

text \<open>The groups the statement's answer holds: the question's, in the rank's order when it has one.\<close>

lemma sql_events_groups:
  fixes q :: sql_querier and qy :: event_query
  assumes store: "list_all clean_event (mq_events m)" "fits_store (mq_events m)"
    and qy: "sql_question qy" and lim: "EOrderBy qy \<in> {order_sum_desc, order_count_desc} \<or> ELimit qy \<le> 0"
    and db: "executes (SqlDb q) (mq_events m) (group_select (SqlTable q) qy) (length (EGroupBy qy))"
  obtains gs where "sql_events q qy = Inr (cut_limit (ELimit qy) (map (group_of_row qy) gs))"
    and "answers (mq_events m) qy (map (group_of_row qy) gs)" and "\<forall>g \<in> set gs. group_fine qy g"
    and "EOrderBy qy \<in> {order_sum_desc, order_count_desc} \<Longrightarrow> sorted (map (stmt_rank (stmt_of qy)) gs)"
proof -
  let ?st = "stmt_of qy" and ?store = "mq_events m" and ?P = "\<lambda>(k, os). EGroupBy qy \<noteq> [] \<or> os \<noteq> []"
  let ?sql = "sql_text (group_select (SqlTable q) qy)"
  have known: "known_labels (EGroupBy qy)" and d: "distinct (EGroupBy qy)" and flt: "known_labels (map fst (EFilters qy))"
    using qy by (simp_all add: sql_question_def)
  have M: "selected_rows ?store ?st = matched ?store qy"
    using qy by (intro selected_matched) (simp_all add: sql_question_def)
  have built: "group_text (SqlTable q) qy (StCols ?st) (stmt_where ?st) = Inr ?sql"
    using statement_text [OF known] lim by simp
  obtain rows where rows: "db_query (SqlDb q) ?sql (stmt_args ?st) = Inr (rows, None)"
    "sql_answers ?store (group_select (SqlTable q) qy) (length (EGroupBy qy)) rows"
    using db by (auto simp: executes_def statement_args)
  have "length ?store < 2 ^ 63" using store(2) by (simp add: fits_store_def)
  from statement_answers [OF known flt this rows(2)]
  obtain gs where gs: "mset gs = mset (stmt_groups ?store ?st)"
    "EOrderBy qy \<in> {order_sum_desc, order_count_desc} \<longrightarrow> sorted (map (stmt_rank ?st) gs)"
    "db_query (SqlDb q) ?sql (stmt_args ?st) = Inr (map (stmt_row ?st) (cut_limit (ELimit qy) gs), None)"
    using rows(1) unfolding stmt_answers_def cut_limit_def stmt_of_simps by blast
  have fine: "group_fine qy g" if "g \<in> set gs" "?P g" for g
    using stmt_groups_fine [OF store(2,1) known, of g] that mset_eq_setD [OF gs(1)] by auto
  have bounds: "in_i64 (group_sum os) \<and> length os < 2 ^ 64" if "(k, os) \<in> set (cut_limit (ELimit qy) gs)" for k os
  proof (cases "?P (k, os)")
    case True
    have "(k, os) \<in> set gs" using that by (auto simp: cut_limit_def dest: in_set_takeD split: if_splits)
    then show ?thesis using fine [of "(k, os)"] True by (auto simp: group_fine_def)
  next
    case False
    then show ?thesis by (simp add: group_sum_def in_i64_def)
  qed
  have one: "?P g \<or> length gs \<le> 1" if "g \<in> set gs" for g
    using mset_eq_length_le [OF gs(1), of 1] by (cases "EGroupBy qy = []") (auto simp: stmt_groups_def)
  have "mset (map (group_of_row qy) (filter ?P gs)) = mset (map (group_of_row qy) (filter ?P (stmt_groups ?store ?st)))"
    using gs(1) by (simp add: mset_filter)
  then have "answers ?store qy (map (group_of_row qy) (filter ?P gs))" using groups_answer [OF d known M] answers_mset by blast
  moreover have "sorted (map (stmt_rank ?st) (filter ?P gs))" if "EOrderBy qy \<in> {order_sum_desc, order_count_desc}"
    using gs(2) that unfolding sorted_map by (blast intro: sorted_wrt_filter)
  ultimately show thesis
    using that [of "filter ?P gs"] sql_events_run [OF qy built gs(3) bounds] cut_filter [of gs ?P "ELimit qy"] one fine
    by (auto simp: map_cut)
qed

text \<open>On the groups of an answer the in-memory backend's rank decides: no two groups share one.\<close>

lemma answers_rank_inj:
  assumes clean: "list_all clean_event store" and d: "distinct (EGroupBy qy)" and ans: "answers store qy gs"
  shows "inj_on (memq_rank (EOrderBy qy)) (set gs)"
proof
  fix g h assume gh: "g \<in> set gs" "h \<in> set gs" "memq_rank (EOrderBy qy) g = memq_rank (EOrderBy qy) h"
  obtain a where a: "a \<in> set (matched store qy)" "GKey g = event_key qy a" by (rule answers_keys [OF ans gh(1)])
  obtain b where b: "b \<in> set (matched store qy)" "GKey h = event_key qy b" by (rule answers_keys [OF ans gh(2)])
  have "clean_event a" "clean_event b" using a(1) b(1) clean by (auto simp: matched_def list_all_iff)
  moreover have "canonical (GKey g) = canonical (GKey h)" using gh(3) by (simp add: memq_rank_def)
  ultimately have "GKey g = GKey h" using canonical_event_inj [OF d, of a b] by (simp add: a(2) b(2))
  then show "g = h" by (rule answers_key_inj [OF ans gh(1,2)])
qed

lemma sorted_memq_rank:
  assumes d: "distinct (EGroupBy qy)" "known_labels (EGroupBy qy)" and fine: "\<forall>g \<in> set gs. group_fine qy g"
    and ord: "EOrderBy qy \<in> {order_sum_desc, order_count_desc}" and "sorted (map (stmt_rank (stmt_of qy)) gs)"
  shows "sorted (map (memq_rank (EOrderBy qy)) (map (group_of_row qy) gs))"
proof -
  have "sorted_wrt (\<lambda>g h. stmt_rank (stmt_of qy) g \<le> stmt_rank (stmt_of qy) h) gs" using assms(5) by (simp add: sorted_map)
  then have "sorted_wrt (\<lambda>g h. memq_rank (EOrderBy qy) (group_of_row qy g) \<le> memq_rank (EOrderBy qy) (group_of_row qy h)) gs"
    by (rule sorted_wrt_mono_rel [rotated]) (use rank_agrees [OF d] fine ord in auto)
  then show ?thesis by (simp add: sorted_map sorted_wrt_map)
qed

text \<open>C22: The SQL backend and the in-memory backend are interchangeable. The statement of a question is a tree
  with SQL's meaning, written down apart from the code; over a database that holds the same events and answers that
  statement as SQL says, the code, whose text and bound arguments are those of the statement, gives the in-memory
  groups with the same counts, sums and maxima, and under an order the same list, ties included, so that a limit
  keeps the same groups.\<close>

theorem sql_matches_memory:
  assumes store: "list_all clean_event (mq_events m)" "fits_store (mq_events m)" and on: "CEvents (mq_caps m)"
    and qy: "sql_question qy"
    and ord: "EOrderBy qy \<in> {order_sum_desc, order_count_desc} \<or> (EOrderBy qy = order_none \<and> ELimit qy = 0)"
    and db: "executes (SqlDb q) (mq_events m) (group_select (SqlTable q) qy) (length (EGroupBy qy))"
  shows "\<exists>gs gs'. sql_events q qy = Inr gs \<and> memq_events m qy = Inr gs' \<and> mset gs = mset gs'
    \<and> (EOrderBy qy \<in> {order_sum_desc, order_count_desc} \<longrightarrow> gs = gs')"
proof -
  let ?store = "mq_events m"
  have known: "known_labels (EGroupBy qy)" and d: "distinct (EGroupBy qy)" and cur: "currency_known qy"
    and agg: "EAgg qy \<in> {agg_groups, agg_max_per_group}" using qy by (simp_all add: sql_question_def)
  have "EOrderBy qy \<in> {order_sum_desc, order_count_desc} \<or> ELimit qy \<le> 0" using ord by auto
  from sql_events_groups [OF store qy this db] obtain gs where
    run: "sql_events q qy = Inr (cut_limit (ELimit qy) (map (group_of_row qy) gs))"
    and ans: "answers ?store qy (map (group_of_row qy) gs)" and fine: "\<forall>g \<in> set gs. group_fine qy g"
    and srt: "EOrderBy qy \<in> {order_sum_desc, order_count_desc} \<Longrightarrow> sorted (map (stmt_rank (stmt_of qy)) gs)" by blast
  show ?thesis
  proof (cases "EOrderBy qy \<in> {order_sum_desc, order_count_desc}")
    case True
    obtain hs where hs: "answers ?store qy hs" "memq_events m qy = Inr (cut_limit (ELimit qy) (sort_key (memq_rank (EOrderBy qy)) hs))"
      using memq_ordered [OF store(1) d cur agg on True] by blast
    have "sort_key (memq_rank (EOrderBy qy)) hs = map (group_of_row qy) gs"
      using answers_unique [OF ans hs(1)] answers_rank_inj [OF store(1) d ans] answers_distinct [OF ans]
        sorted_memq_rank [OF d known fine True srt [OF True]] by (intro sorted_is_sort_key)
    then show ?thesis using run hs(2) by simp
  next
    case False
    then have "EOrderBy qy = order_none" "ELimit qy = 0" using ord by auto
    then obtain hs where "memq_events m qy = Inr hs" "answers ?store qy hs"
      using memq_event_groups [OF store(1) d cur agg _ _ on] by blast
    then show ?thesis using run answers_unique [OF ans] False \<open>ELimit qy = 0\<close> by (simp add: cut_limit_def)
  qed
qed

section \<open>No value in a statement\<close>

text \<open>A database that looks at the texts only.\<close>

definition blind :: "database \<Rightarrow> bool" where
  "blind db \<longleftrightarrow> (\<forall>t a a'. db_query db t a = db_query db t a' \<and> db_query_row db t a = db_query_row db t a')"

text \<open>Two questions that differ at most in the values of their filters and in their window.\<close>

definition same_shape :: "event_query \<Rightarrow> event_query \<Rightarrow> bool" where
  "same_shape qy qy' \<longleftrightarrow> map fst (EFilters qy) = map fst (EFilters qy') \<and> EGroupBy qy = EGroupBy qy'
     \<and> EAgg qy = EAgg qy' \<and> EOrderBy qy = EOrderBy qy' \<and> ELimit qy = ELimit qy'"

lemma filter_conds_shape:
  "map_sum id (map fst) (filter_conds filters ks) = map_sum id (map fst) (filter_conds filters' ks)"
proof (induction ks)
  case (Cons k ks)
  show ?case
  proof (cases "map_of label_columns k")
    case (Some c)
    then show ?thesis using Cons by (cases "filter_conds filters ks"; cases "filter_conds filters' ks") auto
  qed simp
qed simp

lemma where_clause_shape:
  assumes "same_shape qy qy'"
  shows "map_sum id fst (where_clause qy) = map_sum id fst (where_clause qy')"
proof -
  have "sorted_keys (EFilters qy) = sorted_keys (EFilters qy')" using assms by (simp add: sorted_keys_def same_shape_def)
  then show ?thesis
    using filter_conds_shape [of "EFilters qy" "sorted_keys (EFilters qy)" "EFilters qy'"]
    by (cases "filter_conds (EFilters qy) (sorted_keys (EFilters qy))";
        cases "filter_conds (EFilters qy') (sorted_keys (EFilters qy))") (simp_all add: where_clause_def)
qed

lemma read_rows_shape: "same_shape qy qy' \<Longrightarrow> read_rows qy cols rows = read_rows qy' cols rows"
proof (induction rows)
  case (Cons r rows)
  then show ?case by (cases r) (simp_all add: same_shape_def)
qed simp

lemma group_text_shape: "same_shape qy qy' \<Longrightarrow> group_text table qy cols w = group_text table qy' cols w"
proof -
  assume "same_shape qy qy'"
  then have "EGroupBy qy = EGroupBy qy'" "EAgg qy = EAgg qy'" "EOrderBy qy = EOrderBy qy'" "ELimit qy = ELimit qy'"
    by (simp_all add: same_shape_def)
  then show ?thesis by (simp only: group_text_def)
qed

text \<open>Values never enter a statement: a database that sees only the texts of the statements cannot tell
  two questions apart that differ in the values of their filters or in their window, and answers them alike.\<close>

theorem sql_values_are_bound:
  assumes "blind (SqlDb q)" "same_shape qy qy'"
  shows "sql_events q qy = sql_events q qy'"
proof -
  have cur: "currency_invariant qy = currency_invariant qy'"
    using assms(2) by (simp add: currency_invariant_def same_shape_def map_has_iff flip: set_map)
  have db: "db_query (SqlDb q) t a = db_query (SqlDb q) t a'" "db_query_row (SqlDb q) t a = db_query_row (SqlDb q) t a'" for t a a'
    using assms(1) by (auto simp: blind_def)
  have groups: "sql_groups q qy cols w a = sql_groups q qy' cols w a'" for cols w a a'
  proof (cases "group_text (SqlTable q) qy' cols w")
    case (Inr t)
    have rr: "read_rows qy cols = read_rows qy' cols" by (rule ext) (rule read_rows_shape [OF assms(2)])
    show ?thesis unfolding sql_groups_def group_text_shape [OF assms(2)] Inr sum.case db(1) [of t a a'] rr ..
  qed (simp add: sql_groups_def group_text_shape [OF assms(2)])
  have dist: "sql_distinct_count q cols w a = sql_distinct_count q cols w a'" for cols w a a'
    by (simp add: sql_distinct_count_def db(2) [of _ a a'])
  have shape: "EGroupBy qy = EGroupBy qy'" "EAgg qy = EAgg qy'" using assms(2) by (simp_all add: same_shape_def)
  show ?thesis
  proof (cases "where_clause qy")
    case (Inl e)
    then have "where_clause qy' = Inl e"
      using where_clause_shape [OF assms(2)] by (cases "where_clause qy'") auto
    then show ?thesis unfolding sql_events_def shape Inl by (simp only: sum.case)
  next
    case (Inr p)
    obtain w a where p: "p = (w, a)" by (cases p)
    then obtain a' where w: "where_clause qy' = Inr (w, a')"
      using Inr where_clause_shape [OF assms(2)] by (cases "where_clause qy'") auto
    show ?thesis unfolding sql_events_def shape Inr p w sum.case prod.case cur groups [of _ w a a'] dist [of _ w a a'] ..
  qed
qed

theorem sql_values_are_bound_witness:
  "sql_events \<lparr>SqlDb = \<lparr>db_query = (\<lambda>t a. Inl t), db_query_row = (\<lambda>t a. Inl t)\<rparr>, SqlTable = ''biz_outcomes'', SqlWeeks = 8\<rparr>
       (event_query_zero\<lparr>EFilters := [(''flow'', ''x OR 1=1 --'')], EGroupBy := [''currency'']\<rparr>)
   = sql_events \<lparr>SqlDb = \<lparr>db_query = (\<lambda>t a. Inl t), db_query_row = (\<lambda>t a. Inl t)\<rparr>, SqlTable = ''biz_outcomes'', SqlWeeks = 8\<rparr>
       (event_query_zero\<lparr>EFilters := [(''flow'', ''checkout'')], EGroupBy := [''currency'']\<rparr>)"
  by (rule sql_values_are_bound) (simp_all add: blind_def same_shape_def)

section \<open>A small table\<close>

definition demo_question :: event_query where
  "demo_question = event_query_zero\<lparr>EFilters := [(''flow'', ''checkout'')], EGroupBy := [''entity'', ''currency''],
     ERange := \<lparr>From = 0, To = 5000\<rparr>, EOrderBy := order_sum_desc, ELimit := 5\<rparr>"

definition demo_memq :: memq where
  "demo_memq = \<lparr>mq_metrics = [], mq_events = [example_outcome []], mq_caps = default_caps\<rparr>"

text \<open>A database that knows the demo statement only, by its text as a database administrator would type it.\<close>

definition demo_text :: string where
  "demo_text = ''SELECT entity_id, currency, COUNT(*), COALESCE(SUM(amount_minor), 0) FROM biz_outcomes WHERE at >= ? AND at < ? AND flow = ? ''
     @ ''GROUP BY entity_id, currency ORDER BY SUM(amount_minor) DESC, currency ASC, entity_id ASC LIMIT 5''"

definition demo_rows :: "sql_row list" where
  "demo_rows = map (\<lambda>g. scan_row 2 (map (eval_expr g) (SelItems (group_select ''biz_outcomes'' demo_question))))
     (select_groups [example_outcome []] (group_select ''biz_outcomes'' demo_question))"

definition demo_sql :: sql_querier where
  "demo_sql = \<lparr>SqlDb = \<lparr>db_query = (\<lambda>t a. if t = demo_text then Inr (demo_rows, None) else Inl ''unknown statement''),
     db_query_row = (\<lambda>t a. Inl [])\<rparr>, SqlTable = ''biz_outcomes'', SqlWeeks = 8\<rparr>"

lemma demo_groups: "length (select_groups [example_outcome []] (group_select ''biz_outcomes'' demo_question)) = 1"
  by code_simp

lemma demo_typed: "sql_text (group_select ''biz_outcomes'' demo_question) = demo_text"
  by code_simp

lemma demo_executes:
  "executes (SqlDb demo_sql) (mq_events demo_memq) (group_select (SqlTable demo_sql) demo_question) (length (EGroupBy demo_question))"
proof -
  let ?sel = "group_select ''biz_outcomes'' demo_question"
  obtain g where g: "select_groups [example_outcome []] ?sel = [g]" using demo_groups by (auto simp: length_Suc_conv)
  have l: "SelLimit ?sel = Some 5" "length (EGroupBy demo_question) = 2"
    by (simp_all add: group_select_def demo_question_def)
  have "sql_answers [example_outcome []] ?sel 2 demo_rows"
    unfolding sql_answers_def demo_rows_def by (rule exI [of _ "[g]"]) (simp add: g l)
  then show ?thesis
    by (simp add: executes_def demo_sql_def demo_memq_def demo_typed l(2) del: length_Cons)
qed

lemma demo_answerable: "sql_question demo_question"
  by (simp add: sql_question_def demo_question_def event_query_zero_def known_labels_def schema_def map_ok_def in_i64_def
      currency_known_def)

lemma demo_fits: "fits_store [example_outcome []]"
  by (simp add: fits_store_def example_outcome_def)

theorem sql_matches_memory_witness:
  "sql_events demo_sql demo_question = memq_events demo_memq demo_question"
proof -
  have "list_all clean_event (mq_events demo_memq)" "fits_store (mq_events demo_memq)" "CEvents (mq_caps demo_memq)"
    using validated_clean [OF example_outcome_ok] demo_fits by (simp_all add: demo_memq_def default_caps_def)
  moreover have "EOrderBy demo_question \<in> {order_sum_desc, order_count_desc}" by (simp add: demo_question_def)
  ultimately show ?thesis
    using sql_matches_memory [OF _ _ _ demo_answerable _ demo_executes] by fastforce
qed

end
