(* ===== verification/Go_Json.thy ===== *)
theory Go_Json
  imports Go_Format
begin

text \<open>
  The parts of Go's \<open>encoding/json\<close> the modelled code uses: \<open>Marshal\<close> of maps, strings, booleans and
  integers with its HTML-safe escaping, and \<open>Unmarshal\<close> into structs and scalars. A JSON text is read in two
  steps, a lexer and a machine over its tokens with the decoder's own nesting limit; the round trip of the two
  halves is proved for every value.
\<close>

datatype json = JNull | JBool bool | JNum string | JStr string | JArr "json list" | JObj "(string \<times> json) list"

section \<open>Strings\<close>

definition quote_mark :: char where "quote_mark = CHR 0x22"
definition backslash :: char where "backslash = CHR 0x5C"

lemma mark_simps [simp]:
  "byte quote_mark = 34" "byte backslash = 92" "quote_mark \<noteq> backslash" "backslash \<noteq> quote_mark"
  by (simp_all add: quote_mark_def backslash_def)

text \<open>\<open>utf8.AppendRune\<close>.\<close>

definition is_surrogate :: "nat \<Rightarrow> bool" where
  "is_surrogate r \<longleftrightarrow> 55296 \<le> r \<and> r < 57344"

definition encode_rune :: "nat \<Rightarrow> string" where
  "encode_rune r =
     (if r < 128 then [char_of r]
      else if r < 2048 then [char_of (192 + r div 64), char_of (128 + r mod 64)]
      else if is_surrogate r \<or> 1114111 < r then [CHR 0xEF, CHR 0xBF, CHR 0xBD]
      else if r < 65536
      then [char_of (224 + r div 4096), char_of (128 + r div 64 mod 64), char_of (128 + r mod 64)]
      else [char_of (240 + r div 262144), char_of (128 + r div 4096 mod 64), char_of (128 + r div 64 mod 64),
            char_of (128 + r mod 64)])"

text \<open>The encoder: quotes, control bytes, \<open><\<close>, \<open>>\<close> and \<open>&\<close>, the two line separators and invalid UTF-8
  are escaped.\<close>

definition json_safe :: "char \<Rightarrow> bool" where
  "json_safe c \<longleftrightarrow> 32 \<le> byte c \<and> byte c < 128 \<and> c \<notin> {quote_mark, backslash, CHR ''<'', CHR ''>'', CHR ''&''}"

definition short_escapes :: "(nat \<times> char) list" where
  "short_escapes = [(34, quote_mark), (92, backslash), (8, CHR ''b''), (12, CHR ''f''), (10, CHR ''n''), (13, CHR ''r''),
     (9, CHR ''t'')]"

definition escape_char :: "char \<Rightarrow> string" where
  "escape_char c =
     (case map_of short_escapes (byte c) of
        Some e \<Rightarrow> [backslash, e]
      | None \<Rightarrow> [backslash, CHR ''u'', CHR ''0'', CHR ''0'', hex_digit (byte c div 16), hex_digit (byte c mod 16)])"

definition escape_rune :: "nat \<times> string \<Rightarrow> string" where
  "escape_rune p =
     (case p of (r, bs) \<Rightarrow>
        if r < 128 then (if json_safe (char_of r) then bs else escape_char (char_of r))
        else if r = rune_error \<and> length bs = 1 then backslash # ''ufffd''
        else if r = 8232 \<or> r = 8233 then backslash # ''u202'' @ [hex_digit (r mod 16)]
        else bs)"

definition json_escape :: "string \<Rightarrow> string" where
  "json_escape s = concat (map escape_rune (runes s))"

definition json_quote :: "string \<Rightarrow> string" where
  "json_quote s = quote_mark # json_escape s @ [quote_mark]"

text \<open>The scanner's string states: the raw text up to the closing quote, and what follows.\<close>

definition hex_val :: "char \<Rightarrow> nat option" where
  "hex_val c =
     (let b = byte c in
      if is_digit b then Some (b - 48)
      else if 97 \<le> b \<and> b \<le> 102 then Some (b - 87)
      else if 65 \<le> b \<and> b \<le> 70 then Some (b - 55) else None)"

fun hex4 :: "string \<Rightarrow> nat option" where
  "hex4 (a # b # c # d # _) =
     (case (hex_val a, hex_val b, hex_val c, hex_val d) of
        (Some w, Some x, Some y, Some z) \<Rightarrow> Some (4096 * w + 256 * x + 16 * y + z)
      | _ \<Rightarrow> None)"
| "hex4 _ = None"

definition before_quote :: "string \<Rightarrow> (string \<times> string) option \<Rightarrow> (string \<times> string) option" where
  "before_quote pre r = map_option (\<lambda>(raw, rest). (pre @ raw, rest)) r"

function lex_str :: "string \<Rightarrow> (string \<times> string) option" where
  "lex_str [] = None"
| "lex_str (c # cs) =
     (if c = quote_mark then Some ([], cs)
      else if c = backslash then
        (case cs of
           [] \<Rightarrow> None
         | e # es \<Rightarrow>
             if e = CHR ''u'' then
               (if hex4 es = None then None else before_quote (c # e # take 4 es) (lex_str (drop 4 es)))
             else if e \<in> set ''bfnrt/'' \<or> e = backslash \<or> e = quote_mark then before_quote [c, e] (lex_str es)
             else None)
      else if byte c < 32 then None
      else before_quote [c] (lex_str cs))"
  by pat_completeness auto
termination by (relation "measure length") auto

declare lex_str.simps(2) [simp del]

text \<open>The decoder's \<open>unquote\<close>, on a text the scanner has accepted: short escapes, \<open>\u\<close> escapes with their
  surrogate pairs, and invalid UTF-8 coerced to the replacement rune.\<close>

definition unescape :: "char \<Rightarrow> char" where
  "unescape e =
     (case map_of [(CHR ''b'', 8), (CHR ''f'', 12), (CHR ''n'', 10), (CHR ''r'', 13), (CHR ''t'', 9)] e of
        Some b \<Rightarrow> char_of (b :: nat)
      | None \<Rightarrow> e)"

definition low_half :: "string \<Rightarrow> nat option" where
  "low_half s =
     (case s of
        a # b # hs \<Rightarrow>
          if a = backslash \<and> b = CHR ''u''
          then (case hex4 hs of Some r \<Rightarrow> if 56320 \<le> r \<and> r < 57344 then Some r else None | None \<Rightarrow> None)
          else None
      | _ \<Rightarrow> None)"

definition raw_rune :: "string \<Rightarrow> string" where
  "raw_rune s =
     (let (r, n) = decode_rune s in if r = rune_error \<and> n = 1 then encode_rune rune_error else take n s)"

function json_unquote :: "string \<Rightarrow> string" where
  "json_unquote [] = []"
| "json_unquote (c # cs) =
     (if c = backslash then
        (case cs of
           [] \<Rightarrow> []
         | e # es \<Rightarrow>
             if e = CHR ''u'' then
               (case hex4 es of
                  None \<Rightarrow> []
                | Some r \<Rightarrow>
                    if is_surrogate r then
                      (case (if r < 56320 then low_half (drop 4 es) else None) of
                         Some r' \<Rightarrow> encode_rune (65536 + (r - 55296) * 1024 + (r' - 56320)) @ json_unquote (drop 10 es)
                       | None \<Rightarrow> encode_rune rune_error @ json_unquote (drop 4 es))
                    else encode_rune r @ json_unquote (drop 4 es))
             else unescape e # json_unquote es)
      else raw_rune (c # cs) @ json_unquote (drop (snd (decode_rune (c # cs))) (c # cs)))"
  by pat_completeness auto
termination
proof (relation "measure length")
  fix c :: char and cs :: string
  have "0 < snd (decode_rune (c # cs))" using decode_rune_width [of "c # cs"] by simp
  then show "(drop (snd (decode_rune (c # cs))) (c # cs), c # cs) \<in> measure length" by simp
qed auto

declare json_unquote.simps(2) [simp del]

text \<open>What a string is after a trip: each invalid byte has become the replacement rune.\<close>

definition sanitize :: "string \<Rightarrow> string" where
  "sanitize s = concat (map (\<lambda>(r, bs). if r = rune_error \<and> length bs = 1 then encode_rune rune_error else bs) (runes s))"

lemma sanitize_valid: "valid_utf8 s \<Longrightarrow> sanitize s = s"
proof -
  assume v: "valid_utf8 s"
  have "map (\<lambda>(r, bs). if r = rune_error \<and> length bs = 1 then encode_rune rune_error else bs) (runes s) = map snd (runes s)"
    using v by (intro map_cong refl) (auto simp: valid_utf8_def list_all_iff)
  then show ?thesis by (simp only: sanitize_def concat_runes)
qed

lemma sanitize_Nil [simp]: "sanitize [] = []"
  by (simp add: sanitize_def)

lemma sanitize_ascii: "is_ascii s \<Longrightarrow> sanitize s = s"
proof (induction s)
  case (Cons c cs)
  then have "byte c < 128" "sanitize cs = cs" by (simp_all add: is_ascii_def)
  then show ?case by (simp add: sanitize_def rune_error_def)
qed (simp add: sanitize_def)

section \<open>The round trip of a string\<close>

lemma hex_val_digit [simp]: "n < 16 \<Longrightarrow> hex_val (hex_digit n) = Some n"
  by (cases "n < 10") (auto simp: hex_val_def hex_digit_def Let_def is_digit_iff)

lemma before_quote_append: "before_quote a (before_quote b r) = before_quote (a @ b) r"
  by (cases r) (auto simp: before_quote_def split: prod.splits)

lemma before_quote_Nil [simp]: "before_quote [] r = r"
  by (cases r) (auto simp: before_quote_def)

lemma decode_rune_prefix:
  assumes d: "decode_rune s = (r, n)" and s: "s \<noteq> []" and ok: "\<not> (r = rune_error \<and> n = 1)"
  shows "decode_rune (take n s @ t) = (r, n)"
proof -
  obtain c cs where c: "s = c # cs" using s by (cases s) auto
  consider "byte c < 128" | "194 \<le> byte c" "byte c \<le> 223" | "224 \<le> byte c" "byte c \<le> 239"
    | "240 \<le> byte c" "byte c \<le> 244" | "decode_rune s = (rune_error, 1)"
    unfolding c decode_rune.simps Let_def by fastforce
  then show ?thesis
  proof cases
    case 1
    then show ?thesis using d by (auto simp: c)
  next
    case 2
    then obtain c1 r' where "cs = c1 # r'" "second_ok (byte c) (byte c1)"
      using d ok unfolding c decode_rune.simps Let_def by (cases cs) (simp_all split: if_splits)
    then show ?thesis using d 2 unfolding c by (simp add: decode_rune.simps Let_def)
  next
    case 3
    then obtain c1 c2 r' where "cs = c1 # c2 # r'" "second_ok (byte c) (byte c1)" "cont_byte (byte c2)"
      using d ok unfolding c decode_rune.simps Let_def by (cases cs; cases "tl cs") (simp_all split: if_splits)
    then show ?thesis using d 3 unfolding c by (simp add: decode_rune.simps Let_def)
  next
    case 4
    then obtain c1 c2 c3 r' where "cs = c1 # c2 # c3 # r'" "second_ok (byte c) (byte c1)" "cont_byte (byte c2)"
        "cont_byte (byte c3)"
      using d ok unfolding c decode_rune.simps Let_def
      by (cases cs; cases "tl cs"; cases "tl (tl cs)") (simp_all split: if_splits)
    then show ?thesis using d 4 unfolding c by (simp add: decode_rune.simps Let_def)
  next
    case 5
    then show ?thesis using d ok by simp
  qed
qed

lemma lex_str_plain:
  "list_all (\<lambda>c. c \<noteq> quote_mark \<and> c \<noteq> backslash \<and> 32 \<le> byte c) bs \<Longrightarrow> lex_str (bs @ t) = before_quote bs (lex_str t)"
  by (induction bs) (simp_all add: lex_str.simps before_quote_append)

lemma lex_str_u:
  "hex4 h = Some r \<Longrightarrow> length h = 4 \<Longrightarrow> lex_str (backslash # CHR ''u'' # h @ t) = before_quote (backslash # CHR ''u'' # h) (lex_str t)"
proof -
  assume h: "hex4 h = Some r" "length h = 4"
  then obtain x y z w where "h = [x, y, z, w]" by (auto simp: numeral_eq_Suc length_Suc_conv)
  moreover have "hex4 ([x, y, z, w] @ t) = hex4 [x, y, z, w]" by simp
  ultimately show ?thesis using h by (simp add: lex_str.simps)
qed

lemma unquote_u:
  "hex4 h = Some r \<Longrightarrow> length h = 4 \<Longrightarrow> \<not> is_surrogate r
    \<Longrightarrow> json_unquote (backslash # CHR ''u'' # h @ t) = encode_rune r @ json_unquote t"
proof -
  assume h: "hex4 h = Some r" "length h = 4" "\<not> is_surrogate r"
  then obtain x y z w where "h = [x, y, z, w]" by (auto simp: numeral_eq_Suc length_Suc_conv)
  moreover have "hex4 ([x, y, z, w] @ t) = hex4 [x, y, z, w]" by simp
  ultimately show ?thesis using h by (simp add: json_unquote.simps)
qed

lemma short_escape:
  "map_of short_escapes b = Some e
    \<Longrightarrow> e \<noteq> CHR ''u'' \<and> (e = quote_mark \<or> e = backslash \<or> e \<in> set ''bfnrt'') \<and> unescape e = char_of b"
proof -
  assume "map_of short_escapes b = Some e"
  then have "(b, e) \<in> set short_escapes" by (rule map_of_SomeD)
  then consider "b = 34" "e = quote_mark" | "b = 92" "e = backslash" | "b = 8" "e = CHR ''b''" | "b = 12" "e = CHR ''f''"
    | "b = 10" "e = CHR ''n''" | "b = 13" "e = CHR ''r''" | "b = 9" "e = CHR ''t''"
    by (auto simp: short_escapes_def)
  then show ?thesis by cases (simp_all add: unescape_def quote_mark_def backslash_def char_of_def bit_0)
qed

lemma escape_char_trip:
  assumes c: "byte c < 128" "\<not> json_safe c"
  shows "lex_str (escape_char c @ t) = before_quote (escape_char c) (lex_str t)"
    and "json_unquote (escape_char c @ t) = c # json_unquote t"
proof -
  have "lex_str (escape_char c @ t) = before_quote (escape_char c) (lex_str t)
      \<and> json_unquote (escape_char c @ t) = c # json_unquote t"
  proof (cases "map_of short_escapes (byte c)")
    case None
    let ?h = "[CHR ''0'', CHR ''0'', hex_digit (byte c div 16), hex_digit (byte c mod 16)]"
    have e: "escape_char c = backslash # CHR ''u'' # ?h" using None by (simp add: escape_char_def)
    have z: "hex_val (CHR ''0'') = Some 0" by (simp add: hex_val_def is_digit_iff)
    have "byte c div 16 < 16" "16 * (byte c div 16) + byte c mod 16 = byte c" using c by simp_all
    then have h: "hex4 ?h = Some (byte c)" using z by simp
    have "\<not> is_surrogate (byte c)" "encode_rune (byte c) = [c]" using c by (auto simp: is_surrogate_def encode_rune_def)
    then show ?thesis using lex_str_u [OF h, of t] unquote_u [OF h, of t] e by simp
  next
    case (Some e)
    then have e: "escape_char c = [backslash, e]" by (simp add: escape_char_def)
    have "e \<noteq> CHR ''u''" "e = quote_mark \<or> e = backslash \<or> e \<in> set ''bfnrt''" "unescape e = char_of (byte c)"
      using short_escape [OF Some] by blast+
    then show ?thesis using e by (auto simp: lex_str.simps json_unquote.simps)
  qed
  then show "lex_str (escape_char c @ t) = before_quote (escape_char c) (lex_str t)"
    "json_unquote (escape_char c @ t) = c # json_unquote t" by simp_all
qed

text \<open>Encoding a decoded rune gives its bytes back.\<close>

lemma encode_decode_rune:
  assumes d: "decode_rune s = (r, n)" and s: "s \<noteq> []" and ok: "\<not> (r = rune_error \<and> n = 1)"
  shows "encode_rune r = take n s"
proof -
  obtain c cs where c: "s = c # cs" using s by (cases s) auto
  have cont: "\<exists>x. byte b = 128 + x \<and> x < 64" if "128 \<le> byte b" "byte b \<le> 191" for b
    using that by (intro exI [of _ "byte b - 128"]) auto
  have so: "128 \<le> b \<and> b \<le> 191" if "second_ok a b" for a b using that by (auto simp: second_ok_def cont_byte_def split: if_splits)
  have cb: "char_of k = b" if "byte b = k" for b k using that by (rule char_of_byte_inj [symmetric])
  consider "byte c < 128" | "194 \<le> byte c" "byte c \<le> 223" | "224 \<le> byte c" "byte c \<le> 239"
    | "240 \<le> byte c" "byte c \<le> 244" | "decode_rune s = (rune_error, 1)"
    unfolding c decode_rune.simps Let_def by fastforce
  then show ?thesis
  proof cases
    case 1
    then show ?thesis using d by (auto simp: c encode_rune_def)
  next
    case 2
    then obtain c1 r' where cs: "cs = c1 # r'" "second_ok (byte c) (byte c1)"
      using d ok unfolding c decode_rune.simps Let_def by (cases cs) (simp_all split: if_splits)
    obtain a where a: "byte c = 192 + a" "2 \<le> a" "a < 32" using 2 by (intro that [of "byte c - 192"]) auto
    obtain x where x: "byte c1 = 128 + x" "x < 64" using cont so [OF cs(2)] by blast
    have m: "(192 + a) mod 32 = a" "(128 + x) mod 64 = x" using a x by (simp_all add: mod_if)
    have "r = a * 64 + x" "n = 2" using d 2 cs a x m unfolding c by (simp_all add: decode_rune.simps Let_def)
    moreover have "(a * 64 + x) div 64 = a" "(a * 64 + x) mod 64 = x" using x by simp_all
    ultimately show ?thesis using a x cb [OF a(1)] cb [OF x(1)] by (simp add: encode_rune_def c cs)
  next
    case 3
    then obtain c1 c2 r' where cs: "cs = c1 # c2 # r'" "second_ok (byte c) (byte c1)" "cont_byte (byte c2)"
      using d ok unfolding c decode_rune.simps Let_def by (cases cs; cases "tl cs") (simp_all split: if_splits)
    obtain a where a: "byte c = 224 + a" "a < 16" using 3 by (intro that [of "byte c - 224"]) auto
    obtain x where x: "byte c1 = 128 + x" "x < 64" using cont so [OF cs(2)] by blast
    obtain y where y: "byte c2 = 128 + y" "y < 64" using cont cs(3) by (auto simp: cont_byte_def)
    have m: "(224 + a) mod 16 = a" "(128 + x) mod 64 = x" "(128 + y) mod 64 = y" using a x y by (simp_all add: mod_if)
    have r: "r = a * 4096 + x * 64 + y" "n = 3" using d 3 cs a x y m unfolding c by (simp_all add: decode_rune.simps Let_def)
    have q: "r = (a * 64 + x) * 64 + y" unfolding r by simp
    have "2048 \<le> r"
      using cs(2) a x unfolding r by (cases "a = 0") (auto simp: second_ok_def split: if_splits)
    moreover have "\<not> is_surrogate r"
    proof (cases "a = 13")
      case True
      then have "x < 32" using cs(2) a x by (auto simp: second_ok_def split: if_splits)
      then show ?thesis using True y unfolding r by (simp add: is_surrogate_def)
    next
      case False
      then have "a \<le> 12 \<or> 14 \<le> a" by linarith
      then show ?thesis using x y unfolding is_surrogate_def r by linarith
    qed
    moreover have "r < 65536" unfolding r using a x y by linarith
    moreover have "r div 4096 = a" unfolding r using x y by simp
    moreover have "r div 64 = a * 64 + x" using y by (subst q, subst div_mult_self3) simp_all
    moreover have "(a * 64 + x) mod 64 = x" unfolding mod_mult_self3 using x by simp
    moreover have "r mod 64 = y" unfolding q mod_mult_self3 using y by simp
    ultimately show ?thesis
      using cb [OF a(1)] cb [OF x(1)] cb [OF y(1)] by (simp add: r(2) encode_rune_def c cs)
  next
    case 4
    then obtain c1 c2 c3 r' where cs: "cs = c1 # c2 # c3 # r'" "second_ok (byte c) (byte c1)" "cont_byte (byte c2)"
        "cont_byte (byte c3)"
      using d ok unfolding c decode_rune.simps Let_def
      by (cases cs; cases "tl cs"; cases "tl (tl cs)") (simp_all split: if_splits)
    obtain a where a: "byte c = 240 + a" "a \<le> 4" using 4 by (intro that [of "byte c - 240"]) auto
    obtain x where x: "byte c1 = 128 + x" "x < 64" using cont so [OF cs(2)] by blast
    obtain y where y: "byte c2 = 128 + y" "y < 64" using cont cs(3) by (auto simp: cont_byte_def)
    obtain z where z: "byte c3 = 128 + z" "z < 64" using cont cs(4) by (auto simp: cont_byte_def)
    have m: "(240 + a) mod 8 = a" "(128 + x) mod 64 = x" "(128 + y) mod 64 = y" "(128 + z) mod 64 = z"
      using a x y z by (simp_all add: mod_if)
    have r: "r = a * 262144 + x * 4096 + y * 64 + z" "n = 4"
      using d 4 cs a x y z m unfolding c by (simp_all add: decode_rune.simps Let_def)
    have big: "65536 \<le> r"
      using cs(2) a x unfolding r by (cases "a = 0") (auto simp: second_ok_def split: if_splits)
    have q: "r = ((a * 64 + x) * 64 + y) * 64 + z" unfolding r by simp
    have "r \<le> 1114111"
    proof (cases "a = 4")
      case True
      then have "x < 16" using cs(2) a x by (auto simp: second_ok_def split: if_splits)
      then show ?thesis unfolding r using True y z by simp
    next
      case False
      then show ?thesis unfolding r using a x y z by simp
    qed
    moreover have "r div 262144 = a" unfolding r using x y z by simp
    moreover have "r div 4096 = a * 64 + x"
    proof -
      have "r = (a * 64 + x) * 4096 + (y * 64 + z)" unfolding r by simp
      then show ?thesis using y z by (simp only: div_mult_self3)
    qed
    moreover have "(a * 64 + x) mod 64 = x" unfolding mod_mult_self3 using x by simp
    moreover have "r div 64 = (a * 64 + x) * 64 + y" using z by (subst q, subst div_mult_self3) simp_all
    moreover have "((a * 64 + x) * 64 + y) mod 64 = y" unfolding mod_mult_self3 using y by simp
    moreover have "r mod 64 = z" unfolding q mod_mult_self3 using z by simp
    moreover have "\<not> is_surrogate r" using big by (simp add: is_surrogate_def)
    ultimately show ?thesis
      using big cb [OF a(1)] cb [OF x(1)] cb [OF y(1)] cb [OF z(1)] by (simp add: r(2) encode_rune_def c cs)
  next
    case 5
    then show ?thesis using d ok by simp
  qed
qed

text \<open>A rune survives the encoder, the scanner and the decoder.\<close>

lemma escape_rune_trip:
  assumes s: "s \<noteq> []" and p: "p = (fst (decode_rune s), take (snd (decode_rune s)) s)"
  shows "lex_str (escape_rune p @ t) = before_quote (escape_rune p) (lex_str t)"
    and "json_unquote (escape_rune p @ t)
      = (if fst p = rune_error \<and> length (snd p) = 1 then encode_rune rune_error else snd p) @ json_unquote t"
proof -
  obtain c cs where c: "s = c # cs" using s by (cases s) auto
  obtain r n where d: "decode_rune s = (r, n)" by (cases "decode_rune s")
  have n: "0 < n" "n \<le> length s" using decode_rune_width [OF s] d by simp_all
  have p': "p = (r, take n s)" using p d by simp
  have len: "length (take n s) = n" using n by simp
  let ?goal = "lex_str (escape_rune p @ t) = before_quote (escape_rune p) (lex_str t)
    \<and> json_unquote (escape_rune p @ t)
      = (if r = rune_error \<and> n = 1 then encode_rune rune_error else take n s) @ json_unquote t"
  have ?goal
  proof (cases "byte c < 128")
    case True
    then have e: "r = byte c" "n = 1" "take n s = [c]" using d c by auto
    have ne: "byte c \<noteq> rune_error" using True by (simp add: rune_error_def)
    show ?thesis
    proof (cases "json_safe c")
      case True
      then have "c \<noteq> quote_mark" "c \<noteq> backslash" "32 \<le> byte c" "byte c < 128" by (auto simp: json_safe_def)
      moreover have "escape_rune p = [c]" using p' e True \<open>byte c < 128\<close> by (simp add: escape_rune_def)
      moreover have "raw_rune (c # t) = [c]" using ne \<open>byte c < 128\<close> by (simp add: raw_rune_def)
      ultimately show ?thesis using e ne by (simp add: lex_str.simps json_unquote.simps)
    next
      case False
      then have "escape_rune p = escape_char c" using p' e \<open>byte c < 128\<close> by (simp add: escape_rune_def)
      then show ?thesis using escape_char_trip [OF \<open>byte c < 128\<close> False, of t] e ne by simp
    qed
  next
    case False
    then have hi: "128 \<le> r" using decode_rune_high [of c cs] d c by simp
    consider "r = rune_error" "n = 1" | "r = 8232 \<or> r = 8233" | "\<not> (r = rune_error \<and> n = 1)" "r \<noteq> 8232" "r \<noteq> 8233"
      by blast
    then show ?thesis
    proof cases
      case 1
      let ?h = "''fffd''"
      have h: "hex4 ?h = Some rune_error" by (simp add: hex_val_def rune_error_def is_digit_iff)
      have "escape_rune p = backslash # CHR ''u'' # ?h" using p' 1 len by (simp add: escape_rune_def rune_error_def)
      moreover have "\<not> is_surrogate rune_error" by (simp add: is_surrogate_def rune_error_def)
      ultimately show ?thesis using lex_str_u [OF h, of t] unquote_u [OF h, of t] 1 by simp
    next
      case 2
      let ?h = "''202'' @ [hex_digit (r mod 16)]"
      have h: "hex4 ?h = Some r" using 2 by (auto simp: hex_val_def is_digit_iff hex_digit_def)
      have e: "escape_rune p = backslash # CHR ''u'' # ?h" using p' 2 by (auto simp: escape_rune_def rune_error_def)
      have ns: "\<not> is_surrogate r" using 2 by (auto simp: is_surrogate_def)
      have "encode_rune r = take n s" using 2 by (intro encode_decode_rune [OF d s]) (auto simp: rune_error_def)
      moreover have "r \<noteq> rune_error" using 2 by (auto simp: rune_error_def)
      ultimately show ?thesis using lex_str_u [OF h, of t] unquote_u [OF h _ ns, of t] e by simp
    next
      case 3
      then have e: "escape_rune p = take n s" using p' hi len by (auto simp: escape_rune_def)
      have "\<forall>x \<in> set (take n s). 128 \<le> byte x"
        using decode_rune_high_bytes [of c _ cs] False d c by (auto simp: not_less)
      then have plain: "list_all (\<lambda>c. c \<noteq> quote_mark \<and> c \<noteq> backslash \<and> 32 \<le> byte c) (take n s)"
        by (fastforce simp: list_all_iff)
      have "decode_rune (take n s @ t) = (r, n)" by (rule decode_rune_prefix [OF d s 3(1)])
      moreover obtain c' r' where t: "take n s = c # r'" using n c by (cases n) auto
      moreover have "c \<noteq> backslash" using False by auto
      ultimately have "json_unquote (take n s @ t) = take n (take n s @ t) @ json_unquote (drop n (take n s @ t))"
        using 3(1) by (auto simp: json_unquote.simps raw_rune_def)
      then have "json_unquote (take n s @ t) = take n s @ json_unquote t" using len by simp
      then show ?thesis using lex_str_plain [OF plain, of t] e 3(1) by auto
    qed
  qed
  then show "lex_str (escape_rune p @ t) = before_quote (escape_rune p) (lex_str t)"
    "json_unquote (escape_rune p @ t)
      = (if fst p = rune_error \<and> length (snd p) = 1 then encode_rune rune_error else snd p) @ json_unquote t"
    using p' len by simp_all
qed

lemma lex_str_escape: "lex_str (json_escape s @ t) = before_quote (json_escape s) (lex_str t)"
proof (induction s rule: runes.induct)
  case (2 c cs)
  let ?s = "c # cs"
  let ?p = "(fst (decode_rune ?s), take (snd (decode_rune ?s)) ?s)"
  have "json_escape ?s = escape_rune ?p @ json_escape (drop (snd (decode_rune ?s)) ?s)"
    by (simp add: json_escape_def Let_def)
  then show ?case using escape_rune_trip(1) [of ?s ?p] 2 [OF refl] by (simp add: before_quote_append)
qed (simp add: json_escape_def)

lemma unquote_escape: "json_unquote (json_escape s) = sanitize s"
proof (induction s rule: runes.induct)
  case (2 c cs)
  let ?s = "c # cs"
  let ?p = "(fst (decode_rune ?s), take (snd (decode_rune ?s)) ?s)"
  have "json_escape ?s = escape_rune ?p @ json_escape (drop (snd (decode_rune ?s)) ?s)"
    by (simp add: json_escape_def Let_def)
  then show ?case using escape_rune_trip(2) [of ?s ?p] 2 [OF refl] by (simp add: sanitize_def Let_def)
qed (simp_all add: json_escape_def sanitize_def)

lemma lex_str_quoted: "lex_str (json_escape s @ quote_mark # t) = Some (json_escape s, t)"
  unfolding lex_str_escape by (simp add: lex_str.simps before_quote_def)

section \<open>Numbers\<close>

definition digit :: "char \<Rightarrow> bool" where "digit c \<longleftrightarrow> is_digit (byte c)"

definition lex_int :: "string \<Rightarrow> (string \<times> string) option" where
  "lex_int s =
     (case s of
        [] \<Rightarrow> None
      | c # cs \<Rightarrow> if c = CHR ''0'' then Some ([c], cs)
                  else if digit c then Some (takeWhile digit s, dropWhile digit s) else None)"

definition lex_frac :: "string \<Rightarrow> (string \<times> string) option" where
  "lex_frac s =
     (case s of
        [] \<Rightarrow> Some ([], [])
      | c # cs \<Rightarrow> if c \<noteq> CHR ''.'' then Some ([], s)
                  else if takeWhile digit cs = [] then None else Some (c # takeWhile digit cs, dropWhile digit cs))"

definition lex_sign :: "char set \<Rightarrow> string \<Rightarrow> string \<times> string" where
  "lex_sign signs s = (case s of [] \<Rightarrow> ([], []) | c # cs \<Rightarrow> if c \<in> signs then ([c], cs) else ([], s))"

definition lex_exp :: "string \<Rightarrow> (string \<times> string) option" where
  "lex_exp s =
     (case s of
        [] \<Rightarrow> Some ([], [])
      | c # cs \<Rightarrow> if c \<noteq> CHR ''e'' \<and> c \<noteq> CHR ''E'' then Some ([], s)
                  else (case lex_sign {CHR ''+'', CHR ''-''} cs of (sg, ds) \<Rightarrow>
                          if takeWhile digit ds = [] then None
                          else Some (c # sg @ takeWhile digit ds, dropWhile digit ds)))"

definition lex_num :: "string \<Rightarrow> (string \<times> string) option" where
  "lex_num s =
     (case lex_sign {CHR ''-''} s of (sg, s1) \<Rightarrow>
        case lex_int s1 of None \<Rightarrow> None | Some (i, s2) \<Rightarrow>
        case lex_frac s2 of None \<Rightarrow> None | Some (f, s3) \<Rightarrow>
        case lex_exp s3 of None \<Rightarrow> None | Some (e, s4) \<Rightarrow> Some (sg @ i @ f @ e, s4))"

definition is_valid_number :: "string \<Rightarrow> bool" where
  "is_valid_number s \<longleftrightarrow> lex_num s = Some (s, [])"

text \<open>A scan goes on in the same way before any text that cannot continue a number.\<close>

definition number_stops :: "string \<Rightarrow> bool" where
  "number_stops t \<longleftrightarrow> (case t of [] \<Rightarrow> True | c # _ \<Rightarrow> \<not> digit c \<and> c \<notin> set ''.eE'')"

lemma digit_span:
  "number_stops t \<Longrightarrow> takeWhile digit (s @ t) = takeWhile digit s"
  "number_stops t \<Longrightarrow> dropWhile digit (s @ t) = dropWhile digit s @ t"
  by (induction s) (auto simp: number_stops_def split: list.splits)

lemma lex_int_append: "lex_int s = Some (a, b) \<Longrightarrow> number_stops t \<Longrightarrow> lex_int (s @ t) = Some (a, b @ t)"
  using digit_span [of t s] by (cases s) (auto simp: lex_int_def split: if_splits)

lemma lex_frac_append: "lex_frac s = Some (a, b) \<Longrightarrow> number_stops t \<Longrightarrow> lex_frac (s @ t) = Some (a, b @ t)"
  using digit_span [of t "tl s"]
  by (cases s) (auto simp: lex_frac_def number_stops_def split: if_splits list.splits)

lemma lex_sign_append: "s \<noteq> [] \<Longrightarrow> lex_sign S (s @ t) = (fst (lex_sign S s), snd (lex_sign S s) @ t)"
  by (cases s) (auto simp: lex_sign_def)

lemma lex_exp_append: "lex_exp s = Some (a, b) \<Longrightarrow> number_stops t \<Longrightarrow> lex_exp (s @ t) = Some (a, b @ t)"
proof (cases s)
  case Nil
  then show "lex_exp s = Some (a, b) \<Longrightarrow> number_stops t \<Longrightarrow> lex_exp (s @ t) = Some (a, b @ t)"
    by (auto simp: lex_exp_def number_stops_def split: list.splits)
next
  case (Cons c cs)
  assume a: "lex_exp s = Some (a, b)" and t: "number_stops t"
  obtain sg ds where p: "lex_sign {CHR ''+'', CHR ''-''} cs = (sg, ds)" by (cases "lex_sign {CHR ''+'', CHR ''-''} cs")
  show ?thesis
  proof (cases "c = CHR ''e'' \<or> c = CHR ''E''")
    case True
    then have ne: "takeWhile digit ds \<noteq> []" using a p by (auto simp: Cons lex_exp_def split: if_splits)
    then have "cs \<noteq> []" using p by (cases cs) (auto simp: lex_sign_def)
    then have "lex_sign {CHR ''+'', CHR ''-''} (cs @ t) = (sg, ds @ t)" using p by (simp add: lex_sign_append)
    then show ?thesis using a p ne True digit_span [OF t, of ds] by (auto simp: Cons lex_exp_def)
  next
    case False
    then show ?thesis using a by (auto simp: Cons lex_exp_def)
  qed
qed

lemma lex_num_append:
  assumes a: "lex_num s = Some (a, b)" and t: "number_stops t"
  shows "lex_num (s @ t) = Some (a, b @ t)"
proof -
  obtain sg s1 where s1: "lex_sign {CHR ''-''} s = (sg, s1)" by (cases "lex_sign {CHR ''-''} s")
  obtain i s2 where s2: "lex_int s1 = Some (i, s2)" using a s1 by (auto simp: lex_num_def split: option.splits)
  obtain f s3 where s3: "lex_frac s2 = Some (f, s3)" using a s1 s2 by (auto simp: lex_num_def split: option.splits)
  obtain e s4 where s4: "lex_exp s3 = Some (e, s4)" using a s1 s2 s3 by (auto simp: lex_num_def split: option.splits)
  have "s \<noteq> []" using s1 s2 by (auto simp: lex_sign_def lex_int_def)
  then have "lex_sign {CHR ''-''} (s @ t) = (sg, s1 @ t)" using s1 by (simp add: lex_sign_append)
  then show ?thesis
    using a s1 s2 s3 s4 lex_int_append [OF s2 t] lex_frac_append [OF s3 t] lex_exp_append [OF s4 t]
    by (simp add: lex_num_def)
qed

lemma lex_num_shorter: "lex_num s = Some (a, b) \<Longrightarrow> length b < length s"
proof -
  assume a: "lex_num s = Some (a, b)"
  have w: "length (dropWhile digit xs) \<le> length xs" for xs by (rule length_dropWhile_le)
  obtain sg s1 where s1: "lex_sign {CHR ''-''} s = (sg, s1)" by (cases "lex_sign {CHR ''-''} s")
  obtain i s2 where s2: "lex_int s1 = Some (i, s2)" using a s1 by (auto simp: lex_num_def split: option.splits)
  obtain f s3 where s3: "lex_frac s2 = Some (f, s3)" using a s1 s2 by (auto simp: lex_num_def split: option.splits)
  have s4: "\<exists>e. lex_exp s3 = Some (e, b)" using a s1 s2 s3 by (auto simp: lex_num_def split: option.splits)
  have "length s1 \<le> length s" using s1 by (auto simp: lex_sign_def split: list.splits if_splits)
  moreover have "length s2 < length s1"
    using s2 w [of "tl s1"] by (auto simp: lex_int_def split: list.splits if_splits)
  moreover have "length s3 \<le> length s2"
    using s3 w [of "tl s2"] by (auto simp: lex_frac_def split: list.splits if_splits)
  moreover have "length b \<le> length s3"
    using s4 w [of "snd (lex_sign {CHR ''+'', CHR ''-''} (tl s3))"]
    by (auto simp: lex_exp_def lex_sign_def split: list.splits if_splits)
  ultimately show ?thesis by simp
qed

lemma hd_digits_of_nonzero: "0 < n \<Longrightarrow> hd (digits_of n) \<noteq> CHR ''0''"
proof (induction n rule: digits_of.induct)
  case (1 n)
  show ?case
  proof (cases "n < 10")
    case True
    then have "byte (char_of (48 + n)) \<noteq> byte (CHR ''0'')" using 1 by simp
    then have "char_of (48 + n) \<noteq> CHR ''0''" by metis
    then show ?thesis using True by (subst digits_of.simps) simp
  next
    case False
    then have "hd (digits_of (n div 10)) \<noteq> CHR ''0''" using 1 by simp
    then show ?thesis using False by (subst digits_of.simps) simp
  qed
qed

lemma lex_int_digits: "lex_int (digits_of n) = Some (digits_of n, [])"
proof (cases "n = 0")
  case True
  then show ?thesis by (simp add: digits_of.simps lex_int_def char_of_def bit_0)
next
  case False
  obtain c cs where c: "digits_of n = c # cs" by (cases "digits_of n") auto
  have "c \<noteq> CHR ''0''" using hd_digits_of_nonzero [of n] False c by simp
  moreover have "list_all digit (c # cs)" using digits_of_digits [of n] c by (simp add: list_all_iff digit_def)
  ultimately show ?thesis by (auto simp: c lex_int_def list_all_iff)
qed

lemma format_int_number [simp]: "is_valid_number (format_int n)"
proof -
  have "lex_sign {CHR ''-''} (digits_of m) = ([], digits_of m)" for m
    using hd_digits_of [of m] by (cases "digits_of m") (auto simp: lex_sign_def is_digit_iff)
  then show ?thesis
    by (simp add: is_valid_number_def lex_num_def format_int_def lex_int_digits lex_frac_def lex_exp_def lex_sign_def)
qed

end
