(* ===== verification/Go_Json_Codec.thy ===== *)
theory Go_Json_Codec
  imports Go_Json
begin

text \<open>
  JSON values: \<open>json.Marshal\<close> to text, and \<open>json.Unmarshal\<close> as a lexer, a machine over the tokens with
  the decoder's stack and nesting limit, and the decoding of a value into struct fields. Main result:
  \<open>parse_render\<close>, that a rendered value parses to itself with its strings sanitized.
\<close>

section \<open>Tokens\<close>

datatype tok = TLBrace | TRBrace | TLBrack | TRBrack | TColon | TComma | TStr string | TNum string | TTrue | TFalse | TNull

definition punctuation :: "(char \<times> tok) list" where
  "punctuation = [(CHR ''{'', TLBrace), (CHR ''}'', TRBrace), (CHR ''['', TLBrack), (CHR '']'', TRBrack),
     (CHR '':'', TColon), (CHR '','', TComma)]"

definition json_space :: "char \<Rightarrow> bool" where
  "json_space c \<longleftrightarrow> c = CHR '' '' \<or> byte c = 9 \<or> byte c = 10 \<or> byte c = 13"

text \<open>A literal or a number at the head of a text.\<close>

definition lex_word :: "string \<Rightarrow> (tok \<times> string) option" where
  "lex_word s =
     (if has_prefix s ''true'' then Some (TTrue, drop 4 s)
      else if has_prefix s ''false'' then Some (TFalse, drop 5 s)
      else if has_prefix s ''null'' then Some (TNull, drop 4 s)
      else map_option (\<lambda>(n, rest). (TNum n, rest)) (lex_num s))"

lemma before_quote_SomeD: "before_quote p r = Some (a, b) \<Longrightarrow> \<exists>a'. r = Some (a', b)"
  by (cases r) (auto simp: before_quote_def)

lemma lex_str_shorter: "lex_str s = Some (raw, rest) \<Longrightarrow> length rest < length s"
proof (induction s arbitrary: raw rule: lex_str.induct)
  case (2 c cs)
  note eq = "2.prems" [unfolded lex_str.simps]
  show ?case
  proof (cases "c = quote_mark")
    case True
    then show ?thesis using eq by simp
  next
    case q: False
    show ?thesis
    proof (cases "c = backslash")
      case True
      then obtain e es where cs: "cs = e # es" using eq q by (cases cs) simp_all
      show ?thesis
      proof (cases "e = CHR ''u''")
        case u: True
        then have "before_quote (c # e # take 4 es) (lex_str (drop 4 es)) = Some (raw, rest)" and h: "hex4 es \<noteq> None"
          using eq q True by (simp_all add: cs split: if_splits)
        then obtain raw' where "lex_str (drop 4 es) = Some (raw', rest)" using before_quote_SomeD by blast
        from "2.IH"(1) [OF q True cs u h this] show ?thesis by (simp add: cs)
      next
        case u: False
        then have b: "before_quote [c, e] (lex_str es) = Some (raw, rest)"
          and m: "e \<in> set ''bfnrt/'' \<or> e = backslash \<or> e = quote_mark"
          using eq q True unfolding cs by (simp_all only: list.case if_False if_True split: if_split_asm) simp_all
        then obtain raw' where "lex_str es = Some (raw', rest)" using before_quote_SomeD by blast
        from "2.IH"(2) [OF q True cs u m this] show ?thesis by (simp add: cs)
      qed
    next
      case False
      then have "before_quote [c] (lex_str cs) = Some (raw, rest)" and l: "\<not> byte c < 32"
        using eq q by (simp_all split: if_splits)
      then obtain raw' where "lex_str cs = Some (raw', rest)" using before_quote_SomeD by blast
      from "2.IH"(3) [OF q False l this] show ?thesis by simp
    qed
  qed
qed simp

lemma lex_word_shorter: "lex_word s = Some (t, rest) \<Longrightarrow> length rest < length s"
  using lex_num_shorter by (auto simp: lex_word_def has_prefix_def split: if_splits; cases s; auto)

function lex_json :: "string \<Rightarrow> tok list option" where
  "lex_json [] = Some []"
| "lex_json (c # cs) =
     (if json_space c then lex_json cs
      else case map_of punctuation c of
        Some t \<Rightarrow> map_option ((#) t) (lex_json cs)
      | None \<Rightarrow>
          if c = quote_mark then
            (case lex_str cs of
               None \<Rightarrow> None
             | Some (raw, rest) \<Rightarrow> map_option ((#) (TStr (json_unquote raw))) (lex_json rest))
          else
            (case lex_word (c # cs) of
               None \<Rightarrow> None
             | Some (t, rest) \<Rightarrow> map_option ((#) t) (lex_json rest)))"
  by pat_completeness auto
termination
  by (relation "measure length") (auto dest: lex_str_shorter lex_word_shorter)

declare lex_json.simps(2) [simp del]

section \<open>The decoder\<close>

text \<open>An open array with its elements so far, or an open object with its members so far and the key in hand.\<close>

datatype frame = InArr "json list" | InObj "(string \<times> json) list" string

datatype phase = WantValue | WantFirst | WantKey | WantFirstKey | WantColon | After | Finished json

type_synonym jstate = "phase \<times> frame list"

definition max_nesting :: nat where "max_nesting = 10000"

fun finish :: "json \<Rightarrow> frame list \<Rightarrow> jstate" where
  "finish v [] = (Finished v, [])"
| "finish v (InArr js # st) = (After, InArr (js @ [v]) # st)"
| "finish v (InObj ms k # st) = (After, InObj (ms @ [(k, v)]) k # st)"

definition push_frame :: "phase \<Rightarrow> frame \<Rightarrow> frame list \<Rightarrow> jstate option" where
  "push_frame p f st = (if length st < max_nesting then Some (p, f # st) else None)"

fun begin_value :: "tok \<Rightarrow> frame list \<Rightarrow> jstate option" where
  "begin_value TLBrace st = push_frame WantFirstKey (InObj [] []) st"
| "begin_value TLBrack st = push_frame WantFirst (InArr []) st"
| "begin_value (TStr s) st = Some (finish (JStr s) st)"
| "begin_value (TNum n) st = Some (finish (JNum n) st)"
| "begin_value TTrue st = Some (finish (JBool True) st)"
| "begin_value TFalse st = Some (finish (JBool False) st)"
| "begin_value TNull st = Some (finish JNull st)"
| "begin_value _ st = None"

fun take_key :: "tok \<Rightarrow> frame list \<Rightarrow> jstate option" where
  "take_key (TStr k) (InObj ms _ # st) = Some (WantColon, InObj ms k # st)"
| "take_key _ _ = None"

fun close_frame :: "tok \<Rightarrow> frame list \<Rightarrow> jstate option" where
  "close_frame TRBrack (InArr js # st) = Some (finish (JArr js) st)"
| "close_frame TRBrace (InObj ms _ # st) = Some (finish (JObj ms) st)"
| "close_frame _ _ = None"

fun after_comma :: "frame list \<Rightarrow> jstate option" where
  "after_comma (InArr js # st) = Some (WantValue, InArr js # st)"
| "after_comma (InObj ms k # st) = Some (WantKey, InObj ms k # st)"
| "after_comma [] = None"

definition json_step :: "tok \<Rightarrow> jstate \<Rightarrow> jstate option" where
  "json_step t s =
     (case s of (p, st) \<Rightarrow>
        case p of
          WantValue \<Rightarrow> begin_value t st
        | WantFirst \<Rightarrow> if t = TRBrack then close_frame t st else begin_value t st
        | WantKey \<Rightarrow> take_key t st
        | WantFirstKey \<Rightarrow> if t = TRBrace then close_frame t st else take_key t st
        | WantColon \<Rightarrow> if t = TColon then Some (WantValue, st) else None
        | After \<Rightarrow> if t = TComma then after_comma st else close_frame t st
        | Finished v \<Rightarrow> None)"

fun json_run :: "tok list \<Rightarrow> jstate \<Rightarrow> jstate option" where
  "json_run [] s = Some s"
| "json_run (t # ts) s = (case json_step t s of None \<Rightarrow> None | Some s' \<Rightarrow> json_run ts s')"

definition parse_json :: "string \<Rightarrow> json option" where
  "parse_json s =
     (case lex_json s of
        None \<Rightarrow> None
      | Some ts \<Rightarrow> (case json_run ts (WantValue, []) of Some (Finished v, []) \<Rightarrow> Some v | _ \<Rightarrow> None))"

section \<open>The encoder\<close>

fun commas :: "'a \<Rightarrow> 'a list list \<Rightarrow> 'a list" where
  "commas sep [] = []"
| "commas sep [x] = x"
| "commas sep (x # xs) = x @ sep # commas sep xs"

primrec render_json :: "json \<Rightarrow> string" where
  "render_json JNull = ''null''"
| "render_json (JBool b) = (if b then ''true'' else ''false'')"
| "render_json (JNum n) = n"
| "render_json (JStr s) = json_quote s"
| "render_json (JArr js) = ''['' @ commas (CHR '','') (map render_json js) @ '']''"
| "render_json (JObj ms) =
     ''{'' @ commas (CHR '','') (map (\<lambda>(k, t). json_quote k @ '':'' @ t) (map (map_prod id render_json) ms)) @ ''}''"

text \<open>Members of a map are written in the order of their keys.\<close>

definition json_map :: "(string, json) gomap \<Rightarrow> json" where
  "json_map m = JObj (map (\<lambda>k. (k, map_get JNull m k)) (sorted_keys m))"

text \<open>A map literal.\<close>

definition map_lit :: "('k \<times> 'v) list \<Rightarrow> ('k, 'v) gomap" where
  "map_lit xs = fold (\<lambda>(k, v). map_put k v) xs []"

lemma map_lit_ok [simp]: "map_ok (map_lit xs)"
proof -
  have "map_ok m \<Longrightarrow> map_ok (fold (\<lambda>(k, v). map_put k v) xs m)" for m by (induction xs arbitrary: m) auto
  then show ?thesis by (simp add: map_lit_def)
qed

lemma map_lit_get: "distinct (map fst xs) \<Longrightarrow> map_of (map_lit xs) k = map_of xs k"
proof -
  have "distinct (map fst xs) \<Longrightarrow> map_of (fold (\<lambda>(k, v). map_put k v) xs m) k = (case map_of xs k of Some v \<Rightarrow> Some v | None \<Rightarrow> map_of m k)" for m
  proof (induction xs arbitrary: m)
    case (Cons x xs)
    obtain a b where x: "x = (a, b)" by (cases x)
    show ?case
    proof (cases "k = a")
      case True
      then have "map_of xs k = None" using Cons.prems x by (simp add: map_of_eq_None_iff)
      then show ?thesis using Cons x True by simp
    next
      case False
      then show ?thesis using Cons x by (simp split: option.splits)
    qed
  qed simp
  then show "distinct (map fst xs) \<Longrightarrow> ?thesis" by (auto simp: map_lit_def split: option.splits)
qed

definition json_int :: "int \<Rightarrow> json" where
  "json_int n = JNum (format_int n)"

section \<open>Struct fields\<close>

text \<open>
  A member goes to the field its key names exactly, else to the field its key names under case folding: ASCII
  letters, and the long s and the Kelvin sign, the only other runes that fold into ASCII.
\<close>

definition fold_rune :: "nat \<Rightarrow> nat" where
  "fold_rune r = (if is_lower r then r - 32 else if r = 383 then 83 else if r = 8490 then 75 else r)"

definition fold_name :: "string \<Rightarrow> nat list" where
  "fold_name s = map fold_rune (rune_values s)"

definition field_of :: "string list \<Rightarrow> string \<Rightarrow> string option" where
  "field_of tags k =
     (if k \<in> set tags then Some k else find (\<lambda>t. fold_name t = fold_name k) tags)"

text \<open>The values a struct field is given, in the order of the text, and the error of a value that is no object.\<close>

fun struct_members :: "json \<Rightarrow> (string \<times> json) list option" where
  "struct_members (JObj ms) = Some ms"
| "struct_members JNull = Some []"
| "struct_members _ = None"

definition values_for :: "string list \<Rightarrow> string \<Rightarrow> (string \<times> json) list \<Rightarrow> json list" where
  "values_for tags t ms = map snd [m \<leftarrow> ms. field_of tags (fst m) = Some t]"

text \<open>A field takes its values one after the other; \<open>null\<close> leaves a scalar as it is.\<close>

fun take_values :: "(json \<Rightarrow> 'a \<Rightarrow> 'a option) \<Rightarrow> json list \<Rightarrow> 'a \<Rightarrow> 'a option" where
  "take_values into [] x = Some x"
| "take_values into (v # vs) x = (case into v x of None \<Rightarrow> None | Some y \<Rightarrow> take_values into vs y)"

fun into_string :: "json \<Rightarrow> string \<Rightarrow> string option" where
  "into_string JNull s = Some s"
| "into_string (JStr t) s = Some t"
| "into_string _ s = None"

fun into_bool :: "json \<Rightarrow> bool \<Rightarrow> bool option" where
  "into_bool JNull b = Some b"
| "into_bool (JBool c) b = Some c"
| "into_bool _ b = None"

fun into_int :: "nat \<Rightarrow> json \<Rightarrow> int \<Rightarrow> int option" where
  "into_int bits JNull n = Some n"
| "into_int bits (JNum t) n = parse_int bits t"
| "into_int bits _ n = None"

text \<open>\<open>json.RawMessage\<close> takes any value, \<open>null\<close> included.\<close>

fun into_raw :: "json \<Rightarrow> json option \<Rightarrow> json option option" where
  "into_raw v r = Some (Some v)"

text \<open>\<open>json.Number\<close>: a number's text, or a string that is one.\<close>

fun into_number :: "json \<Rightarrow> string \<Rightarrow> string option" where
  "into_number JNull n = Some n"
| "into_number (JNum t) n = Some t"
| "into_number (JStr t) n = (if is_valid_number t then Some t else None)"
| "into_number _ n = None"

text \<open>
  A slice is its length and its backing elements: a second array for the same field is decoded over what the
  first one left.
\<close>

type_synonym 'a slice = "nat \<times> 'a list"

fun into_elements :: "(json \<Rightarrow> 'a \<Rightarrow> 'a option) \<Rightarrow> 'a \<Rightarrow> json list \<Rightarrow> 'a list \<Rightarrow> 'a list option" where
  "into_elements into z [] old = Some old"
| "into_elements into z (v # vs) old =
     (case into v (case old of [] \<Rightarrow> z | x # _ \<Rightarrow> x) of
        None \<Rightarrow> None
      | Some y \<Rightarrow> map_option ((#) y) (into_elements into z vs (tl old)))"

fun into_slice :: "(json \<Rightarrow> 'a \<Rightarrow> 'a option) \<Rightarrow> 'a \<Rightarrow> json \<Rightarrow> 'a slice \<Rightarrow> 'a slice option" where
  "into_slice into z JNull s = Some (0, [])"
| "into_slice into z (JArr vs) s =
     (if vs = [] then Some (0, []) else map_option (Pair (length vs)) (into_elements into z vs (snd s)))"
| "into_slice into z _ s = None"

definition slice_items :: "'a slice \<Rightarrow> 'a list" where
  "slice_items s = take (fst s) (snd s)"

section \<open>The round trip of a value\<close>

primrec json_wf :: "json \<Rightarrow> bool" where
  "json_wf JNull = True"
| "json_wf (JBool b) = True"
| "json_wf (JNum n) = is_valid_number n"
| "json_wf (JStr s) = True"
| "json_wf (JArr js) = list_all id (map json_wf js)"
| "json_wf (JObj ms) = list_all snd (map (map_prod id json_wf) ms)"

primrec json_depth :: "json \<Rightarrow> nat" where
  "json_depth JNull = 0"
| "json_depth (JBool b) = 0"
| "json_depth (JNum n) = 0"
| "json_depth (JStr s) = 0"
| "json_depth (JArr js) = Suc (fold max (map json_depth js) 0)"
| "json_depth (JObj ms) = Suc (fold max (map snd (map (map_prod id json_depth) ms)) 0)"

primrec canon :: "json \<Rightarrow> json" where
  "canon JNull = JNull"
| "canon (JBool b) = JBool b"
| "canon (JNum n) = JNum n"
| "canon (JStr s) = JStr (sanitize s)"
| "canon (JArr js) = JArr (map canon js)"
| "canon (JObj ms) = JObj (map (map_prod sanitize canon) ms)"

primrec json_toks :: "json \<Rightarrow> tok list" where
  "json_toks JNull = [TNull]"
| "json_toks (JBool b) = [if b then TTrue else TFalse]"
| "json_toks (JNum n) = [TNum n]"
| "json_toks (JStr s) = [TStr (sanitize s)]"
| "json_toks (JArr js) = TLBrack # commas TComma (map json_toks js) @ [TRBrack]"
| "json_toks (JObj ms) =
     TLBrace # commas TComma (map (\<lambda>(k, ts). TStr (sanitize k) # TColon # ts) (map (map_prod id json_toks) ms)) @ [TRBrace]"

text \<open>The lexer on rendered text.\<close>

lemma lex_punct:
  "map_of punctuation c = Some t \<Longrightarrow> lex_json (c # cs) = map_option ((#) t) (lex_json cs)"
  by (auto simp: lex_json.simps punctuation_def json_space_def split: if_splits)

lemmas lex_puncts =
  lex_punct [of "CHR ''{''" TLBrace] lex_punct [of "CHR ''}''" TRBrace] lex_punct [of "CHR ''[''" TLBrack]
  lex_punct [of "CHR '']''" TRBrack] lex_punct [of "CHR '':''" TColon] lex_punct [of "CHR '',''" TComma]

lemma punctuation_None: "c \<notin> set ''{}[]:,'' \<Longrightarrow> map_of punctuation c = None"
  by (simp add: punctuation_def)

lemma lex_quoted: "lex_json (json_quote s @ t) = map_option ((#) (TStr (sanitize s))) (lex_json t)"
proof -
  have "map_of punctuation quote_mark = None" "\<not> json_space quote_mark"
    by (simp_all add: punctuation_def json_space_def quote_mark_def)
  then show ?thesis by (simp add: json_quote_def lex_json.simps(2) [of quote_mark] lex_str_quoted unquote_escape)
qed

lemma number_head: "is_valid_number n \<Longrightarrow> \<exists>c cs. n = c # cs \<and> (c = CHR ''-'' \<or> digit c)"
  by (cases n) (auto simp: is_valid_number_def lex_num_def lex_sign_def lex_int_def digit_def is_digit_iff
    split: if_splits option.splits)

lemma lex_number:
  assumes n: "is_valid_number n" and t: "number_stops t"
  shows "lex_json (n @ t) = map_option ((#) (TNum n)) (lex_json t)"
proof -
  obtain c cs where c: "n = c # cs" "c = CHR ''-'' \<or> digit c" using number_head [OF n] by blast
  then have b: "byte c = 45 \<or> (48 \<le> byte c \<and> byte c \<le> 57)" by (auto simp: digit_def is_digit_iff)
  have ne: "c \<noteq> d" if "\<not> (byte d = 45 \<or> (48 \<le> byte d \<and> byte d \<le> 57))" for d using b that by metis
  have "map_of punctuation c = None" by (rule punctuation_None) (auto simp: ne)
  moreover have "\<not> json_space c" "c \<noteq> quote_mark" using b by (auto simp: json_space_def ne)
  moreover have "lex_num (n @ t) = Some (n, t)" using n lex_num_append [OF _ t] by (simp add: is_valid_number_def)
  moreover have "c \<noteq> CHR ''t''" "c \<noteq> CHR ''f''" "c \<noteq> CHR ''n''" by (simp_all add: ne)
  then have "lex_word (c # cs @ t) = map_option (\<lambda>(n, rest). (TNum n, rest)) (lex_num (c # cs @ t))"
    by (simp add: lex_word_def has_prefix_def)
  ultimately show ?thesis using c(1) by (simp add: lex_json.simps(2) [of c])
qed

lemma lex_literal:
  "lex_json (''null'' @ t) = map_option ((#) TNull) (lex_json t)"
  "lex_json (''true'' @ t) = map_option ((#) TTrue) (lex_json t)"
  "lex_json (''false'' @ t) = map_option ((#) TFalse) (lex_json t)"
  by (simp_all add: lex_json.simps(2) [of "CHR ''n''"] lex_json.simps(2) [of "CHR ''t''"] lex_json.simps(2) [of "CHR ''f''"]
    punctuation_def json_space_def quote_mark_def lex_word_def has_prefix_def)

lemma lex_commas:
  assumes "\<And>x t. x \<in> set xs \<Longrightarrow> number_stops t \<Longrightarrow> lex_json (f x @ t) = map_option ((@) (g x)) (lex_json t)"
    and "number_stops t"
  shows "lex_json (commas (CHR '','') (map f xs) @ t) = map_option ((@) (commas TComma (map g xs))) (lex_json t)"
  using assms(1)
proof (induction xs)
  case Nil
  then show ?case by (simp add: option.map_id0 [unfolded id_def])
next
  case (Cons x xs)
  show ?case
  proof (cases "xs = []")
    case True
    then show ?thesis using Cons.prems assms(2) by simp
  next
    case False
    then obtain y ys where xs: "xs = y # ys" by (cases xs) auto
    have st: "number_stops (CHR '','' # r)" for r by (simp add: number_stops_def digit_def is_digit_iff)
    have "lex_json (commas (CHR '','') (map f xs) @ t) = map_option ((@) (commas TComma (map g xs))) (lex_json t)"
      using Cons by simp
    then show ?thesis
      using Cons.prems [of x, OF _ st] by (simp add: xs lex_puncts punctuation_def option.map_comp comp_def)
  qed
qed

lemma append_one: "(@) [x] = (#) x"
  by (rule ext) simp

lemma lex_render:
  "json_wf v \<Longrightarrow> number_stops t \<Longrightarrow> lex_json (render_json v @ t) = map_option ((@) (json_toks v)) (lex_json t)"
proof (induction v arbitrary: t)
  case (JArr js)
  have st: "number_stops (CHR '']'' # t)" by (simp add: number_stops_def digit_def is_digit_iff)
  have "lex_json (commas (CHR '','') (map render_json js) @ CHR '']'' # t)
      = map_option ((@) (commas TComma (map json_toks js))) (lex_json (CHR '']'' # t))"
    using JArr by (intro lex_commas st) (simp add: list_all_iff)
  then show ?case by (simp add: lex_puncts punctuation_def option.map_comp comp_def)
next
  case (JObj ms)
  have st: "number_stops (CHR ''}'' # t)" by (simp add: number_stops_def digit_def is_digit_iff)
  have "lex_json (commas (CHR '','') (map (\<lambda>m. json_quote (fst m) @ CHR '':'' # render_json (snd m)) ms) @ CHR ''}'' # t)
      = map_option ((@) (commas TComma (map (\<lambda>m. TStr (sanitize (fst m)) # TColon # json_toks (snd m)) ms)))
          (lex_json (CHR ''}'' # t))"
  proof (intro lex_commas st)
    fix m r
    assume m: "m \<in> set ms" "number_stops r"
    then have "lex_json (render_json (snd m) @ r) = map_option ((@) (json_toks (snd m))) (lex_json r)"
      using JObj.IH [of m "snd m" r] JObj.prems by (auto simp: list_all_iff snds.simps prod_eq_iff)
    then show "lex_json ((json_quote (fst m) @ CHR '':'' # render_json (snd m)) @ r)
        = map_option ((@) (TStr (sanitize (fst m)) # TColon # json_toks (snd m))) (lex_json r)"
      by (cases "lex_json r") (simp_all add: lex_quoted lex_puncts punctuation_def)
  qed
  then show ?case by (simp add: lex_puncts punctuation_def option.map_comp comp_def split_def)
qed (simp_all add: lex_literal [simplified] lex_number lex_quoted append_one)

text \<open>The machine on the tokens of a value.\<close>

lemma depth_le: "x \<in> set xs \<Longrightarrow> x \<le> fold max xs (n :: nat)"
proof (induction xs arbitrary: n)
  case (Cons y ys)
  have mono: "k \<le> fold max zs k" for zs and k :: nat 
  proof (induction zs arbitrary: k)
    case (Cons z zs)
    have "k \<le> max z k" by simp
    also have "max z k \<le> fold max zs (max z k)" by (rule Cons.IH)
    finally show ?case by simp
  qed simp
  show ?case using Cons mono [of "max y n" ys] by auto
qed simp

lemma json_toks_first: "json_toks v = t # ts \<Longrightarrow> t \<noteq> TRBrack"
  by (cases v) (auto split: if_splits)

lemma json_toks_nonempty: "json_toks v \<noteq> []"
  by (cases v) auto

lemma run_elements:
  assumes "\<And>j acc ts. j \<in> set js \<Longrightarrow> json_run (json_toks j @ ts) (WantValue, InArr acc # st) = json_run ts (After, InArr (acc @ [canon j]) # st)"
    and "js \<noteq> []"
  shows "json_run (commas TComma (map json_toks js) @ TRBrack # ts) (WantValue, InArr acc # st)
    = json_run ts (finish (JArr (acc @ map canon js)) st)"
  using assms
proof (induction js arbitrary: acc)
  case (Cons j js)
  show ?case
  proof (cases "js = []")
    case True
    then show ?thesis using Cons.prems(1) by (simp add: json_step_def)
  next
    case False
    then obtain k ks where js: "js = k # ks" by (cases js) auto
    have "json_run (commas TComma (map json_toks js) @ TRBrack # ts) (WantValue, InArr (acc @ [canon j]) # st)
        = json_run ts (finish (JArr ((acc @ [canon j]) @ map canon js)) st)"
      using Cons False by simp
    then show ?thesis using Cons.prems(1) [of j] by (simp add: js json_step_def)
  qed
qed simp

lemma run_members:
  assumes "\<And>m acc k ts. m \<in> set ms \<Longrightarrow> json_run (json_toks (snd m) @ ts) (WantValue, InObj acc k # st)
      = json_run ts (After, InObj (acc @ [(k, canon (snd m))]) k # st)"
    and "ms \<noteq> []"
  shows "json_run (commas TComma (map (\<lambda>m. TStr (sanitize (fst m)) # TColon # json_toks (snd m)) ms) @ TRBrace # ts)
      (WantKey, InObj acc k # st)
    = json_run ts (finish (JObj (acc @ map (map_prod sanitize canon) ms)) st)"
  using assms
proof (induction ms arbitrary: acc k)
  case (Cons m ms)
  have one: "json_run (TStr (sanitize (fst m)) # TColon # json_toks (snd m) @ r) (WantKey, InObj acc k # st)
      = json_run r (After, InObj (acc @ [map_prod sanitize canon m]) (sanitize (fst m)) # st)" for r
    using Cons.prems(1) [of m] by (simp add: json_step_def map_prod_def split_def)
  show ?case
  proof (cases "ms = []")
    case True
    then show ?thesis using one by (simp add: json_step_def)
  next
    case False
    then obtain n ns where ms: "ms = n # ns" by (cases ms) auto
    have "json_run (commas TComma (map (\<lambda>m. TStr (sanitize (fst m)) # TColon # json_toks (snd m)) ms) @ TRBrace # ts)
          (WantKey, InObj (acc @ [map_prod sanitize canon m]) (sanitize (fst m)) # st)
        = json_run ts (finish (JObj ((acc @ [map_prod sanitize canon m]) @ map (map_prod sanitize canon) ms)) st)"
      using Cons False by simp
    then show ?thesis using one by (simp add: ms json_step_def)
  qed
qed simp

lemma run_toks:
  "length st + json_depth v \<le> max_nesting
    \<Longrightarrow> json_run (json_toks v @ ts) (WantValue, st) = json_run ts (finish (canon v) st)"
proof (induction v arbitrary: st ts)
  case (JArr js)
  then have room: "length st < max_nesting" by simp
  show ?case
  proof (cases js)
    case Nil
    then show ?thesis using room by (simp add: json_step_def push_frame_def)
  next
    case (Cons j js')
    have each: "json_run (json_toks i @ r) (WantValue, InArr acc # st) = json_run r (After, InArr (acc @ [canon i]) # st)"
      if i: "i \<in> set js" for i acc r
    proof -
      have "json_depth i \<le> fold max (map json_depth js) 0" using i by (intro depth_le) simp
      then show ?thesis using JArr.IH [OF i, of "InArr acc # st" r] JArr.prems by simp
    qed
    obtain t us where us: "commas TComma (map json_toks js) @ TRBrack # ts = t # us" "t \<noteq> TRBrack"
      using json_toks_first [of j] json_toks_nonempty [of j]
      by (cases "json_toks j"; cases js') (auto simp: Cons)
    have "json_run (t # us) (WantFirst, InArr [] # st) = json_run (t # us) (WantValue, InArr [] # st)"
      using us(2) by (simp add: json_step_def)
    then show ?thesis
      using run_elements [of js st ts "[]", OF each] Cons room us(1) by (simp add: json_step_def push_frame_def)
  qed
next
  case (JObj ms)
  then have room: "length st < max_nesting" by simp
  let ?body = "commas TComma (map (\<lambda>m. TStr (sanitize (fst m)) # TColon # json_toks (snd m)) ms) @ TRBrace # ts"
  have toks: "json_toks (JObj ms) @ ts = TLBrace # ?body" by (simp add: comp_def split_def)
  show ?case
  proof (cases ms)
    case Nil
    then show ?thesis using room by (simp add: json_step_def push_frame_def)
  next
    case (Cons m ms')
    have each: "json_run (json_toks (snd i) @ r) (WantValue, InObj acc k # st)
        = json_run r (After, InObj (acc @ [(k, canon (snd i))]) k # st)"
      if i: "i \<in> set ms" for i acc k r
    proof -
      have "json_depth (snd i) \<le> fold max (map snd (map (map_prod id json_depth) ms)) 0" using i by (intro depth_le) force
      then show ?thesis
        using JObj.IH [OF i, of "snd i" "InObj acc k # st" r] JObj.prems by (simp add: snds.simps prod_eq_iff)
    qed
    obtain s us where us: "?body = TStr s # us" by (cases ms') (auto simp: Cons)
    have "json_run ?body (WantFirstKey, InObj [] [] # st) = json_run ?body (WantKey, InObj [] [] # st)"
      unfolding us by (simp add: json_step_def)
    then show ?thesis
      using run_members [of ms st ts "[]" "[]", OF each] Cons room unfolding toks
      by (simp add: json_step_def push_frame_def)
  qed
qed (simp_all add: json_step_def)

lemma parse_render: "json_wf v \<Longrightarrow> json_depth v \<le> max_nesting \<Longrightarrow> parse_json (render_json v) = Some (canon v)"
  using lex_render [of v "[]"] run_toks [of "[]" v "[]"] by (simp add: parse_json_def number_stops_def)

section \<open>Looking a field up\<close>

lemma field_of_exact: "k \<in> set tags \<Longrightarrow> field_of tags k = Some k"
  by (simp add: field_of_def)

text \<open>An object with distinct keys, each a field's own name or no field's, gives a field its own member.\<close>

lemma values_for_distinct:
  assumes "distinct (map fst ms)" and "\<forall>m \<in> set ms. field_of tags (fst m) = (if fst m \<in> set tags then Some (fst m) else None)"
    and "t \<in> set tags"
  shows "values_for tags t ms = (case map_of ms t of None \<Rightarrow> [] | Some v \<Rightarrow> [v])"
  using assms(1,2)
proof (induction ms)
  case (Cons m ms)
  obtain k v where m: "m = (k, v)" by (cases m)
  have IH: "values_for tags t ms = (case map_of ms t of None \<Rightarrow> [] | Some v \<Rightarrow> [v])" using Cons by simp
  show ?case
  proof (cases "k = t")
    case True
    then have "map_of ms t = None" using Cons.prems(1) m by (simp add: map_of_eq_None_iff)
    then show ?thesis using IH True Cons.prems(2) assms(3) by (simp add: values_for_def m)
  next
    case False
    then show ?thesis using IH Cons.prems(2) by (auto simp: values_for_def m split: if_splits)
  qed
qed (simp add: values_for_def)

section \<open>Encoded maps\<close>

definition canon_members :: "(string, json) gomap \<Rightarrow> (string \<times> json) list" where
  "canon_members m = map (\<lambda>k. (sanitize k, canon (map_get JNull m k))) (sorted_keys m)"

lemma canon_json_map: "canon (json_map m) = JObj (canon_members m)"
  by (simp add: json_map_def canon_members_def comp_def)

lemma fold_max_le: "(\<forall>x \<in> set xs. x \<le> n) \<Longrightarrow> k \<le> n \<Longrightarrow> fold max xs k \<le> (n :: nat)"
  by (induction xs arbitrary: k) auto

lemma json_map_shape:
  assumes "map_ok m" and "\<And>k v. map_of m k = Some v \<Longrightarrow> json_wf v \<and> json_depth v \<le> n"
  shows "json_wf (json_map m)" and "json_depth (json_map m) \<le> Suc n"
proof -
  have each: "json_wf (map_get JNull m k) \<and> json_depth (map_get JNull m k) \<le> n" if "k \<in> set (sorted_keys m)" for k
    using assms(2) [of k] that by (auto simp: map_get_def map_has_def sorted_keys_has split: option.splits)
  then show "json_wf (json_map m)" by (auto simp: json_map_def list_all_iff)
  show "json_depth (json_map m) \<le> Suc n"
    using each by (auto simp: json_map_def comp_def intro!: fold_max_le)
qed

lemma parse_json_map:
  assumes "map_ok m" and "\<And>k v. map_of m k = Some v \<Longrightarrow> json_wf v \<and> json_depth v \<le> n" and "n < max_nesting"
  shows "parse_json (render_json (json_map m)) = Some (JObj (canon_members m))"
proof -
  have "json_wf (json_map m)" by (rule json_map_shape(1) [OF assms(1), where n = n]) (rule assms(2))
  moreover have "json_depth (json_map m) \<le> Suc n" by (rule json_map_shape(2) [OF assms(1)]) (rule assms(2))
  ultimately show ?thesis using parse_render [of "json_map m"] assms(3) by (simp add: canon_json_map)
qed

text \<open>A struct field of an encoded map whose keys are plain names gets its own value.\<close>

definition plain_keys :: "string list \<Rightarrow> (string, json) gomap \<Rightarrow> bool" where
  "plain_keys tags m \<longleftrightarrow>
     (\<forall>k \<in> fst ` set m. sanitize k = k \<and> field_of tags k = (if k \<in> set tags then Some k else None))"

lemma values_for_map:
  assumes m: "map_ok m" and p: "plain_keys tags m" and t: "t \<in> set tags"
  shows "values_for tags t (canon_members m) = (case map_of m t of None \<Rightarrow> [] | Some v \<Rightarrow> [canon v])"
proof -
  have key: "sanitize k = k" "field_of tags k = (if k \<in> set tags then Some k else None)" if "k \<in> set (sorted_keys m)" for k
    using that p by (auto simp: plain_keys_def sorted_keys_def)
  have same: "canon_members m = map (\<lambda>k. (k, canon (map_get JNull m k))) (sorted_keys m)"
    unfolding canon_members_def using key(1) by (intro map_cong refl) simp
  have look: "map_of (map (\<lambda>k. (k, canon (map_get JNull m k))) ks) t = (if t \<in> set ks then Some (canon (map_get JNull m t)) else None)" for ks
    by (induction ks) auto
  have "values_for tags t (canon_members m) = (case map_of (canon_members m) t of None \<Rightarrow> [] | Some v \<Rightarrow> [v])"
  proof (rule values_for_distinct [OF _ _ t])
    show "distinct (map fst (canon_members m))" using m by (simp add: same comp_def sorted_keys_def map_ok_def)
    show "\<forall>x \<in> set (canon_members m). field_of tags (fst x) = (if fst x \<in> set tags then Some (fst x) else None)"
      using key(2) by (auto simp: same)
  qed
  then show ?thesis
    unfolding same look using sorted_keys_has [of t m] by (auto simp: map_get_def map_has_def split: option.splits)
qed

text \<open>The members of a map whose keys are plain names are its own.\<close>

lemma canon_members_plain:
  assumes "map_ok m" and "\<And>k. map_has m k \<Longrightarrow> sanitize k = k"
  shows "distinct (map fst (canon_members m))" and "map_of (canon_members m) k = map_option canon (map_of m k)"
proof -
  have c: "canon_members m = map (\<lambda>k. (k, canon (map_get JNull m k))) (sorted_keys m)"
    using assms(2) by (auto simp: canon_members_def sorted_keys_has)
  show "distinct (map fst (canon_members m))" using assms(1) by (simp add: c comp_def sorted_keys_def map_ok_def)
  have "set (sorted_keys m) = dom (map_of m)" by (simp add: sorted_keys_def dom_map_of_conv_image_fst)
  then show "map_of (canon_members m) k = map_option canon (map_of m k)"
    unfolding c by (auto simp: map_of_map_restrict restrict_map_def map_get_def split: option.splits)
qed

end
