(* ===== verification/Go_Clock.thy ===== *)
theory Go_Clock
  imports Go_Format
begin

text \<open>
  \<open>time.Parse\<close> for the layouts the code reads: \<open>time.RFC3339\<close> and \<open>2006-01-02 15:04:05.000\<close>. The parser is
  lenient where the library is: an hour of one digit, a fraction of a second the layout does not name, a comma
  for the point. Main results: what the library itself formats is read back as the same instant.
\<close>

section \<open>Fields\<close>

definition is_dec :: "char \<Rightarrow> bool" where "is_dec c \<longleftrightarrow> is_digit (byte c)"
definition dec_val :: "char \<Rightarrow> int" where "dec_val c = int (byte c) - 48"

text \<open>\<open>getnum\<close>: two digits, or one when not fixed.\<close>

fun getnum :: "bool \<Rightarrow> string \<Rightarrow> (int \<times> string) option" where
  "getnum fixed [] = None"
| "getnum fixed [a] = (if is_dec a \<and> \<not> fixed then Some (dec_val a, []) else None)"
| "getnum fixed (a # b # r) =
     (if \<not> is_dec a then None
      else if is_dec b then Some (dec_val a * 10 + dec_val b, r)
      else if fixed then None else Some (dec_val a, b # r))"

definition getnum_in :: "bool \<Rightarrow> int \<Rightarrow> int \<Rightarrow> string \<Rightarrow> (int \<times> string) option" where
  "getnum_in fixed lo hi s =
     (case getnum fixed s of Some (n, r) \<Rightarrow> if lo \<le> n \<and> n < hi then Some (n, r) else None | None \<Rightarrow> None)"

definition get_year :: "string \<Rightarrow> (int \<times> string) option" where
  "get_year s =
     (if length s < 4 \<or> \<not> list_all is_dec (take 4 s) then None
      else map_option (\<lambda>n. (int n, drop 4 s)) (parse_uint (take 4 s)))"

text \<open>Literal text of a layout; a blank of the layout stands for any number of blanks.\<close>

fun skip_char :: "char \<Rightarrow> string \<Rightarrow> string option" where
  "skip_char c [] = (if c = CHR '' '' then Some [] else None)"
| "skip_char c (d # r) =
     (if c = d then Some (if c = CHR '' '' then dropWhile ((=) c) r else r) else None)"

definition expect :: "char \<Rightarrow> (int \<times> string) option \<Rightarrow> (int \<times> string) option" where
  "expect c o' =
     (case o' of None \<Rightarrow> None | Some (n, r) \<Rightarrow> (case skip_char c r of None \<Rightarrow> None | Some r' \<Rightarrow> Some (n, r')))"

text \<open>Year to second, with the given separator of date and clock; the date is checked against the calendar.\<close>

definition parse_stamp :: "char \<Rightarrow> string \<Rightarrow> (int \<times> string) option" where
  "parse_stamp sep s =
     (case expect (CHR ''-'') (get_year s) of None \<Rightarrow> None | Some (y, s) \<Rightarrow>
      case expect (CHR ''-'') (getnum_in True 1 13 s) of None \<Rightarrow> None | Some (m, s) \<Rightarrow>
      case expect sep (getnum True s) of None \<Rightarrow> None | Some (d, s) \<Rightarrow>
      case expect (CHR '':'') (getnum_in False 0 24 s) of None \<Rightarrow> None | Some (hh, s) \<Rightarrow>
      case expect (CHR '':'') (getnum_in True 0 60 s) of None \<Rightarrow> None | Some (mm, s) \<Rightarrow>
      case getnum_in True 0 60 s of None \<Rightarrow> None | Some (ss, s) \<Rightarrow>
      if d < 1 \<or> days_in_month y m < d then None
      else Some (day_of_civil y m d * 86400 + hh * 3600 + mm * 60 + ss, s))"

text \<open>Nanoseconds of the digits after a point or a comma.\<close>

definition nanos_of :: "string \<Rightarrow> int" where
  "nanos_of ds =
     (let ds = take 9 ds in case parse_uint ds of None \<Rightarrow> 0 | Some n \<Rightarrow> int n * 10 ^ (9 - length ds))"

definition comma_or_point :: "char \<Rightarrow> bool" where
  "comma_or_point c \<longleftrightarrow> c = CHR ''.'' \<or> c = CHR '',''"

definition opt_fraction :: "string \<Rightarrow> int \<times> string" where
  "opt_fraction s =
     (case s of
        c # d # r \<Rightarrow> if comma_or_point c \<and> is_dec d
                     then (nanos_of (takeWhile is_dec (d # r)), dropWhile is_dec (d # r)) else (0, s)
      | _ \<Rightarrow> (0, s))"

text \<open>The zone \<open>Z07:00\<close>: \<open>Z\<close>, or a signed offset in seconds.\<close>

definition parse_zone :: "string \<Rightarrow> (int \<times> string) option" where
  "parse_zone s =
     (case s of
        [] \<Rightarrow> None
      | c # r \<Rightarrow>
          if c = CHR ''Z'' then Some (0, r)
          else if length s < 6 \<or> s ! 3 \<noteq> CHR '':'' then None
          else case (getnum_in True 0 25 (take 2 r), getnum_in True 0 61 (take 2 (drop 3 r))) of
                 (Some (h, _), Some (m, _)) \<Rightarrow>
                   if c = CHR ''+'' then Some (h * 3600 + m * 60, drop 6 s)
                   else if c = CHR ''-'' then Some (- (h * 3600 + m * 60), drop 6 s) else None
               | _ \<Rightarrow> None)"

definition parse_rfc3339 :: "string \<Rightarrow> time option" where
  "parse_rfc3339 s =
     (case parse_stamp (CHR ''T'') s of None \<Rightarrow> None | Some (secs, s) \<Rightarrow>
      case opt_fraction s of (nanos, s) \<Rightarrow>
      case parse_zone s of None \<Rightarrow> None | Some (off, s) \<Rightarrow>
      if s \<noteq> [] then None else Some (unix_time (secs - off) + nanos))"

definition parse_millis :: "string \<Rightarrow> time option" where
  "parse_millis s =
     (case parse_stamp (CHR '' '') s of None \<Rightarrow> None | Some (secs, s) \<Rightarrow>
      if length s = 4 \<and> comma_or_point (hd s) \<and> list_all is_dec (tl s)
      then Some (unix_time secs + nanos_of (tl s)) else None)"

text \<open>The layout \<open>2006-01-02 15:04:05.000\<close> in UTC, and milliseconds since the epoch.\<close>

definition unix_milli :: "time \<Rightarrow> int" where
  "unix_milli t = t div 1000000"

definition milli_time :: "int \<Rightarrow> time" where
  "milli_time ms = ms * 1000000"

definition format_clock :: "int \<Rightarrow> string" where
  "format_clock sod = pad2 (sod div 3600) @ '':'' @ pad2 (sod div 60 mod 60) @ '':'' @ pad2 (sod mod 60)"

definition format_millis :: "time \<Rightarrow> string" where
  "format_millis t =
     (let s = time_unix t
      in format_date (s div 86400) @ '' '' @ format_clock (s mod 86400) @ ''.''
           @ pad_zero 3 (digits_of (nat (unix_milli t mod 1000))))"

section \<open>Reading back what was formatted\<close>

lemma is_dec_digit [simp]: "(n :: nat) < 10 \<Longrightarrow> is_dec (char_of (48 + n))"
  by (simp add: is_dec_def is_digit_iff)

lemma dec_val_digit [simp]: "(n :: nat) < 10 \<Longrightarrow> dec_val (char_of (48 + n)) = int n"
  by (simp add: dec_val_def)

lemma digits_two: "n < 100 \<Longrightarrow> pad_zero 2 (digits_of n) = [char_of (48 + n div 10), char_of (48 + n mod 10)]"
proof (cases "n < 10")
  case True
  assume "n < 100"
  show ?thesis using True by (simp add: pad_zero_def digits_of.simps [of n] char_of_def bit_0)
next
  case False
  assume "n < 100"
  then have "n div 10 < 10" by simp
  then show ?thesis
    using False by (simp add: pad_zero_def digits_of.simps [of n] digits_of.simps [of "n div 10"])
qed

lemma getnum_pad2: "0 \<le> n \<Longrightarrow> n < 100 \<Longrightarrow> getnum f (pad2 n @ r) = Some (n, r)"
proof -
  assume n: "0 \<le> n" "n < 100"
  then have "nat n < 100" by simp
  then have d: "nat n div 10 < 10" "nat n mod 10 < 10" by simp_all
  have "int (nat n div 10) * 10 + int (nat n mod 10) = n"
    using n div_mult_mod_eq [of "int (nat n)" 10] by (simp only: zdiv_int zmod_int of_nat_numeral int_nat_eq if_True)
  then show ?thesis using d \<open>nat n < 100\<close> by (simp add: pad2_def digits_two)
qed

lemma getnum_in_pad2: "lo \<le> n \<Longrightarrow> n < hi \<Longrightarrow> 0 \<le> lo \<Longrightarrow> hi \<le> 100 \<Longrightarrow> getnum_in f lo hi (pad2 n @ r) = Some (n, r)"
  by (simp add: getnum_in_def getnum_pad2)

lemma parse_leading_zeros: "parse_digits 0 (replicate k (CHR ''0'') @ s) = parse_digits 0 s"
  by (induction k) (simp_all add: is_digit_iff)

lemma pad_zero_read:
  assumes "n < 10 ^ w" "0 < w"
  shows "length (pad_zero w (digits_of n)) = w" "list_all is_dec (pad_zero w (digits_of n))"
    "parse_uint (pad_zero w (digits_of n)) = Some n"
proof -
  have "length (digits_of n) \<le> w" using assms by (rule length_digits_of)
  then show "length (pad_zero w (digits_of n)) = w" by (simp add: pad_zero_def)
  show "list_all is_dec (pad_zero w (digits_of n))"
    using digits_of_digits [of n] by (auto simp: pad_zero_def list_all_iff is_dec_def is_digit_iff)
  show "parse_uint (pad_zero w (digits_of n)) = Some n"
    using parse_digits_digits_of by (simp add: parse_uint_def pad_zero_def parse_leading_zeros)
qed

lemma get_year_format: "0 \<le> y \<Longrightarrow> y \<le> 9999 \<Longrightarrow> get_year (format_year y @ r) = Some (y, r)"
  using pad_zero_read [of "nat y" 4] by (simp add: get_year_def format_year_def)

text \<open>The year of an instant.\<close>

definition year_of :: "time \<Rightarrow> int" where
  "year_of t = fst (civil_of_day (time_unix t div 86400))"

lemma skip_colon: "skip_char (CHR '':'') (CHR '':'' # r) = Some r"
  "skip_char (CHR ''-'') (CHR ''-'' # r) = Some r"
  by simp_all

lemma parse_stamp_format:
  assumes y: "0 \<le> year_of t" "year_of t \<le> 9999"
    and sep: "\<And>r. skip_char sep (sep # pad2 (time_unix t mod 86400 div 3600) @ r) = Some (pad2 (time_unix t mod 86400 div 3600) @ r)"
  shows "parse_stamp sep (format_date (time_unix t div 86400) @ sep # format_clock (time_unix t mod 86400) @ r)
    = Some (time_unix t, r)"
proof -
  let ?s = "time_unix t"
  let ?sod = "?s mod 86400"
  obtain yy m d where c: "civil_of_day (?s div 86400) = (yy, m, d)" by (cases "civil_of_day (?s div 86400)")
  note v = civil_of_day_valid [OF c]
  have yy: "0 \<le> yy" "yy \<le> 9999" using y c by (simp_all add: year_of_def)
  have "d \<le> 31" using v by (auto simp: days_in_month_def split: if_splits)
  then have d: "0 \<le> d" "d < 100" using v by simp_all
  have sod: "0 \<le> ?sod" "?sod < 86400" by simp_all
  have hms: "0 \<le> ?sod div 3600" "?sod div 3600 < 24" "0 \<le> ?sod div 60 mod 60" "?sod div 60 mod 60 < 60"
    "0 \<le> ?sod mod 60" "?sod mod 60 < 60"
    using sod by simp_all
  have "?sod div 3600 * 3600 + ?sod div 60 mod 60 * 60 + ?sod mod 60 = ?sod"
  proof -
    have "?sod div 60 div 60 = ?sod div 3600" by (simp add: zdiv_zmult2_eq [symmetric])
    then have "?sod div 3600 * 60 + ?sod div 60 mod 60 = ?sod div 60" using div_mult_mod_eq [of "?sod div 60" 60] by simp
    moreover have "?sod div 60 * 60 + ?sod mod 60 = ?sod" by (rule div_mult_mod_eq)
    ultimately show ?thesis by linarith
  qed
  moreover have "day_of_civil yy m d * 86400 + ?sod = ?s"
    using day_of_civil_of_day [of "?s div 86400"] c by (simp add: div_mult_mod_eq)
  ultimately have secs: "day_of_civil yy m d * 86400 + ?sod div 3600 * 3600 + ?sod div 60 mod 60 * 60 + ?sod mod 60 = ?s"
    by linarith
  have shape: "format_date (?s div 86400) @ sep # format_clock ?sod @ r
      = format_year yy @ CHR ''-'' # pad2 m @ CHR ''-'' # pad2 d @ sep # pad2 (?sod div 3600) @ CHR '':''
          # pad2 (?sod div 60 mod 60) @ CHR '':'' # pad2 (?sod mod 60) @ r"
    by (simp add: format_date_def format_clock_def c)
  have m: "1 \<le> m" "m < 13" "1 \<le> d" "d \<le> days_in_month yy m" using v by simp_all
  show ?thesis
    unfolding shape parse_stamp_def get_year_format [OF yy] expect_def option.case prod.case skip_colon
      getnum_in_pad2 [OF m(1,2), simplified] getnum_pad2 [OF d] sep
      getnum_in_pad2 [OF hms(1,2), simplified] getnum_in_pad2 [OF hms(3,4), simplified] getnum_in_pad2 [OF hms(5,6), simplified]
    using m secs by simp
qed

theorem parse_format_rfc3339:
  assumes "0 \<le> year_of t" "year_of t \<le> 9999"
  shows "parse_rfc3339 (format_rfc3339 t) = Some (unix_time (time_unix t))"
proof -
  have "format_rfc3339 t = format_date (time_unix t div 86400) @ CHR ''T'' # format_clock (time_unix t mod 86400) @ ''Z''"
    by (simp add: format_rfc3339_def format_clock_def Let_def)
  moreover have "parse_stamp (CHR ''T'') \<dots> = Some (time_unix t, ''Z'')"
    by (rule parse_stamp_format [OF assms]) simp
  ultimately show ?thesis by (simp add: parse_rfc3339_def opt_fraction_def parse_zone_def)
qed

lemma milli_split: "unix_time (time_unix t) + unix_milli t mod 1000 * 1000000 = milli_time (unix_milli t)"
proof -
  have "time_unix t = unix_milli t div 1000"
    by (simp add: time_unix_def unix_milli_def second_def zdiv_zmult2_eq [symmetric])
  moreover have "unix_milli t div 1000 * 1000 + unix_milli t mod 1000 = unix_milli t" by (rule div_mult_mod_eq)
  ultimately show ?thesis unfolding unix_time_def milli_time_def second_def by linarith
qed

lemma skip_blank_hour:
  "skip_char (CHR '' '') (CHR '' '' # pad2 (time_unix t mod 86400 div 3600) @ r) = Some (pad2 (time_unix t mod 86400 div 3600) @ r)"
proof -
  let ?h = "time_unix t mod 86400 div 3600"
  have "0 \<le> time_unix t mod 86400" "time_unix t mod 86400 < 86400" by simp_all
  then have h: "nat ?h < 100" by simp
  then have "pad2 ?h = [char_of (48 + nat ?h div 10), char_of (48 + nat ?h mod 10)]"
    unfolding pad2_def by (rule digits_two)
  moreover have "char_of (48 + nat ?h div 10) \<noteq> CHR '' ''"
  proof
    assume e: "char_of (48 + nat ?h div 10) = CHR '' ''"
    have "byte (char_of (48 + nat ?h div 10)) = 48 + nat ?h div 10" using h by (intro byte_digit) simp
    then show False unfolding e by simp
  qed
  ultimately show ?thesis by auto
qed

theorem parse_format_millis:
  assumes "0 \<le> year_of t" "year_of t \<le> 9999"
  shows "parse_millis (format_millis t) = Some (milli_time (unix_milli t))"
proof -
  let ?f = "pad_zero 3 (digits_of (nat (unix_milli t mod 1000)))"
  have shape: "format_millis t = format_date (time_unix t div 86400) @ CHR '' '' # format_clock (time_unix t mod 86400) @ CHR ''.'' # ?f"
    by (simp add: format_millis_def Let_def)
  have "parse_stamp (CHR '' '') \<dots> = Some (time_unix t, CHR ''.'' # ?f)"
    by (rule parse_stamp_format [OF assms skip_blank_hour])
  moreover have "nat (unix_milli t mod 1000) < 10 ^ 3" by (simp add: nat_less_iff)
  note f = pad_zero_read [OF this, simplified]
  have "nanos_of ?f = unix_milli t mod 1000 * 1000000" using f by (simp add: nanos_of_def Let_def)
  ultimately show ?thesis
    using f by (simp add: shape parse_millis_def comma_or_point_def milli_split)
qed

end
