(* ===== verification/Eventline.thy ===== *)
theory Eventline
  imports Go_Json_Codec Go_Clock Biz_Context
begin

text \<open>
  The wire names of an outcome event, \<open>biz/semconv.go\<close>, and the decoder of one logged line,
  \<open>eventline/eventline.go\<close>: every rejection of the code is an error of its own, and an amount is read as the
  integer it is or not at all.
\<close>

section \<open>The wire contract\<close>

definition event_key_name :: string where "event_key_name = ''event''"
definition event_outcome :: string where "event_outcome = ''biz.outcome''"
definition attr_flow :: string where "attr_flow = ''biz.flow''"
definition attr_stage :: string where "attr_stage = ''biz.stage''"
definition attr_outcome :: string where "attr_outcome = ''biz.outcome''"
definition attr_entity :: string where "attr_entity = ''biz.entity.id''"
definition attr_customer :: string where "attr_customer = ''biz.customer.id''"
definition attr_segment :: string where "attr_segment = ''biz.segment''"
definition attr_amount :: string where "attr_amount = ''biz.amount.minor''"
definition attr_currency :: string where "attr_currency = ''biz.amount.currency''"
definition attr_exponent :: string where "attr_exponent = ''biz.amount.exponent''"
definition attr_kind :: string where "attr_kind = ''biz.value.kind''"
definition attr_estimated :: string where "attr_estimated = ''biz.amount.estimated''"
definition attr_deadline :: string where "attr_deadline = ''biz.sla.deadline''"
definition attr_source :: string where "attr_source = ''source''"
definition attr_error :: string where "attr_error = ''error''"
definition attr_trace :: string where "attr_trace = ''trace.id''"
definition source_system :: string where "source_system = ''source_system''"

lemmas semconv_defs = event_key_name_def event_outcome_def attr_flow_def attr_stage_def attr_outcome_def attr_entity_def
  attr_customer_def attr_segment_def attr_amount_def attr_currency_def attr_exponent_def attr_kind_def
  attr_estimated_def attr_deadline_def attr_source_def attr_error_def attr_trace_def source_system_def

section \<open>The line\<close>

record line =
  LineFlow :: string
  LineStage :: string
  LineOutcome :: string
  LineEntity :: string
  LineCustomer :: string
  LineAmount :: "json option"
  LineCurrency :: string
  LineExponent :: int
  LineKind :: string
  LineEstimated :: bool
  LineSegment :: string
  LineDeadline :: string
  LineSource :: string
  LineSourceSys :: string
  LineErr :: string
  LineTrace :: string

definition line_strings :: "string list" where
  "line_strings = [attr_flow, attr_stage, attr_outcome, attr_entity, attr_customer, attr_currency, attr_kind,
     attr_segment, attr_deadline, attr_source, source_system, attr_error, attr_trace]"

definition line_tags :: "string list" where
  "line_tags = line_strings @ [attr_amount, attr_exponent, attr_estimated]"

definition line_of_values ::
    "(string \<Rightarrow> string option) \<Rightarrow> json option option \<Rightarrow> int option \<Rightarrow> bool option \<Rightarrow> line option" where
  "line_of_values s amount expo est =
     (if list_ex (\<lambda>t. s t = None) line_strings then None
      else case (amount, expo, est) of
        (Some a, Some e, Some b) \<Rightarrow>
          Some \<lparr>LineFlow = the (s attr_flow), LineStage = the (s attr_stage), LineOutcome = the (s attr_outcome),
            LineEntity = the (s attr_entity), LineCustomer = the (s attr_customer), LineAmount = a,
            LineCurrency = the (s attr_currency), LineExponent = e, LineKind = the (s attr_kind), LineEstimated = b,
            LineSegment = the (s attr_segment), LineDeadline = the (s attr_deadline), LineSource = the (s attr_source),
            LineSourceSys = the (s source_system), LineErr = the (s attr_error), LineTrace = the (s attr_trace)\<rparr>
      | _ \<Rightarrow> None)"

text \<open>\<open>json.Unmarshal\<close> of a value into a \<open>line\<close>.\<close>

definition decode_line :: "json \<Rightarrow> line option" where
  "decode_line v =
     (case struct_members v of
        None \<Rightarrow> None
      | Some ms \<Rightarrow>
          line_of_values (\<lambda>t. take_values into_string (values_for line_tags t ms) [])
            (take_values into_raw (values_for line_tags attr_amount ms) None)
            (take_values (into_int 8) (values_for line_tags attr_exponent ms) 0)
            (take_values into_bool (values_for line_tags attr_estimated ms) False))"

section \<open>Parse\<close>

datatype line_error =
    NotJson
  | NotOutcomeLine
  | BadResult string
  | NoAmount
  | AmountNotNumber
  | AmountNotInt64 string
  | BadDeadline string

definition line_amount :: "json \<Rightarrow> line_error + i64" where
  "line_amount raw =
     (case into_number raw [] of
        None \<Rightarrow> Inl AmountNotNumber
      | Some n \<Rightarrow> (case parse_int 64 n of None \<Rightarrow> Inl (AmountNotInt64 n) | Some v \<Rightarrow> Inr (word_of_int v)))"

definition line_deadline :: "string \<Rightarrow> line_error + time" where
  "line_deadline s =
     (if s = [] then Inr zero_time
      else case parse_rfc3339 s of None \<Rightarrow> Inl (BadDeadline s) | Some d \<Rightarrow> Inr d)"

definition line_outcome :: "line \<Rightarrow> i64 \<Rightarrow> time \<Rightarrow> time \<Rightarrow> outcome" where
  "line_outcome l amount deadline t =
     \<lparr>At = t,
      VC = \<lparr>Flow = LineFlow l, EntityID = LineEntity l, CustomerID = LineCustomer l, Segment = LineSegment l,
            Money = \<lparr>Amount = amount, Currency = LineCurrency l, Exponent = word_of_int (LineExponent l)\<rparr>,
            Kind = LineKind l, Estimated = LineEstimated l, Deadline = deadline\<rparr>,
      Stage = LineStage l, Result = LineOutcome l,
      Source = (if LineSource l = [] then LineSourceSys l else LineSource l),
      TraceID = LineTrace l, Err = LineErr l\<rparr>"

definition parse_line :: "string \<Rightarrow> time \<Rightarrow> line_error + outcome" where
  "parse_line raw t =
     (case Option.bind (parse_json raw) decode_line of
        None \<Rightarrow> Inl NotJson
      | Some l \<Rightarrow>
          if LineFlow l = [] \<or> LineOutcome l = [] then Inl NotOutcomeLine
          else if \<not> result_valid (LineOutcome l) then Inl (BadResult (LineOutcome l))
          else case LineAmount l of
            None \<Rightarrow> Inl NoAmount
          | Some v \<Rightarrow>
              (case line_amount v of
                 Inl e \<Rightarrow> Inl e
               | Inr amount \<Rightarrow>
                   (case line_deadline (LineDeadline l) of
                      Inl e \<Rightarrow> Inl e
                    | Inr deadline \<Rightarrow> Inr (line_outcome l amount deadline t))))"

section \<open>Properties\<close>

lemma line_amount_exact:
  "line_amount v = Inr a \<Longrightarrow> \<exists>n. (v = JNum n \<or> v = JStr n \<and> is_valid_number n) \<and> parse_int 64 n = Some (sint a)"
proof -
  assume a: "line_amount v = Inr a"
  then obtain n k where n: "into_number v [] = Some n" "parse_int 64 n = Some k" "a = word_of_int k"
    by (auto simp: line_amount_def split: option.splits)
  have "sint (word_of_int k :: i64) = k"
    using parse_int_range [OF n(2)] by (intro sint_of_int_i64) (simp add: in_i64_def)
  moreover have "v \<noteq> JNull" using n(1,2) by (auto simp: parse_int_def)
  ultimately show ?thesis using n by (cases v) (auto split: if_splits)
qed

text \<open>C15: a logged line becomes an outcome only if it is a JSON object of the declared field types, marked with a
  flow and a declared result, and its amount is written as an integer of 64 bits, which is then the outcome's
  amount to the unit: a fraction, an exponent, a null, an overflow or a missing amount is an error, never a
  rounded or zero amount.\<close>

theorem parse_line_exact:
  assumes "parse_line raw t = Inr o'"
  shows "\<exists>l v n. Option.bind (parse_json raw) decode_line = Some l \<and> LineAmount l = Some v
    \<and> (v = JNum n \<or> v = JStr n \<and> is_valid_number n) \<and> parse_int 64 n = Some (sint (Amount (Money (VC o'))))
    \<and> Flow (VC o') = LineFlow l \<and> LineFlow l \<noteq> [] \<and> Result o' = LineOutcome l \<and> result_valid (LineOutcome l) \<and> At o' = t"
proof -
  obtain l where l: "Option.bind (parse_json raw) decode_line = Some l"
    using assms by (auto simp: parse_line_def split: option.splits)
  have checks: "LineFlow l \<noteq> []" "result_valid (LineOutcome l)"
    using assms l by (auto simp: parse_line_def split: if_splits)
  obtain v where v: "LineAmount l = Some v"
    using assms l by (auto simp: parse_line_def split: if_splits option.splits)
  obtain a d where a: "line_amount v = Inr a" "o' = line_outcome l a d t"
    using assms l v by (auto simp: parse_line_def split: if_splits sum.splits)
  show ?thesis using l checks v line_amount_exact [OF a(1)] a(2) by (auto simp: line_outcome_def)
qed

definition demo_line :: "string \<Rightarrow> string" where
  "demo_line amount = render_json (JObj [(attr_flow, JStr ''checkout''), (attr_outcome, JStr ''failed''), (attr_amount, JNum amount)])"

theorem parse_line_exact_witness:
  "\<exists>o'. parse_line (demo_line ''4200'') 7 = Inr o' \<and> sint (Amount (Money (VC o'))) = 4200
     \<and> parse_line (demo_line ''42.5'') 7 = Inl (AmountNotInt64 ''42.5'')
     \<and> parse_line (demo_line ''9223372036854775808'') 7 = Inl (AmountNotInt64 ''9223372036854775808'')"
proof -
  have e: "map_sum id (\<lambda>o'. sint (Amount (Money (VC o')))) (parse_line (demo_line ''4200'') 7) = Inr 4200" by code_simp
  then obtain o' where o': "parse_line (demo_line ''4200'') 7 = Inr o'" by (cases "parse_line (demo_line ''4200'') 7") auto
  have "parse_line (demo_line ''42.5'') 7 = Inl (AmountNotInt64 ''42.5'')"
    "parse_line (demo_line ''9223372036854775808'') 7 = Inl (AmountNotInt64 ''9223372036854775808'')" by code_simp+
  then show ?thesis using o' e parse_line_exact [OF o'] by auto
qed

end
