(* ===== verification/Cloudwatch.thy ===== *)
theory Cloudwatch
  imports Eventline Emit
begin

text \<open>
  The CloudWatch exporter, \<open>adapters/export/cloudwatch/\<close>: the records it renders, the buffered writer it
  writes them through, and the direct metric path. The underlying writer and the metric API are parameters: a
  writer that takes less than it was given says so with an error, as \<open>io.Writer\<close> requires.
\<close>

section \<open>Records\<close>

definition default_namespace :: string where "default_namespace = ''shortfall''"

definition value_dims :: "string list" where
  "value_dims = [''flow'', ''stage'', ''outcome'', ''currency'', ''kind'', ''segment'']"
definition txn_dims :: "string list" where
  "txn_dims = [''flow'', ''stage'', ''outcome'', ''currency'', ''segment'']"
definition inflight_dims :: "string list" where
  "inflight_dims = [''flow'', ''stage'', ''age_bucket'', ''currency'']"
definition provider_dims :: "string list" where
  "provider_dims = [''provider'', ''op'', ''outcome'']"
definition dropped_dims :: "string list" where
  "dropped_dims = [''reason'']"

lemmas dims_defs = value_dims_def txn_dims_def inflight_dims_def provider_dims_def dropped_dims_def

definition dims_for :: "string \<Rightarrow> string list option" where
  "dims_for n =
     (if n = ''biz_value_total'' then Some value_dims
      else if n = ''biz_txn_total'' then Some txn_dims
      else if n = ''biz_inflight_value'' \<or> n = ''biz_inflight_count'' then Some inflight_dims
      else if n = ''biz_provider_calls_total'' then Some provider_dims
      else if n = ''biz_dropped_events_total'' then Some dropped_dims
      else None)"

text \<open>\<open>Time.UnixMilli\<close>, an \<open>int64\<close>.\<close>

definition unix_milli_i64 :: "time \<Rightarrow> i64" where
  "unix_milli_i64 t = word_of_int (unix_milli t)"

definition emf_meta :: "time \<Rightarrow> string \<Rightarrow> string list \<Rightarrow> string \<Rightarrow> string \<Rightarrow> json" where
  "emf_meta t namespace dims name unit =
     JObj [(''Timestamp'', json_int (sint (unix_milli_i64 t))),
       (''CloudWatchMetrics'', JArr [JObj
          [(''Namespace'', JStr namespace), (''Dimensions'', JArr [JArr (map JStr dims)]),
           (''Metrics'', JArr [JObj ((''Name'', JStr name) # (if unit = [] then [] else [(''Unit'', JStr unit)]))])]])]"

datatype cw_error = CwShutdown | UnknownFamily string | WriteError string | PutError string | FlushError string

definition build_metric_record :: "string \<Rightarrow> string \<Rightarrow> metric_point \<Rightarrow> cw_error + string" where
  "build_metric_record namespace unit p =
     (case dims_for (PName p) of
        None \<Rightarrow> Inl (UnknownFamily (PName p))
      | Some dims \<Rightarrow>
          let r = map_lit [(''_aws'', emf_meta (PAt p) namespace dims (PName p) unit), (PName p, json_int (sint (PValue p)))]
          in Inr (render_json (json_map (fold (\<lambda>d. map_put d (JStr (map_get [] (PLabels p) d))) dims r))))"

definition put_if :: "bool \<Rightarrow> 'k \<Rightarrow> 'v \<Rightarrow> ('k, 'v) gomap \<Rightarrow> ('k, 'v) gomap" where
  "put_if c k v m = (if c then map_put k v m else m)"

definition event_fields :: "outcome \<Rightarrow> (string \<times> json) list" where
  "event_fields o' =
     (let vc = VC o' in
      [(''_aws'', json_map (map_lit [(''Timestamp'', json_int (sint (unix_milli_i64 (At o'))))])),
       (event_key_name, JStr event_outcome), (attr_flow, JStr (Flow vc)), (attr_stage, JStr (Stage o')),
       (attr_outcome, JStr (Result o')), (attr_entity, JStr (EntityID vc)), (attr_customer, JStr (CustomerID vc)),
       (attr_amount, json_int (sint (Amount (Money vc)))), (attr_currency, JStr (Currency (Money vc))),
       (attr_exponent, json_int (sint (Exponent (Money vc)))), (attr_kind, JStr (Kind vc)),
       (attr_estimated, JBool (Estimated vc))])"

definition event_record :: "outcome \<Rightarrow> (string, json) gomap" where
  "event_record o' =
     (let vc = VC o';
          r = map_lit (event_fields o');
          r = put_if (Segment vc \<noteq> []) attr_segment (JStr (Segment vc)) r;
          r = put_if (\<not> is_zero_time (Deadline vc)) attr_deadline (JStr (format_rfc3339 (Deadline vc))) r;
          r = put_if (Source o' \<noteq> []) attr_source (JStr (Source o')) r;
          r = put_if (Err o' \<noteq> []) attr_error (JStr (Err o')) r
      in put_if (TraceID o' \<noteq> []) attr_trace (JStr (TraceID o')) r)"

definition build_event_record :: "outcome \<Rightarrow> string" where
  "build_event_record o' = render_json (json_map (event_record o'))"

section \<open>The buffered writer\<close>

text \<open>\<open>bufio.Writer\<close> with its buffer of 4096 bytes and its sticky error. The sink takes all it is given, or says
  how much it took and why.\<close>

type_synonym 'w sink_write = "'w \<Rightarrow> string \<Rightarrow> 'w \<times> (nat \<times> string) option"

record 'w bufio =
  BufData :: string
  BufErr :: "string option"
  BufSink :: 'w

definition buf_size :: nat where "buf_size = 4096"

definition bufio_new :: "'w \<Rightarrow> 'w bufio" where
  "bufio_new w = \<lparr>BufData = [], BufErr = None, BufSink = w\<rparr>"

definition bufio_flush :: "'w sink_write \<Rightarrow> 'w bufio \<Rightarrow> 'w bufio" where
  "bufio_flush wr b =
     (if BufErr b \<noteq> None \<or> BufData b = [] then b
      else case wr (BufSink b) (BufData b) of
             (w, None) \<Rightarrow> b\<lparr>BufData := [], BufSink := w\<rparr>
           | (w, Some (n, e)) \<Rightarrow> b\<lparr>BufData := drop n (BufData b), BufErr := Some e, BufSink := w\<rparr>)"

text \<open>A write that finds an empty buffer and does not fit goes to the sink directly.\<close>

definition write_rest :: "'w sink_write \<Rightarrow> string \<Rightarrow> 'w bufio \<Rightarrow> 'w bufio" where
  "write_rest wr p b =
     (if BufErr b \<noteq> None then b
      else if length (BufData b @ p) \<le> buf_size then b\<lparr>BufData := BufData b @ p\<rparr>
      else case wr (BufSink b) p of
             (w, None) \<Rightarrow> b\<lparr>BufSink := w\<rparr>
           | (w, Some (n, e)) \<Rightarrow> b\<lparr>BufErr := Some e, BufSink := w\<rparr>)"

definition bufio_write :: "'w sink_write \<Rightarrow> string \<Rightarrow> 'w bufio \<Rightarrow> 'w bufio" where
  "bufio_write wr p b =
     (if BufErr b \<noteq> None \<or> BufData b = [] \<or> length (BufData b @ p) \<le> buf_size then write_rest wr p b
      else let n = buf_size - length (BufData b)
           in write_rest wr (drop n p) (bufio_flush wr (b\<lparr>BufData := BufData b @ take n p\<rparr>)))"

definition bufio_write_byte :: "'w sink_write \<Rightarrow> char \<Rightarrow> 'w bufio \<Rightarrow> 'w bufio" where
  "bufio_write_byte wr c b =
     (if BufErr b \<noteq> None then b
      else let b = (if buf_size \<le> length (BufData b) then bufio_flush wr b else b)
           in if BufErr b \<noteq> None then b else b\<lparr>BufData := BufData b @ [c]\<rparr>)"

section \<open>The exporter\<close>

record datum =
  DatumName :: string
  DatumValue :: f64
  DatumTime :: time
  DatumDims :: "(string \<times> string) list"

type_synonym put_call = "string \<times> datum list"

text \<open>The metric API answers a call from all the calls it has had.\<close>

record 'w cw_exporter =
  CwNamespace :: string
  CwUnit :: string
  CwBuf :: "'w bufio"
  CwClosed :: bool
  CwPutter :: "(put_call list \<Rightarrow> string option) option"
  CwPuts :: "put_call list"

record 'w cw_options =
  OptNamespace :: string
  OptUnit :: string
  OptWriter :: 'w
  OptPutter :: "(put_call list \<Rightarrow> string option) option"

definition with_writer :: "'w \<Rightarrow> 'w cw_options \<Rightarrow> 'w cw_options" where
  "with_writer w o' = o'\<lparr>OptWriter := w\<rparr>"
definition with_namespace :: "string \<Rightarrow> 'w cw_options \<Rightarrow> 'w cw_options" where
  "with_namespace ns o' = o'\<lparr>OptNamespace := ns\<rparr>"
definition with_unit :: "string \<Rightarrow> 'w cw_options \<Rightarrow> 'w cw_options" where
  "with_unit u o' = o'\<lparr>OptUnit := u\<rparr>"
definition with_metric_putter :: "(put_call list \<Rightarrow> string option) \<Rightarrow> 'w cw_options \<Rightarrow> 'w cw_options" where
  "with_metric_putter p o' = o'\<lparr>OptPutter := Some p\<rparr>"

definition new_cloudwatch :: "'w \<Rightarrow> ('w cw_options \<Rightarrow> 'w cw_options) list \<Rightarrow> 'w cw_exporter" where
  "new_cloudwatch stdout opts =
     (let o' = fold (\<lambda>f o'. f o') opts
            \<lparr>OptNamespace = default_namespace, OptUnit = ''None'', OptWriter = stdout, OptPutter = None\<rparr>
      in \<lparr>CwNamespace = (if OptNamespace o' = [] then default_namespace else OptNamespace o'),
          CwUnit = (if OptUnit o' = [] then ''None'' else OptUnit o'),
          CwBuf = bufio_new (OptWriter o'), CwClosed = False, CwPutter = OptPutter o', CwPuts = []\<rparr>)"

definition write_line :: "'w sink_write \<Rightarrow> string \<Rightarrow> 'w cw_exporter \<Rightarrow> cw_error option \<times> 'w cw_exporter" where
  "write_line wr record e =
     (let b = bufio_write wr record (CwBuf e) in
      case BufErr b of
        Some x \<Rightarrow> (Some (WriteError x), e\<lparr>CwBuf := b\<rparr>)
      | None \<Rightarrow>
          (let b = bufio_write_byte wr (char_of (10 :: nat)) b
           in (map_option WriteError (BufErr b), e\<lparr>CwBuf := b\<rparr>)))"

text \<open>The loops over a batch stop at the first error.\<close>

fun write_records :: "'w sink_write \<Rightarrow> ('a \<Rightarrow> cw_error + string) \<Rightarrow> 'a list \<Rightarrow> 'w cw_exporter
    \<Rightarrow> cw_error option \<times> 'w cw_exporter" where
  "write_records wr build [] e = (None, e)"
| "write_records wr build (x # xs) e =
     (case build x of
        Inl err \<Rightarrow> (Some err, e)
      | Inr record \<Rightarrow>
          (case write_line wr record e of
             (Some err, e') \<Rightarrow> (Some err, e')
           | (None, e') \<Rightarrow> write_records wr build xs e'))"

definition write_metric_records :: "'w sink_write \<Rightarrow> metric_point list \<Rightarrow> 'w cw_exporter
    \<Rightarrow> cw_error option \<times> 'w cw_exporter" where
  "write_metric_records wr batch e =
     (if CwClosed e then (Some CwShutdown, e)
      else write_records wr (build_metric_record (CwNamespace e) (CwUnit e)) batch e)"

fun datums :: "metric_point list \<Rightarrow> cw_error + datum list" where
  "datums [] = Inr []"
| "datums (p # ps) =
     (case dims_for (PName p) of
        None \<Rightarrow> Inl (UnknownFamily (PName p))
      | Some dims \<Rightarrow>
          (case datums ps of
             Inl err \<Rightarrow> Inl err
           | Inr ds \<Rightarrow>
               Inr (\<lparr>DatumName = PName p, DatumValue = of_i64 (PValue p), DatumTime = PAt p,
                     DatumDims = map (\<lambda>d. (d, map_get [] (PLabels p) d)) dims\<rparr> # ds)))"

definition max_datums :: nat where "max_datums = 1000"

function put_chunks :: "(put_call list \<Rightarrow> string option) \<Rightarrow> datum list \<Rightarrow> 'w cw_exporter
    \<Rightarrow> cw_error option \<times> 'w cw_exporter" where
  "put_chunks put ds e =
     (if ds = [] then (None, e)
      else let calls = CwPuts e @ [(CwNamespace e, take max_datums ds)];
               e' = e\<lparr>CwPuts := calls\<rparr>
           in case put calls of
                Some x \<Rightarrow> (Some (PutError x), e')
              | None \<Rightarrow> put_chunks put (drop max_datums ds) e')"
  by pat_completeness auto
termination by (relation "measure (\<lambda>(_, ds, _). length ds)") (auto simp: max_datums_def)

declare put_chunks.simps [simp del]

definition put_metric_data :: "(put_call list \<Rightarrow> string option) \<Rightarrow> metric_point list \<Rightarrow> 'w cw_exporter
    \<Rightarrow> cw_error option \<times> 'w cw_exporter" where
  "put_metric_data put batch e =
     (case datums batch of Inl err \<Rightarrow> (Some err, e) | Inr ds \<Rightarrow> put_chunks put ds e)"

definition cw_export_metrics :: "'w sink_write \<Rightarrow> metric_point list \<Rightarrow> 'w cw_exporter
    \<Rightarrow> cw_error option \<times> 'w cw_exporter" where
  "cw_export_metrics wr batch e =
     (if batch = [] then (None, e)
      else case CwPutter e of
             Some put \<Rightarrow> if CwClosed e then (Some CwShutdown, e) else put_metric_data put batch e
           | None \<Rightarrow> write_metric_records wr batch e)"

definition cw_export_events :: "'w sink_write \<Rightarrow> outcome list \<Rightarrow> 'w cw_exporter
    \<Rightarrow> cw_error option \<times> 'w cw_exporter" where
  "cw_export_events wr batch e =
     (if batch = [] then (None, e)
      else if CwClosed e then (Some CwShutdown, e)
      else write_records wr (\<lambda>o'. Inr (build_event_record o')) batch e)"

definition cw_shutdown :: "'w sink_write \<Rightarrow> 'w cw_exporter \<Rightarrow> cw_error option \<times> 'w cw_exporter" where
  "cw_shutdown wr e =
     (let b = bufio_flush wr (CwBuf e)
      in (map_option FlushError (BufErr b), e\<lparr>CwClosed := True, CwBuf := b\<rparr>))"

end
