(* ===== verification/Cwinsights.thy ===== *)
theory Cwinsights
  imports Eventline Memq
begin

text \<open>
  The CloudWatch Logs Insights querier, \<open>adapters/query/cwinsights/\<close>: the signed calls, the polling loop, the
  rows it keeps and their aggregation by the in-memory backend. The HTTP client, the clock, the context and the
  hash functions are parameters.
\<close>

section \<open>Signed calls\<close>

record credentials =
  AccessKey :: string
  SecretKey :: string

record http_request =
  ReqMethod :: string
  ReqHost :: string
  UrlHost :: string
  UrlPath :: string
  UrlQuery :: string
  ReqHeaders :: "(string, string) gomap"
  ReqBody :: string

text \<open>\<open>sha256.Sum256\<close> and \<open>hmac.New(sha256.New, key)\<close>.\<close>

record hashes =
  sha256 :: "string \<Rightarrow> string"
  hmac_sha256 :: "string \<Rightarrow> string \<Rightarrow> string"

definition hex_encode :: "string \<Rightarrow> string" where
  "hex_encode s = concat (map (\<lambda>c. [hex_digit (byte c div 16), hex_digit (byte c mod 16)]) s)"

definition sha256_hex :: "hashes \<Rightarrow> string \<Rightarrow> string" where
  "sha256_hex h b = hex_encode (sha256 h b)"

text \<open>The layouts \<open>20060102\<close> and \<open>20060102T150405Z\<close>.\<close>

definition date_stamp :: "time \<Rightarrow> string" where
  "date_stamp t = (case civil_of_day (time_unix t div 86400) of (y, m, d) \<Rightarrow> format_year y @ pad2 m @ pad2 d)"

definition amz_date :: "time \<Rightarrow> string" where
  "amz_date t =
     (let sod = time_unix t mod 86400
      in date_stamp t @ ''T'' @ pad2 (sod div 3600) @ pad2 (sod div 60 mod 60) @ pad2 (sod mod 60) @ ''Z'')"

definition newline :: string where "newline = [char_of (10 :: nat)]"

definition signed_headers :: "http_request \<Rightarrow> string \<Rightarrow> (string, string) gomap" where
  "signed_headers req amz =
     (let hs = map_put ''x-amz-date'' amz (map_put ''host'' (ReqHost req) []);
          ct = map_get [] (ReqHeaders req) ''Content-Type'';
          hs = (if ct \<noteq> [] then map_put ''content-type'' ct hs else hs);
          tg = map_get [] (ReqHeaders req) ''X-Amz-Target'';
          hs = (if tg \<noteq> [] then map_put ''x-amz-target'' tg hs else hs)
      in if map_get [] hs ''host'' = [] then map_put ''host'' (UrlHost req) hs else hs)"

definition canonical_request :: "hashes \<Rightarrow> http_request \<Rightarrow> string \<Rightarrow> string \<Rightarrow> string" where
  "canonical_request h req body amz =
     (let hs = signed_headers req amz; names = sorted_keys hs
      in join_str newline
           [ReqMethod req, (if UrlPath req = [] then ''/'' else UrlPath req), UrlQuery req,
            concat (map (\<lambda>k. k @ '':'' @ trim_space (map_get [] hs k) @ newline) names),
            join_str '';'' names, sha256_hex h body])"

definition sign_v4_svc :: "hashes \<Rightarrow> http_request \<Rightarrow> string \<Rightarrow> credentials \<Rightarrow> string \<Rightarrow> string \<Rightarrow> time \<Rightarrow> http_request" where
  "sign_v4_svc h req body creds region service t =
     (let amz = amz_date t; stamp = date_stamp t;
          req = req\<lparr>ReqHeaders := map_put ''X-Amz-Date'' amz (ReqHeaders req)\<rparr>;
          scope = join_str ''/'' [stamp, region, service, ''aws4_request''];
          to_sign = join_str newline [''AWS4-HMAC-SHA256'', amz, scope, sha256_hex h (canonical_request h req body amz)];
          key = hmac_sha256 h (hmac_sha256 h (hmac_sha256 h (hmac_sha256 h (''AWS4'' @ SecretKey creds) stamp) region) service)
                  ''aws4_request'';
          auth = join_str '', ''
            [''AWS4-HMAC-SHA256 Credential='' @ AccessKey creds @ ''/'' @ scope,
             ''SignedHeaders='' @ join_str '';'' (sorted_keys (signed_headers req amz)),
             ''Signature='' @ hex_encode (hmac_sha256 h key to_sign)]
      in req\<lparr>ReqHeaders := map_put ''Authorization'' auth (ReqHeaders req)\<rparr>)"

definition sign_v4 :: "hashes \<Rightarrow> http_request \<Rightarrow> string \<Rightarrow> credentials \<Rightarrow> string \<Rightarrow> time \<Rightarrow> http_request" where
  "sign_v4 h req body creds region t = sign_v4_svc h req body creds region ''logs'' t"

section \<open>The querier\<close>

text \<open>The outside world: \<open>net/url\<close> on the endpoint, the HTTP client's answer to the \<open>n\<close>th request of a query
  (a status and the body, or an error of the exchange), the clock, and the context's error once it is done.\<close>

record outside =
  parse_url :: "string \<Rightarrow> string + string \<times> string \<times> string"
  http_do :: "nat \<Rightarrow> http_request \<Rightarrow> string + int \<times> (string + string)"
  clock_at :: "nat \<Rightarrow> time"
  ctx_done :: "nat \<Rightarrow> string option"
  crypto :: hashes

record cw_querier =
  CqEndpoint :: string
  CqRegion :: string
  CqLogGroup :: string
  CqCreds :: credentials
  CqPoll :: duration

definition new_cwinsights ::
    "string \<Rightarrow> string \<Rightarrow> string \<Rightarrow> string \<Rightarrow> (cw_querier \<Rightarrow> cw_querier) list \<Rightarrow> cw_querier" where
  "new_cwinsights region log_group access secret opts =
     fold (\<lambda>f q. f q) opts
       \<lparr>CqEndpoint = ''https://logs.'' @ region @ ''.amazonaws.com'', CqRegion = region, CqLogGroup = log_group,
        CqCreds = \<lparr>AccessKey = access, SecretKey = secret\<rparr>, CqPoll = 250000000\<rparr>"

definition with_endpoint :: "string \<Rightarrow> cw_querier \<Rightarrow> cw_querier" where
  "with_endpoint u q = q\<lparr>CqEndpoint := rev (dropWhile ((=) (CHR ''/'')) (rev u))\<rparr>"

definition with_poll_interval :: "duration \<Rightarrow> cw_querier \<Rightarrow> cw_querier" where
  "with_poll_interval d q = q\<lparr>CqPoll := d\<rparr>"

definition cwinsights_caps :: caps where
  "cwinsights_caps = \<lparr>CMetrics = False, CEvents = True, CMetricWeeks = 0, CEventWeeks = 0\<rparr>"

datatype cwi_error =
    RequestError string
  | CallError string string
  | ReadError string string
  | StatusError string int string
  | NoQueryId string
  | BadResults
  | Truncated
  | CtxDone string
  | QueryStatus string
  | BadMessage
  | BadTimestamp json
  | LineRejected line_error
  | Aggregate query_error

definition cwi_call :: "cw_querier \<Rightarrow> outside \<Rightarrow> nat \<Rightarrow> string \<Rightarrow> json \<Rightarrow> cwi_error + string" where
  "cwi_call q w n action body =
     (let raw = render_json body in
      case parse_url w (CqEndpoint q @ ''/'') of
        Inl e \<Rightarrow> Inl (RequestError e)
      | Inr (host, path, qs) \<Rightarrow>
          (let req = \<lparr>ReqMethod = ''POST'', ReqHost = host, UrlHost = host, UrlPath = path, UrlQuery = qs,
                 ReqHeaders = map_put ''X-Amz-Target'' (''Logs_20140328.'' @ action)
                   (map_put ''Content-Type'' ''application/x-amz-json-1.1'' []),
                 ReqBody = raw\<rparr>
           in case http_do w n (sign_v4 (crypto w) req raw (CqCreds q) (CqRegion q) (clock_at w n)) of
                Inl e \<Rightarrow> Inl (CallError action e)
              | Inr (_, Inl e) \<Rightarrow> Inl (ReadError action e)
              | Inr (status, Inr out) \<Rightarrow> if status \<noteq> 200 then Inl (StatusError action status out) else Inr out))"

section \<open>Rows\<close>

record insights_column =
  ColField :: string
  ColValue :: "json option"

definition into_column :: "json \<Rightarrow> insights_column \<Rightarrow> insights_column option" where
  "into_column v c =
     (case struct_members v of
        None \<Rightarrow> None
      | Some ms \<Rightarrow>
          (let tags = [''field'', ''value''] in
           case (take_values into_string (values_for tags ''field'' ms) (ColField c),
                 take_values into_raw (values_for tags ''value'' ms) (ColValue c)) of
             (Some f, Some r) \<Rightarrow> Some \<lparr>ColField = f, ColValue = r\<rparr>
           | _ \<Rightarrow> None))"

definition zero_column :: insights_column where
  "zero_column = \<lparr>ColField = [], ColValue = None\<rparr>"

text \<open>The answer of \<open>GetQueryResults\<close>: its status and its rows.\<close>

definition decode_results :: "string \<Rightarrow> (string \<times> insights_column list list) option" where
  "decode_results raw =
     (case Option.bind (parse_json raw) struct_members of
        None \<Rightarrow> None
      | Some ms \<Rightarrow>
          (let tags = [''status'', ''results''] in
           case (take_values into_string (values_for tags ''status'' ms) [],
                 take_values (into_slice (into_slice into_column zero_column) (0, [])) (values_for tags ''results'' ms) (0, [])) of
             (Some s, Some rows) \<Rightarrow> Some (s, map slice_items (slice_items rows))
           | _ \<Rightarrow> None))"

text \<open>A struct of one string, as the code declares for the query id and for the marker.\<close>

definition decode_one_string :: "string \<Rightarrow> string \<Rightarrow> string option" where
  "decode_one_string tag raw =
     (case Option.bind (parse_json raw) struct_members of
        None \<Rightarrow> None
      | Some ms \<Rightarrow> take_values into_string (values_for [tag] tag ms) [])"

text \<open>An absent value is a nil \<open>RawMessage\<close>, which is no JSON text.\<close>

definition raw_string :: "json option \<Rightarrow> string \<Rightarrow> string option" where
  "raw_string r s = Option.bind r (\<lambda>v. into_string v s)"

definition parse_timestamp :: "json option \<Rightarrow> time option" where
  "parse_timestamp r =
     (case Option.bind r (\<lambda>v. into_int 64 v 0) of
        Some ms \<Rightarrow> Some (milli_time ms)
      | None \<Rightarrow>
          (case raw_string r [] of
             None \<Rightarrow> None
           | Some s \<Rightarrow>
               (case parse_int 64 s of
                  Some ms \<Rightarrow> Some (milli_time ms)
                | None \<Rightarrow> parse_millis s)))"

fun read_columns :: "insights_column list \<Rightarrow> string \<Rightarrow> time \<Rightarrow> cwi_error + string \<times> time" where
  "read_columns [] msg t = Inr (msg, t)"
| "read_columns (c # cs) msg t =
     (if ColField c = ''@message'' then
        (case raw_string (ColValue c) msg of None \<Rightarrow> Inl BadMessage | Some m \<Rightarrow> read_columns cs m t)
      else if ColField c = ''@timestamp'' then
        (case parse_timestamp (ColValue c) of
           None \<Rightarrow> Inl (BadTimestamp (case ColValue c of Some v \<Rightarrow> v | None \<Rightarrow> JNull))
         | Some t' \<Rightarrow> read_columns cs msg t')
      else read_columns cs msg t)"

fun parse_rows :: "insights_column list list \<Rightarrow> cwi_error + outcome list" where
  "parse_rows [] = Inr []"
| "parse_rows (row # rows) =
     (case read_columns row [] zero_time of
        Inl e \<Rightarrow> Inl e
      | Inr (msg, t) \<Rightarrow>
          if decode_one_string event_key_name msg \<noteq> Some event_outcome then parse_rows rows
          else (case parse_line msg t of
                  Inl e \<Rightarrow> Inl (LineRejected e)
                | Inr o' \<Rightarrow> (case parse_rows rows of Inl e \<Rightarrow> Inl e | Inr os \<Rightarrow> Inr (o' # os))))"

section \<open>The query\<close>

definition query_string :: string where
  "query_string = ''fields @message, @timestamp | filter event = '' @ quote_mark # ''biz.outcome'' @ quote_mark # '' | limit 10000''"

definition row_cap :: nat where "row_cap = 10000"

definition start_body :: "cw_querier \<Rightarrow> event_query \<Rightarrow> json" where
  "start_body q qy = json_map (map_lit
     [(''logGroupName'', JStr (CqLogGroup q)),
      (''startTime'', json_int (time_unix (From (ERange qy)) - 1)),
      (''endTime'', json_int (time_unix (To (ERange qy)) + 1)),
      (''queryString'', JStr query_string)])"

text \<open>What one answer of the poll makes the loop do: return, or wait and ask again.\<close>

definition poll_result :: "outside \<Rightarrow> nat \<Rightarrow> cwi_error + string \<Rightarrow> (cwi_error + outcome list) option" where
  "poll_result w n answer =
     (case answer of
        Inl e \<Rightarrow> Some (Inl e)
      | Inr raw \<Rightarrow>
          (case decode_results raw of
             None \<Rightarrow> Some (Inl BadResults)
           | Some (status, rows) \<Rightarrow>
               if status = ''Complete'' then
                 Some (if row_cap \<le> length rows then Inl Truncated else parse_rows rows)
               else if status = ''Scheduled'' \<or> status = ''Running'' then
                 (case ctx_done w n of Some e \<Rightarrow> Some (Inl (CtxDone e)) | None \<Rightarrow> None)
               else Some (Inl (QueryStatus status))))"

partial_function (option) poll_loop :: "cw_querier \<Rightarrow> outside \<Rightarrow> json \<Rightarrow> nat \<Rightarrow> (cwi_error + outcome list) option" where
  "poll_loop q w body n =
     (case poll_result w n (cwi_call q w n ''GetQueryResults'' body) of
        Some r \<Rightarrow> Some r
      | None \<Rightarrow> poll_loop q w body (Suc n))"

text \<open>\<open>None\<close> is a query that never ends.\<close>

definition cwi_fetch :: "cw_querier \<Rightarrow> outside \<Rightarrow> event_query \<Rightarrow> (cwi_error + outcome list) option" where
  "cwi_fetch q w qy =
     (case cwi_call q w 0 ''StartQuery'' (start_body q qy) of
        Inl e \<Rightarrow> Some (Inl e)
      | Inr start \<Rightarrow>
          (case decode_one_string ''queryId'' start of
             None \<Rightarrow> Some (Inl (NoQueryId start))
           | Some qid \<Rightarrow>
               if qid = [] then Some (Inl (NoQueryId start))
               else poll_loop q w (json_map [(''queryId'', JStr qid)]) 1))"

definition cwi_events :: "cw_querier \<Rightarrow> outside \<Rightarrow> event_query \<Rightarrow> (cwi_error + event_group list) option" where
  "cwi_events q w qy =
     (case cwi_fetch q w qy of
        None \<Rightarrow> None
      | Some (Inl e) \<Rightarrow> Some (Inl e)
      | Some (Inr evs) \<Rightarrow>
          Some (case memq_events (new_memq [with_events evs]) qy of
                  Inl e \<Rightarrow> Inl (Aggregate e)
                | Inr gs \<Rightarrow> Inr gs))"

end
