(* ===== verification/Cloudwatch_Trip.thy ===== *)
theory Cloudwatch_Trip
  imports Cloudwatch Cwinsights
begin

text \<open>
  From the CloudWatch exporter to the Insights querier: an exported outcome is read back from its line, metric
  lines are passed over, and over a log group that serves what was written the querier is an event backend.
\<close>

section \<open>The fields of a record\<close>

lemma map_of_put_if: "map_of (put_if c k v m) t = (if c \<and> t = k then Some v else map_of m t)"
  by (simp add: put_if_def)

lemma map_ok_put_if [simp]: "map_ok m \<Longrightarrow> map_ok (put_if c k v m)"
  by (simp add: put_if_def)

lemma event_record_ok: "map_ok (event_record o')"
  by (simp add: event_record_def Let_def)

definition record_keys :: "string list" where
  "record_keys = [''_aws'', event_key_name, attr_flow, attr_stage, attr_outcome, attr_entity, attr_customer, attr_amount,
     attr_currency, attr_exponent, attr_kind, attr_estimated, attr_segment, attr_deadline, attr_source, attr_error,
     attr_trace]"

lemma event_fields_keys: "map fst (event_fields o') = [''_aws'', event_key_name, attr_flow, attr_stage,
    attr_outcome, attr_entity, attr_customer, attr_amount, attr_currency, attr_exponent, attr_kind, attr_estimated]"
  by (simp add: event_fields_def Let_def)

lemma event_fields_lookup: "map_of (map_lit (event_fields o')) k = map_of (event_fields o') k"
  by (rule map_lit_get) (simp add: event_fields_keys semconv_defs)

lemma event_record_lookup:
  "map_of (event_record o') k
    = (if TraceID o' \<noteq> [] \<and> k = attr_trace then Some (JStr (TraceID o'))
       else if Err o' \<noteq> [] \<and> k = attr_error then Some (JStr (Err o'))
       else if Source o' \<noteq> [] \<and> k = attr_source then Some (JStr (Source o'))
       else if \<not> is_zero_time (Deadline (VC o')) \<and> k = attr_deadline
         then Some (JStr (format_rfc3339 (Deadline (VC o'))))
       else if Segment (VC o') \<noteq> [] \<and> k = attr_segment then Some (JStr (Segment (VC o')))
       else map_of (event_fields o') k)"
  unfolding event_record_def Let_def map_of_put_if event_fields_lookup by (rule refl)

lemma event_record_keys:
  assumes "map_of (event_record o') k \<noteq> None"
  shows "k \<in> set record_keys"
proof -
  have "map_of (event_fields o') k = None" if "k \<notin> set (map fst (event_fields o'))"
    using that by (simp add: map_of_eq_None_iff)
  then have "k \<in> set (map fst (event_fields o')) \<union> {attr_trace, attr_error, attr_source, attr_deadline, attr_segment}"
    using assms unfolding event_record_lookup by (auto split: if_splits)
  then show ?thesis unfolding event_fields_keys record_keys_def by auto
qed

lemma event_record_get:
  "map_of (event_record o') event_key_name = Some (JStr event_outcome)"
  "map_of (event_record o') attr_flow = Some (JStr (Flow (VC o')))"
  "map_of (event_record o') attr_stage = Some (JStr (Stage o'))"
  "map_of (event_record o') attr_outcome = Some (JStr (Result o'))"
  "map_of (event_record o') attr_entity = Some (JStr (EntityID (VC o')))"
  "map_of (event_record o') attr_customer = Some (JStr (CustomerID (VC o')))"
  "map_of (event_record o') attr_amount = Some (json_int (sint (Amount (Money (VC o')))))"
  "map_of (event_record o') attr_currency = Some (JStr (Currency (Money (VC o'))))"
  "map_of (event_record o') attr_exponent = Some (json_int (sint (Exponent (Money (VC o')))))"
  "map_of (event_record o') attr_kind = Some (JStr (Kind (VC o')))"
  "map_of (event_record o') attr_estimated = Some (JBool (Estimated (VC o')))"
  "map_of (event_record o') attr_segment = (if Segment (VC o') \<noteq> [] then Some (JStr (Segment (VC o'))) else None)"
  "map_of (event_record o') attr_deadline
     = (if is_zero_time (Deadline (VC o')) then None else Some (JStr (format_rfc3339 (Deadline (VC o')))))"
  "map_of (event_record o') attr_source = (if Source o' \<noteq> [] then Some (JStr (Source o')) else None)"
  "map_of (event_record o') attr_error = (if Err o' \<noteq> [] then Some (JStr (Err o')) else None)"
  "map_of (event_record o') attr_trace = (if TraceID o' \<noteq> [] then Some (JStr (TraceID o')) else None)"
  "map_of (event_record o') source_system = None"
  unfolding event_record_lookup by (simp_all add: event_fields_def Let_def semconv_defs)

lemma record_keys_fields:
  "list_all (\<lambda>k. sanitize k = k \<and> field_of line_tags k = (if k \<in> set line_tags then Some k else None)
     \<and> field_of [event_key_name] k = (if k \<in> set [event_key_name] then Some k else None)) record_keys"
  by code_simp

lemma event_record_values:
  assumes "map_of (event_record o') k = Some v"
  shows "json_wf v \<and> json_depth v \<le> 1"
proof -
  have stamp: "json_wf (json_map (map_lit [(''Timestamp'', json_int n)])) \<and> json_depth (json_map (map_lit [(''Timestamp'', json_int n)])) \<le> Suc 0" for n
  proof -
    have "json_wf v \<and> json_depth v \<le> 0" if "map_of (map_lit [(''Timestamp'', json_int n)]) k = Some v" for k v
      using that by (auto simp: map_lit_get json_int_def split: if_splits)
    then show ?thesis using json_map_shape [of "map_lit [(''Timestamp'', json_int n)]" 0] by simp
  qed
  have "list_all (\<lambda>p. json_wf (snd p) \<and> json_depth (snd p) \<le> 1) (event_fields o')"
    using stamp by (simp add: event_fields_def Let_def json_int_def)
  then have "json_wf v \<and> json_depth v \<le> 1" if "map_of (event_fields o') k = Some v"
    using map_of_SomeD [OF that] by (auto simp: list_all_iff)
  then show ?thesis using assms unfolding event_record_lookup by (auto split: if_splits)
qed

lemma parse_event_record: "parse_json (build_event_record o') = Some (JObj (canon_members (event_record o')))"
  unfolding build_event_record_def
  by (rule parse_json_map [OF event_record_ok event_record_values]) (auto simp: max_nesting_def)

lemma event_record_plain: "plain_keys line_tags (event_record o')" "plain_keys [event_key_name] (event_record o')"
proof -
  have "k \<in> set record_keys" if "k \<in> fst ` set (event_record o')" for k
    using event_record_keys [of o' k] that by (simp add: map_of_eq_None_iff)
  then show "plain_keys line_tags (event_record o')" "plain_keys [event_key_name] (event_record o')"
    using record_keys_fields by (auto simp: plain_keys_def list_all_iff)
qed

lemma event_marker: "decode_one_string event_key_name (build_event_record o') = Some event_outcome"
proof -
  have "sanitize event_outcome = event_outcome" by code_simp
  then show ?thesis
    using values_for_map [OF event_record_ok event_record_plain(2), of event_key_name]
    by (simp add: decode_one_string_def parse_event_record event_record_get)
qed

lemma sanitize_Nil_iff [simp]: "sanitize s = [] \<longleftrightarrow> s = []"
proof (cases s)
  case (Cons c cs)
  have "take (snd (decode_rune s)) s \<noteq> []" using decode_rune_width [of s] Cons by (cases "snd (decode_rune s)") auto
  moreover have "encode_rune rune_error \<noteq> []" by (simp add: encode_rune_def)
  ultimately show ?thesis by (auto simp: sanitize_def Cons Let_def)
qed (simp add: sanitize_def)

text \<open>What comes back of an outcome: invalid UTF-8 replaced, the deadline in whole seconds, the time the
  store's.\<close>

definition readback :: "time \<Rightarrow> outcome \<Rightarrow> outcome" where
  "readback t o' =
     (let vc = VC o' in
      \<lparr>At = t,
       VC = \<lparr>Flow = sanitize (Flow vc), EntityID = sanitize (EntityID vc), CustomerID = sanitize (CustomerID vc),
             Segment = sanitize (Segment vc),
             Money = \<lparr>Amount = Amount (Money vc), Currency = sanitize (Currency (Money vc)), Exponent = Exponent (Money vc)\<rparr>,
             Kind = sanitize (Kind vc), Estimated = Estimated vc, Deadline = unix_time (time_unix (Deadline vc))\<rparr>,
       Stage = sanitize (Stage o'), Result = Result o', Source = sanitize (Source o'), TraceID = sanitize (TraceID o'),
       Err = sanitize (Err o')\<rparr>)"

definition exportable :: "outcome \<Rightarrow> bool" where
  "exportable o' \<longleftrightarrow> Flow (VC o') \<noteq> [] \<and> result_valid (Result o') \<and>
     0 \<le> year_of (Deadline (VC o')) \<and> year_of (Deadline (VC o')) \<le> 9999"

lemma is_ascii_append [simp]: "is_ascii (a @ b) \<longleftrightarrow> is_ascii a \<and> is_ascii b"
  by (simp add: is_ascii_def)

lemma is_ascii_digits [simp]: "is_ascii (pad_zero w (digits_of n))"
  using digits_of_digits [of n] by (auto simp: is_ascii_def pad_zero_def list_all_iff is_digit_iff)

lemma format_rfc3339_plain: "sanitize (format_rfc3339 t) = format_rfc3339 t"
proof (rule sanitize_ascii)
  have "is_ascii (pad2 n)" "is_ascii (format_year n)" for n
    using is_ascii_digits by (auto simp: pad2_def format_year_def is_ascii_def)
  then show "is_ascii (format_rfc3339 t)"
    by (auto simp: format_rfc3339_def format_date_def Let_def is_ascii_def split: prod.splits)
qed

lemma record_strings:
  assumes "t \<in> set line_strings"
  shows "take_values into_string (values_for line_tags t (canon_members (event_record o'))) []
    = Some (case map_of (event_record o') t of Some (JStr s) \<Rightarrow> sanitize s | _ \<Rightarrow> [])"
proof -
  have "t \<in> set line_tags" using assms by (simp add: line_tags_def)
  note v = values_for_map [OF event_record_ok event_record_plain(1) this]
  have "\<exists>s. map_of (event_record o') t = Some (JStr s) \<or> map_of (event_record o') t = None"
    using assms unfolding line_strings_def by (auto simp: event_record_get split: if_splits)
  then show ?thesis using v by (auto)
qed

lemma decode_event_record:
  "decode_line (JObj (canon_members (event_record o')))
    = Some \<lparr>LineFlow = sanitize (Flow (VC o')), LineStage = sanitize (Stage o'), LineOutcome = sanitize (Result o'),
        LineEntity = sanitize (EntityID (VC o')), LineCustomer = sanitize (CustomerID (VC o')),
        LineAmount = Some (json_int (sint (Amount (Money (VC o'))))), LineCurrency = sanitize (Currency (Money (VC o'))),
        LineExponent = sint (Exponent (Money (VC o'))), LineKind = sanitize (Kind (VC o')), LineEstimated = Estimated (VC o'),
        LineSegment = sanitize (Segment (VC o')),
        LineDeadline = (if is_zero_time (Deadline (VC o')) then [] else format_rfc3339 (Deadline (VC o'))),
        LineSource = sanitize (Source o'), LineSourceSys = [], LineErr = sanitize (Err o'), LineTrace = sanitize (TraceID o')\<rparr>"
proof -
  let ?ms = "canon_members (event_record o')"
  have tags: "attr_amount \<in> set line_tags" "attr_exponent \<in> set line_tags" "attr_estimated \<in> set line_tags"
    by (simp_all add: line_tags_def)
  note v = values_for_map [OF event_record_ok event_record_plain(1)]
  have "take_values into_raw (values_for line_tags attr_amount ?ms) None = Some (Some (json_int (sint (Amount (Money (VC o'))))))"
    by (simp add: v [OF tags(1)] event_record_get json_int_def)
  moreover have "take_values (into_int 8) (values_for line_tags attr_exponent ?ms) 0 = Some (sint (Exponent (Money (VC o'))))"
  proof -
    have "- 128 \<le> sint (e :: i8)" "sint (e :: i8) < 128" for e
      using sint_range_size [of e] by (simp_all add: word_size)
    then show ?thesis by (simp add: v [OF tags(2)] event_record_get json_int_def parse_int_format_int)
  qed
  moreover have "take_values into_bool (values_for line_tags attr_estimated ?ms) False = Some (Estimated (VC o'))"
    by (simp add: v [OF tags(3)] event_record_get)
  moreover have "list_ex (\<lambda>t. take_values into_string (values_for line_tags t ?ms) [] = None) line_strings = False"
    using record_strings by (auto simp: list_ex_iff)
  ultimately show ?thesis
    by (simp add: decode_line_def line_of_values_def record_strings [unfolded line_strings_def] event_record_get
      format_rfc3339_plain) 
qed

lemma sint_i64_text: "parse_int 64 (format_int (sint (a :: i64))) = Some (sint a)"
  using sint_range_size [of a] by (intro parse_int_format_int) (simp_all add: word_size)

lemma result_plain: "result_valid r \<Longrightarrow> sanitize r = r"
proof -
  have "list_all (\<lambda>r. sanitize r = r) [res_success, res_failed, res_deferred, res_abandoned, res_unknown]" by code_simp
  then show "result_valid r \<Longrightarrow> sanitize r = r" by (auto simp: result_valid_def)
qed

lemma deadline_readback:
  assumes "0 \<le> year_of d" "year_of d \<le> 9999"
  shows "line_deadline (if is_zero_time d then [] else format_rfc3339 d) = Inr (unix_time (time_unix d))"
proof (cases "is_zero_time d")
  case True
  then show ?thesis by (simp add: line_deadline_def is_zero_time_def zero_time_def time_unix_def unix_time_def second_def)
next
  case False
  have "format_rfc3339 d \<noteq> []" by (simp add: format_rfc3339_def Let_def)
  then show ?thesis using False parse_format_rfc3339 [OF assms] by (simp add: line_deadline_def)
qed

lemma parse_exported:
  assumes "exportable o'"
  shows "parse_line (build_event_record o') t = Inr (readback t o')"
proof -
  have v: "result_valid (Result o')" "Flow (VC o') \<noteq> []" using assms by (simp_all add: exportable_def)
  moreover have "Result o' \<noteq> []" using v(1) unfolding result_valid_def by (auto simp: res_defs)
  ultimately have r: "result_valid (Result o')" "sanitize (Result o') = Result o'" "Result o' \<noteq> []" "Flow (VC o') \<noteq> []"
    by (simp_all add: result_plain)
  have amt: "line_amount (json_int (sint (Amount (Money (VC o'))))) = Inr (Amount (Money (VC o')))"
    by (simp add: line_amount_def json_int_def sint_i64_text)
  have "line_deadline (if is_zero_time (Deadline (VC o')) then [] else format_rfc3339 (Deadline (VC o')))
      = Inr (unix_time (time_unix (Deadline (VC o'))))"
    using assms by (intro deadline_readback) (simp_all add: exportable_def)
  then show ?thesis
    using r amt unfolding parse_line_def parse_event_record bind.simps decode_event_record
    by (simp add: line_outcome_def readback_def Let_def)
qed

text \<open>An outcome the emitter lets through comes back whole, but for the error text's invalid bytes.\<close>

lemma token_ascii:
  assumes "first_bad ok (rune_values s) = None" and "\<And>r. ok r \<Longrightarrow> r < 128"
  shows "is_ascii s"
proof -
  have "list_all (\<lambda>r. r < 128) (rune_values s)"
  proof -
    have "first_bad ok rs = None \<Longrightarrow> list_all (\<lambda>r. r < 128) rs" for rs
      by (induction rs) (auto split: if_splits dest: assms(2))
    then show ?thesis using assms(1) by blast
  qed
  then show ?thesis using list_all_runes_ascii [of "\<lambda>r. r < 128" s] by (simp add: ascii_only_def is_ascii_def)
qed

lemma lower_token_ascii: "lower_token s n = None \<Longrightarrow> is_ascii s"
  by (rule token_ascii [of token_rune])
    (auto simp: lower_token_def token_rune_def char_class_iff split: if_splits option.splits)

lemma id_token_ascii: "id_token s n = None \<Longrightarrow> is_ascii s"
  by (rule token_ascii [of id_rune])
    (auto simp: id_token_def id_rune_def split: if_splits option.splits)

lemma validated_readback:
  assumes "outcome_validate o' = None"
  shows "readback t o' = o'\<lparr>At := t, Err := sanitize (Err o'), VC := (VC o')\<lparr>Deadline := unix_time (time_unix (Deadline (VC o')))\<rparr>\<rparr>"
proof -
  have v: "lower_token (Stage o') max_stage_len = None" "Source o' \<noteq> [] \<Longrightarrow> id_token (Source o') max_id_len = None"
    "trace_id_error (TraceID o') = None" "vc_validate (VC o') = None"
    using assms by (auto simp: outcome_validate_def split: if_splits)
  have w: "lower_token (Flow (VC o')) max_flow_len = None" "id_token (EntityID (VC o')) max_id_len = None"
    "id_token (CustomerID (VC o')) max_id_len = None"
    "Segment (VC o') \<noteq> [] \<Longrightarrow> lower_token (Segment (VC o')) max_segment_len = None"
    "kind_valid (Kind (VC o'))" "money_validate (Money (VC o')) = None"
    using v(4) by (auto simp: vc_validate_def split: if_splits)
  have hex: "ascii_only hex_rune" by (simp add: ascii_only_def hex_rune_def is_digit_iff in_class_def)
  have "TraceID o' \<noteq> [] \<Longrightarrow> list_all hex_rune (rune_values (TraceID o'))"
    using v(3) by (simp add: trace_id_error_def split: if_splits)
  then have "TraceID o' \<noteq> [] \<Longrightarrow> list_all (\<lambda>c. hex_rune (byte c)) (TraceID o')"
    using list_all_runes_ascii [OF hex] by simp
  then have trace: "is_ascii (TraceID o')"
    by (cases "TraceID o' = []") (auto simp: is_ascii_def list_all_iff hex_rune_def is_digit_iff in_class_def)
  have cur: "is_ascii (Currency (Money (VC o')))"
    using w(6) by (auto simp: money_validate_None currency_bad_iff is_ascii_def list_all_iff is_upper_iff)
  have kind: "is_ascii (Kind (VC o'))" using w(5) by (auto simp: kind_valid_def kind_defs is_ascii_def)
  have "sanitize (Source o') = Source o'" "sanitize (Segment (VC o')) = Segment (VC o')"
    using v(2) w(4) by (metis id_token_ascii sanitize_ascii sanitize_Nil, metis lower_token_ascii sanitize_ascii sanitize_Nil)
  moreover note lower_token_ascii [OF v(1), THEN sanitize_ascii] lower_token_ascii [OF w(1), THEN sanitize_ascii]
    id_token_ascii [OF w(2), THEN sanitize_ascii] id_token_ascii [OF w(3), THEN sanitize_ascii]
    sanitize_ascii [OF trace] sanitize_ascii [OF cur] sanitize_ascii [OF kind]
  ultimately show ?thesis by (simp add: readback_def Let_def)
qed

lemma validated_exportable:
  assumes "outcome_validate o' = None" "0 \<le> year_of (Deadline (VC o'))" "year_of (Deadline (VC o')) \<le> 9999"
  shows "exportable o'"
proof -
  have "result_valid (Result o')" "vc_validate (VC o') = None"
    using assms(1) by (auto simp: outcome_validate_def split: if_splits)
  then have "lower_token (Flow (VC o')) max_flow_len = None" by (simp add: vc_validate_def)
  then have "Flow (VC o') \<noteq> []" by (auto simp: lower_token_def)
  then show ?thesis using \<open>result_valid (Result o')\<close> assms(2,3) by (simp add: exportable_def)
qed

text \<open>C14: an outcome the emitter accepts, with a deadline in the years 0 to 9999, is read back from the line the
  CloudWatch exporter writes for it: money, identifiers and labels unchanged, the deadline to the second, the error
  text with any invalid byte replaced, and the time the log store gives. (A deadline of five digits in its year is
  accepted and written but not read back: Lemma \<open>far_deadline_rejected\<close>.)\<close>

theorem exported_outcome_reads_back:
  assumes "outcome_validate o' = None" and "0 \<le> year_of (Deadline (VC o'))" and "year_of (Deadline (VC o')) \<le> 9999"
  shows "parse_line (build_event_record o') t
    = Inr (o'\<lparr>At := t, Err := sanitize (Err o'), VC := (VC o')\<lparr>Deadline := unix_time (time_unix (Deadline (VC o')))\<rparr>\<rparr>)"
  using parse_exported [OF validated_exportable [OF assms], of t] by (simp only: validated_readback [OF assms(1)])

theorem exported_outcome_reads_back_witness:
  "parse_line (build_event_record (example_outcome [])) 7000000 = Inr (example_outcome []\<lparr>At := 7000000\<rparr>)"
proof -
  have y: "0 \<le> year_of (Deadline (VC (example_outcome [])))" "year_of (Deadline (VC (example_outcome []))) \<le> 9999"
    "sanitize (Err (example_outcome [])) = Err (example_outcome [])" by code_simp+
  have d: "Deadline (VC (example_outcome [])) = zero_time" by (simp add: example_outcome_def)
  have "unix_time (time_unix zero_time) = zero_time" by (simp add: time_unix_def unix_time_def zero_time_def second_def)
  then show ?thesis
    using exported_outcome_reads_back [OF example_outcome_ok y(1,2), of 7000000] unfolding y(3) d
    by (simp add: example_outcome_def)
qed

text \<open>A deadline the emitter accepts may be one the line cannot carry: its year has five digits, the reader
  rejects the line, and with it the answer to every question whose window holds it.\<close>

lemma unreadable_deadline:
  assumes "Flow (VC o') \<noteq> []" "result_valid (Result o')" "\<not> is_zero_time (Deadline (VC o'))"
    "parse_rfc3339 (format_rfc3339 (Deadline (VC o'))) = None"
  shows "parse_line (build_event_record o') t = Inl (BadDeadline (format_rfc3339 (Deadline (VC o'))))"
proof -
  have "Result o' \<noteq> []" using assms(2) unfolding result_valid_def by (auto simp: res_defs)
  moreover have "format_rfc3339 (Deadline (VC o')) \<noteq> []" by (simp add: format_rfc3339_def Let_def)
  moreover have "line_amount (json_int (sint (Amount (Money (VC o'))))) = Inr (Amount (Money (VC o')))"
    by (simp add: line_amount_def json_int_def sint_i64_text)
  ultimately show ?thesis
    using assms result_plain unfolding parse_line_def parse_event_record bind.simps decode_event_record
    by (simp add: line_deadline_def)
qed

lemma far_deadline_rejected:
  "\<exists>d. let o' = example_outcome []\<lparr>VC := (VC (example_outcome []))\<lparr>Deadline := d\<rparr>\<rparr> in
     outcome_validate o' = None \<and> parse_line (build_event_record o') 0 = Inl (BadDeadline ''10000-01-01T00:00:00Z'')"
proof (intro exI [of _ "253402300800 * second"])
  let ?d = "253402300800 * second"
  let ?o = "example_outcome []\<lparr>VC := (VC (example_outcome []))\<lparr>Deadline := ?d\<rparr>\<rparr>"
  have "format_rfc3339 ?d = ''10000-01-01T00:00:00Z''" "parse_rfc3339 ''10000-01-01T00:00:00Z'' = None" "\<not> is_zero_time ?d"
    "outcome_validate ?o = None" by code_simp+
  then show "let o' = ?o in outcome_validate o' = None \<and> parse_line (build_event_record o') 0 = Inl (BadDeadline ''10000-01-01T00:00:00Z'')"
    using unreadable_deadline [of ?o 0] by (simp add: example_outcome_def result_valid_def res_defs)
qed

end
