(* ===== verification/Cloudwatch_Export.thy ===== *)
theory Cloudwatch_Export
  imports Cloudwatch "HOL-Library.Sublist"
begin

text \<open>
  What the CloudWatch exporter delivers: through any writer that keeps its contract, the sink holds a prefix of
  the records written, and all of them once a shutdown reports no error. Metrics take one path only, in calls of
  at most 1000 datums, and nothing is accepted after the shutdown.
\<close>

section \<open>The buffered writer\<close>

text \<open>\<open>io.Writer\<close>: what a write reports as taken is what the sink has more than before.\<close>

definition io_writer :: "'w sink_write \<Rightarrow> ('w \<Rightarrow> string) \<Rightarrow> bool" where
  "io_writer wr content \<longleftrightarrow>
     (\<forall>w p. case wr w p of
        (w', None) \<Rightarrow> content w' = content w @ p
      | (w', Some (n, e)) \<Rightarrow> content w' = content w @ take n p)"

lemma io_writerD:
  assumes "io_writer wr content"
  shows "wr w p = (w', None) \<Longrightarrow> content w' = content w @ p"
    and "wr w p = (w', Some (n, e)) \<Longrightarrow> content w' = content w @ take n p"
proof -
  have c: "case wr w p of (w', None) \<Rightarrow> content w' = content w @ p
      | (w', Some (n, e)) \<Rightarrow> content w' = content w @ take n p"
    using assms unfolding io_writer_def by (rule allE [where x = w]) (rule allE [where x = p])
  show "wr w p = (w', None) \<Longrightarrow> content w' = content w @ p"
    "wr w p = (w', Some (n, e)) \<Longrightarrow> content w' = content w @ take n p" using c by simp_all
qed

text \<open>The writer's account of a text: without an error the sink and the buffer hold all of it, and the sink
  never more than a prefix.\<close>

definition accounts :: "('w \<Rightarrow> string) \<Rightarrow> 'w bufio \<Rightarrow> string \<Rightarrow> bool" where
  "accounts content b s \<longleftrightarrow>
     (BufErr b = None \<longrightarrow> content (BufSink b) @ BufData b = s) \<and> prefix (content (BufSink b)) s"

lemma accounts_flush:
  assumes wr: "io_writer wr content" and a: "accounts content b s"
  shows "accounts content (bufio_flush wr b) s"
    and "BufErr (bufio_flush wr b) = None \<Longrightarrow> BufData (bufio_flush wr b) = []"
proof -
  obtain w' r where w: "wr (BufSink b) (BufData b) = (w', r)" by (cases "wr (BufSink b) (BufData b)")
  have "accounts content (bufio_flush wr b) s \<and> (BufErr (bufio_flush wr b) = None \<longrightarrow> BufData (bufio_flush wr b) = [])"
  proof (cases "BufErr b \<noteq> None \<or> BufData b = []")
    case True
    then show ?thesis using a by (auto simp: bufio_flush_def)
  next
    case False
    then have s: "content (BufSink b) @ BufData b = s" using a by (simp add: accounts_def)
    show ?thesis
    proof (cases r)
      case None
      then show ?thesis using io_writerD(1) [OF wr, of "BufSink b" "BufData b" w'] w False s
        by (simp add: bufio_flush_def accounts_def)
    next
      case (Some x)
      then obtain n e where x: "r = Some (n, e)" by (cases x) auto
      then have "content w' = content (BufSink b) @ take n (BufData b)" using io_writerD(2) [OF wr] w by blast
      then have "prefix (content w') s" using s by (metis append.assoc append_take_drop_id prefix_def)
      then show ?thesis using w x False by (simp add: bufio_flush_def accounts_def)
    qed
  qed
  then show "accounts content (bufio_flush wr b) s"
    "BufErr (bufio_flush wr b) = None \<Longrightarrow> BufData (bufio_flush wr b) = []" by simp_all
qed

lemma accounts_rest:
  assumes wr: "io_writer wr content" and a: "accounts content b s"
    and fit: "BufErr b = None \<longrightarrow> BufData b = [] \<or> length (BufData b @ p) \<le> buf_size"
  shows "accounts content (write_rest wr p b) (s @ p)"
proof -
  obtain w' r where w: "wr (BufSink b) p = (w', r)" by (cases "wr (BufSink b) p")
  have pre: "prefix (content (BufSink b)) (s @ p)" using a by (auto simp: accounts_def intro: prefix_prefix)
  show ?thesis
  proof (cases "BufErr b \<noteq> None \<or> length (BufData b @ p) \<le> buf_size")
    case True
    then show ?thesis using a pre by (auto simp: write_rest_def accounts_def)
  next
    case False
    then have s: "content (BufSink b) = s" "BufData b = []" using a fit by (auto simp: accounts_def)
    show ?thesis
    proof (cases r)
      case None
      then show ?thesis using io_writerD(1) [OF wr, of "BufSink b" p w'] w False s
        by (auto simp: write_rest_def accounts_def)
    next
      case (Some x)
      then obtain n e where x: "r = Some (n, e)" by (cases x) auto
      then have "content w' = s @ take n p" using io_writerD(2) [OF wr] w s by blast
      then have "prefix (content w') (s @ p)" by (metis append.assoc append_take_drop_id prefix_def)
      then show ?thesis using w x False by (auto simp: write_rest_def accounts_def)
    qed
  qed
qed

lemma accounts_write:
  assumes wr: "io_writer wr content" and a: "accounts content b s"
  shows "accounts content (bufio_write wr p b) (s @ p)"
proof (cases "BufErr b \<noteq> None \<or> BufData b = [] \<or> length (BufData b @ p) \<le> buf_size")
  case True
  then show ?thesis unfolding bufio_write_def if_P [OF True] by (intro accounts_rest [OF wr a]) auto
next
  case False
  let ?n = "buf_size - length (BufData b)"
  let ?b = "bufio_flush wr (b\<lparr>BufData := BufData b @ take ?n p\<rparr>)"
  have pre: "prefix (content (BufSink b)) (s @ take ?n p)" using a by (auto simp: accounts_def intro: prefix_prefix)
  have "accounts content (b\<lparr>BufData := BufData b @ take ?n p\<rparr>) (s @ take ?n p)"
    using a False pre by (auto simp: accounts_def)
  note f = accounts_flush [OF wr this]
  have "accounts content (write_rest wr (drop ?n p) ?b) ((s @ take ?n p) @ drop ?n p)"
    using f(2) by (intro accounts_rest [OF wr f(1)]) auto
  then show ?thesis unfolding bufio_write_def if_not_P [OF False] Let_def by simp
qed

lemma accounts_write_byte:
  assumes wr: "io_writer wr content" and a: "accounts content b s"
  shows "accounts content (bufio_write_byte wr c b) (s @ [c])"
proof -
  have push: "accounts content (if BufErr b \<noteq> None then b else b\<lparr>BufData := BufData b @ [c]\<rparr>) (s @ [c])"
    if "accounts content b s" for b
    using that by (auto simp: accounts_def intro: prefix_prefix)
  show ?thesis
  proof (cases "BufErr b \<noteq> None")
    case True
    then show ?thesis using push [OF a] by (simp add: bufio_write_byte_def)
  next
    case False
    have "accounts content (if buf_size \<le> length (BufData b) then bufio_flush wr b else b) s"
      using accounts_flush(1) [OF wr a] a by simp
    from push [OF this] show ?thesis using False by (simp add: bufio_write_byte_def Let_def)
  qed
qed

section \<open>Batches\<close>

text \<open>The lines of a batch, up to the first record that cannot be built.\<close>

fun built_lines :: "('a \<Rightarrow> cw_error + string) \<Rightarrow> 'a list \<Rightarrow> string" where
  "built_lines build [] = []"
| "built_lines build (x # xs) =
     (case build x of Inl _ \<Rightarrow> [] | Inr record \<Rightarrow> record @ [char_of (10 :: nat)] @ built_lines build xs)"

lemma write_line_result:
  "write_line wr rc e = (r, e') \<Longrightarrow> r = map_option WriteError (BufErr (CwBuf e')) \<and> e' = e\<lparr>CwBuf := CwBuf e'\<rparr>"
  by (auto simp: write_line_def Let_def split: option.splits)

lemma accounts_line:
  assumes wr: "io_writer wr content" and a: "accounts content (CwBuf e) s"
  shows "accounts content (CwBuf (snd (write_line wr rc e))) (s @ rc @ [char_of (10 :: nat)])"
proof -
  let ?b = "bufio_write wr rc (CwBuf e)"
  have w: "accounts content ?b (s @ rc)" by (rule accounts_write [OF wr a])
  show ?thesis
  proof (cases "BufErr ?b")
    case None
    then show ?thesis using accounts_write_byte [OF wr w] by (simp add: write_line_def Let_def)
  next
    case (Some x)
    then show ?thesis using w prefix_prefix [of _ "s @ rc"] by (auto simp: write_line_def accounts_def)
  qed
qed

lemma accounts_longer: "accounts content b s \<Longrightarrow> BufErr b \<noteq> None \<Longrightarrow> accounts content b (s @ t)"
  by (auto simp: accounts_def intro: prefix_prefix)

lemma records_frame: "write_records wr build xs e = (r, e') \<Longrightarrow> e' = e\<lparr>CwBuf := CwBuf e'\<rparr>"
proof (induction xs arbitrary: e)
  case (Cons x xs)
  show ?case
  proof (cases "build x")
    case (Inr rc)
    obtain r1 e1 where one: "write_line wr rc e = (r1, e1)" by (cases "write_line wr rc e")
    have e1: "e1 = e\<lparr>CwBuf := CwBuf e1\<rparr>" using write_line_result [OF one] by blast
    show ?thesis
    proof (cases r1)
      case None
      then have "e' = e1\<lparr>CwBuf := CwBuf e'\<rparr>" using Cons.IH [of e1] Cons.prems one Inr by simp
      then show ?thesis using e1 by (metis cw_exporter.surjective cw_exporter.update_convs(3))
    qed (use Cons.prems one Inr e1 in auto)
  qed (use Cons.prems in simp)
qed simp

lemma accounts_records:
  "io_writer wr content \<Longrightarrow> accounts content (CwBuf e) s \<Longrightarrow> write_records wr build xs e = (r, e')
    \<Longrightarrow> accounts content (CwBuf e') (s @ built_lines build xs)"
proof (induction xs arbitrary: e s)
  case (Cons x xs)
  show ?case
  proof (cases "build x")
    case (Inl err)
    then show ?thesis using Cons.prems by simp
  next
    case (Inr rc)
    obtain r1 e1 where one: "write_line wr rc e = (r1, e1)" by (cases "write_line wr rc e")
    have acc: "accounts content (CwBuf e1) (s @ rc @ [char_of (10 :: nat)])"
      using accounts_line [OF Cons.prems(1,2), of rc] one by simp
    show ?thesis
    proof (cases r1)
      case None
      then have "write_records wr build xs e1 = (r, e')" using Cons.prems(3) one Inr by simp
      from Cons.IH [OF Cons.prems(1) acc this] show ?thesis using Inr by simp
    next
      case (Some err)
      then have "BufErr (CwBuf e1) \<noteq> None" using write_line_result [OF one] by auto
      then show ?thesis using accounts_longer [OF acc, of "built_lines build xs"] Some one Inr Cons.prems(3) by simp
    qed
  qed
qed simp

lemma records_sticky: "BufErr (CwBuf e) \<noteq> None \<Longrightarrow> write_records wr build xs e = (r, e') \<Longrightarrow> BufErr (CwBuf e') \<noteq> None"
proof (induction xs arbitrary: e)
  case (Cons x xs)
  then show ?case
    by (cases "build x") (auto simp: write_line_def Let_def bufio_write_def write_rest_def split: option.splits)
qed simp

section \<open>Sequences of calls\<close>

datatype cw_op = ExportMetrics "metric_point list" | ExportEvents "outcome list"

fun cw_call :: "'w sink_write \<Rightarrow> cw_op \<Rightarrow> 'w cw_exporter \<Rightarrow> cw_error option \<times> 'w cw_exporter" where
  "cw_call wr (ExportMetrics ms) e = cw_export_metrics wr ms e"
| "cw_call wr (ExportEvents os) e = cw_export_events wr os e"

definition cw_calls :: "'w sink_write \<Rightarrow> cw_op list \<Rightarrow> 'w cw_exporter \<Rightarrow> 'w cw_exporter" where
  "cw_calls wr ops e = fold (\<lambda>op e. snd (cw_call wr op e)) ops e"

text \<open>The lines a call writes: metric records only without a metric API.\<close>

fun op_lines :: "'w cw_exporter \<Rightarrow> cw_op \<Rightarrow> string" where
  "op_lines e (ExportMetrics ms) =
     (if CwPutter e = None then built_lines (build_metric_record (CwNamespace e) (CwUnit e)) ms else [])"
| "op_lines e (ExportEvents os) = built_lines (\<lambda>o'. Inr (build_event_record o')) os"

text \<open>The configuration, which no call changes.\<close>

definition same_config :: "'w cw_exporter \<Rightarrow> 'w cw_exporter \<Rightarrow> bool" where
  "same_config e e' \<longleftrightarrow> CwNamespace e' = CwNamespace e \<and> CwUnit e' = CwUnit e \<and> CwPutter e' = CwPutter e \<and> CwClosed e' = CwClosed e"

lemma put_chunks_frame:
  "put_chunks put ds e = (r, e') \<Longrightarrow> e' = e\<lparr>CwPuts := CwPuts e'\<rparr>"
proof (induction put ds e arbitrary: r rule: put_chunks.induct)
  case (1 put ds e)
  let ?calls = "CwPuts e @ [(CwNamespace e, take max_datums ds)]"
  show ?case
  proof (cases "ds = []")
    case True
    then show ?thesis using "1.prems" by (simp add: put_chunks.simps)
  next
    case False
    show ?thesis
    proof (cases "put ?calls")
      case None
      then have "put_chunks put (drop max_datums ds) (e\<lparr>CwPuts := ?calls\<rparr>) = (r, e')"
        using "1.prems" False by (simp add: put_chunks.simps [of put ds])
      from "1.IH" [OF False refl refl None this] show ?thesis by (cases e, cases e') simp
    next
      case (Some x)
      then show ?thesis using "1.prems" False by (auto simp: put_chunks.simps [of put ds])
    qed
  qed
qed

lemma records_config: "write_records wr build xs e = (r, e') \<Longrightarrow> same_config e e' \<and> CwPuts e' = CwPuts e"
  using records_frame [of wr build xs e r e'] by (cases e, cases e') (simp add: same_config_def)

lemma put_config: "put_chunks put ds e = (r, e') \<Longrightarrow> same_config e e' \<and> CwBuf e' = CwBuf e"
  using put_chunks_frame [of put ds e r e'] by (cases e, cases e') (simp add: same_config_def)

lemma same_config_refl [simp]: "same_config e e"
  by (simp add: same_config_def)

text \<open>A call either writes records or puts datums, never both.\<close>

lemma cw_call_config: "cw_call wr op e = (r, e') \<Longrightarrow> same_config e e'"
  by (cases op) (auto simp: cw_export_metrics_def cw_export_events_def write_metric_records_def put_metric_data_def
    split: option.splits if_splits sum.splits dest!: records_config put_config)

lemma cw_call_one_path:
  "cw_call wr op e = (r, e') \<Longrightarrow> (CwPutter e = None \<longrightarrow> CwPuts e' = CwPuts e)
    \<and> (CwPutter e \<noteq> None \<longrightarrow> (\<exists>ms. op = ExportMetrics ms) \<longrightarrow> CwBuf e' = CwBuf e)"
  by (cases op) (auto simp: cw_export_metrics_def cw_export_events_def write_metric_records_def put_metric_data_def
    split: option.splits if_splits sum.splits dest!: records_config put_config)

lemma accounts_call:
  assumes wr: "io_writer wr content" and a: "accounts content (CwBuf e) s" and open': "\<not> CwClosed e"
    and run: "cw_call wr op e = (r, e')"
  shows "accounts content (CwBuf e') (s @ op_lines e op)"
proof (cases op)
  case (ExportMetrics ms)
  show ?thesis
  proof (cases "CwPutter e")
    case None
    show ?thesis
    proof (cases "ms = []")
      case False
      then have "write_records wr (build_metric_record (CwNamespace e) (CwUnit e)) ms e = (r, e')"
        using run None open' by (simp add: ExportMetrics cw_export_metrics_def write_metric_records_def)
      from accounts_records [OF wr a this] show ?thesis by (simp add: ExportMetrics None)
    qed (use a run None in \<open>simp add: ExportMetrics cw_export_metrics_def\<close>)
  next
    case (Some put)
    then have "CwBuf e' = CwBuf e" using cw_call_one_path [OF run] ExportMetrics by auto
    then show ?thesis using a Some by (simp add: ExportMetrics)
  qed
next
  case (ExportEvents os)
  show ?thesis
  proof (cases "os = []")
    case False
    then have "write_records wr (\<lambda>o'. Inr (build_event_record o')) os e = (r, e')"
      using run open' by (simp add: ExportEvents cw_export_events_def)
    from accounts_records [OF wr a this] show ?thesis by (simp add: ExportEvents)
  qed (use a run in \<open>simp add: ExportEvents cw_export_events_def\<close>)
qed

lemma same_config_lines: "same_config e e' \<Longrightarrow> op_lines e' op = op_lines e op"
  by (cases op) (simp_all add: same_config_def)

lemma accounts_calls:
  assumes wr: "io_writer wr content"
  shows "accounts content (CwBuf e) s \<Longrightarrow> \<not> CwClosed e
    \<Longrightarrow> accounts content (CwBuf (cw_calls wr ops e)) (s @ concat (map (op_lines e) ops)) \<and> same_config e (cw_calls wr ops e)"
proof (induction ops arbitrary: e s)
  case (Cons op ops)
  obtain r e' where run: "cw_call wr op e = (r, e')" by (cases "cw_call wr op e")
  have c: "same_config e e'" by (rule cw_call_config [OF run])
  then have "\<not> CwClosed e'" using Cons.prems(2) by (simp add: same_config_def)
  from Cons.IH [OF accounts_call [OF wr Cons.prems run] this] show ?case
    using run c same_config_lines [OF c] by (auto simp: cw_calls_def same_config_def)
qed (simp add: cw_calls_def)

section \<open>Properties\<close>

definition cw_empty_batch :: "cw_op \<Rightarrow> bool" where
  "cw_empty_batch op \<longleftrightarrow> op = ExportMetrics [] \<or> op = ExportEvents []"

lemma cw_closed_refuses:
  "CwClosed e \<Longrightarrow> cw_call wr op e = (if cw_empty_batch op then None else Some CwShutdown, e)"
  by (cases op) (auto simp: cw_empty_batch_def cw_export_metrics_def cw_export_events_def write_metric_records_def
    split: option.splits)

lemma new_cloudwatch_fresh:
  "BufErr (CwBuf (new_cloudwatch w opts)) = None" "BufData (CwBuf (new_cloudwatch w opts)) = []"
  "\<not> CwClosed (new_cloudwatch w opts)"
  by (simp_all add: new_cloudwatch_def bufio_new_def Let_def)

text \<open>What the log holds once every batch has reached it.\<close>

definition delivered :: "('w \<Rightarrow> string) \<Rightarrow> 'w cw_exporter \<Rightarrow> cw_op list \<Rightarrow> string" where
  "delivered content e ops = content (BufSink (CwBuf e)) @ concat (map (op_lines e) ops)"

text \<open>C16: through any writer that keeps its contract, the CloudWatch log at any time is what it held before and
  a prefix of the records of the batches exported so far, in order, each on its line; a shutdown that reports
  no error has delivered all of them, and afterwards every batch is refused and changes nothing.\<close>

theorem cloudwatch_delivery:
  assumes wr: "io_writer wr content" and e: "e = new_cloudwatch stdout opts"
    and run: "cw_shutdown wr (cw_calls wr ops e) = (r, e')"
  shows "prefix (content (BufSink (CwBuf (cw_calls wr ops e)))) (delivered content e ops)
    \<and> prefix (content (BufSink (CwBuf e'))) (delivered content e ops)
    \<and> (r = None \<longrightarrow> content (BufSink (CwBuf e')) = delivered content e ops)
    \<and> (\<forall>op. \<not> cw_empty_batch op \<longrightarrow> cw_call wr op e' = (Some CwShutdown, e'))"
proof -
  have "accounts content (CwBuf e) (content (BufSink (CwBuf e)))"
    using new_cloudwatch_fresh [of stdout opts] by (simp add: e accounts_def)
  from accounts_calls [OF wr this]
  have acc: "accounts content (CwBuf (cw_calls wr ops e)) (delivered content e ops)"
    using new_cloudwatch_fresh [of stdout opts] unfolding delivered_def e by blast
  note fl = accounts_flush [OF wr acc]
  have e': "CwBuf e' = bufio_flush wr (CwBuf (cw_calls wr ops e))" "CwClosed e'"
    "r = map_option FlushError (BufErr (CwBuf e'))"
    using run by (auto simp: cw_shutdown_def Let_def)
  have "prefix (content (BufSink (CwBuf (cw_calls wr ops e)))) (delivered content e ops)"
    using acc by (simp add: accounts_def)
  moreover have "prefix (content (BufSink (CwBuf e'))) (delivered content e ops)"
    "r = None \<longrightarrow> content (BufSink (CwBuf e')) = delivered content e ops"
    using fl e' by (auto simp: accounts_def)
  ultimately show ?thesis using cw_closed_refuses [OF e'(2)] by simp
qed

text \<open>The direct path: every datum once and in order, in calls of one to a thousand, up to a call that fails.\<close>

lemma put_chunks_calls:
  "put_chunks put ds e = (r, e') \<Longrightarrow>
    \<exists>cs rest. CwPuts e' = CwPuts e @ map (Pair (CwNamespace e)) cs \<and> concat cs @ rest = ds
      \<and> (\<forall>c \<in> set cs. c \<noteq> [] \<and> length c \<le> max_datums) \<and> (r = None \<longrightarrow> rest = [])"
proof (induction put ds e arbitrary: r rule: put_chunks.induct)
  case (1 put ds e)
  let ?calls = "CwPuts e @ [(CwNamespace e, take max_datums ds)]"
  show ?case
  proof (cases "ds = []")
    case True
    then show ?thesis using "1.prems" by (intro exI [of _ "[]"]) (simp add: put_chunks.simps)
  next
    case False
    have c: "take max_datums ds \<noteq> []" "length (take max_datums ds) \<le> max_datums" using False by (simp_all add: max_datums_def)
    show ?thesis
    proof (cases "put ?calls")
      case None
      then have "put_chunks put (drop max_datums ds) (e\<lparr>CwPuts := ?calls\<rparr>) = (r, e')"
        using "1.prems" False by (simp add: put_chunks.simps [of put ds])
      from "1.IH" [OF False refl refl None this] obtain cs rest where
        "CwPuts e' = ?calls @ map (Pair (CwNamespace e)) cs" "concat cs @ rest = drop max_datums ds"
        "\<forall>c \<in> set cs. c \<noteq> [] \<and> length c \<le> max_datums" "r = None \<longrightarrow> rest = []"
        by auto
      then show ?thesis using c by (intro exI [of _ "take max_datums ds # cs"] exI [of _ rest]) simp
    next
      case (Some x)
      then have "r = Some (PutError x)" "CwPuts e' = ?calls" using "1.prems" False by (auto simp: put_chunks.simps [of put ds])
      then show ?thesis using c by (intro exI [of _ "[take max_datums ds]"] exI [of _ "drop max_datums ds"]) simp
    qed
  qed
qed

text \<open>A log that takes everything, and one that is full after ten bytes.\<close>

definition log_write :: "string sink_write" where
  "log_write w p = (w @ p, None)"

definition full_write :: "string sink_write" where
  "full_write w p =
     (let room = 10 - length w in if length p \<le> room then (w @ p, None) else (w @ take room p, Some (room, ''no space left'')))"

lemma log_writer: "io_writer log_write id"
  by (simp add: io_writer_def log_write_def)

lemma full_writer: "io_writer full_write id"
  by (simp add: io_writer_def full_write_def Let_def)

definition demo_point :: metric_point where
  "demo_point = \<lparr>PName = ''biz_txn_total'', PLabels = [(''flow'', ''checkout'')], PValue = 3, PAt = 0\<rparr>"

lemma cloudwatch_delivery_witness:
  "\<exists>r e'. cw_shutdown full_write (cw_calls full_write [ExportMetrics [demo_point]] (new_cloudwatch [] [])) = (r, e')
    \<and> prefix (BufSink (CwBuf e')) (delivered id (new_cloudwatch [] []) [ExportMetrics [demo_point]])"
proof -
  obtain r e' where run: "cw_shutdown full_write (cw_calls full_write [ExportMetrics [demo_point]] (new_cloudwatch [] [])) = (r, e')"
    by (cases "cw_shutdown full_write (cw_calls full_write [ExportMetrics [demo_point]] (new_cloudwatch [] []))")
  then show ?thesis using cloudwatch_delivery [OF full_writer refl run] by auto
qed

text \<open>A flush that failed is not repeated: every further shutdown reports its error again.\<close>

lemma shutdown_error_sticks: "cw_shutdown wr e = (Some x, e') \<Longrightarrow> cw_shutdown wr e' = (Some x, e')"
  by (auto simp: cw_shutdown_def Let_def bufio_flush_def split: if_splits prod.splits option.splits)

end
