(* ===== verification/Cloudwatch_Backend.thy ===== *)
theory Cloudwatch_Backend
  imports Cloudwatch_Trip Cloudwatch_Export Engine_Realized
begin

text \<open>
  The Insights querier over a log group the exporter wrote. A log group is the lines with their timestamps; what
  the service does with them is the hypothesis \<open>insights_serves\<close>, in both spellings of a row the querier reads.
  Main result: the querier is an event backend over the outcomes read back, so the engine's legs on it are exact.
\<close>

section \<open>The log group\<close>

type_synonym log_entry = "string \<times> time"

definition log_stamp :: "time \<Rightarrow> time" where
  "log_stamp t = milli_time (sint (unix_milli_i64 t))"

fun built_entries :: "('a \<Rightarrow> cw_error + string) \<Rightarrow> ('a \<Rightarrow> time) \<Rightarrow> 'a list \<Rightarrow> log_entry list" where
  "built_entries build t [] = []"
| "built_entries build t (x # xs) =
     (case build x of Inl _ \<Rightarrow> [] | Inr line \<Rightarrow> (line, log_stamp (t x)) # built_entries build t xs)"

fun op_entries :: "'w cw_exporter \<Rightarrow> cw_op \<Rightarrow> log_entry list" where
  "op_entries e (ExportMetrics ms) =
     (if CwPutter e = None then built_entries (build_metric_record (CwNamespace e) (CwUnit e)) PAt ms else [])"
| "op_entries e (ExportEvents os) = built_entries (\<lambda>o'. Inr (build_event_record o')) At os"

definition log_of :: "'w cw_exporter \<Rightarrow> cw_op list \<Rightarrow> log_entry list" where
  "log_of e ops = concat (map (op_entries e) ops)"

fun op_outcomes :: "cw_op \<Rightarrow> outcome list" where
  "op_outcomes (ExportMetrics ms) = []"
| "op_outcomes (ExportEvents os) = os"

text \<open>The store as the log remembers it.\<close>

definition recalled :: "cw_op list \<Rightarrow> outcome list" where
  "recalled ops = map (\<lambda>o'. readback (log_stamp (At o')) o') (concat (map op_outcomes ops))"

definition marked :: "log_entry \<Rightarrow> bool" where
  "marked e \<longleftrightarrow> decode_one_string event_key_name (fst e) = Some event_outcome"

section \<open>Metric lines are not marked\<close>

definition metric_names :: "string list" where
  "metric_names = [''biz_value_total'', ''biz_txn_total'', ''biz_inflight_value'', ''biz_inflight_count'',
     ''biz_provider_calls_total'', ''biz_dropped_events_total'']"

definition metric_keys :: "string list" where
  "metric_keys = ''_aws'' # metric_names @ value_dims @ txn_dims @ inflight_dims @ provider_dims @ dropped_dims"

lemma metric_keys_plain:
  "list_all (\<lambda>k. sanitize k = k \<and> field_of [event_key_name] k = None \<and> k \<noteq> event_key_name) metric_keys"
  by code_simp

lemma dims_known: "dims_for n = Some dims \<Longrightarrow> n \<in> set metric_names \<and> set dims \<subseteq> set metric_keys"
proof -
  assume d: "dims_for n = Some dims"
  then have "n \<in> set metric_names" by (auto simp: dims_for_def metric_names_def split: if_split_asm)
  moreover have "dims \<in> {value_dims, txn_dims, inflight_dims, provider_dims, dropped_dims}"
    using d by (simp add: dims_for_def split: if_split_asm)
  then have "set dims \<subseteq> set metric_keys" by (auto simp: metric_keys_def)
  ultimately show ?thesis by blast
qed

lemma fold_put_ok: "map_ok m \<Longrightarrow> map_ok (fold (\<lambda>d. map_put d (f d)) dims m)"
  by (induction dims arbitrary: m) simp_all

lemma fold_put_get:
  "map_of (fold (\<lambda>d. map_put d (f d)) dims m) k = Some v \<Longrightarrow> (k \<in> set dims \<and> v = f k) \<or> map_of m k = Some v"
proof (induction dims arbitrary: m)
  case (Cons d dims)
  then have "(k \<in> set dims \<and> v = f k) \<or> map_of (map_put d (f d) m) k = Some v" using Cons.IH [of "map_put d (f d) m"] by simp
  then show ?case by (auto split: if_splits)
qed simp

lemma emf_meta_shape: "json_wf (emf_meta t ns dims n u) \<and> json_depth (emf_meta t ns dims n u) \<le> 5"
proof -
  have "fold max (map (json_depth \<circ> JStr) dims) 0 \<le> 0" by (rule fold_max_le) auto
  then show ?thesis by (auto simp: emf_meta_def json_int_def list_all_iff comp_def)
qed

lemma metric_unmarked:
  assumes "build_metric_record ns u p = Inr line"
  shows "decode_one_string event_key_name line = Some []"
proof -
  obtain dims where d: "dims_for (PName p) = Some dims" using assms by (auto simp: build_metric_record_def split: option.splits)
  let ?base = "[(''_aws'', emf_meta (PAt p) ns dims (PName p) u), (PName p, json_int (sint (PValue p)))]"
  let ?m = "fold (\<lambda>d. map_put d (JStr (map_get [] (PLabels p) d))) dims (map_lit ?base)"
  have line: "line = render_json (json_map ?m)" using assms d by (simp add: build_metric_record_def Let_def)
  have ok: "map_ok ?m" by (rule fold_put_ok) simp
  have base: "map_of (map_lit ?base) k = map_of ?base k" for k
    by (rule map_lit_get) (use dims_known [OF d] in \<open>auto simp: metric_names_def\<close>)
  have shape: "json_wf v \<and> json_depth v \<le> 5" if "map_of ?m k = Some v" for k v
    using fold_put_get [OF that] emf_meta_shape unfolding base by (auto simp: json_int_def split: if_splits)
  have known: "k \<in> set metric_keys" if "map_of ?m k = Some v" for k v
  proof -
    have "k \<in> set dims \<or> k = ''_aws'' \<or> k = PName p"
      using fold_put_get [OF that] unfolding base by (auto split: if_splits)
    then show ?thesis using dims_known [OF d] by (auto simp: metric_keys_def)
  qed
  have plain: "plain_keys [event_key_name] ?m"
    using known metric_keys_plain map_ok_map_of [OF ok] by (fastforce simp: plain_keys_def list_all_iff)
  have "map_of ?m event_key_name = None"
    using known [of event_key_name] metric_keys_plain by (cases "map_of ?m event_key_name") (auto simp: list_all_iff)
  then have "values_for [event_key_name] event_key_name (canon_members ?m) = []"
    using values_for_map [OF ok plain, of event_key_name] by simp
  moreover have "parse_json line = Some (JObj (canon_members ?m))"
    unfolding line by (rule parse_json_map [OF ok shape]) (simp_all add: max_nesting_def)
  ultimately show ?thesis by (simp add: decode_one_string_def)
qed

lemma marked_entries:
  "[x \<leftarrow> log_of e ops. marked x] = map (\<lambda>o'. (build_event_record o', log_stamp (At o'))) (concat (map op_outcomes ops))"
proof -
  have m: "[x \<leftarrow> built_entries (build_metric_record ns u) PAt ms. marked x] = []" for ns u ms
  proof (induction ms)
    case (Cons p ms)
    have "[] \<noteq> event_outcome" by (simp add: event_outcome_def)
    then show ?case using Cons metric_unmarked by (auto simp: marked_def split: sum.splits)
  qed simp
  have v: "[x \<leftarrow> built_entries (\<lambda>o'. Inr (build_event_record o')) At os. marked x]
      = map (\<lambda>o'. (build_event_record o', log_stamp (At o'))) os" for os
    by (induction os) (simp_all add: marked_def event_marker)
  have "[x \<leftarrow> op_entries e op. marked x] = map (\<lambda>o'. (build_event_record o', log_stamp (At o'))) (op_outcomes op)" for op
    by (cases op) (simp_all add: m v)
  then show ?thesis by (simp add: log_of_def filter_concat map_concat comp_def)
qed

section \<open>What the service answers\<close>

text \<open>A row of an answer: as AWS spells it, with a pointer column and a formatted time, or as LocalStack does,
  with the milliseconds as a number.\<close>

definition insights_col :: "string \<Rightarrow> json \<Rightarrow> json" where
  "insights_col f v = JObj [(''field'', JStr f), (''value'', v)]"

definition insights_row :: "log_entry \<Rightarrow> json \<Rightarrow> bool" where
  "insights_row e row \<longleftrightarrow>
     (\<exists>p. row = JArr [insights_col ''@message'' (JStr (fst e)), insights_col ''@timestamp'' (JStr (format_millis (snd e))),
            insights_col ''@ptr'' (JStr p)])
     \<or> row = JArr [insights_col ''@message'' (JStr (fst e)), insights_col ''@timestamp'' (JNum (format_int (unix_milli (snd e))))]"

text \<open>An instant the service can spell.\<close>

definition spellable :: "time \<Rightarrow> bool" where
  "spellable t \<longleftrightarrow> t = milli_time (unix_milli t) \<and> in_i64 (unix_milli t) \<and> 0 \<le> year_of t \<and> year_of t \<le> 9999"

definition insights_answer :: "string \<Rightarrow> string \<Rightarrow> json list \<Rightarrow> bool" where
  "insights_answer raw status rows \<longleftrightarrow>
     (\<exists>ms. parse_json raw = Some (JObj ms)
        \<and> values_for [''status'', ''results''] ''status'' ms = [JStr status]
        \<and> values_for [''status'', ''results''] ''results'' ms = [JArr rows])"

text \<open>An Insights query: the log group, the seconds it runs between, both included, the one field its filter asks
  for, and its limit; and the body of the request that starts it.\<close>

record insights_query =
  IqGroup :: string
  IqStart :: int
  IqEnd :: int
  IqField :: string
  IqValue :: string
  IqLimit :: nat

definition insights_json :: "insights_query \<Rightarrow> json" where
  "insights_json iq = JObj
     [(''endTime'', JNum (format_int (IqEnd iq))), (''logGroupName'', JStr (IqGroup iq)),
      (''queryString'', JStr (''fields @message, @timestamp | filter '' @ IqField iq @ '' = '' @ [CHR 0x22] @ IqValue iq @ [CHR 0x22]
         @ '' | limit '' @ digits_of (IqLimit iq))),
      (''startTime'', JNum (format_int (IqStart iq)))]"

definition insights_match :: "insights_query \<Rightarrow> log_entry \<Rightarrow> bool" where
  "insights_match iq e \<longleftrightarrow> decode_one_string (IqField iq) (fst e) = Some (IqValue iq)"

definition insights_hit :: "insights_query \<Rightarrow> log_entry \<Rightarrow> bool" where
  "insights_hit iq e \<longleftrightarrow> insights_match iq e \<and> IqStart iq \<le> time_unix (snd e) \<and> time_unix (snd e) \<le> IqEnd iq"

text \<open>The service answers the \<open>n\<close>th call, if it is the action with that body as the API wants it, whatever the
  signature: the caller's credentials are taken to be good.\<close>

definition insights_replies :: "outside \<Rightarrow> nat \<Rightarrow> string \<Rightarrow> json \<Rightarrow> string \<Rightarrow> bool" where
  "insights_replies w n action body out \<longleftrightarrow>
     (\<forall>req. ReqMethod req = ''POST'' \<and> map_get [] (ReqHeaders req) ''X-Amz-Target'' = ''Logs_20140328.'' @ action
        \<and> map_get [] (ReqHeaders req) ''Content-Type'' = ''application/x-amz-json-1.1'' \<and> ReqBody req = render_json body
        \<longrightarrow> http_do w n req = Inr (200, Inr out))"

text \<open>The service runs a query over a log group: it starts, is scheduled or running for a while, and completes
  with fewer rows than its limit, which are the lines the filter asks for between the bounds in any order, and perhaps
  lines without the field (LocalStack ignores the filter).\<close>

definition insights_executes :: "cw_querier \<Rightarrow> outside \<Rightarrow> log_entry list \<Rightarrow> insights_query \<Rightarrow> bool" where
  "insights_executes q w entries iq \<longleftrightarrow>
     (\<exists>host. parse_url w (CqEndpoint q @ ''/'') = Inr host)
     \<and> (\<exists>start qid n raw rows hits.
        insights_replies w 0 ''StartQuery'' (insights_json iq) start
        \<and> decode_one_string ''queryId'' start = Some qid \<and> qid \<noteq> []
        \<and> (\<forall>i < n. \<exists>raw status part rows. insights_replies w (Suc i) ''GetQueryResults'' (JObj [(''queryId'', JStr qid)]) raw
             \<and> insights_answer raw status rows \<and> list_all2 insights_row part rows \<and> list_all (\<lambda>e. spellable (snd e)) part
             \<and> status \<in> {''Scheduled'', ''Running''} \<and> ctx_done w (Suc i) = None)
        \<and> insights_replies w (Suc n) ''GetQueryResults'' (JObj [(''queryId'', JStr qid)]) raw
        \<and> insights_answer raw ''Complete'' rows \<and> list_all2 insights_row hits rows \<and> length hits < IqLimit iq
        \<and> mset [e \<leftarrow> hits. insights_match iq e] = mset [e \<leftarrow> entries. insights_hit iq e]
        \<and> list_all (\<lambda>e. spellable (snd e)) hits)"

text \<open>The query a question asks for: the outcome events of the log group, in the seconds of its window widened by one
  at each end, the exact window being cut afterwards.\<close>

definition outcomes_between :: "cw_querier \<Rightarrow> event_query \<Rightarrow> insights_query" where
  "outcomes_between q qy =
     \<lparr>IqGroup = CqLogGroup q, IqStart = time_unix (From (ERange qy)) - 1, IqEnd = time_unix (To (ERange qy)) + 1,
      IqField = ''event'', IqValue = ''biz.outcome'', IqLimit = 10000\<rparr>"

definition insights_serves :: "cw_querier \<Rightarrow> outside \<Rightarrow> log_entry list \<Rightarrow> event_query \<Rightarrow> bool" where
  "insights_serves q w entries qy \<longleftrightarrow> insights_executes q w entries (outcomes_between q qy)"

text \<open>What the code's own calls give over such a service.\<close>

definition in_bounds :: "event_query \<Rightarrow> log_entry \<Rightarrow> bool" where
  "in_bounds qy e \<longleftrightarrow> time_unix (From (ERange qy)) - 1 \<le> time_unix (snd e) \<and> time_unix (snd e) \<le> time_unix (To (ERange qy)) + 1"

definition insights_runs :: "cw_querier \<Rightarrow> outside \<Rightarrow> log_entry list \<Rightarrow> event_query \<Rightarrow> bool" where
  "insights_runs q w entries qy \<longleftrightarrow>
     (\<exists>start qid n raw rows hits.
        cwi_call q w 0 ''StartQuery'' (start_body q qy) = Inr start
        \<and> decode_one_string ''queryId'' start = Some qid \<and> qid \<noteq> []
        \<and> (\<forall>i < n. \<exists>raw status part rows. cwi_call q w (Suc i) ''GetQueryResults'' (json_map [(''queryId'', JStr qid)]) = Inr raw
             \<and> insights_answer raw status rows \<and> list_all2 insights_row part rows \<and> list_all (\<lambda>e. spellable (snd e)) part
             \<and> status \<in> {''Scheduled'', ''Running''} \<and> ctx_done w (Suc i) = None)
        \<and> cwi_call q w (Suc n) ''GetQueryResults'' (json_map [(''queryId'', JStr qid)]) = Inr raw
        \<and> insights_answer raw ''Complete'' rows \<and> list_all2 insights_row hits rows \<and> length hits < row_cap
        \<and> mset [e \<leftarrow> hits. marked e] = mset [e \<leftarrow> entries. marked e \<and> in_bounds qy e]
        \<and> list_all (\<lambda>e. spellable (snd e)) hits)"

lemma replied_call:
  assumes "parse_url w (CqEndpoint q @ ''/'') = Inr host" "insights_replies w n action body out"
  shows "cwi_call q w n action body = Inr out"
proof -
  obtain h p qs where host: "host = (h, p, qs)" by (cases host) auto
  let ?req = "\<lparr>ReqMethod = ''POST'', ReqHost = h, UrlHost = h, UrlPath = p, UrlQuery = qs,
      ReqHeaders = map_put ''X-Amz-Target'' (''Logs_20140328.'' @ action) (map_put ''Content-Type'' ''application/x-amz-json-1.1'' []),
      ReqBody = render_json body\<rparr>"
  let ?signed = "sign_v4 (crypto w) ?req (render_json body) (CqCreds q) (CqRegion q) (clock_at w n)"
  have "ReqMethod ?signed = ''POST''" "ReqBody ?signed = render_json body"
    "map_get [] (ReqHeaders ?signed) ''X-Amz-Target'' = ''Logs_20140328.'' @ action"
    "map_get [] (ReqHeaders ?signed) ''Content-Type'' = ''application/x-amz-json-1.1''"
    by (simp_all add: sign_v4_def sign_v4_svc_def Let_def map_get_def)
  then have "http_do w n ?signed = Inr (200, Inr out)" using assms(2) unfolding insights_replies_def by blast
  then show ?thesis using assms(1) by (simp add: cwi_call_def Let_def host)
qed

lemma started_query: "start_body q qy = insights_json (outcomes_between q qy)"
proof -
  have d: "digits_of 10000 = ''10000''" by code_simp
  show ?thesis
    by (simp add: start_body_def insights_json_def outcomes_between_def json_map_def map_lit_def sorted_keys_def map_get_def
        json_int_def query_string_def quote_mark_def d)
qed

lemma polled_query: "json_map [(''queryId'', JStr qid)] = JObj [(''queryId'', JStr qid)]"
  by (simp add: json_map_def sorted_keys_def map_get_def)

lemma asked_for: "insights_match (outcomes_between q qy) = marked"
  "insights_hit (outcomes_between q qy) e \<longleftrightarrow> marked e \<and> in_bounds qy e"
proof -
  show "insights_match (outcomes_between q qy) = marked"
    by (simp add: fun_eq_iff insights_match_def outcomes_between_def marked_def event_key_name_def event_outcome_def)
  then show "insights_hit (outcomes_between q qy) e \<longleftrightarrow> marked e \<and> in_bounds qy e"
    by (simp add: insights_hit_def in_bounds_def outcomes_between_def)
qed

lemma served_runs:
  assumes "insights_serves q w entries qy"
  shows "insights_runs q w entries qy"
proof -
  let ?iq = "outcomes_between q qy"
  obtain host start qid n raw rows hits where u: "parse_url w (CqEndpoint q @ ''/'') = Inr host"
    and s: "insights_replies w 0 ''StartQuery'' (insights_json ?iq) start" "decode_one_string ''queryId'' start = Some qid" "qid \<noteq> []"
    and wait: "\<forall>i < n. \<exists>raw status part rows. insights_replies w (Suc i) ''GetQueryResults'' (JObj [(''queryId'', JStr qid)]) raw
       \<and> insights_answer raw status rows \<and> list_all2 insights_row part rows \<and> list_all (\<lambda>e. spellable (snd e)) part
       \<and> status \<in> {''Scheduled'', ''Running''} \<and> ctx_done w (Suc i) = None"
    and fin: "insights_replies w (Suc n) ''GetQueryResults'' (JObj [(''queryId'', JStr qid)]) raw"
      "insights_answer raw ''Complete'' rows" "list_all2 insights_row hits rows" "length hits < IqLimit ?iq"
      "mset [e \<leftarrow> hits. insights_match ?iq e] = mset [e \<leftarrow> entries. insights_hit ?iq e]"
      "list_all (\<lambda>e. spellable (snd e)) hits"
    using assms unfolding insights_serves_def insights_executes_def by blast
  note call = replied_call [OF u]
  have wait': "\<forall>i < n. \<exists>raw status part rows. cwi_call q w (Suc i) ''GetQueryResults'' (JObj [(''queryId'', JStr qid)]) = Inr raw
       \<and> insights_answer raw status rows \<and> list_all2 insights_row part rows \<and> list_all (\<lambda>e. spellable (snd e)) part
       \<and> status \<in> {''Scheduled'', ''Running''} \<and> ctx_done w (Suc i) = None"
    using wait call by meson
  have cap: "length hits < row_cap" using fin(4) by (simp add: outcomes_between_def row_cap_def)
  show ?thesis
    unfolding insights_runs_def started_query polled_query
    using call [OF s(1)] s(2,3) wait' call [OF fin(1)] fin(2,3) cap fin(5) [unfolded asked_for] fin(6) by blast
qed

section \<open>Reading the rows\<close>

lemma into_elements_fresh:
  "list_all2 (\<lambda>v y. into v z = Some y) vs ys \<Longrightarrow> into_elements into z vs [] = Some ys"
  by (induction vs ys rule: list_all2_induct) auto

lemma slice_fresh:
  assumes "list_all2 (\<lambda>v y. into v z = Some y) vs ys"
  shows "map_option slice_items (into_slice into z (JArr vs) (0, [])) = Some ys"
proof -
  have "into_elements into z vs [] = Some ys" using assms by (rule into_elements_fresh)
  then show ?thesis using list_all2_lengthD [OF assms] assms by (auto simp: slice_items_def)
qed

lemma into_column_col: "into_column (insights_col f v) zero_column = Some \<lparr>ColField = f, ColValue = Some v\<rparr>"
proof -
  have "field_of [''field'', ''value''] ''field'' = Some ''field''" "field_of [''field'', ''value''] ''value'' = Some ''value''"
    by (simp_all add: field_of_def)
  then show ?thesis by (simp add: into_column_def insights_col_def values_for_def zero_column_def)
qed

text \<open>What an instant's two spellings parse to.\<close>

lemma parse_digits_blank: "CHR '' '' \<in> set s \<Longrightarrow> parse_digits k s = None"
  by (induction s arbitrary: k) (auto simp: is_digit_iff)

lemma parse_int_blank: "CHR '' '' \<in> set s \<Longrightarrow> parse_int bits s = None"
  by (cases s) (auto simp: parse_int_def Let_def parse_uint_def parse_digits_blank is_digit_iff)

lemma parse_millis_text:
  assumes "spellable t"
  shows "parse_timestamp (Some (JStr (format_millis t))) = Some t"
proof -
  have t: "parse_millis (format_millis t) = Some t"
    using parse_format_millis [of t] assms by (simp add: spellable_def)
  have "CHR '' '' \<in> set (format_millis t)" by (simp add: format_millis_def Let_def)
  then have "parse_int 64 (format_millis t) = None" by (rule parse_int_blank)
  then show ?thesis using t by (simp add: parse_timestamp_def raw_string_def)
qed

lemma parse_millis_number:
  assumes "spellable t"
  shows "parse_timestamp (Some (JNum (format_int (unix_milli t)))) = Some t"
proof -
  have "parse_int 64 (format_int (unix_milli t)) = Some (unix_milli t)"
    using assms by (intro parse_int_format_int) (auto simp: spellable_def in_i64_def)
  then show ?thesis using assms by (simp add: parse_timestamp_def spellable_def)
qed

lemma row_reads:
  assumes "insights_row e row" and "spellable (snd e)"
  shows "\<exists>s. into_slice into_column zero_column row (0, []) = Some s \<and> read_columns (slice_items s) [] zero_time = Inr e"
proof -
  let ?c = "\<lambda>f v. \<lparr>ColField = f, ColValue = Some v\<rparr>"
  from assms(1) consider p where "row = JArr [insights_col ''@message'' (JStr (fst e)),
        insights_col ''@timestamp'' (JStr (format_millis (snd e))), insights_col ''@ptr'' (JStr p)]"
    | "row = JArr [insights_col ''@message'' (JStr (fst e)), insights_col ''@timestamp'' (JNum (format_int (unix_milli (snd e))))]"
    by (auto simp: insights_row_def)
  then show ?thesis
  proof cases
    case (1 p)
    have "map_option slice_items (into_slice into_column zero_column row (0, []))
        = Some [?c ''@message'' (JStr (fst e)), ?c ''@timestamp'' (JStr (format_millis (snd e))), ?c ''@ptr'' (JStr p)]"
      unfolding 1 by (rule slice_fresh) (simp add: into_column_col)
    then show ?thesis using parse_millis_text [OF assms(2)] by (auto simp: raw_string_def)
  next
    case 2
    have "map_option slice_items (into_slice into_column zero_column row (0, []))
        = Some [?c ''@message'' (JStr (fst e)), ?c ''@timestamp'' (JNum (format_int (unix_milli (snd e))))]"
      unfolding 2 by (rule slice_fresh) (simp add: into_column_col)
    then show ?thesis using parse_millis_number [OF assms(2)] by (auto simp: raw_string_def)
  qed
qed

lemma results_decode:
  assumes "insights_answer raw status rows" and "list_all2 insights_row hits rows" and "list_all (\<lambda>e. spellable (snd e)) hits"
  shows "\<exists>cols. decode_results raw = Some (status, cols) \<and> list_all2 (\<lambda>e c. read_columns c [] zero_time = Inr e) hits cols"
proof -
  obtain ms where ms: "parse_json raw = Some (JObj ms)" "values_for [''status'', ''results''] ''status'' ms = [JStr status]"
    "values_for [''status'', ''results''] ''results'' ms = [JArr rows]"
    using assms(1) by (auto simp: insights_answer_def)
  have "\<exists>ss. list_all2 (\<lambda>v y. into_slice into_column zero_column v (0, []) = Some y) rows ss
      \<and> list_all2 (\<lambda>e s. read_columns (slice_items s) [] zero_time = Inr e) hits ss"
    using assms(2,3)
  proof (induction hits rows rule: list_all2_induct)
    case (Cons e es r rs)
    obtain s where "into_slice into_column zero_column r (0, []) = Some s" "read_columns (slice_items s) [] zero_time = Inr e"
      using row_reads [of e r] Cons by auto
    moreover obtain ss where "list_all2 (\<lambda>v y. into_slice into_column zero_column v (0, []) = Some y) rs ss"
      "list_all2 (\<lambda>e s. read_columns (slice_items s) [] zero_time = Inr e) es ss"
      using Cons by auto
    ultimately show ?case by (intro exI [of _ "s # ss"]) simp
  qed simp
  then obtain ss where ss: "list_all2 (\<lambda>v y. into_slice into_column zero_column v (0, []) = Some y) rows ss"
    "list_all2 (\<lambda>e s. read_columns (slice_items s) [] zero_time = Inr e) hits ss" by blast
  from slice_fresh [where into = "into_slice into_column zero_column" and z = "(0, [])", OF ss(1)]
  obtain sl where "into_slice (into_slice into_column zero_column) (0, []) (JArr rows) (0, []) = Some sl" "slice_items sl = ss"
    by auto
  then show ?thesis
    using ss(2) by (intro exI [of _ "map slice_items ss"]) (simp add: decode_results_def ms list_all2_conv_all_nth)
qed

definition entry_outcome :: "log_entry \<Rightarrow> outcome" where
  "entry_outcome e = projr (parse_line (fst e) (snd e))"

lemma rows_parse:
  "list_all2 (\<lambda>e c. read_columns c [] zero_time = Inr e) hits cols
    \<Longrightarrow> (\<And>e. e \<in> set hits \<Longrightarrow> marked e \<Longrightarrow> \<exists>o'. parse_line (fst e) (snd e) = Inr o')
    \<Longrightarrow> parse_rows cols = Inr (map entry_outcome [e \<leftarrow> hits. marked e])"
proof (induction hits cols rule: list_all2_induct)
  case (Cons e es c cs)
  obtain m t where e: "e = (m, t)" by (cases e)
  have rest: "parse_rows cs = Inr (map entry_outcome [e \<leftarrow> es. marked e])" using Cons by simp
  show ?case
  proof (cases "marked e")
    case True
    then obtain o' where "parse_line m t = Inr o'" using Cons.prems [of e] e by auto
    then show ?thesis using True rest Cons.hyps e by (simp add: marked_def entry_outcome_def)
  next
    case False
    then show ?thesis using rest Cons.hyps e by (simp add: marked_def)
  qed
qed simp

lemma poll_waits:
  "(\<And>i. i < k \<Longrightarrow> poll_result w (m + i) (cwi_call q w (m + i) ''GetQueryResults'' body) = None)
    \<Longrightarrow> poll_loop q w body m = poll_loop q w body (m + k)"
proof (induction k)
  case (Suc k)
  have "poll_result w (m + k) (cwi_call q w (m + k) ''GetQueryResults'' body) = None" using Suc.prems by simp
  then have "poll_loop q w body (m + k) = poll_loop q w body (Suc (m + k))" by (simp add: poll_loop.simps [of q w body "m + k"])
  then show ?case using Suc by simp
qed simp

lemma fetch_served:
  assumes serves: "insights_serves q w entries qy"
    and "\<And>e. e \<in> set entries \<Longrightarrow> marked e \<Longrightarrow> \<exists>o'. parse_line (fst e) (snd e) = Inr o'"
  shows "\<exists>evs. cwi_fetch q w qy = Some (Inr evs)
    \<and> mset evs = mset (map entry_outcome [e \<leftarrow> entries. marked e \<and> in_bounds qy e])"
proof -
  obtain start qid n raw rows hits where s: "cwi_call q w 0 ''StartQuery'' (start_body q qy) = Inr start"
      "decode_one_string ''queryId'' start = Some qid" "qid \<noteq> []"
    and wait: "\<forall>i < n. \<exists>raw status part rows. cwi_call q w (Suc i) ''GetQueryResults'' (json_map [(''queryId'', JStr qid)]) = Inr raw
       \<and> insights_answer raw status rows \<and> list_all2 insights_row part rows \<and> list_all (\<lambda>e. spellable (snd e)) part
       \<and> status \<in> {''Scheduled'', ''Running''} \<and> ctx_done w (Suc i) = None"
    and fin: "cwi_call q w (Suc n) ''GetQueryResults'' (json_map [(''queryId'', JStr qid)]) = Inr raw"
      "insights_answer raw ''Complete'' rows" "list_all2 insights_row hits rows" "length hits < row_cap"
      "mset [e \<leftarrow> hits. marked e] = mset [e \<leftarrow> entries. marked e \<and> in_bounds qy e]"
      "list_all (\<lambda>e. spellable (snd e)) hits"
    using served_runs [OF serves] unfolding insights_runs_def by blast
  let ?body = "json_map [(''queryId'', JStr qid)]"
  have "poll_result w (1 + i) (cwi_call q w (1 + i) ''GetQueryResults'' ?body) = None" if i: "i < n" for i
  proof -
    obtain raw status part rows where a: "cwi_call q w (Suc i) ''GetQueryResults'' ?body = Inr raw"
      "insights_answer raw status rows" "list_all2 insights_row part rows" "list_all (\<lambda>e. spellable (snd e)) part"
      "status \<in> {''Scheduled'', ''Running''}" "ctx_done w (Suc i) = None"
      using wait i by blast
    obtain cols where "decode_results raw = Some (status, cols)" using results_decode [OF a(2,3,4)] by blast
    then show ?thesis using a(1,5,6) by (auto simp: poll_result_def)
  qed
  from poll_waits [of n w 1 q ?body, OF this]
  have loop: "poll_loop q w ?body 1 = poll_loop q w ?body (Suc n)" by simp
  obtain cols where cols: "decode_results raw = Some (''Complete'', cols)"
    "list_all2 (\<lambda>e c. read_columns c [] zero_time = Inr e) hits cols"
    using results_decode [OF fin(2,3,6)] by blast
  have "\<exists>o'. parse_line (fst e) (snd e) = Inr o'" if "e \<in> set hits" "marked e" for e
  proof -
    have "e \<in># mset [e \<leftarrow> hits. marked e]" using that by simp
    then have "e \<in> set entries" unfolding fin(5) by simp
    then show ?thesis using that(2) assms(2) by blast
  qed
  then have "parse_rows cols = Inr (map entry_outcome [e \<leftarrow> hits. marked e])" by (rule rows_parse [OF cols(2)])
  moreover have "length cols < row_cap" using fin(4) list_all2_lengthD [OF cols(2)] by simp
  ultimately have "poll_loop q w ?body (Suc n) = Some (Inr (map entry_outcome [e \<leftarrow> hits. marked e]))"
    using fin(1) cols(1) by (simp add: poll_loop.simps [of q w ?body "Suc n"] poll_result_def)
  then have "cwi_fetch q w qy = Some (Inr (map entry_outcome [e \<leftarrow> hits. marked e]))"
    using s loop by (simp add: cwi_fetch_def)
  moreover have "mset (map entry_outcome [e \<leftarrow> hits. marked e]) = mset (map entry_outcome [e \<leftarrow> entries. marked e \<and> in_bounds qy e])"
    by (simp only: mset_map fin(5))
  ultimately show ?thesis by blast
qed

section \<open>The same answers for the same events\<close>

lemma perm_sum: "mset xs = mset ys \<Longrightarrow> sum_i64 (map f xs) = sum_i64 (map f ys)"
proof -
  assume "mset xs = mset ys"
  then have "mset (map sint (map f xs)) = mset (map sint (map f ys))" by simp
  then have "sum_list (map sint (map f xs)) = sum_list (map sint (map f ys))"
    by (metis sum_mset_sum_list)
  then show ?thesis by (simp add: sum_i64_word_of_int)
qed

lemma answers_perm:
  assumes "mset (matched evs qy) = mset (matched evs' qy)"
  shows "answers evs qy gs \<longleftrightarrow> answers evs' qy gs"
proof -
  have s: "set (matched evs qy) = set (matched evs' qy)" using assms by (rule mset_eq_setD)
  have g: "mset (group_of evs qy k) = mset (group_of evs' qy k)" for k
    using assms by (simp add: group_of_def)
  have "length (group_of evs qy k) = length (group_of evs' qy k)" "set (group_of evs qy k) = set (group_of evs' qy k)"
    "sum_i64 (map amount_of (group_of evs qy k)) = sum_i64 (map amount_of (group_of evs' qy k))" for k
    using g [of k] by (auto dest: mset_eq_length mset_eq_setD intro: perm_sum)
  then show ?thesis by (simp add: answers_def s)
qed

section \<open>The backend\<close>

definition all_exportable :: "cw_op list \<Rightarrow> bool" where
  "all_exportable ops \<longleftrightarrow> list_all (\<lambda>op. list_all exportable (op_outcomes op)) ops"

lemma marked_parse:
  assumes "all_exportable ops" and "x \<in> set (log_of e ops)" and "marked x"
  shows "\<exists>o'. parse_line (fst x) (snd x) = Inr o'"
proof -
  have "x \<in> set [x \<leftarrow> log_of e ops. marked x]" using assms by simp
  then obtain o' where "x = (build_event_record o', log_stamp (At o'))" "o' \<in> set (concat (map op_outcomes ops))"
    unfolding marked_entries by auto
  moreover from this have "exportable o'" using assms(1) by (auto simp: all_exportable_def list_all_iff)
  ultimately show ?thesis using parse_exported by simp
qed

text \<open>The store between the bounds of a question.\<close>

lemma entries_between:
  assumes "all_exportable ops"
  shows "map entry_outcome [x \<leftarrow> log_of e ops. marked x \<and> in_bounds qy x]
    = [o' \<leftarrow> recalled ops. in_bounds qy ([], At o')]"
proof -
  let ?os = "concat (map op_outcomes ops)"
  let ?e = "\<lambda>o'. (build_event_record o', log_stamp (At o'))"
  have "[x \<leftarrow> log_of e ops. marked x \<and> in_bounds qy x] = [x \<leftarrow> [x \<leftarrow> log_of e ops. marked x]. in_bounds qy x]"
    by (simp add: conj_commute)
  then have l: "[x \<leftarrow> log_of e ops. marked x \<and> in_bounds qy x] = [x \<leftarrow> map ?e ?os. in_bounds qy x]"
    by (simp only: marked_entries)
  have x: "list_all exportable ?os" using assms by (induction ops) (auto simp: all_exportable_def)
  have "map entry_outcome [x \<leftarrow> map ?e os. in_bounds qy x]
      = [o' \<leftarrow> map (\<lambda>o'. readback (log_stamp (At o')) o') os. in_bounds qy ([], At o')]" if "list_all exportable os" for os
    using that by (induction os) (simp_all add: in_bounds_def entry_outcome_def parse_exported readback_def Let_def)
  from this [OF x] show ?thesis by (simp only: l recalled_def)
qed

lemma in_range_in_bounds: "in_range t (ERange qy) \<Longrightarrow> in_bounds qy ([], t)"
  using zdiv_mono1 [of "From (ERange qy)" t second] zdiv_mono1 [of t "To (ERange qy)" second]
  by (auto simp: in_range_def in_bounds_def time_unix_def second_def)

lemma cwi_answers:
  assumes serve: "insights_serves q w (log_of e ops) qy" and ok: "all_exportable ops"
    and clean: "list_all clean_event (recalled ops)" and d: "distinct (EGroupBy qy)" and cur: "currency_known qy"
    and agg: "EAgg qy \<in> {agg_groups, agg_max_per_group}" and ord: "EOrderBy qy = order_none" and lim: "ELimit qy = 0"
  shows "\<exists>gs. cwi_events q w qy = Some (Inr gs) \<and> answers (recalled ops) qy gs"
proof -
  obtain evs where evs: "cwi_fetch q w qy = Some (Inr evs)"
    "mset evs = mset [o' \<leftarrow> recalled ops. in_bounds qy ([], At o')]"
  proof -
    have "\<exists>o'. parse_line (fst x) (snd x) = Inr o'" if "x \<in> set (log_of e ops)" "marked x" for x
      by (rule marked_parse [OF ok that])
    from fetch_served [OF serve this] show ?thesis using that unfolding entries_between [OF ok] by blast
  qed
  have "set evs \<subseteq> set (recalled ops)" using mset_eq_setD [OF evs(2)] by auto
  then have "list_all clean_event evs" using clean by (auto simp: list_all_iff)
  moreover have "mq_events (new_memq [with_events evs]) = evs" "CEvents (mq_caps (new_memq [with_events evs]))"
    by (simp_all add: new_memq_def with_events_def default_caps_def)
  ultimately obtain gs where gs: "memq_events (new_memq [with_events evs]) qy = Inr gs" "answers evs qy gs"
    using memq_event_groups [of "new_memq [with_events evs]" qy] d cur agg ord lim by auto
  have "mset (matched evs qy) = mset (matched (recalled ops) qy)"
  proof -
    have "mset (matched evs qy) = mset (matched [o' \<leftarrow> recalled ops. in_bounds qy ([], At o')] qy)"
      unfolding matched_def mset_filter evs(2) by (rule refl)
    moreover have "matched [o' \<leftarrow> recalled ops. in_bounds qy ([], At o')] qy = matched (recalled ops) qy"
      using in_range_in_bounds [of _ qy] by (auto simp: matched_def intro!: filter_cong)
    ultimately show ?thesis by simp
  qed
  then have "answers (recalled ops) qy gs" using answers_perm gs(2) by blast
  then show ?thesis using evs(1) gs(1) by (simp add: cwi_events_def)
qed



section \<open>Properties\<close>

definition wire_outcome :: "outcome \<Rightarrow> bool" where
  "wire_outcome o' \<longleftrightarrow> outcome_validate o' = None \<and> 0 \<le> year_of (Deadline (VC o')) \<and> year_of (Deadline (VC o')) \<le> 9999"

lemma wire_exportable: "wire_outcome o' \<Longrightarrow> exportable o'"
  by (simp add: wire_outcome_def validated_exportable)

lemma wire_readback_clean: "wire_outcome o' \<Longrightarrow> clean_event (readback t o')"
proof -
  assume "wire_outcome o'"
  then have v: "outcome_validate o' = None" by (simp add: wire_outcome_def)
  show ?thesis
    using validated_clean [OF v] unfolding validated_readback [OF v] by (simp add: clean_event_def event_labels_def)
qed

lemma wire_recalled_clean:
  assumes "list_all (\<lambda>op. list_all wire_outcome (op_outcomes op)) ops"
  shows "list_all clean_event (recalled ops)" and "all_exportable ops"
proof -
  have "clean_event (readback t o')" if "wire_outcome o'" for t o' by (rule wire_readback_clean [OF that])
  then show "list_all clean_event (recalled ops)" using assms by (auto simp: recalled_def list_all_iff)
  show "all_exportable ops" using assms wire_exportable by (auto simp: all_exportable_def list_all_iff)
qed

text \<open>over a log group the CloudWatch exporter wrote, metric lines included, and a service that runs queries
  as Insights does, in either spelling of its rows, a grouped question always ends and is answered exactly over
  the exported outcomes as the log remembers them.\<close>

theorem insights_reads_the_log:
  assumes "insights_serves q w (log_of e ops) qy" and "list_all (\<lambda>op. list_all wire_outcome (op_outcomes op)) ops"
    and "distinct (EGroupBy qy)" and "currency_known qy" and "EAgg qy \<in> {agg_groups, agg_max_per_group}"
    and "EOrderBy qy = order_none" and "ELimit qy = 0"
  shows "\<exists>gs. cwi_events q w qy = Some (Inr gs) \<and> answers (recalled ops) qy gs"
  by (rule cwi_answers [OF assms(1) wire_recalled_clean(2) [OF assms(2)] wire_recalled_clean(1) [OF assms(2)] assms(3-7)])


section \<open>A service that serves\<close>

definition demo_ops :: "cw_op list" where
  "demo_ops = [ExportMetrics [demo_point], ExportEvents [example_outcome []]]"

definition demo_entry :: log_entry where
  "demo_entry = (build_event_record (example_outcome []), 0)"

definition demo_hits :: "event_query \<Rightarrow> log_entry list" where
  "demo_hits qy = [e \<leftarrow> [demo_entry]. in_bounds qy e]"

definition demo_row :: json where
  "demo_row = JArr [insights_col ''@message'' (JStr (fst demo_entry)), insights_col ''@timestamp'' (JNum (format_int 0))]"

definition demo_answer :: "event_query \<Rightarrow> json" where
  "demo_answer qy = JObj [(''status'', JStr ''Complete''), (''results'', JArr (map (\<lambda>_. demo_row) (demo_hits qy)))]"

definition demo_world :: "event_query \<Rightarrow> outside" where
  "demo_world qy =
     \<lparr>parse_url = \<lambda>u. Inr (''logs'', ''/'', []),
      http_do = \<lambda>n req. Inr (200, Inr (if n = 0 then render_json (JObj [(''queryId'', JStr ''q1'')]) else render_json (demo_answer qy))),
      clock_at = \<lambda>_. 0, ctx_done = \<lambda>_. None, crypto = \<lparr>sha256 = id, hmac_sha256 = \<lambda>k m. m\<rparr>\<rparr>"

definition demo_querier :: cw_querier where
  "demo_querier = new_cwinsights ''us-east-1'' ''/biz'' ''ak'' ''sk'' []"

lemma demo_wire: "list_all (\<lambda>op. list_all wire_outcome (op_outcomes op)) demo_ops"
  by code_simp

lemma demo_ascii: "is_ascii (fst demo_entry)"
  by code_simp

lemma demo_plain: "canon demo_row = demo_row"
proof -
  have "sanitize ''field'' = ''field''" "sanitize ''value'' = ''value''" "sanitize ''@message'' = ''@message''"
    "sanitize ''@timestamp'' = ''@timestamp''" by code_simp+
  then show ?thesis using sanitize_ascii [OF demo_ascii] by (simp add: demo_row_def insights_col_def)
qed

lemma demo_serves: "insights_serves demo_querier (demo_world qy) (log_of (new_cloudwatch ([] :: string) []) demo_ops) qy"
proof -
  let ?rows = "map (\<lambda>_. demo_row) (demo_hits qy)"
  have wf: "json_wf demo_row" "json_depth demo_row \<le> 5" by (simp_all add: demo_row_def insights_col_def)
  have "json_wf (demo_answer qy)" using wf by (auto simp: demo_answer_def list_all_iff)
  moreover have "fold max (map json_depth ?rows) 0 \<le> 5" using wf(2) by (intro fold_max_le) auto
  then have "json_depth (demo_answer qy) \<le> max_nesting" by (simp add: demo_answer_def max_nesting_def)
  ultimately have "parse_json (render_json (demo_answer qy)) = Some (canon (demo_answer qy))" by (rule parse_render)
  moreover have "canon (demo_answer qy) = JObj [(''status'', JStr ''Complete''), (''results'', JArr ?rows)]"
  proof -
    have "sanitize ''status'' = ''status''" "sanitize ''Complete'' = ''Complete''" "sanitize ''results'' = ''results''" by code_simp+
    then show ?thesis using demo_plain by (simp add: demo_answer_def)
  qed
  ultimately have ans: "insights_answer (render_json (demo_answer qy)) ''Complete'' ?rows"
    by (simp add: insights_answer_def values_for_def field_of_def)
  have "insights_row demo_entry demo_row"
    by (simp add: insights_row_def demo_row_def demo_entry_def unix_milli_def)
  then have rows: "list_all2 insights_row (demo_hits qy) ?rows"
    by (simp add: demo_hits_def)
  have qid: "decode_one_string ''queryId'' (render_json (JObj [(''queryId'', JStr ''q1'')])) = Some ''q1''" by code_simp
  have "map (\<lambda>o'. (build_event_record o', log_stamp (At o'))) (concat (map op_outcomes demo_ops)) = [demo_entry]"
    by (simp add: demo_ops_def demo_entry_def example_outcome_def log_stamp_def unix_milli_i64_def unix_milli_def milli_time_def)
  then have "[x \<leftarrow> log_of (new_cloudwatch ([] :: string) []) demo_ops. marked x] = [demo_entry]" by (simp only: marked_entries)
  then have "[x \<leftarrow> log_of (new_cloudwatch ([] :: string) []) demo_ops. marked x \<and> in_bounds qy x] = demo_hits qy"
    by (metis (no_types, lifting) demo_hits_def filter_filter filter_cong)
  moreover have "marked demo_entry" by (simp add: marked_def demo_entry_def event_marker)
  then have "[e \<leftarrow> demo_hits qy. marked e] = demo_hits qy" by (simp add: demo_hits_def)
  moreover have "spellable 0" by code_simp
  then have "list_all (\<lambda>e. spellable (snd e)) (demo_hits qy)" by (simp add: demo_hits_def demo_entry_def)
  moreover have "length (demo_hits qy) < row_cap" by (simp add: demo_hits_def row_cap_def)
  ultimately have facts: "[x \<leftarrow> log_of (new_cloudwatch ([] :: string) []) demo_ops. marked x \<and> in_bounds qy x] = demo_hits qy"
    "[e \<leftarrow> demo_hits qy. marked e] = demo_hits qy" "list_all (\<lambda>e. spellable (snd e)) (demo_hits qy)"
    "length (demo_hits qy) < row_cap" by simp_all
  have host: "\<exists>h. parse_url (demo_world qy) (CqEndpoint demo_querier @ ''/'') = Inr h" by (simp add: demo_world_def)
  have lim: "IqLimit (outcomes_between demo_querier qy) = row_cap" by (simp add: outcomes_between_def row_cap_def)
  have r: "insights_replies (demo_world qy) n action body
      (if n = 0 then render_json (JObj [(''queryId'', JStr ''q1'')]) else render_json (demo_answer qy))" for n action body
    by (simp add: insights_replies_def demo_world_def)
  have replies: "insights_replies (demo_world qy) 0 action body (render_json (JObj [(''queryId'', JStr ''q1'')]))"
    "insights_replies (demo_world qy) (Suc n) action body (render_json (demo_answer qy))" for n action body
    using r [of 0 action body] r [of "Suc n" action body] by simp_all
  show ?thesis
    unfolding insights_serves_def insights_executes_def asked_for lim
    by (rule conjI [OF host], rule exI [of _ "render_json (JObj [(''queryId'', JStr ''q1'')])"], rule exI [of _ "''q1''"], rule exI [of _ 0],
      rule exI [of _ "render_json (demo_answer qy)"], rule exI [of _ ?rows], rule exI [of _ "demo_hits qy"])
      (simp add: facts ans rows qid replies del: render_json.simps)
qed

definition demo_question :: event_query where
  "demo_question = event_query_zero\<lparr>EGroupBy := [''currency''], ERange := \<lparr>From = 0, To = 5000\<rparr>\<rparr>"

theorem insights_reads_the_log_witness:
  "\<exists>gs. cwi_events demo_querier (demo_world demo_question) demo_question = Some (Inr gs)
    \<and> GKey ` set gs = {[(''currency'', ''USD'')]}"
proof -
  have "event_key demo_question ` set (matched (recalled demo_ops) demo_question) = {[(''currency'', ''USD'')]}" by code_simp
  moreover have "distinct (EGroupBy demo_question)" "currency_known demo_question"
    "EAgg demo_question \<in> {agg_groups, agg_max_per_group}" "EOrderBy demo_question = order_none" "ELimit demo_question = 0"
    by (simp_all add: demo_question_def event_query_zero_def currency_known_def)
  ultimately show ?thesis
    using insights_reads_the_log [OF demo_serves demo_wire, of demo_question] by (auto simp: answers_def)
qed


end
