(* ===== verification/Go_Float.thy ===== *)
theory Go_Float
  imports Go_Json_Codec
begin

text \<open>
  \<open>strconv.ParseFloat\<close> to 64 bits with every syntax it takes (decimal, hexadecimal, separating underscores, the
  infinities and NaN), \<open>%.3f\<close>, and \<open>url.Values.Encode\<close>. Main result: seconds with milliseconds, computed and
  printed as a float, are exact over the whole range of \<open>int64\<close> nanoseconds.
\<close>

section \<open>ParseFloat\<close>

definition split_sign :: "string \<Rightarrow> bool \<times> string" where
  "split_sign s =
     (case s of [] \<Rightarrow> (False, [])
      | c # r \<Rightarrow> if c = CHR ''-'' then (True, r) else if c = CHR ''+'' then (False, r) else (False, s))"

definition special_float :: "string \<Rightarrow> f64 option" where
  "special_float s =
     (let (neg, r) = split_sign s in
      if to_lower r \<in> {''inf'', ''infinity''} then Some (if neg then NInf else PInf)
      else if to_lower s = ''nan'' then Some NaN else None)"

text \<open>A digit of the base, as its value.\<close>

definition digit_value :: "bool \<Rightarrow> char \<Rightarrow> nat option" where
  "digit_value hex c = (if is_digit (byte c) then Some (byte c - 48) else if hex then hex_val c else None)"

text \<open>The mantissa: its digits, how many of them follow the point, whether it has underscores, and the rest.\<close>

fun scan_mantissa :: "bool \<Rightarrow> string \<Rightarrow> bool \<Rightarrow> nat list \<Rightarrow> nat \<Rightarrow> bool \<Rightarrow> nat list \<times> nat \<times> bool \<times> string" where
  "scan_mantissa hex [] dot ds places und = (ds, places, und, [])"
| "scan_mantissa hex (c # cs) dot ds places und =
     (if c = CHR ''_'' then scan_mantissa hex cs dot ds places True
      else if c = CHR ''.'' then (if dot then (ds, places, und, c # cs) else scan_mantissa hex cs True ds places und)
      else case digit_value hex c of
             Some d \<Rightarrow> scan_mantissa hex cs dot (ds @ [d]) (if dot then Suc places else places) und
           | None \<Rightarrow> (ds, places, und, c # cs))"

text \<open>An exponent's digits; beyond ten thousand more digits no longer count.\<close>

fun scan_exponent :: "string \<Rightarrow> nat \<Rightarrow> bool \<Rightarrow> nat \<times> bool \<times> string" where
  "scan_exponent [] e und = (e, und, [])"
| "scan_exponent (c # cs) e und =
     (if c = CHR ''_'' then scan_exponent cs e True
      else if is_digit (byte c) then scan_exponent cs (if e < 10000 then e * 10 + (byte c - 48) else e) und
      else (e, und, c # cs))"

definition read_exponent :: "bool \<Rightarrow> string \<Rightarrow> (int \<times> bool \<times> string) option" where
  "read_exponent hex s =
     (case s of
        [] \<Rightarrow> if hex then None else Some (0, False, [])
      | c # r \<Rightarrow>
          if lower_char c = (if hex then CHR ''p'' else CHR ''e'') then
            (let (neg, r) = split_sign r in
             if r = [] \<or> \<not> is_digit (byte (hd r)) then None
             else let (e, und, rest) = scan_exponent r 0 False in Some (if neg then - int e else int e, und, rest))
          else if hex then None else Some (0, False, s))"

datatype seen = SawStart | SawDigit | SawUnderscore | SawOther

fun underscores_from :: "bool \<Rightarrow> seen \<Rightarrow> string \<Rightarrow> bool" where
  "underscores_from hex i [] \<longleftrightarrow> i \<noteq> SawUnderscore"
| "underscores_from hex i (c # cs) \<longleftrightarrow>
     (if is_digit (byte c) \<or> hex \<and> hex_val c \<noteq> None then underscores_from hex SawDigit cs
      else if c = CHR ''_'' then i = SawDigit \<and> underscores_from hex SawUnderscore cs
      else i \<noteq> SawUnderscore \<and> underscores_from hex SawOther cs)"

definition underscore_ok :: "string \<Rightarrow> bool" where
  "underscore_ok s =
     (let r = snd (split_sign s) in
      if 2 \<le> length r \<and> hd r = CHR ''0'' \<and> lower_char (r ! 1) \<in> set ''box''
      then underscores_from (lower_char (r ! 1) = CHR ''x'') SawDigit (drop 2 r)
      else underscores_from False SawStart r)"

definition digits_value :: "nat \<Rightarrow> nat list \<Rightarrow> nat" where
  "digits_value base ds = foldl (\<lambda>n d. n * base + d) 0 ds"

definition read_float :: "string \<Rightarrow> rat option" where
  "read_float s =
     (let (neg, r) = split_sign s;
          hex = (2 < length r \<and> hd r = CHR ''0'' \<and> lower_char (r ! 1) = CHR ''x'');
          (ds, places, und, rest) = scan_mantissa hex (if hex then drop 2 r else r) False [] 0 False
      in if ds = [] then None
         else case read_exponent hex rest of
                None \<Rightarrow> None
              | Some (e, und', rest) \<Rightarrow>
                  if rest \<noteq> [] \<or> ((und \<or> und') \<and> \<not> underscore_ok s) then None
                  else let base = (if hex then 16 else 10);
                           m = of_nat (digits_value base ds) / of_nat base ^ places * (if hex then 2 else 10) powi e
                       in Some (if neg then - m else m))"

text \<open>A syntax error, and a number the format cannot hold, are both errors.\<close>

definition parse_float :: "string \<Rightarrow> f64 option" where
  "parse_float s =
     (case special_float s of
        Some f \<Rightarrow> Some f
      | None \<Rightarrow>
          (case read_float s of
             None \<Rightarrow> None
           | Some q \<Rightarrow> (case to_f64 q of Fin x \<Rightarrow> Some (Fin x) | _ \<Rightarrow> None)))"

section \<open>Fixed point\<close>

text \<open>\<open>%.kf\<close>: the exact value rounded to \<open>k\<close> places, ties to even.\<close>

definition format_places :: "nat \<Rightarrow> rat \<Rightarrow> string" where
  "format_places k q =
     (let n = near_even (abs q * 10 ^ k)
      in (if q < 0 then ''-'' else []) @ format_int (n div 10 ^ k) @ ''.'' @ pad_zero k (digits_of (nat (n mod 10 ^ k))))"

fun format_fixed :: "nat \<Rightarrow> f64 \<Rightarrow> string" where
  "format_fixed k (Fin q) = format_places k q"
| "format_fixed k PInf = ''+Inf''"
| "format_fixed k NInf = ''-Inf''"
| "format_fixed k NaN = ''NaN''"

section \<open>Query strings\<close>

definition url_plain :: "char \<Rightarrow> bool" where
  "url_plain c \<longleftrightarrow> is_digit (byte c) \<or> is_lower (byte c) \<or> is_upper (byte c) \<or> c \<in> set ''-_.~''"

definition query_escape :: "string \<Rightarrow> string" where
  "query_escape s =
     concat (map (\<lambda>c. if url_plain c then [c] else if c = CHR '' '' then ''+''
       else ''%'' @ to_upper [hex_digit (byte c div 16), hex_digit (byte c mod 16)]) s)"

definition encode_query :: "(string, string) gomap \<Rightarrow> string" where
  "encode_query m = join_with (CHR ''&'') (map (\<lambda>k. query_escape k @ ''='' @ query_escape (map_get [] m k)) (sorted_keys m))"

text \<open>A query string the server splits and unescapes is the one that was written.\<close>

definition unhex :: "char \<Rightarrow> nat" where
  "unhex c = (case hex_val c of Some n \<Rightarrow> n | None \<Rightarrow> 0)"

fun query_unescape :: "string \<Rightarrow> string" where
  "query_unescape (p # a # b # cs) =
     (if p = CHR ''%'' then char_of (16 * unhex a + unhex b) # query_unescape cs
      else (if p = CHR ''+'' then CHR '' '' else p) # query_unescape (a # b # cs))"
| "query_unescape (p # cs) = (if p = CHR ''+'' then CHR '' '' else p) # query_unescape cs"
| "query_unescape [] = []"

section \<open>Seconds with milliseconds\<close>

lemma near_even_error: "\<bar>of_int (near_even z) - z\<bar> \<le> 1 / 2"
proof -
  have "of_int \<lfloor>z\<rfloor> \<le> z" "z < of_int \<lfloor>z\<rfloor> + 1" by linarith+
  then show ?thesis by (auto simp: near_even_def Let_def)
qed

lemma near_even_unique:
  assumes "\<bar>z - of_int k\<bar> < 1 / 2"
  shows "near_even z = k"
proof -
  have "of_int (near_even z - k) < (of_int 1 :: rat)" "(of_int (- 1) :: rat) < of_int (near_even z - k)"
    using assms near_even_error [of z] unfolding abs_le_iff abs_less_iff of_int_diff of_int_1 of_int_minus by linarith+
  then show ?thesis unfolding of_int_less_iff by linarith
qed

lemma rnd_pos_error:
  assumes "pow2 (- 1022) \<le> x"
  shows "\<bar>rnd_pos x - x\<bar> \<le> x / 2 ^ 53"
proof -
  let ?g = "pow2 (grid_exp x)"
  have pos: "0 < x" using assms pow2_pos [of "- 1022"] by linarith
  note b = ilog2_bounds [OF pos]
  have "- 1022 < ilog2 x + 1" using b assms pow2_mono [of "ilog2 x + 1" "- 1022"] by (meson leI le_less_trans not_less)
  then have g: "grid_exp x = ilog2 x - 52" by (simp add: grid_exp_def)
  have "rnd_pos x - x = (of_int (near_even (x / ?g)) - x / ?g) * ?g" by (simp add: rnd_pos_def left_diff_distrib)
  then have "\<bar>rnd_pos x - x\<bar> = \<bar>of_int (near_even (x / ?g)) - x / ?g\<bar> * ?g" by (simp add: abs_mult)
  also have "\<dots> \<le> 1 / 2 * ?g" by (intro mult_right_mono near_even_error) simp
  finally have "\<bar>rnd_pos x - x\<bar> \<le> ?g / 2" by simp
  also have "?g = pow2 (ilog2 x) / 2 ^ 52" unfolding g using pow2_add [of "ilog2 x - 52" 52] by (simp add: pow2_def [of 52])
  finally show ?thesis using b by (simp add: field_simps)
qed

lemma rnd_error: "\<bar>x\<bar> = 0 \<or> pow2 (- 1022) \<le> \<bar>x\<bar> \<Longrightarrow> \<bar>rnd x - x\<bar> \<le> \<bar>x\<bar> / 2 ^ 53"
proof -
  assume a: "\<bar>x\<bar> = 0 \<or> pow2 (- 1022) \<le> \<bar>x\<bar>"
  have n: "\<bar>- rnd_pos (- x) - x\<bar> = \<bar>rnd_pos (- x) - (- x)\<bar>" by linarith
  consider "x = 0" | "0 < x" | "x < 0" by linarith
  then show ?thesis
  proof cases
    case 2
    then show ?thesis using a rnd_pos_error [of x] by (simp add: rnd_def)
  next
    case 3
    then show ?thesis using a rnd_pos_error [of "- x"] unfolding rnd_def n [symmetric] by simp
  qed simp
qed

lemma large_enough: "1 / 10 ^ 9 \<le> \<bar>x\<bar> \<Longrightarrow> pow2 (- 1022) \<le> \<bar>x\<bar>"
proof -
  have "pow2 (- 1022) \<le> pow2 (- 30)" by (rule pow2_mono) simp
  also have "\<dots> \<le> 1 / 10 ^ 9" by (simp add: pow2_def)
  finally show "1 / 10 ^ 9 \<le> \<bar>x\<bar> \<Longrightarrow> ?thesis" by linarith
qed

text \<open>A float of seconds from nanoseconds is within three millionths of a second.\<close>

lemma float_seconds:
  assumes "in_i64 n"
  obtains y where "fdiv (of_i64 (word_of_int n)) (Fin 1000000000) = Fin y" "\<bar>y - of_int n / 10 ^ 9\<bar> \<le> 3 / 10 ^ 6"
proof -
  have sn: "sint (word_of_int n :: i64) = n" by (rule sint_of_int_i64 [OF assms])
  let ?x = "of_int n :: rat"
  have bound: "\<bar>?x\<bar> \<le> 2 ^ 63"
  proof -
    have "\<bar>n\<bar> \<le> 2 ^ 63" using assms by (auto simp: in_i64_def)
    then have "(of_int \<bar>n\<bar> :: rat) \<le> of_int (2 ^ 63)" by (simp only: of_int_le_iff)
    then show ?thesis by simp
  qed
  have "\<bar>?x\<bar> = 0 \<or> 1 \<le> \<bar>?x\<bar>" by (cases "n = 0") (auto simp flip: of_int_abs)
  then have "\<bar>?x\<bar> = 0 \<or> pow2 (- 1022) \<le> \<bar>?x\<bar>" using large_enough [of ?x] by auto
  from rnd_error [OF this] bound have e1: "\<bar>rnd ?x - ?x\<bar> \<le> 2 ^ 10" by simp
  let ?r = "rnd ?x / 10 ^ 9"
  have rb: "\<bar>?r\<bar> \<le> 10 ^ 10" using e1 bound by (simp add: abs_le_iff)
  have "\<bar>?r\<bar> = 0 \<or> pow2 (- 1022) \<le> \<bar>?r\<bar>"
  proof (cases "n = 0")
    case False
    then have one: "1 \<le> \<bar>?x\<bar>" by (auto simp flip: of_int_abs)
    then have "1 \<le> \<bar>rnd ?x\<bar>"
      using rnd_mono [of 1 ?x] rnd_mono [of ?x "- 1"] rnd_int [of 1] rnd_int [of "- 1"] by (auto simp: abs_if split: if_splits)
    then show ?thesis using large_enough [of ?r] by simp
  qed simp
  from rnd_error [OF this] rb have e2: "\<bar>rnd ?r - ?r\<bar> \<le> 10 ^ 10 / 2 ^ 53" by (simp add: order_trans)
  have "\<bar>?r\<bar> \<le> 2 ^ 1023" using rb power_increasing [of 34 1023 "2 :: rat"] by (simp del: power_increasing_iff)
  then have "fdiv (of_i64 (word_of_int n)) (Fin 1000000000) = Fin (rnd ?r)"
    by (simp add: of_i64_Fin sn to_f64_small del: of_int_sint)
  moreover have "\<bar>rnd ?r - ?x / 10 ^ 9\<bar> \<le> 3 / 10 ^ 6"
    using e1 e2 unfolding abs_le_iff by simp
  ultimately show ?thesis using that by blast
qed

definition millis_text :: "int \<Rightarrow> string" where
  "millis_text ms =
     (if ms < 0 then ''-'' else []) @ format_int (\<bar>ms\<bar> div 1000) @ ''.'' @ pad_zero 3 (digits_of (nat (\<bar>ms\<bar> mod 1000)))"

lemma float_millis_exact:
  assumes "in_i64 (ms * 1000000)"
  shows "format_fixed 3 (fdiv (of_i64 (word_of_int (ms * 1000000))) (Fin 1000000000)) = millis_text ms"
proof -
  obtain y where y: "fdiv (of_i64 (word_of_int (ms * 1000000))) (Fin 1000000000) = Fin y"
    "\<bar>y - of_int (ms * 1000000) / 10 ^ 9\<bar> \<le> 3 / 10 ^ 6" by (rule float_seconds [OF assms])
  have d: "\<bar>y * 1000 - of_int ms\<bar> \<le> 3 / 10 ^ 3" using y(2) by (simp add: abs_le_iff field_simps)
  have sign: "y < 0 \<longleftrightarrow> ms < 0" if nz: "ms \<noteq> 0"
  proof -
    have two: "y * 1000 - of_int ms \<le> 3 / 10 ^ 3" "of_int ms - y * 1000 \<le> 3 / 10 ^ 3" using d unfolding abs_le_iff by linarith+
    consider "ms \<le> - 1" | "1 \<le> ms" using nz by linarith
    then show ?thesis
    proof cases
      case 1
      then have "(of_int ms :: rat) \<le> of_int (- 1)" by (simp only: of_int_le_iff)
      then show ?thesis using two 1 by simp
    next
      case 2
      then have "of_int 1 \<le> (of_int ms :: rat)" by (simp only: of_int_le_iff)
      then show ?thesis using two 2 by simp
    qed
  qed
  have zero: "y = 0" if "ms = 0" using that y(1) by (simp add: of_i64_def)
  have "\<bar>\<bar>y\<bar> * 10 ^ 3 - of_int \<bar>ms\<bar>\<bar> < 1 / 2"
  proof -
    have "\<bar>y\<bar> * 10 ^ 3 - of_int \<bar>ms\<bar> = (if ms < 0 then - (y * 1000 - of_int ms) else y * 1000 - of_int ms)"
      using sign zero by (cases "ms = 0") (simp_all add: abs_if)
    then have "\<bar>\<bar>y\<bar> * 10 ^ 3 - of_int \<bar>ms\<bar>\<bar> = \<bar>y * 1000 - of_int ms\<bar>" by (simp only: abs_minus_cancel split: if_split) simp
    moreover have "\<bar>y * 1000 - of_int ms\<bar> < 1 / 2" by (rule le_less_trans [OF d]) simp
    ultimately show ?thesis by (simp only:)
  qed
  then have "near_even (\<bar>y\<bar> * 10 ^ 3) = \<bar>ms\<bar>" by (rule near_even_unique)
  then have "format_places 3 y = millis_text ms"
    using sign zero by (cases "ms = 0") (simp_all add: format_places_def millis_text_def Let_def)
  then show ?thesis unfolding y(1) format_fixed.simps .
qed

end
