(* ===== verification/Promql.thy ===== *)
theory Promql
  imports Go_Float Memq
begin

text \<open>
  The Prometheus querier, \<open>adapters/query/promql/\<close>: the translation of a metric query to PromQL text
  (\<open>translate.go\<close>), the HTTP exchange and the decoding of its answer, and the assembly of a stepped query from
  one instant query per bucket (\<open>promql.go\<close>). Prometheus itself and the HTTP client are parameters.
\<close>

section \<open>The translation\<close>

datatype promql_error =
    EmptyRange
  | CountUnsupported
  | WrongStep
  | RequestFailed string
  | DoFailed string
  | ReadFailed string
  | StatusNot200 int string
  | BadEnvelope
  | QueryFailed string
  | BadSample
  | BadTimestamp
  | BadValue
  | ValueNotParsed string
  | NonFinite string

record prom_expr =
  Expr :: string
  EvalAt :: time

definition millisecond :: duration where "millisecond = 1000000"

definition label_matchers :: "labels \<Rightarrow> string" where
  "label_matchers filters =
     (if filters = [] then []
      else ''{'' @ join_with (CHR '','') (map (\<lambda>k. k @ ''='' @ quoted (map_get [] filters k)) (sorted_keys filters)) @ ''}'')"

definition by_clause :: "string list \<Rightarrow> string" where
  "by_clause lbls = (if lbls = [] then [] else ''by ('' @ join_str '', '' (sort lbls) @ '') '')"

text \<open>Whole seconds, at least one.\<close>

definition prom_duration :: "duration \<Rightarrow> string" where
  "prom_duration d = (let secs = quot_to_zero d second in format_int (if secs < 1 then 1 else secs) @ ''s'')"

text \<open>\<open>Time.UnixNano\<close> is an \<open>int64\<close>.\<close>

definition float_seconds_of :: "time \<Rightarrow> f64" where
  "float_seconds_of t = fdiv (of_i64 (word_of_int t)) (Fin 1000000000)"

definition prom_time :: "time \<Rightarrow> string" where
  "prom_time t = format_fixed 3 (float_seconds_of t)"

definition range_expr :: "string \<Rightarrow> string \<Rightarrow> string \<Rightarrow> string \<Rightarrow> string \<Rightarrow> string" where
  "range_expr grp metric matchers rng t =
     ''sum '' @ grp @ ''(last_over_time('' @ metric @ matchers @ ''['' @ rng @ ''] @ '' @ t @ ''))''"

definition diff_expr :: "string \<Rightarrow> string \<Rightarrow> string" where
  "diff_expr stop start = stop @ '' - ('' @ start @ '' or ('' @ stop @ '' * 0))''"

definition translate :: "metric_query \<Rightarrow> promql_error + prom_expr" where
  "translate q =
     (if QAgg q = agg_count then Inl CountUnsupported
      else if 0 < QStep q then Inl WrongStep
      else
        (let matchers = label_matchers (QFilters q);
             grp = by_clause (QGroupBy q);
             eval_to = To (QRange q) - millisecond;
             eval_from = From (QRange q) - millisecond;
             rng = prom_duration (time_sub (To (QRange q)) (From (QRange q)));
             stop = range_expr grp (Metric q) matchers rng (prom_time eval_to)
         in if Metric q \<in> set gauge_families then Inr \<lparr>Expr = stop, EvalAt = eval_to\<rparr>
            else Inr \<lparr>Expr = diff_expr stop (range_expr grp (Metric q) matchers rng (prom_time eval_from)), EvalAt = eval_to\<rparr>))"

record prom_bucket =
  BucketExpr :: prom_expr
  BucketStart :: time

text \<open>The expression of a bucket boundary; its range reaches back to one window before the window.\<close>

definition boundary_expr :: "metric_query \<Rightarrow> time \<Rightarrow> string" where
  "boundary_expr q t =
     (let lookback = From (QRange q) - time_sub (To (QRange q)) (From (QRange q))
      in range_expr (by_clause (QGroupBy q)) (Metric q) (label_matchers (QFilters q)) (prom_duration (time_sub t lookback))
           (prom_time (t - millisecond)))"

function step_buckets :: "metric_query \<Rightarrow> time \<Rightarrow> prom_bucket list" where
  "step_buckets q start =
     (if QStep q \<le> 0 \<or> \<not> start < To (QRange q) then []
      else
        (let stop = (if To (QRange q) < start + QStep q then To (QRange q) else start + QStep q);
             expr = (if Metric q \<in> set gauge_families then boundary_expr q stop
                     else diff_expr (boundary_expr q stop) (boundary_expr q start))
         in \<lparr>BucketExpr = \<lparr>Expr = expr, EvalAt = stop - millisecond\<rparr>, BucketStart = start\<rparr>
              # step_buckets q (start + QStep q)))"
  by pat_completeness auto
termination
  by (relation "measure (\<lambda>(q, start). nat (To (QRange q) - start))") auto

declare step_buckets.simps [simp del]

definition translate_stepped :: "metric_query \<Rightarrow> promql_error + prom_bucket list" where
  "translate_stepped q =
     (if QAgg q = agg_count then Inl CountUnsupported
      else if QStep q \<le> 0 then Inl WrongStep
      else Inr (step_buckets q (From (QRange q))))"

section \<open>The answer\<close>

record prom_data =
  ResultType :: string
  ResultItems :: "json option slice"

record prom_response =
  RespStatus :: string
  RespError :: string
  RespData :: prom_data

definition data_tags :: "string list" where "data_tags = [''resultType'', ''result'']"
definition response_tags :: "string list" where "response_tags = [''status'', ''error'', ''data'']"
definition sample_tags :: "string list" where "sample_tags = [''metric'', ''value'']"

definition into_data :: "json \<Rightarrow> prom_data \<Rightarrow> prom_data option" where
  "into_data v d =
     (case v of
        JNull \<Rightarrow> Some d
      | JObj ms \<Rightarrow>
          (case (take_values into_string (values_for data_tags ''resultType'' ms) (ResultType d),
                 take_values (into_slice into_raw None) (values_for data_tags ''result'' ms) (ResultItems d)) of
             (Some t, Some items) \<Rightarrow> Some \<lparr>ResultType = t, ResultItems = items\<rparr>
           | _ \<Rightarrow> None)
      | _ \<Rightarrow> None)"

definition decode_response :: "json \<Rightarrow> prom_response option" where
  "decode_response v =
     (case struct_members v of
        None \<Rightarrow> None
      | Some ms \<Rightarrow>
          (case (take_values into_string (values_for response_tags ''status'' ms) [],
                 take_values into_string (values_for response_tags ''error'' ms) [],
                 take_values into_data (values_for response_tags ''data'' ms) \<lparr>ResultType = [], ResultItems = (0, [])\<rparr>) of
             (Some s, Some e, Some d) \<Rightarrow> Some \<lparr>RespStatus = s, RespError = e, RespData = d\<rparr>
           | _ \<Rightarrow> None))"

definition decode_envelope :: "string \<Rightarrow> promql_error + prom_response" where
  "decode_envelope body =
     (case Option.bind (parse_json body) decode_response of
        None \<Rightarrow> Inl BadEnvelope
      | Some r \<Rightarrow> if RespStatus r \<noteq> ''success'' then Inl (QueryFailed (RespError r)) else Inr r)"

text \<open>A map of strings keeps the entries it has; \<open>null\<close> empties it, and as a value is the empty string.\<close>

fun into_entries :: "(string \<times> json) list \<Rightarrow> labels \<Rightarrow> labels option" where
  "into_entries [] m = Some m"
| "into_entries ((k, v) # ms) m = (case into_string v [] of None \<Rightarrow> None | Some s \<Rightarrow> into_entries ms (map_put k s m))"

fun into_labels :: "json \<Rightarrow> labels \<Rightarrow> labels option" where
  "into_labels JNull m = Some []"
| "into_labels (JObj ms) m = into_entries ms m"
| "into_labels _ m = None"

text \<open>An array of two raw values: further elements are dropped, missing ones are empty.\<close>

fun into_pair :: "json \<Rightarrow> json option \<times> json option \<Rightarrow> (json option \<times> json option) option" where
  "into_pair JNull p = Some p"
| "into_pair (JArr vs) p = Some (case vs of [] \<Rightarrow> (None, None) | [a] \<Rightarrow> (Some a, None) | a # b # _ \<Rightarrow> (Some a, Some b))"
| "into_pair _ p = None"

definition decode_sample :: "json \<Rightarrow> (labels \<times> json option \<times> json option) option" where
  "decode_sample v =
     (case struct_members v of
        None \<Rightarrow> None
      | Some ms \<Rightarrow>
          (case (take_values into_labels (values_for sample_tags ''metric'' ms) [],
                 take_values into_pair (values_for sample_tags ''value'' ms) (None, None)) of
             (Some m, Some p) \<Rightarrow> Some (m, p)
           | _ \<Rightarrow> None))"

fun into_float :: "json \<Rightarrow> f64 option" where
  "into_float JNull = Some (Fin 0)"
| "into_float (JNum t) = parse_float t"
| "into_float _ = None"

text \<open>\<open>sample\<close>: the time from its seconds as a float, and the value from its text. \<open>oob\<close> is the conversion of a
  float out of the range of \<open>int64\<close>.\<close>

definition float_time :: "(f64 \<Rightarrow> i64) \<Rightarrow> f64 \<Rightarrow> time" where
  "float_time oob ts =
     (let sec = to_i64 oob ts; nsec = to_i64 oob (fmul (fsub ts (of_i64 sec)) (Fin 1000000000))
      in unix_time (sint sec) + sint nsec)"

definition decode_pair :: "(f64 \<Rightarrow> i64) \<Rightarrow> json option \<times> json option \<Rightarrow> promql_error + time \<times> f64" where
  "decode_pair oob p =
     (case Option.bind (fst p) into_float of
        None \<Rightarrow> Inl BadTimestamp
      | Some ts \<Rightarrow>
          (case Option.bind (snd p) (\<lambda>v. into_string v []) of
             None \<Rightarrow> Inl BadValue
           | Some s \<Rightarrow>
               (case parse_float s of
                  None \<Rightarrow> Inl (ValueNotParsed s)
                | Some (Fin x) \<Rightarrow> Inr (float_time oob ts, Fin x)
                | Some _ \<Rightarrow> Inl (NonFinite s))))"

fun parse_samples :: "(f64 \<Rightarrow> i64) \<Rightarrow> json option list \<Rightarrow> promql_error + series_slice list" where
  "parse_samples oob [] = Inr []"
| "parse_samples oob (raw # rest) =
     (case Option.bind raw decode_sample of
        None \<Rightarrow> Inl BadSample
      | Some (m, p) \<Rightarrow>
          (case decode_pair oob p of
             Inl e \<Rightarrow> Inl e
           | Inr (ts, v) \<Rightarrow>
               map_sum id ((#) \<lparr>SLabels = m, SPoints = [\<lparr>PtAt = ts, PtValue = v\<rparr>]\<rparr>) (parse_samples oob rest)))"

definition parse_vector :: "(f64 \<Rightarrow> i64) \<Rightarrow> string \<Rightarrow> promql_error + series_slice list" where
  "parse_vector oob body =
     (case decode_envelope body of
        Inl e \<Rightarrow> Inl e
      | Inr r \<Rightarrow> parse_samples oob (slice_items (ResultItems (RespData r))))"

section \<open>The exchange\<close>

text \<open>The HTTP client: the error of a request that cannot be made, and the exchange of one that can, an error or
  the status, the body that was read and the error that ended the reading.\<close>

record prom_client =
  bad_request :: "string \<Rightarrow> string option"
  do_request :: "string \<Rightarrow> string + int \<times> string \<times> string option"

record prom_querier =
  PqBase :: string
  PqClient :: prom_client
  PqWeeks :: int

definition with_http_client :: "prom_client \<Rightarrow> prom_querier \<Rightarrow> prom_querier" where
  "with_http_client c q = q\<lparr>PqClient := c\<rparr>"
definition with_metric_history :: "int \<Rightarrow> prom_querier \<Rightarrow> prom_querier" where
  "with_metric_history w q = q\<lparr>PqWeeks := w\<rparr>"

definition new_promql :: "prom_client \<Rightarrow> string \<Rightarrow> (prom_querier \<Rightarrow> prom_querier) list \<Rightarrow> prom_querier" where
  "new_promql default_client base opts =
     fold (\<lambda>f q. f q) opts
       \<lparr>PqBase = rev (dropWhile ((=) (CHR ''/'')) (rev base)), PqClient = default_client, PqWeeks = 6\<rparr>"

definition promql_caps :: "prom_querier \<Rightarrow> caps" where
  "promql_caps q = \<lparr>CMetrics = True, CEvents = False, CMetricWeeks = PqWeeks q, CEventWeeks = 0\<rparr>"

definition prom_get :: "prom_querier \<Rightarrow> string \<Rightarrow> labels \<Rightarrow> promql_error + string" where
  "prom_get q path params =
     (let u = PqBase q @ path @ ''?'' @ encode_query params in
      case bad_request (PqClient q) u of
        Some e \<Rightarrow> Inl (RequestFailed e)
      | None \<Rightarrow>
          (case do_request (PqClient q) u of
             Inl e \<Rightarrow> Inl (DoFailed e)
           | Inr (status, body, err) \<Rightarrow>
               (case err of
                  Some e \<Rightarrow> Inl (ReadFailed e)
                | None \<Rightarrow> if status \<noteq> 200 then Inl (StatusNot200 status body) else Inr body)))"

definition instant :: "(f64 \<Rightarrow> i64) \<Rightarrow> prom_querier \<Rightarrow> prom_expr \<Rightarrow> promql_error + series_slice list" where
  "instant oob q ex =
     (case prom_get q ''/api/v1/query'' [(''query'', Expr ex), (''time'', prom_time (EvalAt ex))] of
        Inl e \<Rightarrow> Inl e
      | Inr body \<Rightarrow> parse_vector oob body)"

section \<open>Stepped queries\<close>

text \<open>What a bucket's goroutine leaves: its vector, its own error, or the error of a cancellation, which only
  another bucket's failure causes.\<close>

datatype bucket_result = GotVector "series_slice list" | Failed promql_error | Cancelled promql_error

fun own_error :: "bucket_result \<Rightarrow> promql_error option" where
  "own_error (Failed e) = Some e" | "own_error _ = None"

fun cancel_error :: "bucket_result \<Rightarrow> promql_error option" where
  "cancel_error (Cancelled e) = Some e" | "cancel_error _ = None"

text \<open>The first error of a request's own; else the first of a cancellation.\<close>

definition first_failure :: "bucket_result list \<Rightarrow> promql_error option" where
  "first_failure rs =
     (case List.map_filter own_error rs of
        e # _ \<Rightarrow> Some e
      | [] \<Rightarrow> (case List.map_filter cancel_error rs of e # _ \<Rightarrow> Some e | [] \<Rightarrow> None))"

definition sorted_label_key :: "labels \<Rightarrow> string" where
  "sorted_label_key lbls = concat (map (\<lambda>k. k @ ''='' @ map_get [] lbls k @ '';'') (sorted_keys lbls))"

definition merge_slice :: "bool \<Rightarrow> time \<Rightarrow> series_slice \<Rightarrow> (string, series_slice) gomap \<Rightarrow> (string, series_slice) gomap" where
  "merge_slice gauge start ss merged =
     (case SPoints ss of
        [] \<Rightarrow> merged
      | pt # _ \<Rightarrow>
          if \<not> gauge \<and> PtValue pt = Fin 0 then merged
          else let k = sorted_label_key (SLabels ss);
                   s = (case map_of merged k of Some s \<Rightarrow> s | None \<Rightarrow> \<lparr>SLabels = SLabels ss, SPoints = []\<rparr>)
               in map_put k (s\<lparr>SPoints := SPoints s @ [\<lparr>PtAt = start, PtValue = PtValue pt\<rparr>]\<rparr>) merged)"

definition merge_vectors :: "bool \<Rightarrow> (prom_bucket \<times> bucket_result) list \<Rightarrow> (string, series_slice) gomap" where
  "merge_vectors gauge brs =
     fold (\<lambda>(b, r) merged. case r of GotVector v \<Rightarrow> fold (merge_slice gauge (BucketStart b)) v merged | _ \<Rightarrow> merged) brs []"

definition assemble :: "metric_query \<Rightarrow> (prom_bucket \<times> bucket_result) list \<Rightarrow> promql_error + series_slice list" where
  "assemble qy brs =
     (case first_failure (map snd brs) of
        Some e \<Rightarrow> Inl e
      | None \<Rightarrow>
          (let merged = merge_vectors (Metric qy \<in> set gauge_families) brs
           in Inr (map (map_get \<lparr>SLabels = [], SPoints = []\<rparr> merged) (sorted_keys merged))))"

text \<open>The goroutines' interleaving decides which buckets a failure cancels, before or during their request:
  \<open>cancel\<close> says which, and with what error. Nothing is cancelled when every request succeeds.\<close>

definition bucket_results ::
    "(f64 \<Rightarrow> i64) \<Rightarrow> prom_querier \<Rightarrow> (prom_bucket \<Rightarrow> promql_error option) \<Rightarrow> prom_bucket list \<Rightarrow> bucket_result list" where
  "bucket_results oob q cancel bs =
     (let outcome = (\<lambda>b. instant oob q (BucketExpr b));
          failed = list_ex (\<lambda>b. cancel b = None \<and> isl (outcome b)) bs
      in map (\<lambda>b. case (if failed then cancel b else None) of
           Some e \<Rightarrow> Cancelled e
         | None \<Rightarrow> (case outcome b of Inl e \<Rightarrow> Failed e | Inr v \<Rightarrow> GotVector v)) bs)"

definition prom_stepped ::
    "(f64 \<Rightarrow> i64) \<Rightarrow> prom_querier \<Rightarrow> (prom_bucket \<Rightarrow> promql_error option) \<Rightarrow> metric_query \<Rightarrow> promql_error + series_slice list" where
  "prom_stepped oob q cancel qy =
     (case translate_stepped qy of
        Inl e \<Rightarrow> Inl e
      | Inr bs \<Rightarrow> assemble qy (zip bs (bucket_results oob q cancel bs)))"

definition prom_metric ::
    "(f64 \<Rightarrow> i64) \<Rightarrow> prom_querier \<Rightarrow> (prom_bucket \<Rightarrow> promql_error option) \<Rightarrow> metric_query \<Rightarrow> promql_error + series_slice list" where
  "prom_metric oob q cancel qy =
     (if \<not> From (QRange qy) < To (QRange qy) then Inl EmptyRange
      else if 0 < QStep qy then prom_stepped oob q cancel qy
      else case translate qy of Inl e \<Rightarrow> Inl e | Inr ex \<Rightarrow> instant oob q ex)"

text \<open>The adapter as the engine sees it: no events, and its errors by their text.\<close>

definition promql_querier ::
    "(promql_error \<Rightarrow> string) \<Rightarrow> (f64 \<Rightarrow> i64) \<Rightarrow> (prom_bucket \<Rightarrow> promql_error option) \<Rightarrow> prom_querier \<Rightarrow> querier" where
  "promql_querier spell oob cancel q =
     \<lparr>query_metric = map_sum (\<lambda>e. BackendError (spell e)) id \<circ> prom_metric oob q cancel,
      query_events = (\<lambda>_. Inl ErrUnsupported), capabilities = promql_caps q\<rparr>"

section \<open>The concurrency of a stepped query\<close>

lemma map_filter_mem: "y \<in> set (List.map_filter f xs) \<longleftrightarrow> (\<exists>x \<in> set xs. f x = Some y)"
  by (induction xs) (auto simp: map_filter_simps split: option.splits)

lemma own_error_iff: "own_error r = Some e \<longleftrightarrow> r = Failed e"
  by (cases r) auto

lemma first_failure_None: "list_all (\<lambda>r. \<exists>v. r = GotVector v) rs \<Longrightarrow> first_failure rs = None"
proof -
  assume a: "list_all (\<lambda>r. \<exists>v. r = GotVector v) rs"
  have "List.map_filter f rs = []" if "\<forall>v. f (GotVector v) = None" for f :: "bucket_result \<Rightarrow> promql_error option"
    using a that by (induction rs) (auto simp: map_filter_simps)
  then show ?thesis by (simp add: first_failure_def)
qed

lemma first_failure_Failed: "Failed e \<in> set rs \<Longrightarrow> \<exists>e'. first_failure rs = Some e' \<and> Failed e' \<in> set rs"
proof -
  assume "Failed e \<in> set rs"
  then have "e \<in> set (List.map_filter own_error rs)" by (auto simp: map_filter_mem own_error_iff)
  then obtain e' es where es: "List.map_filter own_error rs = e' # es" by (cases "List.map_filter own_error rs") auto
  then have "e' \<in> set (List.map_filter own_error rs)" by simp
  then have "Failed e' \<in> set rs" by (auto simp: map_filter_mem own_error_iff)
  then show ?thesis using es by (simp add: first_failure_def)
qed

text \<open>C23: the requests of a stepped query run side by side and a failure cancels others at any moment, yet the
  query fails exactly if a request of its own fails, whatever the schedule; a successful answer is that of
  running the buckets one after the other, and the error of a failed one is a failing request's own, never a
  cancellation it induced.\<close>

theorem stepped_schedule_irrelevant:
  "case translate_stepped qy of
     Inl e \<Rightarrow> prom_stepped oob q cancel qy = Inl e
   | Inr bs \<Rightarrow>
       (case prom_stepped oob q cancel qy of
          Inr series \<Rightarrow> list_all (\<lambda>b. \<not> isl (instant oob q (BucketExpr b))) bs \<and> prom_stepped oob q (\<lambda>_. None) qy = Inr series
        | Inl e \<Rightarrow> \<exists>b \<in> set bs. instant oob q (BucketExpr b) = Inl e)"
proof (cases "translate_stepped qy")
  case (Inl e)
  then show ?thesis by (simp add: prom_stepped_def)
next
  case bs: (Inr bs)
  let ?ok = "\<lambda>b. \<not> isl (instant oob q (BucketExpr b))"
  let ?own = "\<lambda>b. case instant oob q (BucketExpr b) of Inl e \<Rightarrow> Failed e | Inr v \<Rightarrow> GotVector v"
  have zs: "map snd (zip bs (bucket_results oob q c bs)) = bucket_results oob q c bs" for c
    by (simp add: bucket_results_def Let_def)
  have run: "prom_stepped oob q c qy = assemble qy (zip bs (bucket_results oob q c bs))" for c
    by (simp add: prom_stepped_def bs)
  have "case prom_stepped oob q cancel qy of
      Inr series \<Rightarrow> list_all (\<lambda>b. \<not> isl (instant oob q (BucketExpr b))) bs \<and> prom_stepped oob q (\<lambda>_. None) qy = Inr series
    | Inl e \<Rightarrow> \<exists>b \<in> set bs. instant oob q (BucketExpr b) = Inl e"
  proof (cases "list_ex (\<lambda>b. cancel b = None \<and> isl (instant oob q (BucketExpr b))) bs")
    case True
    let ?rs = "bucket_results oob q cancel bs"
    obtain b where b: "b \<in> set bs" "cancel b = None" "isl (instant oob q (BucketExpr b))" using True by (auto simp: list_ex_iff)
    then obtain e where "instant oob q (BucketExpr b) = Inl e" by (cases "instant oob q (BucketExpr b)") auto
    then have "Failed e \<in> set ?rs" using True b by (force simp: bucket_results_def Let_def)
    then obtain e' where e': "first_failure ?rs = Some e'" "Failed e' \<in> set ?rs" using first_failure_Failed by blast
    then have "\<exists>b \<in> set bs. instant oob q (BucketExpr b) = Inl e'"
      by (auto simp: bucket_results_def Let_def split: option.splits sum.splits if_splits)
    then show ?thesis using e'(1) by (simp add: run assemble_def zs)
  next
    case False
    then have rs: "bucket_results oob q cancel bs = map ?own bs" by (simp add: bucket_results_def Let_def)
    have rs0: "bucket_results oob q (\<lambda>_. None) bs = map ?own bs" by (simp add: bucket_results_def Let_def)
    show ?thesis
    proof (cases "\<forall>b \<in> set bs. ?ok b")
      case True
      then have "first_failure (map ?own bs) = None" by (auto simp: first_failure_None list_all_iff isl_def split: sum.splits)
      then show ?thesis using True by (simp add: run rs rs0 assemble_def Let_def list_all_iff)
    next
      case bad: False
      then obtain b e where "b \<in> set bs" "instant oob q (BucketExpr b) = Inl e" by (metis sum.disc(2) sum.exhaust)
      then have "Failed e \<in> set (map ?own bs)" by force
      then obtain e' where e': "first_failure (map ?own bs) = Some e'" "Failed e' \<in> set (map ?own bs)"
        using first_failure_Failed by blast
      then have "\<exists>b \<in> set bs. instant oob q (BucketExpr b) = Inl e'" by (auto split: sum.splits)
      then show ?thesis using e'(1) zs [of cancel] by (simp add: run rs assemble_def)
    qed
  qed
  then show ?thesis by (simp add: bs)
qed

text \<open>The key a stepped query merges its series by joins labels with marks a label may hold: two series of
  different labels can share it, and their points are merged into one.\<close>

lemma label_key_collision:
  "let a = [(''flow'', ''x;stage=y''), (''stage'', ''z'')]; b = [(''flow'', ''x''), (''stage'', ''y;stage=z'')] in
     a \<noteq> b \<and> sorted_label_key a = sorted_label_key b \<and> canonical a \<noteq> canonical b"
  by code_simp

end
