(* ===== verification/Promql_Lang.thy ===== *)
theory Promql_Lang
  imports Promql
begin

text \<open>
  The fragment of PromQL the adapter needs: its syntax, its text and its value over scraped samples, and the JSON in
  which the HTTP interface answers. Nothing here is taken from the code that builds expressions: an expression is a
  tree, its text is written from the grammar, and its value is computed operator by operator.
\<close>

section \<open>Vectors\<close>

text \<open>The samples of a metric: per series its labels and the scraped values, in order of their time in
  milliseconds. An instant vector is a list of label sets with a value.\<close>

type_synonym scrapes = "(labels \<times> (int \<times> int) list) list"
type_synonym prom_vector = "(labels \<times> int) list"

text \<open>A label set in normal form: sorted by name, an empty value being no label.\<close>

definition label_set :: "labels \<Rightarrow> labels" where
  "label_set l = map (\<lambda>k. (k, map_get [] l k)) [k \<leftarrow> sort (remdups (map fst l)). map_get [] l k \<noteq> []]"

definition by_labels :: "string list \<Rightarrow> labels \<Rightarrow> labels" where
  "by_labels grp l = [kv \<leftarrow> label_set l. fst kv \<in> set grp]"

section \<open>Syntax and text\<close>

text \<open>\<open>LastOver m ms secs t\<close> is \<open>last_over_time\<close> of a selector over so many seconds up to \<open>t\<close>, in milliseconds.\<close>

datatype prom_ast =
    LastOver string "(string \<times> string) list" int int
  | SumBy "string list" prom_ast
  | Minus prom_ast prom_ast
  | OrElse prom_ast prom_ast
  | Times prom_ast int

fun call_like :: "prom_ast \<Rightarrow> bool" where
  "call_like (LastOver _ _ _ _) = True" | "call_like (SumBy _ _) = True" | "call_like _ = False"

definition selector_text :: "string \<Rightarrow> (string \<times> string) list \<Rightarrow> string" where
  "selector_text m ms =
     m @ (if ms = [] then [] else ''{'' @ join_str '','' (map (\<lambda>(k, v). k @ ''='' @ quoted v) ms) @ ''}'')"

text \<open>An operand that is no call is put in parentheses.\<close>

definition operand :: "prom_ast \<Rightarrow> string \<Rightarrow> string" where
  "operand e s = (if call_like e then s else ''('' @ s @ '')'')"

primrec prom_text :: "prom_ast \<Rightarrow> string" where
  "prom_text (LastOver m ms secs t) =
     ''last_over_time('' @ selector_text m ms @ ''['' @ format_int secs @ ''s] @ '' @ millis_text t @ '')''"
| "prom_text (SumBy grp e) = ''sum '' @ (if grp = [] then [] else ''by ('' @ join_str '', '' grp @ '') '') @ ''('' @ prom_text e @ '')''"
| "prom_text (Minus a b) = operand a (prom_text a) @ '' - '' @ operand b (prom_text b)"
| "prom_text (OrElse a b) = operand a (prom_text a) @ '' or '' @ operand b (prom_text b)"
| "prom_text (Times a n) = operand a (prom_text a) @ '' * '' @ format_int n"

section \<open>Value\<close>

text \<open>The last sample of a range that is open at its start.\<close>

definition last_in :: "int \<Rightarrow> int \<Rightarrow> (int \<times> int) list \<Rightarrow> int option" where
  "last_in lo hi xs = (case [x \<leftarrow> xs. lo < fst x \<and> fst x \<le> hi] of [] \<Rightarrow> None | y # ys \<Rightarrow> Some (snd (last (y # ys))))"

text \<open>An arithmetic operator pairs the samples of equal label sets and drops the others; \<open>or\<close> adds what the left
  side lacks.\<close>

primrec vector_of :: "(string \<Rightarrow> scrapes) \<Rightarrow> prom_ast \<Rightarrow> prom_vector" where
  "vector_of db (LastOver m ms secs t) =
     List.map_filter (\<lambda>(l, xs).
       if list_all (\<lambda>(k, v). map_get [] l k = v) ms then map_option (Pair (label_set l)) (last_in (t - 1000 * secs) t xs)
       else None) (db m)"
| "vector_of db (SumBy grp e) =
     (let vs = vector_of db e in
      map (\<lambda>k. (k, \<Sum>v \<leftarrow> [v \<leftarrow> vs. by_labels grp (fst v) = k]. snd v)) (remdups (map (\<lambda>v. by_labels grp (fst v)) vs)))"
| "vector_of db (Minus a b) =
     List.map_filter (\<lambda>(l, x). map_option (\<lambda>y. (l, x - y)) (map_of (vector_of db b) l)) (vector_of db a)"
| "vector_of db (OrElse a b) =
     (let va = vector_of db a in va @ [v \<leftarrow> vector_of db b. fst v \<notin> fst ` set va])"
| "vector_of db (Times a n) = map (\<lambda>(l, x). (l, x * n)) (vector_of db a)"

section \<open>The answer of an instant query\<close>

text \<open>A sample of the answer: its labels, the text of its time and the text of its value.\<close>

type_synonym prom_sample = "labels \<times> string \<times> string"

definition sample_json :: "prom_sample \<Rightarrow> json" where
  "sample_json = (\<lambda>(l, t, v). JObj [(''metric'', JObj (map (\<lambda>(k, s). (k, JStr s)) l)), (''value'', JArr [JNum t, JStr v])])"

definition answer_json :: "prom_sample list \<Rightarrow> json" where
  "answer_json samples =
     JObj [(''status'', JStr ''success''), (''data'', JObj [(''resultType'', JStr ''vector''), (''result'', JArr (map sample_json samples))])]"

definition writes_sample :: "labels \<times> int \<Rightarrow> prom_sample \<Rightarrow> bool" where
  "writes_sample = (\<lambda>(l, x) (l', t, v). l' = l \<and> (\<exists>f. parse_float t = Some f) \<and> parse_float v = Some (Fin (of_int x)))"

text \<open>The server answers an instant query with the expression's vector, its samples in any order.\<close>

definition answers_instant :: "prom_querier \<Rightarrow> (string \<Rightarrow> scrapes) \<Rightarrow> prom_ast \<Rightarrow> int \<Rightarrow> bool" where
  "answers_instant pq db e ms \<longleftrightarrow>
     (let u = PqBase pq @ ''/api/v1/query?'' @ encode_query [(''query'', prom_text e), (''time'', millis_text ms)] in
      bad_request (PqClient pq) u = None
      \<and> (\<exists>body vs samples. do_request (PqClient pq) u = Inr (200, body, None) \<and> parse_json body = Some (answer_json samples)
           \<and> mset vs = mset (vector_of db e) \<and> list_all2 writes_sample vs samples))"

section \<open>Label sets\<close>

lemma sort_remdups_unique:
  fixes xs ys :: "'a :: linorder list"
  shows "set xs = set ys \<Longrightarrow> sort (remdups xs) = sort (remdups ys)"
  by (intro sorted_distinct_set_unique) auto

lemma by_labels_keys: "by_labels grp l = map (\<lambda>k. (k, map_get [] l k)) (sort (remdups [k \<leftarrow> map fst l. map_get [] l k \<noteq> [] \<and> k \<in> set grp]))"
proof -
  have "[k \<leftarrow> sort (remdups (map fst l)). map_get [] l k \<noteq> [] \<and> k \<in> set grp]
      = sort (remdups [k \<leftarrow> map fst l. map_get [] l k \<noteq> [] \<and> k \<in> set grp])"
    by (simp add: filter_sort remdups_filter)
  then show ?thesis by (simp add: by_labels_def label_set_def filter_map comp_def conj_commute)
qed

lemma label_set_by: "label_set l = by_labels (map fst l) l"
  by (auto simp: by_labels_def label_set_def intro!: filter_True [symmetric])

lemma get_key: "map_get [] l k \<noteq> [] \<Longrightarrow> k \<in> fst ` set l"
  by (auto simp: map_get_def dest: map_of_SomeD split: option.splits) (force dest: map_of_SomeD)

lemma by_labels_get: "map_get [] (by_labels grp l) k = (if k \<in> set grp then map_get [] l k else [])"
proof -
  let ?ks = "sort (remdups [k \<leftarrow> map fst l. map_get [] l k \<noteq> [] \<and> k \<in> set grp])"
  have s: "k \<in> set ?ks \<longleftrightarrow> map_get [] l k \<noteq> [] \<and> k \<in> set grp" using get_key by auto
  have "map_of (map (\<lambda>k. (k, map_get [] l k)) ?ks) k = (if k \<in> set ?ks then Some (map_get [] l k) else None)"
    by (simp add: map_of_map_restrict restrict_map_def)
  then show ?thesis unfolding by_labels_keys map_get_def [of "[]" "map _ _"] s by auto
qed

lemma label_set_get: "map_get [] (label_set l) k = map_get [] l k"
  using get_key by (force simp: label_set_by by_labels_get)

text \<open>Two label sets agree on the grouping labels exactly when they are grouped together.\<close>

lemma by_labels_eq_iff: "by_labels grp l = by_labels grp l' \<longleftrightarrow> (\<forall>k \<in> set grp. map_get [] l k = map_get [] l' k)"
proof
  assume "by_labels grp l = by_labels grp l'"
  then show "\<forall>k \<in> set grp. map_get [] l k = map_get [] l' k" using by_labels_get by metis
next
  assume a: "\<forall>k \<in> set grp. map_get [] l k = map_get [] l' k"
  have keys: "set [k \<leftarrow> map fst l. map_get [] l k \<noteq> [] \<and> k \<in> set grp] = {k \<in> set grp. map_get [] l k \<noteq> []}" for l
    using get_key by auto
  have "sort (remdups [k \<leftarrow> map fst l. map_get [] l k \<noteq> [] \<and> k \<in> set grp])
      = sort (remdups [k \<leftarrow> map fst l'. map_get [] l' k \<noteq> [] \<and> k \<in> set grp])"
    by (rule sort_remdups_unique) (use a in \<open>auto simp only: keys\<close>)
  moreover have "map_get [] l k = map_get [] l' k" if "k \<in> set [k \<leftarrow> map fst l'. map_get [] l' k \<noteq> [] \<and> k \<in> set grp]" for k
    using a that by auto
  ultimately show "by_labels grp l = by_labels grp l'" unfolding by_labels_keys by (auto intro!: map_cong)
qed

lemma by_labels_set: "by_labels grp (label_set l) = by_labels grp l"
  by (simp add: by_labels_eq_iff label_set_get)

lemma by_labels_order: "set grp = set grp' \<Longrightarrow> by_labels grp = by_labels grp'"
  by (auto simp: by_labels_def fun_eq_iff)

lemma by_labels_distinct: "distinct (map fst (by_labels grp l))"
  by (simp add: by_labels_keys comp_def)

lemma group_key_by_labels: "distinct grp \<Longrightarrow> group_key l grp = group_key l' grp \<longleftrightarrow> by_labels grp l = by_labels grp l'"
  by (simp add: group_key_eq_iff by_labels_eq_iff)

lemma group_key_of_by: "distinct grp \<Longrightarrow> group_key (by_labels grp l) grp = group_key l grp"
  by (simp add: group_key_eq_iff by_labels_get)

section \<open>Looking a label set up\<close>

lemma map_of_minus:
  "map_of (vector_of db (Minus a b)) l
     = (case map_of (vector_of db a) l of None \<Rightarrow> None | Some x \<Rightarrow> map_option (\<lambda>y. x - y) (map_of (vector_of db b) l))"
proof -
  have "map_of (List.map_filter (\<lambda>(l, x). map_option (\<lambda>y. (l, x - y)) (m l)) va) l
      = (case map_of va l of None \<Rightarrow> None | Some x \<Rightarrow> map_option (\<lambda>y. x - y) (m l))" for m :: "labels \<Rightarrow> int option" and va
    by (induction va) (auto simp: map_filter_simps split: option.splits)
  then show ?thesis by simp
qed

lemma map_of_or:
  "map_of (vector_of db (OrElse a b)) l
     = (case map_of (vector_of db a) l of None \<Rightarrow> map_of (vector_of db b) l | Some x \<Rightarrow> Some x)"
proof -
  have f: "map_of [v \<leftarrow> vb. fst v \<notin> S] l = (if l \<in> S then None else map_of vb l)" for vb :: prom_vector and S
    by (induction vb) auto
  have "map_of (vector_of db a) l = None \<longleftrightarrow> l \<notin> fst ` set (vector_of db a)" by (rule map_of_eq_None_iff)
  then show ?thesis by (auto simp: Let_def f Map.map_add_def split: option.split)
qed

lemma map_of_times: "map_of (vector_of db (Times a n)) l = map_option (\<lambda>x. x * n) (map_of (vector_of db a) l)"
proof -
  have "map_of (map (\<lambda>(l, x). (l, x * n)) va) l = map_option (\<lambda>x. x * n) (map_of va l)" for va :: prom_vector
    by (induction va) auto
  then show ?thesis by simp
qed

lemma map_of_sum:
  "map_of (vector_of db (SumBy grp e)) k
     = (let vs = [v \<leftarrow> vector_of db e. by_labels grp (fst v) = k] in if vs = [] then None else Some (\<Sum>v \<leftarrow> vs. snd v))"
proof -
  have "map_of (map (\<lambda>k. (k, f k)) ks) k = (if k \<in> set ks then Some (f k) else None)" for f :: "labels \<Rightarrow> int" and ks
    by (simp add: map_of_map_restrict restrict_map_def)
  then show ?thesis by (auto simp: Let_def filter_empty_conv)
qed

lemma sum_keys: "distinct (map fst (vector_of db (SumBy grp e)))"
  "l \<in> fst ` set (vector_of db (SumBy grp e)) \<Longrightarrow> \<exists>l'. l = by_labels grp l'"
  by (auto simp: Let_def comp_def)

lemma minus_keys: "map fst (vector_of db (Minus a b)) = [l \<leftarrow> map fst (vector_of db a). map_of (vector_of db b) l \<noteq> None]"
proof -
  have "map fst (List.map_filter (\<lambda>(l, x). map_option (\<lambda>y. (l, x - y)) (m l)) va) = [l \<leftarrow> map fst va. m l \<noteq> None]"
    for m :: "labels \<Rightarrow> int option" and va
    by (induction va) (auto simp: map_filter_simps split: option.splits)
  then show ?thesis by simp
qed

section \<open>Reading the answer\<close>

lemma entries_read: "distinct (map fst l) \<Longrightarrow> fst ` set l \<inter> fst ` set m = {} \<Longrightarrow> into_entries (map (\<lambda>(k, s). (k, JStr s)) l) m = Some (m @ l)"
proof (induction l arbitrary: m)
  case (Cons kv l)
  obtain k v where kv: "kv = (k, v)" by (cases kv)
  have "map_put k v m = m @ [(k, v)]" using Cons.prems kv by (induction m) auto
  then show ?case using Cons.IH [of "m @ [(k, v)]"] Cons.prems kv by auto
qed simp

lemma tags_found: "field_of sample_tags ''metric'' = Some ''metric''" "field_of sample_tags ''value'' = Some ''value''"
  "field_of response_tags ''status'' = Some ''status''" "field_of response_tags ''data'' = Some ''data''"
  "field_of data_tags ''resultType'' = Some ''resultType''" "field_of data_tags ''result'' = Some ''result''"
  by (simp_all add: field_of_exact sample_tags_def response_tags_def data_tags_def)

lemma sample_read:
  assumes "writes_sample (l, x) s" "distinct (map fst l)"
  shows "\<exists>t v f. decode_sample (sample_json s) = Some (l, Some (JNum t), Some (JStr v)) \<and> parse_float t = Some f
    \<and> parse_float v = Some (Fin (of_int x))"
proof -
  obtain l' t v where s: "s = (l', t, v)" by (cases s) auto
  have "into_entries (map (\<lambda>(k, s). (k, JStr s)) l) [] = Some l" using entries_read [OF assms(2), of "[]"] by simp
  then show ?thesis using assms(1)
    by (auto simp: s writes_sample_def sample_json_def decode_sample_def values_for_def tags_found)
qed

lemma samples_read:
  assumes "list_all2 writes_sample vs samples" "list_all (\<lambda>v. distinct (map fst (fst v))) vs"
  shows "\<exists>slices. parse_samples oob (map (\<lambda>s. Some (sample_json s)) samples) = Inr slices
    \<and> list_all2 (\<lambda>v s. SLabels s = fst v \<and> map PtValue (SPoints s) = [Fin (of_int (snd v))]) vs slices"
  using assms
proof (induction rule: list_all2_induct)
  case (Cons v vs s samples)
  obtain l x where v: "v = (l, x)" by (cases v)
  obtain t w f where r: "decode_sample (sample_json s) = Some (l, Some (JNum t), Some (JStr w))"
    "parse_float t = Some f" "parse_float w = Some (Fin (of_int x))"
    using sample_read [of l x s] Cons v by auto
  then show ?case using Cons by (auto simp: decode_pair_def v)
qed simp

lemma elements_read: "into_elements into_raw None vs old = Some (map Some vs @ drop (length vs) old)"
  by (induction vs arbitrary: old) (auto simp: drop_Suc split: list.split)

lemma answer_read:
  assumes body: "parse_json body = Some (answer_json samples)" and w: "list_all2 writes_sample vs samples"
    and d: "list_all (\<lambda>v. distinct (map fst (fst v))) vs"
  shows "\<exists>slices. parse_vector oob body = Inr slices
    \<and> list_all2 (\<lambda>v s. SLabels s = fst v \<and> map PtValue (SPoints s) = [Fin (of_int (snd v))]) vs slices"
proof -
  have "\<exists>r. decode_response (answer_json samples) = Some r \<and> RespStatus r = ''success''
      \<and> slice_items (ResultItems (RespData r)) = map (\<lambda>s. Some (sample_json s)) samples"
    by (auto simp: answer_json_def decode_response_def into_data_def values_for_def tags_found elements_read slice_items_def)
  then show ?thesis using samples_read [OF w d, of oob] by (auto simp: parse_vector_def decode_envelope_def body)
qed

end
