(* ===== verification/Prom_Export.thy ===== *)
theory Prom_Export
  imports Memq Go_Format
begin

text \<open>
  The Prometheus exporter, \<open>adapters/export/prometheus/prometheus.go\<close>. The client library's collectors are not
  part of the program: the exporter is modelled by the calls it makes of them, in order, beside its own state, the
  time of the last level applied to each gauge series. Main result: whatever the order in which batches arrive,
  the last level set on a series is its freshest, and a counter is given exactly what was recorded.
\<close>

section \<open>Families\<close>

definition value_labels :: "string list" where
  "value_labels = [''flow'', ''stage'', ''outcome'', ''currency'', ''kind'', ''segment'']"
definition txn_labels :: "string list" where
  "txn_labels = [''flow'', ''stage'', ''outcome'', ''currency'', ''segment'']"
definition inflight_labels :: "string list" where
  "inflight_labels = [''flow'', ''stage'', ''age_bucket'', ''currency'']"
definition provider_labels :: "string list" where
  "provider_labels = [''provider'', ''op'', ''outcome'']"
definition dropped_labels :: "string list" where
  "dropped_labels = [''reason'']"

definition counter_labels :: "string \<Rightarrow> string list option" where
  "counter_labels n =
     (if n = ''biz_value_total'' then Some value_labels
      else if n = ''biz_txn_total'' then Some txn_labels
      else if n = ''biz_provider_calls_total'' then Some provider_labels
      else if n = ''biz_dropped_events_total'' then Some dropped_labels
      else None)"

definition ordered_values :: "(string, string) gomap \<Rightarrow> string list \<Rightarrow> string list" where
  "ordered_values lbls order = map (map_get [] lbls) order"

section \<open>The exporter\<close>

text \<open>A call of a collector: the family, the label values in the family's order, and the number.\<close>

datatype prom_call = CounterAdd string "string list" f64 | GaugeSet string "string list" f64

record prom_exporter =
  Calls :: "prom_call list"
  InflightAt :: "(string, time) gomap"

datatype prom_error = UnknownMetric string | NegativeDelta string i64 | RegisterError string

definition prom_families :: "string list" where
  "prom_families = [''biz_value_total'', ''biz_txn_total'', ''biz_inflight_value'', ''biz_inflight_count'',
     ''biz_provider_calls_total'', ''biz_dropped_events_total'']"

text \<open>\<open>New\<close> registers the collectors one after the other; \<open>register\<close> is the registry's answer to each.\<close>

definition new_prometheus :: "(string \<Rightarrow> string option) \<Rightarrow> prom_error + prom_exporter" where
  "new_prometheus register =
     (case first_error (map register prom_families) of
        Some e \<Rightarrow> Inl (RegisterError e)
      | None \<Rightarrow> Inr \<lparr>Calls = [], InflightAt = []\<rparr>)"

definition prom_caps :: "bool \<times> bool" where
  "prom_caps = (True, False)"

definition gauge_key :: "string \<Rightarrow> string list \<Rightarrow> string" where
  "gauge_key name vals = name @ nul @ join_str nul vals"

definition set_inflight :: "metric_point \<Rightarrow> prom_exporter \<Rightarrow> prom_exporter" where
  "set_inflight p e =
     (let vals = ordered_values (PLabels p) inflight_labels; key = gauge_key (PName p) vals in
      if (case map_of (InflightAt e) key of Some t \<Rightarrow> PAt p < t | None \<Rightarrow> False) then e
      else e\<lparr>Calls := Calls e @ [GaugeSet (PName p) vals (of_i64 (PValue p))],
             InflightAt := map_put key (PAt p) (InflightAt e)\<rparr>)"

definition add_counter :: "string list \<Rightarrow> metric_point \<Rightarrow> prom_exporter \<Rightarrow> prom_error option \<times> prom_exporter" where
  "add_counter lbls p e =
     (if sint (PValue p) < 0 then (Some (NegativeDelta (PName p) (PValue p)), e)
      else (None, e\<lparr>Calls := Calls e @ [CounterAdd (PName p) (ordered_values (PLabels p) lbls) (of_i64 (PValue p))]\<rparr>))"

definition export_point :: "metric_point \<Rightarrow> prom_exporter \<Rightarrow> prom_error option \<times> prom_exporter" where
  "export_point p e =
     (case counter_labels (PName p) of
        Some lbls \<Rightarrow> add_counter lbls p e
      | None \<Rightarrow>
          if PName p = ''biz_inflight_value'' \<or> PName p = ''biz_inflight_count'' then (None, set_inflight p e)
          else (Some (UnknownMetric (PName p)), e))"

text \<open>\<open>ExportMetrics\<close>: the loop stops at the first error. Events and shutdown do nothing.\<close>

fun prom_export_metrics :: "metric_point list \<Rightarrow> prom_exporter \<Rightarrow> prom_error option \<times> prom_exporter" where
  "prom_export_metrics [] e = (None, e)"
| "prom_export_metrics (p # ps) e =
     (case export_point p e of (Some x, e') \<Rightarrow> (Some x, e') | (None, e') \<Rightarrow> prom_export_metrics ps e')"

definition prom_export_events :: "outcome list \<Rightarrow> prom_exporter \<Rightarrow> prom_error option \<times> prom_exporter" where
  "prom_export_events batch e = (None, e)"

definition prom_shutdown :: "prom_exporter \<Rightarrow> prom_error option \<times> prom_exporter" where
  "prom_shutdown e = (None, e)"

section \<open>What a scrape reads\<close>

text \<open>The collectors by their documentation: a gauge holds the last number set, a counter the sum of those added.\<close>

definition gauge_reads :: "prom_call list \<Rightarrow> string \<Rightarrow> string list \<Rightarrow> f64 option" where
  "gauge_reads cs n vals =
     fold (\<lambda>c l. case c of GaugeSet m v x \<Rightarrow> if m = n \<and> v = vals then Some x else l | _ \<Rightarrow> l) cs None"

definition counter_adds :: "prom_call list \<Rightarrow> string \<Rightarrow> string list \<Rightarrow> f64 list" where
  "counter_adds cs n vals =
     concat (map (\<lambda>c. case c of CounterAdd m v x \<Rightarrow> if m = n \<and> v = vals then [x] else [] | _ \<Rightarrow> []) cs)"

text \<open>The points of one series, and the freshest of them, the last of a tie.\<close>

definition in_series :: "string \<Rightarrow> string list \<Rightarrow> string list \<Rightarrow> metric_point \<Rightarrow> bool" where
  "in_series n order vals p \<longleftrightarrow> PName p = n \<and> ordered_values (PLabels p) order = vals"

fun freshest :: "metric_point list \<Rightarrow> metric_point option \<Rightarrow> metric_point option" where
  "freshest [] best = best"
| "freshest (p # ps) best =
     freshest ps (case best of Some b \<Rightarrow> if PAt p < PAt b then best else Some p | None \<Rightarrow> Some p)"

section \<open>Levels\<close>

lemma join_nul_inj:
  "\<lbrakk>length xs = length ys; \<forall>x \<in> set (xs @ ys). nul_free_label x; join_str nul xs = join_str nul ys\<rbrakk> \<Longrightarrow> xs = ys"
proof (induction xs arbitrary: ys)
  case (Cons x xs)
  then obtain y ys' where ys: "ys = y # ys'" by (cases ys) auto
  show ?case
  proof (cases xs)
    case Nil
    then show ?thesis using Cons.prems ys by simp
  next
    case (Cons x2 xs2)
    then obtain y2 ys2 where "ys' = y2 # ys2" using Cons.prems(1) ys Cons by (cases ys') auto
    then have "x @ nul @ join_str nul xs = y @ nul @ join_str nul ys'" using Cons.prems(3) ys Cons by simp
    from cut_at_nul [OF _ _ this] Cons.prems ys have "x = y" "join_str nul xs = join_str nul ys'" by auto
    then show ?thesis using Cons.IH [of ys'] Cons.prems ys by simp
  qed
qed simp

lemma gauge_key_inj:
  assumes "nul_free_label n" "nul_free_label m" "length xs = length ys" "\<forall>x \<in> set (xs @ ys). nul_free_label x"
  shows "gauge_key n xs = gauge_key m ys \<longleftrightarrow> n = m \<and> xs = ys"
proof
  assume "gauge_key n xs = gauge_key m ys"
  from cut_at_nul [OF assms(1,2) this [unfolded gauge_key_def]] join_nul_inj [OF assms(3,4)] show "n = m \<and> xs = ys" by blast
qed simp

lemma gauge_reads_snoc: "gauge_reads (cs @ [c]) n vals
    = (case c of GaugeSet m v x \<Rightarrow> if m = n \<and> v = vals then Some x else gauge_reads cs n vals | _ \<Rightarrow> gauge_reads cs n vals)"
  by (cases c) (simp_all add: gauge_reads_def)

lemma freshest_append: "freshest (ps @ qs) best = freshest qs (freshest ps best)"
  by (induction ps arbitrary: best) simp_all

definition fresher :: "metric_point \<Rightarrow> metric_point option \<Rightarrow> metric_point" where
  "fresher p best = (case best of Some b \<Rightarrow> if PAt p < PAt b then b else p | None \<Rightarrow> p)"

lemma freshest_Cons: "freshest (p # ps) best = freshest ps (Some (fresher p best))"
  by (cases best) (simp_all add: fresher_def)

lemma fresher_spec: "(fresher p best = p \<or> best = Some (fresher p best)) \<and> PAt p \<le> PAt (fresher p best)"
  by (cases best) (auto simp: fresher_def)

lemma freshest_Some:
  "freshest ps (Some c) = Some b \<Longrightarrow> (b \<in> set ps \<or> b = c) \<and> (\<forall>q \<in> set ps. PAt q \<le> PAt b) \<and> PAt c \<le> PAt b"
proof (induction ps arbitrary: c)
  case (Cons p ps)
  have "freshest ps (Some (fresher p (Some c))) = Some b" using Cons.prems by (simp only: freshest_Cons)
  from Cons.IH [OF this] fresher_spec [of p "Some c"] have "b \<in> set (p # ps) \<or> b = c" "PAt p \<le> PAt b" "\<forall>q \<in> set ps. PAt q \<le> PAt b"
    by auto
  moreover have "PAt c \<le> PAt (fresher p (Some c))" by (simp add: fresher_def)
  ultimately show ?case using Cons.IH [OF \<open>freshest ps (Some (fresher p (Some c))) = Some b\<close>] by auto
qed simp

lemma freshest_total: "freshest ps (Some c) \<noteq> None"
proof (induction ps arbitrary: c)
  case (Cons p ps)
  show ?case unfolding freshest_Cons by (rule Cons.IH)
qed simp

lemma freshest_None: "freshest ps None = None \<longleftrightarrow> ps = []"
  using freshest_total by (cases ps) (simp_all only: freshest_Cons freshest.simps list.distinct simp_thms)

lemma freshest_spec: "freshest ps None = Some b \<Longrightarrow> b \<in> set ps \<and> (\<forall>q \<in> set ps. PAt q \<le> PAt b)"
proof (cases ps)
  case (Cons p qs)
  assume "freshest ps None = Some b"
  then have "freshest qs (Some (fresher p None)) = Some b" by (simp only: Cons freshest_Cons)
  from freshest_Some [OF this] show ?thesis by (auto simp: Cons fresher_def)
qed simp

lemma freshest_same:
  assumes "set ps = set qs" "freshest ps None = Some x" "freshest qs None = Some y"
  shows "x \<in> set ps \<and> y \<in> set ps \<and> PAt x = PAt y"
proof -
  note fx = freshest_spec [OF assms(2)] and fy = freshest_spec [OF assms(3)]
  have "x \<in> set qs" "y \<in> set ps" using fx fy assms(1) by simp_all
  then have "PAt x \<le> PAt y" "PAt y \<le> PAt x" using fx fy by blast+
  then show ?thesis using fx \<open>y \<in> set ps\<close> by simp
qed

lemma freshest_level:
  assumes "set ps = set qs" "\<forall>p \<in> set ps. \<forall>q \<in> set ps. PAt p = PAt q \<longrightarrow> PValue p = PValue q"
  shows "map_option (\<lambda>p. of_i64 (PValue p)) (freshest ps None) = map_option (\<lambda>p. of_i64 (PValue p)) (freshest qs None)"
proof (cases "ps = []")
  case True
  then show ?thesis using assms(1) by simp
next
  case False
  then have "qs \<noteq> []" using assms(1) by auto
  then obtain x y where xy: "freshest ps None = Some x" "freshest qs None = Some y"
    using False by (meson freshest_None not_Some_eq)
  from freshest_same [OF assms(1) this] have "PValue x = PValue y" using assms(2) by blast
  then show ?thesis by (simp only: xy option.map)
qed

definition gauge_family :: "string \<Rightarrow> bool" where
  "gauge_family n \<longleftrightarrow> n = ''biz_inflight_value'' \<or> n = ''biz_inflight_count''"

text \<open>The points the loop over a batch gets to.\<close>

definition acceptable :: "metric_point \<Rightarrow> bool" where
  "acceptable p \<longleftrightarrow> (if gauge_family (PName p) then True else counter_labels (PName p) \<noteq> None \<and> 0 \<le> sint (PValue p))"

definition accepted :: "metric_point list \<Rightarrow> metric_point list" where
  "accepted = takeWhile acceptable"

definition clean_point :: "metric_point \<Rightarrow> bool" where
  "clean_point p \<longleftrightarrow> (\<forall>k. nul_free_label (map_get [] (PLabels p) k))"

lemma gauge_family_clean: "gauge_family n \<Longrightarrow> nul_free_label n \<and> counter_labels n = None"
  unfolding gauge_family_def by (elim disjE) (simp_all add: nul_free_label_def counter_labels_def)

text \<open>An exporter that has been given exactly the points \<open>ps\<close>.\<close>

definition shows_points :: "metric_point list \<Rightarrow> prom_exporter \<Rightarrow> bool" where
  "shows_points ps e \<longleftrightarrow>
     (\<forall>n vals. gauge_family n \<longrightarrow> length vals = length inflight_labels \<longrightarrow> (\<forall>v \<in> set vals. nul_free_label v) \<longrightarrow>
        gauge_reads (Calls e) n vals
          = map_option (\<lambda>p. of_i64 (PValue p)) (freshest [p \<leftarrow> ps. in_series n inflight_labels vals p] None)
        \<and> map_of (InflightAt e) (gauge_key n vals) = map_option PAt (freshest [p \<leftarrow> ps. in_series n inflight_labels vals p] None))
     \<and> (\<forall>n lbls vals. counter_labels n = Some lbls \<longrightarrow>
        counter_adds (Calls e) n vals = map (\<lambda>p. of_i64 (PValue p)) [p \<leftarrow> ps. in_series n lbls vals p])"

lemma shows_counter: "shows_points ps e \<Longrightarrow> counter_labels n = Some lbls
    \<Longrightarrow> counter_adds (Calls e) n vals = map (\<lambda>p. of_i64 (PValue p)) [p \<leftarrow> ps. in_series n lbls vals p]"
  by (simp add: shows_points_def)

lemma ordered_values_clean:
  "clean_point p \<Longrightarrow> length (ordered_values (PLabels p) order) = length order \<and> (\<forall>v \<in> set (ordered_values (PLabels p) order). nul_free_label v)"
  by (auto simp: ordered_values_def clean_point_def)

lemma counter_adds_snoc: "counter_adds (cs @ [c]) n vals = counter_adds cs n vals
    @ (case c of CounterAdd m v x \<Rightarrow> if m = n \<and> v = vals then [x] else [] | _ \<Rightarrow> [])"
  by (simp add: counter_adds_def)

lemma shows_set_inflight:
  assumes s: "shows_points ps e" and p: "clean_point p" and g: "gauge_family (PName p)"
  shows "shows_points (ps @ [p]) (set_inflight p e)"
proof -
  let ?vals = "ordered_values (PLabels p) inflight_labels"
  note own = ordered_values_clean [OF p, of inflight_labels]
  let ?best = "freshest [q \<leftarrow> ps. in_series (PName p) inflight_labels ?vals q] None"
  have lv: "gauge_reads (Calls e) (PName p) ?vals = map_option (\<lambda>p. of_i64 (PValue p)) ?best"
    "map_of (InflightAt e) (gauge_key (PName p) ?vals) = map_option PAt ?best"
    using s g own by (auto simp: shows_points_def)
  let ?stale = "case ?best of Some b \<Rightarrow> PAt p < PAt b | None \<Rightarrow> False"
  have e': "set_inflight p e = (if ?stale then e else e\<lparr>Calls := Calls e @ [GaugeSet (PName p) ?vals (of_i64 (PValue p))],
             InflightAt := map_put (gauge_key (PName p) ?vals) (PAt p) (InflightAt e)\<rparr>)"
    by (simp add: set_inflight_def Let_def lv(2) split: option.splits)
  have gauge: "gauge_reads (Calls (set_inflight p e)) n vals
        = map_option (\<lambda>p. of_i64 (PValue p)) (freshest [q \<leftarrow> ps @ [p]. in_series n inflight_labels vals q] None)
      \<and> map_of (InflightAt (set_inflight p e)) (gauge_key n vals)
        = map_option PAt (freshest [q \<leftarrow> ps @ [p]. in_series n inflight_labels vals q] None)"
    if n: "gauge_family n" "length vals = length inflight_labels" "\<forall>v \<in> set vals. nul_free_label v" for n vals
  proof (cases "in_series n inflight_labels vals p")
    case True
    then have "n = PName p" "vals = ?vals" by (simp_all add: in_series_def)
    then show ?thesis using lv by (cases ?best) (auto simp: e' freshest_append in_series_def gauge_reads_snoc)
  next
    case False
    then have "\<not> (n = PName p \<and> vals = ?vals)" by (auto simp: in_series_def)
    moreover have "gauge_key (PName p) ?vals = gauge_key n vals \<longleftrightarrow> PName p = n \<and> ?vals = vals"
      using own n gauge_family_clean g by (intro gauge_key_inj) auto
    ultimately show ?thesis using False s n by (auto simp: e' shows_points_def gauge_reads_snoc)
  qed
  have "counter_adds (Calls (set_inflight p e)) n vals = counter_adds (Calls e) n vals" for n vals
    by (simp add: e' counter_adds_snoc)
  moreover have "\<not> in_series n lbls vals p" if "counter_labels n = Some lbls" for n lbls vals
    using that gauge_family_clean [OF g] by (auto simp: in_series_def)
  ultimately have counters: "counter_adds (Calls (set_inflight p e)) n vals = map (\<lambda>p. of_i64 (PValue p)) [q \<leftarrow> ps @ [p]. in_series n lbls vals q]"
    if "counter_labels n = Some lbls" for n lbls vals
    using s that by (simp add: shows_points_def)
  show ?thesis unfolding shows_points_def using gauge counters by blast
qed

lemma shows_add_counter:
  assumes s: "shows_points ps e" and l: "counter_labels (PName p) = Some lbls" and r: "add_counter lbls p e = (None, e')"
  shows "shows_points (ps @ [p]) e'"
proof -
  have e': "e' = e\<lparr>Calls := Calls e @ [CounterAdd (PName p) (ordered_values (PLabels p) lbls) (of_i64 (PValue p))]\<rparr>"
    using r by (simp add: add_counter_def split: if_splits)
  have "\<not> in_series n inflight_labels vals p" if "gauge_family n" for n vals
    using that gauge_family_clean l by (auto simp: in_series_def)
  then show ?thesis using s l by (auto simp: shows_points_def e' gauge_reads_snoc counter_adds_snoc in_series_def)
qed

lemma export_point_cases:
  "acceptable p \<Longrightarrow> \<exists>e'. export_point p e = (None, e')"
  "\<not> acceptable p \<Longrightarrow> \<exists>x. export_point p e = (Some x, e)"
  by (auto simp: acceptable_def export_point_def gauge_family_def add_counter_def counter_labels_def split: option.splits if_splits)

lemma shows_export_point:
  assumes "shows_points ps e" "clean_point p" "export_point p e = (None, e')"
  shows "shows_points (ps @ [p]) e'"
proof (cases "counter_labels (PName p)")
  case (Some lbls)
  then show ?thesis using assms shows_add_counter by (simp add: export_point_def)
next
  case None
  then have "gauge_family (PName p)" "e' = set_inflight p e"
    using assms(3) by (auto simp: export_point_def gauge_family_def split: if_splits)
  then show ?thesis using shows_set_inflight [OF assms(1,2)] by simp
qed

lemma shows_export_metrics:
  "shows_points ps e \<Longrightarrow> \<forall>p \<in> set batch. clean_point p
    \<Longrightarrow> shows_points (ps @ accepted batch) (snd (prom_export_metrics batch e))"
proof (induction batch arbitrary: ps e)
  case (Cons p batch)
  show ?case
  proof (cases "acceptable p")
    case True
    then obtain e' where e': "export_point p e = (None, e')" using export_point_cases(1) by blast
    then have "shows_points (ps @ [p]) e'" using shows_export_point Cons.prems by simp
    from Cons.IH [OF this] show ?thesis using Cons.prems True e' by (simp add: accepted_def)
  next
    case False
    then obtain x where "export_point p e = (Some x, e)" using export_point_cases(2) by blast
    then show ?thesis using Cons.prems False by (simp add: accepted_def)
  qed
qed (simp add: accepted_def)

definition export_batches :: "metric_point list list \<Rightarrow> prom_exporter \<Rightarrow> prom_exporter" where
  "export_batches bs e = fold (\<lambda>b e. snd (prom_export_metrics b e)) bs e"

lemma shows_batches:
  "shows_points ps e \<Longrightarrow> \<forall>b \<in> set bs. \<forall>p \<in> set b. clean_point p
    \<Longrightarrow> shows_points (ps @ concat (map accepted bs)) (export_batches bs e)"
proof (induction bs arbitrary: ps e)
  case (Cons b bs)
  have "shows_points (ps @ accepted b) (snd (prom_export_metrics b e))"
    using Cons.prems by (intro shows_export_metrics) simp_all
  from Cons.IH [OF this] show ?case using Cons.prems by (simp add: export_batches_def)
qed (simp add: export_batches_def)

lemma shows_new: "new_prometheus register = Inr e \<Longrightarrow> shows_points [] e"
  by (auto simp: new_prometheus_def shows_points_def gauge_reads_def counter_adds_def split: option.splits)


section \<open>Deliveries\<close>

text \<open>The freshest point, and where it stands among the delivered ones.\<close>

lemma freshest_split_Some:
  "freshest ps (Some c) = Some b \<Longrightarrow>
     (b = c \<and> (\<forall>q \<in> set ps. PAt q < PAt c))
     \<or> (\<exists>as cs. ps = as @ b # cs \<and> PAt c \<le> PAt b \<and> (\<forall>q \<in> set as. PAt q \<le> PAt b) \<and> (\<forall>q \<in> set cs. PAt q < PAt b))"
proof (induction ps arbitrary: c)
  case (Cons p ps)
  show ?case
  proof (cases "PAt p < PAt c")
    case True
    then have "freshest ps (Some c) = Some b" using Cons.prems by simp
    from Cons.IH [OF this] show ?thesis
    proof (elim disjE exE conjE)
      fix as cs
      assume "ps = as @ b # cs" "PAt c \<le> PAt b" "\<forall>q \<in> set as. PAt q \<le> PAt b" "\<forall>q \<in> set cs. PAt q < PAt b"
      then show ?thesis using True by (intro disjI2 exI [of _ "p # as"] exI [of _ cs]) auto
    qed (use True in simp)
  next
    case False
    then have "freshest ps (Some p) = Some b" using Cons.prems by simp
    from Cons.IH [OF this] show ?thesis
    proof (elim disjE exE conjE)
      assume "b = p" "\<forall>q \<in> set ps. PAt q < PAt p"
      then show ?thesis using False by (intro disjI2 exI [of _ "[]"] exI [of _ ps]) auto
    next
      fix as cs
      assume "ps = as @ b # cs" "PAt p \<le> PAt b" "\<forall>q \<in> set as. PAt q \<le> PAt b" "\<forall>q \<in> set cs. PAt q < PAt b"
      then show ?thesis using False by (intro disjI2 exI [of _ "p # as"] exI [of _ cs]) auto
    qed
  qed
qed simp

lemma freshest_split:
  assumes "freshest ps None = Some b"
  shows "\<exists>as cs. ps = as @ b # cs \<and> (\<forall>q \<in> set as. PAt q \<le> PAt b) \<and> (\<forall>q \<in> set cs. PAt q < PAt b)"
proof (cases ps)
  case (Cons p qs)
  then have "freshest qs (Some p) = Some b" using assms by simp
  from freshest_split_Some [OF this] show ?thesis
  proof (elim disjE exE conjE)
    assume "b = p" "\<forall>q \<in> set qs. PAt q < PAt p"
    then show ?thesis using Cons by (intro exI [of _ "[]"] exI [of _ qs]) auto
  next
    fix as cs
    assume "qs = as @ b # cs" "PAt p \<le> PAt b" "\<forall>q \<in> set as. PAt q \<le> PAt b" "\<forall>q \<in> set cs. PAt q < PAt b"
    then show ?thesis using Cons by (intro exI [of _ "p # as"] exI [of _ cs]) auto
  qed
qed (use assms in simp)

text \<open>C17: overlapping flushes may deliver their batches in any order. Whatever the order, a gauge series (one whose
  labels hold no NUL, as every validated label is) shows the level of the last delivered of its freshest points -
  every point delivered before it is no later, every one delivered after it is earlier - and nothing if none was
  delivered; a counter is given the deltas delivered for it, each once, in order.\<close>

theorem gauge_shows_freshest:
  assumes new: "new_prometheus register = Inr e" and clean: "\<forall>b \<in> set bs. \<forall>p \<in> set b. clean_point p"
    and n: "gauge_family n" and vals: "length vals = length inflight_labels" "\<forall>v \<in> set vals. nul_free_label v"
    and ps: "ps = [p \<leftarrow> concat (map accepted bs). in_series n inflight_labels vals p]"
  shows "(case gauge_reads (Calls (export_batches bs e)) n vals of
      None \<Rightarrow> ps = []
    | Some x \<Rightarrow> \<exists>as p cs. ps = as @ p # cs \<and> x = of_i64 (PValue p)
        \<and> (\<forall>q \<in> set as. PAt q \<le> PAt p) \<and> (\<forall>q \<in> set cs. PAt q < PAt p))
    \<and> (\<forall>m lbls ws. counter_labels m = Some lbls \<longrightarrow>
         counter_adds (Calls (export_batches bs e)) m ws
           = map (\<lambda>p. of_i64 (PValue p)) [p \<leftarrow> concat (map accepted bs). in_series m lbls ws p])"
proof -
  have s: "shows_points (concat (map accepted bs)) (export_batches bs e)"
    using shows_batches [OF shows_new [OF new] clean] by simp
  then have lv: "gauge_reads (Calls (export_batches bs e)) n vals = map_option (\<lambda>p. of_i64 (PValue p)) (freshest ps None)"
    using n vals by (simp add: shows_points_def ps)
  have "case gauge_reads (Calls (export_batches bs e)) n vals of
      None \<Rightarrow> ps = []
    | Some x \<Rightarrow> \<exists>as p cs. ps = as @ p # cs \<and> x = of_i64 (PValue p)
        \<and> (\<forall>q \<in> set as. PAt q \<le> PAt p) \<and> (\<forall>q \<in> set cs. PAt q < PAt p)"
  proof (cases "freshest ps None")
    case None
    then show ?thesis using lv freshest_None by simp
  next
    case (Some p)
    then show ?thesis using freshest_split [OF Some] by (auto simp: lv)
  qed
  then show ?thesis using shows_counter [OF s] by blast
qed

text \<open>two runs that deliver the same points in batches of any make and order leave every gauge series at the
  same level, where no two of its points have the same time and another level, and every counter with the same
  deltas.\<close>

theorem delivery_order_irrelevant:
  assumes new: "new_prometheus register = Inr e"
    and clean: "\<forall>b \<in> set (bs @ bs'). \<forall>p \<in> set b. clean_point p"
    and same: "mset (concat (map accepted bs)) = mset (concat (map accepted bs'))"
    and ties: "\<forall>p \<in> set (concat (map accepted bs)). \<forall>q \<in> set (concat (map accepted bs)).
      PName p = PName q \<and> PAt p = PAt q \<and> ordered_values (PLabels p) inflight_labels = ordered_values (PLabels q) inflight_labels
        \<longrightarrow> PValue p = PValue q"
  shows "(gauge_family n \<and> length vals = length inflight_labels \<and> (\<forall>v \<in> set vals. nul_free_label v)
      \<longrightarrow> gauge_reads (Calls (export_batches bs e)) n vals = gauge_reads (Calls (export_batches bs' e)) n vals)
    \<and> (counter_labels n \<noteq> None
      \<longrightarrow> mset (counter_adds (Calls (export_batches bs e)) n vals) = mset (counter_adds (Calls (export_batches bs' e)) n vals))"
proof -
  let ?a = "concat (map accepted bs)" and ?b = "concat (map accepted bs')"
  have s: "shows_points ?a (export_batches bs e)" "shows_points ?b (export_batches bs' e)"
    using shows_batches [OF shows_new [OF new], of bs] shows_batches [OF shows_new [OF new], of bs'] clean
    by (simp_all add: ball_Un)
  have "gauge_reads (Calls (export_batches bs e)) n vals = gauge_reads (Calls (export_batches bs' e)) n vals"
    if g: "gauge_family n" "length vals = length inflight_labels" "\<forall>v \<in> set vals. nul_free_label v"
  proof -
    let ?p = "[p \<leftarrow> ?a. in_series n inflight_labels vals p]" and ?q = "[p \<leftarrow> ?b. in_series n inflight_labels vals p]"
    have eq: "set ?p = set ?q" using same by (metis mset_filter set_mset_mset)
    have "\<forall>p \<in> set ?p. \<forall>q \<in> set ?p. PAt p = PAt q \<longrightarrow> PValue p = PValue q"
    proof (intro ballI impI)
      fix p q
      assume "p \<in> set ?p" "q \<in> set ?p" and t: "PAt p = PAt q"
      then have a: "p \<in> set ?a" "q \<in> set ?a" and m: "in_series n inflight_labels vals p" "in_series n inflight_labels vals q"
        by (simp_all only: set_filter mem_Collect_eq)
      then show "PValue p = PValue q" using bspec [OF bspec [OF ties a(1)] a(2)] t unfolding in_series_def by simp
    qed
    from freshest_level [OF eq this]
    have "map_option (\<lambda>p. of_i64 (PValue p)) (freshest ?p None) = map_option (\<lambda>p. of_i64 (PValue p)) (freshest ?q None)" .
    then show ?thesis using s g by (simp add: shows_points_def)
  qed
  moreover have "mset (counter_adds (Calls (export_batches bs e)) n vals) = mset (counter_adds (Calls (export_batches bs' e)) n vals)"
    if "counter_labels n = Some lbls" for lbls
  proof -
    have "mset [p \<leftarrow> ?a. in_series n lbls vals p] = mset [p \<leftarrow> ?b. in_series n lbls vals p]" using same by (metis mset_filter)
    then show ?thesis unfolding shows_counter [OF s(1) that] shows_counter [OF s(2) that] mset_map by (simp only:)
  qed
  ultimately show ?thesis by blast
qed


definition demo_gauge :: "int \<Rightarrow> time \<Rightarrow> metric_point" where
  "demo_gauge v t = \<lparr>PName = ''biz_inflight_value'',
     PLabels = [(''flow'', ''payout''), (''stage'', ''settle''), (''age_bucket'', ''1h''), (''currency'', ''EUR'')],
     PValue = word_of_int v, PAt = t\<rparr>"

definition demo_vals :: "string list" where
  "demo_vals = [''payout'', ''settle'', ''1h'', ''EUR'']"

lemma demo_gauge_clean: "clean_point (demo_gauge v t)"
  by (simp add: clean_point_def demo_gauge_def map_get_def nul_free_label_def)

lemma demo_runs:
  "new_prometheus (\<lambda>_. None) = Inr \<lparr>Calls = [], InflightAt = []\<rparr>" "gauge_family ''biz_inflight_value''"
  "length demo_vals = length inflight_labels" "\<forall>v \<in> set demo_vals. nul_free_label v"
  by (simp_all add: new_prometheus_def prom_families_def gauge_family_def demo_vals_def inflight_labels_def nul_free_label_def)

text \<open>The later of two points of the same time wins, and an earlier point delivered last loses.\<close>

theorem gauge_shows_freshest_witness:
  "gauge_reads (Calls (export_batches [[demo_gauge 500 20], [demo_gauge 700 20, demo_gauge 900 10]] \<lparr>Calls = [], InflightAt = []\<rparr>))
     ''biz_inflight_value'' demo_vals = Some (of_i64 700)"
proof -
  let ?bs = "[[demo_gauge 500 20], [demo_gauge 700 20, demo_gauge 900 10]]"
  let ?read = "gauge_reads (Calls (export_batches ?bs \<lparr>Calls = [], InflightAt = []\<rparr>)) ''biz_inflight_value'' demo_vals"
  have ps: "[p \<leftarrow> concat (map accepted ?bs). in_series ''biz_inflight_value'' inflight_labels demo_vals p]
      = [demo_gauge 500 20, demo_gauge 700 20, demo_gauge 900 10]"
    by code_simp
  have "\<forall>b \<in> set ?bs. \<forall>p \<in> set b. clean_point p" using demo_gauge_clean by simp
  from gauge_shows_freshest [OF demo_runs(1) this demo_runs(2-4) refl, THEN conjunct1] obtain as p cs where
    l: "[demo_gauge 500 20, demo_gauge 700 20, demo_gauge 900 10] = as @ p # cs" and x: "?read = Some (of_i64 (PValue p))"
    and o': "\<forall>q \<in> set as. PAt q \<le> PAt p" "\<forall>q \<in> set cs. PAt q < PAt p"
    unfolding ps by (auto split: option.splits)
  have "p = demo_gauge 700 20"
    using l o' by (auto simp: Cons_eq_append_conv demo_gauge_def)
  then show ?thesis using x by (simp add: demo_gauge_def)
qed

theorem delivery_order_irrelevant_witness:
  "gauge_reads (Calls (export_batches [[demo_gauge 500 20], [demo_gauge 900 10]] \<lparr>Calls = [], InflightAt = []\<rparr>))
     ''biz_inflight_value'' demo_vals
   = gauge_reads (Calls (export_batches [[demo_gauge 900 10, demo_gauge 500 20]] \<lparr>Calls = [], InflightAt = []\<rparr>))
     ''biz_inflight_value'' demo_vals"
proof -
  let ?bs = "[[demo_gauge 500 20], [demo_gauge 900 10]]" and ?cs = "[[demo_gauge 900 10, demo_gauge 500 20]]"
  have "map accepted ?bs = ?bs" "map accepted ?cs = ?cs" by (simp_all add: accepted_def acceptable_def gauge_family_def demo_gauge_def)
  then have same: "mset (concat (map accepted ?bs)) = mset (concat (map accepted ?cs))"
    and ties: "\<forall>p \<in> set (concat (map accepted ?bs)). \<forall>q \<in> set (concat (map accepted ?bs)).
      PName p = PName q \<and> PAt p = PAt q \<and> ordered_values (PLabels p) inflight_labels = ordered_values (PLabels q) inflight_labels
        \<longrightarrow> PValue p = PValue q"
    by (simp_all add: demo_gauge_def)
  have "\<forall>b \<in> set (?bs @ ?cs). \<forall>p \<in> set b. clean_point p" using demo_gauge_clean by simp
  from delivery_order_irrelevant [OF demo_runs(1) this same ties] demo_runs(2-4) show ?thesis by blast
qed

end
