(* ===== verification/Promql_Exact.thy ===== *)
theory Promql_Exact
  imports Promql_Lang Prom_Export
begin

text \<open>
  What the translation to PromQL is worth: over a Prometheus that evaluates the expressions as its documentation
  says, on counters scraped up to the window's boundaries, the adapter's numbers are those of the in-memory
  backend on the points behind the counters.
\<close>

section \<open>The in-memory answer for a counter\<close>

definition point_key :: "string list \<Rightarrow> metric_point \<Rightarrow> labels" where
  "point_key grp p = group_key (PLabels p) grp"

lemma add_point_groups:
  "map_ok (fold (add_point grp) ps []) \<and>
   map_of (fold (add_point grp) ps []) ck
     = (case [p \<leftarrow> ps. canonical (point_key grp p) = ck] of
          [] \<Rightarrow> None
        | p # qs \<Rightarrow> Some (point_key grp p, p # qs))"
proof (induction ps arbitrary: ck rule: rev_induct)
  case (snoc p ps)
  let ?m = "fold (add_point grp) ps []" and ?ck = "canonical (point_key grp p)"
  have ok: "map_ok ?m" using snoc by blast
  have step: "fold (add_point grp) (ps @ [p]) [] = (case map_of ?m ?ck of
        Some (lbls, qs) \<Rightarrow> map_put ?ck (lbls, qs @ [p]) ?m
      | None \<Rightarrow> ?m @ [(?ck, (point_key grp p, [p]))])"
    by (simp add: add_point_def Let_def point_key_def split: option.split)
  show ?case
  proof (cases "map_of ?m ?ck")
    case None
    then have "?ck \<notin> fst ` set ?m" by (simp add: map_of_eq_None_iff)
    then have "map_ok (?m @ [(?ck, (point_key grp p, [p]))])" using ok by (auto simp: map_ok_def)
    moreover have "[q \<leftarrow> ps. canonical (point_key grp q) = ?ck] = []"
      using snoc [of ?ck] None by (auto split: list.splits)
    moreover have "map_of (?m @ [(?ck, (point_key grp p, [p]))]) ck
        = (if ck = ?ck then Some (point_key grp p, [p]) else map_of ?m ck)"
      using None by (simp add: Map.map_add_def split: option.split)
    ultimately show ?thesis using snoc [of ck] None unfolding step by (auto split: list.splits)
  next
    case (Some e)
    obtain lbls qs where e: "e = (lbls, qs)" by (cases e)
    obtain q qs' where f: "[q \<leftarrow> ps. canonical (point_key grp q) = ?ck] = q # qs'" "lbls = point_key grp q" "qs = q # qs'"
      using snoc [of ?ck] Some e by (auto split: list.splits)
    show ?thesis using snoc [of ck] ok f unfolding step Some e by (auto split: list.splits)
  qed
qed (simp add: map_ok_def)

text \<open>Sums of amounts below the float's 53 bits are exact in any order.\<close>

definition sum_values :: "metric_point list \<Rightarrow> int" where
  "sum_values ps = (\<Sum>p \<leftarrow> ps. sint (PValue p))"

lemma fold_fadd_exact:
  assumes "\<forall>p \<in> set ps. 0 \<le> sint (PValue p)" "0 \<le> a" "a + sum_values ps < 2 ^ 53"
  shows "fold (\<lambda>p acc. fadd acc (of_i64 (PValue p))) ps (Fin (of_int a)) = Fin (of_int (a + sum_values ps))"
  using assms
proof (induction ps arbitrary: a)
  case (Cons p ps)
  have nn: "0 \<le> sum_values ps" using Cons.prems(1) by (auto simp: sum_values_def intro!: sum_list_nonneg)
  have b: "0 \<le> a + sint (PValue p)" "a + sint (PValue p) + sum_values ps < 2 ^ 53" "sint (PValue p) < 2 ^ 53"
    using Cons.prems nn by (auto simp: sum_values_def)
  have "fadd (Fin (of_int a)) (of_i64 (PValue p)) = to_f64 (of_int (a + sint (PValue p)))"
    using of_i64_exact [of "PValue p"] b(3) Cons.prems(1) by simp
  also have "\<dots> = Fin (of_int (a + sint (PValue p)))" using b nn by (intro to_f64_int) auto
  finally have "fadd (Fin (of_int a)) (of_i64 (PValue p)) = Fin (of_int (a + sint (PValue p)))" .
  then show ?case using Cons.IH [of "a + sint (PValue p)"] Cons.prems b by (simp add: sum_values_def add.assoc)
qed (simp add: sum_values_def)

definition window_points :: "metric_query \<Rightarrow> metric_point list \<Rightarrow> metric_point list" where
  "window_points q pts = [p \<leftarrow> pts. wanted_point q False p]"

definition group_points :: "metric_query \<Rightarrow> metric_point list \<Rightarrow> labels \<Rightarrow> metric_point list" where
  "group_points q pts key = [p \<leftarrow> window_points q pts. point_key (QGroupBy q) p = key]"

lemma total_filter_le: "\<forall>p \<in> set ps. 0 \<le> sint (PValue p) \<Longrightarrow> sum_values [p \<leftarrow> ps. P p] \<le> sum_values ps"
  by (induction ps) (auto simp: sum_values_def)

lemma memq_counter_answer:
  assumes q: "Metric q \<notin> set gauge_families" "QAgg q \<noteq> agg_count" "QStep q \<le> 0" "distinct (QGroupBy q)"
    and pts: "\<forall>p \<in> set pts. clean_point p \<and> 0 \<le> sint (PValue p)" "sum_values pts < 2 ^ 53"
    and caps: "CMetrics c"
  obtains series where "memq_metric \<lparr>mq_metrics = pts, mq_events = evs, mq_caps = c\<rparr> q = Inr series"
    "\<forall>s \<in> set series. group_points q pts (SLabels s) \<noteq> []
       \<and> map PtValue (SPoints s) = [Fin (of_int (sum_values (group_points q pts (SLabels s))))]"
    "\<forall>key. group_points q pts key \<noteq> [] \<longrightarrow> key \<in> SLabels ` set series"
proof -
  let ?grp = "QGroupBy q" and ?w = "window_points q pts"
  let ?m = "fold (add_point ?grp) ?w []"
  let ?slice = "\<lambda>ck. (let (lbls, ps) = map_get ([], []) ?m ck in \<lparr>SLabels = lbls, SPoints = bucket_points ps q False\<rparr>)"
  let ?series = "map ?slice (sort (map fst ?m))"
  have run: "memq_metric \<lparr>mq_metrics = pts, mq_events = evs, mq_caps = c\<rparr> q = Inr ?series"
    using q(1) caps by (simp add: memq_metric_def window_points_def Let_def)
  have w: "\<forall>p \<in> set ?w. clean_point p \<and> 0 \<le> sint (PValue p) \<and> in_range (PAt p) (QRange q)"
    using pts(1) by (auto simp: window_points_def wanted_point_def)
  have inj: "canonical (point_key ?grp p) = canonical (point_key ?grp p') \<longleftrightarrow> point_key ?grp p = point_key ?grp p'"
    if "p \<in> set ?w" "p' \<in> set ?w" for p p'
    using w that unfolding point_key_def by (intro canonical_inj [OF q(4)]) (auto simp: clean_point_def)
  have group: "?slice (canonical (point_key ?grp p)) = \<lparr>SLabels = point_key ?grp p,
      SPoints = [\<lparr>PtAt = From (QRange q), PtValue = Fin (of_int (sum_values (group_points q pts (point_key ?grp p))))\<rparr>]\<rparr>"
    and nonempty: "group_points q pts (point_key ?grp p) \<noteq> []"
    if p: "p \<in> set ?w" for p
  proof -
    let ?g = "group_points q pts (point_key ?grp p)"
    have f: "[p' \<leftarrow> ?w. canonical (point_key ?grp p') = canonical (point_key ?grp p)] = ?g"
      unfolding group_points_def using inj p by (intro filter_cong refl) auto
    have pg: "p \<in> set ?g" using p by (simp add: group_points_def)
    then show "?g \<noteq> []" by auto
    then obtain p1 qs where g: "?g = p1 # qs" by (cases ?g) auto
    then have "p1 \<in> set ?g" by simp
    then have p1: "point_key ?grp p1 = point_key ?grp p" by (simp add: group_points_def)
    have "map_get ([], []) ?m (canonical (point_key ?grp p)) = (point_key ?grp p, ?g)"
      using add_point_groups [of ?grp ?w "canonical (point_key ?grp p)"] f g p1 by (simp add: map_get_def)
    moreover have "bucket_points ?g q False = [\<lparr>PtAt = From (QRange q), PtValue = Fin (of_int (sum_values ?g))\<rparr>]"
    proof -
      have gw: "\<forall>p \<in> set ?g. 0 \<le> sint (PValue p) \<and> in_range (PAt p) (QRange q)" using w by (auto simp: group_points_def)
      have "sum_values ?g \<le> sum_values pts"
        using total_filter_le [of ?w] total_filter_le [of pts] pts(1) w
        unfolding group_points_def window_points_def by (meson order_trans)
      then have "fold (\<lambda>p acc. fadd acc (of_i64 (PValue p))) ?g (Fin 0) = Fin (of_int (sum_values ?g))"
        using fold_fadd_exact [of ?g 0] gw pts(2) by simp
      moreover have "[p \<leftarrow> ?g. \<not> PAt p < From (QRange q) \<and> PAt p < To (QRange q)] = ?g"
        using gw by (simp add: filter_id_conv in_range_def)
      ultimately show ?thesis using q g by (simp add: bucket_points_def aggregate_def Let_def)
    qed
    ultimately show "?slice (canonical (point_key ?grp p)) = \<lparr>SLabels = point_key ?grp p,
      SPoints = [\<lparr>PtAt = From (QRange q), PtValue = Fin (of_int (sum_values ?g))\<rparr>]\<rparr>" by simp
  qed
  have keys: "fst ` set ?m = (\<lambda>p. canonical (point_key ?grp p)) ` set ?w"
  proof (rule set_eqI)
    fix ck
    have "ck \<in> fst ` set ?m \<longleftrightarrow> map_of ?m ck \<noteq> None" by (simp add: map_of_eq_None_iff)
    also have "\<dots> \<longleftrightarrow> [p \<leftarrow> ?w. canonical (point_key ?grp p) = ck] \<noteq> []"
      using add_point_groups [of ?grp ?w ck] by (auto split: list.splits)
    also have "\<dots> \<longleftrightarrow> ck \<in> (\<lambda>p. canonical (point_key ?grp p)) ` set ?w" by (auto simp: filter_empty_conv)
    finally show "ck \<in> fst ` set ?m \<longleftrightarrow> ck \<in> (\<lambda>p. canonical (point_key ?grp p)) ` set ?w" .
  qed
  have each: "s \<in> set ?series \<longleftrightarrow> (\<exists>p \<in> set ?w. s = ?slice (canonical (point_key ?grp p)))" for s
  proof -
    have "set ?series = ?slice ` fst ` set ?m" by simp
    also have "\<dots> = (\<lambda>p. ?slice (canonical (point_key ?grp p))) ` set ?w" unfolding keys image_image by (rule refl)
    finally show ?thesis by (simp only: image_iff)
  qed
  show ?thesis
  proof (rule that [OF run])
    show "\<forall>s \<in> set ?series. group_points q pts (SLabels s) \<noteq> []
       \<and> map PtValue (SPoints s) = [Fin (of_int (sum_values (group_points q pts (SLabels s))))]"
    proof
      fix s assume "s \<in> set ?series"
      then obtain p where p: "p \<in> set ?w" "s = ?slice (canonical (point_key ?grp p))" using each by blast
      show "group_points q pts (SLabels s) \<noteq> [] \<and> map PtValue (SPoints s) = [Fin (of_int (sum_values (group_points q pts (SLabels s))))]"
        unfolding p(2) group [OF p(1)] using nonempty [OF p(1)] by simp
    qed
    show "\<forall>key. group_points q pts key \<noteq> [] \<longrightarrow> key \<in> SLabels ` set ?series"
    proof (intro allI impI)
      fix key assume "group_points q pts key \<noteq> []"
      then obtain p where p: "p \<in> set ?w" "point_key ?grp p = key" by (auto simp: group_points_def filter_empty_conv)
      have m: "?slice (canonical (point_key ?grp p)) \<in> set ?series" using each p(1) by blast
      have "key = SLabels (?slice (canonical (point_key ?grp p)))" unfolding group [OF p(1)] by (simp add: p(2))
      then show "key \<in> SLabels ` set ?series" using m by (rule image_eqI)
    qed
  qed
qed

section \<open>The expression of a counter\<close>

definition lookback_seconds :: "metric_query \<Rightarrow> int" where
  "lookback_seconds q = max 1 ((To (QRange q) - From (QRange q)) div second)"

definition end_ms :: "metric_query \<Rightarrow> int" where "end_ms q = To (QRange q) div millisecond - 1"
definition start_ms :: "metric_query \<Rightarrow> int" where "start_ms q = From (QRange q) div millisecond - 1"

text \<open>The last values of the matching series up to a time, added by group, and the increase over the window: the sum
  at its end minus that at its start, a group that had none there counting from zero.\<close>

definition counter_sum :: "metric_query \<Rightarrow> int \<Rightarrow> prom_ast" where
  "counter_sum q ms =
     SumBy (sort (QGroupBy q))
       (LastOver (Metric q) (map (\<lambda>k. (k, map_get [] (QFilters q) k)) (sorted_keys (QFilters q))) (lookback_seconds q) ms)"

definition counter_expr :: "metric_query \<Rightarrow> prom_ast" where
  "counter_expr q = Minus (counter_sum q (end_ms q)) (OrElse (counter_sum q (start_ms q)) (Times (counter_sum q (end_ms q)) 0))"

text \<open>The level of a group, series by series.\<close>

definition series_value :: "labels \<Rightarrow> string list \<Rightarrow> int \<Rightarrow> int \<Rightarrow> labels \<Rightarrow> labels \<times> (int \<times> int) list \<Rightarrow> int option" where
  "series_value filters grp lo hi key s =
     (if match_filters (fst s) filters \<and> group_key (fst s) grp = key then last_in lo hi (snd s) else None)"

definition range_level :: "scrapes \<Rightarrow> labels \<Rightarrow> string list \<Rightarrow> int \<Rightarrow> int \<Rightarrow> labels \<Rightarrow> int option" where
  "range_level ss filters grp lo hi key =
     (let vs = List.map_filter (series_value filters grp lo hi key) ss in if vs = [] then None else Some (sum_list vs))"

definition diff_level :: "(labels \<Rightarrow> int option) \<Rightarrow> (labels \<Rightarrow> int option) \<Rightarrow> labels \<Rightarrow> int option" where
  "diff_level a b key =
     (case a key of None \<Rightarrow> None | Some x \<Rightarrow> Some (x - (case b key of Some y \<Rightarrow> y | None \<Rightarrow> 0)))"

text \<open>The points of a series before a time, and a metric scraped up to it: the last sample in reach shows what was
  recorded before, and a series without one had nothing recorded.\<close>

definition recorded_before :: "metric_query \<Rightarrow> metric_point list \<Rightarrow> labels \<Rightarrow> time \<Rightarrow> metric_point list" where
  "recorded_before q pts lbls t = [p \<leftarrow> pts. PName p = Metric q \<and> PLabels p = lbls \<and> PAt p < t]"

definition scraped_up_to :: "metric_query \<Rightarrow> metric_point list \<Rightarrow> scrapes \<Rightarrow> int \<Rightarrow> bool" where
  "scraped_up_to q pts ss ms \<longleftrightarrow>
     (\<forall>s \<in> set ss.
        case last_in (ms - 1000 * lookback_seconds q) ms (snd s) of
          Some v \<Rightarrow> v = sum_values (recorded_before q pts (fst s) ((ms + 1) * millisecond))
        | None \<Rightarrow> recorded_before q pts (fst s) ((ms + 1) * millisecond) = [])"

definition scrapes_cover :: "metric_query \<Rightarrow> metric_point list \<Rightarrow> scrapes \<Rightarrow> bool" where
  "scrapes_cover q pts ss \<longleftrightarrow>
     distinct (map fst ss) \<and> (\<forall>p \<in> set pts. PName p = Metric q \<longrightarrow> PLabels p \<in> fst ` set ss)
     \<and> scraped_up_to q pts ss (end_ms q) \<and> scraped_up_to q pts ss (start_ms q)"

section \<open>Levels are sums\<close>

definition group_before :: "metric_query \<Rightarrow> metric_point list \<Rightarrow> labels \<Rightarrow> time \<Rightarrow> metric_point list" where
  "group_before q pts key t = [p \<leftarrow> pts. PName p = Metric q \<and> match_filters (PLabels p) (QFilters q)
     \<and> point_key (QGroupBy q) p = key \<and> PAt p < t]"

lemma total_append [simp]: "sum_values (a @ b) = sum_values a + sum_values b" and total_Nil [simp]: "sum_values [] = 0"
  by (simp_all add: sum_values_def)

lemma sum_list_zero: "(\<And>x. x \<in> set xs \<Longrightarrow> f x = 0) \<Longrightarrow> (\<Sum>x \<leftarrow> xs. f x) = (0 :: int)"
  by (induction xs) auto

lemma sum_one_series:
  "distinct ls \<Longrightarrow> l \<in> set ls \<Longrightarrow> (\<Sum>x \<leftarrow> ls. if P x then (if l = x then c else 0) else 0) = (if P l then c else (0 :: int))"
proof (induction ls)
  case (Cons a ls)
  show ?case
  proof (cases "a = l")
    case True
    then have "l \<notin> set ls" using Cons.prems by auto
    then have "(\<Sum>x \<leftarrow> ls. if P x then (if l = x then c else 0) else 0) = 0"
      by (intro sum_list_zero) auto
    then show ?thesis using True by simp
  next
    case False
    then show ?thesis using Cons by auto
  qed
qed simp

lemma total_by_series:
  assumes "distinct ls" "\<forall>p \<in> set pts. R p \<longrightarrow> PLabels p \<in> set ls"
  shows "sum_values [p \<leftarrow> pts. R p \<and> P (PLabels p)] = (\<Sum>l \<leftarrow> ls. if P l then sum_values [p \<leftarrow> pts. R p \<and> PLabels p = l] else 0)"
  using assms(2)
proof (induction pts)
  case Nil
  have "(\<Sum>l \<leftarrow> ls. if P l then sum_values [p \<leftarrow> []. R p \<and> PLabels p = l] else 0) = 0" by (intro sum_list_zero) auto
  then show ?case by (simp only: filter.simps total_Nil)
next
  case (Cons p pts)
  let ?c = "if R p then sint (PValue p) else 0"
  have "(\<Sum>l \<leftarrow> ls. if P l then sum_values [q \<leftarrow> p # pts. R q \<and> PLabels q = l] else 0)
      = (\<Sum>l \<leftarrow> ls. (if P l then (if PLabels p = l then ?c else 0) else 0) + (if P l then sum_values [q \<leftarrow> pts. R q \<and> PLabels q = l] else 0))"
    by (intro arg_cong [where f = sum_list] map_cong) (auto simp: sum_values_def)
  also have "\<dots> = (\<Sum>l \<leftarrow> ls. if P l then (if PLabels p = l then ?c else 0) else 0) + sum_values [q \<leftarrow> pts. R q \<and> P (PLabels q)]"
    using Cons by (simp add: sum_list_addf)
  also have "(\<Sum>l \<leftarrow> ls. if P l then (if PLabels p = l then ?c else 0) else 0) = (if P (PLabels p) then ?c else 0)"
  proof (cases "R p")
    case True
    then show ?thesis using sum_one_series [OF assms(1), of "PLabels p" P ?c] Cons.prems by simp
  next
    case False
    then have "(\<Sum>l \<leftarrow> ls. if P l then (if PLabels p = l then ?c else 0) else 0) = 0" by (intro sum_list_zero) auto
    then show ?thesis using False by simp
  qed
  finally show ?case by (simp add: sum_values_def)
qed

lemma sum_map_filter: "sum_list (List.map_filter f xs) = (\<Sum>x \<leftarrow> xs. case f x of Some v \<Rightarrow> v | None \<Rightarrow> (0 :: int))"
  by (induction xs) (auto simp: map_filter_simps split: option.splits)

lemma map_filter_empty: "List.map_filter f xs = [] \<longleftrightarrow> (\<forall>x \<in> set xs. f x = None)"
  by (induction xs) (auto simp: map_filter_simps split: option.splits)

lemma range_level_total:
  assumes d: "distinct (map fst ss)" and cov: "\<forall>p \<in> set pts. PName p = Metric q \<longrightarrow> PLabels p \<in> fst ` set ss"
    and sc: "scraped_up_to q pts ss ms"
  shows "case range_level ss (QFilters q) (QGroupBy q) (ms - 1000 * lookback_seconds q) ms key of
      Some x \<Rightarrow> x = sum_values (group_before q pts key ((ms + 1) * millisecond))
    | None \<Rightarrow> group_before q pts key ((ms + 1) * millisecond) = []"
proof -
  let ?t = "(ms + 1) * millisecond" and ?lo = "ms - 1000 * lookback_seconds q"
  let ?P = "\<lambda>l. match_filters l (QFilters q) \<and> group_key l (QGroupBy q) = key"
  let ?R = "\<lambda>p. PName p = Metric q \<and> PAt p < ?t"
  let ?f = "series_value (QFilters q) (QGroupBy q) ?lo ms key"
  have before: "group_before q pts key ?t = [p \<leftarrow> pts. ?R p \<and> ?P (PLabels p)]"
    unfolding group_before_def point_key_def by (rule filter_cong) auto
  have own: "recorded_before q pts l ?t = [p \<leftarrow> pts. ?R p \<and> PLabels p = l]" for l
    unfolding recorded_before_def by (rule filter_cong) auto
  have "sum_list (List.map_filter ?f ss) = (\<Sum>s \<leftarrow> ss. if ?P (fst s) then sum_values (recorded_before q pts (fst s) ?t) else 0)"
    unfolding sum_map_filter
  proof (intro arg_cong [where f = sum_list] map_cong refl)
    fix s assume "s \<in> set ss"
    then show "(case ?f s of Some v \<Rightarrow> v | None \<Rightarrow> 0) = (if ?P (fst s) then sum_values (recorded_before q pts (fst s) ?t) else 0)"
      using sc by (force simp: scraped_up_to_def series_value_def split: option.splits)
  qed
  also have "\<dots> = (\<Sum>l \<leftarrow> map fst ss. if ?P l then sum_values [p \<leftarrow> pts. ?R p \<and> PLabels p = l] else 0)"
    by (simp only: own map_map comp_def)
  also have "\<dots> = sum_values [p \<leftarrow> pts. ?R p \<and> ?P (PLabels p)]"
    using cov by (intro total_by_series [OF d, symmetric]) auto
  finally have sum: "sum_list (List.map_filter ?f ss) = sum_values (group_before q pts key ?t)" unfolding before .
  show ?thesis
  proof (cases "List.map_filter ?f ss = []")
    case True
    have "[p \<leftarrow> pts. ?R p \<and> ?P (PLabels p)] = []"
      unfolding filter_empty_conv
    proof (intro ballI notI)
      fix p assume p: "p \<in> set pts" "?R p \<and> ?P (PLabels p)"
      then obtain s where s: "s \<in> set ss" "fst s = PLabels p" using cov by auto
      then have "last_in ?lo ms (snd s) = None" using True p(2) by (auto simp: map_filter_empty series_value_def)
      then have "recorded_before q pts (PLabels p) ?t = []" using sc s by (fastforce simp: scraped_up_to_def)
      then show False using p by (auto simp: own filter_empty_conv)
    qed
    then show ?thesis using True by (simp add: range_level_def Let_def before)
  next
    case False
    then show ?thesis using sum by (simp add: range_level_def Let_def)
  qed
qed

lemma group_points_window:
  assumes "From (QRange q) \<le> To (QRange q)"
  shows "sum_values (group_points q pts key)
    = sum_values (group_before q pts key (To (QRange q))) - sum_values (group_before q pts key (From (QRange q)))"
  using assms
  by (induction pts) (auto simp: group_points_def window_points_def group_before_def wanted_point_def in_range_def sum_values_def)

lemma group_points_before: "group_before q pts key (To (QRange q)) = [] \<Longrightarrow> group_points q pts key = []"
  by (auto simp: group_points_def window_points_def group_before_def wanted_point_def in_range_def filter_empty_conv)

text \<open>The text of a translated counter query, with its times exact to the millisecond.\<close>

definition millis_window :: "metric_query \<Rightarrow> bool" where
  "millis_window q \<longleftrightarrow>
     millisecond dvd From (QRange q) \<and> millisecond dvd To (QRange q) \<and> From (QRange q) < To (QRange q)
     \<and> in_i64 (From (QRange q) - millisecond) \<and> in_i64 (To (QRange q) - millisecond)
     \<and> in_i64 (To (QRange q) - From (QRange q))"

lemma prom_time_exact:
  assumes "millisecond dvd t" "in_i64 (t - millisecond)"
  shows "prom_time (t - millisecond) = millis_text (t div millisecond - 1)"
proof -
  obtain k where k: "t = millisecond * k" using assms(1) by (auto simp: dvd_def)
  have "t - millisecond = (k - 1) * 1000000" "t div millisecond = k" by (simp_all add: k millisecond_def)
  then show ?thesis using float_millis_exact [of "k - 1"] assms(2) by (simp add: prom_time_def float_seconds_of_def)
qed

definition instant_text :: "metric_query \<Rightarrow> int \<Rightarrow> string" where
  "instant_text q ms =
     range_expr (by_clause (QGroupBy q)) (Metric q) (label_matchers (QFilters q)) (format_int (lookback_seconds q) @ ''s'')
       (millis_text ms)"

lemma join_with_str: "join_with c xs = join_str [c] xs"
  by (induction xs rule: induct_list012) simp_all

lemma sort_Nil_iff: "sort xs = [] \<longleftrightarrow> xs = []"
  by (metis set_empty set_sort)

lemma matchers_text:
  "m @ label_matchers fs = selector_text m (map (\<lambda>k. (k, map_get [] fs k)) (sorted_keys fs))"
  by (simp add: label_matchers_def selector_text_def sorted_keys_def sort_Nil_iff join_with_str comp_def)

lemma counter_sum_text: "prom_text (counter_sum q ms) = instant_text q ms"
  unfolding counter_sum_def instant_text_def range_expr_def prom_text.simps by_clause_def sort_Nil_iff
  by (simp add: matchers_text [symmetric])

lemma counter_expr_text: "prom_text (counter_expr q) = diff_expr (instant_text q (end_ms q)) (instant_text q (start_ms q))"
proof -
  have c: "call_like (counter_sum q ms)" for ms by (simp add: counter_sum_def)
  have z: "format_int 0 = ''0''" by code_simp
  show ?thesis
    by (simp add: counter_expr_def diff_expr_def operand_def c counter_sum_text z)
qed

lemma translate_counter:
  assumes "millis_window q" "Metric q \<notin> set gauge_families" "QAgg q \<noteq> agg_count" "QStep q \<le> 0"
  shows "translate q = Inr \<lparr>Expr = prom_text (counter_expr q), EvalAt = To (QRange q) - millisecond\<rparr>"
proof -
  let ?d = "To (QRange q) - From (QRange q)"
  have "time_sub (To (QRange q)) (From (QRange q)) = ?d" "0 < ?d"
    using assms(1) by (simp_all add: millis_window_def time_sub_exact)
  then have "prom_duration (time_sub (To (QRange q)) (From (QRange q))) = format_int (lookback_seconds q) @ ''s''"
    by (simp add: prom_duration_def lookback_seconds_def quot_to_zero_nonneg second_def Let_def max_def)
  moreover have "prom_time (To (QRange q) - millisecond) = millis_text (end_ms q)"
    "prom_time (From (QRange q) - millisecond) = millis_text (start_ms q)"
    using assms(1) by (simp_all add: millis_window_def prom_time_exact end_ms_def start_ms_def)
  ultimately show ?thesis using assms(2-4) by (simp add: translate_def Let_def counter_expr_text instant_text_def)
qed

lemma counter_keys:
  "distinct (map fst (vector_of db (counter_expr q)))"
  "l \<in> fst ` set (vector_of db (counter_expr q)) \<Longrightarrow> \<exists>l'. l = by_labels (sort (QGroupBy q)) l'"
proof -
  have k: "map fst (vector_of db (counter_expr q)) = [l \<leftarrow> map fst (vector_of db (counter_sum q (end_ms q))).
      map_of (vector_of db (OrElse (counter_sum q (start_ms q)) (Times (counter_sum q (end_ms q)) 0))) l \<noteq> None]"
    unfolding counter_expr_def by (rule minus_keys)
  have "distinct (map fst (vector_of db (counter_sum q (end_ms q))))" unfolding counter_sum_def by (rule sum_keys(1))
  then show "distinct (map fst (vector_of db (counter_expr q)))" unfolding k by (rule distinct_filter)
  assume "l \<in> fst ` set (vector_of db (counter_expr q))"
  then have "l \<in> set (map fst (vector_of db (counter_expr q)))" by simp
  then have "l \<in> fst ` set (vector_of db (counter_sum q (end_ms q)))" unfolding k by auto
  then show "\<exists>l'. l = by_labels (sort (QGroupBy q)) l'" unfolding counter_sum_def by (rule sum_keys(2))
qed

text \<open>What the code makes of the server's answer: one slice per sample of the expression's vector.\<close>

lemma counter_answered:
  assumes win: "millis_window q" and served: "answers_instant pq db (counter_expr q) (end_ms q)"
  shows "\<exists>vs slices. instant oob pq \<lparr>Expr = prom_text (counter_expr q), EvalAt = To (QRange q) - millisecond\<rparr> = Inr slices
    \<and> mset vs = mset (vector_of db (counter_expr q))
    \<and> list_all2 (\<lambda>v s. SLabels s = fst v \<and> map PtValue (SPoints s) = [Fin (of_int (snd v))]) vs slices"
proof -
  have t: "prom_time (To (QRange q) - millisecond) = millis_text (end_ms q)"
    using win by (simp add: millis_window_def prom_time_exact end_ms_def)
  let ?u = "PqBase pq @ ''/api/v1/query?'' @ encode_query [(''query'', prom_text (counter_expr q)), (''time'', millis_text (end_ms q))]"
  obtain body vs samples where b: "bad_request (PqClient pq) ?u = None" "do_request (PqClient pq) ?u = Inr (200, body, None)"
    "parse_json body = Some (answer_json samples)" "mset vs = mset (vector_of db (counter_expr q))" "list_all2 writes_sample vs samples"
    using served unfolding answers_instant_def Let_def by blast
  have "distinct (map fst l)" if "(l, x) \<in> set vs" for l x
  proof -
    have "l \<in> fst ` set (vector_of db (counter_expr q))" using that mset_eq_setD [OF b(4)] by force
    then obtain l' where "l = by_labels (sort (QGroupBy q)) l'" using counter_keys(2) by blast
    then show ?thesis by (simp add: by_labels_distinct)
  qed
  then have "list_all (\<lambda>v. distinct (map fst (fst v))) vs" by (auto simp: list_all_iff)
  from answer_read [OF b(3,5) this, of oob] obtain slices where s: "parse_vector oob body = Inr slices"
    "list_all2 (\<lambda>v s. SLabels s = fst v \<and> map PtValue (SPoints s) = [Fin (of_int (snd v))]) vs slices" by blast
  have "prom_get pq ''/api/v1/query'' [(''query'', prom_text (counter_expr q)), (''time'', millis_text (end_ms q))] = Inr body"
    using b(1,2) by (simp add: prom_get_def Let_def)
  then have "instant oob pq \<lparr>Expr = prom_text (counter_expr q), EvalAt = To (QRange q) - millisecond\<rparr> = Inr slices"
    using s(1) by (simp add: instant_def t)
  then show ?thesis using b(4) s(2) by blast
qed

section \<open>The value of the expression\<close>

lemma matchers_match:
  assumes "map_ok fs"
  shows "list_all (\<lambda>(k, v). map_get [] l k = v) (map (\<lambda>k. (k, map_get [] fs k)) (sorted_keys fs)) = match_filters l fs"
proof -
  have "list_all (\<lambda>(k, v). map_get [] l k = v) (map (\<lambda>k. (k, map_get [] fs k)) (sorted_keys fs))
      \<longleftrightarrow> (\<forall>k \<in> fst ` set fs. map_get [] l k = map_get [] fs k)"
    by (simp add: list_all_iff sorted_keys_def)
  also have "\<dots> \<longleftrightarrow> (\<forall>(k, v) \<in> set fs. map_get [] l k = v)" using map_get_in [OF assms] by fastforce
  finally show ?thesis by (simp add: match_filters_def list_all_iff)
qed

lemma counter_sum_level:
  assumes fs: "map_ok (QFilters q)" and d: "distinct (QGroupBy q)"
  shows "map_of (vector_of db (counter_sum q ms)) (by_labels (sort (QGroupBy q)) l)
    = range_level (db (Metric q)) (QFilters q) (QGroupBy q) (ms - 1000 * lookback_seconds q) ms (group_key l (QGroupBy q))"
proof -
  let ?g = "sort (QGroupBy q)" and ?lo = "ms - 1000 * lookback_seconds q"
  let ?last = "\<lambda>(l, xs). if match_filters l (QFilters q) then map_option (Pair (label_set l)) (last_in ?lo ms xs) else None"
  have same: "by_labels ?g (label_set l') = by_labels ?g l \<longleftrightarrow> group_key l' (QGroupBy q) = group_key l (QGroupBy q)" for l'
    using by_labels_order [of ?g "QGroupBy q"] group_key_by_labels [OF d, of l' l] by (simp add: by_labels_set)
  have "map snd [v \<leftarrow> List.map_filter ?last ss. by_labels ?g (fst v) = by_labels ?g l]
      = List.map_filter (series_value (QFilters q) (QGroupBy q) ?lo ms (group_key l (QGroupBy q))) ss" for ss
  proof (induction ss)
    case (Cons s ss)
    obtain l' xs where s: "s = (l', xs)" by (cases s)
    show ?case
      using Cons same [of l'] by (cases "match_filters l' (QFilters q)"; cases "last_in ?lo ms xs") (simp_all add: s map_filter_simps series_value_def)
  qed (simp add: map_filter_simps)
  then have "map snd [v \<leftarrow> List.map_filter ?last (db (Metric q)). by_labels ?g (fst v) = by_labels ?g l]
      = List.map_filter (series_value (QFilters q) (QGroupBy q) ?lo ms (group_key l (QGroupBy q))) (db (Metric q))" .
  then show ?thesis
    unfolding counter_sum_def map_of_sum vector_of.simps(1) matchers_match [OF fs] range_level_def Let_def
    by (metis (no_types, lifting) map_is_Nil_conv)
qed

lemma counter_value:
  "map_of (vector_of db (counter_expr q)) l
     = diff_level (map_of (vector_of db (counter_sum q (end_ms q)))) (map_of (vector_of db (counter_sum q (start_ms q)))) l"
  unfolding counter_expr_def map_of_minus map_of_or map_of_times by (auto simp: diff_level_def split: option.split)

text \<open>The number PromQL gives a group is what its points in the window add up to.\<close>

lemma counter_level:
  assumes win: "millis_window q" and fs: "map_ok (QFilters q)" and dg: "distinct (QGroupBy q)"
    and cover: "scrapes_cover q pts (db (Metric q))"
  shows "case map_of (vector_of db (counter_expr q)) (by_labels (sort (QGroupBy q)) l) of
      Some x \<Rightarrow> x = sum_values (group_points q pts (group_key l (QGroupBy q)))
    | None \<Rightarrow> group_points q pts (group_key l (QGroupBy q)) = []"
proof -
  let ?key = "group_key l (QGroupBy q)"
  have ms: "(end_ms q + 1) * millisecond = To (QRange q)" "(start_ms q + 1) * millisecond = From (QRange q)"
    using win by (simp_all add: end_ms_def start_ms_def millis_window_def)
  have c: "distinct (map fst (db (Metric q)))" "\<forall>p \<in> set pts. PName p = Metric q \<longrightarrow> PLabels p \<in> fst ` set (db (Metric q))"
    "scraped_up_to q pts (db (Metric q)) (end_ms q)" "scraped_up_to q pts (db (Metric q)) (start_ms q)"
    using cover by (simp_all add: scrapes_cover_def)
  note lv = range_level_total [OF c(1,2,3), of ?key, unfolded ms] range_level_total [OF c(1,2,4), of ?key, unfolded ms]
  note w = group_points_window [of q pts ?key] group_points_before [of q pts ?key]
  show ?thesis
    using lv w win unfolding counter_value diff_level_def counter_sum_level [OF fs dg]
    by (simp add: millis_window_def split: option.split option.split_asm)
qed

text \<open>Each element of the answered vector is the counted sum of the group its labels name, and each group that
  has points is answered.\<close>

lemma answered_groups:
  assumes q: "distinct (QGroupBy q)" "map_ok (QFilters q)" and win: "millis_window q"
    and cover: "scrapes_cover q pts (db (Metric q))" and vs: "mset vs = mset (vector_of db (counter_expr q))"
    and vec: "list_all2 (\<lambda>v s. SLabels s = fst v \<and> map PtValue (SPoints s) = [Fin (of_int (snd v))]) vs vec"
  shows "s' \<in> set vec \<Longrightarrow> map PtValue (SPoints s')
      = [Fin (of_int (sum_values (group_points q pts (group_key (SLabels s') (QGroupBy q)))))]"
    and "group_points q pts key \<noteq> [] \<Longrightarrow> \<exists>s' \<in> set vec. group_key (SLabels s') (QGroupBy q) = key"
proof -
  let ?D = "vector_of db (counter_expr q)" and ?by = "by_labels (sort (QGroupBy q))" and ?key = "\<lambda>l. group_key l (QGroupBy q)"
  note level = counter_level [where db = db, OF win q(2,1) cover]
  have key: "?key (?by l) = ?key l" for l
    using by_labels_order [of "sort (QGroupBy q)" "QGroupBy q"] group_key_of_by [OF q(1), of l] by simp
  show "map PtValue (SPoints s') = [Fin (of_int (sum_values (group_points q pts (?key (SLabels s')))))]" if s': "s' \<in> set vec"
  proof -
    obtain l x where x: "(l, x) \<in> set vs" "SLabels s' = l" "map PtValue (SPoints s') = [Fin (of_int x)]"
      using vec s' by (force simp: list_all2_conv_all_nth in_set_conv_nth)
    then have m: "(l, x) \<in> set ?D" using mset_eq_setD [OF vs] by simp
    then obtain l' where l': "l = ?by l'" using counter_keys(2) by (metis fst_conv image_eqI)
    have "map_of ?D l = Some x" by (rule map_of_is_SomeI [OF counter_keys(1) m])
    then show ?thesis using level [of l'] x l' key by simp
  qed
  show "\<exists>s' \<in> set vec. ?key (SLabels s') = key" if g: "group_points q pts key \<noteq> []"
  proof -
    obtain p :: metric_point where p: "key = ?key (PLabels p)"
      using g unfolding group_points_def point_key_def filter_empty_conv by metis
    then obtain x where "map_of ?D (?by (PLabels p)) = Some x" using level [of "PLabels p"] g by (auto split: option.splits)
    then have "(?by (PLabels p), x) \<in> set vs" using map_of_SomeD mset_eq_setD [OF vs] by fastforce
    then obtain s' where "s' \<in> set vec" "SLabels s' = ?by (PLabels p)"
      using vec by (force simp: list_all2_conv_all_nth in_set_conv_nth)
    then show ?thesis using key p by (intro bexI [of _ s']) simp_all
  qed
qed

text \<open>C13: on a counter that is never negative and stays below the float's 53 bits, over a window at whole
  milliseconds, with the metric scraped up to both ends of the window: over a server that answers the counter's
  expression - a PromQL tree with PromQL's meaning, written down apart from the code - the Prometheus adapter, whose
  text is that expression's, answers each group the in-memory backend answers on the points themselves with the very
  same number, and any other group it answers with zero.\<close>

theorem promql_matches_memq:
  assumes q: "Metric q \<notin> set gauge_families" "QAgg q \<noteq> agg_count" "QStep q = 0" "distinct (QGroupBy q)" "map_ok (QFilters q)"
    and win: "millis_window q"
    and pts: "\<forall>p \<in> set pts. clean_point p \<and> 0 \<le> sint (PValue p)" "sum_values pts < 2 ^ 53" and caps: "CMetrics c"
    and cover: "scrapes_cover q pts (db (Metric q))"
    and served: "answers_instant pq db (counter_expr q) (end_ms q)"
  shows "\<exists>vec series. prom_metric oob pq cancel q = Inr vec
    \<and> memq_metric \<lparr>mq_metrics = pts, mq_events = evs, mq_caps = c\<rparr> q = Inr series
    \<and> (\<forall>s \<in> set series. \<exists>s' \<in> set vec. group_key (SLabels s') (QGroupBy q) = SLabels s
         \<and> map PtValue (SPoints s') = map PtValue (SPoints s))
    \<and> (\<forall>s' \<in> set vec. (\<exists>s \<in> set series. SLabels s = group_key (SLabels s') (QGroupBy q)
            \<and> map PtValue (SPoints s') = map PtValue (SPoints s))
         \<or> map PtValue (SPoints s') = [Fin 0])"
proof -
  let ?key = "\<lambda>l. group_key l (QGroupBy q)" and ?sum = "\<lambda>key. sum_values (group_points q pts key)"
  obtain vs vec where vec: "instant oob pq \<lparr>Expr = prom_text (counter_expr q), EvalAt = To (QRange q) - millisecond\<rparr> = Inr vec"
    "mset vs = mset (vector_of db (counter_expr q))"
    "list_all2 (\<lambda>v s. SLabels s = fst v \<and> map PtValue (SPoints s) = [Fin (of_int (snd v))]) vs vec"
    using counter_answered [OF win served] by blast
  have run: "prom_metric oob pq cancel q = Inr vec"
    using vec(1) translate_counter [OF win q(1,2)] q(3) win by (simp add: prom_metric_def millis_window_def)
  obtain series where series: "memq_metric \<lparr>mq_metrics = pts, mq_events = evs, mq_caps = c\<rparr> q = Inr series"
    "\<forall>s \<in> set series. group_points q pts (SLabels s) \<noteq> [] \<and> map PtValue (SPoints s) = [Fin (of_int (?sum (SLabels s)))]"
    "\<forall>key. group_points q pts key \<noteq> [] \<longrightarrow> key \<in> SLabels ` set series"
    using memq_counter_answer [OF q(1,2) _ q(4) pts caps] q(3) by (metis order_refl)
  note answered = answered_groups [OF q(4,5) win cover vec(2,3)]
  have one: "\<exists>s' \<in> set vec. ?key (SLabels s') = SLabels s \<and> map PtValue (SPoints s') = map PtValue (SPoints s)"
    if s: "s \<in> set series" for s
    using answered(2) [of "SLabels s"] answered(1) series(2) s by metis
  have two: "(\<exists>s \<in> set series. SLabels s = ?key (SLabels s') \<and> map PtValue (SPoints s') = map PtValue (SPoints s))
      \<or> map PtValue (SPoints s') = [Fin 0]" if s': "s' \<in> set vec" for s'
  proof (cases "group_points q pts (?key (SLabels s')) = []")
    case True
    then show ?thesis using answered(1) [OF s'] by simp
  next
    case False
    then have "?key (SLabels s') \<in> SLabels ` set series" using series(3) by blast
    then show ?thesis using answered(1) [OF s'] series(2) by auto
  qed
  show ?thesis using run series(1) one two by blast
qed

section \<open>An example\<close>

definition counter_point :: "int \<Rightarrow> time \<Rightarrow> metric_point" where
  "counter_point v ms = \<lparr>PName = ''biz_value_total'', PLabels = [(''flow'', ''pay'')], PValue = word_of_int v, PAt = ms * millisecond\<rparr>"

definition demo_query :: metric_query where
  "demo_query = \<lparr>Metric = ''biz_value_total'', QAgg = agg_sum, QFilters = [], QGroupBy = [''flow''],
     QRange = \<lparr>From = 1000 * millisecond, To = 4000 * millisecond\<rparr>, QStep = 0\<rparr>"

definition demo_scrapes :: "string \<Rightarrow> scrapes" where
  "demo_scrapes m = (if m = ''biz_value_total'' then [([(''flow'', ''pay'')], [(900, 300), (3900, 500)])] else [])"

text \<open>The request a Prometheus at that address would see.\<close>

lemma demo_expr_text: "prom_text (counter_expr demo_query) =
  ''sum by (flow) (last_over_time(biz_value_total[3s] @ 3.999)) - (sum by (flow) (last_over_time(biz_value_total[3s] @ 0.999)) ''
    @ ''or (sum by (flow) (last_over_time(biz_value_total[3s] @ 3.999)) * 0))''"
  by code_simp

definition demo_vector :: json where
  "demo_vector = JObj [(''status'', JStr ''success''), (''data'', JObj [(''resultType'', JStr ''vector''),
     (''result'', JArr [JObj [(''metric'', JObj [(''flow'', JStr ''pay'')]), (''value'', JArr [JNum ''4'', JStr ''200''])]])])]"

definition demo_prometheus :: prom_querier where
  "demo_prometheus = new_promql \<lparr>bad_request = (\<lambda>_. None), do_request = (\<lambda>_. Inr (200, render_json demo_vector, None))\<rparr>
     ''http://prometheus:9090/'' []"

lemma demo_times: "end_ms demo_query = 3999" "start_ms demo_query = 999" "lookback_seconds demo_query = 3" "millis_window demo_query"
  by (simp_all add: end_ms_def start_ms_def lookback_seconds_def demo_query_def millisecond_def second_def millis_window_def in_i64_def)

lemma demo_answered: "parse_json (render_json demo_vector) = Some (answer_json [([(''flow'', ''pay'')], ''4'', ''200'')])"
proof -
  have "parse_json (render_json demo_vector) = Some (canon demo_vector)" by (rule parse_render) code_simp+
  moreover have "canon demo_vector = answer_json [([(''flow'', ''pay'')], ''4'', ''200'')]" by code_simp
  ultimately show ?thesis by simp
qed

lemma demo_value: "vector_of demo_scrapes (counter_expr demo_query) = [([(''flow'', ''pay'')], 200)]"
  by code_simp

lemma demo_replies_served: "answers_instant demo_prometheus demo_scrapes (counter_expr demo_query) 3999"
proof -
  have f: "parse_float ''200'' = Some (Fin 200)" "parse_float ''4'' = Some (Fin 4)"
    by (simp_all add: parse_float_def special_float_def split_sign_def to_lower_def lower_char_def char_class_iff read_float_def
      digit_value_def read_exponent_def digits_value_def)
  have w: "list_all2 writes_sample [([(''flow'', ''pay'')], 200)] [([(''flow'', ''pay'')], ''4'', ''200'')]"
    by (simp add: writes_sample_def f)
  show ?thesis
    unfolding answers_instant_def Let_def demo_value
    by (intro conjI exI [of _ "render_json demo_vector"] exI [of _ "[([(''flow'', ''pay'')], 200)]"]
        exI [of _ "[([(''flow'', ''pay'')], ''4'', ''200'')]"] w demo_answered refl)
      (simp_all add: demo_prometheus_def new_promql_def)
qed

theorem promql_matches_memq_witness:
  "\<exists>vec. prom_metric (\<lambda>_. 0) demo_prometheus (\<lambda>_. None) demo_query = Inr vec
     \<and> (\<exists>s \<in> set vec. map PtValue (SPoints s) = [Fin 200])"
proof -
  let ?pts = "[counter_point 300 500, counter_point 200 2500]"
  have q: "Metric demo_query \<notin> set gauge_families" "QAgg demo_query \<noteq> agg_count" "QStep demo_query = 0"
    "distinct (QGroupBy demo_query)" "map_ok (QFilters demo_query)"
    by (simp_all add: demo_query_def gauge_families_def agg_defs map_ok_def)
  have pts: "\<forall>p \<in> set ?pts. clean_point p \<and> 0 \<le> sint (PValue p)" "sum_values ?pts < 2 ^ 53"
    by (simp_all add: counter_point_def clean_point_def map_get_def nul_free_label_def sum_values_def)
  have caps: "CMetrics default_caps" by (simp add: default_caps_def)
  have cover: "scrapes_cover demo_query ?pts (demo_scrapes (Metric demo_query))"
    unfolding scrapes_cover_def demo_times by (intro conjI) code_simp+
  have served: "answers_instant demo_prometheus demo_scrapes (counter_expr demo_query) (end_ms demo_query)"
    unfolding demo_times by (rule demo_replies_served)
  obtain vec series where v: "prom_metric (\<lambda>_. 0) demo_prometheus (\<lambda>_. None) demo_query = Inr vec"
    "memq_metric \<lparr>mq_metrics = ?pts, mq_events = [], mq_caps = default_caps\<rparr> demo_query = Inr series"
    "\<forall>s \<in> set series. \<exists>s' \<in> set vec. group_key (SLabels s') (QGroupBy demo_query) = SLabels s
         \<and> map PtValue (SPoints s') = map PtValue (SPoints s)"
    using promql_matches_memq [OF q demo_times(4) pts caps cover served, of "\<lambda>_. 0" "\<lambda>_. None" "[]"] by blast
  obtain series' where m: "memq_metric \<lparr>mq_metrics = ?pts, mq_events = [], mq_caps = default_caps\<rparr> demo_query = Inr series'"
    "\<forall>s \<in> set series'. group_points demo_query ?pts (SLabels s) \<noteq> []
       \<and> map PtValue (SPoints s) = [Fin (of_int (sum_values (group_points demo_query ?pts (SLabels s))))]"
    "\<forall>key. group_points demo_query ?pts key \<noteq> [] \<longrightarrow> key \<in> SLabels ` set series'"
    using memq_counter_answer [OF q(1,2) _ q(4) pts caps] q(3) by (metis order_refl)
  have g: "group_points demo_query ?pts [(''flow'', ''pay'')] = [counter_point 200 2500]" by code_simp
  then obtain s where s: "s \<in> set series'" "SLabels s = [(''flow'', ''pay'')]"
  proof -
    have "[(''flow'', ''pay'')] \<in> SLabels ` set series'" using m(3) g by (metis list.distinct(1))
    then show ?thesis using that by auto
  qed
  then have "map PtValue (SPoints s) = [Fin 200]" using m(2) g by (simp add: sum_values_def counter_point_def)
  moreover have "s \<in> set series" using s(1) m(1) v(2) by simp
  ultimately show ?thesis using v(1,3) by metis
qed

end
