(* ===== verification/Check_Events.thy ===== *)
theory Check_Events
  imports Cloudwatch_Trip Cloudwatch_Export
begin

text \<open>
  The \<open>check-events\<close> verb of the command line, \<open>cmd/shortfall/check.go\<close>: a file of logged events, one JSON
  object to a line, held to the wire contract of \<open>biz/semconv.go\<close>. Main results: the verb passes a file exactly
  if it holds an event and every line is accepted, an accepted line is one the log-store decoder reads as a
  valid outcome, and what the CloudWatch exporter writes passes.
\<close>

section \<open>The contract of a line\<close>

definition time_keys :: "string list" where
  "time_keys = [''time'', ''at'']"

definition known_keys :: "string list" where
  "known_keys = [event_key_name, ''time'', ''at'', attr_flow, attr_stage, attr_outcome, attr_entity, attr_customer,
     attr_segment, attr_amount, attr_currency, attr_exponent, attr_kind, attr_estimated, attr_deadline, attr_source,
     attr_error, attr_trace, source_system]"

definition required_keys :: "string list" where
  "required_keys = [attr_flow, attr_stage, attr_outcome, attr_entity, attr_customer, attr_amount, attr_currency,
     attr_exponent, attr_kind, attr_estimated]"

definition numeric_keys :: "string list" where
  "numeric_keys = [attr_amount, attr_exponent]"

definition absent_not_empty :: "string list" where
  "absent_not_empty = [attr_segment, attr_deadline, attr_source, attr_error, attr_trace]"

datatype check_error =
    NotAnObject
  | NotInContract string
  | NullValue string
  | MarkerMissing
  | KeyMissing string
  | NotANumber string
  | EmptyValue string
  | TimeNotAString string
  | BadTime string string
  | LineRejected line_error
  | OutcomeInvalid biz_error

text \<open>A JSON object into a Go map: a repeated key keeps its last value. The map's order is the one its range
  loop takes.\<close>

definition raw_fields :: "json \<Rightarrow> (string, json) gomap option" where
  "raw_fields v = map_option map_lit (struct_members v)"

definition check_key :: "string \<times> json \<Rightarrow> check_error option" where
  "check_key f =
     (if has_prefix (fst f) ''biz.'' \<and> fst f \<notin> set known_keys then Some (NotInContract (fst f))
      else if fst f \<in> set known_keys \<and> snd f = JNull then Some (NullValue (fst f))
      else None)"

definition check_marker :: "(string, json) gomap \<Rightarrow> check_error option" where
  "check_marker flds =
     (case map_of flds event_key_name of
        None \<Rightarrow> Some MarkerMissing
      | Some v \<Rightarrow> if into_string v [] = Some event_outcome then None else Some MarkerMissing)"

text \<open>A raw value is a number token if its text starts with a digit or a minus sign.\<close>

definition is_number_token :: "json \<Rightarrow> bool" where
  "is_number_token v \<longleftrightarrow> (case v of JNum n \<Rightarrow> True | _ \<Rightarrow> False)"

definition check_required :: "(string, json) gomap \<Rightarrow> string \<Rightarrow> check_error option" where
  "check_required flds k = (if map_has flds k then None else Some (KeyMissing k))"

definition check_number :: "(string, json) gomap \<Rightarrow> string \<Rightarrow> check_error option" where
  "check_number flds k =
     (case map_of flds k of
        Some v \<Rightarrow> if is_number_token v then None else Some (NotANumber k)
      | None \<Rightarrow> None)"

definition check_absent :: "(string, json) gomap \<Rightarrow> string \<Rightarrow> check_error option" where
  "check_absent flds k = (if map_of flds k = Some (JStr []) then Some (EmptyValue k) else None)"

fun check_times :: "(string, json) gomap \<Rightarrow> string list \<Rightarrow> time \<Rightarrow> check_error + time" where
  "check_times flds [] t = Inr t"
| "check_times flds (k # ks) t =
     (case map_of flds k of
        None \<Rightarrow> check_times flds ks t
      | Some v \<Rightarrow>
          (case into_string v [] of
             None \<Rightarrow> Inl (TimeNotAString k)
           | Some s \<Rightarrow>
               (case parse_rfc3339 s of None \<Rightarrow> Inl (BadTime k s) | Some p \<Rightarrow> check_times flds ks p)))"

definition contract_error :: "(string, json) gomap \<Rightarrow> check_error option" where
  "contract_error flds =
     first_error (map check_key flds @ [check_marker flds] @ map (check_required flds) required_keys
       @ map (check_number flds) numeric_keys @ map (check_absent flds) absent_not_empty)"

definition check_event_line :: "time \<Rightarrow> string \<Rightarrow> check_error option" where
  "check_event_line now raw =
     (case Option.bind (parse_json raw) raw_fields of
        None \<Rightarrow> Some NotAnObject
      | Some flds \<Rightarrow>
          (case contract_error flds of
             Some e \<Rightarrow> Some e
           | None \<Rightarrow>
               (case check_times flds time_keys now of
                  Inl e \<Rightarrow> Some e
                | Inr t \<Rightarrow>
                    (case parse_line raw t of
                       Inl e \<Rightarrow> Some (LineRejected e)
                     | Inr out \<Rightarrow> map_option OutcomeInvalid (outcome_validate out)))))"

section \<open>The scanner\<close>

text \<open>\<open>bufio.Scanner\<close> with a buffer of at most a mebibyte: lines without their end, up to the first line the
  buffer cannot hold. A read error ends the input where it happens.\<close>

definition max_line :: nat where "max_line = 1048576"

definition raw_lines :: "string \<Rightarrow> string list" where
  "raw_lines s =
     (let ls = split_on (char_of (10 :: nat)) s in if last ls = [] then butlast ls else ls)"

definition drop_cr :: "string \<Rightarrow> string" where
  "drop_cr s = (if s \<noteq> [] \<and> last s = char_of (13 :: nat) then butlast s else s)"

definition fits_line :: "string \<Rightarrow> bool" where
  "fits_line s \<longleftrightarrow> length s < max_line"

datatype scan_error = TokenTooLong | ReadFailed string

definition scan_lines :: "string \<Rightarrow> string option \<Rightarrow> string list \<times> scan_error option" where
  "scan_lines s err =
     (let ls = raw_lines s in
      (map drop_cr (takeWhile fits_line ls),
       if list_all fits_line ls then map_option ReadFailed err else Some TokenTooLong))"

section \<open>The verb\<close>

datatype check_report =
    CheckUsage
  | OpenFailed string
  | RejectedLine nat check_error
  | ScanFailed scan_error
  | NothingChecked string

text \<open>The count of accepted lines and the reports of the rejected ones; the clock is read once for each line.\<close>

fun check_lines :: "(nat \<Rightarrow> time) \<Rightarrow> nat \<Rightarrow> string list \<Rightarrow> nat \<times> check_report list" where
  "check_lines now n [] = (0, [])"
| "check_lines now n (l # ls) =
     (let raw = trim_space l; (ok, bad) = check_lines now (Suc n) ls in
      if raw = [] then (ok, bad)
      else case check_event_line (now n) raw of
             Some e \<Rightarrow> (ok, RejectedLine n e # bad)
           | None \<Rightarrow> (Suc ok, bad))"

definition check_summary :: "string \<Rightarrow> nat \<Rightarrow> nat \<Rightarrow> string" where
  "check_summary path ok rejected =
     path @ '': '' @ digits_of ok @ '' event(s) ok, '' @ digits_of rejected @ '' rejected'' @ [char_of (10 :: nat)]"

text \<open>The exit code, what goes to the standard output and what to the standard error. \<open>open_file\<close> is the file
  system: an error, or the bytes that can be read and the error that ends them.\<close>

definition run_check_events ::
    "(string \<Rightarrow> string + string \<times> string option) \<Rightarrow> (nat \<Rightarrow> time) \<Rightarrow> string list \<Rightarrow> int \<times> string \<times> check_report list" where
  "run_check_events open_file now args =
     (case args of
        [path] \<Rightarrow>
          (case open_file path of
             Inl e \<Rightarrow> (1, [], [OpenFailed e])
           | Inr (data, err) \<Rightarrow>
               (let (ls, scan_err) = scan_lines data err;
                    (ok, bad) = check_lines now 1 ls
                in case scan_err of
                     Some e \<Rightarrow> (1, [], bad @ [ScanFailed e])
                   | None \<Rightarrow>
                       (let out = check_summary path ok (length bad) in
                        if ok + length bad = 0 then (1, out, bad @ [NothingChecked path])
                        else if 0 < length bad then (1, out, bad)
                        else (0, out, bad))))
      | _ \<Rightarrow> (2, [], [CheckUsage]))"

section \<open>What passing means\<close>

lemma check_lines_ok:
  "snd (check_lines now n ls) = []
    \<longleftrightarrow> (\<forall>i < length ls. trim_space (ls ! i) \<noteq> [] \<longrightarrow> check_event_line (now (n + i)) (trim_space (ls ! i)) = None)"
proof (induction ls arbitrary: n)
  case (Cons l ls)
  obtain ok bad where r: "check_lines now (Suc n) ls = (ok, bad)" by (cases "check_lines now (Suc n) ls")
  then show ?case using Cons.IH [of "Suc n"] by (auto simp: Let_def All_less_Suc2 split: option.splits)
qed simp

lemma check_lines_count:
  "fst (check_lines now n ls) + length (snd (check_lines now n ls)) = length [l \<leftarrow> ls. trim_space l \<noteq> []]"
proof (induction ls arbitrary: n)
  case (Cons l ls)
  obtain ok bad where r: "check_lines now (Suc n) ls = (ok, bad)" by (cases "check_lines now (Suc n) ls")
  then show ?case using Cons.IH [of "Suc n"] by (auto simp: Let_def split: option.splits)
qed simp

lemma accepted_line_reads:
  assumes "check_event_line now raw = None"
  shows "\<exists>t out. parse_line raw t = Inr out \<and> outcome_validate out = None"
  using assms by (auto simp: check_event_line_def split: option.splits sum.splits)

text \<open>The lines the verb looks at.\<close>

definition event_lines :: "string \<Rightarrow> string list" where
  "event_lines data = [l \<leftarrow> map (trim_space \<circ> drop_cr) (raw_lines data). l \<noteq> []]"

lemma scan_lines_ok: "list_all fits_line (raw_lines data) \<Longrightarrow> scan_lines data err = (map drop_cr (raw_lines data), map_option ReadFailed err)"
proof -
  assume a: "list_all fits_line (raw_lines data)"
  then have "takeWhile fits_line (raw_lines data) = raw_lines data"
    by (simp only: takeWhile_eq_all_conv list_all_iff)
  with a show ?thesis unfolding scan_lines_def Let_def by (simp only: if_True)
qed

lemma run_scanned:
  assumes "open_file path = Inr (data, None)" "list_all fits_line (raw_lines data)"
    "check_lines now 1 (map drop_cr (raw_lines data)) = (ok, bad)"
  shows "run_check_events open_file now [path]
    = (let out = check_summary path ok (length bad) in
       if event_lines data = [] then (1, out, bad @ [NothingChecked path])
       else if bad \<noteq> [] then (1, out, bad) else (0, out, bad))"
proof -
  have "ok + length bad = 0 \<longleftrightarrow> event_lines data = []"
    using check_lines_count [of now 1 "map drop_cr (raw_lines data)"] assms(3)
    by (simp add: event_lines_def filter_empty_conv comp_def)
  then show ?thesis using assms(3)
    by (simp only: run_check_events_def assms(1) list.case sum.case prod.case scan_lines_ok [OF assms(2)] Let_def) auto
qed

lemma run_check_events_zero:
  "fst (run_check_events open_file now [path]) = 0 \<longleftrightarrow>
     (\<exists>data. open_file path = Inr (data, None) \<and> list_all fits_line (raw_lines data) \<and> event_lines data \<noteq> []
        \<and> snd (check_lines now 1 (map drop_cr (raw_lines data))) = [])"
proof (cases "\<exists>data. open_file path = Inr (data, None) \<and> list_all fits_line (raw_lines data)")
  case True
  then obtain data where d: "open_file path = Inr (data, None)" "list_all fits_line (raw_lines data)" by blast
  obtain ok bad where r: "check_lines now 1 (map drop_cr (raw_lines data)) = (ok, bad)"
    by (cases "check_lines now 1 (map drop_cr (raw_lines data))")
  show ?thesis using d r run_scanned [of open_file path data now ok bad] by (auto simp: Let_def)
next
  case False
  then have "fst (run_check_events open_file now [path]) = 1"
    by (auto simp: run_check_events_def scan_lines_def Let_def split: sum.splits prod.splits option.splits)
  then show ?thesis using False by auto
qed


text \<open>C18: the verb that gates events of other languages passes a file only if it could read the whole of it, the
  file holds at least one event, and every line with anything on it is one the log-store decoder reads as an
  outcome the emitter's own validation accepts.\<close>

theorem check_events_gate:
  assumes "fst (run_check_events open_file now [path]) = 0"
  shows "\<exists>data. open_file path = Inr (data, None) \<and> (\<forall>l \<in> set (raw_lines data). length l < max_line)
    \<and> event_lines data \<noteq> []
    \<and> (\<forall>l \<in> set (event_lines data). \<exists>t out. parse_line l t = Inr out \<and> outcome_validate out = None)"
proof -
  obtain data where d: "open_file path = Inr (data, None)" "list_all fits_line (raw_lines data)" "event_lines data \<noteq> []"
      "snd (check_lines now 1 (map drop_cr (raw_lines data))) = []"
    using assms unfolding run_check_events_zero by blast
  have "\<exists>t out. parse_line l t = Inr out \<and> outcome_validate out = None" if "l \<in> set (event_lines data)" for l
  proof -
    have "l \<in> trim_space ` set (map drop_cr (raw_lines data))" and ne: "l \<noteq> []"
      using that by (simp_all add: event_lines_def image_comp)
    then obtain l' where l': "l' \<in> set (map drop_cr (raw_lines data))" "l = trim_space l'" by blast
    obtain i where i: "i < length (map drop_cr (raw_lines data))" "map drop_cr (raw_lines data) ! i = l'"
      using l'(1) by (meson in_set_conv_nth)
    have "trim_space (map drop_cr (raw_lines data) ! i) \<noteq> []" using ne unfolding i(2) l'(2) .
    with i(1) check_lines_ok [THEN iffD1, OF d(4)]
    have "check_event_line (now (1 + i)) (trim_space (map drop_cr (raw_lines data) ! i)) = None" by blast
    then have "check_event_line (now (1 + i)) l = None" by (simp only: i(2) l'(2))
    then show ?thesis by (rule accepted_line_reads)
  qed
  then show ?thesis using d by (auto simp: list_all_iff fits_line_def)
qed

section \<open>Text on one line\<close>

text \<open>A text no line end can come from: every byte is a blank or above.\<close>

definition on_one_line :: "string \<Rightarrow> bool" where
  "on_one_line s \<longleftrightarrow> list_all (\<lambda>c. 32 \<le> byte c) s"

lemma on_one_line_append [simp]: "on_one_line (a @ b) \<longleftrightarrow> on_one_line a \<and> on_one_line b"
  by (simp add: on_one_line_def)

lemma on_one_line_Cons [simp]: "on_one_line (c # s) \<longleftrightarrow> 32 \<le> byte c \<and> on_one_line s"
  by (simp add: on_one_line_def)

lemma on_one_line_Nil [simp]: "on_one_line []"
  by (simp add: on_one_line_def)

lemma rune_bytes:
  "(r, bs) \<in> set (runes s) \<Longrightarrow> (if r < 128 then bs = [char_of r] else bs \<noteq> [] \<and> list_all (\<lambda>c. 128 \<le> byte c) bs)"
proof (induction s rule: runes.induct)
  case (2 c cs)
  let ?n = "snd (decode_rune (c # cs))"
  show ?case
  proof (cases "byte c < 128")
    case True
    then show ?thesis using 2 by (auto simp: char_of_byte_inj)
  next
    case False
    have "0 < ?n" using decode_rune_width [of "c # cs"] by simp
    then have "take ?n (c # cs) \<noteq> []" by simp
    then show ?thesis
      using "2.IH" [OF refl] "2.prems" decode_rune_high [of c cs] decode_rune_high_bytes [of c _ cs] False
      by (auto simp: Let_def list_all_iff)
  qed
qed simp

lemma hex_digit_printable [simp]: "n < 16 \<Longrightarrow> 32 \<le> byte (hex_digit n)"
  by (simp add: hex_digit_def)

lemma escape_rune_line: "p \<in> set (runes s) \<Longrightarrow> on_one_line (escape_rune p)"
proof -
  assume p: "p \<in> set (runes s)"
  obtain r bs where rb: "p = (r, bs)" by (cases p)
  have b: "if r < 128 then bs = [char_of r] else list_all (\<lambda>c. 128 \<le> byte c) bs"
    using rune_bytes [of r bs s] p rb by (auto split: if_splits)
  have "on_one_line (escape_char c)" if "byte c < 128" for c
  proof -
    have "byte c div 16 < 16" using byte_less_256 [of c] by linarith
    then have u: "on_one_line [backslash, CHR ''u'', CHR ''0'', CHR ''0'', hex_digit (byte c div 16), hex_digit (byte c mod 16)]"
      by simp
    have "list_all (\<lambda>p. 32 \<le> byte (snd p)) short_escapes" by code_simp
    then have "on_one_line [backslash, e]" if "map_of short_escapes (byte c) = Some e" for e
      using map_of_SomeD [OF that] by (auto simp: list_all_iff)
    then show ?thesis using u unfolding escape_char_def by (simp only: split: option.split) blast
  qed
  moreover have "on_one_line (backslash # ''ufffd'')" "r mod 16 < 16" by simp_all
  moreover have "list_all (\<lambda>c. 128 \<le> byte c) bs \<Longrightarrow> on_one_line bs" by (auto simp: on_one_line_def list_all_iff)
  moreover have "json_safe (char_of r) \<Longrightarrow> r < 128 \<Longrightarrow> 32 \<le> r" by (simp add: json_safe_def)
  ultimately show ?thesis using b unfolding rb escape_rune_def prod.case by (auto simp: hex_digit_printable)
qed

lemma json_quote_line [simp]: "on_one_line (json_quote s)"
  using escape_rune_line by (auto simp: json_quote_def json_escape_def on_one_line_def list_all_iff)

lemma on_one_line_commas:
  "32 \<le> byte c \<Longrightarrow> list_all on_one_line xs \<Longrightarrow> on_one_line (commas c xs)"
  by (induction c xs rule: commas.induct) simp_all

lemma render_json_map:
  "render_json (json_map m)
    = ''{'' @ commas (CHR '','') (map (\<lambda>k. json_quote k @ '':'' @ render_json (map_get JNull m k)) (sorted_keys m)) @ ''}''"
  by (simp add: json_map_def comp_def)

lemma json_map_line:
  assumes "\<And>k v. map_of m k = Some v \<Longrightarrow> on_one_line (render_json v)"
  shows "on_one_line (render_json (json_map m))"
proof -
  have "on_one_line (json_quote k @ '':'' @ render_json (map_get JNull m k))" if "k \<in> set (sorted_keys m)" for k
    using that assms by (auto simp: sorted_keys_has map_get_def map_has_def split: option.splits)
  then have "list_all on_one_line (map (\<lambda>k. json_quote k @ '':'' @ render_json (map_get JNull m k)) (sorted_keys m))"
    by (simp add: list_all_iff)
  then show ?thesis unfolding render_json_map by (simp add: on_one_line_commas)
qed

lemma format_int_line [simp]: "on_one_line (format_int n)"
  using format_int_chars [of _ n] by (fastforce simp: on_one_line_def list_all_iff is_digit_iff)

text \<open>What begins and ends with a mark is not trimmed, and is not cut.\<close>

lemma concat_snd_last: "xs \<noteq> [] \<Longrightarrow> last xs = (r, bs) \<Longrightarrow> concat (map snd xs) = concat (map snd (butlast xs)) @ bs"
  by (induction xs rule: rev_induct) simp_all

lemma last_rune:
  assumes "byte c < 128"
  shows "last (runes (s @ [c])) = (byte c, [c])"
proof -
  let ?rs = "runes (s @ [c])"
  have cat: "concat (map snd ?rs) = s @ [c]" by (rule concat_runes)
  then have ne: "?rs \<noteq> []" by auto
  obtain r bs where l: "last ?rs = (r, bs)" by (cases "last ?rs")
  have rb: "if r < 128 then bs = [char_of r] else bs \<noteq> [] \<and> list_all (\<lambda>c. 128 \<le> byte c) bs"
    using rune_bytes [of r bs "s @ [c]"] last_in_set [OF ne] l by simp
  have "concat (map snd (butlast ?rs)) @ bs = s @ [c]" using concat_snd_last [OF ne l] cat by simp
  moreover have "bs \<noteq> []" using rb by (auto split: if_splits)
  ultimately have lb: "last bs = c" by (metis last_appendR last_snoc)
  show ?thesis
  proof (cases "r < 128")
    case True
    then show ?thesis using rb lb l by auto
  next
    case False
    then have "128 \<le> byte c" using rb lb \<open>bs \<noteq> []\<close> by (auto simp: list_all_iff)
    then show ?thesis using assms by simp
  qed
qed

lemma trim_space_marked:
  assumes "byte a < 128" "\<not> is_space (byte a)" "byte c < 128" "\<not> is_space (byte c)"
  shows "trim_space (a # s @ [c]) = a # s @ [c]"
proof -
  let ?rs = "runes (a # s @ [c])"
  have d: "dropWhile (\<lambda>p. is_space (fst p)) ?rs = ?rs" using assms(1,2) by simp
  have ne: "?rs \<noteq> []" using assms(1) by simp
  have "hd (rev ?rs) = (byte c, [c])" using last_rune [OF assms(3), of "a # s"] by (simp only: hd_rev append_Cons)
  then have "dropWhile (\<lambda>p. is_space (fst p)) (rev ?rs) = rev ?rs"
    using assms(4) ne by (cases "rev ?rs") simp_all
  then show ?thesis using concat_runes [of "a # s @ [c]"] unfolding trim_space_def Let_def d by (simp only: rev_rev_ident)
qed

section \<open>What the exporter writes\<close>

lemma record_keys_line: "distinct record_keys" "length record_keys = 17" "list_all (\<lambda>k. length k \<le> 32) record_keys"
  by code_simp+

lemma event_record_value_cases:
  assumes "map_of (event_record o') k = Some v"
  shows "(\<exists>s. v = JStr s) \<or> (\<exists>n. v = json_int n) \<or> (\<exists>b. v = JBool b)
    \<or> v = json_map (map_lit [(''Timestamp'', json_int (sint (unix_milli_i64 (At o'))))])"
proof -
  have "list_all (\<lambda>p. (\<exists>s. snd p = JStr s) \<or> (\<exists>n. snd p = json_int n) \<or> (\<exists>b. snd p = JBool b)
      \<or> snd p = json_map (map_lit [(''Timestamp'', json_int (sint (unix_milli_i64 (At o'))))])) (event_fields o')"
    unfolding event_fields_def Let_def by simp blast
  then show ?thesis
    using assms map_of_SomeD [of "event_fields o'" k v] unfolding event_record_lookup
    by (auto simp: list_all_iff split: if_splits)
qed

lemma json_int_line: "on_one_line (render_json (json_int n))"
  by (simp add: json_int_def)

lemma stamp_line: "on_one_line (render_json (json_map (map_lit [(''Timestamp'', json_int n)])))"
  by (rule json_map_line) (auto simp: map_lit_get json_int_line split: if_splits)

lemma event_record_line: "on_one_line (build_event_record o')"
  unfolding build_event_record_def
proof (rule json_map_line)
  fix k v
  assume "map_of (event_record o') k = Some v"
  then show "on_one_line (render_json v)"
    using event_record_value_cases [of o' k v] json_int_line stamp_line by auto
qed

lemma event_record_trim: "trim_space (build_event_record o') = build_event_record o'" "build_event_record o' \<noteq> []"
  using trim_space_marked [of "CHR ''{''" "CHR ''}''"] unfolding build_event_record_def render_json_map
  by (simp_all add: is_space_def)

text \<open>The members of an exported line, as the verb's map holds them.\<close>

lemma record_keys_known:
  "list_all (\<lambda>k. sanitize k = k \<and> (has_prefix k ''biz.'' \<longrightarrow> k \<in> set known_keys) \<and> k \<notin> set time_keys) record_keys"
  by code_simp

lemma event_record_key: "map_has (event_record o') k \<Longrightarrow> k \<in> set record_keys"
  using event_record_keys [of o' k] by (simp add: map_has_iff map_of_eq_None_iff)

lemma event_record_sane: "map_has (event_record o') k \<Longrightarrow> sanitize k = k"
  using event_record_key record_keys_known by (auto simp: list_all_iff)

lemmas exported_members = canon_members_plain [OF event_record_ok event_record_sane]

lemma exported_fields:
  "\<exists>flds. Option.bind (parse_json (build_event_record o')) raw_fields = Some flds \<and> map_ok flds
     \<and> (\<forall>k. map_of flds k = map_option canon (map_of (event_record o') k))"
proof -
  have "Option.bind (parse_json (build_event_record o')) raw_fields = Some (map_lit (canon_members (event_record o')))"
    by (simp add: parse_event_record raw_fields_def)
  moreover have "map_of (map_lit (canon_members (event_record o'))) k = map_option canon (map_of (event_record o') k)" for k
    by (simp add: map_lit_get [OF exported_members(1)] exported_members(2))
  ultimately show ?thesis by simp
qed

lemma exported_contract: "\<lbrakk>map_ok flds; \<And>k. map_of flds k = map_option canon (map_of (event_record o') k)\<rbrakk> \<Longrightarrow> contract_error flds = None"
proof -
  assume ok: "map_ok flds" and get: "\<And>k. map_of flds k = map_option canon (map_of (event_record o') k)"
  have m: "sanitize event_outcome = event_outcome" by code_simp
  have dl: "format_rfc3339 (Deadline (VC o')) \<noteq> []" by (simp add: format_rfc3339_def Let_def)
  have "check_key f = None" if "f \<in> set flds" for f
  proof -
    have "map_of flds (fst f) = Some (snd f)" using that ok by (simp add: map_ok_map_of)
    then obtain v where v: "map_of (event_record o') (fst f) = Some v" "snd f = canon v" using get by auto
    then have "fst f \<in> set record_keys" using event_record_keys [of o' "fst f"] by simp
    moreover have "canon v \<noteq> JNull" using event_record_value_cases [OF v(1)] by (auto simp: json_int_def canon_json_map)
    ultimately show ?thesis using record_keys_known v(2) by (auto simp: check_key_def list_all_iff)
  qed
  moreover have "check_marker flds = None" by (simp add: check_marker_def get event_record_get m)
  moreover have "list_all (\<lambda>k. check_required flds k = None) required_keys"
    by (simp add: required_keys_def check_required_def map_has_iff get event_record_get flip: map_of_eq_None_iff)
  moreover have "list_all (\<lambda>k. check_number flds k = None) numeric_keys"
    by (simp add: numeric_keys_def check_number_def get event_record_get json_int_def is_number_token_def)
  moreover have "list_all (\<lambda>k. check_absent flds k = None) absent_not_empty"
    using dl by (simp add: absent_not_empty_def check_absent_def get event_record_get format_rfc3339_plain)
  ultimately show ?thesis unfolding contract_error_def first_error_None_iff list_all_append list_all_iff by auto
qed

lemma exported_times: "(\<And>k. map_of flds k = map_option canon (map_of (event_record o') k)) \<Longrightarrow> check_times flds time_keys t = Inr t"
proof -
  assume get: "\<And>k. map_of flds k = map_option canon (map_of (event_record o') k)"
  have "map_of flds k = None" if "k \<in> set time_keys" for k
  proof -
    have "k \<notin> set record_keys" using record_keys_known that by (auto simp: list_all_iff)
    then have "map_of (event_record o') k = None" using event_record_keys [of o' k] by blast
    then show ?thesis by (simp add: get)
  qed
  then have "map_of flds ''time'' = None" "map_of flds ''at'' = None" by (simp_all add: time_keys_def)
  then show ?thesis by (simp add: time_keys_def)
qed

lemma exported_line_passes:
  assumes "outcome_validate o' = None" "valid_utf8 (Err o')" "\<not> is_zero_time now"
    and y: "0 \<le> year_of (Deadline (VC o'))" "year_of (Deadline (VC o')) \<le> 9999"
  shows "check_event_line now (build_event_record o') = None"
proof -
  obtain flds where f: "Option.bind (parse_json (build_event_record o')) raw_fields = Some flds" "map_ok flds"
    "\<And>k. map_of flds k = map_option canon (map_of (event_record o') k)" using exported_fields [of o'] by blast
  have p: "parse_line (build_event_record o') now = Inr (readback now o')"
    by (rule parse_exported [OF validated_exportable [OF assms(1) y]])
  have deadline: "vc_validate ((VC o')\<lparr>Deadline := d\<rparr>) = vc_validate (VC o')" for d by (simp add: vc_validate_def)
  have "sanitize (Err o') = Err o'" by (rule sanitize_valid [OF assms(2)])
  then have "outcome_validate (readback now o') = None"
    using assms(1,3) deadline unfolding validated_readback [OF assms(1)] by (simp add: outcome_validate_None)
  then show ?thesis
    using f(1) exported_contract [OF f(2,3)] exported_times [OF f(3)] p by (simp add: check_event_line_def)
qed


section \<open>The size of a line\<close>

lemma escape_rune_length:
  assumes "p \<in> set (runes s)"
  shows "length (escape_rune p) \<le> 6 * length (snd p)"
proof -
  obtain r bs where p: "p = (r, bs)" by (cases p)
  then have "bs \<noteq> []" using rune_bytes [of r bs s] assms by (auto split: if_splits)
  then have "6 \<le> 6 * length bs" "length bs \<le> 6 * length bs" by (cases bs; simp)+
  moreover have "length (escape_char c) \<le> 6" for c by (simp add: escape_char_def split: option.split)
  then have "length (escape_rune p) \<le> max 6 (length bs)" unfolding p escape_rune_def by (auto simp: le_max_iff_disj)
  ultimately show ?thesis by (simp add: p)
qed

lemma json_quote_length: "length (json_quote s) \<le> 6 * length s + 2"
proof -
  have "(\<Sum>p \<leftarrow> runes s. length (escape_rune p)) \<le> (\<Sum>p \<leftarrow> runes s. 6 * length (snd p))"
    by (rule sum_list_mono) (rule escape_rune_length)
  also have "\<dots> = 6 * length (concat (map snd (runes s)))"
    by (simp add: length_concat sum_list_const_mult comp_def)
  finally show ?thesis by (simp add: json_quote_def json_escape_def length_concat comp_def concat_runes)
qed

lemma length_commas: "list_all (\<lambda>x. length x \<le> n) xs \<Longrightarrow> length (commas c xs) \<le> length xs * (n + 1)"
  by (induction c xs rule: commas.induct) auto

lemma json_map_length:
  assumes "\<And>k v. map_of m k = Some v \<Longrightarrow> length k \<le> a \<and> length (render_json v) \<le> b"
  shows "length (render_json (json_map m)) \<le> length m * (6 * a + b + 4) + 2"
proof -
  have "length (json_quote k @ '':'' @ render_json (map_get JNull m k)) \<le> 6 * a + b + 3" if "k \<in> set (sorted_keys m)" for k
  proof -
    have "map_of m k \<noteq> None" using that by (simp add: sorted_keys_has map_has_iff map_of_eq_None_iff)
    then obtain v where v: "map_of m k = Some v" by blast
    then show ?thesis using assms [OF v] json_quote_length [of k] by (simp add: map_get_def)
  qed
  then have "length (commas (CHR '','') (map (\<lambda>k. json_quote k @ '':'' @ render_json (map_get JNull m k)) (sorted_keys m)))
      \<le> length m * (6 * a + b + 3 + 1)"
    using length_commas [of "6 * a + b + 3" "map (\<lambda>k. json_quote k @ '':'' @ render_json (map_get JNull m k)) (sorted_keys m)"]
    by (simp add: list_all_iff sorted_keys_def del: length_append)
  then show ?thesis unfolding render_json_map by (simp add: ac_simps)
qed

lemma format_i64_length: "length (format_int (sint (a :: i64))) \<le> 20"
proof -
  have "nat \<bar>sint a\<bar> < 10 ^ 19" using sint_range_size [of a] by (simp add: word_size abs_if) linarith
  then have "length (digits_of (nat \<bar>sint a\<bar>)) \<le> 19" by (rule length_digits_of) simp
  then show ?thesis by (simp add: format_int_def abs_if split: if_splits)
qed

lemma format_rfc3339_length:
  assumes "0 \<le> year_of t" "year_of t \<le> 9999"
  shows "length (format_rfc3339 t) = 20"
proof -
  have two: "length (pad2 n) = 2" if "0 \<le> n" "n < 100" for n
    using that by (simp add: pad2_def length_pad_zero)
  obtain y m d where c: "civil_of_day (time_unix t div 86400) = (y, m, d)" by (metis prod_cases3)
  have "1 \<le> m" "m \<le> 12" "1 \<le> d" "d \<le> 31" using civil_of_day_valid [OF c] by (auto simp: days_in_month_def split: if_splits)
  moreover have "0 \<le> y" "y \<le> 9999" using assms by (simp_all add: year_of_def c)
  ultimately have "length (format_date (time_unix t div 86400)) = 10"
    by (simp add: format_date_def c two format_year_def length_pad_zero)
  moreover have "length (pad2 (time_unix t mod 86400 div 3600)) = 2"
  proof -
    have "0 \<le> s div 3600 \<and> s div 3600 < 100" if "0 \<le> s" "s < 86400" for s :: int
      using that zdiv_mono1 [of s 86400 3600] by (simp add: pos_imp_zdiv_nonneg_iff)
    then show ?thesis by (simp add: two)
  qed
  moreover have "length (pad2 (n mod 60)) = 2" for n
    using pos_mod_bound [of 60 n] by (intro two) simp_all
  ultimately show ?thesis by (simp add: format_rfc3339_def Let_def)
qed

text \<open>The bounds of the validated strings, and a rendered string's at most sixfold growth.\<close>

lemma exported_value_small:
  assumes o': "outcome_validate o' = None" and y: "0 \<le> year_of (Deadline (VC o'))" "year_of (Deadline (VC o')) \<le> 9999"
    and v: "map_of (event_record o') k = Some v"
  shows "length (render_json v) \<le> 3100"
proof -
  have a: "length (Stage o') \<le> 32" "length (Source o') \<le> 128" "length (TraceID o') \<le> 32" "length (Err o') \<le> 512"
    "result_valid (Result o')" "vc_validate (VC o') = None"
    using o' by (auto simp: outcome_validate_None max_len_defs trace_id_error_def split: if_splits)
  have b: "length (Flow (VC o')) \<le> 64" "length (EntityID (VC o')) \<le> 128" "length (CustomerID (VC o')) \<le> 128"
    "length (Segment (VC o')) \<le> 32" "kind_valid (Kind (VC o'))" "length (Currency (Money (VC o'))) \<le> 512"
    using a(6) by (auto simp: vc_validate_None max_len_defs money_validate_None currency_bad_iff)
  have c: "length (Result o') \<le> 512" "length (Kind (VC o')) \<le> 512" "length event_outcome \<le> 512"
    using a(5) b(5) by (auto simp: result_valid_def res_defs kind_valid_def kind_defs event_outcome_def)
  have d: "length (format_rfc3339 (Deadline (VC o'))) \<le> 512" using format_rfc3339_length [OF y] by simp
  have e: "length (render_json (JStr s)) \<le> 3100" if "length s \<le> 512" for s
    using json_quote_length [of s] that by simp
  have exponent_length: "length (format_int (sint (Exponent (Money (VC o'))))) \<le> 3100"
  proof -
    have "0 \<le> sint (Exponent (Money (VC o')))" "sint (Exponent (Money (VC o'))) \<le> 4"
      using a(6) by (simp_all add: vc_validate_None money_validate_None)
    then show ?thesis using length_digits_of [of "nat (sint (Exponent (Money (VC o'))))" 1]
      by (simp add: format_int_def nat_less_iff)
  qed
  have stamp: "length (render_json (json_map (map_lit [(''Timestamp'', json_int (sint (t :: i64)))]))) \<le> 3100" for t
  proof -
    have "length k \<le> 9 \<and> length (render_json v) \<le> 20" if "map_of (map_lit [(''Timestamp'', json_int (sint t))]) k = Some v" for k v
      using that format_i64_length [of t] by (auto simp: map_lit_get json_int_def split: if_splits)
    from json_map_length [of "map_lit [(''Timestamp'', json_int (sint t))]", OF this] show ?thesis
      by (simp add: map_lit_def)
  qed
  have "list_all (\<lambda>p. length (render_json (snd p)) \<le> 3100) (event_fields o')"
    using a b c d e stamp [of "unix_milli_i64 (At o')"] format_i64_length [of "Amount (Money (VC o'))"]
      exponent_length
    unfolding event_fields_def Let_def by (simp add: json_int_def)
  then show ?thesis
    using v map_of_SomeD [of "event_fields o'" k v] a b c d e unfolding event_record_lookup
    by (auto simp: list_all_iff split: if_splits)
qed

lemma exported_line_small:
  assumes "outcome_validate o' = None" "0 \<le> year_of (Deadline (VC o'))" "year_of (Deadline (VC o')) \<le> 9999"
  shows "length (build_event_record o') < max_line"
proof -
  have k: "length k \<le> 32 \<and> length (render_json v) \<le> 3100" if "map_of (event_record o') k = Some v" for k v
    using exported_value_small [OF assms that] event_record_keys [of o' k] record_keys_line(3) that by (auto simp: list_all_iff)
  have "length (event_record o') = card (fst ` set (event_record o'))"
    using event_record_ok [of o'] by (metis distinct_card length_map map_ok_def set_map)
  also have "\<dots> \<le> card (set record_keys)"
    using event_record_key [of o'] by (intro card_mono) (auto simp: map_has_iff)
  also have "\<dots> = 17" using record_keys_line distinct_card by metis
  finally have "length (event_record o') \<le> 17" .
  then have "length (event_record o') * (6 * 32 + 3100 + 4) \<le> 17 * (6 * 32 + 3100 + 4)" by (rule mult_le_mono1)
  moreover have "length (build_event_record o') \<le> length (event_record o') * (6 * 32 + 3100 + 4) + 2"
    unfolding build_event_record_def by (rule json_map_length) (use k in blast)
  ultimately show ?thesis by (simp add: max_line_def)
qed

section \<open>A file of exported events\<close>

lemma on_one_line_lf: "on_one_line s \<Longrightarrow> char_of (10 :: nat) \<notin> set s"
  by (auto simp: on_one_line_def list_all_iff)

lemma on_one_line_cr: "on_one_line s \<Longrightarrow> drop_cr s = s"
proof -
  assume "on_one_line s"
  then have "s \<noteq> [] \<Longrightarrow> 32 \<le> byte (last s)" using last_in_set [of s] by (auto simp: on_one_line_def list_all_iff)
  then show ?thesis by (auto simp: drop_cr_def)
qed

lemma raw_lines_built:
  "list_all (\<lambda>x. on_one_line (f x)) xs \<Longrightarrow> raw_lines (built_lines (\<lambda>x. Inr (f x)) xs) = map f xs"
proof -
  have "list_all (\<lambda>x. on_one_line (f x)) xs
    \<Longrightarrow> split_on (char_of (10 :: nat)) (built_lines (\<lambda>x. Inr (f x)) xs) = map f xs @ [[]]"
    by (induction xs) (simp_all add: split_on_append [OF on_one_line_lf])
  then show "list_all (\<lambda>x. on_one_line (f x)) xs \<Longrightarrow> ?thesis" by (simp add: raw_lines_def)
qed

lemma check_lines_all:
  "\<forall>l \<in> set ls. trim_space l = l \<and> l \<noteq> [] \<and> (\<forall>n. check_event_line (now n) l = None)
    \<Longrightarrow> check_lines now n ls = (length ls, [])"
  by (induction ls arbitrary: n) (auto simp: Let_def)

definition checkable :: "outcome \<Rightarrow> bool" where
  "checkable o' \<longleftrightarrow> outcome_validate o' = None \<and> valid_utf8 (Err o')
     \<and> 0 \<le> year_of (Deadline (VC o')) \<and> year_of (Deadline (VC o')) \<le> 9999"

lemma exported_log_run:
  assumes "os \<noteq> []" and ok: "\<forall>o' \<in> set os. checkable o'" and clock: "\<forall>n. \<not> is_zero_time (now n)"
    and content: "open_file path = Inr (built_lines (\<lambda>o'. Inr (build_event_record o')) os, None)"
  shows "run_check_events open_file now [path] = (0, check_summary path (length os) 0, [])"
proof -
  let ?data = "built_lines (\<lambda>o'. Inr (build_event_record o')) os"
  let ?ls = "map build_event_record os"
  have raw: "raw_lines ?data = ?ls" by (rule raw_lines_built) (simp add: list_all_iff event_record_line)
  have cr: "map drop_cr ?ls = ?ls" by (simp add: on_one_line_cr [OF event_record_line])
  have fits: "list_all fits_line (raw_lines ?data)"
    using ok exported_line_small by (auto simp: raw list_all_iff fits_line_def checkable_def)
  have "check_lines now 1 ?ls = (length ?ls, [])"
    using ok clock exported_line_passes event_record_trim by (intro check_lines_all) (auto simp: checkable_def)
  then have lines: "check_lines now 1 (map drop_cr (raw_lines ?data)) = (length os, [])"
    by (simp only: raw cr length_map)
  have "event_lines ?data = ?ls"
    unfolding event_lines_def raw by (simp add: on_one_line_cr [OF event_record_line] event_record_trim comp_def filter_True)
  then have "event_lines ?data \<noteq> []" using assms(1) by simp
  then show ?thesis using run_scanned [of open_file path ?data now "length os" "[]"] content fits lines by (simp add: Let_def)
qed

text \<open>C19: a log of what the CloudWatch exporter writes for outcomes the emitter accepts, with an error text in
  valid UTF-8 and a deadline of at most four digits in its year, passes the gate that holds other languages'
  events to the contract: every event is counted, none rejected, and the exit code is zero.\<close>

theorem exported_log_passes:
  assumes "os \<noteq> []" and ok: "\<forall>o' \<in> set os. checkable o'" and clock: "\<forall>n. \<not> is_zero_time (now n)"
    and content: "open_file path = Inr (built_lines (\<lambda>o'. Inr (build_event_record o')) os, None)"
  shows "run_check_events open_file now [path] = (0, check_summary path (length os) 0, [])"
  using assms by (rule exported_log_run)

lemma example_checkable: "\<forall>o' \<in> set [example_outcome []]. checkable o'"
proof -
  have "0 \<le> year_of (Deadline (VC (example_outcome []))) \<and> year_of (Deadline (VC (example_outcome []))) \<le> 9999"
    "valid_utf8 (Err (example_outcome []))" by code_simp+
  then show ?thesis using example_outcome_ok by (simp add: checkable_def)
qed

lemma seventh_clock: "\<forall>n :: nat. \<not> is_zero_time 7"
  by (simp add: is_zero_time_def zero_time_def second_def)

definition example_log :: string where
  "example_log = built_lines (\<lambda>o'. Inr (build_event_record o')) [example_outcome []]"

theorem exported_log_passes_witness:
  "run_check_events (\<lambda>_. Inr (example_log, None)) (\<lambda>_. 7) [''log''] = (0, check_summary ''log'' 1 0, [])"
  using exported_log_passes [OF _ example_checkable seventh_clock, of "\<lambda>_. Inr (example_log, None)" "''log''"]
  by (simp add: example_log_def)

theorem check_events_gate_witness:
  "\<exists>l t out. l \<in> set (event_lines example_log) \<and> parse_line l t = Inr out \<and> outcome_validate out = None"
proof -
  have "fst (run_check_events (\<lambda>_. Inr (example_log, None)) (\<lambda>_. 7) [''log'']) = 0"
    using exported_log_run [OF _ example_checkable seventh_clock, of "\<lambda>_. Inr (example_log, None)" "''log''"]
    by (simp add: example_log_def)
  from check_events_gate [OF this] show ?thesis by (metis Inr_inject last_in_set prod.inject)
qed

section \<open>A key in another case\<close>

text \<open>The decoder matches keys in any case, the verb only exactly: a producer's key in another case passes the
  gate, and what the log stores then read is its value, here an amount in quotes, over the contract's own.\<close>

definition folded_line :: json where
  "folded_line = JObj [(event_key_name, JStr event_outcome), (attr_flow, JStr ''checkout''), (attr_stage, JStr ''capture''),
     (attr_outcome, JStr ''failed''), (attr_entity, JStr ''ord-1''), (attr_customer, JStr ''c-1''), (attr_amount, JNum ''100''),
     (attr_currency, JStr ''USD''), (attr_exponent, JNum ''2''), (attr_kind, JStr kind_gmv),
     (attr_estimated, JBool False), (''Biz.amount.minor'', JStr ''999900'')]"

lemma folded_key_passes:
  "check_event_line 7 (render_json folded_line) = None
    \<and> map_sum id (\<lambda>o'. Amount (Money (VC o'))) (parse_line (render_json folded_line) 7) = Inr 999900"
proof -
  have p: "parse_json (render_json folded_line) = Some (canon folded_line)"
    by (rule parse_render) code_simp+
  have "canon folded_line = folded_line" by code_simp
  with p have p: "parse_json (render_json folded_line) = Some folded_line" by simp
  show ?thesis unfolding check_event_line_def parse_line_def p bind.simps by code_simp
qed

end
