(* ===== verification/Gcp.thy ===== *)
theory Gcp
  imports Check_Events
begin

text \<open>
  The Google Cloud exporter, \<open>adapters/export/gcp/\<close>: one structured log entry per outcome, written through the
  buffered writer. Main results: the sink holds a prefix of the entries written and all of them after a clean
  shutdown, and the decoder reads an entry as it reads the CloudWatch record of the same outcome.
\<close>

section \<open>The layouts\<close>

text \<open>\<open>time.RFC3339Nano\<close> in UTC: nanoseconds without the zeros at their end, and no point without them.\<close>

definition nano_fraction :: "nat \<Rightarrow> string" where
  "nano_fraction n =
     (let ds = rev (dropWhile ((=) (CHR ''0'')) (rev (pad_zero 9 (digits_of n))))
      in if ds = [] then [] else CHR ''.'' # ds)"

definition format_rfc3339_nano :: "time \<Rightarrow> string" where
  "format_rfc3339_nano t =
     (let s = time_unix t
      in format_date (s div 86400) @ ''T'' @ format_clock (s mod 86400) @ nano_fraction (nat (t mod second)) @ ''Z'')"

lemma parse_digits_trailing: "parse_digits a (ds @ replicate k (CHR ''0'')) = map_option (\<lambda>n. n * 10 ^ k) (parse_digits a ds)"
proof (induction ds arbitrary: a)
  case Nil
  show ?case by (induction k arbitrary: a) (simp_all add: is_digit_iff mult.commute mult.left_commute)
qed simp

lemma strip_zeros: "\<exists>k. s = rev (dropWhile ((=) c) (rev s)) @ replicate k c"
proof -
  have "takeWhile ((=) c) (rev s) = replicate (length (takeWhile ((=) c) (rev s))) c"
    by (rule replicate_length_same [symmetric]) (auto dest: set_takeWhileD)
  then have "rev s = replicate (length (takeWhile ((=) c) (rev s))) c @ dropWhile ((=) c) (rev s)"
    by (metis takeWhile_dropWhile_id)
  then have "s = rev (dropWhile ((=) c) (rev s)) @ replicate (length (takeWhile ((=) c) (rev s))) c"
    by (metis rev_append rev_replicate rev_rev_ident)
  then show ?thesis by blast
qed

lemma digits_scaled:
  assumes "s = ds @ replicate k (CHR ''0'')" and "parse_uint s = Some n"
  shows "\<exists>m. parse_digits 0 ds = Some m \<and> n = m * 10 ^ k"
  using assms by (auto simp: parse_uint_def parse_digits_trailing split: if_splits)

lemma nano_fraction_read:
  assumes "n < 1000000000"
  shows "opt_fraction (nano_fraction n @ ''Z'') = (int n, ''Z'')"
proof -
  let ?p = "pad_zero 9 (digits_of n)"
  obtain ds where ds: "ds = rev (dropWhile ((=) (CHR ''0'')) (rev ?p))" by simp
  obtain k where k: "?p = ds @ replicate k (CHR ''0'')" using strip_zeros [of ?p "CHR ''0''"] unfolding ds by (rule exE)
  have nf: "nano_fraction n = (if ds = [] then [] else CHR ''.'' # ds)" unfolding nano_fraction_def Let_def ds by (rule refl)
  have n: "n < 10 ^ 9" using assms by (simp only: power_numeral Num.pow.simps Num.sqr.simps) simp
  have w: "0 < (9 :: nat)" by simp
  note p = pad_zero_read [OF n w]
  have len: "k = 9 - length ds" "length ds \<le> 9" using arg_cong [OF k, of length] p(1) by simp_all
  have dec: "list_all is_dec ds" using p(2) k by (metis list_all_append)
  obtain m where m: "parse_digits 0 ds = Some m" "n = m * 10 ^ k"
    using digits_scaled [OF k p(3)] by blast
  show ?thesis
  proof (cases ds)
    case Nil
    then have "n = 0" using m by simp
    then show ?thesis unfolding nf using Nil by (simp add: opt_fraction_def comma_or_point_def)
  next
    case (Cons d r)
    have z: "\<not> is_dec (CHR ''Z'')" by (simp add: is_dec_def is_digit_iff)
    have tw: "takeWhile is_dec (ds @ ''Z'') = ds" "dropWhile is_dec (ds @ ''Z'') = ''Z''"
      using dec z by (simp_all add: takeWhile_append2 dropWhile_append2 list_all_iff)
    have "nanos_of ds = int n" using m len Cons by (simp add: nanos_of_def parse_uint_def)
    then show ?thesis unfolding nf using Cons dec tw
      by (simp add: opt_fraction_def comma_or_point_def Let_def)
  qed
qed

theorem parse_format_rfc3339_nano:
  assumes "0 \<le> year_of t" "year_of t \<le> 9999"
  shows "parse_rfc3339 (format_rfc3339_nano t) = Some t"
proof -
  let ?r = "nano_fraction (nat (t mod second)) @ ''Z''"
  have "format_rfc3339_nano t = format_date (time_unix t div 86400) @ CHR ''T'' # format_clock (time_unix t mod 86400) @ ?r"
    by (simp add: format_rfc3339_nano_def Let_def)
  moreover have "parse_stamp (CHR ''T'') \<dots> = Some (time_unix t, ?r)"
    by (rule parse_stamp_format [OF assms]) simp
  moreover have "nat (t mod second) < 1000000000" "0 \<le> t mod second" by (simp_all add: second_def)
  then have "opt_fraction ?r = (t mod second, ''Z'')" using nano_fraction_read by simp
  moreover have "unix_time (time_unix t) + t mod second = t" by (simp add: unix_time_def time_unix_def)
  ultimately show ?thesis by (simp add: parse_rfc3339_def parse_zone_def)
qed

section \<open>Entries\<close>

definition trace_link :: string where "trace_link = ''logging.googleapis.com/trace''"

definition gcp_fields :: "outcome \<Rightarrow> (string \<times> json) list" where
  "gcp_fields o' =
     (let vc = VC o' in
      [(''time'', JStr (format_rfc3339_nano (At o'))), (''severity'', JStr ''INFO''),
       (event_key_name, JStr event_outcome), (attr_flow, JStr (Flow vc)), (attr_stage, JStr (Stage o')),
       (attr_outcome, JStr (Result o')), (attr_entity, JStr (EntityID vc)), (attr_customer, JStr (CustomerID vc)),
       (attr_amount, json_int (sint (Amount (Money vc)))), (attr_currency, JStr (Currency (Money vc))),
       (attr_exponent, json_int (sint (Exponent (Money vc)))), (attr_kind, JStr (Kind vc)),
       (attr_estimated, JBool (Estimated vc))])"

definition gcp_record :: "string \<Rightarrow> outcome \<Rightarrow> (string, json) gomap" where
  "gcp_record project o' =
     (let vc = VC o';
          r = map_lit (gcp_fields o');
          r = put_if (Segment vc \<noteq> []) attr_segment (JStr (Segment vc)) r;
          r = put_if (\<not> is_zero_time (Deadline vc)) attr_deadline (JStr (format_rfc3339 (Deadline vc))) r;
          r = put_if (Source o' \<noteq> []) attr_source (JStr (Source o')) r;
          r = put_if (Err o' \<noteq> []) attr_error (JStr (Err o')) r;
          r = put_if (TraceID o' \<noteq> []) attr_trace (JStr (TraceID o')) r
      in put_if (TraceID o' \<noteq> [] \<and> project \<noteq> []) trace_link
           (JStr (''projects/'' @ project @ ''/traces/'' @ TraceID o')) r)"

definition build_gcp_record :: "string \<Rightarrow> outcome \<Rightarrow> string" where
  "build_gcp_record project o' = render_json (json_map (gcp_record project o'))"

section \<open>The exporter\<close>

datatype gcp_error = GcpShutdown | GcpWrite string | GcpFlush string

record 'w gcp_exporter =
  GcpBuf :: "'w bufio"
  GcpClosed :: bool
  GcpProject :: string

text \<open>A nil writer is \<open>None\<close>.\<close>

record 'w gcp_options =
  GoptWriter :: "'w option"
  GoptProject :: string

definition with_gcp_writer :: "'w option \<Rightarrow> 'w gcp_options \<Rightarrow> 'w gcp_options" where
  "with_gcp_writer w o' = o'\<lparr>GoptWriter := w\<rparr>"
definition with_project :: "string \<Rightarrow> 'w gcp_options \<Rightarrow> 'w gcp_options" where
  "with_project p o' = o'\<lparr>GoptProject := p\<rparr>"

definition new_gcp :: "'w \<Rightarrow> ('w gcp_options \<Rightarrow> 'w gcp_options) list \<Rightarrow> 'w gcp_exporter" where
  "new_gcp stdout opts =
     (let o' = fold (\<lambda>f o'. f o') opts \<lparr>GoptWriter = Some stdout, GoptProject = []\<rparr>
      in \<lparr>GcpBuf = bufio_new (case GoptWriter o' of None \<Rightarrow> stdout | Some w \<Rightarrow> w), GcpClosed = False,
          GcpProject = GoptProject o'\<rparr>)"

definition gcp_caps :: "bool \<times> bool" where
  "gcp_caps = (False, True)"

definition gcp_export_metrics :: "metric_point list \<Rightarrow> 'w gcp_exporter \<Rightarrow> gcp_error option \<times> 'w gcp_exporter" where
  "gcp_export_metrics batch e = (None, e)"

text \<open>The loop over a batch stops at the first error of the writer, whose state is the buffer's.\<close>

fun gcp_write_entries :: "'w sink_write \<Rightarrow> string \<Rightarrow> outcome list \<Rightarrow> 'w bufio \<Rightarrow> gcp_error option \<times> 'w bufio" where
  "gcp_write_entries wr project [] b = (None, b)"
| "gcp_write_entries wr project (o' # os) b =
     (let b1 = bufio_write wr (build_gcp_record project o') b in
      case BufErr b1 of
        Some x \<Rightarrow> (Some (GcpWrite x), b1)
      | None \<Rightarrow>
          (let b2 = bufio_write_byte wr (char_of (10 :: nat)) b1 in
           case BufErr b2 of
             Some x \<Rightarrow> (Some (GcpWrite x), b2)
           | None \<Rightarrow> gcp_write_entries wr project os b2))"

definition gcp_export_events :: "'w sink_write \<Rightarrow> outcome list \<Rightarrow> 'w gcp_exporter \<Rightarrow> gcp_error option \<times> 'w gcp_exporter" where
  "gcp_export_events wr batch e =
     (if batch = [] then (None, e)
      else if GcpClosed e then (Some GcpShutdown, e)
      else (case gcp_write_entries wr (GcpProject e) batch (GcpBuf e) of (r, b) \<Rightarrow> (r, e\<lparr>GcpBuf := b\<rparr>)))"

definition gcp_shutdown :: "'w sink_write \<Rightarrow> 'w gcp_exporter \<Rightarrow> gcp_error option \<times> 'w gcp_exporter" where
  "gcp_shutdown wr e =
     (let b = bufio_flush wr (GcpBuf e)
      in (map_option GcpFlush (BufErr b), e\<lparr>GcpClosed := True, GcpBuf := b\<rparr>))"

section \<open>Delivery\<close>

text \<open>The entries of a run of batches, one to a line.\<close>

definition gcp_lines :: "string \<Rightarrow> outcome list \<Rightarrow> string" where
  "gcp_lines project os = concat (map (\<lambda>o'. build_gcp_record project o' @ [char_of (10 :: nat)]) os)"

lemma gcp_lines_append: "gcp_lines p (a @ b) = gcp_lines p a @ gcp_lines p b"
  by (simp add: gcp_lines_def)

lemma accounts_entries:
  "io_writer wr content \<Longrightarrow> accounts content b s \<Longrightarrow> gcp_write_entries wr p os b = (r, b')
    \<Longrightarrow> accounts content b' (s @ gcp_lines p os)"
proof (induction os arbitrary: b s)
  case (Cons o' os)
  let ?b1 = "bufio_write wr (build_gcp_record p o') b"
  let ?b2 = "bufio_write_byte wr (char_of (10 :: nat)) ?b1"
  have a1: "accounts content ?b1 (s @ build_gcp_record p o')" by (rule accounts_write [OF Cons.prems(1,2)])
  have a2: "accounts content ?b2 ((s @ build_gcp_record p o') @ [char_of (10 :: nat)])"
    by (rule accounts_write_byte [OF Cons.prems(1) a1])
  have split: "s @ gcp_lines p (o' # os) = ((s @ build_gcp_record p o') @ [char_of (10 :: nat)]) @ gcp_lines p os"
    by (simp add: gcp_lines_def)
  consider "BufErr ?b1 \<noteq> None" | "BufErr ?b1 = None" "BufErr ?b2 \<noteq> None" | "BufErr ?b1 = None" "BufErr ?b2 = None" by blast
  then show ?case
  proof cases
    case 1
    then have "b' = ?b1" using Cons.prems(3) by (auto simp: Let_def)
    then show ?thesis using accounts_longer [OF a1 1, of "[char_of (10 :: nat)] @ gcp_lines p os"] unfolding split by simp
  next
    case 2
    then have "b' = ?b2" using Cons.prems(3) by (auto simp: Let_def)
    then show ?thesis using accounts_longer [OF a2 2(2)] unfolding split by simp
  next
    case 3
    then have "gcp_write_entries wr p os ?b2 = (r, b')" using Cons.prems(3) by (simp add: Let_def)
    then show ?thesis using Cons.IH [OF Cons.prems(1) a2] unfolding split by blast
  qed
qed (simp add: gcp_lines_def)

definition gcp_calls :: "'w sink_write \<Rightarrow> outcome list list \<Rightarrow> 'w gcp_exporter \<Rightarrow> 'w gcp_exporter" where
  "gcp_calls wr batches e = fold (\<lambda>batch e. snd (gcp_export_events wr batch e)) batches e"

lemma accounts_batches:
  assumes wr: "io_writer wr content"
  shows "accounts content (GcpBuf e) s \<Longrightarrow> \<not> GcpClosed e
    \<Longrightarrow> accounts content (GcpBuf (gcp_calls wr batches e)) (s @ gcp_lines (GcpProject e) (concat batches))
      \<and> GcpProject (gcp_calls wr batches e) = GcpProject e \<and> \<not> GcpClosed (gcp_calls wr batches e)"
proof (induction batches arbitrary: e s)
  case (Cons batch batches)
  obtain r b where w: "gcp_write_entries wr (GcpProject e) batch (GcpBuf e) = (r, b)"
    by (cases "gcp_write_entries wr (GcpProject e) batch (GcpBuf e)")
  let ?e = "snd (gcp_export_events wr batch e)"
  have "accounts content (GcpBuf ?e) (s @ gcp_lines (GcpProject e) batch) \<and> GcpProject ?e = GcpProject e \<and> \<not> GcpClosed ?e"
    using accounts_entries [OF wr Cons.prems(1) w] Cons.prems w
    by (auto simp: gcp_export_events_def gcp_lines_def)
  then show ?case using Cons.IH [of ?e "s @ gcp_lines (GcpProject e) batch"]
    by (simp add: gcp_calls_def gcp_lines_append)
qed (simp add: gcp_calls_def gcp_lines_def)

text \<open>Through any writer that keeps its contract: a prefix of the entries, all of them after a shutdown without an
  error, and nothing after that.\<close>

lemma gcp_delivery:
  assumes "io_writer wr content" and "content w = []"
    and "gcp_shutdown wr (gcp_calls wr batches (new_gcp w [with_project p])) = (r, e)"
  shows "prefix (content (BufSink (GcpBuf e))) (gcp_lines p (concat batches))"
    and "r = None \<Longrightarrow> content (BufSink (GcpBuf e)) = gcp_lines p (concat batches)"
    and "batch \<noteq> [] \<Longrightarrow> gcp_export_events wr batch e = (Some GcpShutdown, e)"
proof -
  let ?e0 = "new_gcp w [with_project p]"
  have n: "accounts content (GcpBuf ?e0) []" "\<not> GcpClosed ?e0" "GcpProject ?e0 = p"
    using assms(2) by (simp_all add: new_gcp_def with_project_def bufio_new_def accounts_def)
  have a: "accounts content (GcpBuf (gcp_calls wr batches ?e0)) (gcp_lines p (concat batches))"
    using accounts_batches [OF assms(1) n(1,2), of batches] by (simp add: n(3))
  note f = accounts_flush [OF assms(1) a]
  have e: "e = (gcp_calls wr batches ?e0)\<lparr>GcpClosed := True, GcpBuf := bufio_flush wr (GcpBuf (gcp_calls wr batches ?e0))\<rparr>"
    "r = map_option GcpFlush (BufErr (bufio_flush wr (GcpBuf (gcp_calls wr batches ?e0))))"
    using assms(3) by (auto simp: gcp_shutdown_def Let_def)
  show "prefix (content (BufSink (GcpBuf e))) (gcp_lines p (concat batches))" using f(1) by (simp add: e accounts_def)
  show "content (BufSink (GcpBuf e)) = gcp_lines p (concat batches)" if "r = None"
    using f that by (simp add: e accounts_def)
  show "gcp_export_events wr batch e = (Some GcpShutdown, e)" if "batch \<noteq> []"
    using that by (simp add: e gcp_export_events_def)
qed

section \<open>What the decoder makes of an entry\<close>

definition gcp_keys :: "string list" where
  "gcp_keys = ''time'' # ''severity'' # trace_link # tl record_keys"

lemma gcp_keys_fields:
  "list_all (\<lambda>k. sanitize k = k \<and> field_of line_tags k = (if k \<in> set line_tags then Some k else None)
     \<and> field_of [event_key_name] k = (if k \<in> set [event_key_name] then Some k else None)) gcp_keys"
  by code_simp

lemma gcp_record_ok: "map_ok (gcp_record p o')"
  by (simp add: gcp_record_def Let_def)

lemma gcp_fields_lookup: "map_of (map_lit (gcp_fields o')) k = map_of (gcp_fields o') k"
  by (rule map_lit_get) (simp add: gcp_fields_def Let_def semconv_defs)

text \<open>Beside the three keys of its own the entry holds what the CloudWatch record holds.\<close>

lemma gcp_record_lookup:
  "map_of (gcp_record p o') k
    = (if k = trace_link then if TraceID o' \<noteq> [] \<and> p \<noteq> [] then Some (JStr (''projects/'' @ p @ ''/traces/'' @ TraceID o')) else None
       else if k = ''time'' then Some (JStr (format_rfc3339_nano (At o')))
       else if k = ''severity'' then Some (JStr ''INFO'')
       else if k = ''_aws'' then None
       else map_of (event_record o') k)"
proof -
  have own: "map_of (gcp_fields o') k = (if k = ''time'' then Some (JStr (format_rfc3339_nano (At o')))
       else if k = ''severity'' then Some (JStr ''INFO'') else if k = ''_aws'' then None else map_of (event_fields o') k)"
    by (simp add: gcp_fields_def event_fields_def Let_def semconv_defs)
  have link: "map_of (event_fields o') trace_link = None"
    by (simp add: event_fields_def Let_def semconv_defs trace_link_def)
  have apart: "distinct [trace_link, ''time'', ''severity'', ''_aws'', attr_trace, attr_error, attr_source, attr_deadline, attr_segment]"
    "trace_link \<notin> set [attr_segment, attr_deadline, attr_source, attr_error, attr_trace, ''_aws'', ''severity'', ''time'']"
    "''time'' \<noteq> trace_link" "''severity'' \<noteq> trace_link" "''_aws'' \<noteq> trace_link"
    by code_simp+
  consider "k = trace_link" | "k = ''time''" | "k = ''severity''" | "k = ''_aws''"
    | "k \<noteq> trace_link" "k \<noteq> ''time''" "k \<noteq> ''severity''" "k \<noteq> ''_aws''" by blast
  then show ?thesis
    unfolding gcp_record_def Let_def map_of_put_if gcp_fields_lookup own event_record_lookup
    by cases (use apart link in simp_all)
qed

lemma gcp_record_keys: "map_of (gcp_record p o') k \<noteq> None \<Longrightarrow> k \<in> set gcp_keys"
proof -
  assume k: "map_of (gcp_record p o') k \<noteq> None"
  have "set record_keys = insert ''_aws'' (set (tl record_keys))" by (simp add: record_keys_def)
  then show ?thesis
    using k event_record_keys [of o' k] unfolding gcp_record_lookup gcp_keys_def by (auto split: if_splits)
qed

lemma gcp_record_values: "map_of (gcp_record p o') k = Some v \<Longrightarrow> json_wf v \<and> json_depth v \<le> 1"
  using event_record_values [of o' k v] unfolding gcp_record_lookup by (auto split: if_splits)

lemma parse_gcp_record: "parse_json (build_gcp_record p o') = Some (JObj (canon_members (gcp_record p o')))"
  unfolding build_gcp_record_def
  by (rule parse_json_map [OF gcp_record_ok gcp_record_values]) (auto simp: max_nesting_def)

lemma gcp_record_plain: "plain_keys line_tags (gcp_record p o')" "plain_keys [event_key_name] (gcp_record p o')"
proof -
  have "k \<in> set gcp_keys" if "k \<in> fst ` set (gcp_record p o')" for k
    using gcp_record_keys [of p o' k] that by (simp add: map_of_eq_None_iff)
  then show "plain_keys line_tags (gcp_record p o')" "plain_keys [event_key_name] (gcp_record p o')"
    using gcp_keys_fields by (auto simp: plain_keys_def list_all_iff)
qed

text \<open>The decoder looks at the values of its tags only.\<close>

lemma decode_line_cong:
  assumes "\<And>t. t \<in> set line_tags \<Longrightarrow> values_for line_tags t ms = values_for line_tags t ms'"
  shows "decode_line (JObj ms) = decode_line (JObj ms')"
proof -
  have v: "list_all (\<lambda>t. values_for line_tags t ms = values_for line_tags t ms') (attr_amount # attr_exponent # attr_estimated # line_strings)"
    using assms by (auto simp: list_all_iff line_tags_def)
  then have ex: "list_ex (\<lambda>t. take_values into_string (values_for line_tags t ms) [] = None) line_strings
      = list_ex (\<lambda>t. take_values into_string (values_for line_tags t ms') [] = None) line_strings"
    by (auto simp: list_ex_iff list_all_iff)
  show ?thesis
    using v unfolding line_strings_def list.pred_inject
    by (simp only: decode_line_def line_of_values_def ex struct_members.simps option.case simp_thms)
qed

text \<open>A payload: the entry's object without the keys the log service lifts into the entry's own fields, in any order.\<close>

definition lifted_keys :: "string list" where
  "lifted_keys = [''time'', ''severity'', trace_link]"

definition payload_of :: "(string \<times> json) list \<Rightarrow> (string \<times> json) list" where
  "payload_of ms = [m \<leftarrow> ms. fst m \<notin> set lifted_keys]"

lemma lifted_no_tags: "list_all (\<lambda>k. field_of line_tags k = None \<and> field_of [event_key_name] k = None) lifted_keys"
  by code_simp

lemma values_for_payload:
  assumes "mset ms = mset (payload_of (canon_members (gcp_record p o')))" and "t \<in> set tags"
    and "tags = line_tags \<or> tags = [event_key_name]"
  shows "values_for tags t ms = (case map_of (gcp_record p o') t of None \<Rightarrow> [] | Some v \<Rightarrow> [canon v])"
proof -
  let ?all = "canon_members (gcp_record p o')"
  have "field_of tags k = None" if "k \<in> set lifted_keys" for k
    using that lifted_no_tags assms(3) by (auto simp: list_all_iff)
  then have "[m \<leftarrow> payload_of ?all. field_of tags (fst m) = Some t] = [m \<leftarrow> ?all. field_of tags (fst m) = Some t]"
    by (auto simp: payload_of_def intro!: filter_cong)
  moreover have "plain_keys tags (gcp_record p o')" using gcp_record_plain assms(3) by auto
  ultimately have v: "values_for tags t (payload_of ?all) = (case map_of (gcp_record p o') t of None \<Rightarrow> [] | Some v \<Rightarrow> [canon v])"
    using values_for_map [OF gcp_record_ok _ assms(2), of p o'] by (simp add: values_for_def)
  have "mset (values_for tags t ms) = mset (values_for tags t (payload_of ?all))"
    unfolding values_for_def mset_map mset_filter assms(1) by (rule refl)
  then show ?thesis unfolding v by (simp split: option.splits)
qed

lemma gcp_record_sane: "map_has (gcp_record p o') k \<Longrightarrow> sanitize k = k"
  using gcp_record_keys [of p o' k] gcp_keys_fields by (auto simp: map_has_def list_all_iff)

lemmas gcp_members = canon_members_plain [OF gcp_record_ok gcp_record_sane]

lemma map_of_apart: "map_of [m \<leftarrow> ms. fst m \<notin> S] k = (if k \<in> S then None else map_of ms k)"
  by (induction ms) auto

lemma payload_get:
  assumes "mset ms = mset (payload_of (canon_members (gcp_record p o')))"
  shows "map_of ms k = (if k \<in> set lifted_keys then None else map_option canon (map_of (gcp_record p o') k))"
proof -
  let ?all = "canon_members (gcp_record p o')"
  have d: "distinct (map fst (payload_of ?all))" using gcp_members(1) by (simp add: payload_of_def distinct_map_filter)
  then have "distinct (map fst ms)" by (metis assms mset_eq_imp_distinct_iff mset_map)
  then have "map_of ms = map_of (payload_of ?all)" using d mset_eq_setD [OF assms] map_of_inject_set by blast
  then show ?thesis using gcp_members(2) by (simp add: payload_of_def map_of_apart)
qed

lemma payload_parses:
  assumes "parse_json s = Some (JObj ms)" and "mset ms = mset (payload_of (canon_members (gcp_record p o')))"
  shows "parse_line s t = parse_line (build_event_record o') t"
proof -
  have own: "list_all (\<lambda>t. t \<notin> set (''_aws'' # lifted_keys)) line_tags" by code_simp
  have "values_for line_tags t ms = values_for line_tags t (canon_members (event_record o'))" if "t \<in> set line_tags" for t
  proof -
    have "t \<notin> set (''_aws'' # lifted_keys)" using own that by (auto simp: list_all_iff)
    then have "map_of (gcp_record p o') t = map_of (event_record o') t" by (simp add: gcp_record_lookup lifted_keys_def)
    then show ?thesis
      using values_for_payload [OF assms(2) that] values_for_map [OF event_record_ok event_record_plain(1) that, of o'] by simp
  qed
  then have "decode_line (JObj ms) = decode_line (JObj (canon_members (event_record o')))" by (rule decode_line_cong)
  then show ?thesis unfolding parse_line_def assms(1) parse_event_record bind.simps by simp
qed

end
