(* ===== verification/Gcplogging.thy ===== *)
theory Gcplogging
  imports Gcp Go_Float
begin

text \<open>
  The Cloud Logging querier, \<open>adapters/query/gcplogging/\<close>: the statement with its bound parameters, the calls of
  BigQuery's \<open>jobs.query\<close> with polling and paging (\<open>bigquery.go\<close>), the rows it keeps and their aggregation by the
  in-memory backend (\<open>gcplogging.go\<close>). The HTTP client, the token source and the context are parameters.
\<close>

section \<open>Parameters\<close>

record query_param =
  ParamName :: string
  ParamType :: string
  ParamValue :: string

definition string_param :: "string \<Rightarrow> string \<Rightarrow> query_param" where
  "string_param name v = \<lparr>ParamName = name, ParamType = ''STRING'', ParamValue = v\<rparr>"

text \<open>The layout \<open>2006-01-02 15:04:05.000000-07:00\<close> in UTC: the fraction is cut, never rounded.\<close>

definition format_micros :: "time \<Rightarrow> string" where
  "format_micros t =
     (let s = time_unix t
      in format_date (s div 86400) @ '' '' @ format_clock (s mod 86400) @ ''.''
           @ pad_zero 6 (digits_of (nat (t mod second div 1000))) @ ''+00:00'')"

definition timestamp_param :: "string \<Rightarrow> time \<Rightarrow> query_param" where
  "timestamp_param name t = \<lparr>ParamName = name, ParamType = ''TIMESTAMP'', ParamValue = format_micros t\<rparr>"

definition lower_bound_param :: "string \<Rightarrow> time \<Rightarrow> query_param" where
  "lower_bound_param name t = timestamp_param name t"

definition ceil_micro :: "time \<Rightarrow> time" where
  "ceil_micro t = (let r = t mod second mod 1000 in if r \<noteq> 0 then t + (1000 - r) else t)"

definition upper_bound_param :: "string \<Rightarrow> time \<Rightarrow> query_param" where
  "upper_bound_param name t = timestamp_param name (ceil_micro t)"

section \<open>The querier\<close>

record gq_querier =
  GqProject :: string
  GqDataset :: string
  GqView :: string
  GqLocation :: string
  GqEndpoint :: string
  GqToken :: "(nat \<Rightarrow> string + string) option"
  GqPoll :: duration
  GqMaxRows :: i64
  GqWeeks :: int

definition with_gq_endpoint :: "string \<Rightarrow> gq_querier \<Rightarrow> gq_querier" where
  "with_gq_endpoint u q = q\<lparr>GqEndpoint := rev (dropWhile ((=) (CHR ''/'')) (rev u))\<rparr>"
definition with_bearer_token :: "(nat \<Rightarrow> string + string) \<Rightarrow> gq_querier \<Rightarrow> gq_querier" where
  "with_bearer_token ts q = q\<lparr>GqToken := Some ts\<rparr>"
definition with_view :: "string \<Rightarrow> gq_querier \<Rightarrow> gq_querier" where
  "with_view v q = q\<lparr>GqView := v\<rparr>"
definition with_location :: "string \<Rightarrow> gq_querier \<Rightarrow> gq_querier" where
  "with_location l q = q\<lparr>GqLocation := l\<rparr>"
definition with_gq_poll :: "duration \<Rightarrow> gq_querier \<Rightarrow> gq_querier" where
  "with_gq_poll d q = q\<lparr>GqPoll := d\<rparr>"
definition with_max_rows :: "i64 \<Rightarrow> gq_querier \<Rightarrow> gq_querier" where
  "with_max_rows n q = q\<lparr>GqMaxRows := n\<rparr>"
definition with_event_history :: "int \<Rightarrow> gq_querier \<Rightarrow> gq_querier" where
  "with_event_history w q = q\<lparr>GqWeeks := w\<rparr>"

definition default_view :: string where "default_view = ''_AllLogs''"
definition default_max_rows :: i64 where "default_max_rows = 100000"

definition valid_project_id :: "string \<Rightarrow> bool" where
  "valid_project_id s \<longleftrightarrow> s \<noteq> [] \<and> list_all (\<lambda>r. is_lower r \<or> is_upper r \<or> is_digit r \<or> r \<in> byte ` set ''-.:_'') (rune_values s)"

definition valid_bigquery_id :: "string \<Rightarrow> bool" where
  "valid_bigquery_id s \<longleftrightarrow> s \<noteq> [] \<and> list_all (\<lambda>r. is_lower r \<or> is_upper r \<or> is_digit r \<or> r = byte (CHR ''_'')) (rune_values s)"

datatype gq_error =
    BadProject string
  | BadDataset string
  | BadView string
  | BadMaxRows i64
  | BadPoll duration
  | UnknownFilter string
  | UnknownGroup string
  | GqRequest string
  | GqTokenError string
  | GqDo string string string
  | GqRead string
  | GqStatus int string
  | GqDecode
  | GqApiError int string
  | GqJobErrors string
  | GqNoJobId
  | GqNoPageJob
  | GqDone string
  | GqRepeatedToken string
  | GqWentIncomplete
  | GqTruncated
  | GqColumns nat nat
  | GqMicros nat string
  | GqRow nat line_error
  | GqNotObjects nat
  | GqAggregate query_error

definition new_gcplogging :: "string \<Rightarrow> string \<Rightarrow> (gq_querier \<Rightarrow> gq_querier) list \<Rightarrow> gq_error + gq_querier" where
  "new_gcplogging project dataset opts =
     (let q = fold (\<lambda>f q. f q) opts
        \<lparr>GqProject = project, GqDataset = dataset, GqView = default_view, GqLocation = [],
         GqEndpoint = ''https://bigquery.googleapis.com'', GqToken = None, GqPoll = 250000000,
         GqMaxRows = default_max_rows, GqWeeks = 0\<rparr>
      in if \<not> valid_project_id (GqProject q) then Inl (BadProject (GqProject q))
         else if \<not> valid_bigquery_id (GqDataset q) then Inl (BadDataset (GqDataset q))
         else if \<not> valid_bigquery_id (GqView q) then Inl (BadView (GqView q))
         else if sint (GqMaxRows q) \<le> 0 then Inl (BadMaxRows (GqMaxRows q))
         else if GqPoll q \<le> 0 then Inl (BadPoll (GqPoll q))
         else Inr q)"

definition gcplogging_caps :: "gq_querier \<Rightarrow> caps" where
  "gcplogging_caps q = \<lparr>CMetrics = False, CEvents = True, CMetricWeeks = 0, CEventWeeks = GqWeeks q\<rparr>"

section \<open>The statement\<close>

definition json_path :: "string \<Rightarrow> string" where
  "json_path attr = ''$.'' @ quote_mark # attr @ [quote_mark]"

definition payload_paths :: "(string \<times> string) list" where
  "payload_paths =
     [(''flow'', json_path attr_flow), (''stage'', json_path attr_stage), (''outcome'', json_path attr_outcome),
      (''currency'', json_path attr_currency), (''segment'', json_path attr_segment), (''kind'', json_path attr_kind),
      (''customer'', json_path attr_customer), (''entity'', json_path attr_entity)]"

text \<open>The loops stop at the first label outside the allowlist.\<close>

definition check_labels :: "event_query \<Rightarrow> gq_error option" where
  "check_labels qy =
     (case filter (\<lambda>k. \<not> map_has payload_paths k) (map fst (EFilters qy)) of
        k # _ \<Rightarrow> Some (UnknownFilter k)
      | [] \<Rightarrow>
          (case filter (\<lambda>k. \<not> map_has payload_paths k) (EGroupBy qy) of
             g # _ \<Rightarrow> Some (UnknownGroup g)
           | [] \<Rightarrow> None))"

definition apostrophe :: char where "apostrophe = CHR 0x27"

definition window_cond :: string where
  "window_cond = ''timestamp >= @window_from AND timestamp < @window_to''"
definition marker_cond :: string where
  "marker_cond = ''JSON_VALUE(json_payload, '' @ apostrophe # ''$.'' @ event_key_name @ apostrophe # '') = @event_marker''"
definition filter_cond :: "string \<Rightarrow> string" where
  "filter_cond k =
     ''IFNULL(JSON_VALUE(json_payload, '' @ apostrophe # map_get [] payload_paths k @ apostrophe # ''), '' @ apostrophe # apostrophe
       # '') = @f_'' @ k"

definition statement_conds :: "event_query \<Rightarrow> string list" where
  "statement_conds qy = window_cond # marker_cond # map filter_cond (sorted_keys (EFilters qy))"

definition statement_params :: "event_query \<Rightarrow> query_param list" where
  "statement_params qy =
     [lower_bound_param ''window_from'' (From (ERange qy)), upper_bound_param ''window_to'' (To (ERange qy)),
      string_param ''event_marker'' event_outcome]
     @ map (\<lambda>k. string_param (''f_'' @ k) (map_get [] (EFilters qy) k)) (sorted_keys (EFilters qy))"

definition select_text :: "string \<Rightarrow> string list \<Rightarrow> int \<Rightarrow> string" where
  "select_text table conds limit =
     ''SELECT UNIX_MICROS(timestamp) AS event_micros, TO_JSON_STRING(json_payload) AS payload''
     @ '' FROM `'' @ table @ ''`'' @ '' WHERE '' @ join_str '' AND '' conds @ '' ORDER BY timestamp''
     @ '' LIMIT '' @ format_int limit"

definition row_limit :: "gq_querier \<Rightarrow> i64" where
  "row_limit q = GqMaxRows q + 1"

definition table_of :: "gq_querier \<Rightarrow> string" where
  "table_of q = GqProject q @ ''.'' @ GqDataset q @ ''.'' @ GqView q"

definition gcp_statement :: "gq_querier \<Rightarrow> event_query \<Rightarrow> string \<times> query_param list" where
  "gcp_statement q qy = (select_text (table_of q) (statement_conds qy) (sint (row_limit q)), statement_params qy)"

section \<open>Requests and responses\<close>

definition server_wait_ms :: int where "server_wait_ms = 20000"

definition param_json :: "query_param \<Rightarrow> json" where
  "param_json p =
     JObj [(''name'', JStr (ParamName p)), (''parameterType'', JObj [(''type'', JStr (ParamType p))]),
           (''parameterValue'', JObj [(''value'', JStr (ParamValue p))])]"

definition query_request :: "gq_querier \<Rightarrow> string \<Rightarrow> query_param list \<Rightarrow> json" where
  "query_request q stmt params =
     JObj ([(''query'', JStr stmt), (''useLegacySql'', JBool False), (''parameterMode'', JStr ''NAMED'')]
       @ (if params = [] then [] else [(''queryParameters'', JArr (map param_json params))])
       @ [(''timeoutMs'', json_int server_wait_ms), (''maxResults'', json_int (sint (row_limit q)))]
       @ (if GqLocation q = [] then [] else [(''location'', JStr (GqLocation q))]))"

text \<open>\<open>url.PathEscape\<close>.\<close>

definition path_escape :: "string \<Rightarrow> string" where
  "path_escape s =
     concat (map (\<lambda>c. if url_plain c \<or> c \<in> set ''$&+=:@'' then [c]
       else ''%'' @ to_upper [hex_digit (byte c div 16), hex_digit (byte c mod 16)]) s)"

definition queries_url :: "gq_querier \<Rightarrow> string" where
  "queries_url q = GqEndpoint q @ ''/bigquery/v2/projects/'' @ path_escape (GqProject q) @ ''/queries''"

record job_ref =
  JobID :: string
  JobLocation :: string

definition results_url :: "gq_querier \<Rightarrow> job_ref \<Rightarrow> string \<Rightarrow> string" where
  "results_url q ref token =
     (let v = map_lit [(''timeoutMs'', format_int server_wait_ms), (''maxResults'', format_int (sint (row_limit q)))];
          loc = (if JobLocation ref \<noteq> [] then JobLocation ref else GqLocation q);
          v = put_if (loc \<noteq> []) ''location'' loc v;
          v = put_if (token \<noteq> []) ''pageToken'' token v
      in queries_url q @ ''/'' @ path_escape (JobID ref) @ ''?'' @ encode_query v)"

record api_status =
  ApiCode :: int
  ApiMessage :: string
  ApiStatus :: string

record bq_response =
  BqComplete :: bool
  BqRows :: "string slice slice"
  BqToken :: string
  BqTotal :: string
  BqJob :: "job_ref option"
  BqError :: "api_status option"
  BqErrors :: "api_status slice"

definition into_struct :: "((string \<times> json) list \<Rightarrow> 'a \<Rightarrow> 'a option) \<Rightarrow> json \<Rightarrow> 'a \<Rightarrow> 'a option" where
  "into_struct into v x = (case struct_members v of None \<Rightarrow> None | Some ms \<Rightarrow> into ms x)"

text \<open>A pointer: \<open>null\<close> makes it nil, anything else is decoded into what it points to or into a new value.\<close>

definition into_pointer :: "(json \<Rightarrow> 'a \<Rightarrow> 'a option) \<Rightarrow> 'a \<Rightarrow> json \<Rightarrow> 'a option \<Rightarrow> 'a option option" where
  "into_pointer into z v p = (if v = JNull then Some None else map_option Some (into v (case p of None \<Rightarrow> z | Some x \<Rightarrow> x)))"

definition into_cell :: "json \<Rightarrow> string \<Rightarrow> string option" where
  "into_cell = into_struct (\<lambda>ms c. take_values into_string (values_for [''v''] ''v'' ms) c)"

definition into_bq_row :: "json \<Rightarrow> string slice \<Rightarrow> string slice option" where
  "into_bq_row = into_struct (\<lambda>ms r. take_values (into_slice into_cell []) (values_for [''f''] ''f'' ms) r)"

definition into_job :: "json \<Rightarrow> job_ref \<Rightarrow> job_ref option" where
  "into_job = into_struct (\<lambda>ms j. let tags = [''jobId'', ''location''] in
     case (take_values into_string (values_for tags ''jobId'' ms) (JobID j),
           take_values into_string (values_for tags ''location'' ms) (JobLocation j)) of
       (Some i, Some l) \<Rightarrow> Some \<lparr>JobID = i, JobLocation = l\<rparr> | _ \<Rightarrow> None)"

definition into_status :: "json \<Rightarrow> api_status \<Rightarrow> api_status option" where
  "into_status = into_struct (\<lambda>ms s. let tags = [''code'', ''message'', ''status''] in
     case (take_values (into_int 64) (values_for tags ''code'' ms) (ApiCode s),
           take_values into_string (values_for tags ''message'' ms) (ApiMessage s),
           take_values into_string (values_for tags ''status'' ms) (ApiStatus s)) of
       (Some c, Some m, Some t) \<Rightarrow> Some \<lparr>ApiCode = c, ApiMessage = m, ApiStatus = t\<rparr> | _ \<Rightarrow> None)"

definition zero_job :: job_ref where "zero_job = \<lparr>JobID = [], JobLocation = []\<rparr>"
definition zero_status :: api_status where "zero_status = \<lparr>ApiCode = 0, ApiMessage = [], ApiStatus = []\<rparr>"

definition bq_tags :: "string list" where
  "bq_tags = [''jobComplete'', ''rows'', ''pageToken'', ''totalRows'', ''jobReference'', ''error'', ''errors'']"

definition decode_bq :: "string \<Rightarrow> bq_response option" where
  "decode_bq raw =
     (case Option.bind (parse_json raw) struct_members of
        None \<Rightarrow> None
      | Some ms \<Rightarrow>
          (case (take_values into_bool (values_for bq_tags ''jobComplete'' ms) False,
                 take_values (into_slice into_bq_row (0, [])) (values_for bq_tags ''rows'' ms) (0, []),
                 take_values into_string (values_for bq_tags ''pageToken'' ms) [],
                 take_values into_string (values_for bq_tags ''totalRows'' ms) [],
                 take_values (into_pointer into_job zero_job) (values_for bq_tags ''jobReference'' ms) None,
                 take_values (into_pointer into_status zero_status) (values_for bq_tags ''error'' ms) None,
                 take_values (into_slice into_status zero_status) (values_for bq_tags ''errors'' ms) (0, [])) of
             (Some c, Some rows, Some tok, Some n, Some j, Some e, Some es) \<Rightarrow>
               Some \<lparr>BqComplete = c, BqRows = rows, BqToken = tok, BqTotal = n, BqJob = j, BqError = e, BqErrors = es\<rparr>
           | _ \<Rightarrow> None))"

record bq_request =
  BqMethod :: string
  BqUrl :: string
  BqHeaders :: "(string, string) gomap"
  BqBody :: "string option"

text \<open>The outside world: the URLs no request can be made of, the HTTP client's answer to the \<open>n\<close>th request, and the
  context's error once it is done.\<close>

record bq_world =
  bq_bad_url :: "string \<Rightarrow> string option"
  bq_do :: "nat \<Rightarrow> bq_request \<Rightarrow> string + int \<times> (string + string)"
  bq_done :: "nat \<Rightarrow> string option"

definition bq_headers :: "gq_querier \<Rightarrow> nat \<Rightarrow> string option \<Rightarrow> string + (string, string) gomap" where
  "bq_headers q n body =
     (let h = put_if (body \<noteq> None) ''Content-Type'' ''application/json'' [] in
      case GqToken q of
        None \<Rightarrow> Inr h
      | Some ts \<Rightarrow> map_sum id (\<lambda>tok. map_put ''Authorization'' (''Bearer '' @ tok) h) (ts n))"

definition bq_call :: "gq_querier \<Rightarrow> bq_world \<Rightarrow> nat \<Rightarrow> string \<Rightarrow> string \<Rightarrow> string option \<Rightarrow> gq_error + bq_response" where
  "bq_call q w n method u body =
     (case bq_bad_url w u of
        Some e \<Rightarrow> Inl (GqRequest e)
      | None \<Rightarrow>
          (case bq_headers q n body of
             Inl e \<Rightarrow> Inl (GqTokenError e)
           | Inr h \<Rightarrow>
               (case bq_do w n \<lparr>BqMethod = method, BqUrl = u, BqHeaders = h, BqBody = body\<rparr> of
                  Inl e \<Rightarrow> Inl (GqDo method u e)
                | Inr (_, Inl e) \<Rightarrow> Inl (GqRead e)
                | Inr (status, Inr out) \<Rightarrow>
                    if status \<noteq> 200 then Inl (GqStatus status out)
                    else (case decode_bq out of
                            None \<Rightarrow> Inl GqDecode
                          | Some r \<Rightarrow>
                              (case BqError r of
                                 Some s \<Rightarrow> Inl (GqApiError (ApiCode s) (ApiMessage s))
                               | None \<Rightarrow>
                                   (case slice_items (BqErrors r) of
                                      s # _ \<Rightarrow> Inl (GqJobErrors (ApiMessage s))
                                    | [] \<Rightarrow> Inr r))))))"

definition page_rows :: "bq_response \<Rightarrow> string list list" where
  "page_rows r = map slice_items (slice_items (BqRows r))"

section \<open>Polling and paging\<close>

definition poll_step :: "gq_querier \<Rightarrow> bq_world \<Rightarrow> nat \<Rightarrow> bq_response \<Rightarrow> gq_error + bq_response" where
  "poll_step q w n resp =
     (case BqJob resp of
        None \<Rightarrow> Inl GqNoJobId
      | Some ref \<Rightarrow>
          if JobID ref = [] then Inl GqNoJobId
          else (case bq_done w n of
                  Some e \<Rightarrow> Inl (GqDone e)
                | None \<Rightarrow> bq_call q w n ''GET'' (results_url q ref []) None))"

text \<open>\<open>n\<close> counts the requests made; \<open>None\<close> is a loop that never ends.\<close>

partial_function (option) bq_poll :: "gq_querier \<Rightarrow> bq_world \<Rightarrow> nat \<Rightarrow> bq_response \<Rightarrow> (gq_error + nat \<times> bq_response) option" where
  "bq_poll q w n resp =
     (if BqComplete resp then Some (Inr (n, resp))
      else (case poll_step q w n resp of
              Inl e \<Rightarrow> Some (Inl e)
            | Inr r \<Rightarrow> bq_poll q w (Suc n) r))"

definition page_step :: "gq_querier \<Rightarrow> bq_world \<Rightarrow> nat \<Rightarrow> string list \<Rightarrow> bq_response \<Rightarrow> gq_error + bq_response" where
  "page_step q w n used resp =
     (if BqToken resp \<in> set used then Inl (GqRepeatedToken (BqToken resp))
      else case BqJob resp of
             None \<Rightarrow> Inl GqNoPageJob
           | Some ref \<Rightarrow>
               if JobID ref = [] then Inl GqNoPageJob
               else (case bq_call q w n ''GET'' (results_url q ref (BqToken resp)) None of
                       Inl e \<Rightarrow> Inl e
                     | Inr r \<Rightarrow> if \<not> BqComplete r then Inl GqWentIncomplete else Inr r))"

partial_function (option) bq_pages ::
    "gq_querier \<Rightarrow> bq_world \<Rightarrow> nat \<Rightarrow> string list \<Rightarrow> bq_response \<Rightarrow> string list list \<Rightarrow> (gq_error + string list list) option" where
  "bq_pages q w n used resp all =
     (if BqToken resp = [] \<or> sint (GqMaxRows q) < int (length all) then Some (Inr all)
      else (case page_step q w n used resp of
              Inl e \<Rightarrow> Some (Inl e)
            | Inr r \<Rightarrow> bq_pages q w (Suc n) (BqToken resp # used) r (all @ page_rows r)))"

definition bq_run :: "gq_querier \<Rightarrow> bq_world \<Rightarrow> string \<Rightarrow> query_param list \<Rightarrow> (gq_error + string list list) option" where
  "bq_run q w stmt params =
     (case bq_call q w 0 ''POST'' (queries_url q) (Some (render_json (query_request q stmt params))) of
        Inl e \<Rightarrow> Some (Inl e)
      | Inr resp \<Rightarrow>
          (case bq_poll q w 1 resp of
             None \<Rightarrow> None
           | Some (Inl e) \<Rightarrow> Some (Inl e)
           | Some (Inr (n, resp)) \<Rightarrow> bq_pages q w n [] resp (page_rows resp)))"

section \<open>Rows\<close>

text \<open>Whether a payload is an object, and whether it holds the marker.\<close>

definition outcome_marker :: "string \<Rightarrow> bool \<times> bool" where
  "outcome_marker payload =
     (case parse_json payload of
        Some (JObj ms) \<Rightarrow>
          (case map_of (map_lit ms) ''event'' of
             None \<Rightarrow> (False, True)
           | Some v \<Rightarrow> (into_string v [] = Some event_outcome, True))
      | _ \<Rightarrow> (False, False))"

text \<open>The loop over the rows: the outcomes in their order and the number of payloads that are no objects.\<close>

fun decode_from :: "nat \<Rightarrow> string list list \<Rightarrow> gq_error + outcome list \<times> nat" where
  "decode_from i [] = Inr ([], 0)"
| "decode_from i (r # rows) =
     (case r of
        [at', payload] \<Rightarrow>
          (case parse_int 64 at' of
             None \<Rightarrow> Inl (GqMicros i at')
           | Some micros \<Rightarrow>
               (case outcome_marker payload of
                  (_, False) \<Rightarrow> map_sum id (\<lambda>(os, n). (os, Suc n)) (decode_from (Suc i) rows)
                | (False, True) \<Rightarrow> decode_from (Suc i) rows
                | (True, True) \<Rightarrow>
                    (case parse_line payload (micros * 1000) of
                       Inl e \<Rightarrow> Inl (GqRow i e)
                     | Inr o' \<Rightarrow> map_sum id (\<lambda>(os, n). (o' # os, n)) (decode_from (Suc i) rows))))
      | _ \<Rightarrow> Inl (GqColumns i (length r)))"

definition decode_rows :: "string list list \<Rightarrow> gq_error + outcome list" where
  "decode_rows rows =
     (case decode_from 0 rows of
        Inl e \<Rightarrow> Inl e
      | Inr (os, n) \<Rightarrow> if rows \<noteq> [] \<and> n = length rows then Inl (GqNotObjects (length rows)) else Inr os)"

section \<open>The query\<close>

definition gcp_fetch :: "gq_querier \<Rightarrow> bq_world \<Rightarrow> event_query \<Rightarrow> (gq_error + outcome list) option" where
  "gcp_fetch q w qy =
     (case check_labels qy of
        Some e \<Rightarrow> Some (Inl e)
      | None \<Rightarrow>
          (case gcp_statement q qy of
             (stmt, params) \<Rightarrow>
               (case bq_run q w stmt params of
                  None \<Rightarrow> None
                | Some (Inl e) \<Rightarrow> Some (Inl e)
                | Some (Inr rows) \<Rightarrow>
                    Some (if sint (GqMaxRows q) < int (length rows) then Inl GqTruncated else decode_rows rows))))"

definition gcp_events :: "gq_querier \<Rightarrow> bq_world \<Rightarrow> event_query \<Rightarrow> (gq_error + event_group list) option" where
  "gcp_events q w qy =
     (case gcp_fetch q w qy of
        None \<Rightarrow> None
      | Some (Inl e) \<Rightarrow> Some (Inl e)
      | Some (Inr evs) \<Rightarrow>
          Some (case memq_events (new_memq [with_events evs]) qy of Inl e \<Rightarrow> Inl (GqAggregate e) | Inr gs \<Rightarrow> Inr gs))"

end
