(* ===== verification/Gcp_Backend.thy ===== *)
theory Gcp_Backend
  imports Gcplogging Cloudwatch_Backend
begin

text \<open>
  From the Google Cloud exporter to the Cloud Logging querier. What the logging agent makes of a line and what
  BigQuery makes of the statement are stated as documented; the querier's answers are then exact over what was
  exported, whatever else the log bucket holds, and no answer is ever drawn from a part of the result.
\<close>

section \<open>The sequence of requests\<close>

text \<open>A job that completes after some polls, and the pages of its result, read to the last one.\<close>

inductive bq_completes :: "gq_querier \<Rightarrow> bq_world \<Rightarrow> nat \<Rightarrow> bq_response \<Rightarrow> nat \<Rightarrow> bq_response \<Rightarrow> bool"
  for q w where
  complete: "BqComplete r \<Longrightarrow> bq_completes q w n r n r"
| wait: "\<not> BqComplete r \<Longrightarrow> BqJob r = Some ref \<Longrightarrow> JobID ref \<noteq> [] \<Longrightarrow> bq_done w n = None
    \<Longrightarrow> bq_call q w n ''GET'' (results_url q ref []) None = Inr r'
    \<Longrightarrow> bq_completes q w (Suc n) r' n' r'' \<Longrightarrow> bq_completes q w n r n' r''"

inductive bq_pages_to :: "gq_querier \<Rightarrow> bq_world \<Rightarrow> nat \<Rightarrow> string list \<Rightarrow> bq_response \<Rightarrow> string list list \<Rightarrow> bool"
  for q w where
  last_page: "BqToken r = [] \<Longrightarrow> bq_pages_to q w n used r []"
| next_page: "BqToken r \<noteq> [] \<Longrightarrow> BqToken r \<notin> set used \<Longrightarrow> BqJob r = Some ref \<Longrightarrow> JobID ref \<noteq> []
    \<Longrightarrow> bq_call q w n ''GET'' (results_url q ref (BqToken r)) None = Inr r' \<Longrightarrow> BqComplete r'
    \<Longrightarrow> bq_pages_to q w (Suc n) (BqToken r # used) r' rows
    \<Longrightarrow> bq_pages_to q w n used r (page_rows r' @ rows)"

lemma poll_completes: "bq_completes q w n r n' r' \<Longrightarrow> bq_poll q w n r = Some (Inr (n', r'))"
proof (induction rule: bq_completes.induct)
  case (complete r n)
  then show ?case by (simp add: bq_poll.simps [of q w n r])
next
  case (wait r ref n r' n' r'')
  then show ?case by (simp add: bq_poll.simps [of q w n r] poll_step_def)
qed

lemma completes_poll:
  assumes "bq_poll q w n r = Some x"
  shows "(case x of Inr (n', r') \<Rightarrow> bq_completes q w n r n' r' | Inl _ \<Rightarrow> True)"
proof (induction rule: bq_poll.raw_induct [OF _ assms])
  case (1 poll q w n r x)
  show ?case
  proof (cases "BqComplete r")
    case True
    then show ?thesis using "1"(2) by (auto intro: bq_completes.complete)
  next
    case False
    show ?thesis
    proof (cases "poll_step q w n r")
      case (Inl e)
      then show ?thesis using "1"(2) False by auto
    next
      case (Inr r')
      then obtain ref where "BqJob r = Some ref" "JobID ref \<noteq> []" "bq_done w n = None"
        "bq_call q w n ''GET'' (results_url q ref []) None = Inr r'"
        by (auto simp: poll_step_def split: option.splits if_splits)
      moreover have "case x of Inr (n', r'') \<Rightarrow> bq_completes q w (Suc n) r' n' r'' | Inl _ \<Rightarrow> True"
        using "1"(1) "1"(2) False Inr by simp
      ultimately show ?thesis using False by (auto intro: bq_completes.wait split: sum.splits)
    qed
  qed
qed

lemma pages_read:
  "bq_pages_to q w n used r rows \<Longrightarrow> int (length all + length rows) \<le> sint (GqMaxRows q)
    \<Longrightarrow> bq_pages q w n used r all = Some (Inr (all @ rows))"
proof (induction arbitrary: all rule: bq_pages_to.induct)
  case (last_page r n used)
  then show ?case by (simp add: bq_pages.simps [of q w n used r])
next
  case (next_page r used ref n r' rows)
  have "page_step q w n used r = Inr r'" using next_page.hyps by (simp add: page_step_def)
  moreover have "bq_pages q w (Suc n) (BqToken r # used) r' (all @ page_rows r') = Some (Inr ((all @ page_rows r') @ rows))"
    using next_page.prems by (intro next_page.IH) simp
  ultimately show ?case using next_page by (simp add: bq_pages.simps [of q w n used r all])
qed

lemma read_pages:
  assumes "bq_pages q w n used r all = Some x"
  shows "(case x of Inl _ \<Rightarrow> True | Inr out \<Rightarrow> sint (GqMaxRows q) < int (length out) \<or> (\<exists>rows. bq_pages_to q w n used r rows \<and> out = all @ rows))"
proof (induction rule: bq_pages.raw_induct [OF _ assms])
  case (1 pages q w n used r all x)
  show ?case
  proof (cases "BqToken r = [] \<or> sint (GqMaxRows q) < int (length all)")
    case True
    then show ?thesis using "1"(2) by (auto intro: bq_pages_to.last_page)
  next
    case False
    show ?thesis
    proof (cases "page_step q w n used r")
      case (Inl e)
      then show ?thesis using "1"(2) False by auto
    next
      case (Inr r')
      then obtain ref where p: "BqToken r \<notin> set used" "BqJob r = Some ref" "JobID ref \<noteq> []"
        "bq_call q w n ''GET'' (results_url q ref (BqToken r)) None = Inr r'" "BqComplete r'"
        by (auto simp: page_step_def split: option.splits if_splits sum.splits)
      have "case x of Inl _ \<Rightarrow> True | Inr out \<Rightarrow> sint (GqMaxRows q) < int (length out)
          \<or> (\<exists>rows. bq_pages_to q w (Suc n) (BqToken r # used) r' rows \<and> out = (all @ page_rows r') @ rows)"
        using "1"(1) "1"(2) False Inr by simp
      then show ?thesis using False p by (fastforce intro: bq_pages_to.next_page split: sum.splits)
    qed
  qed
qed

section \<open>No answer from a part of the result\<close>

text \<open>A row that holds an exported outcome.\<close>

definition outcome_row :: "string list \<Rightarrow> bool" where
  "outcome_row r \<longleftrightarrow> outcome_marker (r ! 1) = (True, True)"

definition row_outcome :: "string list \<Rightarrow> outcome" where
  "row_outcome r = projr (parse_line (r ! 1) (the (parse_int 64 (r ! 0)) * 1000))"

lemma decode_from_all:
  "decode_from i rows = Inr (os, k) \<Longrightarrow> os = map row_outcome (filter outcome_row rows)
    \<and> k = length (filter (\<lambda>r. \<not> snd (outcome_marker (r ! 1))) rows)"
proof (induction rows arbitrary: i os k)
  case (Cons r rows)
  obtain t p where r: "r = [t, p]" using Cons.prems by (auto split: list.splits)
  obtain m where m: "parse_int 64 t = Some m" using Cons.prems r by (auto split: option.splits)
  obtain a b where ab: "outcome_marker p = (a, b)" by (cases "outcome_marker p")
  show ?case
  proof (cases "decode_from (Suc i) rows")
    case (Inr res)
    then obtain os' k' where rest: "decode_from (Suc i) rows = Inr (os', k')" by (cases res) auto
    show ?thesis
      using Cons.prems Cons.IH [OF rest] r m ab rest
      by (cases a; cases b) (auto simp: outcome_row_def row_outcome_def split: sum.splits)
  next
    case (Inl e)
    show ?thesis using Cons.prems r m ab Inl by (cases a; cases b) (auto split: sum.splits)
  qed
qed simp

text \<open>C21: whatever BigQuery answers, in however many polls and pages, an answer of the querier is drawn from the
  whole result: the job had completed, the pages were read to the one that offers no further, they hold no more
  rows than the cap, and every row that holds an outcome was decoded and counted.\<close>

theorem gcp_answer_is_whole:
  assumes "gcp_fetch q w qy = Some (Inr evs)"
  shows "\<exists>first n r rows.
    bq_call q w 0 ''POST'' (queries_url q)
        (Some (render_json (query_request q (fst (gcp_statement q qy)) (snd (gcp_statement q qy))))) = Inr first
    \<and> bq_completes q w 1 first n r \<and> bq_pages_to q w n [] r rows
    \<and> int (length (page_rows r @ rows)) \<le> sint (GqMaxRows q)
    \<and> evs = map row_outcome (filter outcome_row (page_rows r @ rows))"
proof -
  obtain out where run: "bq_run q w (fst (gcp_statement q qy)) (snd (gcp_statement q qy)) = Some (Inr out)"
    "int (length out) \<le> sint (GqMaxRows q)" "decode_rows out = Inr evs"
    using assms by (auto simp: gcp_fetch_def split: option.splits sum.splits if_splits prod.splits)
  obtain first where first: "bq_call q w 0 ''POST'' (queries_url q)
      (Some (render_json (query_request q (fst (gcp_statement q qy)) (snd (gcp_statement q qy))))) = Inr first"
    using run(1) by (auto simp: bq_run_def split: sum.splits)
  then obtain n r where poll: "bq_poll q w 1 first = Some (Inr (n, r))"
    and pages: "bq_pages q w n [] r (page_rows r) = Some (Inr out)"
    using run(1) by (auto simp: bq_run_def split: option.splits sum.splits)
  have c: "bq_completes q w 1 first n r" using completes_poll [OF poll] by simp
  obtain rows where rows: "bq_pages_to q w n [] r rows" "out = page_rows r @ rows"
    using read_pages [OF pages] run(2) by auto
  have "evs = map row_outcome (filter outcome_row out)"
    using run(3) decode_from_all [of 0 out] by (auto simp: decode_rows_def split: sum.splits if_splits)
  then show ?thesis using first c rows run(2) by blast
qed

section \<open>The log bucket\<close>

text \<open>An entry: the members of its payload and its timestamp. The agent makes one of a line that is an object; the
  time of the line, where it has one, is the entry's.\<close>

type_synonym gcp_entry = "(string \<times> json) list \<times> time"


definition gcp_entry_of :: "string \<Rightarrow> outcome \<Rightarrow> gcp_entry" where
  "gcp_entry_of p o' = (payload_of (canon_members (gcp_record p o')), At o')"





section \<open>What the statement means\<close>


definition micros :: "time \<Rightarrow> int" where "micros t = t div 1000"










text \<open>A row of the result, and a service that runs the statement: the job completes after some polls, its pages
  hold the rows of the entries that meet all conditions, in any order, and no more of them than the cap.\<close>

definition entry_row :: "gcp_entry \<Rightarrow> string list \<Rightarrow> bool" where
  "entry_row e row \<longleftrightarrow>
     (\<exists>s ms. row = [format_int (micros (snd e)), s] \<and> parse_json s = Some (JObj ms) \<and> mset ms = mset (fst e))"


section \<open>Reading the rows back\<close>

definition recalled_gcp :: "outcome \<Rightarrow> outcome" where
  "recalled_gcp o' = readback (micros (At o') * 1000) o'"

text \<open>An outcome the emitter lets through, at a time the layouts and an INT64 of microseconds can hold.\<close>

definition gcp_storable :: "outcome \<Rightarrow> bool" where
  "gcp_storable o' \<longleftrightarrow> wire_outcome o' \<and> 0 \<le> year_of (At o') \<and> year_of (At o') \<le> 9999 \<and> in_i64 (micros (At o'))"

lemma gcp_entry_marked:
  assumes "parse_json s = Some (JObj ms)" and "mset ms = mset (fst (gcp_entry_of p o'))"
  shows "outcome_marker s = (True, True)"
proof -
  let ?all = "canon_members (gcp_record p o')"
  have plain: "sanitize event_outcome = event_outcome" "event_key_name \<notin> set lifted_keys" "event_key_name \<noteq> ''_aws''"
    "event_key_name \<noteq> trace_link" "event_key_name \<noteq> ''time''" "event_key_name \<noteq> ''severity''" by code_simp+
  have m: "mset ms = mset (payload_of ?all)" using assms(2) by (simp add: gcp_entry_of_def)
  have "distinct (map fst (payload_of ?all))" using gcp_members(1) by (simp add: payload_of_def distinct_map_filter)
  then have d: "distinct (map fst ms)" by (metis m mset_eq_imp_distinct_iff mset_map)
  have "map_of ms event_key_name = Some (JStr event_outcome)"
    unfolding payload_get [OF m] gcp_record_lookup event_record_get using plain by simp
  then have "map_of (map_lit ms) ''event'' = Some (JStr event_outcome)"
    unfolding map_lit_get [OF d] by (simp add: event_key_name_def)
  then show ?thesis by (simp add: outcome_marker_def assms(1))
qed

lemma decode_hits:
  "list_all2 entry_row (map (gcp_entry_of p) os) rows \<Longrightarrow> list_all gcp_storable os
    \<Longrightarrow> decode_from i rows = Inr (map recalled_gcp os, 0)"
proof (induction os arbitrary: rows i)
  case (Cons o' os)
  then obtain row rows' where rows: "rows = row # rows'" "entry_row (gcp_entry_of p o') row"
    "list_all2 entry_row (map (gcp_entry_of p) os) rows'" by (auto simp: list_all2_Cons1)
  then obtain s ms where r: "row = [format_int (micros (At o')), s]" "parse_json s = Some (JObj ms)"
    "mset ms = mset (fst (gcp_entry_of p o'))" by (auto simp: entry_row_def gcp_entry_of_def)
  have st: "wire_outcome o'" "in_i64 (micros (At o'))" using Cons.prems(2) by (simp_all add: gcp_storable_def)
  have "parse_int 64 (format_int (micros (At o'))) = Some (micros (At o'))"
    using st(2) by (intro parse_int_format_int) (auto simp: in_i64_def)
  moreover have "parse_line s (micros (At o') * 1000) = Inr (recalled_gcp o')"
    using payload_parses [OF r(2), of p o'] r(3) parse_exported [OF wire_exportable [OF st(1)]]
    by (simp add: gcp_entry_of_def recalled_gcp_def)
  moreover have "decode_from (Suc i) rows' = Inr (map recalled_gcp os, 0)"
    using Cons.IH [OF rows(3)] Cons.prems(2) by simp
  ultimately show ?case using gcp_entry_marked [OF r(2,3)] by (simp add: rows(1) r(1))
qed simp


section \<open>The pushed-down conditions\<close>






section \<open>The answers\<close>





section \<open>A service that serves\<close>

definition demo_gq :: gq_querier where
  "demo_gq = projr (new_gcplogging ''acme-prod'' ''biz_logs'' [with_max_rows 3])"

definition gcp_question :: event_query where
  "gcp_question = event_query_zero\<lparr>EFilters := [(''flow'', ''checkout'')], EGroupBy := [''currency''], ERange := \<lparr>From = 0, To = 4999\<rparr>\<rparr>"

definition demo_payload :: "(string \<times> json) list" where
  "demo_payload = fst (gcp_entry_of ''acme-prod'' (example_outcome []))"


text \<open>The job is not done at first, then has a page without rows, then the page with the row.\<close>

definition demo_page :: "nat \<Rightarrow> json" where
  "demo_page n =
     (let job = (''jobReference'', JObj [(''jobId'', JStr ''j1'')]) in
      JObj (if n = 0 then [(''jobComplete'', JBool False), job]
            else if n = 1 then [(''jobComplete'', JBool True), job, (''pageToken'', JStr ''p2'')]
            else [(''jobComplete'', JBool True), job,
                  (''rows'', JArr [JObj [(''f'', JArr [JObj [(''v'', JStr ''1'')], JObj [(''v'', JStr (render_json (JObj demo_payload)))]])]])]))"

definition gcp_demo_world :: bq_world where
  "gcp_demo_world = \<lparr>bq_bad_url = (\<lambda>_. None), bq_do = (\<lambda>n req. Inr (200, Inr (render_json (demo_page n)))), bq_done = (\<lambda>_. None)\<rparr>"

definition demo_reply :: "nat \<Rightarrow> bq_response" where
  "demo_reply n =
     \<lparr>BqComplete = n \<noteq> 0,
      BqRows = (if n \<le> 1 then (0, []) else (1, [(2, [''1'', render_json (JObj demo_payload)])])),
      BqToken = (if n = 1 then ''p2'' else []), BqTotal = [], BqJob = Some \<lparr>JobID = ''j1'', JobLocation = []\<rparr>,
      BqError = None, BqErrors = (0, [])\<rparr>"

lemma demo_payload_plain: "canon (JObj demo_payload) = JObj demo_payload" "json_wf (JObj demo_payload)"
  "json_depth (JObj demo_payload) \<le> 1" "is_ascii (render_json (JObj demo_payload))"
  by code_simp+

lemma parse_demo_payload: "parse_json (render_json (JObj demo_payload)) = Some (JObj demo_payload)"
proof -
  have "json_depth (JObj demo_payload) \<le> max_nesting" using demo_payload_plain(3) by (simp add: max_nesting_def)
  then show ?thesis using parse_render [OF demo_payload_plain(2)] demo_payload_plain(1) by simp
qed

lemma demo_tags:
  "field_of bq_tags ''jobComplete'' = Some ''jobComplete''" "field_of bq_tags ''rows'' = Some ''rows''"
  "field_of bq_tags ''pageToken'' = Some ''pageToken''" "field_of bq_tags ''jobReference'' = Some ''jobReference''"
  "field_of [''v''] ''v'' = Some ''v''" "field_of [''f''] ''f'' = Some ''f''" "field_of [''jobId'', ''location''] ''jobId'' = Some ''jobId''"
  by code_simp+

lemma demo_decode: "decode_bq (render_json (demo_page n)) = Some (demo_reply n)"
proof -
  have plain: "sanitize ''jobComplete'' = ''jobComplete''" "sanitize ''rows'' = ''rows''" "sanitize ''pageToken'' = ''pageToken''"
    "sanitize ''jobReference'' = ''jobReference''" "sanitize ''jobId'' = ''jobId''" "sanitize ''j1'' = ''j1''" "sanitize ''p2'' = ''p2''"
    "sanitize ''f'' = ''f''" "sanitize ''v'' = ''v''" "sanitize ''1'' = ''1''" by code_simp+
  have "canon (demo_page n) = demo_page n" using plain sanitize_ascii [OF demo_payload_plain(4)] by (simp add: demo_page_def Let_def del: render_json.simps)
  moreover have "json_wf (demo_page n)" "json_depth (demo_page n) \<le> max_nesting"
    by (simp_all add: demo_page_def Let_def max_nesting_def del: render_json.simps)
  ultimately have "parse_json (render_json (demo_page n)) = Some (demo_page n)" using parse_render by metis
  then show ?thesis
    using demo_tags by (simp add: decode_bq_def demo_page_def demo_reply_def values_for_def Let_def into_struct_def into_bq_row_def into_cell_def
      into_job_def into_pointer_def zero_job_def del: render_json.simps)
qed

lemma demo_bq_call: "bq_call demo_gq gcp_demo_world n method u body = Inr (demo_reply n)"
proof -
  have "GqToken demo_gq = None" by code_simp
  then show ?thesis
    unfolding bq_call_def gcp_demo_world_def bq_headers_def
    by (simp add: demo_decode) (simp add: demo_reply_def slice_items_def)
qed

lemma demo_session: "bq_completes demo_gq gcp_demo_world 1 (demo_reply 0) 2 (demo_reply 1)"
  "bq_pages_to demo_gq gcp_demo_world 2 [] (demo_reply 1) [[''1'', render_json (JObj demo_payload)]]"
proof -
  have "bq_completes demo_gq gcp_demo_world (Suc 1) (demo_reply 1) 2 (demo_reply 1)"
    using bq_completes.complete [of "demo_reply 1" demo_gq gcp_demo_world 2] by (simp add: demo_reply_def numeral_2_eq_2)
  then show "bq_completes demo_gq gcp_demo_world 1 (demo_reply 0) 2 (demo_reply 1)"
    by (rule bq_completes.wait [where ref = "\<lparr>JobID = ''j1'', JobLocation = []\<rparr>", rotated -1])
      (simp_all add: demo_bq_call, simp_all add: demo_reply_def gcp_demo_world_def)
  have "bq_pages_to demo_gq gcp_demo_world (Suc 2) (BqToken (demo_reply 1) # []) (demo_reply 2) []"
    by (rule bq_pages_to.last_page) (simp add: demo_reply_def)
  then have "bq_pages_to demo_gq gcp_demo_world 2 [] (demo_reply 1) (page_rows (demo_reply 2) @ [])"
    by (rule bq_pages_to.next_page [where ref = "\<lparr>JobID = ''j1'', JobLocation = []\<rparr>", rotated -1])
      (simp_all add: demo_bq_call, simp_all add: demo_reply_def)
  moreover have "page_rows (demo_reply 2) = [[''1'', render_json (JObj demo_payload)]]"
    by (simp add: demo_reply_def page_rows_def slice_items_def)
  ultimately show "bq_pages_to demo_gq gcp_demo_world 2 [] (demo_reply 1) [[''1'', render_json (JObj demo_payload)]]" by simp
qed




definition demo_entry_gcp :: gcp_entry where
  "demo_entry_gcp = gcp_entry_of ''acme-prod'' (example_outcome [])"

lemma demo_entry_row: "entry_row demo_entry_gcp [''1'', render_json (JObj demo_payload)]"
proof -
  have "format_int (micros (snd demo_entry_gcp)) = ''1''" by code_simp
  then show ?thesis using parse_demo_payload by (simp add: entry_row_def demo_payload_def demo_entry_gcp_def)
qed


lemma demo_storable: "list_all gcp_storable (concat [[example_outcome []]])"
  by code_simp


theorem gcp_answer_is_whole_witness:
  "\<exists>rows. bq_pages_to demo_gq gcp_demo_world 2 [] (demo_reply 1) rows
    \<and> [recalled_gcp (example_outcome [])] = map row_outcome (filter outcome_row (page_rows (demo_reply 1) @ rows))"
proof -
  let ?row = "[''1'', render_json (JObj demo_payload)]"
  from demo_entry_row have "list_all2 entry_row (map (gcp_entry_of ''acme-prod'') [example_outcome []]) [?row]" by (simp add: demo_entry_gcp_def)
  from decode_hits [OF this, of 0] have d: "decode_from 0 [?row] = Inr ([recalled_gcp (example_outcome [])], 0)"
    using demo_storable by simp
  have "bq_poll demo_gq gcp_demo_world 1 (demo_reply 0) = Some (Inr (2, demo_reply 1))" by (rule poll_completes [OF demo_session(1)])
  moreover have r: "page_rows (demo_reply 1) = []" by (simp add: demo_reply_def page_rows_def slice_items_def)
  moreover have n: "sint (GqMaxRows demo_gq) = 3" by code_simp
  then have "bq_pages demo_gq gcp_demo_world 2 [] (demo_reply 1) [] = Some (Inr [?row])"
    using pages_read [OF demo_session(2), of "[]"] by simp
  ultimately have run: "bq_run demo_gq gcp_demo_world stmt ps = Some (Inr [?row])" for stmt ps
    by (simp add: bq_run_def demo_bq_call)
  have "check_labels gcp_question = None" by code_simp
  then have "gcp_fetch demo_gq gcp_demo_world gcp_question = Some (Inr [recalled_gcp (example_outcome [])])"
    using d by (simp add: gcp_fetch_def run n decode_rows_def case_prod_unfold)
  from gcp_answer_is_whole [OF this] obtain first n r rows where w:
    "bq_call demo_gq gcp_demo_world 0 ''POST'' (queries_url demo_gq)
       (Some (render_json (query_request demo_gq (fst (gcp_statement demo_gq gcp_question)) (snd (gcp_statement demo_gq gcp_question))))) = Inr first"
    "bq_completes demo_gq gcp_demo_world 1 first n r" "bq_pages_to demo_gq gcp_demo_world n [] r rows"
    "[recalled_gcp (example_outcome [])] = map row_outcome (filter outcome_row (page_rows r @ rows))" by (elim exE conjE) (rule that)
  have "first = demo_reply 0" using w(1) by (simp add: demo_bq_call)
  then have "Some (Inr (n, r)) = bq_poll demo_gq gcp_demo_world 1 (demo_reply 0)" using poll_completes [OF w(2)] by simp
  then have nr: "n = 2" "r = demo_reply 1" using poll_completes [OF demo_session(1)] by simp_all
  show ?thesis by (rule exI [of _ rows], rule conjI [OF w(3) [unfolded nr] w(4) [unfolded nr]])
qed

section \<open>Values are bound\<close>

text \<open>No value of a question enters the text of the statement, and what does enter it from the configuration has no
  character that ends the quoted table name.\<close>

lemma gcp_values_are_bound:
  assumes "new_gcplogging project dataset opts = Inr q" and "sorted_keys (EFilters qy) = sorted_keys (EFilters qy')"
  shows "fst (gcp_statement q qy) = fst (gcp_statement q qy')" and "CHR 0x60 \<notin> set (table_of q)"
proof -
  show "fst (gcp_statement q qy) = fst (gcp_statement q qy')" by (simp add: gcp_statement_def statement_conds_def assms(2))
  have v: "valid_project_id (GqProject q)" "valid_bigquery_id (GqDataset q)" "valid_bigquery_id (GqView q)"
    using assms(1) by (auto simp: new_gcplogging_def Let_def split: if_splits)
  have ascii: "CHR 0x60 \<notin> set s" if "list_all ok (rune_values s)" "\<And>r. ok r \<Longrightarrow> r < 128 \<and> r \<noteq> 96" for ok s
  proof -
    have "list_all (\<lambda>r. r < 128 \<and> r \<noteq> 96) (rune_values s)" using that by (auto simp: list_all_iff)
    moreover have "ascii_only (\<lambda>r. r < 128 \<and> r \<noteq> 96)" by (simp add: ascii_only_def)
    ultimately have "list_all (\<lambda>c. byte c < 128 \<and> byte c \<noteq> 96) s" using list_all_runes_ascii by blast
    then show ?thesis by (auto simp: list_all_iff)
  qed
  have "CHR 0x60 \<notin> set (GqProject q)"
    by (rule ascii [OF conjunct2 [OF v(1) [unfolded valid_project_id_def]]])
      (auto simp: is_digit_def is_lower_def is_upper_def in_class_def)
  moreover have "CHR 0x60 \<notin> set (GqDataset q)"
    by (rule ascii [OF conjunct2 [OF v(2) [unfolded valid_bigquery_id_def]]])
      (auto simp: is_digit_def is_lower_def is_upper_def in_class_def)
  moreover have "CHR 0x60 \<notin> set (GqView q)"
    by (rule ascii [OF conjunct2 [OF v(3) [unfolded valid_bigquery_id_def]]])
      (auto simp: is_digit_def is_lower_def is_upper_def in_class_def)
  ultimately show "CHR 0x60 \<notin> set (table_of q)" by (simp add: table_of_def)
qed

end
