(* ===== verification/Cli.thy ===== *)
theory Cli
  imports Promql Sqlq Report_Summary Engine_Compute Check_Events
begin

text \<open>
  The command line, \<open>cmd/shortfall/\<close>: the verbs \<open>validate\<close>, \<open>impact\<close>, \<open>reconcile\<close>, \<open>check-events\<close> and
  \<open>version\<close>, with Go's flag package, the composition of a querier from the configured backends, and the one
  list of formats. The file system, the YAML decoder, the database driver, the HTTP client, the clock and the
  indented JSON of a report are parameters.
\<close>

section \<open>Flags\<close>

text \<open>\<open>FlagSet.Parse\<close> for flags that take a value: the settings in order, or an error. Parsing stops at the first
  argument that is no flag.\<close>

fun parse_flags :: "string list \<Rightarrow> string list \<Rightarrow> (string \<times> string) list option" where
  "parse_flags names [] = Some []"
| "parse_flags names (s # args) =
     (if length s < 2 \<or> hd s \<noteq> CHR ''-'' \<or> s = ''--'' then Some []
      else
        (let name = drop (if s ! 1 = CHR ''-'' then 2 else 1) s in
         if name = [] \<or> hd name = CHR ''-'' \<or> hd name = CHR ''='' then None
         else
           (let (tail, v, eq) = cut (CHR ''='') (tl name); n = hd name # tail in
            if n \<notin> set names then None
            else if eq then map_option ((#) (n, v)) (parse_flags names args)
            else case args of [] \<Rightarrow> None | a # rest \<Rightarrow> map_option ((#) (n, a)) (parse_flags names rest))))"

definition flag_value :: "string \<Rightarrow> string \<Rightarrow> (string \<times> string) list \<Rightarrow> string" where
  "flag_value name dflt sets = fold (\<lambda>(n, v) x. if n = name then v else x) sets dflt"

definition flag_list :: "string \<Rightarrow> (string \<times> string) list \<Rightarrow> string list" where
  "flag_list name sets = map snd [s \<leftarrow> sets. fst s = name]"

section \<open>Formats\<close>

definition format_vocabulary :: "string list" where
  "format_vocabulary = [''text'', ''json'', ''markdown'']"

definition format_usage :: string where
  "format_usage = join_with (CHR ''|'') format_vocabulary"

definition known_format :: "string \<Rightarrow> bool" where
  "known_format name \<longleftrightarrow> name \<in> set format_vocabulary"

datatype cli_note =
    UsageNote
  | FlagNote
  | FileNote string
  | RegistryNote registry_error
  | FromNote string
  | ToNote string
  | FormatNote string
  | ScopeNote string
  | SqlOpenNote string
  | SqlNote string
  | NoQuerierNote
  | CoverageNote string
  | LedgerDecodeNote
  | LedgerRowNote nat ledger_error
  | RenderNote string
  | CheckNote check_report

text \<open>The exit code, the standard output, and the standard error's messages.\<close>

type_synonym run_result = "int \<times> string \<times> cli_note list"

record renderings =
  AsText :: string
  AsMarkdown :: string
  AsJson :: "string + string"

definition render_format :: "string \<Rightarrow> renderings \<Rightarrow> run_result" where
  "render_format format r =
     (if format = ''text'' then (0, AsText r, [])
      else if format = ''markdown'' then (0, AsMarkdown r, [])
      else if format = ''json'' then
        (case AsJson r of Inl e \<Rightarrow> (1, [], [RenderNote e]) | Inr b \<Rightarrow> (0, b @ nl, []))
      else (2, [], [FormatNote format]))"

section \<open>The outside world\<close>

record cli_env =
  read_file :: "string \<Rightarrow> string + string"
  open_file :: "string \<Rightarrow> string + string \<times> string option"
  yaml_decode :: "string \<Rightarrow> registry_doc option"
  yaml_end :: "string \<Rightarrow> bool"
  sql_open :: "string \<Rightarrow> string \<Rightarrow> string + database"
  http_client :: prom_client
  spell_error :: "promql_error \<Rightarrow> string"
  cancels :: "prom_bucket \<Rightarrow> promql_error option"
  out_of_range :: "f64 \<Rightarrow> i64"
  clock :: "nat \<Rightarrow> time"
  json_report :: "report \<Rightarrow> string + string"
  json_coverage :: "coverage_leg \<Rightarrow> coverage_slice list \<Rightarrow> string + string"
  build_info :: "(string \<times> (string \<times> string) list) option"

definition load_registry :: "cli_env \<Rightarrow> string \<Rightarrow> cli_note + registry" where
  "load_registry env path =
     (case read_file env path of
        Inl e \<Rightarrow> Inl (FileNote e)
      | Inr raw \<Rightarrow> map_sum RegistryNote id (parse (yaml_decode env) (yaml_end env) raw))"

definition parse_scopes :: "string list \<Rightarrow> cli_note + labels" where
  "parse_scopes scopes =
     fold_err (\<lambda>kv s. let (k, v, ok) = cut (CHR ''='') kv in if \<not> ok \<or> k = [] then Inl (ScopeNote kv) else Inr (map_put k v s))
       scopes []"

definition build_querier :: "cli_env \<Rightarrow> string \<Rightarrow> string \<Rightarrow> string \<Rightarrow> cli_note + querier" where
  "build_querier env prom_url sql_dsn sql_driver =
     (let metrics = (if prom_url \<noteq> [] then Some (promql_querier (spell_error env) (out_of_range env) (cancels env)
            (new_promql (http_client env) prom_url [])) else None);
          events = (if sql_dsn \<noteq> [] then
              (case sql_open env sql_driver sql_dsn of
                 Inl e \<Rightarrow> Inl (SqlOpenNote e)
               | Inr db \<Rightarrow> map_sum SqlNote (Some \<circ> sql_querier_of) (new_sql db []))
            else Inr None)
      in case events of
           Inl e \<Rightarrow> Inl e
         | Inr None \<Rightarrow> (case metrics of None \<Rightarrow> Inl NoQuerierNote | Some m \<Rightarrow> Inr m)
         | Inr (Some e) \<Rightarrow> (case metrics of None \<Rightarrow> Inr e | Some m \<Rightarrow> Inr (combined m e)))"

section \<open>impact\<close>

definition impact_flags :: "string list" where
  "impact_flags = [''registry'', ''from'', ''to'', ''format'', ''prometheus'', ''sql'', ''sql-driver'', ''flow'', ''scope'']"

definition impact_renderings :: "cli_env \<Rightarrow> report \<Rightarrow> renderings" where
  "impact_renderings env rep = \<lparr>AsText = render_text rep, AsMarkdown = render_markdown rep, AsJson = json_report env rep\<rparr>"

definition run_impact :: "cli_env \<Rightarrow> string list \<Rightarrow> run_result" where
  "run_impact env args =
     (case parse_flags impact_flags args of
        None \<Rightarrow> (2, [], [FlagNote])
      | Some sets \<Rightarrow>
          (let flag = (\<lambda>n d. flag_value n d sets); format = flag ''format'' ''text'' in
           if flag ''registry'' [] = [] \<or> flag ''from'' [] = [] \<or> flag ''to'' [] = [] then (2, [], [UsageNote])
           else case load_registry env (flag ''registry'' []) of
             Inl e \<Rightarrow> (1, [], [e])
           | Inr reg \<Rightarrow>
          (case parse_rfc3339 (flag ''from'' []) of
             None \<Rightarrow> (2, [], [FromNote (flag ''from'' [])])
           | Some t0 \<Rightarrow>
          (case parse_rfc3339 (flag ''to'' []) of
             None \<Rightarrow> (2, [], [ToNote (flag ''to'' [])])
           | Some t1 \<Rightarrow>
           if \<not> known_format format then (2, [], [FormatNote format])
           else case parse_scopes (flag_list ''scope'' sets) of
             Inl e \<Rightarrow> (2, [], [e])
           | Inr scope \<Rightarrow>
          (case build_querier env (flag ''prometheus'' []) (flag ''sql'' []) (flag ''sql-driver'' ''sqlite'') of
             Inl e \<Rightarrow> (2, [], [e])
           | Inr q \<Rightarrow>
               (let rep = compute (out_of_range env) (clock env 0) (Some reg) q
                      \<lparr>Window = \<lparr>From = t0, To = t1\<rparr>, Scope = scope, Flows = flag_list ''flow'' sets\<rparr>
                in render_format format (impact_renderings env rep)))))))"

section \<open>reconcile\<close>

definition row_tags :: "string list" where "row_tags = [''Flow'', ''Outcome'', ''Money'', ''Count'']"
definition money_tags :: "string list" where "money_tags = [''Amount'', ''Currency'', ''Exponent'']"

text \<open>The decoder on structs without tags: the fields' own names in any case, unknown keys passed over.\<close>

definition into_money :: "json \<Rightarrow> money \<Rightarrow> money option" where
  "into_money v m =
     (case v of
        JNull \<Rightarrow> Some m
      | JObj ms \<Rightarrow>
          (case (take_values (into_int 64) (values_for money_tags ''Amount'' ms) (sint (Amount m)),
                 take_values into_string (values_for money_tags ''Currency'' ms) (Currency m),
                 take_values (into_int 8) (values_for money_tags ''Exponent'' ms) (sint (Exponent m))) of
             (Some a, Some c, Some e) \<Rightarrow> Some \<lparr>Amount = word_of_int a, Currency = c, Exponent = word_of_int e\<rparr>
           | _ \<Rightarrow> None)
      | _ \<Rightarrow> None)"

definition into_ledger_row :: "json \<Rightarrow> ledger_row \<Rightarrow> ledger_row option" where
  "into_ledger_row v r =
     (case v of
        JNull \<Rightarrow> Some r
      | JObj ms \<Rightarrow>
          (case (take_values into_string (values_for row_tags ''Flow'' ms) (LFlow r),
                 take_values into_string (values_for row_tags ''Outcome'' ms) (LOutcome r),
                 take_values into_money (values_for row_tags ''Money'' ms) (LMoney r),
                 take_values (into_int 64) (values_for row_tags ''Count'' ms) (sint (LCount r))) of
             (Some f, Some x, Some m, Some n) \<Rightarrow> Some \<lparr>LFlow = f, LOutcome = x, LMoney = m, LCount = word_of_int n\<rparr>
           | _ \<Rightarrow> None)
      | _ \<Rightarrow> None)"

definition zero_row :: ledger_row where
  "zero_row = \<lparr>LFlow = [], LOutcome = [], LMoney = zero_money, LCount = 0\<rparr>"

fun check_rows :: "nat \<Rightarrow> ledger_row list \<Rightarrow> cli_note option" where
  "check_rows i [] = None"
| "check_rows i (r # rs) = (case ledger_validate r of Some e \<Rightarrow> Some (LedgerRowNote i e) | None \<Rightarrow> check_rows (Suc i) rs)"

definition load_ledger :: "cli_env \<Rightarrow> string \<Rightarrow> cli_note + ledger_row list" where
  "load_ledger env path =
     (case read_file env path of
        Inl e \<Rightarrow> Inl (FileNote e)
      | Inr b \<Rightarrow>
          (case Option.bind (parse_json b) (\<lambda>v. into_slice into_ledger_row zero_row v (0, [])) of
             None \<Rightarrow> Inl LedgerDecodeNote
           | Some s \<Rightarrow> (case check_rows 0 (slice_items s) of Some e \<Rightarrow> Inl e | None \<Rightarrow> Inr (slice_items s))))"

definition reconcile_flags :: "string list" where
  "reconcile_flags = [''registry'', ''from'', ''to'', ''ledger'', ''source'', ''format'', ''prometheus'', ''sql'', ''sql-driver'', ''flow'']"

definition coverage_renderings :: "cli_env \<Rightarrow> coverage_leg \<Rightarrow> coverage_slice list \<Rightarrow> renderings" where
  "coverage_renderings env leg slices =
     \<lparr>AsText = render_coverage_text leg slices, AsMarkdown = render_coverage_markdown leg slices, AsJson = json_coverage env leg slices\<rparr>"

definition run_reconcile :: "cli_env \<Rightarrow> string list \<Rightarrow> run_result" where
  "run_reconcile env args =
     (case parse_flags reconcile_flags args of
        None \<Rightarrow> (2, [], [FlagNote])
      | Some sets \<Rightarrow>
          (let flag = (\<lambda>n d. flag_value n d sets); format = flag ''format'' ''text'' in
           if flag ''registry'' [] = [] \<or> flag ''from'' [] = [] \<or> flag ''to'' [] = [] \<or> flag ''ledger'' [] = []
           then (2, [], [UsageNote])
           else case load_registry env (flag ''registry'' []) of
             Inl e \<Rightarrow> (1, [], [e])
           | Inr reg \<Rightarrow>
          (case parse_rfc3339 (flag ''from'' []) of
             None \<Rightarrow> (2, [], [FromNote (flag ''from'' [])])
           | Some t0 \<Rightarrow>
          (case parse_rfc3339 (flag ''to'' []) of
             None \<Rightarrow> (2, [], [ToNote (flag ''to'' [])])
           | Some t1 \<Rightarrow>
           if \<not> known_format format then (2, [], [FormatNote format])
           else case load_ledger env (flag ''ledger'' []) of
             Inl e \<Rightarrow> (1, [], [e])
           | Inr ledger \<Rightarrow>
          (case build_querier env (flag ''prometheus'' []) (flag ''sql'' []) (flag ''sql-driver'' ''sqlite'') of
             Inl e \<Rightarrow> (2, [], [e])
           | Inr q \<Rightarrow>
               (let src = (if flag ''source'' [] = [] then flag ''ledger'' [] else flag ''source'' []) in
                case coverage (out_of_range env) (Some reg) q
                       \<lparr>Window = \<lparr>From = t0, To = t1\<rparr>, Scope = [], Flows = flag_list ''flow'' sets\<rparr> ledger src of
                  Inl e \<Rightarrow> (1, [], [CoverageNote e])
                | Inr (leg, slices) \<Rightarrow> render_format format (coverage_renderings env leg slices)))))))"

section \<open>version\<close>

definition dev_version :: string where "dev_version = ''dev''"
definition dev_commit :: string where "dev_commit = ''none''"
definition revision_len :: nat where "revision_len = 12"

definition str_contains :: "string \<Rightarrow> string \<Rightarrow> bool" where
  "str_contains s sub \<longleftrightarrow> list_ex (\<lambda>i. has_prefix (drop i s) sub) [0..<Suc (length s)]"

text \<open>The build info is the main module's version with the settings, or none. The last setting of a key counts.\<close>

definition resolve_build :: "string \<Rightarrow> string \<Rightarrow> (string \<times> (string \<times> string) list) option \<Rightarrow> string \<times> string" where
  "resolve_build ld_version ld_commit info =
     (if ld_version \<noteq> dev_version then (ld_version, ld_commit)
      else case info of
        None \<Rightarrow> (dev_version, [])
      | Some (main_version, settings) \<Rightarrow>
          (let version = (if main_version \<noteq> [] \<and> main_version \<noteq> ''(devel)'' then main_version else dev_version);
               revision = flag_value ''vcs.revision'' [] settings;
               modified = flag_value ''vcs.modified'' [] settings;
               commit = take revision_len revision
           in if revision = [] \<or> str_contains version commit then (version, [])
              else (version, if modified = ''true'' then commit @ ''+dirty'' else commit)))"

definition format_version_line :: "string \<Rightarrow> string \<Rightarrow> string" where
  "format_version_line version commit =
     (if commit = [] then ''shortfall '' @ version else ''shortfall '' @ version @ '' ('' @ commit @ '')'')"

definition version_line :: "cli_env \<Rightarrow> string \<Rightarrow> string \<Rightarrow> string" where
  "version_line env ld_version ld_commit = case_prod format_version_line (resolve_build ld_version ld_commit (build_info env))"

section \<open>main\<close>

definition validate_summary :: "string \<Rightarrow> registry \<Rightarrow> string" where
  "validate_summary path reg =
     path @ '': ok '' @ dash @ '' '' @ digits_of (length (flow_names reg)) @ '' flow(s), '' @ digits_of (length (Segments reg))
       @ '' segment(s)'' @ nl"

definition run_cli :: "cli_env \<Rightarrow> string \<Rightarrow> string \<Rightarrow> string list \<Rightarrow> run_result" where
  "run_cli env ld_version ld_commit args =
     (case args of
        [] \<Rightarrow> (2, [], [UsageNote])
      | verb # rest \<Rightarrow>
          if verb = ''--version'' \<or> verb = ''version'' then (0, version_line env ld_version ld_commit @ nl, [])
          else if verb = ''validate'' then
            (case rest of
               [path] \<Rightarrow>
                 (case load_registry env path of
                    Inl e \<Rightarrow> (1, [], [e])
                  | Inr reg \<Rightarrow> (0, validate_summary path reg, []))
             | _ \<Rightarrow> (2, [], [UsageNote]))
          else if verb = ''impact'' then run_impact env rest
          else if verb = ''reconcile'' then run_reconcile env rest
          else if verb = ''check-events'' then
            (let (code, out, notes) = run_check_events (open_file env) (clock env) rest in (code, out, map CheckNote notes))
          else (2, [], [UsageNote]))"

section \<open>Flags come through\<close>

definition flag_name :: "string \<Rightarrow> bool" where
  "flag_name n \<longleftrightarrow> n \<noteq> [] \<and> hd n \<noteq> CHR ''-'' \<and> CHR ''='' \<notin> set n"

definition flag_args :: "(string \<times> string) list \<Rightarrow> string list" where
  "flag_args sets = concat (map (\<lambda>(n, v). [''--'' @ n, v]) sets)"

text \<open>A flag and its value in two arguments are read as they stand, whatever the value begins with.\<close>

lemma parse_flag_args: "\<forall>s \<in> set sets. fst s \<in> set names \<and> flag_name (fst s) \<Longrightarrow> parse_flags names (flag_args sets) = Some sets"
proof (induction sets)
  case (Cons s sets)
  obtain n v where s: "s = (n, v)" by (cases s)
  have n: "n \<in> set names" "flag_name n" using Cons.prems by (simp_all add: s)
  then have ne: "n \<noteq> []" by (simp add: flag_name_def)
  then obtain c cs where ncs: "n = c # cs" using list.exhaust by blast
  then have c: "n = c # cs" "c \<noteq> CHR ''-''" "c \<noteq> CHR ''=''" "CHR ''='' \<notin> set cs"
    using n(2) by (auto simp: flag_name_def)
  have args: "flag_args (s # sets) = (CHR ''-'' # CHR ''-'' # n) # v # flag_args sets" by (simp add: flag_args_def s)
  show ?case
    using Cons n c unfolding args by (simp add: s cut_not_found Let_def)
qed (simp add: flag_args_def)

lemma flag_value_append [simp]: "flag_value n d (xs @ ys) = flag_value n (flag_value n d xs) ys"
  by (simp add: flag_value_def)

lemma flag_value_Cons [simp]: "flag_value n d ((m, v) # ys) = flag_value n (if m = n then v else d) ys"
  by (simp add: flag_value_def)

lemma flag_value_Nil [simp]: "flag_value n d [] = d"
  by (simp add: flag_value_def)

lemma flag_value_other: "\<forall>s \<in> set sets. fst s \<noteq> n \<Longrightarrow> flag_value n d sets = d"
  by (induction sets arbitrary: d) auto

lemma flag_list_simps [simp]:
  "flag_list n [] = []" "flag_list n ((m, v) # ys) = (if m = n then v # flag_list n ys else flag_list n ys)"
  "flag_list n (xs @ ys) = flag_list n xs @ flag_list n ys"
  by (simp_all add: flag_list_def)

lemma flag_list_same: "flag_list n (map (\<lambda>x. (m, f x)) xs) = (if m = n then map f xs else [])"
  by (induction xs) auto

lemma parse_scopes_pairs:
  "\<forall>(k, v) \<in> set ss. k \<noteq> [] \<and> CHR ''='' \<notin> set k \<Longrightarrow> parse_scopes (map (\<lambda>(k, v). k @ ''='' @ v) ss) = Inr (map_lit ss)"
proof -
  have "\<forall>(k, v) \<in> set ss. k \<noteq> [] \<and> CHR ''='' \<notin> set k \<Longrightarrow>
      fold_err (\<lambda>kv s. let (k, v, ok) = cut (CHR ''='') kv in if \<not> ok \<or> k = [] then Inl (ScopeNote kv) else Inr (map_put k v s))
        (map (\<lambda>(k, v). k @ ''='' @ v) ss) m = Inr (fold (\<lambda>(k, v). map_put k v) ss m)" for m
    by (induction ss arbitrary: m) (auto simp: cut_found)
  then show "\<forall>(k, v) \<in> set ss. k \<noteq> [] \<and> CHR ''='' \<notin> set k \<Longrightarrow> ?thesis" by (simp add: parse_scopes_def map_lit_def)
qed

section \<open>impact from the command line\<close>

definition optional :: "string \<Rightarrow> string option \<Rightarrow> (string \<times> string) list" where
  "optional n v = (case v of None \<Rightarrow> [] | Some x \<Rightarrow> [(n, x)])"

definition impact_sets ::
  "string \<Rightarrow> string \<Rightarrow> string \<Rightarrow> string list \<Rightarrow> (string \<times> string) list \<Rightarrow> string option \<Rightarrow> string option \<Rightarrow> string option \<Rightarrow> string option
     \<Rightarrow> (string \<times> string) list" where
  "impact_sets path a b fs ss url dsn driver format =
     [(''registry'', path), (''from'', a), (''to'', b)]
     @ map (\<lambda>f. (''flow'', f)) fs @ map (\<lambda>p. (''scope'', fst p @ ''='' @ snd p)) ss
     @ optional ''prometheus'' url @ optional ''sql'' dsn @ optional ''sql-driver'' driver @ optional ''format'' format"

text \<open>The backends as they are meant to be composed: metrics from Prometheus, events from the database, each
  alone when the other is not configured.\<close>

definition prometheus_at :: "cli_env \<Rightarrow> string \<Rightarrow> querier" where
  "prometheus_at env url =
     promql_querier (spell_error env) (out_of_range env) (cancels env)
       \<lparr>PqBase = rev (dropWhile ((=) (CHR ''/'')) (rev url)), PqClient = http_client env, PqWeeks = 6\<rparr>"

definition sql_over :: "database \<Rightarrow> querier" where
  "sql_over db = sql_querier_of \<lparr>SqlDb = db, SqlTable = ''biz_outcomes'', SqlWeeks = 8\<rparr>"

definition backends :: "cli_env \<Rightarrow> string option \<Rightarrow> database option \<Rightarrow> querier \<Rightarrow> bool" where
  "backends env url db q \<longleftrightarrow>
     (case (url, db) of
        (Some u, Some d) \<Rightarrow> q = combined (prometheus_at env u) (sql_over d)
      | (Some u, None) \<Rightarrow> q = prometheus_at env u
      | (None, Some d) \<Rightarrow> q = sql_over d
      | (None, None) \<Rightarrow> False)"

definition opened :: "cli_env \<Rightarrow> string option \<Rightarrow> string option \<Rightarrow> database option \<Rightarrow> bool" where
  "opened env dsn driver db \<longleftrightarrow>
     (case (dsn, db) of
        (None, None) \<Rightarrow> True
      | (Some d, Some x) \<Rightarrow> d \<noteq> [] \<and> sql_open env (case driver of None \<Rightarrow> ''sqlite'' | Some v \<Rightarrow> v) d = Inr x
      | _ \<Rightarrow> False)"

lemma flag_value_optional [simp]: "flag_value n d (optional m v) = (if n = m then (case v of None \<Rightarrow> d | Some x \<Rightarrow> x) else d)"
  by (simp add: optional_def split: option.split)

lemma flag_list_optional [simp]: "n \<noteq> m \<Longrightarrow> flag_list n (optional m v) = []"
  by (simp add: optional_def split: option.split)

lemma backends_built:
  assumes "backends env url db q" "opened env dsn driver db" "url \<noteq> Some []"
  shows "build_querier env (case url of None \<Rightarrow> [] | Some u \<Rightarrow> u) (case dsn of None \<Rightarrow> [] | Some d \<Rightarrow> d)
    (case driver of None \<Rightarrow> ''sqlite'' | Some v \<Rightarrow> v) = Inr q"
proof -
  have b: "is_bare_identifier ''biz_outcomes''" by code_simp
  have p: "promql_querier (spell_error env) (out_of_range env) (cancels env) (new_promql (http_client env) u []) = prometheus_at env u" for u
    by (simp add: prometheus_at_def new_promql_def)
  have n: "new_sql d [] = Inr \<lparr>SqlDb = d, SqlTable = ''biz_outcomes'', SqlWeeks = 8\<rparr>" for d
    using b by (simp add: new_sql_def)
  have q: "sql_querier_of \<lparr>SqlDb = d, SqlTable = ''biz_outcomes'', SqlWeeks = 8\<rparr> = sql_over d" for d
    by (simp add: sql_over_def)
  show ?thesis
    using assms by (cases url; cases dsn; cases db) (simp_all only: build_querier_def p, simp_all add: backends_def opened_def n q)
qed

text \<open>C24: \<open>shortfall impact\<close> with a registry that validates, a window given in RFC3339, any flows and scopes, and
  Prometheus, a database or both configured, computes the report the engine gives for exactly that registry, window,
  scope and flows over exactly those backends, and prints it in the format asked for, as text when none is: text and
  markdown exit with zero, JSON with zero or, when it cannot be rendered, with one.\<close>

theorem impact_prints_report:
  assumes reg: "read_file env path = Inr raw" "parse (yaml_decode env) (yaml_end env) raw = Inr reg" "path \<noteq> []"
    and win: "parse_rfc3339 a = Some t0" "a \<noteq> []" "parse_rfc3339 b = Some t1" "b \<noteq> []"
    and ss: "list_all (\<lambda>p. fst p \<noteq> [] \<and> CHR ''='' \<notin> set (fst p)) ss"
    and q: "backends env url db q" "opened env dsn driver db" "url \<noteq> Some []"
    and rep: "rep = compute (out_of_range env) (clock env 0) (Some reg) q \<lparr>Window = \<lparr>From = t0, To = t1\<rparr>, Scope = map_lit ss, Flows = fs\<rparr>"
  shows "(format \<in> {None, Some ''text''} \<longrightarrow>
      run_cli env v c (''impact'' # flag_args (impact_sets path a b fs ss url dsn driver format)) = (0, render_text rep, []))
    \<and> (format = Some ''markdown'' \<longrightarrow>
      run_cli env v c (''impact'' # flag_args (impact_sets path a b fs ss url dsn driver format)) = (0, render_markdown rep, []))
    \<and> (format = Some ''json'' \<longrightarrow>
      run_cli env v c (''impact'' # flag_args (impact_sets path a b fs ss url dsn driver format))
        = (case json_report env rep of Inl e \<Rightarrow> (1, [], [RenderNote e]) | Inr j \<Rightarrow> (0, j @ nl, [])))"
proof -
  let ?sets = "impact_sets path a b fs ss url dsn driver format"
  let ?format = "case format of None \<Rightarrow> ''text'' | Some f \<Rightarrow> f"
  have names: "list_all flag_name impact_flags" by (simp add: impact_flags_def flag_name_def)
  then have flags: "parse_flags impact_flags (flag_args ?sets) = Some ?sets"
    by (intro parse_flag_args) (auto simp: impact_sets_def impact_flags_def list_all_iff optional_def split: option.splits)
  have fixed: "flag_value n d (map (\<lambda>f. (''flow'', f)) fs) = d" "flag_value n d (map (\<lambda>p. (''scope'', fst p @ CHR ''='' # snd p)) ss) = d"
    if "n \<noteq> ''flow''" "n \<noteq> ''scope''" for n d
    using that by (auto intro!: flag_value_other)
  have vals: "flag_value ''registry'' [] ?sets = path" "flag_value ''from'' [] ?sets = a"
    "flag_value ''to'' [] ?sets = b" "flag_value ''format'' ''text'' ?sets = ?format"
    "flag_value ''prometheus'' [] ?sets = (case url of None \<Rightarrow> [] | Some u \<Rightarrow> u)"
    "flag_value ''sql'' [] ?sets = (case dsn of None \<Rightarrow> [] | Some d \<Rightarrow> d)"
    "flag_value ''sql-driver'' ''sqlite'' ?sets = (case driver of None \<Rightarrow> ''sqlite'' | Some v \<Rightarrow> v)"
    "flag_list ''flow'' ?sets = fs" "flag_list ''scope'' ?sets = map (\<lambda>p. fst p @ ''='' @ snd p) ss"
    by (simp_all add: impact_sets_def fixed flag_list_same)
  have scopes: "parse_scopes (map (\<lambda>p. fst p @ ''='' @ snd p) ss) = Inr (map_lit ss)"
    using parse_scopes_pairs [of ss] ss by (simp add: list_all_iff case_prod_beta')
  have r: "load_registry env path = Inr reg" using reg by (simp add: load_registry_def)
  have "known_format ?format \<Longrightarrow> run_impact env (flag_args ?sets) = render_format ?format (impact_renderings env rep)"
    unfolding run_impact_def flags option.case Let_def vals r sum.case win scopes backends_built [OF q] rep
    using reg(3) win(2,4) by (simp only: if_False simp_thms)
  then show ?thesis
    by (auto simp: run_cli_def known_format_def format_vocabulary_def render_format_def impact_renderings_def split: sum.split)
qed

definition demo_env :: cli_env where
  "demo_env = \<lparr>read_file = (\<lambda>_. Inr ''''), open_file = (\<lambda>_. Inl ''no such file''), yaml_decode = (\<lambda>_. Some example_doc),
     yaml_end = (\<lambda>_. True),
     sql_open = (\<lambda>_ _. Inr \<lparr>db_query = (\<lambda>_ _. Inr ([], None)), db_query_row = (\<lambda>_ _. Inr 0)\<rparr>),
     http_client = \<lparr>bad_request = (\<lambda>_. None), do_request = (\<lambda>_. Inl ''connection refused'')\<rparr>, spell_error = (\<lambda>_. ''promql''),
     cancels = (\<lambda>_. None), out_of_range = (\<lambda>_. 0), clock = (\<lambda>_. 0), json_report = (\<lambda>_. Inl ''json''),
     json_coverage = (\<lambda>_ _. Inl ''json''), build_info = None\<rparr>"

text \<open>A database alone, and no format.\<close>

theorem impact_prints_report_witness:
  "fst (run_cli demo_env ''dev'' ''none''
     (''impact'' # flag_args (impact_sets ''r.yaml'' ''2026-01-02T03:04:05Z'' ''2026-01-02T05:04:05+01:00'' [''checkout''] [(''stage'', ''capture'')]
        None (Some ''x.db'') None None))) = 0"
proof -
  let ?db = "\<lparr>db_query = (\<lambda>_ _. Inr ([], None)), db_query_row = (\<lambda>_ _. Inr 0)\<rparr>"
  have "\<not> isl (parse (\<lambda>_. Some example_doc) (\<lambda>_. True) '''')" by code_simp
  then obtain reg where r: "parse (yaml_decode demo_env) (yaml_end demo_env) '''' = Inr reg"
    by (cases "parse (\<lambda>_. Some example_doc) (\<lambda>_. True) ''''") (auto simp: demo_env_def)
  have "parse_rfc3339 ''2026-01-02T03:04:05Z'' \<noteq> None" "parse_rfc3339 ''2026-01-02T05:04:05+01:00'' \<noteq> None" by code_simp+
  then obtain t0 t1 where t: "parse_rfc3339 ''2026-01-02T03:04:05Z'' = Some t0" "parse_rfc3339 ''2026-01-02T05:04:05+01:00'' = Some t1"
    by blast
  have b: "backends demo_env None (Some ?db) (sql_over ?db)" "opened demo_env (Some ''x.db'') None (Some ?db)"
    by (simp_all add: backends_def opened_def demo_env_def)
  show ?thesis
    using impact_prints_report [OF _ r _ t(1) _ t(2) _ _ b _ refl, of "''r.yaml''" "[(''stage'', ''capture'')]" None "''dev''" "''none''" "[''checkout'']"]
    by (simp add: demo_env_def)
qed

section \<open>The ledger of reconcile\<close>

lemma check_rows_valid: "check_rows i rs = None \<longleftrightarrow> list_all (\<lambda>r. ledger_validate r = None) rs"
  by (induction rs arbitrary: i) (auto split: option.splits)

lemma loaded_ledger_valid: "load_ledger env path = Inr rows \<Longrightarrow> list_all (\<lambda>r. ledger_validate r = None) rows"
  using check_rows_valid by (auto simp: load_ledger_def split: sum.splits option.splits)

text \<open>The decoder passes over a key it does not know: a row whose amount is under another name is a row of nothing,
  and validates.\<close>

definition misspelt_row :: json where
  "misspelt_row = JArr [JObj [(''Flow'', JStr ''checkout''), (''Outcome'', JStr ''success''),
     (''Money'', JObj [(''amount_minor'', JNum ''14900''), (''Currency'', JStr ''USD''), (''Exponent'', JNum ''2'')]),
     (''Count'', JNum ''1'')]]"

lemma misspelt_amount_loads:
  "load_ledger (demo_env\<lparr>read_file := (\<lambda>_. Inr (render_json misspelt_row))\<rparr>) path
    = Inr [\<lparr>LFlow = ''checkout'', LOutcome = ''success'', LMoney = \<lparr>Amount = 0, Currency = ''USD'', Exponent = 2\<rparr>, LCount = 1\<rparr>]"
proof -
  have "parse_json (render_json misspelt_row) = Some (canon misspelt_row)" by (rule parse_render) code_simp+
  moreover have "canon misspelt_row = misspelt_row" by code_simp
  ultimately have p: "parse_json (render_json misspelt_row) = Some misspelt_row" by simp
  have d: "map_option slice_items (into_slice into_ledger_row zero_row misspelt_row (0, []))
      = Some [\<lparr>LFlow = ''checkout'', LOutcome = ''success'', LMoney = \<lparr>Amount = 0, Currency = ''USD'', Exponent = 2\<rparr>, LCount = 1\<rparr>]"
    by code_simp
  moreover have "check_rows 0 [\<lparr>LFlow = ''checkout'', LOutcome = ''success'', LMoney = \<lparr>Amount = 0, Currency = ''USD'', Exponent = 2\<rparr>, LCount = 1\<rparr>] = None"
    by code_simp
  ultimately show ?thesis by (auto simp: load_ledger_def p)
qed

section \<open>A format nothing renders\<close>

text \<open>A wrong format is refused before a backend is opened: the run is the same whatever the backends are.\<close>

lemma bad_format_opens_nothing:
  assumes "parse_flags impact_flags args = Some sets" "\<not> known_format (flag_value ''format'' ''text'' sets)"
  shows "run_impact (env\<lparr>sql_open := so, http_client := hc\<rparr>) args = run_impact env args \<and> fst (run_impact env args) \<noteq> 0"
  using assms by (auto simp: run_impact_def Let_def load_registry_def split: sum.splits option.splits)

text \<open>The early check and the dispatcher agree.\<close>

lemma render_format_known: "fst (render_format format r) = 2 \<longleftrightarrow> \<not> known_format format"
  by (auto simp: render_format_def known_format_def format_vocabulary_def split: sum.splits)

end
