(* ===== verification/Spec2Isabelle.thy ===== *)
theory Spec2Isabelle
  imports Biz_Baggage Emit_Steps InFlight Engine_Customers Engine_Severity Engine_Coverage Engine_Deferred Engine_Compute Propagate Httpmw
    Stripe_Reconcile Report_Summary Sqlq_Exact Cloudwatch_Backend Promql_Exact Gcp_Backend Cli
begin

text \<open>
  A verification library of shortfall (Go), the service that says what an incident costs: how much
  value was lost, is waiting, or never arrived. This theory imports the others.

  \<^bold>\<open>The program.\<close> Code on the business path attaches a \<^emph>\<open>value context\<close> (flow, entity, money) to a
  request; it travels between processes as one header, is read back, and is recorded together with an
  outcome (success, failed, deferred, abandoned) through the emitter, which turns it into metrics and
  events. Later the engine asks a backend, through two verbs (metric and event queries), what happened
  in a window, and composes a report of legs: realized loss, deferred (in-flight) value, unrealized
  (counterfactual) loss, customers hit, coverage against a ledger, and a suggested severity. A registry
  file declares flows, stages, deadlines, estimators and the hosts the context may be sent to.

  \<^bold>\<open>Theories and the files under src/ they model.\<close>
  \<^item> \<open>Prelude\<close>, \<open>Go_Strings\<close>, \<open>Float64\<close>, \<open>Float_Order\<close>: what the source uses of the language and its
    standard library. \<open>int64\<close> and \<open>int8\<close> are words read by \<^const>\<open>sint\<close>, so \<open>+\<close> wraps; a string is its list
    of bytes, with a UTF-8 decoder for the loops over runes; a \<open>float64\<close> is a rational or an infinity or
    NaN, rounded to nearest, ties to even; a map is an association list with distinct keys whose order
    stands for one iteration order; a time is its nanosecond. The order of \<open>sort.Float64s\<close> is an instance
    of the library's linear orders.
  \<^item> \<open>Biz_Money\<close>, \<open>Biz_PII\<close>, \<open>Biz_Context\<close>, \<open>Biz_Baggage\<close>: \<open>biz/money.go\<close>, \<open>biz/pii.go\<close>, \<open>biz/context.go\<close>,
    \<open>biz/ledger.go\<close>, \<open>biz/baggage.go\<close>. Money parsing and printing against exact decimals, the detectors of
    card numbers and IBANs against their checksums, what a validated outcome cannot hold, and the codec's
    round trips in both directions.
  \<^item> \<open>Registry_Duration\<close>, \<open>Registry\<close>: \<open>registry/duration.go\<close>, \<open>registry/registry.go\<close>. ISO durations against
    a grammar, what an accepted registry guarantees, the host fence against a label-wise specification.
  \<^item> \<open>Dedup\<close>, \<open>Emit\<close>, \<open>Emit_Steps\<close>: \<open>emit/emit.go\<close>, \<open>emit/emitter.go\<close>. \<open>Dedup\<close> is the two-generation set, a
    locale of de-duplicating sets interpreted on it. \<open>Emit\<close> has one function per critical section of the
    emitter, composed into its methods; \<open>Emit_Steps\<close> lets any number of callers and flushes interleave as
    an inductive step relation, proves its invariants (nothing lost silently, every drop counted, bounded
    buffers, provider pairs and series) by rule induction, and shows that the methods are runs of it.
  \<^item> \<open>InFlight\<close>: \<open>emit/inflight.go\<close>. The sharded tracker refines a bounded map, under any hash.
  \<^item> \<open>Query\<close>, \<open>Memq\<close>: \<open>query/query.go\<close>, \<open>query/combine.go\<close>, \<open>query/memq/memq.go\<close>. Questions, answers and
    what an event question means; a locale of event backends, interpreted on the in-memory backend.
  \<^item> \<open>Engine\<close>, \<open>Engine_Realized\<close>, \<open>Engine_Customers\<close>, \<open>Engine_Severity\<close>, \<open>Engine_Coverage\<close>, \<open>Engine_Deferred\<close>:
    the leg of the same name in \<open>engine/\<close>. Over any combination with the in-memory event backend each leg
    is the quantity defined directly on the stored outcomes.
  \<^item> \<open>Baseline\<close>, \<open>Engine_Unrealized\<close>: \<open>engine/baseline/baseline.go\<close>, \<open>engine/unrealized.go\<close>. The interface
    \<open>Baseline\<close> is a locale, interpreted on the hour-of-week baseline; the leg's lemmas on ordered ranges are
    proved from the contract, for a backend with sane numbers and positive estimators (what a parsed registry has).
  \<^item> \<open>Engine_Compute\<close>: \<open>Compute\<close> in \<open>engine/engine.go\<close>, which composes the legs. A failed leg is marked and
    names its error, a computed one is reported as it is, and a backend that is down never reads as zero loss.
  \<^item> \<open>Propagate\<close>, \<open>Httpmw\<close>: \<open>propagate/carrier.go\<close>, its Kafka, SQS and AMQP carriers (a locale and three
    interpretations), and \<open>propagate/httpmw/httpmw.go\<close>.
  \<^item> \<open>Stripe\<close>, \<open>Stripe_Reconcile\<close>: \<open>adapters/payment/stripe/\<close>. Verified webhooks become outcomes that the
    emitter's boundary can reject only for their value context; the label of an observed call holds no id;
    reconciliation is exact over any provider that serves a list, agrees with the webhooks, and can be kept
    from returning by a pager that alternates between two cursors.
  \<^item> \<open>Go_Format\<close>, \<open>Report\<close>, \<open>Report_Summary\<close>: \<open>engine/report/\<close>. \<open>Go_Format\<close> has the calendar, the layouts and
    the verbs the renderers use. The line of amounts determines the amounts, ranges are never inverted, and
    the CSV table is read back exactly.
  \<^item> \<open>Sqlq\<close>, \<open>Sql_Lang\<close>, \<open>Sqlq_Exact\<close>: \<open>adapters/query/sql/sql.go\<close>. \<open>Sql_Lang\<close> is a fragment of SQL by itself:
    a syntax tree, its text, its arguments and its meaning over the documented schema, with no definition of the code
    in it. The code's text and arguments are proved to be those of the statement a question stands for, and over a
    database that answers that statement as SQL says the backend agrees with the in-memory one, order and limit
    included; no value of a question enters a statement.
  \<^item> \<open>Go_Json\<close>, \<open>Go_Json_Codec\<close>, \<open>Go_Clock\<close>: what the code uses of \<open>encoding/json\<close> (the escaping encoder, a lexer
    and a stack machine with the decoder's nesting limit, struct fields matched exactly and under folding) and
    of \<open>time.Parse\<close>, with the round trips of both.
  \<^item> \<open>Eventline\<close>, \<open>Cloudwatch\<close>, \<open>Cloudwatch_Export\<close>, \<open>Cwinsights\<close>, \<open>Cloudwatch_Trip\<close>, \<open>Cloudwatch_Backend\<close>:
    \<open>biz/semconv.go\<close>, \<open>eventline/\<close>, \<open>adapters/export/cloudwatch/\<close>, \<open>adapters/query/cwinsights/\<close>. The exporter's
    log is a prefix of what was exported and whole after a clean shutdown, a line is read back as the outcome it
    was written from, and the Insights querier over such a log is an event backend: the engine's legs are exact
    over it. What the service does is stated at its HTTP interface (StartQuery, then polls of GetQueryResults) over a query written down apart from the code, which the code's calls are proved to be; that the
    service accepts their signatures is part of that statement.
  \<^item> \<open>Gcp\<close>, \<open>Gcplogging\<close>, \<open>Gcp_Backend\<close>: \<open>adapters/export/gcp/\<close>, \<open>adapters/query/gcplogging/\<close>. The same
    round trip through Google Cloud: exporter, sink, logging agent, BigQuery, querier; no answer is ever drawn from
    a part of the result, and no value of a question enters the statement.
  \<^item> \<open>Go_Float\<close>, \<open>Prom_Export\<close>, \<open>Promql\<close>, \<open>Promql_Lang\<close>, \<open>Promql_Exact\<close>: \<open>adapters/export/prometheus/\<close>,
    \<open>adapters/query/promql/\<close>, over a model of \<open>strconv.ParseFloat\<close>, of fixed-point formatting and of URL queries. The
    gauges show their freshest points in any order of delivery, the last of a tie; \<open>Promql_Lang\<close> is a fragment of
    PromQL by itself (tree, text, meaning over scraped samples), the text of a counter query is proved to be that
    of the tree for it, and a server that answers the tree as PromQL says gives the numbers of the in-memory backend; the concurrency of a stepped
    query has no effect on its answer.
  \<^item> \<open>Check_Events\<close>, \<open>Cli\<close>: \<open>cmd/shortfall/\<close>. A file that passes the gate is one the decoder and the emitter's
    boundary accept line by line, the exporter's own log passes it, and a verb prints the report the engine
    returns for the arguments given, over Prometheus, a database or both.

  \<^bold>\<open>State and operations.\<close> A struct is a record with the source's fields, an enumeration a datatype or
  the source's strings, a method a function from state to state. Errors are a sum type: in the \<open>biz\<close> and
  \<open>registry\<close> packages a datatype with one constructor per error, in the engine the error's text. A loop is
  a fold or a structural recursion; the loop over the hours of a window recurses with a measure. No fuel is
  used: the loops that may not end, the paging of the reconciliation and the polling and paging of Insights and BigQuery, are
  partial functions whose \<open>None\<close> is the run that never returns.

  \<^bold>\<open>Parameters.\<close> Code that is not in the repository is an argument of the definitions that use it, with
  what is relied on as a named hypothesis: the YAML decoder, the OpenTelemetry baggage package, the exporter
  behind the emitter, the base HTTP transport, the shard hash, the Stripe SDK, the SQL database, the sink of the
  CloudWatch log, the HTTP clients of the log queriers and the hash functions of their signatures, the
  client library and the server of Prometheus, the files, the build information and the drivers the command line opens, and
  the JSON encoding of a whole report. The conversion of an out-of-range float to
  \<open>int64\<close>, which Go leaves to the target, is the parameter \<open>oob\<close>; lower- and upper-casing of strings outside
  ASCII are the parameters \<open>unicode_lower\<close> and \<open>unicode_upper\<close>. Clocks are arguments. One report reads one state of its backend, so a
  backend is a record of functions and the cancellation of contexts is left out.

  \<^bold>\<open>Not modelled.\<close> Log output where no result depends on it; the goroutines that call \<open>Flush\<close> and
  \<open>Publish\<close> on a ticker (their calls are steps); encoders and clients that only translate to and from
  third-party SDKs or network services (the OTLP exporter,
  \<open>adapters/incident\<close>); JSON output through reflection; and code that is not part of the
  service: the test kit, the repository's linters (\<open>test\<close>) and the example programs.
\<close>

end
